(* ===== verification/Luau_Prelude.thy ===== *)
theory Luau_Prelude
  imports Main "HOL-Library.Word" "HOL-Library.Monad_Syntax"
begin

unbundle bit_operations_syntax

text \<open>
  Shared vocabulary of the development: the fixed-width integers of the Rust sources, the
  run-time checks that every component performs (assertions and bounds-checked indexing), and the
  list, modulus and word lemmas that several components use.

  A Rust operation that can panic is a function into \<open>option\<close>: \<open>None\<close> is the panic (a failed
  assertion, an index out of range, an \<open>unwrap\<close> of nothing) and \<open>Some\<close> the normal return, so
  that a theorem with \<open>Some\<close> on its right-hand side says that the code returns.
  \<open>usize\<close> values that count elements held in memory are natural numbers; the width is written out
  where the source relies on it.
\<close>

section \<open>Types\<close>

type_synonym u8 = "8 word"
type_synonym u16 = "16 word"
type_synonym u32 = "32 word"
type_synonym u64 = "64 word"
type_synonym byte = u8
type_synonym bytes = "u8 list"

named_theorems panic_defs \<open>the run-time checks of the sources\<close>
named_theorems word_fields \<open>projections of packed words\<close>

section \<open>Run-time checks\<close>

text \<open>\<open>LUAU_ASSERT\<close> in a build with assertions: the computation stops when the condition is false.\<close>

definition LUAU_ASSERT :: "bool \<Rightarrow> unit option" where
  "LUAU_ASSERT b = (if b then Some () else None)"

text \<open>\<open>xs[i]\<close> and \<open>xs[i] = v\<close> on slices and vectors, which panic out of range.\<close>

definition index_checked :: "'a list \<Rightarrow> nat \<Rightarrow> 'a option" where
  "index_checked xs i = (if i < length xs then Some (xs ! i) else None)"

definition update_checked :: "'a list \<Rightarrow> nat \<Rightarrow> 'a \<Rightarrow> 'a list option" where
  "update_checked xs i v = (if i < length xs then Some (xs[i := v]) else None)"

text \<open>\<open>i32\<close> arithmetic in a build without overflow checks: the result is reduced to 32 bits and
  read back as two's complement.\<close>

definition wrap_i32 :: "int \<Rightarrow> int" where
  "wrap_i32 x = sint (word_of_int x :: u32)"

text \<open>\<open>(x as i16) as i32\<close> and \<open>(x as u8) as i32\<close>.\<close>

definition as_i16 :: "int \<Rightarrow> int" where
  "as_i16 x = sint (word_of_int x :: u16)"

definition as_u8 :: "int \<Rightarrow> int" where
  "as_u8 x = uint (word_of_int x :: u8)"

lemma LUAU_ASSERT_simps [simp]:
  "LUAU_ASSERT True = Some ()"
  "LUAU_ASSERT False = None"
  "LUAU_ASSERT b = Some u \<longleftrightarrow> b"
  "LUAU_ASSERT b = None \<longleftrightarrow> \<not> b"
  by (simp_all add: LUAU_ASSERT_def)

lemma bind_LUAU_ASSERT [simp]:
  "Option.bind (LUAU_ASSERT b) f = (if b then f () else None)"
  by (simp add: LUAU_ASSERT_def)

lemma index_checked_Some [simp]: "i < length xs \<Longrightarrow> index_checked xs i = Some (xs ! i)"
  by (simp add: index_checked_def)

lemma index_checked_eq_Some [simp]:
  "index_checked xs i = Some v \<longleftrightarrow> i < length xs \<and> xs ! i = v"
  by (auto simp: index_checked_def)

lemma index_checked_eq_None [simp]: "index_checked xs i = None \<longleftrightarrow> length xs \<le> i"
  by (auto simp: index_checked_def)

lemma update_checked_Some [simp]: "i < length xs \<Longrightarrow> update_checked xs i v = Some (xs[i := v])"
  by (simp add: update_checked_def)

lemma update_checked_eq_Some [simp]:
  "update_checked xs i v = Some ys \<longleftrightarrow> i < length xs \<and> ys = xs[i := v]"
  by (auto simp: update_checked_def)

lemma wrap_i32_id: "- (2 ^ 31) \<le> x \<Longrightarrow> x < 2 ^ 31 \<Longrightarrow> wrap_i32 x = x"
  by (simp add: wrap_i32_def signed_of_int signed_take_bit_int_eq_self)

lemma sint_word_of_int_u32: "sint (word_of_int x :: u32) = wrap_i32 x"
  by (simp add: wrap_i32_def)

lemma wrap_i32_small: "- 2147483648 \<le> x \<Longrightarrow> x \<le> 2147483647 \<Longrightarrow> wrap_i32 x = x"
  by (simp add: wrap_i32_id)

lemma as_i16_id_iff: "as_i16 x = x \<longleftrightarrow> - (2 ^ 15) \<le> x \<and> x < 2 ^ 15"
proof
  assume "as_i16 x = x"
  then have "x = sint (word_of_int x :: u16)" by (simp add: as_i16_def)
  moreover have "- (2 ^ 15) \<le> sint (word_of_int x :: u16)" "sint (word_of_int x :: u16) < 2 ^ 15"
    using sint_ge [of "word_of_int x :: u16"] sint_lt [of "word_of_int x :: u16"] by simp_all
  ultimately show "- (2 ^ 15) \<le> x \<and> x < 2 ^ 15" by metis
next
  assume "- (2 ^ 15) \<le> x \<and> x < 2 ^ 15"
  then show "as_i16 x = x"
    by (simp add: as_i16_def signed_of_int signed_take_bit_int_eq_self)
qed

lemma as_u8_id_iff: "as_u8 x = x \<longleftrightarrow> 0 \<le> x \<and> x < 2 ^ 8"
  by (auto simp: as_u8_def uint_word_of_int intro: mod_pos_pos_trivial)

lemma bit_less:
  "bit (w :: u8) n \<Longrightarrow> n < 8" "bit (v :: u16) n \<Longrightarrow> n < 16" "bit (u :: u32) n \<Longrightarrow> n < 32"
  using bit_imp_le_length [of w n] bit_imp_le_length [of v n] bit_imp_le_length [of u n] by simp_all

lemma unat_word_of_int_u8: "0 \<le> x \<Longrightarrow> x \<le> 255 \<Longrightarrow> int (unat (word_of_int x :: u8)) = x"
  by (simp add: uint_nat [symmetric] uint_word_of_int)

lemma ucast_u64_u32: "ucast (ucast (x :: u32) :: u64) = x"
  by (rule bit_word_eqI) (auto simp: bit_simps)

lemma ucast_u64_inj [simp]: "(ucast (x :: u32) :: u64) = ucast y \<longleftrightarrow> x = y"
  by (metis ucast_u64_u32)

section \<open>Results with errors\<close>

text \<open>An operation that can raise an error returns a sum; an error ends the computation.\<close>

definition and_then :: "'e + 'a \<Rightarrow> ('a \<Rightarrow> 'e + 'b) \<Rightarrow> 'e + 'b" where
  "and_then r f = (case r of Inl e \<Rightarrow> Inl e | Inr x \<Rightarrow> f x)"

lemma and_then_simps [simp]: "and_then (Inl e) f = Inl e" "and_then (Inr x) f = f x"
  by (simp_all add: and_then_def)

lemma and_then_eq_Inr [simp]: "and_then r f = Inr y \<longleftrightarrow> (\<exists>x. r = Inr x \<and> f x = Inr y)"
  by (simp add: and_then_def split: sum.split)

lemma and_then_cong [fundef_cong]:
  "r = r' \<Longrightarrow> (\<And>x. r' = Inr x \<Longrightarrow> f x = g x) \<Longrightarrow> and_then r f = and_then r' g"
  by (cases r') simp_all

section \<open>Lists\<close>

lemma add_mod_cancel_left:
  fixes n k i m :: nat
  assumes "(n + k) mod m = (n + i) mod m" and "k < m" and "i < m"
  shows "k = i"
proof -
  have "int (n + k) mod int m = int (n + i) mod int m"
    using assms(1) by (metis zmod_int)
  then have "int m dvd int k - int i"
    by (simp add: mod_eq_dvd_iff)
  then have "int k mod int m = int i mod int m"
    by (simp add: mod_eq_dvd_iff)
  with assms(2,3) show ?thesis by simp
qed

lemma rotate_update:
  assumes "i < length xs"
  shows "rotate n (xs[(n + i) mod length xs := v]) = (rotate n xs)[i := v]"
proof (rule nth_equalityI)
  fix k
  assume "k < length (rotate n (xs[(n + i) mod length xs := v]))"
  then have k: "k < length xs" by simp
  have "(n + k) mod length xs = (n + i) mod length xs \<longleftrightarrow> k = i"
    using add_mod_cancel_left [of n k "length xs" i] k assms by blast
  moreover have "(n + i) mod length xs < length xs"
    using assms by (intro mod_less_divisor) auto
  ultimately show "rotate n (xs[(n + i) mod length xs := v]) ! k = (rotate n xs)[i := v] ! k"
    using k assms by (auto simp: nth_rotate nth_list_update)
qed simp


section \<open>Refinement of partial operations\<close>

text \<open>A component with a contract is related to its specification by an abstraction function and
  an invariant: whatever the specification does the code does, an error included. \<open>ok n a\<close> is what
  \<open>n\<close> further operations from \<open>a\<close> need of the environment (memory, say).\<close>

fun run_ops :: "('op \<Rightarrow> 's \<Rightarrow> 's option) \<Rightarrow> 'op list \<Rightarrow> 's \<Rightarrow> 's option" where
  "run_ops step [] s = Some s"
| "run_ops step (op # ops) s = do { s' \<leftarrow> step op s; run_ops step ops s' }"

locale refines =
  fixes inv :: "'s \<Rightarrow> bool"
    and abs :: "'s \<Rightarrow> 'a"
    and cstep :: "'op \<Rightarrow> 's \<Rightarrow> 's option"
    and astep :: "'op \<Rightarrow> 'a \<Rightarrow> 'a option"
    and ok :: "nat \<Rightarrow> 'a \<Rightarrow> bool"
  assumes step_refines: "inv s \<Longrightarrow> ok (Suc n) (abs s) \<Longrightarrow>
    (case astep op (abs s) of
       None \<Rightarrow> cstep op s = None
     | Some a \<Rightarrow> \<exists>s'. cstep op s = Some s' \<and> inv s' \<and> abs s' = a)"
    and ok_step: "ok (Suc n) a \<Longrightarrow> astep op a = Some a' \<Longrightarrow> ok n a'"
begin

lemma run_refines:
  "inv s \<Longrightarrow> ok (length ops) (abs s) \<Longrightarrow>
    (case run_ops astep ops (abs s) of
       None \<Rightarrow> run_ops cstep ops s = None
     | Some a \<Rightarrow> \<exists>s'. run_ops cstep ops s = Some s' \<and> inv s' \<and> abs s' = a)"
proof (induction ops arbitrary: s)
  case (Cons op ops)
  show ?case
  proof (cases "astep op (abs s)")
    case None
    then show ?thesis using step_refines [OF Cons.prems(1), of "length ops" op] Cons.prems(2) by simp
  next
    case (Some a)
    then obtain s' where s': "cstep op s = Some s'" "inv s'" "abs s' = a"
      using step_refines [OF Cons.prems(1), of "length ops" op] Cons.prems(2) by auto
    moreover have "ok (length ops) (abs s')" using ok_step Cons.prems(2) Some s'(3) by simp
    ultimately show ?thesis using Cons.IH [of s'] Some by (simp split: option.splits)
  qed
qed simp

end

end
