(* ===== verification/Vec_Deque.thy ===== *)
theory Vec_Deque
  imports Luau_Prelude
begin

text \<open>
  \<open>luaur-common/src/records/vec_deque.rs\<close>: a double-ended queue over a ring buffer. The buffer is
  raw memory, so each cell is \<open>None\<close> while it holds no live value (fresh from the allocator, or
  dropped) and \<open>Some v\<close> while it does; reading or dropping a dead cell is undefined behaviour and,
  like a panic, makes the operation \<open>None\<close>. The theorems show that a queue that satisfies the
  invariant never does either, and that the operations are those of a list.
\<close>

section \<open>State\<close>

record 'a vec_deque =
  vd_buffer :: "'a option list option"
  vd_buffer_capacity :: nat
  vd_head :: nat
  vd_queue_size :: nat

definition vd_new :: "'a vec_deque" where
  "vd_new = \<lparr>vd_buffer = None, vd_buffer_capacity = 0, vd_head = 0, vd_queue_size = 0\<rparr>"

definition vd_capacity :: "'a vec_deque \<Rightarrow> nat" where
  "vd_capacity q = vd_buffer_capacity q"

definition vd_size :: "'a vec_deque \<Rightarrow> nat" where
  "vd_size q = vd_queue_size q"

definition vd_empty :: "'a vec_deque \<Rightarrow> bool" where
  "vd_empty q \<longleftrightarrow> vd_queue_size q = 0"

definition vd_is_full :: "'a vec_deque \<Rightarrow> bool" where
  "vd_is_full q \<longleftrightarrow> vd_queue_size q = vd_capacity q"

definition vd_is_contiguous :: "'a vec_deque \<Rightarrow> bool option" where
  "vd_is_contiguous q =
     (if vd_capacity q < vd_queue_size q then None
      else Some (vd_head q \<le> vd_capacity q - vd_queue_size q))"

definition logicalToPhysical :: "'a vec_deque \<Rightarrow> nat \<Rightarrow> nat" where
  "logicalToPhysical q pos =
     (let cap = vd_capacity q in if cap = 0 then 0 else (vd_head q + pos) mod cap)"

section \<open>Memory\<close>

text \<open>\<open>usize::MAX / size_of::<T>()\<close>, which panics for a type of size 0; \<open>Layout::array\<close> refuses
  more than \<open>isize::MAX\<close> bytes.\<close>

definition usize_max :: nat where
  "usize_max = 2 ^ 64 - 1"

definition isize_max :: nat where
  "isize_max = 2 ^ 63 - 1"

definition vd_max_size :: "nat \<Rightarrow> nat option" where
  "vd_max_size sz = (if sz = 0 then None else Some (usize_max div sz))"

definition vd_allocate :: "nat \<Rightarrow> nat \<Rightarrow> 'a option list option" where
  "vd_allocate sz cap =
     (if cap = 0 then None
      else if isize_max < cap * sz then None
      else Some (replicate cap None))"

text \<open>\<open>ptr::copy_nonoverlapping(src + so, dst + d, n)\<close>\<close>

definition copy_cells ::
  "'a option list \<Rightarrow> nat \<Rightarrow> 'a option list \<Rightarrow> nat \<Rightarrow> nat \<Rightarrow> 'a option list option" where
  "copy_cells src so dst d n =
     (if so + n \<le> length src \<and> d + n \<le> length dst
      then Some (take d dst @ take n (drop so src) @ drop (d + n) dst) else None)"

text \<open>\<open>ptr::write\<close>, and \<open>ptr::drop_in_place\<close> on one cell and on a range of cells.\<close>

definition write_cell :: "'a option list option \<Rightarrow> nat \<Rightarrow> 'a \<Rightarrow> 'a option list option" where
  "write_cell buf i v = do { cs \<leftarrow> buf; update_checked cs i (Some v) }"

definition drop_cell :: "'a option list option \<Rightarrow> nat \<Rightarrow> 'a option list option" where
  "drop_cell buf i =
     do { cs \<leftarrow> buf; c \<leftarrow> index_checked cs i; v \<leftarrow> c; update_checked cs i None }"

fun drop_cells :: "'a option list \<Rightarrow> nat \<Rightarrow> nat \<Rightarrow> 'a option list option" where
  "drop_cells cs i 0 = Some cs"
| "drop_cells cs i (Suc n) = do { cs' \<leftarrow> drop_cell (Some cs) i; drop_cells cs' (Suc i) n }"

definition read_cell :: "'a option list option \<Rightarrow> nat \<Rightarrow> 'a option" where
  "read_cell buf i = do { cs \<leftarrow> buf; c \<leftarrow> index_checked cs i; c }"

text \<open>The move of the live elements into a new buffer that \<open>grow\<close>, \<open>reserve\<close> and
  \<open>shrink_to_fit\<close> share: the part from the head to the end of the old buffer first, then the part
  that wrapped around to its start.\<close>

definition vd_relocate :: "nat \<Rightarrow> nat \<Rightarrow> 'a vec_deque \<Rightarrow> 'a vec_deque option" where
  "vd_relocate sz new_capacity q = do {
     let old_capacity = vd_capacity q;
     LUAU_ASSERT (vd_head q \<le> old_capacity);
     let head_size = min (vd_queue_size q) (old_capacity - vd_head q);
     let tail_size = vd_queue_size q - head_size;
     new_buffer \<leftarrow> vd_allocate sz new_capacity;
     new_buffer \<leftarrow>
       (case vd_buffer q of
          None \<Rightarrow> Some new_buffer
        | Some old_buf \<Rightarrow> do {
            nb \<leftarrow> (if head_size \<noteq> 0 then copy_cells old_buf (vd_head q) new_buffer 0 head_size
                   else Some new_buffer);
            (if tail_size \<noteq> 0 then copy_cells old_buf 0 nb head_size tail_size else Some nb)
          });
     Some (q\<lparr>vd_buffer := Some new_buffer, vd_buffer_capacity := new_capacity, vd_head := 0\<rparr>)
   }"

section \<open>Operations\<close>

definition vd_grow :: "nat \<Rightarrow> 'a vec_deque \<Rightarrow> 'a vec_deque option" where
  "vd_grow sz q = do {
     let old_capacity = vd_capacity q;
     let new_capacity = (if old_capacity > 0 then old_capacity * 3 div 2 + 1 else 4);
     mx \<leftarrow> vd_max_size sz;
     (if new_capacity > mx then None else vd_relocate sz new_capacity q)
   }"

definition vd_push_back :: "nat \<Rightarrow> 'a \<Rightarrow> 'a vec_deque \<Rightarrow> 'a vec_deque option" where
  "vd_push_back sz v q = do {
     q \<leftarrow> (if vd_is_full q then vd_grow sz q else Some q);
     let next_back = logicalToPhysical q (vd_queue_size q);
     buf \<leftarrow> write_cell (vd_buffer q) next_back v;
     Some (q\<lparr>vd_buffer := Some buf, vd_queue_size := vd_queue_size q + 1\<rparr>)
   }"

definition vd_pop_back :: "'a vec_deque \<Rightarrow> 'a vec_deque option" where
  "vd_pop_back q = do {
     LUAU_ASSERT (\<not> vd_empty q);
     let q = q\<lparr>vd_queue_size := vd_queue_size q - 1\<rparr>;
     let next_back = logicalToPhysical q (vd_queue_size q);
     buf \<leftarrow> drop_cell (vd_buffer q) next_back;
     Some (q\<lparr>vd_buffer := Some buf\<rparr>)
   }"

definition vd_push_front :: "nat \<Rightarrow> 'a \<Rightarrow> 'a vec_deque \<Rightarrow> 'a vec_deque option" where
  "vd_push_front sz v q = do {
     q \<leftarrow> (if vd_is_full q then vd_grow sz q else Some q);
     let h = (if vd_head q = 0 then vd_capacity q - 1 else vd_head q - 1);
     buf \<leftarrow> write_cell (vd_buffer q) h v;
     Some (q\<lparr>vd_buffer := Some buf, vd_head := h, vd_queue_size := vd_queue_size q + 1\<rparr>)
   }"

definition vd_pop_front :: "'a vec_deque \<Rightarrow> 'a vec_deque option" where
  "vd_pop_front q = do {
     LUAU_ASSERT (\<not> vd_empty q);
     buf \<leftarrow> drop_cell (vd_buffer q) (vd_head q);
     let h = vd_head q + 1;
     Some (q\<lparr>vd_buffer := Some buf, vd_queue_size := vd_queue_size q - 1,
             vd_head := (if h = vd_capacity q then 0 else h)\<rparr>)
   }"

definition destroyElements :: "'a vec_deque \<Rightarrow> 'a vec_deque option" where
  "destroyElements q =
     (case vd_buffer q of
        None \<Rightarrow> Some q
      | Some buf \<Rightarrow> do {
          let head_size = min (vd_queue_size q) (vd_capacity q - vd_head q);
          let tail_size = vd_queue_size q - head_size;
          buf \<leftarrow> drop_cells buf (vd_head q) head_size;
          buf \<leftarrow> drop_cells buf 0 tail_size;
          Some (q\<lparr>vd_buffer := Some buf\<rparr>)
        })"

definition vd_clear :: "'a vec_deque \<Rightarrow> 'a vec_deque option" where
  "vd_clear q = do {
     q \<leftarrow> destroyElements q;
     Some (q\<lparr>vd_head := 0, vd_queue_size := 0\<rparr>)
   }"

definition vd_reserve :: "nat \<Rightarrow> nat \<Rightarrow> 'a vec_deque \<Rightarrow> 'a vec_deque option" where
  "vd_reserve sz new_capacity q = do {
     mx \<leftarrow> vd_max_size sz;
     (if new_capacity > mx then None
      else if new_capacity \<le> vd_capacity q then Some q
      else vd_relocate sz new_capacity q)
   }"

definition vd_shrink_to_fit :: "nat \<Rightarrow> 'a vec_deque \<Rightarrow> 'a vec_deque option" where
  "vd_shrink_to_fit sz q =
     (let new_capacity = vd_queue_size q in
      if vd_capacity q = new_capacity then Some q
      else if new_capacity = 0 then do {
        q \<leftarrow> destroyElements q;
        Some (q\<lparr>vd_buffer := None, vd_buffer_capacity := 0, vd_head := 0\<rparr>)
      }
      else vd_relocate sz new_capacity q)"

definition vd_at :: "'a vec_deque \<Rightarrow> nat \<Rightarrow> 'a option" where
  "vd_at q pos =
     (if pos \<ge> vd_queue_size q then None
      else read_cell (vd_buffer q) (logicalToPhysical q pos))"

definition vd_front :: "'a vec_deque \<Rightarrow> 'a option" where
  "vd_front q = do { LUAU_ASSERT (\<not> vd_empty q); read_cell (vd_buffer q) (vd_head q) }"

definition vd_back :: "'a vec_deque \<Rightarrow> 'a option" where
  "vd_back q = do {
     LUAU_ASSERT (\<not> vd_empty q);
     read_cell (vd_buffer q) (logicalToPhysical q (vd_queue_size q - 1))
   }"

fun vd_push_all :: "nat \<Rightarrow> 'a list \<Rightarrow> 'a vec_deque \<Rightarrow> 'a vec_deque option" where
  "vd_push_all sz [] q = Some q"
| "vd_push_all sz (x # xs) q = do { q \<leftarrow> vd_push_back sz x q; vd_push_all sz xs q }"

definition vd_from_init_list :: "nat \<Rightarrow> 'a list \<Rightarrow> 'a vec_deque option" where
  "vd_from_init_list sz items = do {
     let q = vd_new;
     q \<leftarrow> (if items \<noteq> [] then vd_reserve sz (length items) q else Some q);
     vd_push_all sz items q
   }"

section \<open>Abstraction and invariant\<close>

text \<open>The queue a buffer stands for: the first \<open>queue_size\<close> cells of the ring, read from the head.
  The invariant says that exactly these cells are alive.\<close>

definition vd_list :: "'a vec_deque \<Rightarrow> 'a list" where
  "vd_list q =
     (case vd_buffer q of
        None \<Rightarrow> []
      | Some cs \<Rightarrow> map the (take (vd_queue_size q) (rotate (vd_head q) cs)))"

definition vd_inv :: "'a vec_deque \<Rightarrow> bool" where
  "vd_inv q \<longleftrightarrow>
     (case vd_buffer q of
        None \<Rightarrow> vd_buffer_capacity q = 0 \<and> vd_head q = 0 \<and> vd_queue_size q = 0
      | Some cs \<Rightarrow>
          length cs = vd_buffer_capacity q \<and> 0 < vd_buffer_capacity q \<and>
          vd_head q < vd_buffer_capacity q \<and> vd_queue_size q \<le> vd_buffer_capacity q \<and>
          list_all (\<lambda>c. c \<noteq> None) (take (vd_queue_size q) (rotate (vd_head q) cs)) \<and>
          list_all (\<lambda>c. c = None) (drop (vd_queue_size q) (rotate (vd_head q) cs)))"

text \<open>The two together, in the form the proofs use.\<close>

definition vd_rel :: "'a vec_deque \<Rightarrow> 'a list \<Rightarrow> bool" where
  "vd_rel q xs \<longleftrightarrow>
     vd_queue_size q = length xs \<and>
     (case vd_buffer q of
        None \<Rightarrow> vd_buffer_capacity q = 0 \<and> vd_head q = 0 \<and> xs = []
      | Some cs \<Rightarrow>
          length cs = vd_buffer_capacity q \<and> vd_head q < length cs \<and>
          rotate (vd_head q) cs = map Some xs @ replicate (length cs - length xs) None \<and>
          length xs \<le> length cs)"

lemma map_Some_the: "list_all (\<lambda>c. c \<noteq> None) cs \<Longrightarrow> map Some (map the cs) = cs"
  by (induction cs) auto

lemma all_None_replicate: "list_all (\<lambda>c. c = None) cs \<Longrightarrow> cs = replicate (length cs) None"
  by (induction cs) auto

lemma vd_rel_iff: "vd_rel q xs \<longleftrightarrow> vd_inv q \<and> vd_list q = xs"
proof (cases "vd_buffer q")
  case None
  then show ?thesis by (auto simp: vd_rel_def vd_inv_def vd_list_def)
next
  case (Some cs)
  let ?r = "rotate (vd_head q) cs"
  let ?n = "vd_queue_size q"
  show ?thesis
  proof
    assume r: "vd_rel q xs"
    then show "vd_inv q \<and> vd_list q = xs"
      using Some by (auto simp: vd_rel_def vd_inv_def vd_list_def list_all_iff comp_def)
  next
    assume i: "vd_inv q \<and> vd_list q = xs"
    then have "map Some xs = take ?n ?r"
      using Some by (auto simp: vd_inv_def vd_list_def simp del: map_map intro: map_Some_the)
    moreover have "drop ?n ?r = replicate (length cs - ?n) None"
      using i Some all_None_replicate [of "drop ?n ?r"] by (auto simp: vd_inv_def)
    moreover have "length xs = ?n" using i Some by (auto simp: vd_inv_def vd_list_def)
    ultimately show "vd_rel q xs"
      using i Some by (auto simp: vd_rel_def vd_inv_def) (metis append_take_drop_id)
  qed
qed

lemma vd_relI [intro]: "vd_inv q \<Longrightarrow> vd_rel q (vd_list q)"
  by (simp add: vd_rel_iff)

lemmas vd_relD = vd_rel_iff [THEN iffD1, THEN conjunct1] vd_rel_iff [THEN iffD1, THEN conjunct2]

lemma vd_rel_new: "vd_rel vd_new []"
  by (simp add: vd_rel_def vd_new_def)

lemma vd_rel_size: "vd_rel q xs \<Longrightarrow> vd_queue_size q = length xs"
  by (simp add: vd_rel_def)

lemma vd_rel_cases:
  assumes "vd_rel q xs" and "xs \<noteq> [] \<or> 0 < vd_buffer_capacity q"
  obtains cs where "vd_buffer q = Some cs" "length cs = vd_buffer_capacity q"
    "vd_head q < length cs" "length xs \<le> length cs"
    "rotate (vd_head q) cs = map Some xs @ replicate (length cs - length xs) None"
  using assms by (auto simp: vd_rel_def split: option.splits)

lemma cell_at:
  assumes "rotate h cs = map Some xs @ ys" and "i < length xs" and "length xs \<le> length cs"
  shows "cs ! ((h + i) mod length cs) = Some (xs ! i)"
proof -
  have "rotate h cs ! i = cs ! ((h + i) mod length cs)"
    using assms(2,3) by (simp add: nth_rotate)
  with assms(1,2) show ?thesis by (simp add: nth_append)
qed

lemma segments:
  assumes "rotate h cs = map Some xs @ ys" and "h < length cs" and "length xs \<le> length cs"
  defines "a \<equiv> min (length xs) (length cs - h)"
  shows "take a (drop h cs) @ take (length xs - a) cs = map Some xs"
proof -
  have "map Some xs = take (length xs) (drop h cs @ take h cs)"
    using assms(1,2) by (simp add: rotate_drop_take)
  also have "\<dots> = take (length xs) (drop h cs) @ take (length xs - (length cs - h)) cs"
  proof -
    have "length xs - (length cs - h) \<le> h" using assms(2,3) by arith
    then show ?thesis using assms(2) by (simp add: min_absorb2)
  qed
  also have "take (length xs) (drop h cs) = take a (drop h cs)"
    by (simp add: a_def min_def)
  also have "length xs - (length cs - h) = length xs - a"
    by (simp add: a_def min_def)
  finally show ?thesis by simp
qed

lemma vd_relocate_rel:
  assumes r: "vd_rel q xs" and n: "0 < n" "length xs \<le> n" and sz: "n * sz \<le> isize_max"
  shows "\<exists>q'. vd_relocate sz n q = Some q' \<and> vd_rel q' xs \<and> vd_buffer_capacity q' = n"
proof (cases "vd_buffer q")
  case None
  then have "xs = []" using r by (simp add: vd_rel_def)
  then show ?thesis
    using r None n sz
    by (simp add: vd_relocate_def vd_rel_def vd_allocate_def vd_capacity_def not_less)
next
  case (Some cs)
  let ?h = "vd_head q"
  let ?a = "min (length xs) (length cs - ?h)"
  let ?b = "length xs - ?a"
  have c: "length cs = vd_buffer_capacity q" "?h < length cs" "length xs \<le> length cs"
      "rotate ?h cs = map Some xs @ replicate (length cs - length xs) None"
      "vd_queue_size q = length xs"
    using r Some by (auto simp: vd_rel_def)
  have seg: "take ?a (drop ?h cs) @ take ?b cs = map Some xs"
    using segments [OF c(4,2,3)] .
  have b: "?b \<le> ?h" "?b \<le> length cs" "?a + ?b = length xs" using c(2,3) by auto
  have "vd_relocate sz n q = Some (q\<lparr>vd_buffer := Some (map Some xs @ replicate (n - length xs) None),
      vd_buffer_capacity := n, vd_head := 0\<rparr>)"
  proof -
    have "take ?a (drop ?h cs) @ take ?b cs @ replicate (n - length xs) None
        = map Some xs @ replicate (n - length xs) None"
      using seg by (metis append.assoc)
    then show ?thesis
      using Some c n sz b
      by (auto simp: vd_relocate_def vd_allocate_def vd_capacity_def copy_cells_def Let_def
          not_less min_def split: if_splits)
  qed
  moreover have "vd_rel (q\<lparr>vd_buffer := Some (map Some xs @ replicate (n - length xs) None),
      vd_buffer_capacity := n, vd_head := 0\<rparr>) xs"
    using n c(5) by (simp add: vd_rel_def)
  ultimately show ?thesis by auto
qed


section \<open>The operations refine those of lists\<close>

text \<open>Growing is possible while the enlarged buffer stays within \<open>isize::MAX\<close> bytes.\<close>

definition vd_room :: "nat \<Rightarrow> 'a vec_deque \<Rightarrow> bool" where
  "vd_room sz q \<longleftrightarrow>
     0 < sz \<and> (vd_is_full q \<longrightarrow>
       (if vd_capacity q > 0 then vd_capacity q * 3 div 2 + 1 else 4) * sz \<le> isize_max)"

lemma le_max_size:
  assumes "n * sz \<le> isize_max" and "0 < sz"
  shows "n \<le> usize_max div sz"
  using assms by (simp add: less_eq_div_iff_mult_less_eq isize_max_def usize_max_def)

lemma vd_grow_rel:
  assumes r: "vd_rel q xs" and full: "vd_is_full q" and room: "vd_room sz q"
  shows "\<exists>q'. vd_grow sz q = Some q' \<and> vd_rel q' xs \<and> length xs < vd_buffer_capacity q'"
proof -
  let ?n = "if vd_capacity q > 0 then vd_capacity q * 3 div 2 + 1 else 4"
  have n: "?n * sz \<le> isize_max" "0 < sz" using full room by (auto simp: vd_room_def)
  have l: "length xs < ?n"
    using r full by (auto simp: vd_is_full_def vd_capacity_def vd_rel_size)
  then obtain q' where "vd_relocate sz ?n q = Some q'" "vd_rel q' xs" "vd_buffer_capacity q' = ?n"
    using vd_relocate_rel [OF r, of ?n sz] n by auto
  then show ?thesis
    using l n le_max_size [OF n]
    by (auto simp: vd_grow_def vd_max_size_def Let_def not_less split: if_splits)
qed

lemma vd_make_room:
  assumes "vd_rel q xs" and "vd_room sz q"
  obtains q' cs where "(if vd_is_full q then vd_grow sz q else Some q) = Some q'"
    "vd_rel q' xs" "vd_buffer q' = Some cs" "length cs = vd_buffer_capacity q'"
    "vd_head q' < length cs" "length xs < length cs"
    "rotate (vd_head q') cs = map Some xs @ replicate (length cs - length xs) None"
proof -
  obtain q' where q': "(if vd_is_full q then vd_grow sz q else Some q) = Some q'" "vd_rel q' xs"
    and l: "length xs < vd_buffer_capacity q'"
  proof (cases "vd_is_full q")
    case True
    with vd_grow_rel [OF assms(1) True assms(2)] that show ?thesis by auto
  next
    case False
    have "length xs \<le> vd_buffer_capacity q"
      using assms(1) by (auto simp: vd_rel_def split: option.splits)
    with False assms(1) have "length xs < vd_buffer_capacity q"
      by (auto simp: vd_is_full_def vd_capacity_def vd_rel_size)
    with that [of q] False assms(1) show ?thesis by simp
  qed
  with vd_rel_cases [OF q'(2)] that show thesis by (metis gr_implies_not0 neq0_conv)
qed

lemma vd_push_back_rel:
  assumes r: "vd_rel q xs" and room: "vd_room sz q"
  shows "\<exists>q'. vd_push_back sz v q = Some q' \<and> vd_rel q' (xs @ [v])"
proof -
  from vd_make_room [OF assms] obtain q' cs
    where q': "(if vd_is_full q then vd_grow sz q else Some q) = Some q'" "vd_rel q' xs"
      "vd_buffer q' = Some cs" "length cs = vd_buffer_capacity q'"
      "vd_head q' < length cs" "length xs < length cs"
      "rotate (vd_head q') cs = map Some xs @ replicate (length cs - length xs) None" by metis
  let ?i = "(vd_head q' + length xs) mod length cs"
  have i: "?i < length cs" using q'(6) by (intro mod_less_divisor) auto
  have "rotate (vd_head q') (cs[?i := Some v])
      = (map Some xs @ replicate (length cs - length xs) None)[length xs := Some v]"
    using rotate_update [OF q'(6), of "vd_head q'" "Some v"] q'(7) by simp
  also have "\<dots> = map Some (xs @ [v]) @ replicate (length cs - length (xs @ [v])) None"
    using q'(6) by (cases "length cs - length xs") (auto simp: list_update_append)
  finally have rot: "rotate (vd_head q') (cs[?i := Some v])
      = map Some (xs @ [v]) @ replicate (length cs - length (xs @ [v])) None" .
  let ?q = "q'\<lparr>vd_buffer := Some (cs[?i := Some v]), vd_queue_size := length xs + 1\<rparr>"
  have "vd_push_back sz v q = Some ?q"
    unfolding vd_push_back_def q'(1)
    using q'(3,6) i vd_rel_size [OF q'(2)] q'(4) [symmetric]
    by (auto simp: write_cell_def logicalToPhysical_def vd_capacity_def Let_def)
  moreover have "vd_rel ?q (xs @ [v])"
    using q'(4-6) rot by (simp add: vd_rel_def)
  ultimately show ?thesis by blast
qed

lemma vd_push_front_rel:
  assumes r: "vd_rel q xs" and room: "vd_room sz q"
  shows "\<exists>q'. vd_push_front sz v q = Some q' \<and> vd_rel q' (v # xs)"
proof -
  from vd_make_room [OF assms] obtain q' cs
    where q': "(if vd_is_full q then vd_grow sz q else Some q) = Some q'" "vd_rel q' xs"
      "vd_buffer q' = Some cs" "length cs = vd_buffer_capacity q'"
      "vd_head q' < length cs" "length xs < length cs"
      "rotate (vd_head q') cs = map Some xs @ replicate (length cs - length xs) None" by metis
  define h where "h = (if vd_head q' = 0 then vd_capacity q' - 1 else vd_head q' - 1)"
  have h: "h < length cs" "Suc h mod length cs = vd_head q'"
    using q'(4,5) by (auto simp: h_def vd_capacity_def)
  have "rotate1 (rotate h cs) = rotate (vd_head q') cs"
    by (metis h(2) rotate_Suc rotate_conv_mod)
  moreover obtain c ds where cd: "rotate h cs = c # ds" using q'(5) by (cases "rotate h cs") auto
  ultimately have ds: "ds @ [c] = map Some xs @ replicate (length cs - length xs) None"
    using q'(7) by simp
  have "rotate h (cs[h := Some v]) = (rotate h cs)[0 := Some v]"
    using rotate_update [of 0 cs h "Some v"] h(1) by (cases cs) simp_all
  also have "\<dots> = Some v # ds" using cd by simp
  also have "ds = map Some xs @ replicate (length cs - Suc (length xs)) None"
  proof -
    have "replicate (length cs - length xs) None
        = replicate (length cs - Suc (length xs)) (None :: 'a option) @ [None]"
      using q'(6) by (simp add: replicate_append_same Suc_diff_Suc flip: replicate_Suc)
    with ds show ?thesis by (metis append.assoc append1_eq_conv)
  qed
  finally have rot: "rotate h (cs[h := Some v])
      = map Some (v # xs) @ replicate (length cs - length (v # xs)) None" by simp
  let ?q = "q'\<lparr>vd_buffer := Some (cs[h := Some v]), vd_head := h, vd_queue_size := length xs + 1\<rparr>"
  have "vd_push_front sz v q = Some ?q"
    unfolding vd_push_front_def q'(1)
    using q'(3) h(1) vd_rel_size [OF q'(2)]
    by (simp add: write_cell_def Let_def h_def [symmetric])
  moreover have "vd_rel ?q (v # xs)"
    using q'(4-6) h(1) rot by (simp add: vd_rel_def)
  ultimately show ?thesis by blast
qed


lemma vd_pop_back_rel:
  assumes r: "vd_rel q (xs @ [x])"
  shows "\<exists>q'. vd_pop_back q = Some q' \<and> vd_rel q' xs"
proof -
  obtain cs where c: "vd_buffer q = Some cs" "length cs = vd_buffer_capacity q"
      "vd_head q < length cs" "length (xs @ [x]) \<le> length cs"
      "rotate (vd_head q) cs = map Some (xs @ [x]) @ replicate (length cs - length (xs @ [x])) None"
    using vd_rel_cases [OF r] by auto
  let ?i = "(vd_head q + length xs) mod length cs"
  have i: "?i < length cs" using c(3) by (intro mod_less_divisor) auto
  have x: "cs ! ?i = Some x" using cell_at [OF c(5), of "length xs"] c(4) by simp
  have "rotate (vd_head q) (cs[?i := None])
      = (map Some (xs @ [x]) @ replicate (length cs - length (xs @ [x])) None)[length xs := None]"
    using rotate_update [of "length xs" cs "vd_head q" None] c(4,5) by simp
  also have "\<dots> = map Some xs @ replicate (length cs - length xs) None"
    using c(4) by (simp add: list_update_append replicate_Suc [symmetric] Suc_diff_Suc
        del: replicate_Suc)
  finally have rot: "rotate (vd_head q) (cs[?i := None])
      = map Some xs @ replicate (length cs - length xs) None" .
  let ?q = "q\<lparr>vd_queue_size := length xs, vd_buffer := Some (cs[?i := None])\<rparr>"
  have "vd_pop_back q = Some ?q"
    using c(1,3) c(2) [symmetric] i x vd_rel_size [OF r]
    by (auto simp: vd_pop_back_def drop_cell_def logicalToPhysical_def vd_capacity_def Let_def
        vd_empty_def)
  moreover have "vd_rel ?q xs" using c(2-4) rot by (simp add: vd_rel_def)
  ultimately show ?thesis by blast
qed

lemma vd_pop_front_rel:
  assumes r: "vd_rel q (x # xs)"
  shows "\<exists>q'. vd_pop_front q = Some q' \<and> vd_rel q' xs"
proof -
  obtain cs where c: "vd_buffer q = Some cs" "length cs = vd_buffer_capacity q"
      "vd_head q < length cs" "length (x # xs) \<le> length cs"
      "rotate (vd_head q) cs = map Some (x # xs) @ replicate (length cs - length (x # xs)) None"
    using vd_rel_cases [OF r] by auto
  let ?h = "vd_head q"
  have x: "cs ! ?h = Some x" using cell_at [OF c(5), of 0] c(3,4) by simp
  define h where "h = (if ?h + 1 = vd_capacity q then 0 else ?h + 1)"
  have h: "h < length cs" "Suc ?h mod length cs = h"
    using c(2,3) by (auto simp: h_def vd_capacity_def)
  have "rotate h (cs[?h := None]) = rotate1 (rotate ?h (cs[?h := None]))"
    using h(2) by (metis length_list_update rotate_Suc rotate_conv_mod)
  also have "rotate ?h (cs[?h := None]) = (rotate ?h cs)[0 := None]"
    using rotate_update [of 0 cs ?h None] c(3) by (cases cs) simp_all
  also have "\<dots> = None # map Some xs @ replicate (length cs - length (x # xs)) None"
    using c(5) by simp
  also have "rotate1 \<dots> = map Some xs @ replicate (length cs - length xs) None"
    using c(4) by (simp add: replicate_append_same replicate_Suc [symmetric] Suc_diff_Suc
        del: replicate_Suc)
  finally have rot: "rotate h (cs[?h := None])
      = map Some xs @ replicate (length cs - length xs) None" .
  let ?q = "q\<lparr>vd_buffer := Some (cs[?h := None]), vd_queue_size := length xs, vd_head := h\<rparr>"
  have "vd_pop_front q = Some ?q"
    using c(1,3) x vd_rel_size [OF r]
    by (simp add: vd_pop_front_def drop_cell_def Let_def vd_empty_def h_def)
  moreover have "vd_rel ?q xs" using c(2,4) h(1) rot by (simp add: vd_rel_def)
  ultimately show ?thesis by blast
qed

lemma vd_at_rel:
  assumes r: "vd_rel q xs"
  shows "vd_at q i = (if i < length xs then Some (xs ! i) else None)"
proof (cases "i < length xs")
  case True
  then have "xs \<noteq> []" by auto
  then obtain cs where c: "vd_buffer q = Some cs" "length cs = vd_buffer_capacity q"
      "vd_head q < length cs" "length xs \<le> length cs"
      "rotate (vd_head q) cs = map Some xs @ replicate (length cs - length xs) None"
    using vd_rel_cases [OF r] by blast
  have "(vd_head q + i) mod length cs < length cs" using c(3) by (intro mod_less_divisor) auto
  then show ?thesis
    using True c(1,3) cell_at [OF c(5) True c(4)] vd_rel_size [OF r] c(2) [symmetric]
    by (auto simp: vd_at_def read_cell_def logicalToPhysical_def vd_capacity_def Let_def)
next
  case False
  then show ?thesis using vd_rel_size [OF r] by (simp add: vd_at_def)
qed

lemma vd_front_at: "vd_rel q xs \<Longrightarrow> vd_front q = vd_at q 0"
  by (cases "vd_buffer q")
    (auto simp: vd_front_def vd_at_def vd_empty_def logicalToPhysical_def vd_capacity_def Let_def
      vd_rel_def)

lemma vd_back_at: "vd_rel q xs \<Longrightarrow> xs \<noteq> [] \<Longrightarrow> vd_back q = vd_at q (length xs - 1)"
  by (cases xs) (auto simp: vd_back_def vd_at_def vd_empty_def vd_rel_def)


lemma drop_cells_Some:
  assumes "length vs = n" and "length pre = i"
  shows "drop_cells (pre @ map Some vs @ post) i n = Some (pre @ replicate n None @ post)"
  using assms
proof (induction vs arbitrary: pre i n)
  case (Cons v vs)
  have "drop_cell (Some (pre @ map Some (v # vs) @ post)) i
      = Some ((pre @ [None]) @ map Some vs @ post)"
    using Cons.prems(2) by (auto simp: drop_cell_def nth_append list_update_append)
  moreover have "drop_cells ((pre @ [None]) @ map Some vs @ post) (Suc i) (length vs)
      = Some ((pre @ [None]) @ replicate (length vs) None @ post)"
    using Cons.IH [of "length vs" "pre @ [None]" "Suc i"] Cons.prems(2) by simp
  ultimately show ?case using Cons.prems(1) by (auto simp: replicate_app_Cons_same)
qed simp

text \<open>Dropping the live cells leaves only dead ones: nothing leaks and nothing is dropped twice.\<close>

lemma destroyElements_rel:
  assumes r: "vd_rel q xs"
  shows "destroyElements q
     = Some (q\<lparr>vd_buffer := map_option (\<lambda>cs. replicate (length cs) None) (vd_buffer q)\<rparr>)"
proof (cases "vd_buffer q")
  case None
  then show ?thesis by (simp add: destroyElements_def)
next
  case (Some cs)
  let ?h = "vd_head q"
  let ?a = "min (length xs) (length cs - ?h)"
  let ?b = "length xs - ?a"
  have c: "length cs = vd_buffer_capacity q" "?h < length cs" "length xs \<le> length cs"
      "rotate ?h cs = map Some xs @ replicate (length cs - length xs) None"
      "vd_queue_size q = length xs"
    using r Some by (auto simp: vd_rel_def)
  have rot: "drop ?h cs @ take ?h cs = map Some xs @ replicate (length cs - length xs) None"
    using c(2,4) by (simp add: rotate_drop_take)
  have d: "drop ?h cs = map Some (take ?a xs) @ replicate (length cs - ?h - ?a) None"
  proof -
    have "drop ?h cs = take (length cs - ?h) (map Some xs @ replicate (length cs - length xs) None)"
      using rot [symmetric] by simp
    then show ?thesis by (auto simp: take_map min_def)
  qed
  have t: "take ?h cs = map Some (drop ?a xs) @ replicate (?h - ?b) None"
  proof -
    have "take ?h cs = drop (length cs - ?h) (map Some xs @ replicate (length cs - length xs) None)"
      using rot [symmetric] by simp
    then show ?thesis using c(2,3) by (auto simp: drop_map min_def)
  qed
  have cs: "take ?h cs @ map Some (take ?a xs) @ replicate (length cs - ?h - ?a) None = cs"
    using d by (metis append_take_drop_id)
  have "drop_cells (take ?h cs @ map Some (take ?a xs) @ replicate (length cs - ?h - ?a) None) ?h ?a
      = Some (take ?h cs @ replicate ?a None @ replicate (length cs - ?h - ?a) None)"
    using c(2) by (intro drop_cells_Some) simp_all
  then have 1: "drop_cells cs ?h ?a = Some (take ?h cs @ replicate ?a None
      @ replicate (length cs - ?h - ?a) None)" unfolding cs .
  have e: "take ?h cs @ replicate ?a None @ replicate (length cs - ?h - ?a) None
      = [] @ map Some (drop ?a xs) @ replicate (length cs - ?b) None"
    using t c(2,3) by (auto simp: replicate_add [symmetric] min_def)
  have 2: "drop_cells (take ?h cs @ replicate ?a None @ replicate (length cs - ?h - ?a) None) 0 ?b
      = Some (replicate ?b None @ replicate (length cs - ?b) None)"
    unfolding e
    using drop_cells_Some [of "drop ?a xs" ?b "[]" 0 "replicate (length cs - ?b) None"] by simp
  have "?b \<le> length cs" using c(3) by simp
  then show ?thesis
    using Some 1 2 c(5) c(1) [symmetric]
    by (simp add: destroyElements_def vd_capacity_def Let_def replicate_add [symmetric])
qed

lemma vd_clear_rel:
  assumes "vd_rel q xs"
  shows "\<exists>q'. vd_clear q = Some q' \<and> vd_rel q' [] \<and> vd_buffer_capacity q' = vd_buffer_capacity q"
proof -
  let ?q = "q\<lparr>vd_buffer := map_option (\<lambda>cs. replicate (length cs) None) (vd_buffer q),
    vd_head := 0, vd_queue_size := 0\<rparr>"
  have "vd_clear q = Some ?q" by (simp add: vd_clear_def destroyElements_rel [OF assms])
  moreover have "vd_rel ?q []" using assms by (auto simp: vd_rel_def split: option.splits)
  ultimately show ?thesis by auto
qed

lemma vd_reserve_rel:
  assumes "vd_rel q xs" and "n * sz \<le> isize_max" and "0 < sz"
  shows "\<exists>q'. vd_reserve sz n q = Some q' \<and> vd_rel q' xs \<and>
    vd_buffer_capacity q' = max n (vd_buffer_capacity q)"
proof -
  have l: "length xs \<le> vd_buffer_capacity q"
    using assms(1) by (auto simp: vd_rel_def split: option.splits)
  show ?thesis
  proof (cases "n \<le> vd_buffer_capacity q")
    case True
    then show ?thesis using assms le_max_size [OF assms(2,3)]
      by (auto simp: vd_reserve_def vd_max_size_def vd_capacity_def)
  next
    case False
    then show ?thesis using l assms le_max_size [OF assms(2,3)] vd_relocate_rel [of q xs n sz]
      by (auto simp: vd_reserve_def vd_max_size_def vd_capacity_def)
  qed
qed

lemma vd_shrink_to_fit_rel:
  assumes "vd_rel q xs" and "length xs * sz \<le> isize_max"
  shows "\<exists>q'. vd_shrink_to_fit sz q = Some q' \<and> vd_rel q' xs \<and> vd_buffer_capacity q' = length xs"
proof (cases "xs = []")
  case True
  then show ?thesis using assms(1)
    by (auto simp: vd_shrink_to_fit_def destroyElements_rel vd_rel_def vd_capacity_def Let_def)
next
  case False
  then show ?thesis using assms vd_relocate_rel [of q xs "length xs" sz]
    by (cases "vd_capacity q = vd_queue_size q")
      (auto simp: vd_shrink_to_fit_def Let_def vd_rel_size vd_capacity_def)
qed


section \<open>Sequences of operations\<close>

datatype 'a deque_op = PushBack 'a | PushFront 'a | PopBack | PopFront | Clear

fun vd_step :: "nat \<Rightarrow> 'a deque_op \<Rightarrow> 'a vec_deque \<Rightarrow> 'a vec_deque option" where
  "vd_step sz (PushBack v) q = vd_push_back sz v q"
| "vd_step sz (PushFront v) q = vd_push_front sz v q"
| "vd_step sz PopBack q = vd_pop_back q"
| "vd_step sz PopFront q = vd_pop_front q"
| "vd_step sz Clear q = vd_clear q"

text \<open>The same operations on lists: a pop of an empty queue is an error.\<close>

fun list_step :: "'a deque_op \<Rightarrow> 'a list \<Rightarrow> 'a list option" where
  "list_step (PushBack v) xs = Some (xs @ [v])"
| "list_step (PushFront v) xs = Some (v # xs)"
| "list_step PopBack xs = (if xs = [] then None else Some (butlast xs))"
| "list_step PopFront xs = (if xs = [] then None else Some (tl xs))"
| "list_step Clear xs = Some []"

lemma vd_pop_empty: "vd_rel q [] \<Longrightarrow> vd_pop_back q = None \<and> vd_pop_front q = None"
  by (simp add: vd_pop_back_def vd_pop_front_def vd_empty_def vd_rel_size)

lemma vd_room_bound:
  assumes "vd_rel q xs" and "0 < sz" and "(3 * length xs + 4) * sz \<le> isize_max"
  shows "vd_room sz q"
proof -
  have "(if vd_capacity q > 0 then vd_capacity q * 3 div 2 + 1 else 4) \<le> 3 * length xs + 4"
    if "vd_is_full q"
    using that assms(1) by (auto simp: vd_is_full_def vd_rel_size)
  then show ?thesis
    using assms(2,3) unfolding vd_room_def by (meson le_trans mult_le_mono1)
qed

lemma vd_step_refines:
  assumes i: "vd_inv q" and sz: "0 < sz" "(3 * (length (vd_list q) + Suc n) + 4) * sz \<le> isize_max"
  shows "case list_step op (vd_list q) of
      None \<Rightarrow> vd_step sz op q = None
    | Some xs \<Rightarrow> \<exists>q'. vd_step sz op q = Some q' \<and> vd_inv q' \<and> vd_list q' = xs"
proof -
  let ?xs = "vd_list q"
  have r: "vd_rel q ?xs" using i by blast
  have "(3 * length ?xs + 4) * sz \<le> (3 * (length ?xs + Suc n) + 4) * sz" by simp
  then have room: "vd_room sz q" using sz vd_room_bound [OF r] le_trans by blast
  show ?thesis
  proof (cases op)
    case (PushBack v)
    then show ?thesis using vd_push_back_rel [OF r room, of v] by (simp add: vd_rel_iff)
  next
    case (PushFront v)
    then show ?thesis using vd_push_front_rel [OF r room, of v] by (simp add: vd_rel_iff)
  next
    case PopBack
    then show ?thesis
      using r vd_pop_back_rel [of q "butlast ?xs" "last ?xs"] vd_pop_empty [of q]
      by (cases "?xs = []") (simp_all add: vd_rel_iff)
  next
    case PopFront
    then show ?thesis
      using r vd_pop_front_rel [of q "hd ?xs" "tl ?xs"] vd_pop_empty [of q]
      by (cases "?xs = []") (simp_all add: vd_rel_iff)
  next
    case Clear
    then show ?thesis using vd_clear_rel [OF r] by (auto simp: vd_rel_iff)
  qed
qed

interpretation vd: refines vd_inv vd_list "vd_step sz" list_step
  "\<lambda>n xs. 0 < sz \<and> (3 * (length xs + n) + 4) * sz \<le> isize_max" for sz
proof unfold_locales
  fix q :: "'a vec_deque" and n op
  assume "vd_inv q" and "0 < sz \<and> (3 * (length (vd_list q) + Suc n) + 4) * sz \<le> isize_max"
  then show "case list_step op (vd_list q) of
      None \<Rightarrow> vd_step sz op q = None
    | Some xs \<Rightarrow> \<exists>q'. vd_step sz op q = Some q' \<and> vd_inv q' \<and> vd_list q' = xs"
    by (intro vd_step_refines [where n = n]) auto
next
  fix n op and xs xs' :: "'a list"
  assume a: "0 < sz \<and> (3 * (length xs + Suc n) + 4) * sz \<le> isize_max"
    and s: "list_step op xs = Some xs'"
  from s have "length xs' \<le> Suc (length xs)" by (cases op) (auto split: if_splits)
  then have "(3 * (length xs' + n) + 4) * sz \<le> (3 * (length xs + Suc n) + 4) * sz"
    by (intro mult_le_mono1) simp
  with a show "0 < sz \<and> (3 * (length xs' + n) + 4) * sz \<le> isize_max" by linarith
qed


section \<open>Properties\<close>

text \<open>C19: any sequence of \<open>push_back\<close>, \<open>push_front\<close>, \<open>pop_back\<close>, \<open>pop_front\<close> and \<open>clear\<close>
  on a well-formed \<open>VecDeque\<close> does exactly what the sequence does on the list it stands for: it
  panics where a pop meets an empty list and nowhere else, never reads or drops a dead cell, and
  ends well-formed, as long as the enlarged buffer fits in memory.\<close>

theorem vd_run_refines:
  assumes "vd_inv q" and "0 < sz"
    and "(3 * (length (vd_list q) + length ops) + 4) * sz \<le> isize_max"
  shows "case run_ops list_step ops (vd_list q) of
      None \<Rightarrow> run_ops (vd_step sz) ops q = None
    | Some xs \<Rightarrow> \<exists>q'. run_ops (vd_step sz) ops q = Some q' \<and> vd_inv q' \<and> vd_list q' = xs"
  using vd.run_refines [of q sz ops] assms by simp

theorem vd_run_refines_witness:
  "\<exists>q'. run_ops (vd_step 8) [PushBack 1, PushBack 2, PushFront 3, PopBack] (vd_new :: nat vec_deque)
      = Some q' \<and> vd_inv q' \<and> vd_list q' = [3, 1]"
  using vd_run_refines [of "vd_new :: nat vec_deque" 8 "[PushBack 1, PushBack 2, PushFront 3, PopBack]"]
  by (simp add: vd_inv_def vd_list_def vd_new_def isize_max_def)

text \<open>\<open>at\<close>, \<open>front\<close> and \<open>back\<close> read the element of the list at that position and panic exactly
  when there is none.\<close>

lemma vd_access:
  assumes "vd_inv q"
  shows "vd_at q i = (if i < length (vd_list q) then Some (vd_list q ! i) else None) \<and>
    vd_front q = (if vd_list q = [] then None else Some (hd (vd_list q))) \<and>
    vd_back q = (if vd_list q = [] then None else Some (last (vd_list q)))"
proof -
  have r: "vd_rel q (vd_list q)" using assms by blast
  have "vd_back q = None" if "vd_list q = []"
    using that vd_rel_size [OF r] by (simp add: vd_back_def vd_empty_def)
  then show ?thesis
    using vd_at_rel [OF r] vd_front_at [OF r] vd_back_at [OF r]
    by (auto simp: hd_conv_nth last_conv_nth)
qed

text \<open>\<open>reserve\<close> and \<open>shrink_to_fit\<close> move the elements into a buffer of the capacity asked for
  (of the size of the queue) and keep the queue, wrapped around or not.\<close>

lemma vd_relocations:
  assumes "vd_inv q" and "0 < sz" and "n * sz \<le> isize_max"
    and "length (vd_list q) * sz \<le> isize_max"
  shows "(\<exists>q'. vd_reserve sz n q = Some q' \<and> vd_inv q' \<and> vd_list q' = vd_list q \<and>
        vd_capacity q' = max n (vd_capacity q)) \<and>
    (\<exists>q'. vd_shrink_to_fit sz q = Some q' \<and> vd_inv q' \<and> vd_list q' = vd_list q \<and>
        vd_capacity q' = vd_size q)"
proof -
  have r: "vd_rel q (vd_list q)" using assms(1) by blast
  show ?thesis
    using vd_reserve_rel [OF r assms(3,2)] vd_shrink_to_fit_rel [OF r assms(4)] vd_rel_size [OF r]
    by (auto simp: vd_rel_iff vd_capacity_def vd_size_def)
qed

end
