(* ===== verification/Dense_Hash.thy ===== *)
theory Dense_Hash
  imports Luau_Prelude "HOL-Library.Multiset"
begin

text \<open>
  \<open>luaur-common/src/records/dense_hash_table.rs\<close>, \<open>dense_hash_map.rs\<close> and \<open>dense_hash_set.rs\<close>:
  an open-addressing hash table whose capacity is 0 or a power of two, with a sentinel key for empty
  slots and triangular (quadratic) probing. The hash and equality functors are fields of the table,
  as in the source; the layout of a slot (a key, or a key with a value) is an \<open>item_interface\<close>.
  The \<open>unreachable!\<close> at the end of each probe loop is \<open>None\<close>; the theorems show that it is not
  reached, because triangular probing visits every slot of a power-of-two table and the load factor
  keeps one slot empty.
\<close>

section \<open>State\<close>

record ('k, 'i) item_interface =
  get_key :: "'i \<Rightarrow> 'k"
  set_key :: "'i \<Rightarrow> 'k \<Rightarrow> 'i"
  make_empty :: "'k \<Rightarrow> 'i"

definition ItemInterfaceSet :: "('k, 'k) item_interface" where
  "ItemInterfaceSet = \<lparr>get_key = (\<lambda>item. item), set_key = (\<lambda>item key. key),
     make_empty = (\<lambda>empty_key. empty_key)\<rparr>"

text \<open>The value of an empty slot is \<open>dense_default()\<close> of the value type, a parameter here.\<close>

definition ItemInterfaceMap :: "'v \<Rightarrow> ('k, 'k \<times> 'v) item_interface" where
  "ItemInterfaceMap dense_default = \<lparr>get_key = fst, set_key = (\<lambda>item key. (key, snd item)),
     make_empty = (\<lambda>empty_key. (empty_key, dense_default))\<rparr>"

record ('k, 'i) dense_hash_table =
  dh_data :: "'i list"
  dh_capacity :: nat
  dh_count :: nat
  dh_empty_key :: 'k
  dh_hasher :: "'k \<Rightarrow> nat"
  dh_eq :: "'k \<Rightarrow> 'k \<Rightarrow> bool"

section \<open>Table operations\<close>

definition dh_new ::
  "('k, 'i) item_interface \<Rightarrow> ('k \<Rightarrow> nat) \<Rightarrow> ('k \<Rightarrow> 'k \<Rightarrow> bool) \<Rightarrow> 'k \<Rightarrow> nat
    \<Rightarrow> ('k, 'i) dense_hash_table option" where
  "dh_new ifc hash eq empty_key buckets = do {
     LUAU_ASSERT (eq empty_key empty_key);
     LUAU_ASSERT (buckets = 0 \<or> buckets AND (buckets - 1) = 0);
     let data = (if buckets > 0 then replicate buckets (make_empty ifc empty_key) else []);
     Some \<lparr>dh_data = data, dh_capacity = buckets, dh_count = 0, dh_empty_key = empty_key,
           dh_hasher = hash, dh_eq = eq\<rparr>
   }"

text \<open>The probe loops, \<open>for probe in 0..=hashmod\<close>; the last argument is the number of iterations
  left.\<close>

fun insert_loop ::
  "('k, 'i) item_interface \<Rightarrow> ('k, 'i) dense_hash_table \<Rightarrow> 'k \<Rightarrow> nat \<Rightarrow> nat \<Rightarrow> nat
    \<Rightarrow> (('k, 'i) dense_hash_table \<times> nat) option" where
  "insert_loop ifc t key bucket probe 0 = None"
| "insert_loop ifc t key bucket probe (Suc n) = do {
     item \<leftarrow> index_checked (dh_data t) bucket;
     if dh_eq t (get_key ifc item) (dh_empty_key t) then
       Some (t\<lparr>dh_data := (dh_data t)[bucket := set_key ifc item key],
               dh_count := dh_count t + 1\<rparr>, bucket)
     else if dh_eq t (get_key ifc item) key then Some (t, bucket)
     else insert_loop ifc t key ((bucket + probe + 1) AND (dh_capacity t - 1)) (probe + 1) n
   }"

definition insert_unsafe ::
  "('k, 'i) item_interface \<Rightarrow> 'k \<Rightarrow> ('k, 'i) dense_hash_table
    \<Rightarrow> (('k, 'i) dense_hash_table \<times> nat) option" where
  "insert_unsafe ifc key t = do {
     LUAU_ASSERT (\<not> dh_eq t key (dh_empty_key t));
     LUAU_ASSERT (dh_capacity t > 0);
     let hashmod = dh_capacity t - 1;
     insert_loop ifc t key (dh_hasher t key AND hashmod) 0 (hashmod + 1)
   }"

fun find_loop ::
  "('k, 'i) item_interface \<Rightarrow> ('k, 'i) dense_hash_table \<Rightarrow> 'k \<Rightarrow> nat \<Rightarrow> nat \<Rightarrow> nat
    \<Rightarrow> nat option option" where
  "find_loop ifc t key bucket probe 0 = None"
| "find_loop ifc t key bucket probe (Suc n) = do {
     item \<leftarrow> index_checked (dh_data t) bucket;
     if dh_eq t (get_key ifc item) key then Some (Some bucket)
     else if dh_eq t (get_key ifc item) (dh_empty_key t) then Some None
     else find_loop ifc t key ((bucket + probe + 1) AND (dh_capacity t - 1)) (probe + 1) n
   }"

definition dh_find ::
  "('k, 'i) item_interface \<Rightarrow> ('k, 'i) dense_hash_table \<Rightarrow> 'k \<Rightarrow> nat option option" where
  "dh_find ifc t key =
     (if dh_count t = 0 then Some None
      else if dh_eq t key (dh_empty_key t) then Some None
      else do {
        LUAU_ASSERT (dh_capacity t > 0);
        let hashmod = dh_capacity t - 1;
        find_loop ifc t key (dh_hasher t key AND hashmod) 0 (hashmod + 1)
      })"

fun rehash_loop ::
  "('k, 'i) item_interface \<Rightarrow> ('k, 'i) dense_hash_table \<Rightarrow> 'i list \<Rightarrow> ('k, 'i) dense_hash_table
    \<Rightarrow> ('k, 'i) dense_hash_table option" where
  "rehash_loop ifc t [] newtable = Some newtable"
| "rehash_loop ifc t (item # items) newtable =
     (if \<not> dh_eq t (get_key ifc item) (dh_empty_key t) then do {
        (newtable, idx) \<leftarrow> insert_unsafe ifc (get_key ifc item) newtable;
        data \<leftarrow> update_checked (dh_data newtable) idx item;
        rehash_loop ifc t items (newtable\<lparr>dh_data := data\<rparr>)
      } else rehash_loop ifc t items newtable)"

definition dh_rehash ::
  "('k, 'i) item_interface \<Rightarrow> ('k, 'i) dense_hash_table \<Rightarrow> ('k, 'i) dense_hash_table option" where
  "dh_rehash ifc t = do {
     let newsize = (if dh_capacity t = 0 then 16 else dh_capacity t * 2);
     newtable \<leftarrow> dh_new ifc (dh_hasher t) (dh_eq t) (dh_empty_key t) newsize;
     newtable \<leftarrow> rehash_loop ifc t (dh_data t) newtable;
     LUAU_ASSERT (dh_count t = dh_count newtable);
     Some (t\<lparr>dh_data := dh_data newtable, dh_capacity := dh_capacity newtable\<rparr>)
   }"

definition rehash_if_full ::
  "('k, 'i) item_interface \<Rightarrow> 'k \<Rightarrow> ('k, 'i) dense_hash_table
    \<Rightarrow> ('k, 'i) dense_hash_table option" where
  "rehash_if_full ifc key t =
     (if dh_count t \<ge> dh_capacity t * 3 div 4 then do {
        r \<leftarrow> dh_find ifc t key;
        (if r = None then dh_rehash ifc t else Some t)
      } else Some t)"

definition dh_clear ::
  "('k, 'i) item_interface \<Rightarrow> ('k, 'i) dense_hash_table \<Rightarrow> ('k, 'i) dense_hash_table" where
  "dh_clear ifc t =
     (if dh_count t = 0 then t
      else t\<lparr>dh_data := map (\<lambda>_. make_empty ifc (dh_empty_key t)) (dh_data t), dh_count := 0\<rparr>)"

fun first_occupied_loop ::
  "('k, 'i) item_interface \<Rightarrow> ('k, 'i) dense_hash_table \<Rightarrow> nat \<Rightarrow> nat \<Rightarrow> nat" where
  "first_occupied_loop ifc t start 0 = start"
| "first_occupied_loop ifc t start (Suc n) =
     (if start < dh_capacity t \<and> dh_eq t (get_key ifc (dh_data t ! start)) (dh_empty_key t)
      then first_occupied_loop ifc t (start + 1) n else start)"

text \<open>The scans run at most once per slot, which is the fuel given to them.\<close>

definition first_occupied ::
  "('k, 'i) item_interface \<Rightarrow> ('k, 'i) dense_hash_table \<Rightarrow> nat" where
  "first_occupied ifc t = first_occupied_loop ifc t 0 (dh_capacity t)"

definition next_occupied ::
  "('k, 'i) item_interface \<Rightarrow> ('k, 'i) dense_hash_table \<Rightarrow> nat \<Rightarrow> nat" where
  "next_occupied ifc t index = first_occupied_loop ifc t (index + 1) (dh_capacity t - index)"

text \<open>A \<open>ConstIterator\<close> from slot \<open>index\<close>: the items \<open>next\<close> yields until the end.\<close>

function const_iterator_items ::
  "('k, 'i) item_interface \<Rightarrow> ('k, 'i) dense_hash_table \<Rightarrow> nat \<Rightarrow> 'i list" where
  "const_iterator_items ifc t index =
     (if index \<ge> dh_capacity t then []
      else dh_data t ! index # const_iterator_items ifc t (next_occupied ifc t index))"
  by auto

lemma first_occupied_loop_ge: "start \<le> first_occupied_loop ifc t start n"
  by (induction ifc t start n rule: first_occupied_loop.induct) auto

lemma next_occupied_gt: "i < next_occupied ifc t i"
  using first_occupied_loop_ge [of "i + 1" ifc t "dh_capacity t - i"] by (simp add: next_occupied_def)

termination const_iterator_items
  by (relation "measure (\<lambda>(ifc, t, i). dh_capacity t - i)")
    (auto simp: next_occupied_gt intro!: diff_less_mono2)

declare const_iterator_items.simps [simp del]

definition dh_size :: "('k, 'i) dense_hash_table \<Rightarrow> nat" where
  "dh_size t = dh_count t"

section \<open>Maps and sets\<close>

type_synonym ('k, 'v) dense_hash_map = "('k, 'k \<times> 'v) dense_hash_table"
type_synonym 'k dense_hash_set = "('k, 'k) dense_hash_table"

definition dhm_new ::
  "'v \<Rightarrow> ('k \<Rightarrow> nat) \<Rightarrow> ('k \<Rightarrow> 'k \<Rightarrow> bool) \<Rightarrow> 'k \<Rightarrow> ('k, 'v) dense_hash_map option" where
  "dhm_new dflt hash eq empty_key = dh_new (ItemInterfaceMap dflt) hash eq empty_key 0"

text \<open>\<open>get_or_insert\<close> returns a reference to the value: the slot and the table that holds it.\<close>

definition dhm_get_or_insert ::
  "'v \<Rightarrow> 'k \<Rightarrow> ('k, 'v) dense_hash_map \<Rightarrow> (('k, 'v) dense_hash_map \<times> nat) option" where
  "dhm_get_or_insert dflt key t = do {
     t \<leftarrow> rehash_if_full (ItemInterfaceMap dflt) key t;
     insert_unsafe (ItemInterfaceMap dflt) key t
   }"

text \<open>\<open>*map.get_or_insert(key) = v\<close>, the idiom of the callers.\<close>

definition dhm_set ::
  "'v \<Rightarrow> 'k \<Rightarrow> 'v \<Rightarrow> ('k, 'v) dense_hash_map \<Rightarrow> ('k, 'v) dense_hash_map option" where
  "dhm_set dflt key v t = do {
     (t, idx) \<leftarrow> dhm_get_or_insert dflt key t;
     item \<leftarrow> index_checked (dh_data t) idx;
     data \<leftarrow> update_checked (dh_data t) idx (fst item, v);
     Some (t\<lparr>dh_data := data\<rparr>)
   }"

definition dhm_find :: "'v \<Rightarrow> ('k, 'v) dense_hash_map \<Rightarrow> 'k \<Rightarrow> 'v option option" where
  "dhm_find dflt t key = do {
     r \<leftarrow> dh_find (ItemInterfaceMap dflt) t key;
     (case r of
        None \<Rightarrow> Some None
      | Some idx \<Rightarrow> do { item \<leftarrow> index_checked (dh_data t) idx; Some (Some (snd item)) })
   }"

definition dhm_contains :: "'v \<Rightarrow> ('k, 'v) dense_hash_map \<Rightarrow> 'k \<Rightarrow> bool option" where
  "dhm_contains dflt t key = do {
     r \<leftarrow> dh_find (ItemInterfaceMap dflt) t key;
     Some (r \<noteq> None)
   }"

definition dhm_try_insert ::
  "'v \<Rightarrow> 'k \<Rightarrow> 'v \<Rightarrow> ('k, 'v) dense_hash_map \<Rightarrow> (('k, 'v) dense_hash_map \<times> bool) option" where
  "dhm_try_insert dflt key v t = do {
     t \<leftarrow> rehash_if_full (ItemInterfaceMap dflt) key t;
     let before = dh_size t;
     (t, idx) \<leftarrow> insert_unsafe (ItemInterfaceMap dflt) key t;
     let fresh = (dh_size t > before);
     t \<leftarrow> (if fresh then do {
              item \<leftarrow> index_checked (dh_data t) idx;
              data \<leftarrow> update_checked (dh_data t) idx (fst item, v);
              Some (t\<lparr>dh_data := data\<rparr>)
            } else Some t);
     Some (t, fresh)
   }"

definition dhs_insert :: "'k \<Rightarrow> 'k dense_hash_set \<Rightarrow> ('k dense_hash_set \<times> nat) option" where
  "dhs_insert key t = do {
     t \<leftarrow> rehash_if_full ItemInterfaceSet key t;
     insert_unsafe ItemInterfaceSet key t
   }"

definition dhs_contains :: "'k dense_hash_set \<Rightarrow> 'k \<Rightarrow> bool option" where
  "dhs_contains t key = do {
     r \<leftarrow> dh_find ItemInterfaceSet t key;
     Some (r \<noteq> None)
   }"

text \<open>\<open>PartialEq::eq\<close> of sets: equal sizes, and every key the iterator yields is in the other set.\<close>

fun dhs_contains_all :: "'k dense_hash_set \<Rightarrow> 'k list \<Rightarrow> bool option" where
  "dhs_contains_all other [] = Some True"
| "dhs_contains_all other (k # ks) = do {
     c \<leftarrow> dhs_contains other k;
     (if \<not> c then Some False else dhs_contains_all other ks)
   }"

definition dhs_eq :: "'k dense_hash_set \<Rightarrow> 'k dense_hash_set \<Rightarrow> bool option" where
  "dhs_eq self other =
     (if dh_size self \<noteq> dh_size other then Some False
      else dhs_contains_all other
        (const_iterator_items ItemInterfaceSet self (first_occupied ItemInterfaceSet self)))"

text \<open>What a caller does with a map, and what it means for the finite map the table stands for.
  Inserting the sentinel key is the one error.\<close>

datatype ('k, 'v) map_op = TryInsert 'k 'v | SetAt 'k 'v | ClearAll

fun dhm_step ::
  "'v \<Rightarrow> ('k, 'v) map_op \<Rightarrow> ('k, 'v) dense_hash_map \<Rightarrow> ('k, 'v) dense_hash_map option" where
  "dhm_step dflt (TryInsert k v) t = map_option fst (dhm_try_insert dflt k v t)"
| "dhm_step dflt (SetAt k v) t = dhm_set dflt k v t"
| "dhm_step dflt ClearAll t = Some (dh_clear (ItemInterfaceMap dflt) t)"

fun map_step :: "'k \<Rightarrow> ('k, 'v) map_op \<Rightarrow> ('k \<rightharpoonup> 'v) \<Rightarrow> ('k \<rightharpoonup> 'v) option" where
  "map_step e (TryInsert k v) m =
     (if k = e then None else Some (if m k = None then m(k \<mapsto> v) else m))"
| "map_step e (SetAt k v) m = (if k = e then None else Some (m(k \<mapsto> v)))"
| "map_step e ClearAll m = Some Map.empty"

section \<open>Triangular probing visits every slot\<close>

definition tri :: "nat \<Rightarrow> nat" where
  "tri n = n * (n + 1) div 2"

definition probe_pos :: "nat \<Rightarrow> nat \<Rightarrow> nat \<Rightarrow> nat" where
  "probe_pos h c p = (h + tri p) mod c"

lemma tri_Suc: "tri (Suc n) = tri n + Suc n"
  by (simp add: tri_def)

lemma tri_0 [simp]: "tri 0 = 0"
  by (simp add: tri_def)

lemma two_tri: "2 * tri n = n * (n + 1)"
  by (induction n) (simp_all add: tri_Suc algebra_simps)

lemma and_mask_mod: "(x :: nat) AND (2 ^ k - 1) = x mod 2 ^ k"
  by (metis mask_eq_exp_minus_1 take_bit_eq_mask take_bit_eq_mod)

lemma probe_pos_start: "h AND (2 ^ k - 1) = probe_pos h (2 ^ k) 0"
  unfolding and_mask_mod probe_pos_def by simp

lemma probe_pos_step:
  "(probe_pos h (2 ^ k) p + p + 1) AND (2 ^ k - 1) = probe_pos h (2 ^ k) (Suc p)"
  unfolding and_mask_mod probe_pos_def tri_Suc
  using mod_add_left_eq [of "h + tri p" "2 ^ k" "Suc p"] by (simp add: add.assoc)

lemma probe_pos_less: "probe_pos h (2 ^ k) p < 2 ^ k"
  by (simp add: probe_pos_def)

lemma probe_pos_distinct:
  assumes "i < j" and "j < 2 ^ k"
  shows "probe_pos h (2 ^ k) i \<noteq> probe_pos h (2 ^ k) j"
proof
  assume "probe_pos h (2 ^ k) i = probe_pos h (2 ^ k) j"
  then have "int (h + tri j) mod 2 ^ k = int (h + tri i) mod 2 ^ k"
    unfolding probe_pos_def by (metis of_nat_mod of_nat_numeral of_nat_power)
  then have "(2 :: int) ^ k dvd int (tri j) - int (tri i)"
    by (simp add: mod_eq_dvd_iff)
  then have "(2 :: int) ^ Suc k dvd 2 * (int (tri j) - int (tri i))"
    unfolding power_Suc by (intro mult_dvd_mono) simp_all
  also have "2 * (int (tri j) - int (tri i)) = int (2 * tri j) - int (2 * tri i)"
    by simp
  also have "\<dots> = int (j - i) * int (j + i + 1)"
    unfolding two_tri using assms(1) by (simp add: of_nat_diff algebra_simps)
  finally have "int (2 ^ Suc k) dvd int ((j - i) * (j + i + 1))"
    by (simp only: of_nat_mult of_nat_power of_nat_numeral)
  then have d: "2 ^ Suc k dvd (j - i) * (j + i + 1)"
    using int_dvd_int_iff by blast
  have "odd (j - i) \<or> odd (j + i + 1)"
    using assms(1) by presburger
  then show False
  proof
    assume "odd (j - i)"
    then have "coprime (2 ^ Suc k) (j - i)" by simp
    then have "2 ^ Suc k dvd j + i + 1" using d coprime_dvd_mult_right_iff by blast
    then show False using assms by (auto dest: dvd_imp_le)
  next
    assume "odd (j + i + 1)"
    then have "coprime (2 ^ Suc k) (j + i + 1)" by (simp del: even_Suc)
    then have "2 ^ Suc k dvd j - i" using d coprime_dvd_mult_left_iff by blast
    then show False using assms by (auto dest: dvd_imp_le)
  qed
qed

lemma probe_pos_surj:
  assumes "i < 2 ^ k"
  shows "\<exists>p < 2 ^ k. probe_pos h (2 ^ k) p = i"
proof -
  have "inj_on (probe_pos h (2 ^ k)) {..<2 ^ k}"
    by (rule linorder_inj_onI) (auto dest: probe_pos_distinct)
  then have "probe_pos h (2 ^ k) ` {..<2 ^ k} = {..<2 ^ k}"
    by (intro endo_inj_surj) (auto simp: probe_pos_less)
  with assms show ?thesis by (metis image_iff lessThan_iff)
qed


section \<open>Invariant\<close>

definition dh_key_at :: "('k, 'i) item_interface \<Rightarrow> ('k, 'i) dense_hash_table \<Rightarrow> nat \<Rightarrow> 'k" where
  "dh_key_at ifc t i = get_key ifc (dh_data t ! i)"

definition dh_items :: "('k, 'i) item_interface \<Rightarrow> ('k, 'i) dense_hash_table \<Rightarrow> 'i list" where
  "dh_items ifc t = filter (\<lambda>item. get_key ifc item \<noteq> dh_empty_key t) (dh_data t)"

text \<open>Every live key sits on its own probe path, behind live slots with other keys.\<close>

definition dh_path ::
  "('k, 'i) item_interface \<Rightarrow> ('k, 'i) dense_hash_table \<Rightarrow> nat \<Rightarrow> nat \<Rightarrow> bool" where
  "dh_path ifc t i p \<longleftrightarrow>
     p < dh_capacity t \<and> probe_pos (dh_hasher t (dh_key_at ifc t i)) (dh_capacity t) p = i \<and>
     (\<forall>q < p. dh_key_at ifc t (probe_pos (dh_hasher t (dh_key_at ifc t i)) (dh_capacity t) q)
        \<notin> {dh_empty_key t, dh_key_at ifc t i})"

definition dh_wf :: "('k, 'i) item_interface \<Rightarrow> ('k, 'i) dense_hash_table \<Rightarrow> bool" where
  "dh_wf ifc t \<longleftrightarrow>
     dh_eq t = (=) \<and> length (dh_data t) = dh_capacity t \<and>
     (dh_capacity t = 0 \<or> (\<exists>k. dh_capacity t = 2 ^ k)) \<and>
     dh_count t = length (dh_items ifc t) \<and>
     (\<forall>i < dh_capacity t. dh_key_at ifc t i = dh_empty_key t \<longrightarrow>
        dh_data t ! i = make_empty ifc (dh_empty_key t)) \<and>
     (\<forall>i < dh_capacity t. dh_key_at ifc t i \<noteq> dh_empty_key t \<longrightarrow> (\<exists>p. dh_path ifc t i p))"

definition dh_inv :: "('k, 'i) item_interface \<Rightarrow> ('k, 'i) dense_hash_table \<Rightarrow> bool" where
  "dh_inv ifc t \<longleftrightarrow> dh_wf ifc t \<and> dh_count t \<le> dh_capacity t * 3 div 4"

lemma dh_wfD:
  assumes "dh_wf ifc t"
  shows "dh_eq t = (=)" "length (dh_data t) = dh_capacity t"
    "dh_count t = length (dh_items ifc t)"
    "i < dh_capacity t \<Longrightarrow> dh_key_at ifc t i = dh_empty_key t \<Longrightarrow>
      dh_data t ! i = make_empty ifc (dh_empty_key t)"
    "i < dh_capacity t \<Longrightarrow> dh_key_at ifc t i \<noteq> dh_empty_key t \<Longrightarrow> \<exists>p. dh_path ifc t i p"
  using assms by (auto simp: dh_wf_def)

lemma dh_keys_inj:
  assumes wf: "dh_wf ifc t" and i: "i < dh_capacity t" and j: "j < dh_capacity t"
    and k: "dh_key_at ifc t i = dh_key_at ifc t j" and ne: "dh_key_at ifc t i \<noteq> dh_empty_key t"
  shows "i = j"
proof -
  obtain p q where pq: "dh_path ifc t i p" "dh_path ifc t j q"
    using dh_wfD(5) [OF wf i ne] dh_wfD(5) [OF wf j] k ne by auto
  then have "\<not> p < q" "\<not> q < p" using k by (auto simp: dh_path_def)
  then show ?thesis using pq k by (auto simp: dh_path_def)
qed

lemma distinct_filter_nth:
  assumes "\<And>i j. i < length xs \<Longrightarrow> j < length xs \<Longrightarrow> P (xs ! i) \<Longrightarrow> xs ! i = xs ! j \<Longrightarrow> i = j"
  shows "distinct (filter P xs)"
  using assms
proof (induction xs)
  case (Cons x xs)
  have "distinct (filter P xs)"
    by (rule Cons.IH) (use Cons.prems [of "Suc _" "Suc _"] in auto)
  moreover have "x \<notin> set xs" if "P x"
    using Cons.prems [of 0 "Suc _"] that by (force simp: in_set_conv_nth)
  ultimately show ?case by auto
qed simp

lemma dh_items_nth:
  assumes wf: "dh_wf ifc t"
  shows "item \<in> set (dh_items ifc t) \<longleftrightarrow>
    (\<exists>i < dh_capacity t. dh_data t ! i = item \<and> get_key ifc item \<noteq> dh_empty_key t)"
  using dh_wfD(2) [OF wf] by (auto simp: dh_items_def in_set_conv_nth)

lemma dh_items_distinct:
  assumes wf: "dh_wf ifc t"
  shows "distinct (map (get_key ifc) (dh_items ifc t))"
proof -
  have "distinct (filter (\<lambda>k. k \<noteq> dh_empty_key t) (map (get_key ifc) (dh_data t)))"
    using dh_keys_inj [OF wf] dh_wfD(2) [OF wf]
    by (intro distinct_filter_nth) (simp add: dh_key_at_def)
  then show ?thesis by (simp add: dh_items_def filter_map comp_def)
qed

lemma mset_filter_update:
  assumes "b < length xs" and "\<not> P (xs ! b)" and "P y"
  shows "mset (filter P (xs[b := y])) = add_mset y (mset (filter P xs))"
proof -
  have "xs = take b xs @ xs ! b # drop (Suc b) xs" using assms(1) by (rule id_take_nth_drop)
  then have "filter P xs = filter P (take b xs) @ filter P (drop (Suc b) xs)"
    using assms(2) by (metis filter.simps(2) filter_append)
  then show ?thesis using assms by (simp add: upd_conv_take_nth_drop)
qed


section \<open>The table behind an item layout\<close>

locale item_layout =
  fixes ifc :: "('k, 'i) item_interface"
  assumes get_set [simp]: "get_key ifc (set_key ifc item k) = k"
    and get_empty [simp]: "get_key ifc (make_empty ifc k) = k"
begin

lemma first_stop:
  assumes wf: "dh_wf ifc t" and free: "dh_count t < dh_capacity t" and ne: "key \<noteq> dh_empty_key t"
  defines "P \<equiv> probe_pos (dh_hasher t key) (dh_capacity t)"
  obtains p where "p < dh_capacity t" "P p < dh_capacity t"
    "dh_key_at ifc t (P p) \<in> {key, dh_empty_key t}"
    "\<And>q. q < p \<Longrightarrow> dh_key_at ifc t (P q) \<notin> {key, dh_empty_key t}"
    "(\<exists>i < dh_capacity t. dh_key_at ifc t i = key) \<longleftrightarrow> dh_key_at ifc t (P p) = key"
proof -
  obtain k where k: "dh_capacity t = 2 ^ k" using wf free by (auto simp: dh_wf_def)
  let ?stop = "\<lambda>p. p < dh_capacity t \<and> dh_key_at ifc t (P p) \<in> {key, dh_empty_key t}"
  have "length (dh_items ifc t) < length (dh_data t)"
    using free dh_wfD(2,3) [OF wf] by simp
  then obtain i where i: "i < dh_capacity t" "dh_key_at ifc t i = dh_empty_key t"
    using dh_wfD(2) [OF wf]
    by (metis (mono_tags, lifting) dh_items_def dh_key_at_def filter_True in_set_conv_nth
        less_irrefl)
  then obtain p0 where "?stop p0"
    using probe_pos_surj [of i k "dh_hasher t key"] unfolding k P_def by auto
  define p where "p = (LEAST p. ?stop p)"
  have p: "?stop p" unfolding p_def by (rule LeastI) (rule \<open>?stop p0\<close>)
  have least: "dh_key_at ifc t (P q) \<notin> {key, dh_empty_key t}" if "q < p" for q
    using not_less_Least [of q ?stop] that p unfolding p_def by auto
  have "dh_key_at ifc t (P p) = key" if i: "i < dh_capacity t" "dh_key_at ifc t i = key" for i
  proof -
    obtain r where r: "dh_path ifc t i r" using dh_wfD(5) [OF wf i(1)] i(2) ne by auto
    then have "?stop r" and "\<forall>q < r. \<not> ?stop q"
      using i by (auto simp: dh_path_def P_def)
    then have "r = p" using least p by (metis linorder_neqE_nat)
    then show ?thesis using r i by (auto simp: dh_path_def P_def)
  qed
  moreover have "P p < dh_capacity t" unfolding P_def k by (rule probe_pos_less)
  ultimately show thesis using that p least by blast
qed

lemma find_loop_stop:
  fixes key :: 'k
  assumes wf: "dh_wf ifc t" and cap: "dh_capacity t = 2 ^ k"
  defines "P \<equiv> probe_pos (dh_hasher t key) (dh_capacity t)"
  assumes p: "p < dh_capacity t" "dh_key_at ifc t (P p) \<in> {key, dh_empty_key t}"
    and least: "\<And>q. q < p \<Longrightarrow> dh_key_at ifc t (P q) \<notin> {key, dh_empty_key t}"
    and a: "a \<le> p"
  shows "find_loop ifc t key (P a) a (dh_capacity t - a)
      = Some (if dh_key_at ifc t (P p) = key then Some (P p) else None)"
  using a
proof (induction "p - a" arbitrary: a)
  case 0
  then have "a = p" by simp
  have "P p < length (dh_data t)"
    using cap probe_pos_less dh_wfD(2) [OF wf] by (simp add: P_def)
  moreover have "dh_capacity t - p = Suc (dh_capacity t - Suc p)" using p(1) by simp
  ultimately show ?case
    using \<open>a = p\<close> p(2) dh_wfD(1) [OF wf] by (auto simp: dh_key_at_def)
next
  case (Suc d)
  then have lt: "a < p" by simp
  have "P a < length (dh_data t)"
    using cap probe_pos_less dh_wfD(2) [OF wf] by (simp add: P_def)
  moreover have "dh_capacity t - a = Suc (dh_capacity t - Suc a)" using p(1) lt by simp
  moreover have "(P a + a + 1) AND (dh_capacity t - 1) = P (Suc a)"
    unfolding P_def cap by (rule probe_pos_step)
  moreover have "find_loop ifc t key (P (Suc a)) (Suc a) (dh_capacity t - Suc a)
      = Some (if dh_key_at ifc t (P p) = key then Some (P p) else None)"
    using Suc lt by (intro Suc.hyps) simp_all
  ultimately show ?case
    using least [OF lt] dh_wfD(1) [OF wf] by (simp add: dh_key_at_def)
qed

lemma insert_loop_stop:
  fixes key :: 'k
  assumes wf: "dh_wf ifc t" and cap: "dh_capacity t = 2 ^ k" and ne: "key \<noteq> dh_empty_key t"
  defines "P \<equiv> probe_pos (dh_hasher t key) (dh_capacity t)"
  assumes p: "p < dh_capacity t" "dh_key_at ifc t (P p) \<in> {key, dh_empty_key t}"
    and least: "\<And>q. q < p \<Longrightarrow> dh_key_at ifc t (P q) \<notin> {key, dh_empty_key t}"
    and a: "a \<le> p"
  shows "insert_loop ifc t key (P a) a (dh_capacity t - a)
      = Some (if dh_key_at ifc t (P p) = key then t
              else t\<lparr>dh_data := (dh_data t)[P p := set_key ifc (dh_data t ! P p) key],
                     dh_count := dh_count t + 1\<rparr>, P p)"
  using a
proof (induction "p - a" arbitrary: a)
  case 0
  then have "a = p" by simp
  have "P p < length (dh_data t)"
    using cap probe_pos_less dh_wfD(2) [OF wf] by (simp add: P_def)
  moreover have "dh_capacity t - p = Suc (dh_capacity t - Suc p)" using p(1) by simp
  ultimately show ?case
    using \<open>a = p\<close> p(2) dh_wfD(1) [OF wf] ne by (auto simp: dh_key_at_def)
next
  case (Suc d)
  then have lt: "a < p" by simp
  have "P a < length (dh_data t)"
    using cap probe_pos_less dh_wfD(2) [OF wf] by (simp add: P_def)
  moreover have "dh_capacity t - a = Suc (dh_capacity t - Suc a)" using p(1) lt by simp
  moreover have "(P a + a + 1) AND (dh_capacity t - 1) = P (Suc a)"
    unfolding P_def cap by (rule probe_pos_step)
  moreover have "insert_loop ifc t key (P (Suc a)) (Suc a) (dh_capacity t - Suc a)
      = Some (if dh_key_at ifc t (P p) = key then t
              else t\<lparr>dh_data := (dh_data t)[P p := set_key ifc (dh_data t ! P p) key],
                     dh_count := dh_count t + 1\<rparr>, P p)"
    using Suc lt by (intro Suc.hyps) simp_all
  ultimately show ?case
    using least [OF lt] dh_wfD(1) [OF wf] by (simp add: dh_key_at_def)
qed

lemma dh_find_correct:
  assumes wf: "dh_wf ifc t" and free: "dh_count t < dh_capacity t \<or> dh_count t = 0"
  shows "\<exists>r. dh_find ifc t key = Some r \<and>
    (case r of
       None \<Rightarrow> key = dh_empty_key t \<or> (\<forall>item \<in> set (dh_items ifc t). get_key ifc item \<noteq> key)
     | Some i \<Rightarrow> i < dh_capacity t \<and> dh_key_at ifc t i = key \<and> key \<noteq> dh_empty_key t)"
proof (cases "dh_count t = 0 \<or> key = dh_empty_key t")
  case True
  then have "dh_find ifc t key = Some None" using dh_wfD(1) [OF wf] by (auto simp: dh_find_def)
  moreover have "dh_items ifc t = []" if "dh_count t = 0" using that dh_wfD(3) [OF wf] by simp
  ultimately show ?thesis using True by auto
next
  case False
  let ?P = "probe_pos (dh_hasher t key) (dh_capacity t)"
  have fr: "dh_count t < dh_capacity t" and ne: "key \<noteq> dh_empty_key t" using False free by auto
  obtain k where k: "dh_capacity t = 2 ^ k" using wf fr by (auto simp: dh_wf_def)
  obtain p where p: "p < dh_capacity t" "?P p < dh_capacity t"
    "dh_key_at ifc t (?P p) \<in> {key, dh_empty_key t}"
    "\<And>q. q < p \<Longrightarrow> dh_key_at ifc t (?P q) \<notin> {key, dh_empty_key t}"
    "(\<exists>i < dh_capacity t. dh_key_at ifc t i = key) \<longleftrightarrow> dh_key_at ifc t (?P p) = key"
    using first_stop [OF wf fr ne] by blast
  have "dh_hasher t key AND (dh_capacity t - 1) = ?P 0"
    unfolding k by (rule probe_pos_start)
  moreover have "dh_capacity t - 1 + 1 = dh_capacity t - 0" using p(1) by simp
  ultimately have "dh_find ifc t key = find_loop ifc t key (?P 0) 0 (dh_capacity t - 0)"
    using False dh_wfD(1) [OF wf] p(1) unfolding dh_find_def Let_def by (auto simp del: diff_zero)
  then have "dh_find ifc t key = Some (if dh_key_at ifc t (?P p) = key then Some (?P p) else None)"
    using find_loop_stop [OF wf k p(1,3,4), of 0] by simp
  moreover have "get_key ifc item \<noteq> key"
    if "dh_key_at ifc t (?P p) \<noteq> key" "item \<in> set (dh_items ifc t)" for item
    using that p(5) dh_items_nth [OF wf] by (auto simp: dh_key_at_def)
  ultimately show ?thesis using p(2) ne by auto
qed

text \<open>Replacing the contents of a live slot, its key kept.\<close>

lemma dh_wf_replace:
  assumes wf: "dh_wf ifc t" and i: "i < dh_capacity t" and ne: "dh_key_at ifc t i \<noteq> dh_empty_key t"
    and k: "get_key ifc item = dh_key_at ifc t i"
  defines "t' \<equiv> t\<lparr>dh_data := (dh_data t)[i := item]\<rparr>"
  shows "dh_wf ifc t'"
    and "mset (dh_items ifc t') = add_mset item (mset (dh_items ifc t) - {#dh_data t ! i#})"
proof -
  have l: "length (dh_data t) = dh_capacity t" by (rule dh_wfD(2) [OF wf])
  have same: "dh_key_at ifc t' = dh_key_at ifc t"
    using l i k by (auto simp: dh_key_at_def t'_def fun_eq_iff nth_list_update)
  let ?Q = "\<lambda>it. get_key ifc it \<noteq> dh_empty_key t"
  have d: "dh_data t = take i (dh_data t) @ dh_data t ! i # drop (Suc i) (dh_data t)"
    using i l by (intro id_take_nth_drop) simp
  have old: "dh_items ifc t
      = filter ?Q (take i (dh_data t)) @ dh_data t ! i # filter ?Q (drop (Suc i) (dh_data t))"
    unfolding dh_items_def using ne by (subst d) (simp add: dh_key_at_def)
  have new: "dh_items ifc t'
      = filter ?Q (take i (dh_data t)) @ item # filter ?Q (drop (Suc i) (dh_data t))"
    using i l ne k by (simp add: dh_items_def t'_def upd_conv_take_nth_drop)
  have path: "dh_path ifc t' = dh_path ifc t"
    by (simp add: dh_path_def fun_eq_iff same) (simp add: t'_def)
  have "dh_data t' ! j = make_empty ifc (dh_empty_key t')"
    if "j < dh_capacity t'" "dh_key_at ifc t' j = dh_empty_key t'" for j
  proof -
    have "j \<noteq> i" "j < dh_capacity t" "dh_key_at ifc t j = dh_empty_key t"
      using that ne same by (auto simp: t'_def)
    then show ?thesis using dh_wfD(4) [OF wf] by (simp add: t'_def)
  qed
  moreover have "\<exists>p. dh_path ifc t' j p"
    if "j < dh_capacity t'" "dh_key_at ifc t' j \<noteq> dh_empty_key t'" for j
    using that dh_wfD(5) [OF wf] unfolding path same by (simp add: t'_def)
  moreover have "dh_eq t' = (=)" "length (dh_data t') = dh_capacity t'"
    "dh_capacity t' = 0 \<or> (\<exists>k. dh_capacity t' = 2 ^ k)" "dh_count t' = length (dh_items ifc t)"
    using wf by (auto simp: t'_def dh_wf_def)
  moreover have "length (dh_items ifc t') = length (dh_items ifc t)" using old new by simp
  ultimately show "dh_wf ifc t'" unfolding dh_wf_def by simp
  show "mset (dh_items ifc t') = add_mset item (mset (dh_items ifc t) - {#dh_data t ! i#})"
    using old new by simp
qed

text \<open>Filling the empty slot at which the probe of a new key stops.\<close>

lemma dh_wf_fill:
  fixes key :: 'k
  assumes wf: "dh_wf ifc t" and p: "p < dh_capacity t"
  defines "b \<equiv> probe_pos (dh_hasher t key) (dh_capacity t) p"
  defines "item \<equiv> set_key ifc (make_empty ifc (dh_empty_key t)) key"
  defines "t' \<equiv> t\<lparr>dh_data := (dh_data t)[b := item], dh_count := dh_count t + 1\<rparr>"
  assumes b: "b < dh_capacity t" "dh_key_at ifc t b = dh_empty_key t"
    and ne: "key \<noteq> dh_empty_key t"
    and before: "\<And>q. q < p \<Longrightarrow>
      dh_key_at ifc t (probe_pos (dh_hasher t key) (dh_capacity t) q) \<notin> {key, dh_empty_key t}"
  shows "dh_wf ifc t'" and "mset (dh_items ifc t') = add_mset item (mset (dh_items ifc t))"
    and "dh_key_at ifc t' b = key" and "dh_data t' ! b = item"
proof -
  have l: "length (dh_data t) = dh_capacity t" by (rule dh_wfD(2) [OF wf])
  have at: "dh_key_at ifc t' = (dh_key_at ifc t)(b := key)"
    using l b(1) by (auto simp: dh_key_at_def t'_def item_def fun_eq_iff nth_list_update)
  show ms: "mset (dh_items ifc t') = add_mset item (mset (dh_items ifc t))"
    using mset_filter_update [of b "dh_data t" "\<lambda>it. get_key ifc it \<noteq> dh_empty_key t" item] b l ne
    by (simp add: dh_items_def t'_def dh_key_at_def item_def del: mset_filter)
  show "dh_key_at ifc t' b = key" by (simp add: at)
  show "dh_data t' ! b = item" using b(1) l by (simp add: t'_def)
  have "\<exists>r. dh_path ifc t' j r" if j: "j < dh_capacity t" "dh_key_at ifc t' j \<noteq> dh_empty_key t" for j
  proof (cases "j = b")
    case True
    have "dh_key_at ifc t' (probe_pos (dh_hasher t key) (dh_capacity t) q) \<notin> {dh_empty_key t, key}"
      if "q < p" for q
    proof -
      have "probe_pos (dh_hasher t key) (dh_capacity t) q \<noteq> b" using before [OF that] b(2) by auto
      then show ?thesis using before [OF that] by (simp add: at)
    qed
    then have "dh_path ifc t' j p"
      using p True unfolding dh_path_def at by (simp add: t'_def b_def)
    then show ?thesis ..
  next
    case False
    then have kj: "dh_key_at ifc t' j = dh_key_at ifc t j" by (simp add: at)
    then obtain r where r: "dh_path ifc t j r" using dh_wfD(5) [OF wf j(1)] j(2) by auto
    let ?R = "probe_pos (dh_hasher t (dh_key_at ifc t j)) (dh_capacity t)"
    have "dh_key_at ifc t' (?R q) \<notin> {dh_empty_key t, dh_key_at ifc t j}" if "q < r" for q
    proof -
      have "?R q \<noteq> b" using r b(2) that by (auto simp: dh_path_def)
      then show ?thesis using r that by (auto simp: dh_path_def at)
    qed
    then have "dh_path ifc t' j r" using r unfolding dh_path_def kj by (simp add: t'_def)
    then show ?thesis ..
  qed
  moreover have "dh_data t' ! j = make_empty ifc (dh_empty_key t)"
    if "j < dh_capacity t" "dh_key_at ifc t' j = dh_empty_key t" for j
  proof -
    have "j \<noteq> b" using that(2) ne by (auto simp: at)
    moreover from this have "dh_key_at ifc t j = dh_empty_key t" using that(2) by (simp add: at)
    ultimately show ?thesis using that(1) dh_wfD(4) [OF wf] by (simp add: t'_def)
  qed
  moreover have "length (dh_items ifc t') = Suc (length (dh_items ifc t))"
    using ms by (metis size_add_mset size_mset)
  ultimately show "dh_wf ifc t'" using wf unfolding dh_wf_def by (simp add: t'_def)
qed

lemma insert_unsafe_correct:
  assumes wf: "dh_wf ifc t" and free: "dh_count t < dh_capacity t" and ne: "key \<noteq> dh_empty_key t"
  defines "item \<equiv> set_key ifc (make_empty ifc (dh_empty_key t)) key"
  shows "\<exists>t' i. insert_unsafe ifc key t = Some (t', i) \<and> dh_wf ifc t' \<and> i < dh_capacity t \<and>
    dh_key_at ifc t' i = key \<and> dh_capacity t' = dh_capacity t \<and> dh_hasher t' = dh_hasher t \<and>
    dh_empty_key t' = dh_empty_key t \<and>
    (if key \<in> get_key ifc ` set (dh_items ifc t) then t' = t
     else dh_count t' = dh_count t + 1 \<and> dh_data t' ! i = item \<and>
       mset (dh_items ifc t') = add_mset item (mset (dh_items ifc t)))"
proof -
  let ?P = "probe_pos (dh_hasher t key) (dh_capacity t)"
  obtain k where k: "dh_capacity t = 2 ^ k" using wf free by (auto simp: dh_wf_def)
  obtain p where p: "p < dh_capacity t" "?P p < dh_capacity t"
    "dh_key_at ifc t (?P p) \<in> {key, dh_empty_key t}"
    "\<And>q. q < p \<Longrightarrow> dh_key_at ifc t (?P q) \<notin> {key, dh_empty_key t}"
    "(\<exists>i < dh_capacity t. dh_key_at ifc t i = key) \<longleftrightarrow> dh_key_at ifc t (?P p) = key"
    using first_stop [OF wf free ne] by blast
  have mem: "key \<in> get_key ifc ` set (dh_items ifc t) \<longleftrightarrow> dh_key_at ifc t (?P p) = key"
    using p(5) ne dh_items_nth [OF wf] by (force simp: dh_key_at_def image_iff)
  have "dh_hasher t key AND (dh_capacity t - 1) = ?P 0" unfolding k by (rule probe_pos_start)
  moreover have "dh_capacity t - 1 + 1 = dh_capacity t - 0" using p(1) by simp
  ultimately have "insert_unsafe ifc key t = insert_loop ifc t key (?P 0) 0 (dh_capacity t - 0)"
    using dh_wfD(1) [OF wf] ne p(1) unfolding insert_unsafe_def Let_def by (auto simp del: diff_zero)
  also have "\<dots> = Some (if dh_key_at ifc t (?P p) = key then t
      else t\<lparr>dh_data := (dh_data t)[?P p := set_key ifc (dh_data t ! ?P p) key],
             dh_count := dh_count t + 1\<rparr>, ?P p)"
    by (rule insert_loop_stop [OF wf k ne p(1,3,4)]) simp_all
  finally have ins: "insert_unsafe ifc key t = Some (if dh_key_at ifc t (?P p) = key then t
      else t\<lparr>dh_data := (dh_data t)[?P p := set_key ifc (dh_data t ! ?P p) key],
             dh_count := dh_count t + 1\<rparr>, ?P p)" .
  show ?thesis
  proof (cases "dh_key_at ifc t (?P p) = key")
    case True
    then show ?thesis using ins mem wf p(2) by simp
  next
    case False
    then have e: "dh_key_at ifc t (?P p) = dh_empty_key t" using p(3) by simp
    then have "dh_data t ! ?P p = make_empty ifc (dh_empty_key t)"
      using dh_wfD(4) [OF wf p(2)] by simp
    then show ?thesis
      using False ins mem p(2) dh_wf_fill [OF wf p(1,2) e ne p(4)] by (simp add: item_def)
  qed
qed

lemma dh_new_wf:
  assumes "c = 0 \<or> (\<exists>k. c = 2 ^ k)"
  shows "\<exists>t. dh_new ifc hash (=) e c = Some t \<and> dh_wf ifc t \<and> dh_items ifc t = [] \<and>
    dh_capacity t = c \<and> dh_hasher t = hash \<and> dh_empty_key t = e \<and> dh_count t = 0"
proof -
  have "c = 0 \<or> c AND (c - 1) = 0"
    using assms and_mask_mod by (metis mod_self)
  then show ?thesis
    using assms by (auto simp: dh_new_def dh_wf_def dh_items_def dh_key_at_def Let_def)
qed

lemma rehash_loop_correct:
  assumes "dh_wf ifc n" and "dh_eq t = (=)" and "dh_empty_key n = dh_empty_key t"
    and "dh_count n + length (filter (\<lambda>it. get_key ifc it \<noteq> dh_empty_key t) items) < dh_capacity n"
    and "distinct (map (get_key ifc)
      (dh_items ifc n @ filter (\<lambda>it. get_key ifc it \<noteq> dh_empty_key t) items))"
  shows "\<exists>n'. rehash_loop ifc t items n = Some n' \<and> dh_wf ifc n' \<and>
    dh_capacity n' = dh_capacity n \<and> dh_hasher n' = dh_hasher n \<and>
    dh_empty_key n' = dh_empty_key n \<and>
    mset (dh_items ifc n') = mset (dh_items ifc n)
      + mset (filter (\<lambda>it. get_key ifc it \<noteq> dh_empty_key t) items)"
  using assms
proof (induction items arbitrary: n)
  case (Cons it items)
  let ?Q = "\<lambda>it. get_key ifc it \<noteq> dh_empty_key t"
  show ?case
  proof (cases "?Q it")
    case False
    then show ?thesis using Cons by simp
  next
    case True
    have fresh: "get_key ifc it \<notin> get_key ifc ` set (dh_items ifc n)"
      using Cons.prems(5) True by auto
    let ?new = "set_key ifc (make_empty ifc (dh_empty_key n)) (get_key ifc it)"
    obtain n1 i where n1: "insert_unsafe ifc (get_key ifc it) n = Some (n1, i)" "dh_wf ifc n1"
        "i < dh_capacity n" "dh_key_at ifc n1 i = get_key ifc it" "dh_capacity n1 = dh_capacity n"
        "dh_hasher n1 = dh_hasher n" "dh_empty_key n1 = dh_empty_key n"
        "dh_count n1 = dh_count n + 1" "dh_data n1 ! i = ?new"
        "mset (dh_items ifc n1) = add_mset ?new (mset (dh_items ifc n))"
      using insert_unsafe_correct [OF Cons.prems(1), of "get_key ifc it"] fresh True
        Cons.prems(3,4) by auto
    let ?n2 = "n1\<lparr>dh_data := (dh_data n1)[i := it]\<rparr>"
    have ne: "dh_key_at ifc n1 i \<noteq> dh_empty_key n1" using n1(4,7) True Cons.prems(3) by simp
    have i: "i < dh_capacity n1" using n1(3,5) by simp
    have n2: "dh_wf ifc ?n2" "mset (dh_items ifc ?n2) = add_mset it (mset (dh_items ifc n))"
      using dh_wf_replace [OF n1(2) i ne] n1(4,9,10) by simp_all
    have keys: "mset (map (get_key ifc) (dh_items ifc ?n2 @ filter ?Q items))
        = mset (map (get_key ifc) (dh_items ifc n @ filter ?Q (it # items)))"
      using n2(2) True by simp
    have "\<exists>n'. rehash_loop ifc t items ?n2 = Some n' \<and> dh_wf ifc n' \<and>
        dh_capacity n' = dh_capacity ?n2 \<and> dh_hasher n' = dh_hasher ?n2 \<and>
        dh_empty_key n' = dh_empty_key ?n2 \<and>
        mset (dh_items ifc n') = mset (dh_items ifc ?n2) + mset (filter ?Q items)"
    proof (rule Cons.IH [OF n2(1) Cons.prems(2)])
      show "dh_empty_key ?n2 = dh_empty_key t" using n1(7) Cons.prems(3) by simp
      show "dh_count ?n2 + length (filter ?Q items) < dh_capacity ?n2"
        using n1(5,8) Cons.prems(4) True by simp
      show "distinct (map (get_key ifc) (dh_items ifc ?n2 @ filter ?Q items))"
        using keys Cons.prems(5) by (metis mset_eq_imp_distinct_iff)
    qed
    moreover have "update_checked (dh_data n1) i it = Some ((dh_data n1)[i := it])"
      using i dh_wfD(2) [OF n1(2)] by simp
    ultimately show ?thesis using True Cons.prems(2) n1 n2(2) by simp
  qed
qed simp

lemma dh_rehash_correct:
  assumes wf: "dh_wf ifc t" and cnt: "dh_count t \<le> dh_capacity t"
  shows "\<exists>t'. dh_rehash ifc t = Some t' \<and> dh_wf ifc t' \<and> dh_count t' = dh_count t \<and>
    dh_capacity t' = (if dh_capacity t = 0 then 16 else dh_capacity t * 2) \<and>
    dh_hasher t' = dh_hasher t \<and> dh_empty_key t' = dh_empty_key t \<and>
    mset (dh_items ifc t') = mset (dh_items ifc t)"
proof -
  let ?c = "if dh_capacity t = 0 then 16 else dh_capacity t * 2"
  have eq: "dh_eq t = (=)" by (rule dh_wfD(1) [OF wf])
  have f: "filter (\<lambda>it. get_key ifc it \<noteq> dh_empty_key t) (dh_data t) = dh_items ifc t"
    by (simp add: dh_items_def)
  have "?c = 0 \<or> (\<exists>k. ?c = 2 ^ k)"
  proof (cases "dh_capacity t = 0")
    case True
    then show ?thesis by (auto intro: exI [of _ 4])
  next
    case False
    then obtain k where "dh_capacity t = 2 ^ k" using wf by (auto simp: dh_wf_def)
    then show ?thesis by (auto intro: exI [of _ "Suc k"])
  qed
  then obtain n where n: "dh_new ifc (dh_hasher t) (=) (dh_empty_key t) ?c = Some n" "dh_wf ifc n"
      "dh_items ifc n = []" "dh_capacity n = ?c" "dh_hasher n = dh_hasher t"
      "dh_empty_key n = dh_empty_key t" "dh_count n = 0"
    using dh_new_wf [of ?c "dh_hasher t" "dh_empty_key t"] by blast
  have "dh_count t = length (dh_items ifc t)" by (rule dh_wfD(3) [OF wf])
  then have "dh_count n + length (dh_items ifc t) < dh_capacity n" using n(4,7) cnt by auto
  then obtain n' where n': "rehash_loop ifc t (dh_data t) n = Some n'" "dh_wf ifc n'"
      "dh_capacity n' = ?c" "dh_hasher n' = dh_hasher t" "dh_empty_key n' = dh_empty_key t"
      "mset (dh_items ifc n') = mset (dh_items ifc t)"
    using rehash_loop_correct [OF n(2) eq n(6), of "dh_data t", unfolded f] n(3-6)
      dh_items_distinct [OF wf] by auto
  have c: "dh_count n' = dh_count t"
    using dh_wfD(3) [OF n'(2)] dh_wfD(3) [OF wf] n'(6) by (metis size_mset)
  let ?t = "t\<lparr>dh_data := dh_data n', dh_capacity := dh_capacity n'\<rparr>"
  have "?t = n'" using c eq dh_wfD(1) [OF n'(2)] n'(4,5) by simp
  moreover have "dh_rehash ifc t = Some ?t"
    using n(1) n'(1) eq c unfolding dh_rehash_def Let_def by simp
  ultimately show ?thesis using n' c by simp
qed

lemma rehash_if_full_correct:
  assumes inv: "dh_inv ifc t"
  shows "\<exists>t'. rehash_if_full ifc key t = Some t' \<and> dh_inv ifc t' \<and> dh_count t' = dh_count t \<and>
    dh_hasher t' = dh_hasher t \<and> dh_empty_key t' = dh_empty_key t \<and>
    mset (dh_items ifc t') = mset (dh_items ifc t) \<and> dh_capacity t \<le> dh_capacity t' \<and>
    (key \<noteq> dh_empty_key t \<longrightarrow> dh_count t' < dh_capacity t') \<and>
    (key \<noteq> dh_empty_key t \<longrightarrow> key \<notin> get_key ifc ` set (dh_items ifc t) \<longrightarrow>
      dh_count t' + 1 \<le> dh_capacity t' * 3 div 4)"
proof -
  have wf: "dh_wf ifc t" and load: "dh_count t \<le> dh_capacity t * 3 div 4"
    using inv by (auto simp: dh_inv_def)
  have cc: "dh_count t \<le> dh_capacity t" using load by linarith
  have lt: "dh_count t < dh_capacity t" if "0 < dh_capacity t" using load that by auto
  then have free: "dh_count t < dh_capacity t \<or> dh_count t = 0" using load by force
  obtain r where r: "dh_find ifc t key = Some r"
    "case r of None \<Rightarrow> key = dh_empty_key t \<or> (\<forall>item \<in> set (dh_items ifc t). get_key ifc item \<noteq> key)
     | Some i \<Rightarrow> i < dh_capacity t \<and> dh_key_at ifc t i = key \<and> key \<noteq> dh_empty_key t"
    using dh_find_correct [OF wf free] by blast
  show ?thesis
  proof (cases "dh_count t \<ge> dh_capacity t * 3 div 4")
    case False
    then show ?thesis using inv by (auto simp: rehash_if_full_def)
  next
    case full: True
    show ?thesis
    proof (cases r)
      case None
      obtain t' where t': "dh_rehash ifc t = Some t'" "dh_wf ifc t'" "dh_count t' = dh_count t"
          "dh_capacity t' = (if dh_capacity t = 0 then 16 else dh_capacity t * 2)"
          "dh_hasher t' = dh_hasher t" "dh_empty_key t' = dh_empty_key t"
          "mset (dh_items ifc t') = mset (dh_items ifc t)"
        using dh_rehash_correct [OF wf cc] by blast
      moreover have "dh_count t' + 1 \<le> dh_capacity t' * 3 div 4"
        using t'(3,4) load by (auto split: if_splits)
      ultimately show ?thesis using full None r(1) by (auto simp: rehash_if_full_def dh_inv_def)
    next
      case (Some i)
      then have i: "i < dh_capacity t" "dh_key_at ifc t i = key" "key \<noteq> dh_empty_key t"
        using r(2) by auto
      then have "key \<in> get_key ifc ` set (dh_items ifc t)"
        using dh_items_nth [OF wf] by (force simp: dh_key_at_def)
      then show ?thesis using full Some r(1) i(1) lt inv by (auto simp: rehash_if_full_def)
    qed
  qed
qed

lemma dh_insert_correct:
  assumes inv: "dh_inv ifc t" and ne: "key \<noteq> dh_empty_key t"
  defines "item \<equiv> set_key ifc (make_empty ifc (dh_empty_key t)) key"
  shows "\<exists>t1 t' i. rehash_if_full ifc key t = Some t1 \<and> insert_unsafe ifc key t1 = Some (t', i) \<and>
    dh_inv ifc t' \<and> i < dh_capacity t' \<and> dh_key_at ifc t' i = key \<and> dh_count t1 = dh_count t \<and>
    dh_empty_key t' = dh_empty_key t \<and> dh_hasher t' = dh_hasher t \<and>
    (if key \<in> get_key ifc ` set (dh_items ifc t)
     then dh_count t' = dh_count t \<and> mset (dh_items ifc t') = mset (dh_items ifc t)
     else dh_count t' = dh_count t + 1 \<and> dh_data t' ! i = item \<and>
       mset (dh_items ifc t') = add_mset item (mset (dh_items ifc t)))"
proof -
  obtain t1 where t1: "rehash_if_full ifc key t = Some t1" "dh_inv ifc t1"
      "dh_count t1 = dh_count t" "dh_hasher t1 = dh_hasher t" "dh_empty_key t1 = dh_empty_key t"
      "mset (dh_items ifc t1) = mset (dh_items ifc t)" "dh_count t1 < dh_capacity t1"
      "key \<notin> get_key ifc ` set (dh_items ifc t) \<Longrightarrow> dh_count t1 + 1 \<le> dh_capacity t1 * 3 div 4"
    using rehash_if_full_correct [OF inv, of key] ne by auto
  have s: "set (dh_items ifc t1) = set (dh_items ifc t)" using t1(6) by (metis set_mset_mset)
  have wf1: "dh_wf ifc t1" and ne1: "key \<noteq> dh_empty_key t1"
    using t1(2,5) ne by (auto simp: dh_inv_def)
  obtain t' i where t': "insert_unsafe ifc key t1 = Some (t', i)" "dh_wf ifc t'"
      "i < dh_capacity t1" "dh_key_at ifc t' i = key" "dh_capacity t' = dh_capacity t1"
      "dh_hasher t' = dh_hasher t1" "dh_empty_key t' = dh_empty_key t1"
      "if key \<in> get_key ifc ` set (dh_items ifc t) then t' = t1
       else dh_count t' = dh_count t1 + 1 \<and> dh_data t' ! i = item \<and>
         mset (dh_items ifc t') = add_mset item (mset (dh_items ifc t1))"
    using insert_unsafe_correct [OF wf1 t1(7) ne1] unfolding s t1(5) item_def by blast
  then show ?thesis using t1 by (auto simp: dh_inv_def split: if_splits)
qed

lemma dh_insert_present:
  assumes inv: "dh_inv ifc t" and ne: "key \<noteq> dh_empty_key t"
    and mem: "key \<in> get_key ifc ` set (dh_items ifc t)"
  shows "\<exists>i. insert_unsafe ifc key t = Some (t, i) \<and> i < dh_capacity t \<and> dh_key_at ifc t i = key"
proof -
  have wf: "dh_wf ifc t" and load: "dh_count t \<le> dh_capacity t * 3 div 4"
    using inv by (auto simp: dh_inv_def)
  have "dh_count t \<noteq> 0" using mem dh_wfD(3) [OF wf] by auto
  then have "dh_count t < dh_capacity t" using load by linarith
  then show ?thesis using insert_unsafe_correct [OF wf _ ne] mem by (auto split: if_splits)
qed

lemma dh_clear_correct:
  assumes inv: "dh_inv ifc t"
  shows "dh_inv ifc (dh_clear ifc t) \<and> dh_items ifc (dh_clear ifc t) = []"
proof (cases "dh_count t = 0")
  case True
  then show ?thesis using inv by (auto simp: dh_clear_def dh_inv_def dh_wf_def)
next
  case False
  then show ?thesis using inv
    by (auto simp: dh_clear_def dh_inv_def dh_wf_def dh_items_def dh_key_at_def filter_empty_conv)
qed

lemma dh_find_inv:
  assumes inv: "dh_inv ifc t"
  shows "\<exists>r. dh_find ifc t key = Some r \<and>
    (case r of
       None \<Rightarrow> key \<notin> get_key ifc ` set (dh_items ifc t)
     | Some i \<Rightarrow> i < dh_capacity t \<and> dh_data t ! i \<in> set (dh_items ifc t)
         \<and> get_key ifc (dh_data t ! i) = key)"
proof -
  have wf: "dh_wf ifc t" and load: "dh_count t \<le> dh_capacity t * 3 div 4"
    using inv by (auto simp: dh_inv_def)
  have free: "dh_count t < dh_capacity t \<or> dh_count t = 0"
    using load by (cases "dh_capacity t = 0") auto
  obtain r where r: "dh_find ifc t key = Some r"
    "case r of None \<Rightarrow> key = dh_empty_key t \<or> (\<forall>item \<in> set (dh_items ifc t). get_key ifc item \<noteq> key)
     | Some i \<Rightarrow> i < dh_capacity t \<and> dh_key_at ifc t i = key \<and> key \<noteq> dh_empty_key t"
    using dh_find_correct [OF wf free] by blast
  show ?thesis
  proof (cases r)
    case None
    then show ?thesis using r by (auto simp: dh_items_def)
  next
    case (Some i)
    then have "dh_data t ! i \<in> set (dh_items ifc t)"
      using r(2) dh_items_nth [OF wf] by (auto simp: dh_key_at_def)
    then show ?thesis using r Some by (auto simp: dh_key_at_def)
  qed
qed

end

interpretation dset: item_layout ItemInterfaceSet
  by unfold_locales (simp_all add: ItemInterfaceSet_def)

interpretation dmap: item_layout "ItemInterfaceMap dflt" for dflt
  by unfold_locales (simp_all add: ItemInterfaceMap_def)

section \<open>The map a table stands for\<close>

definition dhm_map :: "'v \<Rightarrow> ('k, 'v) dense_hash_map \<Rightarrow> ('k \<rightharpoonup> 'v)" where
  "dhm_map dflt t = map_of (dh_items (ItemInterfaceMap dflt) t)"

definition dhm_inv :: "'v \<Rightarrow> ('k, 'v) dense_hash_map \<Rightarrow> bool" where
  "dhm_inv dflt t \<longleftrightarrow> dh_inv (ItemInterfaceMap dflt) t"

lemma ItemInterfaceMap_simps [simp]:
  "get_key (ItemInterfaceMap dflt) = fst"
  "set_key (ItemInterfaceMap dflt) item k = (k, snd item)"
  "make_empty (ItemInterfaceMap dflt) k = (k, dflt)"
  by (simp_all add: ItemInterfaceMap_def)

lemma dhm_items_distinct: "dhm_inv dflt t \<Longrightarrow> distinct (map fst (dh_items (ItemInterfaceMap dflt) t))"
  using dh_items_distinct [of "ItemInterfaceMap dflt" t] by (simp add: dhm_inv_def dh_inv_def)

lemma dhm_map_None:
  "dhm_map dflt t k = None \<longleftrightarrow> k \<notin> fst ` set (dh_items (ItemInterfaceMap dflt) t)"
  by (simp add: dhm_map_def map_of_eq_None_iff)

lemma dhm_map_eqI:
  assumes "dhm_inv dflt t" and "dhm_inv dflt t'"
    and "mset (dh_items (ItemInterfaceMap dflt) t') = mset (dh_items (ItemInterfaceMap dflt) t)"
  shows "dhm_map dflt t' = dhm_map dflt t"
  unfolding dhm_map_def using assms dhm_items_distinct
  by (metis map_of_inject_set set_mset_mset)

lemma dhm_map_addI:
  assumes "dhm_inv dflt t" and "dhm_inv dflt t'" and "dhm_map dflt t k = None"
    and "mset (dh_items (ItemInterfaceMap dflt) t') = add_mset (k, v) (mset (dh_items (ItemInterfaceMap dflt) t))"
  shows "dhm_map dflt t' = (dhm_map dflt t)(k \<mapsto> v)"
proof -
  let ?xs = "dh_items (ItemInterfaceMap dflt) t" and ?ys = "dh_items (ItemInterfaceMap dflt) t'"
  have "set ?ys = set ((k, v) # ?xs)" using assms(4) by (metis mset.simps(2) set_mset_mset)
  moreover have "distinct (map fst ((k, v) # ?xs))" "distinct (map fst ?ys)"
    using assms(1,2,3) dhm_items_distinct by (auto simp: dhm_map_None)
  ultimately have "map_of ?ys = map_of ((k, v) # ?xs)" using map_of_inject_set by blast
  then show ?thesis by (simp add: dhm_map_def)
qed

lemma dhm_find_eq:
  assumes "dhm_inv dflt t"
  shows "dhm_find dflt t k = Some (dhm_map dflt t k)"
proof -
  let ?ifc = "ItemInterfaceMap dflt"
  obtain r where r: "dh_find ?ifc t k = Some r"
    "case r of None \<Rightarrow> k \<notin> get_key ?ifc ` set (dh_items ?ifc t)
     | Some i \<Rightarrow> i < dh_capacity t \<and> dh_data t ! i \<in> set (dh_items ?ifc t) \<and> get_key ?ifc (dh_data t ! i) = k"
    using dmap.dh_find_inv [OF assms [unfolded dhm_inv_def], of k] by blast
  show ?thesis
  proof (cases r)
    case None
    then show ?thesis using r dhm_map_None [of dflt t k] by (simp add: dhm_find_def)
  next
    case (Some i)
    then have i: "i < dh_capacity t" "(k, snd (dh_data t ! i)) \<in> set (dh_items ?ifc t)"
      using r(2) by auto
    have "length (dh_data t) = dh_capacity t" using assms by (simp add: dhm_inv_def dh_inv_def dh_wf_def)
    moreover have "dhm_map dflt t k = Some (snd (dh_data t ! i))"
      unfolding dhm_map_def using i(2) dhm_items_distinct [OF assms] by simp
    ultimately show ?thesis using r(1) Some i(1) by (simp add: dhm_find_def)
  qed
qed

lemma dhm_contains_eq:
  assumes "dhm_inv dflt t"
  shows "dhm_contains dflt t k = Some (dhm_map dflt t k \<noteq> None)"
proof -
  obtain r where "dh_find (ItemInterfaceMap dflt) t k = Some r"
    using dmap.dh_find_inv [OF assms [unfolded dhm_inv_def], of k] by blast
  then show ?thesis
    using dhm_find_eq [OF assms, of k]
    by (cases "dhm_map dflt t k")
      (auto simp: dhm_contains_def dhm_find_def split: option.splits Option.bind_splits)
qed

lemma dhm_size_eq: "dhm_inv dflt t \<Longrightarrow> dh_size t = card (dom (dhm_map dflt t))"
  using dhm_items_distinct [of dflt t]
  by (simp add: dhm_inv_def dh_inv_def dh_wf_def dh_size_def dhm_map_def dom_map_of_conv_image_fst
      distinct_card flip: set_map)

text \<open>Writing through the reference to the value of a live slot.\<close>

lemma dhm_inv_write:
  fixes v :: 'v and t :: "('k, 'v) dense_hash_map"
  assumes inv: "dhm_inv dflt t" and i: "i < dh_capacity t" and k: "fst (dh_data t ! i) = k"
    and ne: "k \<noteq> dh_empty_key t"
  defines "t' \<equiv> t\<lparr>dh_data := (dh_data t)[i := (k, v)]\<rparr>"
  shows "dhm_inv dflt t'" and "dhm_map dflt t' = (dhm_map dflt t)(k \<mapsto> v)"
proof -
  let ?ifc = "ItemInterfaceMap dflt"
  let ?old = "dh_data t ! i"
  have wf: "dh_wf ?ifc t" using inv by (simp add: dhm_inv_def dh_inv_def)
  have at: "dh_key_at ?ifc t i = k" using k by (simp add: dh_key_at_def)
  then have r: "dh_wf ?ifc t'"
      "mset (dh_items ?ifc t') = add_mset (k, v) (mset (dh_items ?ifc t) - {#?old#})"
    using dmap.dh_wf_replace [OF wf i, of "(k, v)"] ne by (simp_all add: t'_def)
  then show inv': "dhm_inv dflt t'" using inv by (simp add: dhm_inv_def dh_inv_def t'_def)
  have "?old \<in> set (dh_items ?ifc t)" using dh_items_nth [OF wf, of ?old] i k ne by auto
  then obtain as bs where ab: "dh_items ?ifc t = as @ ?old # bs" by (metis split_list)
  have "set (dh_items ?ifc t') = set ((k, v) # as @ bs)"
    using r(2) ab by (metis (no_types, lifting) add_mset_add_single add_mset_remove_trivial mset.simps(2)
        mset_append set_mset_mset union_mset_add_mset_right)
  moreover have d: "distinct (map fst (as @ ?old # bs))" using dhm_items_distinct [OF inv] ab by simp
  moreover have "distinct (map fst (dh_items ?ifc t'))" by (rule dhm_items_distinct [OF inv'])
  ultimately have "map_of (dh_items ?ifc t') = map_of ((k, v) # as @ bs)"
    using k by (subst map_of_inject_set) auto
  moreover have "(map_of (as @ ?old # bs))(k \<mapsto> v) = (map_of ((k, v) # as @ bs))"
    using d k by (cases ?old) (auto simp: fun_eq_iff map_add_def split: option.splits)
  ultimately show "dhm_map dflt t' = (dhm_map dflt t)(k \<mapsto> v)"
    by (simp add: dhm_map_def ab)
qed

lemma dhm_try_insert_correct:
  assumes inv: "dhm_inv dflt t" and ne: "k \<noteq> dh_empty_key t"
  shows "\<exists>t'. dhm_try_insert dflt k v t = Some (t', dhm_map dflt t k = None) \<and> dhm_inv dflt t' \<and>
    dh_empty_key t' = dh_empty_key t \<and>
    dhm_map dflt t' = (if dhm_map dflt t k = None then (dhm_map dflt t)(k \<mapsto> v) else dhm_map dflt t)"
proof -
  let ?ifc = "ItemInterfaceMap dflt"
  obtain t1 t' i where t: "rehash_if_full ?ifc k t = Some t1" "insert_unsafe ?ifc k t1 = Some (t', i)"
    "dh_inv ?ifc t'" "i < dh_capacity t'" "dh_key_at ?ifc t' i = k" "dh_count t1 = dh_count t"
    "dh_empty_key t' = dh_empty_key t"
    "if k \<in> fst ` set (dh_items ?ifc t)
     then dh_count t' = dh_count t \<and> mset (dh_items ?ifc t') = mset (dh_items ?ifc t)
     else dh_count t' = dh_count t + 1 \<and> dh_data t' ! i = (k, dflt) \<and>
       mset (dh_items ?ifc t') = add_mset (k, dflt) (mset (dh_items ?ifc t))"
    using dmap.dh_insert_correct [OF inv [unfolded dhm_inv_def] ne] by auto
  have inv': "dhm_inv dflt t'" using t(3) by (simp add: dhm_inv_def)
  have len: "length (dh_data t') = dh_capacity t'" using t(3) by (simp add: dh_inv_def dh_wf_def)
  show ?thesis
  proof (cases "dhm_map dflt t k = None")
    case True
    then have m: "dhm_map dflt t' = (dhm_map dflt t)(k \<mapsto> dflt)"
      using t(8) dhm_map_addI [OF inv inv' True] by (simp add: dhm_map_None)
    have "dhm_try_insert dflt k v t = Some (t'\<lparr>dh_data := (dh_data t')[i := (k, v)]\<rparr>, True)"
      using t(1,2,4,6,8) True len by (simp add: dhm_try_insert_def dh_size_def dhm_map_None)
    then show ?thesis
      using True m dhm_inv_write [OF inv' t(4), of k v] t(5,7) ne by (simp add: dh_key_at_def)
  next
    case False
    then have "dhm_map dflt t' = dhm_map dflt t"
      using t(8) dhm_map_eqI [OF inv inv'] by (simp add: dhm_map_None)
    moreover have "dhm_try_insert dflt k v t = Some (t', False)"
      using t(1,2,6,8) False by (simp add: dhm_try_insert_def dh_size_def dhm_map_None)
    ultimately show ?thesis using False inv' t(7) by auto
  qed
qed


section \<open>Iteration\<close>

lemma first_occupied_loop_skip:
  assumes wf: "dh_wf ifc t" and "dh_capacity t - s \<le> n"
  defines "r \<equiv> first_occupied_loop ifc t s n"
  shows "(dh_capacity t \<le> r \<or> dh_key_at ifc t r \<noteq> dh_empty_key t) \<and>
    filter (\<lambda>item. get_key ifc item \<noteq> dh_empty_key t) (drop s (dh_data t))
      = filter (\<lambda>item. get_key ifc item \<noteq> dh_empty_key t) (drop r (dh_data t))"
  using assms(2) unfolding r_def
proof (induction n arbitrary: s)
  case (Suc n)
  show ?case
  proof (cases "s < dh_capacity t \<and> dh_key_at ifc t s = dh_empty_key t")
    case True
    then have "drop s (dh_data t) = dh_data t ! s # drop (Suc s) (dh_data t)"
      using dh_wfD(2) [OF wf] by (simp add: Cons_nth_drop_Suc)
    then show ?thesis
      using True Suc.IH [of "Suc s"] Suc.prems dh_wfD(1) [OF wf] by (simp add: dh_key_at_def)
  qed (use dh_wfD(1) [OF wf] in \<open>auto simp: dh_key_at_def\<close>)
qed simp

lemma const_iterator_items_eq:
  assumes wf: "dh_wf ifc t" and "dh_capacity t \<le> i \<or> dh_key_at ifc t i \<noteq> dh_empty_key t"
  shows "const_iterator_items ifc t i
    = filter (\<lambda>item. get_key ifc item \<noteq> dh_empty_key t) (drop i (dh_data t))"
  using assms
proof (induction ifc t i rule: const_iterator_items.induct)
  case (1 ifc t i)
  show ?case
  proof (cases "dh_capacity t \<le> i")
    case True
    then show ?thesis using dh_wfD(2) [OF 1(2)] by (simp add: const_iterator_items.simps)
  next
    case False
    have "drop i (dh_data t) = dh_data t ! i # drop (Suc i) (dh_data t)"
      using False dh_wfD(2) [OF 1(2)] by (simp add: Cons_nth_drop_Suc)
    moreover note first_occupied_loop_skip [OF 1(2), of "i + 1" "dh_capacity t - i"]
    ultimately show ?thesis
      using False 1 by (subst const_iterator_items.simps) (simp add: dh_key_at_def next_occupied_def)
  qed
qed

lemma const_iterator_all:
  assumes "dh_wf ifc t"
  shows "const_iterator_items ifc t (first_occupied ifc t) = dh_items ifc t"
  using first_occupied_loop_skip [OF assms, of 0 "dh_capacity t"]
  by (simp add: const_iterator_items_eq [OF assms] first_occupied_def dh_items_def)


section \<open>Maps refine finite maps\<close>

lemma rehash_if_full_frame:
  "rehash_if_full ifc k t = Some t1 \<Longrightarrow> dh_empty_key t1 = dh_empty_key t \<and> dh_eq t1 = dh_eq t"
  by (auto simp: rehash_if_full_def dh_rehash_def Let_def split: if_splits Option.bind_splits)

lemma dhm_sentinel:
  assumes "dhm_inv dflt t" and "k = dh_empty_key t"
  shows "dhm_try_insert dflt k v t = None" and "dhm_set dflt k v t = None"
proof -
  have "insert_unsafe (ItemInterfaceMap dflt) k t1 = None"
    if "rehash_if_full (ItemInterfaceMap dflt) k t = Some t1" for t1
    using rehash_if_full_frame [OF that] assms
    by (simp add: insert_unsafe_def dhm_inv_def dh_inv_def dh_wf_def)
  then show "dhm_try_insert dflt k v t = None" and "dhm_set dflt k v t = None"
    by (auto simp: dhm_try_insert_def dhm_set_def dhm_get_or_insert_def Let_def split: Option.bind_splits)
qed

lemma dhm_set_correct:
  assumes inv: "dhm_inv dflt t" and ne: "k \<noteq> dh_empty_key t"
  shows "\<exists>t'. dhm_set dflt k v t = Some t' \<and> dhm_inv dflt t' \<and>
    dh_empty_key t' = dh_empty_key t \<and> dhm_map dflt t' = (dhm_map dflt t)(k \<mapsto> v)"
proof -
  let ?ifc = "ItemInterfaceMap dflt"
  obtain t1 t' i where t: "rehash_if_full ?ifc k t = Some t1" "insert_unsafe ?ifc k t1 = Some (t', i)"
    "dh_inv ?ifc t'" "i < dh_capacity t'" "dh_key_at ?ifc t' i = k" "dh_empty_key t' = dh_empty_key t"
    "if k \<in> fst ` set (dh_items ?ifc t)
     then dh_count t' = dh_count t \<and> mset (dh_items ?ifc t') = mset (dh_items ?ifc t)
     else dh_count t' = dh_count t + 1 \<and> dh_data t' ! i = (k, dflt) \<and>
       mset (dh_items ?ifc t') = add_mset (k, dflt) (mset (dh_items ?ifc t))"
    using dmap.dh_insert_correct [OF inv [unfolded dhm_inv_def] ne] by auto
  have inv': "dhm_inv dflt t'" using t(3) by (simp add: dhm_inv_def)
  have len: "length (dh_data t') = dh_capacity t'" using t(3) by (simp add: dh_inv_def dh_wf_def)
  have "(dhm_map dflt t')(k \<mapsto> v) = (dhm_map dflt t)(k \<mapsto> v)"
  proof (cases "dhm_map dflt t k = None")
    case True
    then show ?thesis using t(7) dhm_map_addI [OF inv inv' True] by (simp add: dhm_map_None)
  next
    case False
    then show ?thesis using t(7) dhm_map_eqI [OF inv inv'] by (simp add: dhm_map_None)
  qed
  moreover have "dhm_set dflt k v t = Some (t'\<lparr>dh_data := (dh_data t')[i := (k, v)]\<rparr>)"
    using t(1,2,4,5) len by (simp add: dhm_set_def dhm_get_or_insert_def dh_key_at_def)
  ultimately show ?thesis
    using dhm_inv_write [OF inv' t(4), of k v] t(5,6) ne by (simp add: dh_key_at_def)
qed

lemma dhm_clear_correct:
  assumes "dhm_inv dflt t"
  shows "dhm_inv dflt (dh_clear (ItemInterfaceMap dflt) t)"
    and "dhm_map dflt (dh_clear (ItemInterfaceMap dflt) t) = Map.empty"
    and "dh_empty_key (dh_clear (ItemInterfaceMap dflt) t) = dh_empty_key t"
  using dmap.dh_clear_correct [OF assms [unfolded dhm_inv_def]]
  by (simp_all add: dhm_inv_def dhm_map_def dh_clear_def)

interpretation dhm: refines "\<lambda>t. dhm_inv dflt t \<and> dh_empty_key t = e" "dhm_map dflt" "dhm_step dflt"
  "map_step e" "\<lambda>_ _. True" for dflt :: 'v and e :: 'k
proof unfold_locales
  fix t :: "('k, 'v) dense_hash_map" and op :: "('k, 'v) map_op"
  assume "dhm_inv dflt t \<and> dh_empty_key t = e"
  then have inv: "dhm_inv dflt t" and e: "dh_empty_key t = e" by auto
  show "case map_step e op (dhm_map dflt t) of None \<Rightarrow> dhm_step dflt op t = None
    | Some a \<Rightarrow> \<exists>s'. dhm_step dflt op t = Some s' \<and> (dhm_inv dflt s' \<and> dh_empty_key s' = e) \<and>
        dhm_map dflt s' = a"
  proof (cases op)
    case (TryInsert k v)
    then show ?thesis
      using dhm_sentinel(1) [OF inv, of k v] dhm_try_insert_correct [OF inv, of k v] e
      by (cases "k = e") auto
  next
    case (SetAt k v)
    then show ?thesis
      using dhm_sentinel(2) [OF inv, of k v] dhm_set_correct [OF inv, of k v] e
      by (cases "k = e") auto
  next
    case ClearAll
    then show ?thesis using dhm_clear_correct [OF inv] e by simp
  qed
qed simp

lemma dhm_new_correct:
  "\<exists>t. dhm_new dflt hash (=) e = Some t \<and> dhm_inv dflt t \<and> dhm_map dflt t = Map.empty \<and>
    dh_empty_key t = e \<and> dh_hasher t = hash"
  by (auto simp: dhm_new_def dh_new_def dhm_inv_def dh_inv_def dh_wf_def dh_items_def dhm_map_def)


section \<open>Interning\<close>

text \<open>What the clients of a map rely on when they number things: \<open>find\<close> answers from the finite map
  and \<open>try_insert\<close> of a key that is absent (and is not the sentinel) adds the binding. A list is
  interned by a map when the map sends the key of each entry, for the entries that have one, to the
  number of its position and is defined on no other key.\<close>

definition interns :: "('k \<rightharpoonup> 'v) \<Rightarrow> ('a \<Rightarrow> 'k option) \<Rightarrow> (nat \<Rightarrow> 'v) \<Rightarrow> 'a list \<Rightarrow> bool" where
  "interns m key idx xs \<longleftrightarrow>
     (\<forall>k v. m k = Some v \<longleftrightarrow> (\<exists>j < length xs. key (xs ! j) = Some k \<and> v = idx j))"

lemma interns_Nil [simp]: "interns Map.empty key idx []"
  by (simp add: interns_def)

lemma interns_SomeD: "interns m key idx xs \<Longrightarrow> m k = Some v \<Longrightarrow>
    \<exists>j < length xs. key (xs ! j) = Some k \<and> v = idx j"
  by (simp add: interns_def)

lemma interns_nth:
  "interns m key idx xs \<Longrightarrow> j < length xs \<Longrightarrow> key (xs ! j) = Some k \<Longrightarrow> m k = Some (idx j)"
  unfolding interns_def by blast

lemma interns_NoneD: "interns m key idx xs \<Longrightarrow> m k = None \<Longrightarrow> x \<in> set xs \<Longrightarrow> key x \<noteq> Some k"
  using interns_nth [of m key idx xs _ k] by (auto simp: in_set_conv_nth)

lemma interns_push:
  assumes "interns m key idx xs" and "key x = Some k" and "m k = None"
  shows "interns (m(k \<mapsto> idx (length xs))) key idx (xs @ [x])"
  unfolding interns_def
proof (intro allI)
  fix k' v
  have old: "m k' = Some v \<longleftrightarrow> (\<exists>j < length xs. key (xs ! j) = Some k' \<and> v = idx j)"
    using assms(1) by (simp add: interns_def)
  have "\<not> (\<exists>j < length xs. key (xs ! j) = Some k)" using interns_nth [OF assms(1), of _ k] assms(3) by auto
  then show "(m(k \<mapsto> idx (length xs))) k' = Some v \<longleftrightarrow>
      (\<exists>j < length (xs @ [x]). key ((xs @ [x]) ! j) = Some k' \<and> v = idx j)"
    using old assms(2) by (auto simp: nth_append less_Suc_eq)
qed

lemma interns_push_other:
  "interns m key idx xs \<Longrightarrow> key x = None \<Longrightarrow> interns m key idx (xs @ [x])"
  by (auto simp: interns_def nth_append less_Suc_eq)

locale intern_map =
  fixes inv :: "'t \<Rightarrow> bool"
    and mp :: "'t \<Rightarrow> 'k \<Rightarrow> 'v option"
    and sentinel :: "'t \<Rightarrow> 'k"
    and find :: "'t \<Rightarrow> 'k \<Rightarrow> 'v option option"
    and try_insert :: "'k \<Rightarrow> 'v \<Rightarrow> 't \<Rightarrow> ('t \<times> bool) option"
    and size :: "'t \<Rightarrow> nat"
  assumes find_law: "inv t \<Longrightarrow> find t k = Some (mp t k)"
    and size_law: "inv t \<Longrightarrow> size t = card (dom (mp t))"
    and dom_law: "inv t \<Longrightarrow> finite (dom (mp t))"
    and try_insert_law: "inv t \<Longrightarrow> k \<noteq> sentinel t \<Longrightarrow>
      \<exists>t'. try_insert k v t = Some (t', mp t k = None) \<and> inv t' \<and> sentinel t' = sentinel t \<and>
        mp t' = (if mp t k = None then (mp t)(k \<mapsto> v) else mp t)"
begin

lemma intern_new:
  assumes "inv t" and "k \<noteq> sentinel t" and "interns (mp t) key idx xs" and "key x = Some k"
    and "find t k = Some None"
  shows "\<exists>t'. try_insert k (idx (length xs)) t = Some (t', True) \<and> inv t' \<and> sentinel t' = sentinel t \<and>
    interns (mp t') key idx (xs @ [x])"
proof -
  have "mp t k = None" using assms(1,5) find_law [of t k] by simp
  then show ?thesis
    using try_insert_law [OF assms(1,2), of "idx (length xs)"] interns_push [OF assms(3,4)] by auto
qed

lemma intern_old:
  assumes "inv t" and "interns (mp t) key idx xs" and "find t k = Some (Some v)"
  shows "\<exists>j < length xs. key (xs ! j) = Some k \<and> v = idx j"
proof -
  have "mp t k = Some v" using assms(1,3) find_law [of t k] by simp
  then show ?thesis using interns_SomeD [OF assms(2)] by blast
qed

lemma intern_present:
  assumes "inv t" and "interns (mp t) key idx xs" and "x \<in> set xs" and "key x = Some k"
  shows "\<exists>v. find t k = Some (Some v)"
  using assms interns_NoneD [OF assms(2), of k x] find_law [of t k] by (cases "mp t k") auto

lemma intern_size:
  assumes "inv t" and "interns (mp t) Some idx xs" and "inj_on idx {..<length xs}"
  shows "size t = length xs" and "distinct xs"
proof -
  have d: "dom (mp t) = set xs"
    using assms(2) by (auto simp: dom_def interns_def in_set_conv_nth)
  show dst: "distinct xs"
  proof (rule ccontr)
    assume "\<not> distinct xs"
    then obtain i j where ij: "i < length xs" "j < length xs" "i \<noteq> j" "xs ! i = xs ! j"
      by (auto simp: distinct_conv_nth)
    then have "idx i = idx j" using interns_nth [OF assms(2), of i] interns_nth [OF assms(2), of j] by simp
    then show False using assms(3) ij(1-3) by (auto dest: inj_onD)
  qed
  then show "size t = length xs" using size_law [OF assms(1)] d by (simp add: distinct_card)
qed

end

lemma dhm_dom_finite: "finite (dom (dhm_map dflt t))"
  by (simp add: dhm_map_def finite_dom_map_of)

interpretation dhi: intern_map "dhm_inv dflt" "dhm_map dflt" dh_empty_key "dhm_find dflt"
  "dhm_try_insert dflt" dh_size for dflt
  by unfold_locales
    (rule dhm_find_eq dhm_size_eq dhm_dom_finite dhm_try_insert_correct; assumption)+

section \<open>Sets\<close>

definition dhs_set :: "'k dense_hash_set \<Rightarrow> 'k set" where
  "dhs_set t = set (dh_items ItemInterfaceSet t)"

lemma ItemInterfaceSet_simps [simp]:
  "get_key ItemInterfaceSet item = item" "set_key ItemInterfaceSet item key = key"
  "make_empty ItemInterfaceSet e = e"
  by (simp_all add: ItemInterfaceSet_def)

lemma dhs_contains_eq:
  assumes "dh_inv ItemInterfaceSet t"
  shows "dhs_contains t k = Some (k \<in> dhs_set t)"
proof -
  obtain r where "dh_find ItemInterfaceSet t k = Some r"
    "case r of None \<Rightarrow> k \<notin> get_key ItemInterfaceSet ` set (dh_items ItemInterfaceSet t)
     | Some i \<Rightarrow> i < dh_capacity t \<and> dh_data t ! i \<in> set (dh_items ItemInterfaceSet t) \<and>
         get_key ItemInterfaceSet (dh_data t ! i) = k"
    using dset.dh_find_inv [OF assms, of k] by blast
  then show ?thesis by (cases r) (auto simp: dhs_contains_def dhs_set_def image_iff)
qed

lemma dhs_size_eq: "dh_inv ItemInterfaceSet t \<Longrightarrow> dh_size t = card (dhs_set t)"
  using dh_items_distinct [of ItemInterfaceSet t] distinct_card [of "dh_items ItemInterfaceSet t"]
  by (simp add: dh_inv_def dh_wf_def dh_size_def dhs_set_def ItemInterfaceSet_def)

lemma dhs_contains_all_eq:
  "dh_inv ItemInterfaceSet t \<Longrightarrow> dhs_contains_all t ks = Some (set ks \<subseteq> dhs_set t)"
  by (induction ks) (auto simp: dhs_contains_eq)

lemma dhs_insert_correct:
  assumes inv: "dh_inv ItemInterfaceSet t" and ne: "k \<noteq> dh_empty_key t"
  shows "\<exists>t' i. dhs_insert k t = Some (t', i) \<and> dh_inv ItemInterfaceSet t' \<and>
    dhs_set t' = insert k (dhs_set t) \<and> i < length (dh_data t') \<and> dh_data t' ! i = k \<and>
    dh_empty_key t' = dh_empty_key t"
proof -
  let ?ifc = "ItemInterfaceSet :: ('a, 'a) item_interface"
  obtain t1 t' i where t: "rehash_if_full ?ifc k t = Some t1" "insert_unsafe ?ifc k t1 = Some (t', i)"
    "dh_inv ?ifc t'" "i < dh_capacity t'" "dh_data t' ! i = k" "dh_empty_key t' = dh_empty_key t"
    "if k \<in> set (dh_items ?ifc t) then mset (dh_items ?ifc t') = mset (dh_items ?ifc t)
     else mset (dh_items ?ifc t') = add_mset k (mset (dh_items ?ifc t))"
    using dset.dh_insert_correct [OF inv ne] by (auto simp: dh_key_at_def)
  have "set (dh_items ?ifc t') = insert k (set (dh_items ?ifc t))"
    using t(7) by (cases "k \<in> set (dh_items ?ifc t)")
      (simp_all add: insert_absorb flip: set_mset_mset)
  moreover have "length (dh_data t') = dh_capacity t'" using t(3) by (simp add: dh_inv_def dh_wf_def)
  ultimately show ?thesis using t by (simp add: dhs_insert_def dhs_set_def)
qed

lemma rehash_if_full_present:
  assumes inv: "dhm_inv dflt t" and "dhm_map dflt t k \<noteq> None"
  shows "rehash_if_full (ItemInterfaceMap dflt) k t = Some t"
proof -
  obtain i where "dh_find (ItemInterfaceMap dflt) t k = Some (Some i)"
    using dhm_contains_eq [OF inv, of k] assms(2)
    by (auto simp: dhm_contains_def split: Option.bind_splits)
  then show ?thesis by (simp add: rehash_if_full_def)
qed

section \<open>Properties\<close>

text \<open>C5: for every hash function, however badly it collides, a \<open>DenseHashMap\<close> created empty and
  driven by any sequence of \<open>try_insert\<close>, \<open>*get_or_insert(k) = v\<close> and \<open>clear\<close> is the finite map the
  sequence builds: the probe loops always stop, so no \<open>unreachable!\<close>, assertion or index fails (only
  inserting the sentinel key panics), \<open>find\<close>, \<open>contains\<close> and \<open>size\<close> answer from that map, and
  iteration yields each binding once.\<close>

theorem dense_hash_map_correct:
  "\<exists>t0. dhm_new dflt hash (=) e = Some t0 \<and>
    (case run_ops (map_step e) ops Map.empty of
       None \<Rightarrow> run_ops (dhm_step dflt) ops t0 = None
     | Some m \<Rightarrow> \<exists>t. run_ops (dhm_step dflt) ops t0 = Some t \<and>
         (\<forall>k. dhm_find dflt t k = Some (m k) \<and> dhm_contains dflt t k = Some (m k \<noteq> None)) \<and>
         dh_size t = card (dom m) \<and>
         (let items = const_iterator_items (ItemInterfaceMap dflt) t
            (first_occupied (ItemInterfaceMap dflt) t)
          in map_of items = m \<and> distinct (map fst items)))"
proof -
  obtain t0 where t0: "dhm_new dflt hash (=) e = Some t0" "dhm_inv dflt t0"
    "dhm_map dflt t0 = Map.empty" "dh_empty_key t0 = e"
    using dhm_new_correct [of dflt hash e] by blast
  have run: "case run_ops (map_step e) ops Map.empty of None \<Rightarrow> run_ops (dhm_step dflt) ops t0 = None
    | Some m \<Rightarrow> \<exists>t. run_ops (dhm_step dflt) ops t0 = Some t \<and>
        (dhm_inv dflt t \<and> dh_empty_key t = e) \<and> dhm_map dflt t = m"
    using dhm.run_refines [of dflt t0 e ops] t0(2-4) by simp
  show ?thesis
  proof (cases "run_ops (map_step e) ops Map.empty")
    case None
    then show ?thesis using run t0(1) by simp
  next
    case (Some m)
    then obtain t where t: "run_ops (dhm_step dflt) ops t0 = Some t" "dhm_inv dflt t" "dhm_map dflt t = m"
      using run by auto
    have "dh_wf (ItemInterfaceMap dflt) t" using t(2) by (simp add: dhm_inv_def dh_inv_def)
    note it = const_iterator_all [OF this]
    have "map_of (dh_items (ItemInterfaceMap dflt) t) = m" using t(3) by (simp add: dhm_map_def)
    then show ?thesis
      using t0(1) t(1) dhm_find_eq [OF t(2)] dhm_contains_eq [OF t(2)] dhm_size_eq [OF t(2)]
        dhm_items_distinct [OF t(2)] Some t(3) by (simp add: Let_def it)
  qed
qed

text \<open>Assigning to a key that is already present never rehashes, even at the load limit: the
  capacity and the key of every slot are unchanged, so iterators survive an overwrite; a \<open>try_insert\<close>
  of a present key changes nothing at all.\<close>

lemma dense_hash_overwrite_stable:
  assumes "dhm_inv dflt t" and "dhm_map dflt t k = Some v0"
  shows "(\<exists>t'. dhm_set dflt k v t = Some t' \<and> dh_capacity t' = dh_capacity t \<and>
      map fst (dh_data t') = map fst (dh_data t) \<and> dhm_map dflt t' = (dhm_map dflt t)(k \<mapsto> v)) \<and>
    dhm_try_insert dflt k v t = Some (t, False)"
proof -
  let ?ifc = "ItemInterfaceMap dflt"
  have wf: "dh_wf ?ifc t" and inv: "dh_inv ?ifc t" using assms(1) by (auto simp: dhm_inv_def dh_inv_def)
  have ne: "k \<noteq> dh_empty_key t"
    using assms(2) dhm_map_None [of dflt t k] by (auto simp: dh_items_def)
  have r: "rehash_if_full ?ifc k t = Some t" using rehash_if_full_present [of dflt t k] assms by simp
  obtain i where i: "insert_unsafe ?ifc k t = Some (t, i)" "i < dh_capacity t" "fst (dh_data t ! i) = k"
    using dmap.dh_insert_present [OF inv ne] assms(2) dhm_map_None [of dflt t k]
    by (auto simp: dh_key_at_def)
  have len: "length (dh_data t) = dh_capacity t" by (rule dh_wfD(2) [OF wf])
  have "dhm_set dflt k v t = Some (t\<lparr>dh_data := (dh_data t)[i := (k, v)]\<rparr>)"
    using r i len by (simp add: dhm_set_def dhm_get_or_insert_def)
  moreover have "map fst ((dh_data t)[i := (k, v)]) = map fst (dh_data t)"
    using i(3) by (metis fst_conv list_update_id map_update)
  moreover have "dhm_try_insert dflt k v t = Some (t, False)"
    using r i by (simp add: dhm_try_insert_def)
  ultimately show ?thesis
    using dhm_inv_write(2) [OF assms(1) i(2,3) ne, of v] by simp
qed


text \<open>C27: \<open>insert\<close> into a \<open>DenseHashSet\<close> adds exactly the key and returns the slot that holds it,
  \<open>contains\<close> decides membership, and \<open>==\<close> on two sets, whose tables may differ in capacity, hash
  function and sentinel, decides whether they hold the same keys.\<close>

theorem dense_hash_set_correct:
  assumes "dh_inv ItemInterfaceSet s" and "dh_inv ItemInterfaceSet t"
  shows "(\<forall>k. dhs_contains s k = Some (k \<in> dhs_set s)) \<and>
    dhs_eq s t = Some (dhs_set s = dhs_set t) \<and>
    (k \<noteq> dh_empty_key s \<longrightarrow> (\<exists>s' i. dhs_insert k s = Some (s', i) \<and> dh_inv ItemInterfaceSet s' \<and>
        dhs_set s' = insert k (dhs_set s) \<and> index_checked (dh_data s') i = Some k))"
proof -
  have "dh_wf ItemInterfaceSet s" using assms(1) by (simp add: dh_inv_def)
  from const_iterator_all [OF this]
  have "dhs_eq s t = (if card (dhs_set s) \<noteq> card (dhs_set t) then Some False
      else Some (dhs_set s \<subseteq> dhs_set t))"
    using assms by (simp add: dhs_eq_def dhs_size_eq dhs_contains_all_eq) (simp add: dhs_set_def)
  moreover have "finite (dhs_set t)" by (simp add: dhs_set_def)
  ultimately have "dhs_eq s t = Some (dhs_set s = dhs_set t)"
    by (metis card_subset_eq subset_refl)
  then show ?thesis
    using dhs_contains_eq [OF assms(1)] dhs_insert_correct [OF assms(1), of k] by auto
qed

theorem dense_hash_set_correct_witness:
  "\<exists>s t. dhs_eq s t = Some False \<and> dhs_set s = {} \<and> dhs_set t = {7 :: nat}"
proof -
  let ?e = "\<lparr>dh_data = [], dh_capacity = 0, dh_count = 0, dh_empty_key = 0 :: nat,
    dh_hasher = (\<lambda>k. k), dh_eq = (=)\<rparr>"
  have e: "dh_inv ItemInterfaceSet ?e" "dhs_set ?e = {}"
    by (simp_all add: dh_inv_def dh_wf_def dh_items_def dhs_set_def)
  obtain t i where t: "dh_inv ItemInterfaceSet t" "dhs_set t = {7 :: nat}"
    using dense_hash_set_correct [OF e(1) e(1), of 7] e(2) by auto
  then have "dhs_eq ?e t = Some False" using dense_hash_set_correct [OF e(1) t(1), of 7] e(2) by simp
  then show ?thesis using e t by blast
qed

end
