(* ===== verification/Bytecode_Wire.thy ===== *)
theory Bytecode_Wire
  imports Luau_Prelude
begin

text \<open>
  The primitives of the bytecode format: the writers of \<open>luaur-bytecode/src/functions\<close>
  (\<open>write_byte\<close>, \<open>write_int\<close>, \<open>write_float\<close>, \<open>write_double\<close>, \<open>write_var_int\<close>), the checked
  readers of \<open>luaur-common/src/functions\<close> and the unchecked readers of \<open>luaur-vm/src/functions\<close>
  (\<open>read\<close>, \<open>read_var_int\<close>, \<open>read_var_int_64\<close>).

  The output is a list of bytes and a reader takes the data and the offset and returns the value
  and the new offset. Floating-point numbers are their bit patterns. \<open>to_ne_bytes\<close> and
  \<open>read_unaligned\<close> are taken on a little-endian machine. A read past the end (an assertion in
  \<open>luaur-common\<close>, undefined behaviour in \<open>luaur-vm\<close>) and a shift by the width or more (a panic in a
  build with overflow checks) are \<open>None\<close>.
\<close>

section \<open>Writers\<close>

primrec le_bytes :: "nat \<Rightarrow> nat \<Rightarrow> bytes" where
  "le_bytes 0 v = []"
| "le_bytes (Suc n) v = word_of_nat (v mod 256) # le_bytes n (v div 256)"

primrec le_value :: "bytes \<Rightarrow> nat" where
  "le_value [] = 0"
| "le_value (b # bs) = unat b + 256 * le_value bs"

definition write_byte :: "bytes \<Rightarrow> u8 \<Rightarrow> bytes" where
  "write_byte ss value = ss @ [value]"

definition write_int :: "bytes \<Rightarrow> u32 \<Rightarrow> bytes" where
  "write_int ss value = ss @ le_bytes 4 (unat value)"

definition write_float :: "bytes \<Rightarrow> u32 \<Rightarrow> bytes" where
  "write_float ss value = ss @ le_bytes 4 (unat value)"

definition write_double :: "bytes \<Rightarrow> u64 \<Rightarrow> bytes" where
  "write_double ss value = ss @ le_bytes 8 (unat value)"

function write_var_int :: "bytes \<Rightarrow> u64 \<Rightarrow> bytes" where
  "write_var_int ss value =
     (let ss = write_byte ss
        (ucast (value AND 127) OR push_bit 7 (if value > 127 then 1 else 0));
          value = drop_bit 7 value
      in if value = 0 then ss else write_var_int ss value)"
  by auto

lemma drop_bit_7_less: "drop_bit 7 (v :: u64) \<noteq> 0 \<Longrightarrow> unat (drop_bit 7 v) < unat v"
  by (cases "v = 0") (auto simp: unat_drop_bit_eq drop_bit_eq_div [where ?'a = nat] unat_gt_0)

termination write_var_int
  by (relation "measure (\<lambda>(ss, v). unat v)") (auto simp: drop_bit_7_less)

declare write_var_int.simps [simp del]

section \<open>Readers\<close>

definition read_bytes :: "nat \<Rightarrow> bytes \<Rightarrow> nat \<Rightarrow> (bytes \<times> nat) option" where
  "read_bytes n data offset =
     (if offset + n \<le> length data then Some (take n (drop offset data), offset + n)
      else None)"

definition read_u8 :: "bytes \<Rightarrow> nat \<Rightarrow> (u8 \<times> nat) option" where
  "read_u8 data offset = do {
     (bs, offset) \<leftarrow> read_bytes 1 data offset;
     Some (word_of_nat (le_value bs), offset)
   }"

definition read_u32 :: "bytes \<Rightarrow> nat \<Rightarrow> (u32 \<times> nat) option" where
  "read_u32 data offset = do {
     (bs, offset) \<leftarrow> read_bytes 4 data offset;
     Some (word_of_nat (le_value bs), offset)
   }"

definition read_u64 :: "bytes \<Rightarrow> nat \<Rightarrow> (u64 \<times> nat) option" where
  "read_u64 data offset = do {
     (bs, offset) \<leftarrow> read_bytes 8 data offset;
     Some (word_of_nat (le_value bs), offset)
   }"

text \<open>\<open>read_var_int_64\<close> of both crates; the loop consumes a byte per iteration, so it ends.\<close>

function read_var_int_64_loop :: "bytes \<Rightarrow> nat \<Rightarrow> u64 \<Rightarrow> nat \<Rightarrow> (u64 \<times> nat) option" where
  "read_var_int_64_loop data offset result shift =
     (case read_u8 data offset of
        None \<Rightarrow> None
      | Some (byte, offset') \<Rightarrow>
          if shift \<ge> 64 then None
          else let result = result OR push_bit shift (ucast (byte AND 127)) in
            if byte AND 128 = 0 then Some (result, offset')
            else read_var_int_64_loop data offset' result (shift + 7))"
  by auto

lemma read_u8_Some:
  "read_u8 data offset = Some (b, offset') \<longleftrightarrow>
     offset < length data \<and> b = data ! offset \<and> offset' = offset + 1"
proof (cases "offset < length data")
  case True
  then have "take 1 (drop offset data) = [data ! offset]"
    by (simp add: take_Suc hd_drop_conv_nth)
  then show ?thesis using True by (auto simp: read_u8_def read_bytes_def)
qed (simp add: read_u8_def read_bytes_def)

lemma read_u8_at: "off < length data \<Longrightarrow> read_u8 data off = Some (data ! off, off + 1)"
  by (simp add: read_u8_Some)

termination read_var_int_64_loop
  by (relation "measure (\<lambda>(data, offset, _). length data - offset)") (auto simp: read_u8_Some)

declare read_var_int_64_loop.simps [simp del]

definition read_var_int_64 :: "bytes \<Rightarrow> nat \<Rightarrow> (u64 \<times> nat) option" where
  "read_var_int_64 data offset = read_var_int_64_loop data offset 0 0"

text \<open>\<open>read_var_int\<close> of \<open>luaur-common\<close> reads 64 bits and truncates; the one of \<open>luaur-vm\<close>
  accumulates in 32 bits.\<close>

definition read_var_int :: "bytes \<Rightarrow> nat \<Rightarrow> (u32 \<times> nat) option" where
  "read_var_int data offset = do {
     (v, offset) \<leftarrow> read_var_int_64 data offset;
     Some (ucast v, offset)
   }"

function vm_read_var_int_loop :: "bytes \<Rightarrow> nat \<Rightarrow> u32 \<Rightarrow> nat \<Rightarrow> (u32 \<times> nat) option" where
  "vm_read_var_int_loop data offset result shift =
     (case read_u8 data offset of
        None \<Rightarrow> None
      | Some (byte, offset') \<Rightarrow>
          if shift \<ge> 32 then None
          else let result = result OR push_bit shift (ucast (byte AND 127)) in
            if byte AND 128 = 0 then Some (result, offset')
            else vm_read_var_int_loop data offset' result (shift + 7))"
  by auto
termination vm_read_var_int_loop
  by (relation "measure (\<lambda>(data, offset, _). length data - offset)") (auto simp: read_u8_Some)

declare vm_read_var_int_loop.simps [simp del]

definition vm_read_var_int :: "bytes \<Rightarrow> nat \<Rightarrow> (u32 \<times> nat) option" where
  "vm_read_var_int data offset = vm_read_var_int_loop data offset 0 0"


section \<open>Data at an offset\<close>

text \<open>\<open>bytes_at data off bs\<close>: the bytes \<open>bs\<close> stand in \<open>data\<close> at \<open>off\<close>. A codec is a writer and a
  reader such that the reader, at the start of what the writer wrote, returns the value and the
  offset behind it, whatever follows.\<close>

definition bytes_at :: "bytes \<Rightarrow> nat \<Rightarrow> bytes \<Rightarrow> bool" where
  "bytes_at data off bs \<longleftrightarrow> off + length bs \<le> length data \<and> take (length bs) (drop off data) = bs"

lemma bytes_at_append:
  "bytes_at data off (xs @ ys) \<longleftrightarrow> bytes_at data off xs \<and> bytes_at data (off + length xs) ys"
  by (auto simp: bytes_at_def take_add add.commute add.left_commute)

lemma bytes_at_Cons:
  "bytes_at data off (b # bs) \<longleftrightarrow> off < length data \<and> data ! off = b \<and> bytes_at data (off + 1) bs"
  using bytes_at_append [of data off "[b]" bs]
  by (auto simp: bytes_at_def take_Suc hd_drop_conv_nth)

lemma bytes_at_Nil [simp]: "off \<le> length data \<Longrightarrow> bytes_at data off []"
  by (simp add: bytes_at_def)

lemma bytes_at_self: "bytes_at (pre @ bs @ post) (length pre) bs"
  by (simp add: bytes_at_def)

lemma bytes_at_le: "bytes_at data off bs \<Longrightarrow> off + length bs \<le> length data"
  by (simp add: bytes_at_def)

primrec read_list :: "nat \<Rightarrow> (bytes \<Rightarrow> nat \<Rightarrow> ('a \<times> nat) option) \<Rightarrow> bytes \<Rightarrow> nat \<Rightarrow> ('a list \<times> nat) option" where
  "read_list 0 rd data offset = Some ([], offset)"
| "read_list (Suc n) rd data offset = do {
     (x, offset) \<leftarrow> rd data offset;
     (xs, offset) \<leftarrow> read_list n rd data offset;
     Some (x # xs, offset)
   }"

locale codec =
  fixes enc :: "'a \<Rightarrow> bytes"
    and dec :: "bytes \<Rightarrow> nat \<Rightarrow> ('b \<times> nat) option"
    and val :: "'a \<Rightarrow> 'b"
    and ok :: "'a \<Rightarrow> bool"
  assumes dec_enc: "ok x \<Longrightarrow> bytes_at data off (enc x) \<Longrightarrow> dec data off = Some (val x, off + length (enc x))"
begin

lemma dec_list:
  "list_all ok xs \<Longrightarrow> bytes_at data off (concat (map enc xs)) \<Longrightarrow>
    read_list (length xs) dec data off = Some (map val xs, off + length (concat (map enc xs)))"
proof (induction xs arbitrary: off)
  case (Cons x xs)
  then show ?case using dec_enc [of x data off] by (simp add: bytes_at_append add.assoc)
qed simp

end

section \<open>Fixed-width values\<close>

lemma length_le_bytes [simp]: "length (le_bytes n v) = n"
  by (induction n arbitrary: v) simp_all

lemma le_value_le_bytes: "le_value (le_bytes n v) = v mod 256 ^ n"
proof (induction n arbitrary: v)
  case (Suc n)
  have "v mod 256 ^ Suc n = v mod 256 + 256 * (v div 256 mod 256 ^ n)"
    by (simp add: mod_mult2_eq)
  then show ?case using Suc by (simp add: unat_of_nat)
qed simp

lemma read_bytes_at: "bytes_at data off bs \<Longrightarrow> read_bytes (length bs) data off = Some (bs, off + length bs)"
  by (simp add: bytes_at_def read_bytes_def)

interpretation u8c: codec "\<lambda>v. [v]" read_u8 id "\<lambda>_. True"
  by unfold_locales (simp add: read_u8_Some bytes_at_Cons)

interpretation u32c: codec "\<lambda>v :: u32. le_bytes 4 (unat v)" read_u32 id "\<lambda>_. True"
proof unfold_locales
  fix v :: u32 and data off
  assume "bytes_at data off (le_bytes 4 (unat v))"
  moreover have "le_value (le_bytes 4 (unat v)) = unat v"
    using unsigned_less [of v, where ?'a = nat] by (simp add: le_value_le_bytes)
  ultimately show "read_u32 data off = Some (id v, off + length (le_bytes 4 (unat v)))"
    using read_bytes_at [of data off "le_bytes 4 (unat v)"] by (simp add: read_u32_def)
qed

interpretation u64c: codec "\<lambda>v :: u64. le_bytes 8 (unat v)" read_u64 id "\<lambda>_. True"
proof unfold_locales
  fix v :: u64 and data off
  assume "bytes_at data off (le_bytes 8 (unat v))"
  moreover have "le_value (le_bytes 8 (unat v)) = unat v"
    using unsigned_less [of v, where ?'a = nat] by (simp add: le_value_le_bytes)
  ultimately show "read_u64 data off = Some (id v, off + length (le_bytes 8 (unat v)))"
    using read_bytes_at [of data off "le_bytes 8 (unat v)"] by (simp add: read_u64_def)
qed

section \<open>Variable-width integers\<close>

abbreviation var_int :: "u64 \<Rightarrow> bytes" where
  "var_int v \<equiv> write_var_int [] v"

definition var_byte :: "u64 \<Rightarrow> u8" where
  "var_byte v = ucast (v AND 127) OR push_bit 7 (if v > 127 then 1 else 0)"

lemma write_var_int_append: "write_var_int ss v = ss @ var_int v"
proof (induction "unat v" arbitrary: ss v rule: less_induct)
  case less
  show ?case
  proof (cases "drop_bit 7 v = 0")
    case False
    let ?b = "ucast (v AND 127) OR push_bit 7 (if v > 127 then 1 else 0) :: u8"
    have step: "write_var_int xs v = write_var_int (xs @ [?b]) (drop_bit 7 v)" for xs
      using False by (subst write_var_int.simps) (simp add: Let_def write_byte_def)
    have ih: "write_var_int xs (drop_bit 7 v) = xs @ var_int (drop_bit 7 v)" for xs
      using less [OF drop_bit_7_less [OF False]] .
    show ?thesis unfolding step [of ss] step [of "[]"] ih [of "ss @ [?b]"] ih [of "[] @ [?b]"] by simp
  qed (subst (1 2) write_var_int.simps, simp add: Let_def write_byte_def)
qed

lemma var_int_unfold:
  "var_int v = var_byte v # (if drop_bit 7 v = 0 then [] else var_int (drop_bit 7 v))"
  by (subst write_var_int.simps)
    (simp add: Let_def write_byte_def var_byte_def write_var_int_append [of "[_]"])


lemma var_byte_low: "ucast (var_byte v AND 127) = v AND 127"
proof -
  have m: "(127 :: u8) = mask 7" "(127 :: u64) = mask 7" by (simp_all add: mask_eq_exp_minus_1)
  show ?thesis unfolding var_byte_def m
    by (intro bit_word_eqI) (auto simp: bit_simps)
qed

lemma var_byte_more: "var_byte v AND 128 = 0 \<longleftrightarrow> drop_bit 7 v = 0"
proof -
  have m: "(127 :: u64) = mask 7" by (simp add: mask_eq_exp_minus_1)
  have "bit (var_byte v) 7 \<longleftrightarrow> 127 < v"
    unfolding var_byte_def m by (simp add: bit_simps)
  moreover have "(b :: u8) AND 128 = 0 \<longleftrightarrow> \<not> bit b 7" for b
    using and_exp_eq_0_iff_not_bit [of b 7] by simp
  moreover have "drop_bit 7 v = 0 \<longleftrightarrow> \<not> 127 < v"
    by (simp add: word_less_nat_alt unat_drop_bit_eq drop_bit_eq_div [where ?'a = nat]
        div_eq_0_iff not_less less_Suc_eq_le [symmetric] flip: unat_eq_0)
  ultimately show ?thesis by simp
qed


lemma split_low_7: "push_bit n v = push_bit n (v AND 127) OR push_bit (n + 7) (drop_bit 7 v)" for v :: u64
proof -
  have m: "(127 :: u64) = mask 7" by (simp add: mask_eq_exp_minus_1)
  have k: "k - n < 7" if "bit v (k - n)" "\<not> bit v (7 + (k - (n + 7)))" for k
  proof (rule ccontr)
    assume "\<not> k - n < 7"
    then have "7 + (k - (n + 7)) = k - n" by simp
    then show False using that by simp
  qed
  show ?thesis unfolding m by (rule bit_word_eqI) (auto simp: bit_simps dest: k)
qed

lemma split_low_7_u32:
  "push_bit n (ucast v :: u32)
    = push_bit n (ucast (v AND 127)) OR push_bit (n + 7) (ucast (drop_bit 7 v))" for v :: u64
proof -
  have m: "(127 :: u64) = mask 7" by (simp add: mask_eq_exp_minus_1)
  have k: "k - n < 7" if "bit v (k - n)" "\<not> bit v (7 + (k - (n + 7)))" for k
  proof (rule ccontr)
    assume "\<not> k - n < 7"
    then have "7 + (k - (n + 7)) = k - n" by simp
    then show False using that by simp
  qed
  show ?thesis unfolding m by (rule bit_word_eqI) (auto simp: bit_simps dest: k)
qed

lemma var_int_room:
  assumes "unat (v :: u64) < 2 ^ (w - n)" and "n < w" and "drop_bit 7 v \<noteq> 0"
  shows "unat (drop_bit 7 v) < 2 ^ (w - (n + 7))" and "n + 7 < w"
proof -
  have ge: "128 \<le> unat v"
    using assms(3) by (simp add: unat_drop_bit_eq drop_bit_eq_div [where ?'a = nat] div_eq_0_iff
        flip: unat_eq_0)
  then have "(2 :: nat) ^ 7 < 2 ^ (w - n)" using assms(1) by simp
  then have "7 < w - n" using power_less_imp_less_exp [of "2 :: nat" 7 "w - n"] by simp
  then show n: "n + 7 < w" by simp
  then have "w - n = (w - (n + 7)) + 7" by simp
  then have "(2 :: nat) ^ (w - n) = 2 ^ (w - (n + 7)) * 2 ^ 7"
    by (metis power_add)
  then show "unat (drop_bit 7 v) < 2 ^ (w - (n + 7))"
    using assms(1) by (simp add: unat_drop_bit_eq drop_bit_eq_div [where ?'a = nat] less_mult_imp_div_less)
qed

lemma var_byte_low_u32: "ucast (var_byte v AND 127) = (ucast (v AND 127) :: u32)"
proof -
  have m: "(127 :: u8) = mask 7" "(127 :: u64) = mask 7" by (simp_all add: mask_eq_exp_minus_1)
  show ?thesis unfolding var_byte_def m
    by (intro bit_word_eqI) (auto simp: bit_simps)
qed

lemma read_var_int_64_loop_at:
  assumes "bytes_at data off (var_int v)" and "unat v < 2 ^ (64 - n)" and "n < 64"
  shows "read_var_int_64_loop data off r n = Some (r OR push_bit n v, off + length (var_int v))"
  using assms
proof (induction "unat v" arbitrary: v off r n rule: less_induct)
  case less
  have at: "off < length data" "data ! off = var_byte v"
    "drop_bit 7 v \<noteq> 0 \<Longrightarrow> bytes_at data (off + 1) (var_int (drop_bit 7 v))"
    using less.prems(1) by (simp_all add: var_int_unfold [of v] bytes_at_Cons)
  then have rd: "read_u8 data off = Some (var_byte v, off + 1)" by (simp add: read_u8_Some)
  show ?case
  proof (cases "drop_bit 7 v = 0")
    case True
    then show ?thesis
      using less.prems(3) rd split_low_7 [of n v]
      by (subst read_var_int_64_loop.simps)
        (simp add: var_byte_more var_byte_low var_int_unfold [of v])
  next
    case False
    note room = var_int_room [OF less.prems(2,3) False]
    show ?thesis
      using less.prems(3) rd less.hyps [OF drop_bit_7_less [OF False] at(3) [OF False] room]
        split_low_7 [of n v] False
      by (subst read_var_int_64_loop.simps)
        (simp add: var_byte_more var_byte_low var_int_unfold [of v] or.assoc)
  qed
qed

lemma vm_read_var_int_loop_at:
  assumes "bytes_at data off (var_int v)" and "unat v < 2 ^ (32 - n)" and "n < 32"
  shows "vm_read_var_int_loop data off r n
    = Some (r OR push_bit n (ucast v), off + length (var_int v))"
  using assms
proof (induction "unat v" arbitrary: v off r n rule: less_induct)
  case less
  have at: "off < length data" "data ! off = var_byte v"
    "drop_bit 7 v \<noteq> 0 \<Longrightarrow> bytes_at data (off + 1) (var_int (drop_bit 7 v))"
    using less.prems(1) by (simp_all add: var_int_unfold [of v] bytes_at_Cons)
  then have rd: "read_u8 data off = Some (var_byte v, off + 1)" by (simp add: read_u8_Some)
  show ?case
  proof (cases "drop_bit 7 v = 0")
    case True
    then show ?thesis
      using less.prems(3) rd split_low_7_u32 [of n v]
      by (subst vm_read_var_int_loop.simps)
        (simp add: var_byte_more var_byte_low_u32 var_int_unfold [of v])
  next
    case False
    note room = var_int_room [OF less.prems(2,3) False]
    show ?thesis
      using less.prems(3) rd less.hyps [OF drop_bit_7_less [OF False] at(3) [OF False] room]
        split_low_7_u32 [of n v] False
      by (subst vm_read_var_int_loop.simps)
        (simp add: var_byte_more var_byte_low_u32 var_int_unfold [of v] or.assoc)
  qed
qed

interpretation vi64: codec var_int read_var_int_64 id "\<lambda>_. True"
proof unfold_locales
  fix v :: u64 and data off
  assume "bytes_at data off (var_int v)"
  then show "read_var_int_64 data off = Some (id v, off + length (var_int v))"
    using read_var_int_64_loop_at [of data off v 0 0] unsigned_less [of v, where ?'a = nat]
    by (simp add: read_var_int_64_def)
qed

interpretation vi32: codec "\<lambda>v :: u32. var_int (ucast v)" vm_read_var_int id "\<lambda>_. True"
proof unfold_locales
  fix v :: u32 and data off
  assume "bytes_at data off (var_int (ucast v))"
  moreover have "unat (ucast v :: u64) = unat v"
    using unsigned_less [of v, where ?'a = nat] by (simp add: unsigned_ucast_eq take_bit_nat_eq_self)
  moreover have "ucast (ucast v :: u64) = v" by (rule bit_word_eqI) (auto simp: bit_simps)
  ultimately show "vm_read_var_int data off = Some (id v, off + length (var_int (ucast v)))"
    using vm_read_var_int_loop_at [of data off "ucast v" 0 0] unsigned_less [of v, where ?'a = nat]
    by (simp add: vm_read_var_int_def)
qed

lemma var_int_length: "length (var_int v) \<le> 10"
proof -
  have "length (var_int v) \<le> n + 1" if "unat v < 128 ^ (n + 1)" for n v
    using that
  proof (induction n arbitrary: v)
    case 0
    then have "drop_bit 7 v = 0"
      by (simp add: unat_drop_bit_eq drop_bit_eq_div [where ?'a = nat] flip: unat_eq_0)
    then show ?case by (simp add: var_int_unfold [of v])
  next
    case (Suc n)
    then have "unat (drop_bit 7 v) < 128 ^ (n + 1)"
      by (simp add: unat_drop_bit_eq drop_bit_eq_div [where ?'a = nat] less_mult_imp_div_less)
    then show ?case using Suc.IH [of "drop_bit 7 v"] by (simp add: var_int_unfold [of v])
  qed
  from this [of v 9] show ?thesis using unsigned_less [of v, where ?'a = nat] by simp
qed

section \<open>Properties\<close>

text \<open>C26: an integer written by \<open>write_var_int\<close> anywhere in a byte stream takes between 1 and 10
  bytes and is read back, together with the offset behind it, by the 64-bit readers of both crates;
  the truncating reader of \<open>luaur-common\<close> returns its low 32 bits, and a value of 32 bits is read
  back by the reader of the VM, which accumulates in 32 bits, without its shift ever reaching the
  width.\<close>

theorem var_int_roundtrip:
  "let data = write_var_int pre v @ post; off = length pre; off' = length (write_var_int pre v) in
     off + 1 \<le> off' \<and> off' \<le> off + 10 \<and>
     read_var_int_64 data off = Some (v, off') \<and>
     read_var_int data off = Some (ucast v, off') \<and>
     (unat v < 2 ^ 32 \<longrightarrow> vm_read_var_int data off = Some (ucast v, off'))"
proof -
  have at: "bytes_at (write_var_int pre v @ post) (length pre) (var_int v)"
    by (simp add: write_var_int_append [of pre] bytes_at_self)
  have "length (var_int v) \<ge> 1" by (simp add: var_int_unfold [of v])
  moreover have "vm_read_var_int (write_var_int pre v @ post) (length pre)
      = Some (ucast v, length (write_var_int pre v))" if "unat v < 2 ^ 32"
    using vm_read_var_int_loop_at [OF at, of 0 0] that
    by (simp add: vm_read_var_int_def write_var_int_append [of pre])
  moreover have "length (write_var_int pre v) = length pre + length (var_int v)"
    by (simp add: write_var_int_append [of pre])
  ultimately show ?thesis
    using vi64.dec_enc [OF _ at] var_int_length [of v] by (simp add: Let_def read_var_int_def)
qed

theorem var_int_roundtrip_witness:
  "vm_read_var_int (write_var_int [7] 300 @ [9]) 1 = Some (300, length (write_var_int [7] 300))"
  using var_int_roundtrip [of "[7]" 300 "[9]"] by (simp add: Let_def)

text \<open>The bytes of \<open>write_byte\<close>, \<open>write_int\<close>, \<open>write_float\<close> and \<open>write_double\<close> are read back
  bit for bit by \<open>read\<close> at the matching width.\<close>

lemma fixed_width_roundtrip:
  "read_u8 (write_byte pre b @ post) (length pre) = Some (b, length pre + 1) \<and>
   read_u32 (write_int pre i @ post) (length pre) = Some (i, length pre + 4) \<and>
   read_u32 (write_float pre i @ post) (length pre) = Some (i, length pre + 4) \<and>
   read_u64 (write_double pre d @ post) (length pre) = Some (d, length pre + 8)"
  using u8c.dec_enc [OF _ bytes_at_self [of pre "[b]" post]]
    u32c.dec_enc [OF _ bytes_at_self [of pre "le_bytes 4 (unat i)" post]]
    u64c.dec_enc [OF _ bytes_at_self [of pre "le_bytes 8 (unat d)" post]]
  by (simp add: write_byte_def write_int_def write_float_def write_double_def)

end
