(* ===== verification/Line_Info.thy ===== *)
theory Line_Info
  imports Bytecode_Wire
begin

text \<open>
  Line information: \<open>BytecodeBuilder::write_line_info\<close> compresses the line of every instruction
  into a byte relative to a baseline per power-of-two span of instructions, delta-encodes both, and
  \<open>loadsafe\<close> and \<open>luaG_getline\<close> (\<open>luaur-vm\<close>) undo it. The helper \<open>log2\<close> is included. Lines are
  \<open>i32\<close>; the differences are reduced to 32 bits where the source computes them.
\<close>

section \<open>Writing\<close>

text \<open>\<open>while v >= (2 << r)\<close> in \<open>i32\<close>: from \<open>r = 30\<close> on the shifted value wraps and a shift by 32
  panics.\<close>

function log2_loop :: "int \<Rightarrow> nat \<Rightarrow> nat option" where
  "log2_loop v r =
     (if r \<ge> 32 then None
      else if v \<ge> wrap_i32 (2 * 2 ^ r) then log2_loop v (r + 1) else Some r)"
  by auto
termination log2_loop
  by (relation "measure (\<lambda>(v, r). 32 - r)") auto

declare log2_loop.simps [simp del]

definition log2 :: "int \<Rightarrow> nat option" where
  "log2 v = do { LUAU_ASSERT (v \<noteq> 0); log2_loop v 0 }"

definition ceillog2 :: "int \<Rightarrow> nat option" where
  "ceillog2 v = do {
     LUAU_ASSERT (v > 0);
     if v = 1 then Some 0 else do { r \<leftarrow> log2 (v - 1); Some (r + 1) }
   }"

text \<open>The scan of one window for the first instruction whose line does not fit a byte offset.\<close>

function scan_window :: "int list \<Rightarrow> nat \<Rightarrow> nat \<Rightarrow> nat \<Rightarrow> int \<Rightarrow> int \<Rightarrow> nat" where
  "scan_window lines offset span next mn mx =
     (if next < length lines \<and> next < offset + span then
        let mn = min mn (lines ! next); mx = max mx (lines ! next) in
        if wrap_i32 (mx - mn) > 255 then next
        else scan_window lines offset span (next + 1) mn mx
      else next)"
  by auto
termination scan_window
  by (relation "measure (\<lambda>(lines, offset, span, next, _). length lines - next)") auto

declare scan_window.simps [simp del]

text \<open>The search for the span; \<open>None\<close> would also be a search that does not end.\<close>

partial_function (option) span_loop :: "int list \<Rightarrow> nat \<Rightarrow> nat \<Rightarrow> nat option" where
  "span_loop lines offset span =
     (if offset < length lines then
        let next = scan_window lines offset span offset (lines ! offset) (lines ! offset) in
        if next < length lines \<and> next - offset < span then
          do { r \<leftarrow> log2 (int (next - offset)); span_loop lines offset (2 ^ r) }
        else span_loop lines (offset + span) span
      else Some span)"

function min_window :: "int list \<Rightarrow> nat \<Rightarrow> nat \<Rightarrow> nat \<Rightarrow> int \<Rightarrow> int" where
  "min_window lines offset span next mn =
     (if next < length lines \<and> next < offset + span
      then min_window lines offset span (next + 1) (min mn (lines ! next)) else mn)"
  by auto
termination min_window
  by (relation "measure (\<lambda>(lines, offset, span, next, _). length lines - next)") auto

declare min_window.simps [simp del]

text \<open>\<open>step_by(0)\<close> panics.\<close>

function baseline_loop :: "int list \<Rightarrow> nat \<Rightarrow> nat \<Rightarrow> int list \<Rightarrow> int list option" where
  "baseline_loop lines span offset baseline =
     (if span = 0 then None
      else if offset < length lines then do {
        baseline \<leftarrow> update_checked baseline (offset div span)
          (min_window lines offset span offset (lines ! offset));
        baseline_loop lines span (offset + span) baseline
      } else Some baseline)"
  by auto
termination baseline_loop
  by (relation "measure (\<lambda>(lines, span, offset, _). length lines - offset)") auto

declare baseline_loop.simps [simp del]

text \<open>The two delta-encoding loops.\<close>

fun write_offsets :: "int list \<Rightarrow> nat \<Rightarrow> nat \<Rightarrow> u8 \<Rightarrow> int list \<Rightarrow> bytes \<Rightarrow> bytes option" where
  "write_offsets baseline logspan i last_offset [] ss = Some ss"
| "write_offsets baseline logspan i last_offset (line # lines) ss = do {
     b \<leftarrow> index_checked baseline (i div 2 ^ logspan);
     let delta = wrap_i32 (line - b);
     LUAU_ASSERT (delta \<ge> 0 \<and> delta \<le> 255);
     let ss = write_byte ss (word_of_int delta - last_offset);
     write_offsets baseline logspan (i + 1) (word_of_int delta) lines ss
   }"

fun write_baselines :: "int \<Rightarrow> int list \<Rightarrow> bytes \<Rightarrow> bytes" where
  "write_baselines last_line [] ss = ss"
| "write_baselines last_line (b # bs) ss =
     write_baselines b bs (write_int ss (word_of_int (b - last_line)))"

definition write_line_info :: "int list \<Rightarrow> bytes \<Rightarrow> bytes option" where
  "write_line_info lines ss = do {
     LUAU_ASSERT (lines \<noteq> []);
     span \<leftarrow> span_loop lines 0 (2 ^ 24);
     LUAU_ASSERT (span \<noteq> 0);
     let baseline_size = (length lines - 1) div span + 1;
     baseline \<leftarrow> baseline_loop lines span 0 (replicate baseline_size 0);
     logspan \<leftarrow> log2 (int span);
     let ss = write_byte ss (word_of_nat logspan);
     ss \<leftarrow> write_offsets baseline logspan 0 0 lines ss;
     Some (write_baselines 0 baseline ss)
   }"

section \<open>Loading\<close>

record line_info =
  li_linegaplog2 :: nat
  li_lineinfo :: "u8 list"
  li_abslineinfo :: "int list"

fun read_offsets :: "nat \<Rightarrow> u8 \<Rightarrow> bytes \<Rightarrow> nat \<Rightarrow> (u8 list \<times> nat) option" where
  "read_offsets 0 lastoffset data offset = Some ([], offset)"
| "read_offsets (Suc n) lastoffset data offset = do {
     (d, offset) \<leftarrow> read_u8 data offset;
     let lastoffset = lastoffset + d;
     (rest, offset) \<leftarrow> read_offsets n lastoffset data offset;
     Some (lastoffset # rest, offset)
   }"

fun read_abslines :: "nat \<Rightarrow> int \<Rightarrow> bytes \<Rightarrow> nat \<Rightarrow> (int list \<times> nat) option" where
  "read_abslines 0 lastline data offset = Some ([], offset)"
| "read_abslines (Suc n) lastline data offset = do {
     (d, offset) \<leftarrow> read_u32 data offset;
     let lastline = wrap_i32 (lastline + sint d);
     (rest, offset) \<leftarrow> read_abslines n lastline data offset;
     Some (lastline # rest, offset)
   }"

text \<open>The body of \<open>if lineinfo != 0\<close>: \<open>intervals\<close> is computed on \<open>i32\<close>, and a shift by 32 or more
  panics.\<close>

definition load_line_info :: "nat \<Rightarrow> bytes \<Rightarrow> nat \<Rightarrow> (line_info \<times> nat) option" where
  "load_line_info sizecode data offset = do {
     (g, offset) \<leftarrow> read_u8 data offset;
     let linegaplog2 = unat g;
     LUAU_ASSERT (linegaplog2 < 32);
     let intervals = nat ((int sizecode - 1) div 2 ^ linegaplog2 + 1);
     (lineinfo, offset) \<leftarrow> read_offsets sizecode 0 data offset;
     (abslineinfo, offset) \<leftarrow> read_abslines intervals 0 data offset;
     Some (\<lparr>li_linegaplog2 = linegaplog2, li_lineinfo = lineinfo, li_abslineinfo = abslineinfo\<rparr>,
           offset)
   }"

definition luaG_getline :: "nat \<Rightarrow> line_info option \<Rightarrow> nat \<Rightarrow> int option" where
  "luaG_getline sizecode lineinfo pc = do {
     LUAU_ASSERT (pc < sizecode);
     (case lineinfo of
        None \<Rightarrow> Some 0
      | Some li \<Rightarrow> do {
          abs_line \<leftarrow> index_checked (li_abslineinfo li) (pc div 2 ^ li_linegaplog2 li);
          line_offset \<leftarrow> index_checked (li_lineinfo li) pc;
          Some (wrap_i32 (abs_line + int (unat line_offset)))
        })
   }"

section \<open>Logarithms\<close>

lemma wrap_i32_pow: "r < 30 \<Longrightarrow> wrap_i32 (2 * 2 ^ r) = 2 * 2 ^ r"
proof -
  assume "r < 30"
  then have "(2 :: int) ^ r < 2 ^ 30" by (intro power_strict_increasing) auto
  then have "(2 :: int) ^ r < 1073741824" by simp
  moreover have "(0 :: int) \<le> 2 ^ r" by simp
  ultimately show ?thesis by (intro wrap_i32_small) linarith+
qed

lemma log2_loop_correct:
  assumes "2 ^ r \<le> v" and "v < 2 ^ 30" and "r < 30"
  shows "\<exists>s. log2_loop v r = Some s \<and> s < 30 \<and> 2 ^ s \<le> v \<and> v < 2 ^ (s + 1)"
  using assms
proof (induction "30 - r" arbitrary: r)
  case (Suc n)
  show ?case
  proof (cases "2 * 2 ^ r \<le> v")
    case True
    then have "r + 1 < 30"
      using Suc.prems(2) power_less_imp_less_exp [of "2 :: int" "r + 1" 30] by simp
    then show ?thesis
      using Suc.hyps(1) [of "r + 1"] Suc.hyps(2) Suc.prems True
      by (subst log2_loop.simps) (simp add: wrap_i32_pow)
  next
    case False
    then show ?thesis using Suc.prems by (subst log2_loop.simps) (simp add: wrap_i32_pow)
  qed
qed simp

lemma log2_correct:
  assumes "1 \<le> v" and "v < 2 ^ 30"
  shows "\<exists>s. log2 v = Some s \<and> s < 30 \<and> 2 ^ s \<le> v \<and> v < 2 ^ (s + 1)"
  using log2_loop_correct [of 0 v] assms by (simp add: log2_def)

lemma log2_pow: "k < 30 \<Longrightarrow> log2 (2 ^ k) = Some k"
proof -
  assume k: "k < 30"
  then have "(2 :: int) ^ k < 2 ^ 30" by (intro power_strict_increasing) auto
  then obtain s where s: "log2 (2 ^ k) = Some s" "(2 :: int) ^ s \<le> 2 ^ k" "(2 :: int) ^ k < 2 ^ (s + 1)"
    using log2_correct [of "2 ^ k"] by auto
  then have "s \<le> k" "k < s + 1"
    using power_le_imp_le_exp [of "2 :: int" s k] power_less_imp_less_exp [of "2 :: int" k "s + 1"] by auto
  then show ?thesis using s(1) by simp
qed


section \<open>The span\<close>

definition good_lines :: "int list \<Rightarrow> bool" where
  "good_lines lines \<longleftrightarrow> (\<forall>l \<in> set lines. 0 \<le> l \<and> l < 2 ^ 31)"

text \<open>Lines of one span of instructions below \<open>bound\<close> differ by at most a byte.\<close>

definition flat_below :: "int list \<Rightarrow> nat \<Rightarrow> nat \<Rightarrow> bool" where
  "flat_below lines span bound \<longleftrightarrow>
     (\<forall>a b. a < length lines \<longrightarrow> b < length lines \<longrightarrow> a < bound \<longrightarrow> b < bound \<longrightarrow>
        a div span = b div span \<longrightarrow> lines ! a - lines ! b \<le> 255)"

lemma good_lines_nth: "good_lines lines \<Longrightarrow> i < length lines \<Longrightarrow> 0 \<le> lines ! i \<and> lines ! i < 2 ^ 31"
  by (simp add: good_lines_def)

lemma scan_window_inv:
  assumes "good_lines lines" and "\<forall>i. offset \<le> i \<and> i < next \<longrightarrow> mn \<le> lines ! i \<and> lines ! i \<le> mx"
    and "0 \<le> mn" and "mn \<le> mx" and "mx < 2 ^ 31" and "mx - mn \<le> 255"
    and "next \<le> length lines" and "next \<le> offset + span"
  defines "n \<equiv> scan_window lines offset span next mn mx"
  shows "next \<le> n \<and> n \<le> length lines \<and> n \<le> offset + span \<and>
    (\<forall>a b. offset \<le> a \<and> a < n \<and> offset \<le> b \<and> b < n \<longrightarrow> lines ! a - lines ! b \<le> 255)"
  using assms(1-8) unfolding n_def
proof (induction lines offset span "next" mn mx rule: scan_window.induct)
  case (1 lines offset span "next" mn mx)
  let ?mn = "min mn (lines ! next)" and ?mx = "max mx (lines ! next)"
  have here: "lines ! a - lines ! b \<le> 255"
    if "offset \<le> a \<and> a < next \<and> offset \<le> b \<and> b < next" for a b
  proof -
    have "lines ! a \<le> mx" "mn \<le> lines ! b" using that 1(3) by auto
    then show ?thesis using 1(7) by linarith
  qed
  show ?case
  proof (cases "next < length lines \<and> next < offset + span \<and> \<not> wrap_i32 (?mx - ?mn) > 255")
    case True
    then have g: "0 \<le> lines ! next \<and> lines ! next < 2 ^ 31" using good_lines_nth [OF 1(2)] by blast
    then have "wrap_i32 (?mx - ?mn) = ?mx - ?mn" using 1(4-6) by (intro wrap_i32_small) auto
    then have d: "?mx - ?mn \<le> 255" using True by simp
    have mono: "\<forall>i. offset \<le> i \<and> i < next + 1 \<longrightarrow> ?mn \<le> lines ! i \<and> lines ! i \<le> ?mx"
      using 1(3) by (auto simp: less_Suc_eq min_le_iff_disj le_max_iff_disj)
    have "scan_window lines offset span next mn mx = scan_window lines offset span (next + 1) ?mn ?mx"
      using True by (subst scan_window.simps) (simp add: Let_def)
    moreover have "?mn \<le> ?mx" using 1(5) by auto
    ultimately show ?thesis using 1(1) [OF _ refl refl _ 1(2) mono] True g d 1(4-6) by auto
  next
    case False
    then have "scan_window lines offset span next mn mx = next"
      by (subst scan_window.simps) (auto simp: Let_def)
    then show ?thesis using here 1(8,9) by simp
  qed
qed

lemma scan_window_progress:
  assumes "offset < length lines" and "0 < span" and "good_lines lines"
  defines "n \<equiv> scan_window lines offset span offset (lines ! offset) (lines ! offset)"
  shows "offset < n \<and> n \<le> length lines \<and> n \<le> offset + span \<and>
    (\<forall>a b. offset \<le> a \<and> a < n \<and> offset \<le> b \<and> b < n \<longrightarrow> lines ! a - lines ! b \<le> 255)"
proof -
  let ?l = "lines ! offset"
  have l: "0 \<le> ?l" "?l < 2 ^ 31" using good_lines_nth [OF assms(3,1)] by auto
  have n: "n = scan_window lines offset span (offset + 1) ?l ?l"
    unfolding n_def using assms(1,2)
    by (subst scan_window.simps) (simp add: Let_def wrap_i32_small)
  have "\<forall>i. offset \<le> i \<and> i < offset + 1 \<longrightarrow> ?l \<le> lines ! i \<and> lines ! i \<le> ?l"
    by (auto simp: less_Suc_eq)
  from scan_window_inv [OF assms(3) this l(1) _ l(2), of span] show ?thesis
    using n assms(1,2) by auto
qed

lemma flat_below_shrink:
  assumes "flat_below lines (2 ^ k) bound" and "r \<le> k"
  shows "flat_below lines (2 ^ r) bound"
proof -
  have *: "a div 2 ^ k = b div 2 ^ k" if "a div 2 ^ r = b div 2 ^ r" for a b :: nat
  proof -
    have "(2 :: nat) ^ k = 2 ^ r * 2 ^ (k - r)" using assms(2) by (simp flip: power_add)
    then show ?thesis using that by (simp add: div_mult2_eq)
  qed
  show ?thesis unfolding flat_below_def
    by (intro allI impI) (rule assms(1) [unfolded flat_below_def, rule_format, OF _ _ _ _ *])
qed

lemma flat_below_extend:
  assumes "flat_below lines span offset" and "span dvd offset" and "0 < span"
    and "\<forall>a b. offset \<le> a \<and> a < n \<and> offset \<le> b \<and> b < n \<longrightarrow> lines ! a - lines ! b \<le> 255"
    and "n = length lines \<or> n = offset + span"
  shows "flat_below lines span (offset + span)"
  unfolding flat_below_def
proof (intro allI impI)
  fix a b
  assume ab: "a < length lines" "b < length lines" "a < offset + span" "b < offset + span"
    "a div span = b div span"
  obtain q where q: "offset = span * q" using assms(2) by blast
  have "a < offset \<longleftrightarrow> b < offset"
    using ab(5) assms(3) q div_less_iff_less_mult [of span a q] div_less_iff_less_mult [of span b q]
    by (simp add: mult.commute)
  then show "lines ! a - lines ! b \<le> 255"
    using assms(1,4,5) ab by (cases "a < offset") (auto simp: flat_below_def)
qed

lemma span_loop_correct:
  assumes "good_lines lines" and "k \<le> 24" and "2 ^ k dvd offset" and "flat_below lines (2 ^ k) offset"
  shows "\<exists>j \<le> k. span_loop lines offset (2 ^ k) = Some (2 ^ j) \<and> flat_below lines (2 ^ j) (length lines)"
  using assms(2-4)
proof (induction "(k, length lines - offset)" arbitrary: k offset
    rule: wf_induct_rule [OF wf_lex_prod [OF wf_less_than wf_less_than]])
  case (1 k offset)
  show ?case
  proof (cases "offset < length lines")
    case False
    then show ?thesis using 1(4)
      by (intro exI [of _ k]) (subst span_loop.simps, auto simp: flat_below_def)
  next
    case True
    let ?n = "scan_window lines offset (2 ^ k) offset (lines ! offset) (lines ! offset)"
    have n: "offset < ?n" "?n \<le> length lines" "?n \<le> offset + 2 ^ k"
      "\<forall>a b. offset \<le> a \<and> a < ?n \<and> offset \<le> b \<and> b < ?n \<longrightarrow> lines ! a - lines ! b \<le> 255"
      using scan_window_progress [OF True _ assms(1), of "2 ^ k"] by auto
    show ?thesis
    proof (cases "?n < length lines \<and> ?n - offset < 2 ^ k")
      case shrink: True
      have "(2 :: nat) ^ k \<le> 2 ^ 24" using 1(2) by (intro power_increasing) auto
      then have "int (?n - offset) < 2 ^ 30" using shrink by simp
      then obtain r where r: "log2 (int (?n - offset)) = Some r" "2 ^ r \<le> int (?n - offset)"
        using log2_correct [of "int (?n - offset)"] n(1) by auto
      from r(2) have "int (2 ^ r) \<le> int (?n - offset)" by (simp only: of_nat_power of_nat_numeral)
      then have "2 ^ r \<le> ?n - offset" by (simp only: of_nat_le_iff)
      then have "2 ^ r < (2 :: nat) ^ k" using shrink le_less_trans by blast
      then have rk: "r < k" using power_less_imp_less_exp [of "2 :: nat" r k] by simp
      then have "2 ^ r dvd offset" using 1(3) by (meson dvd_trans le_imp_power_dvd less_imp_le)
      moreover have "flat_below lines (2 ^ r) offset" using flat_below_shrink [OF 1(4)] rk by simp
      ultimately obtain j where "j \<le> r" "span_loop lines offset (2 ^ r) = Some (2 ^ j)"
        "flat_below lines (2 ^ j) (length lines)"
        using 1(1) [of r offset] rk 1(2) by auto
      then show ?thesis using True shrink r(1) rk
        by (intro exI [of _ j]) (subst span_loop.simps, simp add: Let_def)
    next
      case False
      have "?n = length lines \<or> ?n = offset + 2 ^ k" using False n(1,2,3) by linarith
      then have "flat_below lines (2 ^ k) (offset + 2 ^ k)"
        using flat_below_extend [OF 1(4,3) _ n(4)] by simp
      then obtain j where "j \<le> k" "span_loop lines (offset + 2 ^ k) (2 ^ k) = Some (2 ^ j)"
        "flat_below lines (2 ^ j) (length lines)"
        using 1(1) [of k "offset + 2 ^ k"] 1(2,3) diff_less_mono2 [of offset "offset + 2 ^ k" "length lines"] True
        by auto
      then show ?thesis using True False
        by (intro exI [of _ j]) (subst span_loop.simps, auto simp: Let_def)
    qed
  qed
qed


section \<open>The baseline\<close>

lemma min_window_props:
  defines "r \<equiv> \<lambda>lines offset span next mn. min_window lines offset span next mn"
  shows "r lines offset span next mn \<le> mn \<and>
    (\<forall>i. next \<le> i \<and> i < length lines \<and> i < offset + span \<longrightarrow> r lines offset span next mn \<le> lines ! i) \<and>
    (r lines offset span next mn = mn \<or>
     (\<exists>i. next \<le> i \<and> i < length lines \<and> i < offset + span \<and> r lines offset span next mn = lines ! i))"
  unfolding r_def
proof (induction lines offset span "next" mn rule: min_window.induct)
  case (1 lines offset span "next" mn)
  show ?case
  proof (cases "next < length lines \<and> next < offset + span")
    case True
    let ?r = "min_window lines offset span (next + 1) (min mn (lines ! next))"
    have eq: "min_window lines offset span next mn = ?r"
      using True by (subst min_window.simps) simp
    have ih: "?r \<le> min mn (lines ! next)"
      "\<And>i. next + 1 \<le> i \<Longrightarrow> i < length lines \<Longrightarrow> i < offset + span \<Longrightarrow> ?r \<le> lines ! i"
      "?r = min mn (lines ! next) \<or>
       (\<exists>i. next + 1 \<le> i \<and> i < length lines \<and> i < offset + span \<and> ?r = lines ! i)"
      using 1 True by auto
    have "?r \<le> lines ! i" if "next \<le> i" "i < length lines" "i < offset + span" for i
      using ih(1) ih(2) [of i] that by (cases "i = next") auto
    moreover have "?r = mn \<or> (\<exists>i. next \<le> i \<and> i < length lines \<and> i < offset + span \<and> ?r = lines ! i)"
      using ih(3) True by (auto simp: min_def split: if_splits intro: Suc_leD)
    ultimately show ?thesis unfolding eq using ih(1) by simp
  qed (subst (1 2 3 4) min_window.simps, auto)
qed

definition window_min :: "int list \<Rightarrow> nat \<Rightarrow> nat \<Rightarrow> int \<Rightarrow> bool" where
  "window_min lines span j m \<longleftrightarrow>
     (\<forall>i < length lines. i div span = j \<longrightarrow> m \<le> lines ! i) \<and>
     (\<exists>i < length lines. i div span = j \<and> m = lines ! i)"

lemma min_window_window_min:
  assumes "0 < span" and "span * q < length lines"
  shows "window_min lines span q (min_window lines (span * q) span (span * q) (lines ! (span * q)))"
proof -
  let ?r = "min_window lines (span * q) span (span * q) (lines ! (span * q))"
  have w: "i div span = q \<longleftrightarrow> span * q \<le> i \<and> i < span * q + span" for i
    using assms(1) by (metis add.commute div_nat_eqI dividend_less_times_div mult_Suc_right
        times_div_less_eq_dividend)
  have "?r \<le> lines ! i" if "i < length lines" "i div span = q" for i
    using min_window_props [of lines "span * q" span "span * q" "lines ! (span * q)"] that w by auto
  moreover have "\<exists>i < length lines. i div span = q \<and> ?r = lines ! i"
    using min_window_props [of lines "span * q" span "span * q" "lines ! (span * q)"] assms w by auto
  ultimately show ?thesis unfolding window_min_def by blast
qed

lemma baseline_loop_correct:
  assumes "0 < span" and "length b = (length lines - 1) div span + 1" and "lines \<noteq> []"
  shows "\<exists>b'. baseline_loop lines span (span * q) b = Some b' \<and> length b' = length b \<and>
    (\<forall>j < q. j < length b \<longrightarrow> b' ! j = b ! j) \<and>
    (\<forall>j. q \<le> j \<and> j < length b \<longrightarrow> window_min lines span j (b' ! j))"
  using assms(2)
proof (induction "length lines - span * q" arbitrary: q b rule: less_induct)
  case less
  have len: "q < length b \<longleftrightarrow> span * q < length lines" for q
    using less.prems assms(1,3)
    by (simp add: less_Suc_eq_le less_eq_div_iff_mult_less_eq mult.commute)
      (cases lines, auto simp: less_Suc_eq_le)
  show ?case
  proof (cases "span * q < length lines")
    case False
    then have "baseline_loop lines span (span * q) b = Some b"
      using assms(1) by (subst baseline_loop.simps) simp
    moreover have "length b \<le> q" using False len [of q] by simp
    ultimately show ?thesis by (intro exI [of _ b]) auto
  next
    case True
    let ?m = "min_window lines (span * q) span (span * q) (lines ! (span * q))"
    have q: "q < length b" using True len by simp
    have eq: "baseline_loop lines span (span * q) b = baseline_loop lines span (span * Suc q) (b[q := ?m])"
      using assms(1) True q by (subst baseline_loop.simps) (simp add: add.commute)
    have "length lines - span * Suc q < length lines - span * q" using True assms(1) by simp
    from less.hyps [OF this, of "b[q := ?m]"] less.prems obtain b'
      where b': "baseline_loop lines span (span * Suc q) (b[q := ?m]) = Some b'" "length b' = length b"
        "\<forall>j < Suc q. j < length b \<longrightarrow> b' ! j = b[q := ?m] ! j"
        "\<forall>j. Suc q \<le> j \<and> j < length b \<longrightarrow> window_min lines span j (b' ! j)"
      by auto
    have "b' ! q = ?m" using b'(3) q by simp
    then have "window_min lines span j (b' ! j)" if "q \<le> j" "j < length b" for j
      using b'(4) that min_window_window_min [OF assms(1) True] by (cases "j = q") auto
    then show ?thesis unfolding eq using b' by auto
  qed
qed

section \<open>Delta encoding\<close>

fun delta_bytes :: "u8 \<Rightarrow> u8 list \<Rightarrow> bytes" where
  "delta_bytes l [] = []"
| "delta_bytes l (d # ds) = (d - l) # delta_bytes d ds"

fun delta_ints :: "int \<Rightarrow> int list \<Rightarrow> bytes" where
  "delta_ints l [] = []"
| "delta_ints l (d # ds) = le_bytes 4 (unat (word_of_int (d - l) :: u32)) @ delta_ints d ds"

lemma length_delta_bytes [simp]: "length (delta_bytes l ds) = length ds"
  by (induction l ds rule: delta_bytes.induct) simp_all

lemma read_offsets_at:
  "bytes_at data off (delta_bytes l ds) \<Longrightarrow> read_offsets (length ds) l data off = Some (ds, off + length ds)"
  by (induction l ds arbitrary: off rule: delta_bytes.induct) (auto simp: bytes_at_Cons read_u8_at)

lemma write_offsets_eq:
  assumes "\<forall>k < length lines. (i + k) div 2 ^ g < length b \<and>
    0 \<le> lines ! k - b ! ((i + k) div 2 ^ g) \<and> lines ! k - b ! ((i + k) div 2 ^ g) \<le> 255"
  shows "write_offsets b g i l lines ss = Some (ss @ delta_bytes l
    (map (\<lambda>k. word_of_int (lines ! k - b ! ((i + k) div 2 ^ g))) [0..<length lines]))"
  using assms
proof (induction lines arbitrary: i l ss)
  case (Cons x lines)
  have h: "i div 2 ^ g < length b" "0 \<le> x - b ! (i div 2 ^ g)" "x - b ! (i div 2 ^ g) \<le> 255"
    using Cons.prems [rule_format, of 0] by auto
  then have w: "wrap_i32 (x - b ! (i div 2 ^ g)) = x - b ! (i div 2 ^ g)"
    by (intro wrap_i32_small) linarith+
  have t: "\<forall>k < length lines. (i + 1 + k) div 2 ^ g < length b \<and>
    0 \<le> lines ! k - b ! ((i + 1 + k) div 2 ^ g) \<and> lines ! k - b ! ((i + 1 + k) div 2 ^ g) \<le> 255"
    using Cons.prems by (auto dest: spec [of _ "Suc _"])
  show ?case
    using Cons.IH [OF t] h w
    by (simp add: write_byte_def map_upt_Suc del: upt_Suc)
qed simp

lemma write_baselines_eq: "write_baselines l bs ss = ss @ delta_ints l bs"
  by (induction l bs ss rule: write_baselines.induct) (simp_all add: write_int_def)

lemma read_abslines_at:
  assumes "\<forall>b \<in> set bs. 0 \<le> b \<and> b < 2 ^ 31" and "0 \<le> l" and "l < 2 ^ 31"
    and "bytes_at data off (delta_ints l bs)"
  shows "read_abslines (length bs) l data off = Some (bs, off + length (delta_ints l bs))"
  using assms
proof (induction l bs arbitrary: off rule: delta_ints.induct)
  case (2 l d ds)
  let ?w = "word_of_int (d - l) :: u32"
  have "bytes_at data off (le_bytes 4 (unat ?w))" using 2(5) by (simp add: bytes_at_append)
  then have rd: "read_u32 data off = Some (?w, off + 4)" using u32c.dec_enc [of data off ?w] by simp
  have "sint ?w = d - l" unfolding sint_word_of_int_u32 using 2(2-4) by (intro wrap_i32_small) auto
  moreover have "wrap_i32 d = d" using 2(2) by (intro wrap_i32_small) auto
  ultimately show ?case using 2 rd by (simp add: bytes_at_append)
qed simp


section \<open>Properties\<close>

definition line_table :: "int list \<Rightarrow> nat \<Rightarrow> int list \<Rightarrow> bytes" where
  "line_table lines k b = [word_of_nat k] @
     delta_bytes 0 (map (\<lambda>i. word_of_int (lines ! i - b ! (i div 2 ^ k))) [0..<length lines]) @
     delta_ints 0 b"

lemma write_line_info_correct:
  assumes "lines \<noteq> []" and "good_lines lines"
  shows "\<exists>b k. (\<forall>ss. write_line_info lines ss = Some (ss @ line_table lines k b)) \<and> k \<le> 24 \<and>
    length b = (length lines - 1) div 2 ^ k + 1 \<and> good_lines b \<and>
    (\<forall>i < length lines. i div 2 ^ k < length b \<and> 0 \<le> lines ! i - b ! (i div 2 ^ k) \<and>
      lines ! i - b ! (i div 2 ^ k) \<le> 255)"
proof -
  obtain k where k: "k \<le> 24" "span_loop lines 0 (2 ^ 24) = Some (2 ^ k)"
    "flat_below lines (2 ^ k) (length lines)"
    using span_loop_correct [OF assms(2), of 24 0] by (auto simp: flat_below_def)
  let ?n = "(length lines - 1) div 2 ^ k + 1"
  obtain b where b: "baseline_loop lines (2 ^ k) 0 (replicate ?n 0) = Some b" "length b = ?n"
    "\<And>j. j < ?n \<Longrightarrow> window_min lines (2 ^ k) j (b ! j)"
    using baseline_loop_correct [of "2 ^ k" "replicate ?n 0" lines 0] assms(1) by auto
  have g: "good_lines b"
    unfolding good_lines_def
  proof
    fix x assume "x \<in> set b"
    then obtain j where j: "j < length b" "x = b ! j" by (auto simp: in_set_conv_nth)
    then obtain i where "i < length lines" "x = lines ! i" using b(2,3) by (auto simp: window_min_def)
    then show "0 \<le> x \<and> x < 2 ^ 31" using good_lines_nth [OF assms(2)] by blast
  qed
  have r: "i div 2 ^ k < length b \<and> 0 \<le> lines ! i - b ! (i div 2 ^ k) \<and>
      lines ! i - b ! (i div 2 ^ k) \<le> 255" if i: "i < length lines" for i
  proof -
    have j: "i div 2 ^ k < length b" using i b(2) by (simp add: less_Suc_eq_le div_le_mono)
    then have wm: "window_min lines (2 ^ k) (i div 2 ^ k) (b ! (i div 2 ^ k))" using b(2,3) by simp
    then obtain m where m: "m < length lines" "m div 2 ^ k = i div 2 ^ k" "b ! (i div 2 ^ k) = lines ! m"
      unfolding window_min_def by blast
    have "lines ! i - lines ! m \<le> 255" using k(3) m i by (simp add: flat_below_def)
    then show ?thesis using j wm i m(3) by (simp add: window_min_def)
  qed
  have "log2 (int (2 ^ k)) = Some k" using log2_pow [of k] k(1) by simp
  then have "write_line_info lines ss = Some (ss @ line_table lines k b)" for ss
    using assms(1) k(2) b(1) write_offsets_eq [of lines 0 k b 0] r
    by (simp add: write_line_info_def write_baselines_eq write_byte_def line_table_def)
  then show ?thesis using k(1) b(2) g r by blast
qed

text \<open>The bytes appended do not depend on what is in the buffer, and load wherever they stand.\<close>

lemma line_table_correct:
  assumes "lines \<noteq> []" and "good_lines lines"
  shows "\<exists>t li. (\<forall>ss. write_line_info lines ss = Some (ss @ t)) \<and>
    (\<forall>data off. bytes_at data off t \<longrightarrow> load_line_info (length lines) data off = Some (li, off + length t)) \<and>
    (\<forall>pc < length lines. luaG_getline (length lines) (Some li) pc = Some (lines ! pc))"
proof -
  obtain b k where w: "\<forall>ss. write_line_info lines ss = Some (ss @ line_table lines k b)"
    and k: "k \<le> 24" and lb: "length b = (length lines - 1) div 2 ^ k + 1" and gb: "good_lines b"
    and r: "\<forall>i < length lines. i div 2 ^ k < length b \<and> 0 \<le> lines ! i - b ! (i div 2 ^ k) \<and>
      lines ! i - b ! (i div 2 ^ k) \<le> 255"
    using write_line_info_correct [OF assms] by blast
  let ?ds = "map (\<lambda>i. word_of_int (lines ! i - b ! (i div 2 ^ k))) [0..<length lines] :: u8 list"
  let ?li = "\<lparr>li_linegaplog2 = k, li_lineinfo = ?ds, li_abslineinfo = b\<rparr>"
  have uk: "unat (word_of_nat k :: u8) = k" using k by (simp add: unat_of_nat)
  have iv: "nat ((int (length lines) - 1) div 2 ^ k + 1) = length b"
  proof -
    obtain n where n: "length lines = Suc n" using assms(1) by (cases lines) auto
    have "int n div 2 ^ k = int (n div 2 ^ k)" by (simp add: zdiv_int)
    then show ?thesis unfolding lb n by simp
  qed
  have "load_line_info (length lines) data off = Some (?li, off + length (line_table lines k b))"
    if "bytes_at data off (line_table lines k b)" for data off
  proof -
    have at: "bytes_at data off ([word_of_nat k] @ delta_bytes 0 ?ds @ delta_ints 0 b)"
      using that by (simp add: line_table_def)
    have u: "read_u8 data off = Some (word_of_nat k, off + 1)"
      using at u8c.dec_enc [of data off "word_of_nat k"] by (simp only: bytes_at_append) simp
    have ro: "read_offsets (length lines) 0 data (off + 1) = Some (?ds, off + 1 + length lines)"
      using read_offsets_at [of data "off + 1" 0 ?ds] at
      by (simp only: bytes_at_append) simp
    have ra: "read_abslines (length b) 0 data (off + 1 + length lines)
        = Some (b, off + 1 + length lines + length (delta_ints 0 b))"
      using read_abslines_at [of b 0 data "off + 1 + length lines"] at gb
      by (simp only: bytes_at_append) (simp add: good_lines_def)
    show ?thesis
      using u ro ra k by (simp add: load_line_info_def uk iv Let_def line_table_def)
  qed
  moreover have "luaG_getline (length lines) (Some ?li) pc = Some (lines ! pc)"
    if pc: "pc < length lines" for pc
  proof -
    have "int (unat (word_of_int (lines ! pc - b ! (pc div 2 ^ k)) :: u8)) = lines ! pc - b ! (pc div 2 ^ k)"
      using r pc by (intro unat_word_of_int_u8) auto
    then show ?thesis
      using pc r [rule_format, OF pc] good_lines_nth [OF assms(2) pc]
      by (simp add: luaG_getline_def wrap_i32_small)
  qed
  ultimately show ?thesis using w by blast
qed

text \<open>C17: whatever lines the instructions of a function have (they are non-negative 32-bit
  numbers), \<open>write_line_info\<close> returns, its search for a span ends and every offset fits a byte; the
  loader, at the place where the table starts, reads it back to its end, and \<open>luaG_getline\<close> on the
  loaded table gives for each instruction the line that was written.\<close>

theorem line_info_roundtrip:
  assumes "lines \<noteq> []" and "good_lines lines"
  shows "\<exists>ss' li. write_line_info lines ss = Some ss' \<and>
    load_line_info (length lines) (ss' @ post) (length ss) = Some (li, length ss') \<and>
    (\<forall>pc < length lines. luaG_getline (length lines) (Some li) pc = Some (lines ! pc))"
proof -
  obtain t li where t: "\<forall>ss. write_line_info lines ss = Some (ss @ t)"
    "\<forall>data off. bytes_at data off t \<longrightarrow> load_line_info (length lines) data off = Some (li, off + length t)"
    "\<forall>pc < length lines. luaG_getline (length lines) (Some li) pc = Some (lines ! pc)"
    using line_table_correct [OF assms] by blast
  then show ?thesis using bytes_at_self [of ss t post] by (intro exI [of _ "ss @ t"] exI [of _ li]) simp
qed

theorem line_info_roundtrip_witness:
  "\<exists>ss' li. write_line_info [5, 5, 700, 6] [] = Some ss' \<and>
    load_line_info 4 (ss' @ [9]) 0 = Some (li, length ss') \<and> luaG_getline 4 (Some li) 2 = Some 700"
proof -
  have l: "length [5, 5, 700, 6 :: int] = 4" by simp
  have g: "good_lines [5, 5, 700, 6]" by (simp add: good_lines_def)
  obtain ss' li where w: "write_line_info [5, 5, 700, 6] [] = Some ss'"
    "load_line_info 4 (ss' @ [9]) 0 = Some (li, length ss')"
    "\<forall>pc < 4. luaG_getline 4 (Some li) pc = Some ([5, 5, 700, 6] ! pc)"
    using line_info_roundtrip [OF _ g, of "[]" "[9]", unfolded l] by auto
  have "luaG_getline 4 (Some li) 2 = Some 700" using w(3) [rule_format, of 2] by simp
  then show ?thesis using w by blast
qed

end
