(* ===== verification/Opcode.thy ===== *)
theory Opcode
  imports Luau_Prelude
begin

text \<open>
  The instruction set and the packing of instruction words: \<open>luaur-common/src/enums/luau_opcode.rs\<close>,
  the \<open>LUAU_INSN_*\<close> field readers of \<open>luaur-common/src/macros\<close>, and the opcode classifications
  of \<open>luaur-common/src/functions\<close> (\<open>getOpLength\<close>, \<open>isJumpD\<close>, \<open>getJumpTarget\<close>, ...).
  An instruction is a 32-bit word; \<open>LuauOpcode\<close> is a \<open>repr(u8)\<close> enum and is modelled as its
  discriminant. Reading a byte that is no discriminant as an opcode is undefined behaviour and
  gives \<open>None\<close>.
\<close>

section \<open>Opcodes\<close>

type_synonym LuauOpcode = u8

abbreviation LOP_NOP :: LuauOpcode where "LOP_NOP \<equiv> 0"
abbreviation LOP_BREAK :: LuauOpcode where "LOP_BREAK \<equiv> 1"
abbreviation LOP_LOADNIL :: LuauOpcode where "LOP_LOADNIL \<equiv> 2"
abbreviation LOP_LOADB :: LuauOpcode where "LOP_LOADB \<equiv> 3"
abbreviation LOP_LOADN :: LuauOpcode where "LOP_LOADN \<equiv> 4"
abbreviation LOP_LOADK :: LuauOpcode where "LOP_LOADK \<equiv> 5"
abbreviation LOP_MOVE :: LuauOpcode where "LOP_MOVE \<equiv> 6"
abbreviation LOP_GETGLOBAL :: LuauOpcode where "LOP_GETGLOBAL \<equiv> 7"
abbreviation LOP_SETGLOBAL :: LuauOpcode where "LOP_SETGLOBAL \<equiv> 8"
abbreviation LOP_GETUPVAL :: LuauOpcode where "LOP_GETUPVAL \<equiv> 9"
abbreviation LOP_SETUPVAL :: LuauOpcode where "LOP_SETUPVAL \<equiv> 10"
abbreviation LOP_CLOSEUPVALS :: LuauOpcode where "LOP_CLOSEUPVALS \<equiv> 11"
abbreviation LOP_GETIMPORT :: LuauOpcode where "LOP_GETIMPORT \<equiv> 12"
abbreviation LOP_GETTABLE :: LuauOpcode where "LOP_GETTABLE \<equiv> 13"
abbreviation LOP_SETTABLE :: LuauOpcode where "LOP_SETTABLE \<equiv> 14"
abbreviation LOP_GETTABLEKS :: LuauOpcode where "LOP_GETTABLEKS \<equiv> 15"
abbreviation LOP_SETTABLEKS :: LuauOpcode where "LOP_SETTABLEKS \<equiv> 16"
abbreviation LOP_GETTABLEN :: LuauOpcode where "LOP_GETTABLEN \<equiv> 17"
abbreviation LOP_SETTABLEN :: LuauOpcode where "LOP_SETTABLEN \<equiv> 18"
abbreviation LOP_NEWCLOSURE :: LuauOpcode where "LOP_NEWCLOSURE \<equiv> 19"
abbreviation LOP_NAMECALL :: LuauOpcode where "LOP_NAMECALL \<equiv> 20"
abbreviation LOP_CALL :: LuauOpcode where "LOP_CALL \<equiv> 21"
abbreviation LOP_RETURN :: LuauOpcode where "LOP_RETURN \<equiv> 22"
abbreviation LOP_JUMP :: LuauOpcode where "LOP_JUMP \<equiv> 23"
abbreviation LOP_JUMPBACK :: LuauOpcode where "LOP_JUMPBACK \<equiv> 24"
abbreviation LOP_JUMPIF :: LuauOpcode where "LOP_JUMPIF \<equiv> 25"
abbreviation LOP_JUMPIFNOT :: LuauOpcode where "LOP_JUMPIFNOT \<equiv> 26"
abbreviation LOP_JUMPIFEQ :: LuauOpcode where "LOP_JUMPIFEQ \<equiv> 27"
abbreviation LOP_JUMPIFLE :: LuauOpcode where "LOP_JUMPIFLE \<equiv> 28"
abbreviation LOP_JUMPIFLT :: LuauOpcode where "LOP_JUMPIFLT \<equiv> 29"
abbreviation LOP_JUMPIFNOTEQ :: LuauOpcode where "LOP_JUMPIFNOTEQ \<equiv> 30"
abbreviation LOP_JUMPIFNOTLE :: LuauOpcode where "LOP_JUMPIFNOTLE \<equiv> 31"
abbreviation LOP_JUMPIFNOTLT :: LuauOpcode where "LOP_JUMPIFNOTLT \<equiv> 32"
abbreviation LOP_ADD :: LuauOpcode where "LOP_ADD \<equiv> 33"
abbreviation LOP_SUB :: LuauOpcode where "LOP_SUB \<equiv> 34"
abbreviation LOP_MUL :: LuauOpcode where "LOP_MUL \<equiv> 35"
abbreviation LOP_DIV :: LuauOpcode where "LOP_DIV \<equiv> 36"
abbreviation LOP_MOD :: LuauOpcode where "LOP_MOD \<equiv> 37"
abbreviation LOP_POW :: LuauOpcode where "LOP_POW \<equiv> 38"
abbreviation LOP_ADDK :: LuauOpcode where "LOP_ADDK \<equiv> 39"
abbreviation LOP_SUBK :: LuauOpcode where "LOP_SUBK \<equiv> 40"
abbreviation LOP_MULK :: LuauOpcode where "LOP_MULK \<equiv> 41"
abbreviation LOP_DIVK :: LuauOpcode where "LOP_DIVK \<equiv> 42"
abbreviation LOP_MODK :: LuauOpcode where "LOP_MODK \<equiv> 43"
abbreviation LOP_POWK :: LuauOpcode where "LOP_POWK \<equiv> 44"
abbreviation LOP_AND :: LuauOpcode where "LOP_AND \<equiv> 45"
abbreviation LOP_OR :: LuauOpcode where "LOP_OR \<equiv> 46"
abbreviation LOP_ANDK :: LuauOpcode where "LOP_ANDK \<equiv> 47"
abbreviation LOP_ORK :: LuauOpcode where "LOP_ORK \<equiv> 48"
abbreviation LOP_CONCAT :: LuauOpcode where "LOP_CONCAT \<equiv> 49"
abbreviation LOP_NOT :: LuauOpcode where "LOP_NOT \<equiv> 50"
abbreviation LOP_MINUS :: LuauOpcode where "LOP_MINUS \<equiv> 51"
abbreviation LOP_LENGTH :: LuauOpcode where "LOP_LENGTH \<equiv> 52"
abbreviation LOP_NEWTABLE :: LuauOpcode where "LOP_NEWTABLE \<equiv> 53"
abbreviation LOP_DUPTABLE :: LuauOpcode where "LOP_DUPTABLE \<equiv> 54"
abbreviation LOP_SETLIST :: LuauOpcode where "LOP_SETLIST \<equiv> 55"
abbreviation LOP_FORNPREP :: LuauOpcode where "LOP_FORNPREP \<equiv> 56"
abbreviation LOP_FORNLOOP :: LuauOpcode where "LOP_FORNLOOP \<equiv> 57"
abbreviation LOP_FORGLOOP :: LuauOpcode where "LOP_FORGLOOP \<equiv> 58"
abbreviation LOP_FORGPREP_INEXT :: LuauOpcode where "LOP_FORGPREP_INEXT \<equiv> 59"
abbreviation LOP_FASTCALL3 :: LuauOpcode where "LOP_FASTCALL3 \<equiv> 60"
abbreviation LOP_FORGPREP_NEXT :: LuauOpcode where "LOP_FORGPREP_NEXT \<equiv> 61"
abbreviation LOP_NATIVECALL :: LuauOpcode where "LOP_NATIVECALL \<equiv> 62"
abbreviation LOP_GETVARARGS :: LuauOpcode where "LOP_GETVARARGS \<equiv> 63"
abbreviation LOP_DUPCLOSURE :: LuauOpcode where "LOP_DUPCLOSURE \<equiv> 64"
abbreviation LOP_PREPVARARGS :: LuauOpcode where "LOP_PREPVARARGS \<equiv> 65"
abbreviation LOP_LOADKX :: LuauOpcode where "LOP_LOADKX \<equiv> 66"
abbreviation LOP_JUMPX :: LuauOpcode where "LOP_JUMPX \<equiv> 67"
abbreviation LOP_FASTCALL :: LuauOpcode where "LOP_FASTCALL \<equiv> 68"
abbreviation LOP_COVERAGE :: LuauOpcode where "LOP_COVERAGE \<equiv> 69"
abbreviation LOP_CAPTURE :: LuauOpcode where "LOP_CAPTURE \<equiv> 70"
abbreviation LOP_SUBRK :: LuauOpcode where "LOP_SUBRK \<equiv> 71"
abbreviation LOP_DIVRK :: LuauOpcode where "LOP_DIVRK \<equiv> 72"
abbreviation LOP_FASTCALL1 :: LuauOpcode where "LOP_FASTCALL1 \<equiv> 73"
abbreviation LOP_FASTCALL2 :: LuauOpcode where "LOP_FASTCALL2 \<equiv> 74"
abbreviation LOP_FASTCALL2K :: LuauOpcode where "LOP_FASTCALL2K \<equiv> 75"
abbreviation LOP_FORGPREP :: LuauOpcode where "LOP_FORGPREP \<equiv> 76"
abbreviation LOP_JUMPXEQKNIL :: LuauOpcode where "LOP_JUMPXEQKNIL \<equiv> 77"
abbreviation LOP_JUMPXEQKB :: LuauOpcode where "LOP_JUMPXEQKB \<equiv> 78"
abbreviation LOP_JUMPXEQKN :: LuauOpcode where "LOP_JUMPXEQKN \<equiv> 79"
abbreviation LOP_JUMPXEQKS :: LuauOpcode where "LOP_JUMPXEQKS \<equiv> 80"
abbreviation LOP_IDIV :: LuauOpcode where "LOP_IDIV \<equiv> 81"
abbreviation LOP_IDIVK :: LuauOpcode where "LOP_IDIVK \<equiv> 82"
abbreviation LOP_GETUDATAKS :: LuauOpcode where "LOP_GETUDATAKS \<equiv> 83"
abbreviation LOP_SETUDATAKS :: LuauOpcode where "LOP_SETUDATAKS \<equiv> 84"
abbreviation LOP_NAMECALLUDATA :: LuauOpcode where "LOP_NAMECALLUDATA \<equiv> 85"
abbreviation LOP_NEWCLASSMEMBER :: LuauOpcode where "LOP_NEWCLASSMEMBER \<equiv> 86"
abbreviation LOP_CALLFB :: LuauOpcode where "LOP_CALLFB \<equiv> 87"
abbreviation LOP_CMPPROTO :: LuauOpcode where "LOP_CMPPROTO \<equiv> 88"
abbreviation LOP__COUNT :: LuauOpcode where "LOP__COUNT \<equiv> 89"

definition LuauOpcode_from :: "u8 \<Rightarrow> LuauOpcode option" where
  "LuauOpcode_from v = (if v < LOP__COUNT then Some v else None)"

definition getOpLength :: "LuauOpcode \<Rightarrow> nat" where
  "getOpLength op = (if op \<in>
      {LOP_GETGLOBAL, LOP_SETGLOBAL, LOP_GETIMPORT, LOP_GETTABLEKS, LOP_SETTABLEKS, LOP_NAMECALL,
       LOP_JUMPIFEQ, LOP_JUMPIFLE, LOP_JUMPIFLT, LOP_JUMPIFNOTEQ, LOP_JUMPIFNOTLE,
       LOP_JUMPIFNOTLT, LOP_NEWTABLE, LOP_SETLIST, LOP_FORGLOOP, LOP_LOADKX, LOP_FASTCALL2,
       LOP_FASTCALL2K, LOP_FASTCALL3, LOP_JUMPXEQKNIL, LOP_JUMPXEQKB, LOP_JUMPXEQKN,
       LOP_JUMPXEQKS, LOP_GETUDATAKS, LOP_SETUDATAKS, LOP_NAMECALLUDATA, LOP_NEWCLASSMEMBER,
       LOP_CALLFB, LOP_CMPPROTO}
      then 2 else 1)"

definition isJumpD :: "LuauOpcode \<Rightarrow> bool" where
  "isJumpD op = (if op \<in>
      {LOP_JUMP, LOP_JUMPIF, LOP_JUMPIFNOT, LOP_JUMPIFEQ, LOP_JUMPIFLE, LOP_JUMPIFLT,
       LOP_JUMPIFNOTEQ, LOP_JUMPIFNOTLE, LOP_JUMPIFNOTLT, LOP_FORNPREP, LOP_FORNLOOP,
       LOP_FORGPREP, LOP_FORGLOOP, LOP_FORGPREP_INEXT, LOP_FORGPREP_NEXT, LOP_JUMPBACK,
       LOP_JUMPXEQKNIL, LOP_JUMPXEQKB, LOP_JUMPXEQKN, LOP_JUMPXEQKS, LOP_CMPPROTO}
      then True else False)"

definition isSkipC :: "LuauOpcode \<Rightarrow> bool" where
  "isSkipC op = (if op \<in>
      {LOP_LOADB}
      then True else False)"

definition isFastCall :: "LuauOpcode \<Rightarrow> bool" where
  "isFastCall op = (if op \<in>
      {LOP_FASTCALL, LOP_FASTCALL1, LOP_FASTCALL2, LOP_FASTCALL2K, LOP_FASTCALL3}
      then True else False)"

definition isFallthrough :: "LuauOpcode \<Rightarrow> bool" where
  "isFallthrough op = (if op \<in>
      {LOP_RETURN, LOP_JUMP, LOP_JUMPBACK, LOP_JUMPX}
      then False else True)"

definition isLoopJump :: "LuauOpcode \<Rightarrow> bool" where
  "isLoopJump op = (if op \<in>
      {LOP_JUMPBACK, LOP_FORGLOOP, LOP_FORNLOOP}
      then True else False)"

section \<open>Instruction words\<close>

definition LUAU_INSN_OP :: "u32 \<Rightarrow> u32" where
  "LUAU_INSN_OP insn = insn AND 0xff"

definition LUAU_INSN_A :: "u32 \<Rightarrow> u32" where
  "LUAU_INSN_A insn = drop_bit 8 insn AND 0xff"

definition LUAU_INSN_B :: "u32 \<Rightarrow> u32" where
  "LUAU_INSN_B insn = drop_bit 16 insn AND 0xff"

definition LUAU_INSN_C :: "u32 \<Rightarrow> u32" where
  "LUAU_INSN_C insn = drop_bit 24 insn AND 0xff"

text \<open>\<open>(insn as i32) >> n\<close>: the shift of a signed value rounds towards minus infinity.\<close>

definition LUAU_INSN_D :: "u32 \<Rightarrow> int" where
  "LUAU_INSN_D insn = sint insn div 2 ^ 16"

definition LUAU_INSN_E :: "u32 \<Rightarrow> int" where
  "LUAU_INSN_E insn = sint insn div 2 ^ 8"

definition LUAU_INSN_AUX_A :: "u32 \<Rightarrow> u32" where
  "LUAU_INSN_AUX_A aux = aux AND 0xff"

definition LUAU_INSN_AUX_B :: "u32 \<Rightarrow> u32" where
  "LUAU_INSN_AUX_B aux = drop_bit 8 aux AND 0xff"

definition LUAU_INSN_AUX_KB :: "u32 \<Rightarrow> u32" where
  "LUAU_INSN_AUX_KB aux = aux AND 1"

definition LUAU_INSN_AUX_KV :: "u32 \<Rightarrow> u32" where
  "LUAU_INSN_AUX_KV aux = aux AND 0xffffff"

definition LUAU_INSN_AUX_KV16 :: "u32 \<Rightarrow> u32" where
  "LUAU_INSN_AUX_KV16 aux = aux AND 0xffff"

definition LUAU_INSN_AUX_NOT :: "u32 \<Rightarrow> u32" where
  "LUAU_INSN_AUX_NOT aux = drop_bit 31 aux"

text \<open>The opcode of an instruction as the callers read it, \<open>transmute(LUAU_INSN_OP(insn) as u8)\<close>.\<close>

definition insn_op :: "u32 \<Rightarrow> LuauOpcode" where
  "insn_op insn = ucast (LUAU_INSN_OP insn)"

text \<open>The words that \<open>emit_abc\<close>, \<open>emit_ad\<close> and \<open>emit_e\<close> push.\<close>

definition insn_abc :: "LuauOpcode \<Rightarrow> u8 \<Rightarrow> u8 \<Rightarrow> u8 \<Rightarrow> u32" where
  "insn_abc op a b c =
     ucast op OR push_bit 8 (ucast a) OR push_bit 16 (ucast b) OR push_bit 24 (ucast c)"

definition insn_ad :: "LuauOpcode \<Rightarrow> u8 \<Rightarrow> u16 \<Rightarrow> u32" where
  "insn_ad op a d = ucast op OR push_bit 8 (ucast a) OR push_bit 16 (ucast d)"

definition insn_e :: "LuauOpcode \<Rightarrow> u32 \<Rightarrow> u32" where
  "insn_e op e = ucast op OR push_bit 8 e"

definition getJumpTarget :: "u32 \<Rightarrow> u32 \<Rightarrow> int" where
  "getJumpTarget insn pc =
     (let op = insn_op insn in
      if op \<ge> LOP__COUNT then -1
      else if isJumpD op then wrap_i32 (sint pc + LUAU_INSN_D insn + 1)
      else if isFastCall op then wrap_i32 (sint pc + sint (LUAU_INSN_C insn) + 2)
      else if isSkipC op \<and> LUAU_INSN_C insn \<noteq> 0 then wrap_i32 (sint pc + sint (LUAU_INSN_C insn) + 1)
      else if op = LOP_JUMPX then wrap_i32 (sint pc + LUAU_INSN_E insn + 1)
      else -1)"

section \<open>Fields of packed words\<close>

lemma mask8_u32: "(0xff :: u32) = mask 8"
  by (simp add: mask_eq_exp_minus_1)

lemma field_insn_op: "LUAU_INSN_OP insn = ucast (insn_op insn)"
  unfolding insn_op_def LUAU_INSN_OP_def mask8_u32
  by (rule bit_word_eqI) (auto simp: bit_simps)

lemma insn_op_eq: "insn_op insn = ucast insn"
  unfolding insn_op_def LUAU_INSN_OP_def mask8_u32
  by (rule bit_word_eqI) (auto simp: bit_simps)

lemma LUAU_INSN_D_eq: "LUAU_INSN_D insn = sint (ucast (drop_bit 16 insn) :: u16)"
proof -
  have "LUAU_INSN_D insn = drop_bit 16 (sint insn)"
    by (simp add: LUAU_INSN_D_def drop_bit_eq_div)
  also have "\<dots> = sint (ucast (drop_bit 16 insn) :: u16)"
    by (rule bit_eqI) (auto simp: bit_simps min_def split: if_splits)
  finally show ?thesis .
qed

lemma LUAU_INSN_D_range: "- (2 ^ 15) \<le> LUAU_INSN_D insn" "LUAU_INSN_D insn < 2 ^ 15"
  using sint_ge [of "ucast (drop_bit 16 insn) :: u16"] sint_lt [of "ucast (drop_bit 16 insn) :: u16"]
  by (simp_all add: LUAU_INSN_D_eq)

lemma LUAU_INSN_E_range: "- (2 ^ 23) \<le> LUAU_INSN_E insn" "LUAU_INSN_E insn < 2 ^ 23"
  using sint_ge [of insn] sint_lt [of insn] by (simp_all add: LUAU_INSN_E_def) 

lemma insn_abc_fields [word_fields]:
  "insn_op (insn_abc op a b c) = op"
  "LUAU_INSN_A (insn_abc op a b c) = ucast a"
  "LUAU_INSN_B (insn_abc op a b c) = ucast b"
  "LUAU_INSN_C (insn_abc op a b c) = ucast c"
  unfolding insn_op_eq LUAU_INSN_A_def LUAU_INSN_B_def LUAU_INSN_C_def insn_abc_def mask8_u32
  by (rule bit_word_eqI; auto simp: bit_simps dest: bit_less)+

lemma insn_ad_fields [word_fields]:
  "insn_op (insn_ad op a d) = op"
  "LUAU_INSN_A (insn_ad op a d) = ucast a"
  "LUAU_INSN_D (insn_ad op a d) = sint d"
proof -
  have "ucast (drop_bit 16 (insn_ad op a d)) = d"
    unfolding insn_ad_def by (rule bit_word_eqI) (auto simp: bit_simps dest: bit_less)
  then show "LUAU_INSN_D (insn_ad op a d) = sint d" by (simp add: LUAU_INSN_D_eq)
  show "insn_op (insn_ad op a d) = op" "LUAU_INSN_A (insn_ad op a d) = ucast a"
    unfolding insn_op_eq LUAU_INSN_A_def insn_ad_def mask8_u32
    by (rule bit_word_eqI; auto simp: bit_simps dest: bit_less)+
qed

lemma LUAU_INSN_E_eq: "LUAU_INSN_E insn = signed_take_bit 23 (sint (drop_bit 8 insn))"
proof -
  have "LUAU_INSN_E insn = drop_bit 8 (sint insn)"
    by (simp add: LUAU_INSN_E_def drop_bit_eq_div)
  also have "\<dots> = signed_take_bit 23 (sint (drop_bit 8 insn))"
    by (rule bit_eqI) (auto simp: bit_simps min_def split: if_splits)
  finally show ?thesis .
qed

lemma insn_e_fields [word_fields]:
  "insn_op (insn_e op e) = op"
  "- (2 ^ 23) \<le> sint e \<Longrightarrow> sint e < 2 ^ 23 \<Longrightarrow> LUAU_INSN_E (insn_e op e) = sint e"
proof -
  show "insn_op (insn_e op e) = op"
    unfolding insn_op_eq insn_e_def by (rule bit_word_eqI) (auto simp: bit_simps)
  assume r: "- (2 ^ 23) \<le> sint e" "sint e < 2 ^ 23"
  have "LUAU_INSN_E (insn_e op e) = signed_take_bit 23 (sint e)"
    unfolding LUAU_INSN_E_eq insn_e_def
    by (rule bit_eqI) (auto simp: bit_simps min_def dest: bit_less)
  also have "\<dots> = sint e"
    using r by (simp add: signed_take_bit_int_eq_self)
  finally show "LUAU_INSN_E (insn_e op e) = sint e" .
qed

section \<open>Instruction starts\<close>

text \<open>Where instructions start in a sequence of words: \<open>getOpLength\<close>, which is at least 1, is how every
  pass over code advances.\<close>

lemma getOpLength_pos: "getOpLength op \<ge> 1"
  by (simp add: getOpLength_def)

primrec nth_start :: "u32 list \<Rightarrow> nat \<Rightarrow> nat" where
  "nth_start insns 0 = 0"
| "nth_start insns (Suc n) = nth_start insns n + getOpLength (insn_op (insns ! nth_start insns n))"

definition instr_start :: "u32 list \<Rightarrow> nat \<Rightarrow> bool" where
  "instr_start insns i \<longleftrightarrow> (\<exists>n. i = nth_start insns n)"

text \<open>Known opcodes, and no instruction cut off at the end.\<close>

definition wf_code :: "u32 list \<Rightarrow> bool" where
  "wf_code insns \<longleftrightarrow> (\<forall>i. instr_start insns i \<longrightarrow> i < length insns \<longrightarrow>
     insn_op (insns ! i) < LOP__COUNT \<and> i + getOpLength (insn_op (insns ! i)) \<le> length insns)"

lemma nth_start_mono: "n \<le> m \<Longrightarrow> nth_start insns n \<le> nth_start insns m"
  by (induction m) (auto simp: le_Suc_eq)

lemma instr_start_0 [simp]: "instr_start insns 0"
  unfolding instr_start_def by (rule exI [of _ 0]) simp

lemma instr_start_next:
  "instr_start insns i \<Longrightarrow> instr_start insns (i + getOpLength (insn_op (insns ! i)))"
  unfolding instr_start_def by (metis nth_start.simps(2))

lemma no_start_inside:
  assumes "instr_start insns i" and "instr_start insns k" and "i < k"
  shows "i + getOpLength (insn_op (insns ! i)) \<le> k"
proof -
  obtain n m where nm: "i = nth_start insns n" "k = nth_start insns m"
    using assms(1,2) by (auto simp: instr_start_def)
  then have "\<not> m \<le> n" using nth_start_mono [of m n insns] assms(3) by auto
  then have "nth_start insns (Suc n) \<le> k" using nm(2) nth_start_mono [of "Suc n" m insns] by simp
  then show ?thesis using nm(1) by simp
qed

end
