(* ===== verification/Bytecode_Builder.thy ===== *)
theory Bytecode_Builder
  imports Opcode Dense_Hash
begin

text \<open>
  \<open>BytecodeBuilder\<close> (\<open>luaur-bytecode/src/records/bytecode_builder.rs\<close> and the files
  \<open>luaur-bytecode/src/methods/bytecode_builder_*.rs\<close>): emitting and patching instructions,
  numbering constants, strings, child functions, table and class shapes, and recording debug and
  type information. Operations take the builder and return the result with the new builder, or
  \<open>None\<close> where an assertion or an index fails.

  A \<open>StringRef\<close> is \<open>None\<close> for the null pointer and the bytes it points to otherwise, which is what
  its \<open>PartialEq\<close> compares; \<open>f32\<close> and \<open>f64\<close> are bit patterns. The text dump of a function
  (\<open>dump_*\<close>, remarks) is not part of the state.
\<close>

section \<open>Data\<close>

datatype constant_type = Type_Nil | Type_Boolean | Type_Number | Type_Integer | Type_Vector
  | Type_String | Type_Import | Type_Table | Type_Closure | Type_ClassShape

text \<open>\<open>Constant\<close>: the tag and the member of the union it selects.\<close>

datatype bconstant = ConstNil | ConstBoolean bool | ConstNumber u64 | ConstInteger u64
  | ConstVector u32 u32 u32 u32 | ConstString u32 | ConstImport u32 | ConstTable u32
  | ConstClosure u32 | ConstClassShape u32

datatype constant_key = ConstantKey (ck_type: constant_type) (ck_value: u64) (ck_extra: u64)

type_synonym string_ref = "bytes option"

record table_shape =
  ts_keys :: "int list"
  ts_constants :: "int list"
  ts_length :: u32
  ts_hasConstants :: bool

definition table_shape_default :: table_shape where
  "table_shape_default = \<lparr>ts_keys = replicate 32 0, ts_constants = replicate 32 (-1), ts_length = 0,
     ts_hasConstants = False\<rparr>"

record class_shape =
  cs_className :: int
  cs_propertyNames :: "int list"
  cs_methodNames :: "int list"

record bfunction =
  fn_data :: bytes
  fn_maxstacksize :: u8
  fn_numparams :: u8
  fn_numupvalues :: u8
  fn_isvararg :: bool
  fn_debugname :: u32
  fn_debuglinedefined :: int
  fn_typeinfo :: bytes

definition bfunction_default :: bfunction where
  "bfunction_default = \<lparr>fn_data = [], fn_maxstacksize = 0, fn_numparams = 0, fn_numupvalues = 0,
     fn_isvararg = False, fn_debugname = 0, fn_debuglinedefined = 0, fn_typeinfo = []\<rparr>"

record jump =
  jump_source :: u32
  jump_target :: u32

record debug_local =
  dl_name :: u32
  dl_reg :: u8
  dl_startpc :: u32
  dl_endpc :: u32

record typed_local =
  tl_type :: u16
  tl_reg :: u8
  tl_startpc :: u32
  tl_endpc :: u32

record userdata_type =
  ut_name :: bytes
  ut_nameRef :: u32
  ut_used :: bool

record bytecode_builder =
  bb_functions :: "bfunction list"
  bb_current_function :: u32
  bb_main_function :: u32
  bb_total_instruction_count :: nat
  bb_insns :: "u32 list"
  bb_lines :: "int list"
  bb_constants :: "bconstant list"
  bb_protos :: "u32 list"
  bb_jumps :: "jump list"
  bb_table_shapes :: "table_shape list"
  bb_class_shapes :: "class_shape list"
  bb_fb_slots :: "u32 list"
  bb_has_long_jumps :: bool
  bb_constant_map :: "(constant_key, int) dense_hash_map"
  bb_table_shape_map :: "(table_shape, int) dense_hash_map"
  bb_proto_map :: "(u32, int) dense_hash_map"
  bb_debug_line :: int
  bb_debug_locals :: "debug_local list"
  bb_debug_upvals :: "u32 list"
  bb_typed_locals :: "typed_local list"
  bb_typed_upvals :: "u16 list"
  bb_userdata_types :: "userdata_type list"
  bb_string_table :: "(string_ref, u32) dense_hash_map"
  bb_debug_strings :: "string_ref list"
  bb_encoder :: "(u32 list \<Rightarrow> u32 list) option"
  bb_bytecode :: bytes
  bb_dump_flags :: u32

text \<open>The hash functions of the four maps, \<open>DenseHashDefault\<close> at each key type.\<close>

record builder_hashes =
  h_constant :: "constant_key \<Rightarrow> nat"
  h_table_shape :: "table_shape \<Rightarrow> nat"
  h_proto :: "u32 \<Rightarrow> nat"
  h_string :: "string_ref \<Rightarrow> nat"

definition bb_new :: "builder_hashes \<Rightarrow> (u32 list \<Rightarrow> u32 list) option \<Rightarrow> bytecode_builder option" where
  "bb_new hs encoder = do {
     constant_map \<leftarrow> dhm_new 0 (h_constant hs) (=) (ConstantKey Type_Nil (NOT 0) 0);
     table_shape_map \<leftarrow> dhm_new 0 (h_table_shape hs) (=) table_shape_default;
     proto_map \<leftarrow> dhm_new 0 (h_proto hs) (=) (NOT 0);
     string_table \<leftarrow> dhm_new 0 (h_string hs) (=) None;
     e \<leftarrow> dhm_find 0 string_table (Some []);
     LUAU_ASSERT (e = None);
     Some \<lparr>bb_functions = [], bb_current_function = NOT 0, bb_main_function = NOT 0,
       bb_total_instruction_count = 0, bb_insns = [], bb_lines = [], bb_constants = [],
       bb_protos = [], bb_jumps = [], bb_table_shapes = [], bb_class_shapes = [], bb_fb_slots = [],
       bb_has_long_jumps = False, bb_constant_map = constant_map,
       bb_table_shape_map = table_shape_map, bb_proto_map = proto_map, bb_debug_line = 0,
       bb_debug_locals = [], bb_debug_upvals = [], bb_typed_locals = [], bb_typed_upvals = [],
       bb_userdata_types = [], bb_string_table = string_table, bb_debug_strings = [],
       bb_encoder = encoder, bb_bytecode = [], bb_dump_flags = 0\<rparr>
   }"

section \<open>Instructions\<close>

definition emit_label :: "bytecode_builder \<Rightarrow> nat" where
  "emit_label b = length (bb_insns b)"

definition get_instruction_count :: "bytecode_builder \<Rightarrow> nat" where
  "get_instruction_count b = length (bb_insns b)"

definition get_debug_pc :: "bytecode_builder \<Rightarrow> u32" where
  "get_debug_pc b = word_of_nat (length (bb_insns b))"

definition emit_insn :: "u32 \<Rightarrow> bytecode_builder \<Rightarrow> bytecode_builder" where
  "emit_insn insn b = b\<lparr>bb_insns := bb_insns b @ [insn], bb_lines := bb_lines b @ [bb_debug_line b]\<rparr>"

definition emit_abc :: "LuauOpcode \<Rightarrow> u8 \<Rightarrow> u8 \<Rightarrow> u8 \<Rightarrow> bytecode_builder \<Rightarrow> bytecode_builder" where
  "emit_abc op a b c bb = emit_insn (insn_abc op a b c) bb"

definition emit_ad :: "LuauOpcode \<Rightarrow> u8 \<Rightarrow> u16 \<Rightarrow> bytecode_builder \<Rightarrow> bytecode_builder" where
  "emit_ad op a d bb = emit_insn (insn_ad op a d) bb"

definition emit_e :: "LuauOpcode \<Rightarrow> u32 \<Rightarrow> bytecode_builder \<Rightarrow> bytecode_builder" where
  "emit_e op e bb = emit_insn (insn_e op e) bb"

definition emit_aux :: "u32 \<Rightarrow> bytecode_builder \<Rightarrow> bytecode_builder" where
  "emit_aux aux bb = emit_insn aux bb"

definition undo_emit :: "LuauOpcode \<Rightarrow> bytecode_builder \<Rightarrow> bytecode_builder option" where
  "undo_emit op b = do {
     LUAU_ASSERT (bb_insns b \<noteq> []);
     LUAU_ASSERT (last (bb_insns b) AND 0xff = ucast op);
     Some (b\<lparr>bb_insns := butlast (bb_insns b), bb_lines := butlast (bb_lines b)\<rparr>)
   }"

definition patch_jump_d :: "nat \<Rightarrow> nat \<Rightarrow> bytecode_builder \<Rightarrow> (bool \<times> bytecode_builder) option" where
  "patch_jump_d jump_label target_label b = do {
     LUAU_ASSERT (jump_label < length (bb_insns b));
     let jump_insn = bb_insns b ! jump_label;
     op \<leftarrow> LuauOpcode_from (insn_op jump_insn);
     LUAU_ASSERT (isJumpD op);
     LUAU_ASSERT (LUAU_INSN_D jump_insn = 0);
     LUAU_ASSERT (target_label \<le> length (bb_insns b));
     let offset = wrap_i32 (wrap_i32 (int target_label) - wrap_i32 (int jump_label) - 1);
     let record_jump = (\<lambda>b. Some (True, b\<lparr>bb_jumps := bb_jumps b @
       [\<lparr>jump_source = word_of_nat jump_label, jump_target = word_of_nat target_label\<rparr>]\<rparr>));
     if as_i16 offset = offset then
       record_jump (b\<lparr>bb_insns := (bb_insns b)[jump_label :=
         jump_insn OR push_bit 16 (ucast (word_of_int offset :: u16))]\<rparr>)
     else if abs offset < 2 ^ 23 then record_jump (b\<lparr>bb_has_long_jumps := True\<rparr>)
     else Some (False, b)
   }"

definition patch_skip_c :: "nat \<Rightarrow> nat \<Rightarrow> bytecode_builder \<Rightarrow> (bool \<times> bytecode_builder) option" where
  "patch_skip_c jump_label target_label b = do {
     LUAU_ASSERT (jump_label < length (bb_insns b));
     let jump_insn = bb_insns b ! jump_label;
     op \<leftarrow> LuauOpcode_from (insn_op jump_insn);
     LUAU_ASSERT (isSkipC op \<or> isFastCall op);
     LUAU_ASSERT (LUAU_INSN_C jump_insn = 0);
     let offset = wrap_i32 (wrap_i32 (int target_label) - wrap_i32 (int jump_label) - 1);
     if as_u8 offset \<noteq> offset then Some (False, b)
     else Some (True, b\<lparr>bb_insns := (bb_insns b)[jump_label :=
       jump_insn OR push_bit 24 (word_of_int offset)]\<rparr>)
   }"

definition patch_aux :: "nat \<Rightarrow> u32 \<Rightarrow> bytecode_builder \<Rightarrow> bytecode_builder option" where
  "patch_aux target_aux new_value b = do {
     LUAU_ASSERT (target_aux < length (bb_insns b));
     Some (b\<lparr>bb_insns := (bb_insns b)[target_aux := new_value]\<rparr>)
   }"

section \<open>Constants\<close>

definition kMaxConstantCount :: nat where
  "kMaxConstantCount = 0x7fffff"

definition kMaxClosureCount :: nat where
  "kMaxClosureCount = 0x7fff"

definition add_constant ::
  "constant_key \<Rightarrow> bconstant \<Rightarrow> bytecode_builder \<Rightarrow> (int \<times> bytecode_builder) option" where
  "add_constant key value b = do {
     cache \<leftarrow> dhm_find 0 (bb_constant_map b) key;
     (case cache of
        Some cid \<Rightarrow> Some (cid, b)
      | None \<Rightarrow>
          let id = length (bb_constants b) in
          if id \<ge> kMaxConstantCount then Some (-1, b)
          else do {
            (m, _) \<leftarrow> dhm_try_insert 0 key (int id) (bb_constant_map b);
            Some (int id, b\<lparr>bb_constant_map := m, bb_constants := bb_constants b @ [value]\<rparr>)
          })
   }"

definition add_constant_nil :: "bytecode_builder \<Rightarrow> (int \<times> bytecode_builder) option" where
  "add_constant_nil b = add_constant (ConstantKey Type_Nil 0 0) ConstNil b"

definition add_constant_boolean :: "bool \<Rightarrow> bytecode_builder \<Rightarrow> (int \<times> bytecode_builder) option" where
  "add_constant_boolean v b =
     add_constant (ConstantKey Type_Boolean (if v then 1 else 0) 0) (ConstBoolean v) b"

definition add_constant_number :: "u64 \<Rightarrow> bytecode_builder \<Rightarrow> (int \<times> bytecode_builder) option" where
  "add_constant_number v b = add_constant (ConstantKey Type_Number v 0) (ConstNumber v) b"

definition add_constant_integer :: "u64 \<Rightarrow> bytecode_builder \<Rightarrow> (int \<times> bytecode_builder) option" where
  "add_constant_integer v b = add_constant (ConstantKey Type_Integer v 0) (ConstInteger v) b"

definition add_constant_vector ::
  "u32 \<Rightarrow> u32 \<Rightarrow> u32 \<Rightarrow> u32 \<Rightarrow> bytecode_builder \<Rightarrow> (int \<times> bytecode_builder) option" where
  "add_constant_vector x y z w b =
     add_constant (ConstantKey Type_Vector (ucast x OR push_bit 32 (ucast y))
       (ucast z OR push_bit 32 (ucast w))) (ConstVector x y z w) b"

definition add_import :: "u32 \<Rightarrow> bytecode_builder \<Rightarrow> (int \<times> bytecode_builder) option" where
  "add_import iid b = add_constant (ConstantKey Type_Import (ucast iid) 0) (ConstImport iid) b"

definition add_constant_closure :: "u32 \<Rightarrow> bytecode_builder \<Rightarrow> (int \<times> bytecode_builder) option" where
  "add_constant_closure fid b =
     add_constant (ConstantKey Type_Closure (ucast fid) 0) (ConstClosure fid) b"

text \<open>Strings are numbered from 1 in the order they are first added.\<close>

definition add_string_table_entry ::
  "string_ref \<Rightarrow> bytecode_builder \<Rightarrow> (u32 \<times> bytecode_builder) option" where
  "add_string_table_entry value b = do {
     r \<leftarrow> dhm_find 0 (bb_string_table b) value;
     (case r of
        Some idx \<Rightarrow> Some (idx, b)
      | None \<Rightarrow> do {
          let new_index = word_of_nat (dh_size (bb_string_table b)) + 1;
          (m, _) \<leftarrow> dhm_try_insert 0 value new_index (bb_string_table b);
          let b = b\<lparr>bb_string_table := m\<rparr>;
          let b = (if bb_dump_flags b AND 1 \<noteq> 0
                   then b\<lparr>bb_debug_strings := bb_debug_strings b @ [value]\<rparr> else b);
          Some (new_index, b)
        })
   }"

definition add_constant_string :: "string_ref \<Rightarrow> bytecode_builder \<Rightarrow> (int \<times> bytecode_builder) option" where
  "add_constant_string value b = do {
     (index, b) \<leftarrow> add_string_table_entry value b;
     add_constant (ConstantKey Type_String (ucast index) 0) (ConstString index) b
   }"

definition add_constant_table :: "table_shape \<Rightarrow> bytecode_builder \<Rightarrow> (int \<times> bytecode_builder) option" where
  "add_constant_table shape b = do {
     cache \<leftarrow> dhm_find 0 (bb_table_shape_map b) shape;
     (case cache of
        Some cid \<Rightarrow> Some (cid, b)
      | None \<Rightarrow>
          let id = length (bb_constants b) in
          if id \<ge> kMaxConstantCount then Some (-1, b)
          else do {
            let value = ConstTable (word_of_nat (length (bb_table_shapes b)));
            (m, _) \<leftarrow> dhm_try_insert 0 shape (int id) (bb_table_shape_map b);
            Some (int id, b\<lparr>bb_table_shape_map := m, bb_table_shapes := bb_table_shapes b @ [shape],
              bb_constants := bb_constants b @ [value]\<rparr>)
          })
   }"

definition add_class_shape :: "class_shape \<Rightarrow> bytecode_builder \<Rightarrow> (int \<times> bytecode_builder) option" where
  "add_class_shape shape b =
     (let id = length (bb_constants b) in
      if id \<ge> kMaxConstantCount then Some (-1, b)
      else
        let c = ConstClassShape (word_of_nat (length (bb_class_shapes b))) in
        Some (int id, b\<lparr>bb_class_shapes := bb_class_shapes b @ [shape],
          bb_constants := bb_constants b @ [c]\<rparr>))"

definition add_child_function :: "u32 \<Rightarrow> bytecode_builder \<Rightarrow> (int \<times> bytecode_builder) option" where
  "add_child_function fid b = do {
     cache \<leftarrow> dhm_find 0 (bb_proto_map b) fid;
     (case cache of
        Some cid \<Rightarrow> Some (cid, b)
      | None \<Rightarrow>
          let id = length (bb_protos b) in
          if id \<ge> kMaxClosureCount then Some (-1, b)
          else do {
            (m, _) \<leftarrow> dhm_try_insert 0 fid (int id) (bb_proto_map b);
            Some (int id, b\<lparr>bb_proto_map := m, bb_protos := bb_protos b @ [fid]\<rparr>)
          })
   }"

section \<open>Import ids\<close>

definition get_import_id :: "u32 \<Rightarrow> u32 option" where
  "get_import_id id0 = do {
     LUAU_ASSERT (id0 < 1024);
     Some (push_bit 30 1 OR push_bit 20 id0)
   }"

definition get_import_id2 :: "u32 \<Rightarrow> u32 \<Rightarrow> u32 option" where
  "get_import_id2 id0 id1 = do {
     LUAU_ASSERT (id0 OR id1 < 1024);
     Some (push_bit 30 2 OR push_bit 20 id0 OR push_bit 10 id1)
   }"

definition get_import_id3 :: "u32 \<Rightarrow> u32 \<Rightarrow> u32 \<Rightarrow> u32 option" where
  "get_import_id3 id0 id1 id2 = do {
     LUAU_ASSERT (id0 OR id1 OR id2 < 1024);
     Some (push_bit 30 3 OR push_bit 20 id0 OR push_bit 10 id1 OR id2)
   }"

text \<open>\<open>(ids >> n) as i32 & 1023\<close> is not negative, so it is read as the word itself.\<close>

definition decompose_import_id :: "u32 \<Rightarrow> int \<times> int \<times> int \<times> int" where
  "decompose_import_id ids =
     (let count = sint (drop_bit 30 ids) in
      (count,
       if count > 0 then sint (drop_bit 20 ids AND 1023) else -1,
       if count > 1 then sint (drop_bit 10 ids AND 1023) else -1,
       if count > 2 then sint (ids AND 1023) else -1))"

section \<open>Functions, debug and type information\<close>

definition begin_function :: "u8 \<Rightarrow> bool \<Rightarrow> bytecode_builder \<Rightarrow> (u32 \<times> bytecode_builder) option" where
  "begin_function numparams isvararg b = do {
     LUAU_ASSERT (bb_current_function b = NOT 0);
     let id = word_of_nat (length (bb_functions b));
     let func = bfunction_default\<lparr>fn_numparams := numparams, fn_isvararg := isvararg\<rparr>;
     Some (id, b\<lparr>bb_functions := bb_functions b @ [func], bb_current_function := id,
       bb_has_long_jumps := False, bb_debug_line := 0\<rparr>)
   }"

definition update_current ::
  "(bfunction \<Rightarrow> bfunction) \<Rightarrow> bytecode_builder \<Rightarrow> bytecode_builder option" where
  "update_current f b = do {
     func \<leftarrow> index_checked (bb_functions b) (unat (bb_current_function b));
     Some (b\<lparr>bb_functions := (bb_functions b)[unat (bb_current_function b) := f func]\<rparr>)
   }"

definition set_main_function :: "u32 \<Rightarrow> bytecode_builder \<Rightarrow> bytecode_builder option" where
  "set_main_function fid b = do {
     LUAU_ASSERT (fid < word_of_nat (length (bb_functions b)));
     Some (b\<lparr>bb_main_function := fid\<rparr>)
   }"

definition set_debug_line :: "int \<Rightarrow> bytecode_builder \<Rightarrow> bytecode_builder" where
  "set_debug_line line b = b\<lparr>bb_debug_line := line\<rparr>"

definition set_debug_function_line_defined :: "int \<Rightarrow> bytecode_builder \<Rightarrow> bytecode_builder option" where
  "set_debug_function_line_defined line b = update_current (\<lambda>f. f\<lparr>fn_debuglinedefined := line\<rparr>) b"

definition set_debug_function_name :: "string_ref \<Rightarrow> bytecode_builder \<Rightarrow> bytecode_builder option" where
  "set_debug_function_name name b = do {
     (index, b) \<leftarrow> add_string_table_entry name b;
     update_current (\<lambda>f. f\<lparr>fn_debugname := index\<rparr>) b
   }"

definition set_function_type_info :: "bytes \<Rightarrow> bytecode_builder \<Rightarrow> bytecode_builder option" where
  "set_function_type_info value b = update_current (\<lambda>f. f\<lparr>fn_typeinfo := value\<rparr>) b"

definition push_debug_local ::
  "string_ref \<Rightarrow> u8 \<Rightarrow> u32 \<Rightarrow> u32 \<Rightarrow> bytecode_builder \<Rightarrow> bytecode_builder option" where
  "push_debug_local name reg startpc endpc b = do {
     (index, b) \<leftarrow> add_string_table_entry name b;
     Some (b\<lparr>bb_debug_locals := bb_debug_locals b @
       [\<lparr>dl_name = index, dl_reg = reg, dl_startpc = startpc, dl_endpc = endpc\<rparr>]\<rparr>)
   }"

definition push_debug_upval :: "string_ref \<Rightarrow> bytecode_builder \<Rightarrow> bytecode_builder option" where
  "push_debug_upval name b = do {
     (index, b) \<leftarrow> add_string_table_entry name b;
     Some (b\<lparr>bb_debug_upvals := bb_debug_upvals b @ [index]\<rparr>)
   }"

definition push_local_type_info ::
  "u16 \<Rightarrow> u8 \<Rightarrow> u32 \<Rightarrow> u32 \<Rightarrow> bytecode_builder \<Rightarrow> bytecode_builder" where
  "push_local_type_info ty reg startpc endpc b =
     b\<lparr>bb_typed_locals := bb_typed_locals b @
       [\<lparr>tl_type = ty, tl_reg = reg, tl_startpc = startpc, tl_endpc = endpc\<rparr>]\<rparr>"

definition push_upval_type_info :: "u16 \<Rightarrow> bytecode_builder \<Rightarrow> bytecode_builder" where
  "push_upval_type_info ty b = b\<lparr>bb_typed_upvals := bb_typed_upvals b @ [ty]\<rparr>"

definition add_userdata_type :: "bytes \<Rightarrow> bytecode_builder \<Rightarrow> u32 \<times> bytecode_builder" where
  "add_userdata_type name b =
     (word_of_nat (length (bb_userdata_types b)),
      b\<lparr>bb_userdata_types := bb_userdata_types b @ [\<lparr>ut_name = name, ut_nameRef = 0, ut_used = False\<rparr>]\<rparr>)"

definition use_userdata_type :: "u32 \<Rightarrow> bytecode_builder \<Rightarrow> bytecode_builder option" where
  "use_userdata_type index b = do {
     LUAU_ASSERT (unat index < length (bb_userdata_types b));
     Some (b\<lparr>bb_userdata_types := (bb_userdata_types b)[unat index :=
       (bb_userdata_types b ! unat index)\<lparr>ut_used := True\<rparr>]\<rparr>)
   }"

definition add_fb_slot :: "bytecode_builder \<Rightarrow> u32 \<times> bytecode_builder" where
  "add_fb_slot b =
     (word_of_nat (length (bb_fb_slots b)),
      b\<lparr>bb_fb_slots := bb_fb_slots b @ [word_of_nat (get_instruction_count b)]\<rparr>)"

text \<open>\<open>try_get_userdata_type_name\<close>: the subtraction is signed and read as unsigned, so that a type
  below the base fails the bound check.\<close>

definition try_get_userdata_type_name :: "u16 \<Rightarrow> bytecode_builder \<Rightarrow> bytes option option" where
  "try_get_userdata_type_name ty b =
     (let index = word_of_int (uint (ty AND NOT 0x80) - 64) :: u32 in
      if index < word_of_nat (length (bb_userdata_types b)) then do {
        t \<leftarrow> index_checked (bb_userdata_types b) (unat index);
        Some (Some (ut_name t))
      } else Some None)"

definition get_error :: "bytes \<Rightarrow> bytes" where
  "get_error message = 0 # message"

text \<open>\<open>get_string_hash\<close>: the loop runs over the bytes from the last to the first.\<close>

definition get_string_hash :: "bytes \<Rightarrow> u32" where
  "get_string_hash key =
     foldl (\<lambda>h ch. h XOR (push_bit 5 h + drop_bit 2 h + ucast ch)) (word_of_nat (length key)) (rev key)"

section \<open>Invariant\<close>

text \<open>The key under which a constant is numbered; tables and class shapes are not in \<open>constant_map\<close>.\<close>

fun const_key :: "bconstant \<Rightarrow> constant_key option" where
  "const_key ConstNil = Some (ConstantKey Type_Nil 0 0)"
| "const_key (ConstBoolean v) = Some (ConstantKey Type_Boolean (if v then 1 else 0) 0)"
| "const_key (ConstNumber v) = Some (ConstantKey Type_Number v 0)"
| "const_key (ConstInteger v) = Some (ConstantKey Type_Integer v 0)"
| "const_key (ConstVector x y z w) = Some (ConstantKey Type_Vector (ucast x OR push_bit 32 (ucast y))
     (ucast z OR push_bit 32 (ucast w)))"
| "const_key (ConstString i) = Some (ConstantKey Type_String (ucast i) 0)"
| "const_key (ConstImport i) = Some (ConstantKey Type_Import (ucast i) 0)"
| "const_key (ConstClosure i) = Some (ConstantKey Type_Closure (ucast i) 0)"
| "const_key (ConstTable i) = None"
| "const_key (ConstClassShape i) = None"

fun const_shape :: "table_shape list \<Rightarrow> bconstant \<Rightarrow> table_shape option" where
  "const_shape shapes (ConstTable i) = (if unat i < length shapes then Some (shapes ! unat i) else None)"
| "const_shape shapes _ = None"

abbreviation string_index :: "nat \<Rightarrow> u32" where
  "string_index j \<equiv> word_of_nat (j + 1)"

definition constants_inv :: "bytecode_builder \<Rightarrow> bool" where
  "constants_inv b \<longleftrightarrow> dhm_inv 0 (bb_constant_map b) \<and>
     dh_empty_key (bb_constant_map b) = ConstantKey Type_Nil (NOT 0) 0 \<and>
     interns (dhm_map 0 (bb_constant_map b)) const_key int (bb_constants b) \<and>
     length (bb_constants b) \<le> kMaxConstantCount"

definition shapes_inv :: "bytecode_builder \<Rightarrow> bool" where
  "shapes_inv b \<longleftrightarrow> dhm_inv 0 (bb_table_shape_map b) \<and>
     dh_empty_key (bb_table_shape_map b) = table_shape_default \<and>
     interns (dhm_map 0 (bb_table_shape_map b)) (const_shape (bb_table_shapes b)) int (bb_constants b) \<and>
     length (bb_table_shapes b) \<le> length (bb_constants b) \<and>
     (\<forall>i. ConstTable i \<in> set (bb_constants b) \<longrightarrow> unat i < length (bb_table_shapes b)) \<and>
     (\<forall>i. ConstClassShape i \<in> set (bb_constants b) \<longrightarrow> unat i < length (bb_class_shapes b))"

definition protos_inv :: "bytecode_builder \<Rightarrow> bool" where
  "protos_inv b \<longleftrightarrow> dhm_inv 0 (bb_proto_map b) \<and> dh_empty_key (bb_proto_map b) = NOT 0 \<and>
     interns (dhm_map 0 (bb_proto_map b)) Some int (bb_protos b) \<and>
     length (bb_protos b) \<le> kMaxClosureCount"

text \<open>\<open>strings_inv b xs\<close>: the string table of \<open>b\<close> numbers the strings \<open>xs\<close>, from 1.\<close>

definition strings_inv :: "bytecode_builder \<Rightarrow> bytes list \<Rightarrow> bool" where
  "strings_inv b xs \<longleftrightarrow> dhm_inv 0 (bb_string_table b) \<and> dh_empty_key (bb_string_table b) = None \<and>
     interns (dhm_map 0 (bb_string_table b)) Some string_index (map Some xs) \<and> length xs < 2 ^ 32"

lemma bb_new_inv:
  "\<exists>b. bb_new hs enc = Some b \<and> constants_inv b \<and> shapes_inv b \<and> protos_inv b \<and> strings_inv b [] \<and>
    bb_current_function b = NOT 0 \<and> bb_functions b = [] \<and> bb_constants b = [] \<and> bb_class_shapes b = []"
proof -
  obtain cm where cm: "dhm_new 0 (h_constant hs) (=) (ConstantKey Type_Nil (NOT 0) 0) = Some cm"
      "dhm_inv (0 :: int) cm" "dhm_map 0 cm = Map.empty" "dh_empty_key cm = ConstantKey Type_Nil (NOT 0) 0"
    using dhm_new_correct [of 0 "h_constant hs" "ConstantKey Type_Nil (NOT 0) 0"] by blast
  obtain tm where tm: "dhm_new 0 (h_table_shape hs) (=) table_shape_default = Some tm"
      "dhm_inv (0 :: int) tm" "dhm_map 0 tm = Map.empty" "dh_empty_key tm = table_shape_default"
    using dhm_new_correct [of 0 "h_table_shape hs" table_shape_default] by blast
  obtain pm where pm: "dhm_new 0 (h_proto hs) (=) (NOT 0) = Some pm"
      "dhm_inv (0 :: int) pm" "dhm_map 0 pm = Map.empty" "dh_empty_key pm = NOT 0"
    using dhm_new_correct [of 0 "h_proto hs" "NOT 0"] by blast
  obtain sm where sm: "dhm_new 0 (h_string hs) (=) None = Some sm"
      "dhm_inv (0 :: u32) sm" "dhm_map 0 sm = Map.empty" "dh_empty_key sm = None"
    using dhm_new_correct [of 0 "h_string hs" None] by blast
  show ?thesis
    unfolding bb_new_def using cm tm pm sm dhi.find_law [OF sm(2), of "Some []"]
    by (simp add: constants_inv_def shapes_inv_def protos_inv_def strings_inv_def)
qed

section \<open>Numbering constants\<close>

lemma const_key_not_sentinel: "const_key c \<noteq> Some (ConstantKey Type_Nil (NOT 0) 0)"
  by (cases c) auto

lemma pack_u32_inj:
  assumes "(ucast x OR push_bit 32 (ucast y) :: u64) = ucast x' OR push_bit 32 (ucast y')"
  shows "(x :: u32) = x' \<and> (y :: u32) = y'"
proof
  have lo: "ucast (ucast a OR push_bit 32 (ucast b) :: u64) = (a :: u32)" for a b :: u32
    by (rule bit_word_eqI) (auto simp: bit_simps)
  have hi: "ucast (drop_bit 32 (ucast a OR push_bit 32 (ucast b) :: u64)) = (b :: u32)" for a b :: u32
    by (rule bit_word_eqI) (auto simp: bit_simps dest: bit_less)
  show "x = x'" using lo [of x y] lo [of x' y'] assms by simp
  show "y = y'" using hi [of x y] hi [of x' y'] assms by simp
qed

lemma const_key_inj:
  assumes "const_key c = Some k" and "const_key c' = Some k"
  shows "c = c'"
  using assms by (cases c; cases c') (auto dest: pack_u32_inj split: if_splits)


lemma add_constant_correct:
  assumes inv: "constants_inv b" and k: "const_key c = Some k"
  shows "\<exists>cid b'. add_constant k c b = Some (cid, b') \<and> constants_inv b' \<and>
    (if c \<in> set (bb_constants b) then
       b' = b \<and> (\<exists>j < length (bb_constants b). cid = int j \<and> bb_constants b ! j = c)
     else if length (bb_constants b) < kMaxConstantCount then
       cid = int (length (bb_constants b)) \<and>
       (\<exists>m. b' = b\<lparr>bb_constant_map := m, bb_constants := bb_constants b @ [c]\<rparr>)
     else cid = -1 \<and> b' = b)"
proof -
  let ?m = "bb_constant_map b" and ?cs = "bb_constants b"
  have im: "dhm_inv 0 ?m" "interns (dhm_map 0 ?m) const_key int ?cs" "k \<noteq> dh_empty_key ?m"
    using inv k const_key_not_sentinel by (auto simp: constants_inv_def)
  show ?thesis
  proof (cases "dhm_map 0 ?m k")
    case (Some v)
    then have f: "dhm_find 0 ?m k = Some (Some v)" using dhi.find_law [OF im(1)] by simp
    from dhi.intern_old [OF im(1,2) f] obtain j
      where j: "j < length ?cs" "const_key (?cs ! j) = Some k" "v = int j" by blast
    then have "?cs ! j = c" using k const_key_inj by blast
    then show ?thesis using inv f j by (auto simp: add_constant_def)
  next
    case None
    then have f: "dhm_find 0 ?m k = Some None" using dhi.find_law [OF im(1)] by simp
    have new: "c \<notin> set ?cs" using interns_NoneD [OF im(2) None] k by blast
    obtain m where m: "dhm_try_insert 0 k (int (length ?cs)) ?m = Some (m, True)" "dhm_inv 0 m"
        "dh_empty_key m = dh_empty_key ?m" "interns (dhm_map 0 m) const_key int (?cs @ [c])"
      using dhi.intern_new [OF im(1,3,2) k f] by blast
    show ?thesis
      using inv new f m by (auto simp: add_constant_def constants_inv_def Let_def)
  qed
qed

text \<open>The seven \<open>add_*\<close> functions for constants that need no other table.\<close>

fun add_scalar :: "bconstant \<Rightarrow> bytecode_builder \<Rightarrow> (int \<times> bytecode_builder) option" where
  "add_scalar ConstNil b = add_constant_nil b"
| "add_scalar (ConstBoolean v) b = add_constant_boolean v b"
| "add_scalar (ConstNumber v) b = add_constant_number v b"
| "add_scalar (ConstInteger v) b = add_constant_integer v b"
| "add_scalar (ConstVector x y z w) b = add_constant_vector x y z w b"
| "add_scalar (ConstImport i) b = add_import i b"
| "add_scalar (ConstClosure i) b = add_constant_closure i b"
| "add_scalar _ b = None"

fun is_scalar :: "bconstant \<Rightarrow> bool" where
  "is_scalar (ConstString i) = False"
| "is_scalar (ConstTable i) = False"
| "is_scalar (ConstClassShape i) = False"
| "is_scalar _ = True"

lemma add_scalar_eq:
  "is_scalar c \<Longrightarrow> \<exists>k. const_key c = Some k \<and> add_scalar c b = add_constant k c b"
  by (cases c) (simp_all add: add_constant_nil_def add_constant_boolean_def add_constant_number_def
      add_constant_integer_def add_constant_vector_def add_import_def add_constant_closure_def)

section \<open>Numbering strings\<close>

lemma string_index_inj: "length xs < 2 ^ 32 \<Longrightarrow> inj_on string_index {..<length xs}"
  by (rule inj_onI) (auto simp: unat_of_nat word_unat_eq_iff take_bit_nat_eq_self_iff of_nat_inverse
      simp flip: of_nat_Suc)


lemma string_table_size: "strings_inv b xs \<Longrightarrow> dh_size (bb_string_table b) = length xs"
  using dhi.intern_size(1) [of 0 "bb_string_table b" string_index "map Some xs"]
    string_index_inj [of "map Some xs"] by (simp add: strings_inv_def)

lemma strings_distinct: "strings_inv b xs \<Longrightarrow> distinct xs"
  using dhi.intern_size(2) [of 0 "bb_string_table b" string_index "map Some xs"]
    string_index_inj [of "map Some xs"] by (simp add: strings_inv_def distinct_map)

lemma add_string_table_entry_correct:
  assumes inv: "strings_inv b xs" and room: "length xs + 1 < 2 ^ 32"
  shows "\<exists>j ys b'. add_string_table_entry (Some s) b = Some (string_index j, b') \<and> strings_inv b' ys \<and>
    j < length ys \<and> ys ! j = s \<and> (if s \<in> set xs then ys = xs \<and> b' = b else ys = xs @ [s]) \<and>
    (\<exists>m ds. b' = b\<lparr>bb_string_table := m, bb_debug_strings := ds\<rparr>)"
proof -
  let ?m = "bb_string_table b"
  have im: "dhm_inv 0 ?m" "interns (dhm_map 0 ?m) Some string_index (map Some xs)"
    "Some s \<noteq> dh_empty_key ?m"
    using inv by (auto simp: strings_inv_def)
  show ?thesis
  proof (cases "dhm_map 0 ?m (Some s)")
    case (Some v)
    then have f: "dhm_find 0 ?m (Some s) = Some (Some v)" using dhi.find_law [OF im(1)] by simp
    from dhi.intern_old [OF im(1,2) f] obtain j
      where j: "j < length xs" "xs ! j = s" "v = string_index j" by auto
    moreover have "s \<in> set xs" using j by auto
    moreover have "\<exists>m ds. b = b\<lparr>bb_string_table := m, bb_debug_strings := ds\<rparr>"
      by (intro exI [of _ "bb_string_table b"] exI [of _ "bb_debug_strings b"]) simp
    moreover have "add_string_table_entry (Some s) b = Some (v, b)"
      using f by (simp add: add_string_table_entry_def)
    ultimately show ?thesis
      using inv by (intro exI [of _ j] exI [of _ xs] exI [of _ b] conjI) simp_all
  next
    case None
    then have f: "dhm_find 0 ?m (Some s) = Some None" using dhi.find_law [OF im(1)] by simp
    have new: "s \<notin> set xs" using interns_NoneD [OF im(2) None] by auto
    obtain m where m: "dhm_try_insert 0 (Some s) (string_index (length xs)) ?m = Some (m, True)"
        "dhm_inv 0 m" "dh_empty_key m = dh_empty_key ?m"
        "interns (dhm_map 0 m) Some string_index (map Some xs @ [Some s])"
      using dhi.intern_new [OF im(1,3,2) refl f] by auto
    let ?b = "if bb_dump_flags b AND 1 \<noteq> 0
      then b\<lparr>bb_string_table := m, bb_debug_strings := bb_debug_strings b @ [Some s]\<rparr>
      else b\<lparr>bb_string_table := m\<rparr>"
    have "add_string_table_entry (Some s) b = Some (string_index (length xs), ?b)"
      using f m(1) string_table_size [OF inv]
      by (simp add: add_string_table_entry_def Let_def add.commute)
    moreover have "strings_inv ?b (xs @ [s])"
      using m inv room by (simp add: strings_inv_def)
    moreover have "\<exists>m ds. ?b = b\<lparr>bb_string_table := m, bb_debug_strings := ds\<rparr>"
      by (intro exI [of _ m] exI [of _ "if bb_dump_flags b AND 1 \<noteq> 0
        then bb_debug_strings b @ [Some s] else bb_debug_strings b"]) simp
    ultimately show ?thesis
      using new by (intro exI [of _ "length xs"] exI [of _ "xs @ [s]"] exI [of _ ?b]) simp
  qed
qed

section \<open>Table shapes, class shapes and child functions\<close>

lemma interns_cong:
  "interns m key idx xs \<Longrightarrow> (\<And>x. x \<in> set xs \<Longrightarrow> key x = key' x) \<Longrightarrow> interns m key' idx xs"
  by (simp add: interns_def cong: conj_cong)

lemma const_shape_extend:
  "shapes_inv b \<Longrightarrow> c \<in> set (bb_constants b) \<Longrightarrow>
    const_shape (bb_table_shapes b) c = const_shape (bb_table_shapes b @ [s]) c"
  by (cases c) (auto simp: shapes_inv_def nth_append)

lemma unat_small: "n \<le> kMaxConstantCount \<Longrightarrow> unat (word_of_nat n :: u32) = n"
  by (simp add: unat_of_nat kMaxConstantCount_def)

lemma add_constant_table_correct:
  assumes ci: "constants_inv b" and si: "shapes_inv b" and ne: "shape \<noteq> table_shape_default"
  shows "\<exists>cid b'. add_constant_table shape b = Some (cid, b') \<and> constants_inv b' \<and> shapes_inv b' \<and>
    (if \<exists>j < length (bb_constants b). const_shape (bb_table_shapes b) (bb_constants b ! j) = Some shape
     then b' = b \<and> (\<exists>j < length (bb_constants b). cid = int j \<and>
       const_shape (bb_table_shapes b) (bb_constants b ! j) = Some shape)
     else if length (bb_constants b) < kMaxConstantCount then
       cid = int (length (bb_constants b)) \<and>
       (\<exists>m. b' = b\<lparr>bb_table_shape_map := m, bb_table_shapes := bb_table_shapes b @ [shape],
         bb_constants := bb_constants b @ [ConstTable (word_of_nat (length (bb_table_shapes b)))]\<rparr>)
     else cid = -1 \<and> b' = b)"
proof -
  let ?m = "bb_table_shape_map b" and ?cs = "bb_constants b" and ?ts = "bb_table_shapes b"
  have im: "dhm_inv 0 ?m" "interns (dhm_map 0 ?m) (const_shape ?ts) int ?cs" "shape \<noteq> dh_empty_key ?m"
    using si ne by (auto simp: shapes_inv_def)
  show ?thesis
  proof (cases "dhm_map 0 ?m shape")
    case (Some v)
    then have f: "dhm_find 0 ?m shape = Some (Some v)" using dhi.find_law [OF im(1)] by simp
    from dhi.intern_old [OF im(1,2) f] obtain j
      where j: "j < length ?cs" "const_shape ?ts (?cs ! j) = Some shape" "v = int j" by blast
    then show ?thesis using ci si f by (auto simp: add_constant_table_def)
  next
    case None
    then have f: "dhm_find 0 ?m shape = Some None" using dhi.find_law [OF im(1)] by simp
    have new: "\<not> (\<exists>j < length ?cs. const_shape ?ts (?cs ! j) = Some shape)"
      using interns_NoneD [OF im(2) None] nth_mem by blast
    show ?thesis
    proof (cases "length ?cs < kMaxConstantCount")
      case False
      then show ?thesis using ci si f new by (simp add: add_constant_table_def)
    next
      case True
      let ?c = "ConstTable (word_of_nat (length ?ts))"
      have u: "unat (word_of_nat (length ?ts) :: u32) = length ?ts"
        using si ci by (intro unat_small) (simp add: shapes_inv_def constants_inv_def)
      then have kc: "const_shape (?ts @ [shape]) ?c = Some shape" by simp
      have im': "interns (dhm_map 0 ?m) (const_shape (?ts @ [shape])) int ?cs"
        using interns_cong [OF im(2)] const_shape_extend [OF si] by blast
      obtain m where m: "dhm_try_insert 0 shape (int (length ?cs)) ?m = Some (m, True)" "dhm_inv 0 m"
          "dh_empty_key m = dh_empty_key ?m"
          "interns (dhm_map 0 m) (const_shape (?ts @ [shape])) int (?cs @ [?c])"
        using dhi.intern_new [OF im(1,3) im' kc f] by blast
      let ?b = "b\<lparr>bb_table_shape_map := m, bb_table_shapes := ?ts @ [shape], bb_constants := ?cs @ [?c]\<rparr>"
      have "add_constant_table shape b = Some (int (length ?cs), ?b)"
        using f m(1) True by (simp add: add_constant_table_def Let_def)
      moreover have "constants_inv ?b"
        using ci True interns_push_other [of "dhm_map 0 (bb_constant_map b)" const_key int ?cs ?c]
        by (simp add: constants_inv_def)
      moreover have "shapes_inv ?b" using si m u by (auto simp: shapes_inv_def less_Suc_eq)
      ultimately show ?thesis
        unfolding if_not_P [OF new] if_P [OF True]
        by (intro exI [of _ "int (length ?cs)"] exI [of _ ?b] conjI exI [of _ m]) simp_all
    qed
  qed
qed

lemma add_child_function_correct:
  assumes inv: "protos_inv b" and ne: "fid \<noteq> NOT 0"
  shows "\<exists>cid b'. add_child_function fid b = Some (cid, b') \<and> protos_inv b' \<and>
    (if fid \<in> set (bb_protos b) then
       b' = b \<and> (\<exists>j < length (bb_protos b). cid = int j \<and> bb_protos b ! j = fid)
     else if length (bb_protos b) < kMaxClosureCount then
       cid = int (length (bb_protos b)) \<and>
       (\<exists>m. b' = b\<lparr>bb_proto_map := m, bb_protos := bb_protos b @ [fid]\<rparr>)
     else cid = -1 \<and> b' = b)"
proof -
  let ?m = "bb_proto_map b" and ?ps = "bb_protos b"
  have im: "dhm_inv 0 ?m" "interns (dhm_map 0 ?m) Some int ?ps" "fid \<noteq> dh_empty_key ?m"
    using inv ne by (auto simp: protos_inv_def)
  show ?thesis
  proof (cases "dhm_map 0 ?m fid")
    case (Some v)
    then have f: "dhm_find 0 ?m fid = Some (Some v)" using dhi.find_law [OF im(1)] by simp
    from dhi.intern_old [OF im(1,2) f] obtain j where j: "j < length ?ps" "?ps ! j = fid" "v = int j" by auto
    then show ?thesis using inv f by (auto simp: add_child_function_def)
  next
    case None
    then have f: "dhm_find 0 ?m fid = Some None" using dhi.find_law [OF im(1)] by simp
    have new: "fid \<notin> set ?ps" using interns_NoneD [OF im(2) None] by blast
    obtain m where m: "dhm_try_insert 0 fid (int (length ?ps)) ?m = Some (m, True)" "dhm_inv 0 m"
        "dh_empty_key m = dh_empty_key ?m" "interns (dhm_map 0 m) Some int (?ps @ [fid])"
      using dhi.intern_new [OF im(1,3,2) refl f] by blast
    show ?thesis using inv new f m by (auto simp: add_child_function_def protos_inv_def Let_def)
  qed
qed


section \<open>All tables together\<close>

text \<open>Every string constant is one of the numbered strings.\<close>

definition refs_inv :: "bytecode_builder \<Rightarrow> bytes list \<Rightarrow> bool" where
  "refs_inv b xs \<longleftrightarrow> (\<forall>i. ConstString i \<in> set (bb_constants b) \<longrightarrow> (\<exists>j < length xs. i = string_index j))"

definition bb_inv :: "bytecode_builder \<Rightarrow> bytes list \<Rightarrow> bool" where
  "bb_inv b xs \<longleftrightarrow> constants_inv b \<and> shapes_inv b \<and> protos_inv b \<and> strings_inv b xs \<and> refs_inv b xs"

datatype add_op = AddScalar bconstant | AddString bytes | AddTable table_shape | AddClass class_shape
  | AddChild u32

fun add_step :: "add_op \<Rightarrow> bytecode_builder \<Rightarrow> (int \<times> bytecode_builder) option" where
  "add_step (AddScalar c) b = add_scalar c b"
| "add_step (AddString s) b = add_constant_string (Some s) b"
| "add_step (AddTable t) b = add_constant_table t b"
| "add_step (AddClass c) b = add_class_shape c b"
| "add_step (AddChild fid) b = add_child_function fid b"

text \<open>What a caller may add: no sentinel key, and fewer than \<open>2^32\<close> strings.\<close>

fun add_ok :: "add_op \<Rightarrow> nat \<Rightarrow> bool" where
  "add_ok (AddScalar c) n \<longleftrightarrow> is_scalar c"
| "add_ok (AddString s) n \<longleftrightarrow> n + 1 < 2 ^ 32"
| "add_ok (AddTable t) n \<longleftrightarrow> t \<noteq> table_shape_default"
| "add_ok (AddClass c) n \<longleftrightarrow> n < 2 ^ 32"
| "add_ok (AddChild fid) n \<longleftrightarrow> fid \<noteq> NOT 0"

text \<open>What the number \<open>j\<close> that an addition returned stands for.\<close>

fun denotes :: "bytecode_builder \<Rightarrow> bytes list \<Rightarrow> nat \<Rightarrow> add_op \<Rightarrow> bool" where
  "denotes b xs j (AddScalar c) \<longleftrightarrow> j < length (bb_constants b) \<and> bb_constants b ! j = c"
| "denotes b xs j (AddString s) \<longleftrightarrow> j < length (bb_constants b) \<and>
     (\<exists>i < length xs. bb_constants b ! j = ConstString (string_index i) \<and> xs ! i = s)"
| "denotes b xs j (AddTable t) \<longleftrightarrow> j < length (bb_constants b) \<and>
     const_shape (bb_table_shapes b) (bb_constants b ! j) = Some t"
| "denotes b xs j (AddClass c) \<longleftrightarrow> j < length (bb_constants b) \<and>
     (\<exists>i. bb_constants b ! j = ConstClassShape i \<and> unat i < length (bb_class_shapes b) \<and>
       bb_class_shapes b ! unat i = c)"
| "denotes b xs j (AddChild fid) \<longleftrightarrow> j < length (bb_protos b) \<and> bb_protos b ! j = fid"

text \<open>The table an addition numbers in, with its limit; class shapes are not looked up before they are added.\<close>

fun table_size :: "bytecode_builder \<Rightarrow> add_op \<Rightarrow> nat" where
  "table_size b (AddChild fid) = length (bb_protos b)"
| "table_size b _ = length (bb_constants b)"

fun table_limit :: "add_op \<Rightarrow> nat" where
  "table_limit (AddChild fid) = kMaxClosureCount"
| "table_limit _ = kMaxConstantCount"

definition held :: "bytecode_builder \<Rightarrow> bytes list \<Rightarrow> add_op \<Rightarrow> bool" where
  "held b xs op \<longleftrightarrow> (\<forall>c. op \<noteq> AddClass c) \<and> (\<exists>j. denotes b xs j op)"

text \<open>Only a string that is new is recorded when its constant is refused.\<close>

definition refused :: "bytecode_builder \<Rightarrow> add_op \<Rightarrow> bytecode_builder \<Rightarrow> bool" where
  "refused b op b' \<longleftrightarrow> (case op of
     AddString s \<Rightarrow> \<exists>m ds. b' = b\<lparr>bb_string_table := m, bb_debug_strings := ds\<rparr> | _ \<Rightarrow> b' = b)"

definition add_outcome :: "bytecode_builder \<Rightarrow> bytes list \<Rightarrow> add_op \<Rightarrow> int \<Rightarrow> bytecode_builder \<Rightarrow> bytes list \<Rightarrow> bool" where
  "add_outcome b xs op cid b' ys \<longleftrightarrow>
     (if held b xs op then b' = b \<and> (\<exists>j. cid = int j \<and> denotes b xs j op)
      else if table_limit op \<le> table_size b op then cid = -1 \<and> refused b op b'
      else cid = int (table_size b op) \<and> denotes b' ys (table_size b op) op)"

definition extends :: "bytecode_builder \<Rightarrow> bytes list \<Rightarrow> bytecode_builder \<Rightarrow> bytes list \<Rightarrow> bool" where
  "extends b xs b' ys \<longleftrightarrow> (\<exists>cs ss ps ts zs. bb_constants b' = bb_constants b @ cs \<and> ys = xs @ ss \<and> bb_protos b' = bb_protos b @ ps \<and>
     bb_table_shapes b' = bb_table_shapes b @ ts \<and> bb_class_shapes b' = bb_class_shapes b @ zs)"

lemma extendsI:
  "bb_constants b' = bb_constants b @ cs \<Longrightarrow> bb_protos b' = bb_protos b @ ps \<Longrightarrow> bb_table_shapes b' = bb_table_shapes b @ ts \<Longrightarrow>
    bb_class_shapes b' = bb_class_shapes b @ zs \<Longrightarrow> extends b xs b' (xs @ ss)"
  unfolding extends_def by blast

lemma extends_refl [simp]: "extends b xs b xs"
  using extendsI [of b b "[]" "[]" "[]" "[]" xs "[]"] by simp

text \<open>What has been numbered keeps its number.\<close>

lemma denotes_extends: "extends b xs b' ys \<Longrightarrow> denotes b xs j op \<Longrightarrow> denotes b' ys j op"
proof -
  assume e: "extends b xs b' ys" and d: "denotes b xs j op"
  have "const_shape (ts @ us) c = Some t" if "const_shape ts c = Some t" for ts us c t
    using that by (cases c) (auto simp: nth_append split: if_splits)
  then show ?thesis using e d unfolding extends_def by (cases op) (fastforce simp: nth_append)+
qed

lemma shapes_inv_add_scalar:
  assumes "shapes_inv b" and "const_key c = Some k"
  shows "shapes_inv (b\<lparr>bb_constant_map := m, bb_constants := bb_constants b @ [c]\<rparr>)"
proof -
  have "const_shape ts c = None" for ts using assms(2) by (cases c) auto
  moreover have "interns (dhm_map 0 (bb_table_shape_map b)) (const_shape (bb_table_shapes b)) int (bb_constants b)"
    using assms(1) by (simp add: shapes_inv_def)
  ultimately have "interns (dhm_map 0 (bb_table_shape_map b)) (const_shape (bb_table_shapes b)) int
      (bb_constants b @ [c])"
    by (intro interns_push_other)
  then show ?thesis using assms by (auto simp: shapes_inv_def)
qed

lemmas inv_defs = constants_inv_def shapes_inv_def protos_inv_def strings_inv_def refs_inv_def

lemma add_constant_step:
  assumes "bb_inv b xs" and k: "const_key c = Some k" and ref: "\<And>i. c = ConstString i \<Longrightarrow> \<exists>j < length xs. i = string_index j"
  shows "\<exists>cid b'. add_constant k c b = Some (cid, b') \<and> bb_inv b' xs \<and>
    (\<exists>m cs. b' = b\<lparr>bb_constant_map := m, bb_constants := bb_constants b @ cs\<rparr>) \<and>
    (if c \<in> set (bb_constants b) then b' = b \<and> (\<exists>j < length (bb_constants b). cid = int j \<and> bb_constants b ! j = c)
     else if length (bb_constants b) < kMaxConstantCount then
       cid = int (length (bb_constants b)) \<and> bb_constants b' = bb_constants b @ [c]
     else cid = -1 \<and> b' = b)"
proof -
  have inv: "constants_inv b" "shapes_inv b" "protos_inv b" "strings_inv b xs" "refs_inv b xs"
    using assms(1) by (auto simp: bb_inv_def)
  obtain cid b' where r: "add_constant k c b = Some (cid, b')" "constants_inv b'"
    and cs: "if c \<in> set (bb_constants b) then
       b' = b \<and> (\<exists>j < length (bb_constants b). cid = int j \<and> bb_constants b ! j = c)
     else if length (bb_constants b) < kMaxConstantCount then
       cid = int (length (bb_constants b)) \<and>
       (\<exists>m. b' = b\<lparr>bb_constant_map := m, bb_constants := bb_constants b @ [c]\<rparr>)
     else cid = -1 \<and> b' = b"
    using add_constant_correct [OF inv(1) k] by blast
  show ?thesis
  proof (cases "c \<notin> set (bb_constants b) \<and> length (bb_constants b) < kMaxConstantCount")
    case True
    then obtain m where m: "cid = int (length (bb_constants b))"
        "b' = b\<lparr>bb_constant_map := m, bb_constants := bb_constants b @ [c]\<rparr>"
      using cs by auto
    have "refs_inv b' xs" using inv(5) ref unfolding m(2) refs_inv_def by auto
    then have "bb_inv b' xs"
      using r(2) shapes_inv_add_scalar [OF inv(2) k] inv(3,4) unfolding m(2)
      by (simp add: bb_inv_def protos_inv_def strings_inv_def)
    then show ?thesis using r(1) m True by (intro exI [of _ cid] exI [of _ b']) auto
  next
    case False
    then have "b' = b" using cs by (auto split: if_splits)
    moreover have "\<exists>m cs. b = b\<lparr>bb_constant_map := m, bb_constants := bb_constants b @ cs\<rparr>"
      by (intro exI [of _ "bb_constant_map b"] exI [of _ "[]"]) simp
    ultimately show ?thesis using r(1) assms(1) cs False by (intro exI [of _ cid] exI [of _ b']) auto
  qed
qed

lemma bb_inv_strings:
  assumes "bb_inv b xs" and "strings_inv b' (xs @ ss)" and "b' = b\<lparr>bb_string_table := m, bb_debug_strings := ds\<rparr>"
  shows "bb_inv b' (xs @ ss)"
proof -
  have "refs_inv b' (xs @ ss)"
    unfolding refs_inv_def
  proof (intro allI impI)
    fix i assume "ConstString i \<in> set (bb_constants b')"
    then have "ConstString i \<in> set (bb_constants b)" using assms(3) by simp
    then obtain j where "j < length xs" "i = string_index j" using assms(1) unfolding bb_inv_def refs_inv_def by blast
    then show "\<exists>j < length (xs @ ss). i = string_index j" by (intro exI [of _ j]) simp
  qed
  then show ?thesis using assms by (simp add: bb_inv_def constants_inv_def shapes_inv_def protos_inv_def)
qed

text \<open>The outcome every addition has: it returns, keeps the invariant and the numbers given out so
  far, and its number is the right one.\<close>

definition add_result :: "bytecode_builder \<Rightarrow> bytes list \<Rightarrow> add_op \<Rightarrow> bool" where
  "add_result b xs op \<longleftrightarrow> (\<exists>cid b' ys. add_step op b = Some (cid, b') \<and> bb_inv b' ys \<and> extends b xs b' ys \<and>
     add_outcome b xs op cid b' ys)"

lemma add_resultI:
  assumes "add_step op b = Some (cid, b')" and "bb_inv b' ys" and "extends b xs b' ys" and "add_outcome b xs op cid b' ys"
  shows "add_result b xs op"
  unfolding add_result_def using assms by blast

lemma add_scalar_result:
  assumes "bb_inv b xs" and "is_scalar c"
  shows "add_result b xs (AddScalar c)"
proof -
  obtain k where k: "const_key c = Some k" "add_scalar c b = add_constant k c b"
    using add_scalar_eq [OF assms(2), of b] by blast
  have "\<And>i. c = ConstString i \<Longrightarrow> \<exists>j < length xs. i = string_index j" using assms(2) by simp
  from add_constant_step [OF assms(1) k(1) this] obtain cid b' m cs where r: "add_constant k c b = Some (cid, b')" "bb_inv b' xs"
      "b' = b\<lparr>bb_constant_map := m, bb_constants := bb_constants b @ cs\<rparr>"
    and out: "if c \<in> set (bb_constants b) then b' = b \<and> (\<exists>j < length (bb_constants b). cid = int j \<and> bb_constants b ! j = c)
     else if length (bb_constants b) < kMaxConstantCount then
       cid = int (length (bb_constants b)) \<and> bb_constants b' = bb_constants b @ [c]
     else cid = -1 \<and> b' = b" by blast
  have h: "held b xs (AddScalar c) \<longleftrightarrow> c \<in> set (bb_constants b)" by (auto simp: held_def in_set_conv_nth)
  have "add_outcome b xs (AddScalar c) cid b' xs"
    using out unfolding add_outcome_def h by (auto simp: refused_def split: if_splits)
  moreover have "extends b xs b' xs" using extendsI [of b' b cs "[]" "[]" "[]" xs "[]"] r(3) by simp
  ultimately show ?thesis using r(1,2) k(2) by (intro add_resultI [of _ _ cid b' xs]) simp_all
qed

lemma add_string_result:
  assumes "bb_inv b xs" and "length xs + 1 < 2 ^ 32"
  shows "add_result b xs (AddString s)"
proof -
  have si: "strings_inv b xs" using assms(1) by (simp add: bb_inv_def)
  obtain i ys b1 where s: "add_string_table_entry (Some s) b = Some (string_index i, b1)"
    "strings_inv b1 ys" "i < length ys" "ys ! i = s" "if s \<in> set xs then ys = xs \<and> b1 = b else ys = xs @ [s]"
    "\<exists>m ds. b1 = b\<lparr>bb_string_table := m, bb_debug_strings := ds\<rparr>"
    using add_string_table_entry_correct [OF si assms(2), of s] by blast
  then obtain m ds where b1: "b1 = b\<lparr>bb_string_table := m, bb_debug_strings := ds\<rparr>" by blast
  obtain ss where ss: "ys = xs @ ss" using s(5) by (cases "s \<in> set xs") auto
  let ?c = "ConstString (string_index i)" and ?k = "ConstantKey Type_String (ucast (string_index i)) 0"
  have "bb_inv b1 ys" using bb_inv_strings [OF assms(1) s(2) [unfolded ss] b1] unfolding ss .
  moreover have "\<exists>j < length ys. i' = string_index j" if "?c = ConstString i'" for i' using that s(3) by blast
  ultimately obtain cid b' m' cs where r: "add_constant ?k ?c b1 = Some (cid, b')" "bb_inv b' ys"
      "b' = b1\<lparr>bb_constant_map := m', bb_constants := bb_constants b1 @ cs\<rparr>"
    and out: "if ?c \<in> set (bb_constants b1) then b' = b1 \<and> (\<exists>j < length (bb_constants b1). cid = int j \<and> bb_constants b1 ! j = ?c)
     else if length (bb_constants b1) < kMaxConstantCount then
       cid = int (length (bb_constants b1)) \<and> bb_constants b' = bb_constants b1 @ [?c]
     else cid = -1 \<and> b' = b1"
    using add_constant_step [of b1 ys ?c ?k] by fastforce
  have st: "add_step (AddString s) b = Some (cid, b')" using s(1) r(1) by (simp add: add_constant_string_def)
  have same: "bb_constants b1 = bb_constants b" by (simp add: b1)
  have h: "?c \<in> set (bb_constants b) \<and> b1 = b \<and> ys = xs" if held: "held b xs (AddString s)"
  proof -
    obtain j i' where j: "j < length (bb_constants b)" "i' < length xs" "bb_constants b ! j = ConstString (string_index i')" "xs ! i' = s"
      using held by (auto simp: held_def)
    then have "s \<in> set xs" by auto
    then have e: "ys = xs" "b1 = b" using s(5) by simp_all
    moreover from this have "i' = i" using strings_distinct [OF si] j(2,4) s(3,4) nth_eq_iff_index_eq [of xs i' i] by simp
    ultimately show ?thesis using j nth_mem by metis
  qed
  have new: "?c \<notin> set (bb_constants b)" if "\<not> held b xs (AddString s)"
  proof
    assume "?c \<in> set (bb_constants b)"
    then obtain j where j: "j < length (bb_constants b)" "bb_constants b ! j = ?c" by (auto simp: in_set_conv_nth)
    then obtain i' where i': "i' < length xs" "string_index i = string_index i'"
      using assms(1) nth_mem [OF j(1)] unfolding bb_inv_def refs_inv_def by metis
    have "length ys < 2 ^ 32" using s(2) by (simp add: strings_inv_def)
    moreover have "i' < length ys" using i'(1) ss by simp
    ultimately have "i = i'" using inj_onD [OF string_index_inj [of ys] i'(2)] s(3) by simp
    then have "denotes b xs j (AddString s)" using j i'(1) s(4) ss by (auto simp: nth_append)
    then show False using that by (auto simp: held_def)
  qed
  have "add_outcome b xs (AddString s) cid b' ys"
  proof (cases "held b xs (AddString s)")
    case True
    then have "b' = b \<and> (\<exists>j < length (bb_constants b). cid = int j \<and> bb_constants b ! j = ?c)" "ys = xs"
      using out h by simp_all
    moreover from this have "denotes b xs j (AddString s)" if "j < length (bb_constants b)" "bb_constants b ! j = ?c" for j
      using that s(3,4) by auto
    ultimately show ?thesis using True by (auto simp: add_outcome_def)
  next
    case False
    have "refused b (AddString s) b1" using b1 by (auto simp: refused_def)
    then show ?thesis using out new [OF False] False s(3,4) unfolding add_outcome_def same by (auto split: if_splits)
  qed
  moreover have "extends b xs b' ys"
    using extendsI [of b' b cs "[]" "[]" "[]" xs ss] r(3) ss by (simp add: b1)
  ultimately show ?thesis using r(2) by (intro add_resultI [OF st])
qed

lemma add_table_result:
  assumes "bb_inv b xs" and "t \<noteq> table_shape_default"
  shows "add_result b xs (AddTable t)"
proof -
  let ?cs = "bb_constants b" and ?ts = "bb_table_shapes b"
  have inv: "constants_inv b" "shapes_inv b" using assms by (auto simp: bb_inv_def)
  obtain cid b' where r: "add_constant_table t b = Some (cid, b')" "constants_inv b'" "shapes_inv b'"
    and cs: "if \<exists>j < length ?cs. const_shape ?ts (?cs ! j) = Some t
     then b' = b \<and> (\<exists>j < length ?cs. cid = int j \<and> const_shape ?ts (?cs ! j) = Some t)
     else if length ?cs < kMaxConstantCount then
       cid = int (length ?cs) \<and> (\<exists>m. b' = b\<lparr>bb_table_shape_map := m, bb_table_shapes := ?ts @ [t],
         bb_constants := ?cs @ [ConstTable (word_of_nat (length ?ts))]\<rparr>)
     else cid = -1 \<and> b' = b"
    using add_constant_table_correct [OF inv assms(2)] by blast
  have st: "add_step (AddTable t) b = Some (cid, b')" using r(1) by simp
  have h: "held b xs (AddTable t) \<longleftrightarrow> (\<exists>j < length ?cs. const_shape ?ts (?cs ! j) = Some t)" by (auto simp: held_def)
  show ?thesis
  proof (cases "\<not> held b xs (AddTable t) \<and> length ?cs < kMaxConstantCount")
    case False
    then have b': "b' = b" using cs h by (auto split: if_splits)
    then have "add_outcome b xs (AddTable t) cid b' xs"
      using cs False unfolding add_outcome_def h by (auto simp: refused_def split: if_splits)
    then show ?thesis using assms(1) b' by (intro add_resultI [OF st, of xs]) simp_all
  next
    case True
    let ?c = "ConstTable (word_of_nat (length ?ts))"
    obtain m where m: "cid = int (length ?cs)" "b' = b\<lparr>bb_table_shape_map := m, bb_table_shapes := ?ts @ [t],
         bb_constants := ?cs @ [?c]\<rparr>"
      using cs True h by auto
    have u: "unat (word_of_nat (length ?ts) :: u32) = length ?ts"
      using inv by (intro unat_small) (simp add: shapes_inv_def constants_inv_def)
    have "bb_inv b' xs"
      using r(2,3) assms(1) by (simp add: bb_inv_def protos_inv_def strings_inv_def refs_inv_def m(2))
    moreover have "extends b xs b' xs"
      using extendsI [of b' b "[?c]" "[]" "[t]" "[]" xs "[]"] m(2) by simp
    moreover have "add_outcome b xs (AddTable t) cid b' xs" using True u m by (simp add: add_outcome_def)
    ultimately show ?thesis by (intro add_resultI [OF st])
  qed
qed

lemma add_class_result:
  assumes "bb_inv b xs" and "length (bb_class_shapes b) < 2 ^ 32"
  shows "add_result b xs (AddClass c)"
proof (cases "length (bb_constants b) < kMaxConstantCount")
  case False
  then have "add_step (AddClass c) b = Some (-1, b)" by (simp add: add_class_shape_def Let_def)
  moreover have "add_outcome b xs (AddClass c) (-1) b xs" using False by (simp add: add_outcome_def held_def refused_def)
  ultimately show ?thesis using assms(1) by (intro add_resultI [of _ _ "-1" b xs]) simp_all
next
  case True
  let ?c = "ConstClassShape (word_of_nat (length (bb_class_shapes b)))"
  let ?b = "b\<lparr>bb_class_shapes := bb_class_shapes b @ [c], bb_constants := bb_constants b @ [?c]\<rparr>"
  have u: "unat (word_of_nat (length (bb_class_shapes b)) :: u32) = length (bb_class_shapes b)"
    using assms(2) by (simp add: unat_of_nat take_bit_nat_eq_self)
  have "interns (dhm_map 0 (bb_constant_map b)) const_key int (bb_constants b @ [?c])"
    using assms(1) by (intro interns_push_other) (simp_all add: bb_inv_def constants_inv_def)
  moreover have "interns (dhm_map 0 (bb_table_shape_map b)) (const_shape (bb_table_shapes b)) int
      (bb_constants b @ [?c])"
    using assms(1) by (intro interns_push_other) (simp_all add: bb_inv_def shapes_inv_def)
  ultimately have "bb_inv ?b xs"
    using assms(1) u True by (auto simp: bb_inv_def inv_defs)
  moreover have "add_step (AddClass c) b = Some (int (length (bb_constants b)), ?b)"
    using True by (simp add: add_class_shape_def Let_def)
  moreover have "extends b xs ?b xs" using extendsI [of ?b b "[?c]" "[]" "[]" "[c]" xs "[]"] by simp
  moreover have "add_outcome b xs (AddClass c) (int (length (bb_constants b))) ?b xs"
    using True u by (simp add: add_outcome_def held_def)
  ultimately show ?thesis by (intro add_resultI)
qed

lemma add_child_result:
  assumes "bb_inv b xs" and "fid \<noteq> NOT 0"
  shows "add_result b xs (AddChild fid)"
proof -
  let ?ps = "bb_protos b"
  have inv: "protos_inv b" using assms by (simp add: bb_inv_def)
  obtain cid b' where r: "add_child_function fid b = Some (cid, b')" "protos_inv b'"
    and cs: "if fid \<in> set ?ps then b' = b \<and> (\<exists>j < length ?ps. cid = int j \<and> ?ps ! j = fid)
     else if length ?ps < kMaxClosureCount then
       cid = int (length ?ps) \<and> (\<exists>m. b' = b\<lparr>bb_proto_map := m, bb_protos := ?ps @ [fid]\<rparr>)
     else cid = -1 \<and> b' = b"
    using add_child_function_correct [OF inv assms(2)] by blast
  have st: "add_step (AddChild fid) b = Some (cid, b')" using r(1) by simp
  have h: "held b xs (AddChild fid) \<longleftrightarrow> fid \<in> set ?ps" by (auto simp: held_def in_set_conv_nth)
  show ?thesis
  proof (cases "fid \<notin> set ?ps \<and> length ?ps < kMaxClosureCount")
    case True
    then obtain m where m: "cid = int (length ?ps)" "b' = b\<lparr>bb_proto_map := m, bb_protos := ?ps @ [fid]\<rparr>"
      using cs by auto
    have "bb_inv b' xs" using r(2) assms(1) unfolding m(2) by (simp add: bb_inv_def inv_defs)
    moreover have "extends b xs b' xs" using extendsI [of b' b "[]" "[fid]" "[]" "[]" xs "[]"] m(2) by simp
    moreover have "add_outcome b xs (AddChild fid) cid b' xs" using True m h by (simp add: add_outcome_def)
    ultimately show ?thesis by (intro add_resultI [OF st])
  next
    case False
    then have b': "b' = b" using cs by (auto split: if_splits)
    then have "add_outcome b xs (AddChild fid) cid b' xs"
      using cs False unfolding add_outcome_def h by (auto simp: refused_def split: if_splits)
    then show ?thesis using assms(1) b' by (intro add_resultI [OF st, of xs]) simp_all
  qed
qed

section \<open>Properties\<close>

text \<open>C20: the tables of the builder stay consistent under every sequence of additions: from a state
  that satisfies the invariant (a fresh builder does), adding a constant, a string constant, a table
  or class shape or a child function returns and keeps the invariant; whatever has a number keeps it. A
  value that is held is answered with a number it has, and nothing changes (a class shape is always added anew); a new value
  gets the next number and stands there, unless the table is full: then, and only then, the result is -1, and nothing
  changes but that a new string is numbered in the string table.\<close>

theorem add_step_correct:
  assumes "bb_inv b xs" and "add_ok op (length xs)" and "length (bb_class_shapes b) < 2 ^ 32"
  shows "\<exists>cid b' ys. add_step op b = Some (cid, b') \<and> bb_inv b' ys \<and>
    (\<exists>cs ss ps. bb_constants b' = bb_constants b @ cs \<and> ys = xs @ ss \<and> bb_protos b' = bb_protos b @ ps) \<and>
    (\<forall>j op'. denotes b xs j op' \<longrightarrow> denotes b' ys j op') \<and>
    (if held b xs op then b' = b \<and> (\<exists>j. cid = int j \<and> denotes b xs j op)
     else if table_limit op \<le> table_size b op then cid = -1 \<and> refused b op b'
     else cid = int (table_size b op) \<and> denotes b' ys (table_size b op) op)"
proof -
  have "add_result b xs op"
    using add_scalar_result [OF assms(1)] add_string_result [OF assms(1)] add_table_result [OF assms(1)]
      add_class_result [OF assms(1,3)] add_child_result [OF assms(1)] assms(2) by (cases op) simp_all
  then obtain cid b' ys where r: "add_step op b = Some (cid, b')" "bb_inv b' ys" "extends b xs b' ys" "add_outcome b xs op cid b' ys"
    unfolding add_result_def by blast
  moreover have "\<exists>cs ss ps. bb_constants b' = bb_constants b @ cs \<and> ys = xs @ ss \<and> bb_protos b' = bb_protos b @ ps"
    using r(3) unfolding extends_def by blast
  moreover have "\<forall>j op'. denotes b xs j op' \<longrightarrow> denotes b' ys j op'" using denotes_extends [OF r(3)] by blast
  ultimately show ?thesis unfolding add_outcome_def by blast
qed

theorem add_step_correct_witness:
  "\<exists>b cid b' ys. bb_new \<lparr>h_constant = \<lambda>_. 0, h_table_shape = \<lambda>_. 0, h_proto = \<lambda>_. 0, h_string = \<lambda>_. 0\<rparr>
      None = Some b \<and> add_step (AddString [104, 105]) b = Some (cid, b') \<and> bb_inv b' ys \<and> cid = 0 \<and> denotes b' ys 0 (AddString [104, 105])"
proof -
  let ?hs = "\<lparr>h_constant = \<lambda>_. 0, h_table_shape = \<lambda>_. 0, h_proto = \<lambda>_. 0, h_string = \<lambda>_. 0\<rparr>"
  obtain b where b: "bb_new ?hs None = Some b" "bb_inv b []" "bb_class_shapes b = []" "bb_constants b = []"
  proof -
    obtain b where "bb_new ?hs None = Some b" "constants_inv b" "shapes_inv b" "protos_inv b" "strings_inv b []"
        "bb_constants b = []" "bb_class_shapes b = []" using bb_new_inv [of ?hs None] by blast
    then show thesis using that [of b] by (simp add: bb_inv_def refs_inv_def)
  qed
  have n: "\<not> held b [] (AddString [104, 105])" "\<not> table_limit (AddString [104, 105]) \<le> table_size b (AddString [104, 105])"
      "table_size b (AddString [104, 105]) = 0"
    using b(4) by (simp_all add: held_def kMaxConstantCount_def)
  have "add_ok (AddString [104, 105]) (length [])" "length (bb_class_shapes b) < 2 ^ 32" using b(3) by simp_all
  from add_step_correct [OF b(2) this] obtain cid b' ys where r: "add_step (AddString [104, 105]) b = Some (cid, b')" "bb_inv b' ys"
    and o: "if held b [] (AddString [104, 105]) then b' = b \<and> (\<exists>j. cid = int j \<and> denotes b [] j (AddString [104, 105]))
     else if table_limit (AddString [104, 105]) \<le> table_size b (AddString [104, 105]) then cid = -1 \<and> refused b (AddString [104, 105]) b'
     else cid = int (table_size b (AddString [104, 105])) \<and> denotes b' ys (table_size b (AddString [104, 105])) (AddString [104, 105])"
    by blast
  have "cid = 0 \<and> denotes b' ys 0 (AddString [104, 105])" using o n by (simp only: if_False of_nat_0) simp
  then show ?thesis using b(1) r by blast
qed

end
