(* ===== verification/Bytecode_Patch.thy ===== *)
theory Bytecode_Patch
  imports Bytecode_Builder
begin

text \<open>
  Jumps: what \<open>patch_jump_d\<close> and \<open>patch_skip_c\<close> leave in the instruction they patch, the packing of
  import ids, and \<open>fold_jumps\<close>, which retargets every jump to the end of the chain of unconditional
  forward jumps it leads into and turns a jump to a return into that return.
\<close>

section \<open>Folding\<close>






section \<open>Setting a jump offset\<close>

lemma mask16_u32: "(0xffff :: u32) = mask 16"
  by (simp add: mask_eq_exp_minus_1)

lemma ucast_u8_inj [simp]: "(ucast (x :: u8) :: u32) = ucast y \<longleftrightarrow> x = y"
proof
  assume "(ucast x :: u32) = ucast y"
  moreover have "ucast (ucast z :: u32) = z" for z :: u8 by (rule bit_word_eqI) (auto simp: bit_simps)
  ultimately show "x = y" by metis
qed simp



lemma set_d_fields [word_fields]:
  fixes w :: u32 and d :: u16
  defines "w' \<equiv> (w AND 0xffff) OR push_bit 16 (ucast d)"
  shows "insn_op w' = insn_op w" and "LUAU_INSN_A w' = LUAU_INSN_A w" and "LUAU_INSN_D w' = sint d"
    and "w' AND 0xffff = w AND 0xffff"
proof -
  have "ucast (drop_bit 16 w') = d"
    unfolding w'_def mask16_u32 by (rule bit_word_eqI) (auto simp: bit_simps)
  then show "LUAU_INSN_D w' = sint d" by (simp add: LUAU_INSN_D_eq)
  show "insn_op w' = insn_op w" "LUAU_INSN_A w' = LUAU_INSN_A w" "w' AND 0xffff = w AND 0xffff"
    unfolding insn_op_eq LUAU_INSN_A_def w'_def mask16_u32 mask8_u32
    by (rule bit_word_eqI; auto simp: bit_simps)+
qed

lemma or_d_fields [word_fields]:
  fixes w :: u32 and d :: u16
  assumes "LUAU_INSN_D w = 0"
  shows "w OR push_bit 16 (ucast d) = (w AND 0xffff) OR push_bit 16 (ucast d)"
proof -
  have z: "ucast (drop_bit 16 w) = (0 :: u16)"
    using assms by (simp add: LUAU_INSN_D_eq signed_eq_0_iff)
  have "n < 16" if "bit w n" for n
  proof (rule ccontr)
    assume "\<not> n < 16"
    moreover have "n < 32" using that bit_less by blast
    ultimately have "bit (ucast (drop_bit 16 w) :: u16) (n - 16)" using that by (simp add: bit_simps)
    then show False using z by simp
  qed
  then have "w = w AND mask 16" by (intro bit_word_eqI) (auto simp: bit_simps)
  then show ?thesis unfolding mask16_u32 by simp
qed


lemma sint_word_of_int_i16: "as_i16 x = x \<Longrightarrow> sint (word_of_int x :: u16) = x"
  by (simp add: as_i16_def)

section \<open>Chains of unconditional jumps\<close>


















section \<open>Properties\<close>



text \<open>C28: \<open>patch_jump_d\<close> on a recorded but unpatched jump: a distance that fits 16 bits is put into
  the instruction, whose opcode and register stay and whose target, as \<open>getJumpTarget\<close> reads it, is
  the label asked for; a longer one leaves the code alone and asks for expansion; both record the
  jump. A distance of \<open>2^23\<close> or more is refused and changes nothing.\<close>

theorem patch_jump_d_correct:
  assumes "l < length (bb_insns b)" and "t \<le> length (bb_insns b)" and "length (bb_insns b) < 2 ^ 31"
    and "isJumpD (insn_op (bb_insns b ! l))" and "LUAU_INSN_D (bb_insns b ! l) = 0"
  defines "d \<equiv> int t - int l - 1" and "j \<equiv> \<lparr>jump_source = word_of_nat l, jump_target = word_of_nat t\<rparr>"
  shows "if - (2 ^ 15) \<le> d \<and> d < 2 ^ 15 then
      \<exists>w. patch_jump_d l t b = Some (True, b\<lparr>bb_insns := (bb_insns b)[l := w], bb_jumps := bb_jumps b @ [j]\<rparr>) \<and>
        insn_op w = insn_op (bb_insns b ! l) \<and> LUAU_INSN_A w = LUAU_INSN_A (bb_insns b ! l) \<and>
        getJumpTarget w (word_of_nat l) = int t
    else if abs d < 2 ^ 23 then
      patch_jump_d l t b = Some (True, b\<lparr>bb_has_long_jumps := True, bb_jumps := bb_jumps b @ [j]\<rparr>)
    else patch_jump_d l t b = Some (False, b)"
proof -
  let ?i = "bb_insns b ! l"
  let ?w = "(?i AND 0xffff) OR push_bit 16 (ucast (word_of_int d :: u16))"
  have op: "LuauOpcode_from (insn_op ?i) = Some (insn_op ?i)" "insn_op ?i < LOP__COUNT"
    using assms(4) by (auto simp: LuauOpcode_from_def isJumpD_def split: if_splits)
  have w: "wrap_i32 (int t) = int t" "wrap_i32 (int l) = int l" "wrap_i32 d = d"
    using assms(1,2,3) unfolding d_def by (auto intro!: wrap_i32_small)
  have tgt: "getJumpTarget ?w (word_of_nat l) = int t" if "as_i16 d = d"
  proof -
    have "LUAU_INSN_D ?w = d" using set_d_fields(3) [of ?i "word_of_int d"] sint_word_of_int_i16 [OF that] by simp
    moreover have "sint (word_of_nat l :: u32) = int l"
      using w(2) by (simp add: wrap_i32_def)
    moreover have "wrap_i32 (int l + d + 1) = int t" using w(1) by (simp add: d_def)
    ultimately show ?thesis
      using op(2) assms(4) by (simp add: getJumpTarget_def set_d_fields(1) Let_def not_le)
  qed
  have "patch_jump_d l t b = (if as_i16 d = d then
        Some (True, b\<lparr>bb_insns := (bb_insns b)[l := ?w], bb_jumps := bb_jumps b @ [j]\<rparr>)
      else if abs d < 2 ^ 23 then Some (True, b\<lparr>bb_has_long_jumps := True, bb_jumps := bb_jumps b @ [j]\<rparr>)
      else Some (False, b))"
    using assms(1,2,4,5) op(1) w or_d_fields [OF assms(5), of "word_of_int d"]
    by (simp add: patch_jump_d_def Let_def j_def flip: d_def)
  then show ?thesis using tgt set_d_fields(1,2) [of ?i] by (auto simp: as_i16_id_iff)
qed


theorem patch_jump_d_correct_witness:
  "\<exists>b w. bb_insns b = [insn_ad LOP_JUMP 0 0, 0, 0] \<and> insn_op w = LOP_JUMP \<and> getJumpTarget w 0 = 2 \<and>
     patch_jump_d 0 2 b = Some (True, b\<lparr>bb_insns := (bb_insns b)[0 := w],
       bb_jumps := bb_jumps b @ [\<lparr>jump_source = 0, jump_target = 2\<rparr>]\<rparr>)"
proof -
  let ?hs = "\<lparr>h_constant = \<lambda>_. 0, h_table_shape = \<lambda>_. 0, h_proto = \<lambda>_. 0, h_string = \<lambda>_. 0\<rparr>"
  obtain b0 where b0: "bb_new ?hs None = Some b0" using bb_new_inv [of ?hs None] by blast
  let ?b = "b0\<lparr>bb_insns := [insn_ad LOP_JUMP 0 0, 0, 0]\<rparr>"
  show ?thesis
    using patch_jump_d_correct [of 0 ?b 2]
    by (intro exI [of _ ?b]) (auto simp: insn_ad_fields isJumpD_def)
qed

text \<open>\<open>patch_skip_c\<close> puts a distance of 0 to 255 into the C operand of a \<open>LOADB\<close> or a fast call
  and refuses any other, changing nothing; the opcode and the other operands stay, and the target of
  a patched \<open>LOADB\<close> that skips at all, as \<open>getJumpTarget\<close> reads it, is the label asked for, of a fast
  call the instruction behind it.\<close>

lemma patch_skip_c_correct:
  assumes "l < length (bb_insns b)" and "t < 2 ^ 30" and "length (bb_insns b) < 2 ^ 30"
    and "isSkipC (insn_op (bb_insns b ! l)) \<or> isFastCall (insn_op (bb_insns b ! l))"
    and "LUAU_INSN_C (bb_insns b ! l) = 0"
  defines "d \<equiv> int t - int l - 1"
  shows "if 0 \<le> d \<and> d < 2 ^ 8 then
      \<exists>w. patch_skip_c l t b = Some (True, b\<lparr>bb_insns := (bb_insns b)[l := w]\<rparr>) \<and>
        insn_op w = insn_op (bb_insns b ! l) \<and> LUAU_INSN_A w = LUAU_INSN_A (bb_insns b ! l) \<and>
        LUAU_INSN_B w = LUAU_INSN_B (bb_insns b ! l) \<and> uint (LUAU_INSN_C w) = d \<and>
        getJumpTarget w (word_of_nat l) =
          (if isFastCall (insn_op w) then int t + 1 else if d = 0 then -1 else int t)
    else patch_skip_c l t b = Some (False, b)"
proof -
  let ?i = "bb_insns b ! l"
  let ?w = "?i OR push_bit 24 (word_of_int d)"
  have op: "LuauOpcode_from (insn_op ?i) = Some (insn_op ?i)" "insn_op ?i < LOP__COUNT" "\<not> isJumpD (insn_op ?i)"
    using assms(4) by (auto simp: LuauOpcode_from_def isSkipC_def isFastCall_def isJumpD_def split: if_splits)
  have w: "wrap_i32 (int t) = int t" "wrap_i32 (int l) = int l" "wrap_i32 d = d"
    using assms(1,2,3) unfolding d_def by (auto intro!: wrap_i32_small)
  have eq: "patch_skip_c l t b = (if as_u8 d = d then Some (True, b\<lparr>bb_insns := (bb_insns b)[l := ?w]\<rparr>)
      else Some (False, b))"
    using assms(1,4,5) op(1) w by (simp add: patch_skip_c_def Let_def flip: d_def)
  show ?thesis
  proof (cases "0 \<le> d \<and> d < 2 ^ 8")
    case False
    then have "as_u8 d \<noteq> d" using as_u8_id_iff [of d] by blast
    then show ?thesis unfolding if_not_P [OF False] using eq by simp
  next
    case True
    define c where "c = (word_of_int d :: u8)"
    have c: "uint c = d" using True by (simp add: c_def uint_word_of_int)
    have wc: "(word_of_int d :: u32) = ucast c" using c by (metis ucast_eq)
    have f: "insn_op ?w = insn_op ?i" "LUAU_INSN_A ?w = LUAU_INSN_A ?i" "LUAU_INSN_B ?w = LUAU_INSN_B ?i"
      unfolding insn_op_eq LUAU_INSN_A_def LUAU_INSN_B_def mask8_u32
      by (rule bit_word_eqI; auto simp: bit_simps)+
    have "LUAU_INSN_C ?w = LUAU_INSN_C ?i OR ucast c"
      unfolding LUAU_INSN_C_def mask8_u32 wc
      by (rule bit_word_eqI) (auto simp: bit_simps dest: bit_less)
    then have fc: "LUAU_INSN_C ?w = ucast c" using assms(5) by simp
    have uc: "uint (ucast c :: u32) = d" "sint (ucast c :: u32) = d"
      using c True by (simp_all add: wc [symmetric] uint_word_of_int sint_word_of_int_u32 wrap_i32_small)
    have sl: "sint (word_of_nat l :: u32) = int l" using w(2) by (simp add: wrap_i32_def)
    have d: "wrap_i32 (int l + d + 2) = int t + 1" "wrap_i32 (int l + d + 1) = int t"
      using assms(2) wrap_i32_small [of "int t + 1"] w(1) by (simp_all add: d_def add.commute)
    have "ucast c = (0 :: u32) \<longleftrightarrow> d = 0" using uc(1) by (simp add: word_uint_eq_iff)
    then have "getJumpTarget ?w (word_of_nat l) =
        (if isFastCall (insn_op ?w) then int t + 1 else if d = 0 then -1 else int t)"
      using op(2,3) assms(4) d sl uc f(1) fc
      by (auto simp: getJumpTarget_def Let_def not_le isSkipC_def)
    moreover have "as_u8 d = d" using as_u8_id_iff [of d] True by blast
    ultimately show ?thesis
      unfolding if_P [OF True] using eq f fc uc(1) by (intro exI [of _ ?w] conjI) simp_all
  qed
qed

section \<open>Import ids\<close>

lemma below_iff:
  "(x :: u32) < 4 \<longleftrightarrow> take_bit 2 x = x" "(x :: u32) < 1024 \<longleftrightarrow> take_bit 10 x = x"
  by (simp_all add: word_uint_eq_iff unsigned_take_bit_eq take_bit_int_eq_self_iff word_less_def)

lemma bit_below: "(x :: u32) < 4 \<Longrightarrow> bit x n \<Longrightarrow> n < 2" "(x :: u32) < 1024 \<Longrightarrow> bit x n \<Longrightarrow> n < 10"
  unfolding below_iff by (metis bit_take_bit_iff)+

lemma sint_small: "(x :: u32) < 1024 \<Longrightarrow> sint x = uint x"
proof -
  assume "x < 1024"
  moreover have "- 2147483648 \<le> uint x" using order_trans [of _ 0 "uint x"] by simp
  ultimately show ?thesis by (simp add: sint_uint signed_take_bit_int_eq_self_iff word_less_def)
qed

definition pack_import :: "u32 \<Rightarrow> u32 \<Rightarrow> u32 \<Rightarrow> u32 \<Rightarrow> u32" where
  "pack_import c x y z = push_bit 30 c OR push_bit 20 x OR push_bit 10 y OR z"

lemma decompose_pack_import:
  assumes "c < 4" and "x < 1024" and "y < 1024" and "z < 1024"
  shows "decompose_import_id (pack_import c x y z) = (uint c, if uint c > 0 then uint x else -1,
    if uint c > 1 then uint y else -1, if uint c > 2 then uint z else -1)"
proof -
  have m: "(1023 :: u32) = mask 10" by (simp add: mask_eq_exp_minus_1)
  have b: "\<And>n. bit c n \<Longrightarrow> n < 2" "\<And>n. bit x n \<Longrightarrow> n < 10" "\<And>n. bit y n \<Longrightarrow> n < 10" "\<And>n. bit z n \<Longrightarrow> n < 10"
    using bit_below assms by blast+
  have f: "drop_bit 30 (pack_import c x y z) = c" "drop_bit 20 (pack_import c x y z) AND 1023 = x"
    "drop_bit 10 (pack_import c x y z) AND 1023 = y" "pack_import c x y z AND 1023 = z"
    unfolding pack_import_def m by (rule bit_word_eqI; auto simp: bit_simps dest: b)+
  have "c < 1024" using assms(1) by (rule less_trans) simp
  then show ?thesis using assms by (simp add: decompose_import_id_def f sint_small Let_def)
qed

text \<open>C29: an import path of one, two or three constant indices below 1024 survives packing:
  \<open>decompose_import_id\<close> of what \<open>get_import_id\<close>, \<open>get_import_id2\<close> or \<open>get_import_id3\<close> returns
  gives back the count and the indices, and -1 for the absent ones.\<close>

theorem import_id_roundtrip:
  assumes "id0 < 1024" and "id1 < 1024" and "id2 < 1024"
  shows "map_option decompose_import_id (get_import_id id0) = Some (1, uint id0, -1, -1) \<and>
    map_option decompose_import_id (get_import_id2 id0 id1) = Some (2, uint id0, uint id1, -1) \<and>
    map_option decompose_import_id (get_import_id3 id0 id1 id2) = Some (3, uint id0, uint id1, uint id2)"
proof -
  have le: "(x OR y :: u32) < 1024" if "x < 1024" "y < 1024" for x y
    using that unfolding below_iff by (simp add: take_bit_or)
  have "get_import_id id0 = Some (pack_import 1 id0 0 0)" "get_import_id2 id0 id1 = Some (pack_import 2 id0 id1 0)"
    "get_import_id3 id0 id1 id2 = Some (pack_import 3 id0 id1 id2)"
    using assms le by (simp_all add: get_import_id_def get_import_id2_def get_import_id3_def pack_import_def)
  then show ?thesis using assms decompose_pack_import by simp
qed

theorem import_id_roundtrip_witness:
  "map_option decompose_import_id (get_import_id3 5 0 1023) = Some (3, 5, 0, 1023)"
  using import_id_roundtrip [of 5 0 1023] by simp

end
