(* ===== verification/Jump_Expand.thy ===== *)
theory Jump_Expand
  imports Bytecode_Patch
begin

text \<open>
  \<open>BytecodeBuilder::expand_jumps\<close>: when some jump does not fit 16 bits, every jump whose distance
  could outgrow them gets a trampoline (\<open>JUMP +1; JUMPX target; OP -2\<close>), the code is laid out anew and
  all offsets and the ranges of the debug and type information are recomputed. The index
  \<open>current_jump\<close> of the first pass is the list of jumps not yet met; positions in the new code, which
  stay far below \<open>2^32\<close>, are natural numbers.
\<close>

section \<open>The code\<close>

definition kMaxJumpDistanceConservative :: int where
  "kMaxJumpDistanceConservative = 32767 div 3"

definition jump_offset :: "jump \<Rightarrow> int" where
  "jump_offset j = wrap_i32 (sint (jump_target j) - sint (jump_source j) - 1)"

definition is_long_jump :: "jump \<Rightarrow> bool" where
  "is_long_jump j \<longleftrightarrow> abs (jump_offset j) > kMaxJumpDistanceConservative"

fun copy_words :: "u32 list \<Rightarrow> int list \<Rightarrow> nat \<Rightarrow> nat \<Rightarrow> u32 list \<times> int list \<times> nat list
    \<Rightarrow> (u32 list \<times> int list \<times> nat list) option" where
  "copy_words insns lines 0 i st = Some st"
| "copy_words insns lines (Suc n) i (newinsns, newlines, remap) = do {
     remap \<leftarrow> update_checked remap i (length newinsns);
     insn \<leftarrow> index_checked insns i;
     line \<leftarrow> index_checked lines i;
     copy_words insns lines n (i + 1) (newinsns @ [insn], newlines @ [line], remap)
   }"

text \<open>The trampoline before the instruction at \<open>i\<close>, when the next jump starts there and is long.\<close>

definition add_trampoline :: "int list \<Rightarrow> nat \<Rightarrow> jump list \<Rightarrow> u32 list \<times> int list \<Rightarrow> nat
    \<Rightarrow> (jump list \<times> (u32 list \<times> int list) \<times> nat) option" where
  "add_trampoline lines i js st pending =
     (case js of
        [] \<Rightarrow> Some (js, st, pending)
      | j # rest \<Rightarrow>
          if jump_source j = word_of_nat i then
            if is_long_jump j then do {
              line \<leftarrow> index_checked lines i;
              Some (rest, (fst st @ [ucast LOP_JUMP OR push_bit 16 1, ucast LOP_JUMPX],
                           snd st @ [line, line]), pending + 1)
            } else Some (rest, st, pending)
          else Some (js, st, pending))"

function expand_pass :: "u32 list \<Rightarrow> int list \<Rightarrow> nat \<Rightarrow> jump list \<Rightarrow> u32 list \<times> int list \<times> nat list \<Rightarrow> nat
    \<Rightarrow> (jump list \<times> (u32 list \<times> int list \<times> nat list) \<times> nat) option" where
  "expand_pass insns lines i js st pending =
     (if i < length insns then
        let op = insn_op (insns ! i) in
        if \<not> op < LOP__COUNT then None
        else case add_trampoline lines i js (fst st, fst (snd st)) pending of
            None \<Rightarrow> None
          | Some (js, (newinsns, newlines), pending) \<Rightarrow>
              (case copy_words insns lines (getOpLength op) i (newinsns, newlines, snd (snd st)) of
                 None \<Rightarrow> None
               | Some st \<Rightarrow> expand_pass insns lines (i + getOpLength op) js st pending)
      else Some (js, st, pending))"
  by auto
termination expand_pass
  using getOpLength_pos
  by (relation "measure (\<lambda>(insns, _, i, _). length insns - i)")
    (auto simp: Suc_le_eq intro!: diff_less_mono2)

declare expand_pass.simps [simp del]

definition fix_jump :: "nat list \<Rightarrow> jump \<Rightarrow> u32 list \<times> nat \<Rightarrow> (u32 list \<times> nat) option" where
  "fix_jump remap j st = do {
     let (newinsns, pending) = st;
     target \<leftarrow> index_checked remap (unat (jump_target j));
     source \<leftarrow> index_checked remap (unat (jump_source j));
     let newoffset = int target - int source - 1;
     if is_long_jump j then do {
       LUAU_ASSERT (source \<ge> 1);
       insnt \<leftarrow> index_checked newinsns (source - 1);
       insnj \<leftarrow> index_checked newinsns source;
       LUAU_ASSERT (LUAU_INSN_OP insnt = ucast LOP_JUMPX);
       LUAU_ASSERT (pending \<ge> 1);
       Some (newinsns[source - 1 := (insnt AND 0xff) OR push_bit 8 (word_of_int (newoffset + 1)),
                      source := (insnj AND 0xffff) OR push_bit 16 (word_of_int (-2))], pending - 1)
     } else do {
       insn \<leftarrow> index_checked newinsns source;
       LUAU_ASSERT (LUAU_INSN_D insn = jump_offset j);
       LUAU_ASSERT (as_i16 newoffset = newoffset);
       Some (newinsns[source := (insn AND 0xffff) OR push_bit 16 (word_of_int newoffset)], pending)
     }
   }"

fun fix_jumps :: "nat list \<Rightarrow> jump list \<Rightarrow> u32 list \<times> nat \<Rightarrow> (u32 list \<times> nat) option" where
  "fix_jumps remap [] st = Some st"
| "fix_jumps remap (j # js) st = do { st \<leftarrow> fix_jump remap j st; fix_jumps remap js st }"

text \<open>A range \<open>[startpc, endpc)\<close> of the debug or type information in the new code.\<close>

definition remap_range :: "nat list \<Rightarrow> u32 \<Rightarrow> u32 \<Rightarrow> (u32 \<times> u32) option" where
  "remap_range remap startpc endpc = do {
     endpc' \<leftarrow> (if startpc \<noteq> endpc then do {
                  LUAU_ASSERT (endpc \<noteq> 0);
                  e \<leftarrow> index_checked remap (unat (endpc - 1));
                  Some (word_of_nat e + 1)
                } else do { e \<leftarrow> index_checked remap (unat endpc); Some (word_of_nat e) });
     s \<leftarrow> index_checked remap (unat startpc);
     Some (word_of_nat s, endpc')
   }"

fun remap_debug_locals :: "nat list \<Rightarrow> debug_local list \<Rightarrow> debug_local list option" where
  "remap_debug_locals remap [] = Some []"
| "remap_debug_locals remap (l # ls) = do {
     (s, e) \<leftarrow> remap_range remap (dl_startpc l) (dl_endpc l);
     ls \<leftarrow> remap_debug_locals remap ls;
     Some (l\<lparr>dl_startpc := s, dl_endpc := e\<rparr> # ls)
   }"

fun remap_typed_locals :: "nat list \<Rightarrow> typed_local list \<Rightarrow> typed_local list option" where
  "remap_typed_locals remap [] = Some []"
| "remap_typed_locals remap (l # ls) = do {
     (s, e) \<leftarrow> remap_range remap (tl_startpc l) (tl_endpc l);
     ls \<leftarrow> remap_typed_locals remap ls;
     Some (l\<lparr>tl_startpc := s, tl_endpc := e\<rparr> # ls)
   }"

definition expand_jumps :: "bytecode_builder \<Rightarrow> bytecode_builder option" where
  "expand_jumps b =
     (if \<not> bb_has_long_jumps b then Some b
      else do {
        let jumps = sort_key (\<lambda>j. unat (jump_source j)) (bb_jumps b);
        LUAU_ASSERT (length (bb_insns b) = length (bb_lines b));
        (rest, (newinsns, newlines, remap), pending) \<leftarrow>
          expand_pass (bb_insns b) (bb_lines b) 0 jumps ([], [], replicate (length (bb_insns b)) 0) 0;
        LUAU_ASSERT (rest = []);
        LUAU_ASSERT (pending > 0);
        (newinsns, pending) \<leftarrow> fix_jumps remap jumps (newinsns, pending);
        LUAU_ASSERT (pending = 0);
        dls \<leftarrow> remap_debug_locals remap (bb_debug_locals b);
        tls \<leftarrow> remap_typed_locals remap (bb_typed_locals b);
        Some (b\<lparr>bb_insns := newinsns, bb_lines := newlines, bb_jumps := jumps,
          bb_debug_locals := dls, bb_typed_locals := tls\<rparr>)
      })"

section \<open>Layout of the new code\<close>

definition src :: "jump \<Rightarrow> nat" where
  "src j = unat (jump_source j)"

definition tgt :: "jump \<Rightarrow> nat" where
  "tgt j = unat (jump_target j)"

text \<open>The trampolines of the jumps that start before \<open>i\<close>, and where instruction \<open>i\<close> ends up.\<close>

definition tramps :: "jump list \<Rightarrow> nat \<Rightarrow> nat" where
  "tramps js i = length (filter (\<lambda>j. is_long_jump j \<and> src j < i) js)"

definition new_pc :: "jump list \<Rightarrow> nat \<Rightarrow> nat" where
  "new_pc js i = i + 2 * tramps js (Suc i)"

definition jumps_ok :: "u32 list \<Rightarrow> jump list \<Rightarrow> bool" where
  "jumps_ok insns js \<longleftrightarrow> distinct (map src js) \<and>
     (\<forall>j \<in> set js. instr_start insns (src j) \<and> src j < length insns \<and> tgt j < length insns)"

lemma tramps_0 [simp]: "tramps js 0 = 0"
  by (simp add: tramps_def)

lemma tramps_mono: "i \<le> k \<Longrightarrow> tramps js i \<le> tramps js k"
  unfolding tramps_def by (induction js) (auto intro: le_SucI)

lemma tramps_le: "distinct (map src js) \<Longrightarrow> i \<le> k \<Longrightarrow> tramps js k \<le> tramps js i + (k - i)"
proof -
  assume d: "distinct (map src js)" and "i \<le> k"
  let ?A = "{j \<in> set js. is_long_jump j \<and> src j < i}" and ?B = "{j \<in> set js. is_long_jump j \<and> i \<le> src j \<and> src j < k}"
  have len: "tramps js n = card {j \<in> set js. is_long_jump j \<and> src j < n}" for n
    using distinct_card [of "filter (\<lambda>j. is_long_jump j \<and> src j < n) js"] d
    by (simp add: tramps_def distinct_map)
  have "inj_on src ?B" using d by (auto simp: distinct_map intro: inj_on_subset)
  then have "card ?B = card (src ` ?B)" by (simp add: card_image)
  also have "\<dots> \<le> card {i..<k}" by (rule card_mono) auto
  finally have "card ?B \<le> k - i" by simp
  moreover have "{j \<in> set js. is_long_jump j \<and> src j < k} = ?A \<union> ?B" using \<open>i \<le> k\<close> by auto
  then have "tramps js k \<le> card ?A + card ?B" unfolding len using card_Un_le [of ?A ?B] by simp
  ultimately show ?thesis unfolding len by simp
qed

lemma tramps_Suc:
  assumes "distinct (map src js)" and "j \<in> set js" and "src j = i"
  shows "tramps js (Suc i) = tramps js i + (if is_long_jump j then 1 else 0)"
proof -
  obtain as bs where js: "js = as @ j # bs" using assms(2) by (meson split_list)
  have "src j \<notin> src ` (set as \<union> set bs)" using assms(1) by (auto simp: js)
  then have "src k \<noteq> i" if "k \<in> set as \<union> set bs" for k using assms(3) that by (metis imageI)
  then have "filter (\<lambda>j. is_long_jump j \<and> src j < Suc i) xs = filter (\<lambda>j. is_long_jump j \<and> src j < i) xs"
    if "set xs \<subseteq> set as \<union> set bs" for xs
    using that by (intro filter_cong) (auto simp: less_Suc_eq)
  then show ?thesis using assms(3) by (simp add: tramps_def js)
qed

lemma tramps_Suc_other:
  assumes "\<forall>j \<in> set js. src j \<noteq> i"
  shows "tramps js (Suc i) = tramps js i"
  unfolding tramps_def using assms by (intro arg_cong [of _ _ length] filter_cong) (auto simp: less_Suc_eq)

lemma copy_words_eq:
  assumes "i + n \<le> length insns" and "length lines = length insns" and "length rm = length insns"
  shows "copy_words insns lines n i (ni, nl, rm) = Some (ni @ take n (drop i insns), nl @ take n (drop i lines),
    map (\<lambda>k. if i \<le> k \<and> k < i + n then length ni + (k - i) else rm ! k) [0..<length rm])"
  using assms
proof (induction n arbitrary: i ni nl rm)
  case (Suc n)
  have "take (Suc n) (drop i insns) = insns ! i # take n (drop (Suc i) insns)"
    "take (Suc n) (drop i lines) = lines ! i # take n (drop (Suc i) lines)"
    using Suc.prems by (simp_all add: Cons_nth_drop_Suc [symmetric])
  moreover have "map (\<lambda>k. if Suc i \<le> k \<and> k < Suc i + n then length (ni @ [insns ! i]) + (k - Suc i)
        else rm[i := length ni] ! k) [0..<length rm]
      = map (\<lambda>k. if i \<le> k \<and> k < i + Suc n then length ni + (k - i) else rm ! k) [0..<length rm]"
    by (rule map_cong) (auto simp: nth_list_update)
  ultimately show ?case
    using Suc.IH [of "Suc i" "rm[i := length ni]" "ni @ [insns ! i]" "nl @ [lines ! i]"] Suc.prems by simp
qed (auto intro: nth_equalityI)

text \<open>The new code when everything before \<open>i\<close> has been laid out.\<close>

definition laid_out :: "u32 list \<Rightarrow> int list \<Rightarrow> jump list \<Rightarrow> nat \<Rightarrow> u32 list \<times> int list \<times> nat list \<Rightarrow> bool" where
  "laid_out insns lines js i st = (case st of (ni, nl, rm) \<Rightarrow>
     length ni = i + 2 * tramps js i \<and> length nl = length ni \<and> length rm = length insns \<and>
     (\<forall>k < i. rm ! k = new_pc js k \<and> ni ! new_pc js k = insns ! k \<and> nl ! new_pc js k = lines ! k) \<and>
     (\<forall>j \<in> set js. is_long_jump j \<and> src j < i \<longrightarrow>
        ni ! (new_pc js (src j) - 1) = ucast LOP_JUMPX \<and>
        ni ! (new_pc js (src j) - 2) = ucast LOP_JUMP OR push_bit 16 1 \<and>
        nl ! (new_pc js (src j) - 1) = lines ! src j \<and> nl ! (new_pc js (src j) - 2) = lines ! src j))"

lemma new_pc_less:
  assumes "k < i"
  shows "new_pc js k < i + 2 * tramps js i"
  using tramps_mono [of "Suc k" i js] assms by (simp add: new_pc_def)

lemma tramps_inside:
  assumes "\<forall>j \<in> set js. \<not> (i < src j \<and> src j < i + n)" and "i \<le> k" and "k < i + n"
  shows "tramps js (Suc k) = tramps js (Suc i)"
  unfolding tramps_def using assms by (intro arg_cong [of _ _ length] filter_cong) (auto simp: less_Suc_eq_le)

lemma laid_out_copy:
  assumes lo: "laid_out insns lines js i (ni, nl, rm)" and len: "i + n \<le> length insns" "length lines = length insns"
    and tr: "tramp = [] \<and> trl = [] \<and> tramps js (Suc i) = tramps js i \<or>
      tramps js (Suc i) = tramps js i + 1 \<and>
        tramp = [ucast LOP_JUMP OR push_bit 16 1, ucast LOP_JUMPX] \<and> trl = [lines ! i, lines ! i]"
    and ins: "\<forall>j \<in> set js. \<not> (i < src j \<and> src j < i + n)" and n: "0 < n" and d: "distinct (map src js)"
  shows "\<exists>st. copy_words insns lines n i (ni @ tramp, nl @ trl, rm) = Some st \<and> laid_out insns lines js (i + n) st"
proof -
  let ?ni = "(ni @ tramp) @ take n (drop i insns)" and ?nl = "(nl @ trl) @ take n (drop i lines)"
  let ?rm = "map (\<lambda>k. if i \<le> k \<and> k < i + n then length (ni @ tramp) + (k - i) else rm ! k) [0..<length rm]"
  have l: "length ni = i + 2 * tramps js i" "length nl = length ni" "length rm = length insns"
    using lo by (auto simp: laid_out_def)
  have L: "length (ni @ tramp) = new_pc js i" "length (nl @ trl) = new_pc js i"
    using tr l by (auto simp: new_pc_def)
  have ti: "tramps js (i + n) = tramps js (Suc i)" using tramps_inside [OF ins, of "i + n - 1"] n by simp
  have pc: "new_pc js k = new_pc js i + (k - i)" if "i \<le> k" "k < i + n" for k
    using tramps_inside [OF ins that] that by (simp add: new_pc_def)
  have old: "new_pc js k < length ni" if "k < i" for k using new_pc_less [OF that, of js] l(1) by simp
  have c: "copy_words insns lines n i (ni @ tramp, nl @ trl, rm) = Some (?ni, ?nl, ?rm)"
    using copy_words_eq [OF len l(3)] .
  have "?rm ! k = new_pc js k \<and> ?ni ! new_pc js k = insns ! k \<and> ?nl ! new_pc js k = lines ! k"
    if k: "k < i + n" for k
  proof (cases "k < i")
    case True
    then show ?thesis using lo k len l old [OF True] by (simp add: laid_out_def nth_append)
  next
    case False
    then have "?ni ! new_pc js k = insns ! k" "?nl ! new_pc js k = lines ! k"
      using nth_append_length_plus [of "ni @ tramp" "take n (drop i insns)" "k - i"]
        nth_append_length_plus [of "nl @ trl" "take n (drop i lines)" "k - i"] k pc [of k] len L
      by simp_all
    then show ?thesis using False k len l pc [of k] L by simp
  qed
  moreover have "?ni ! (new_pc js (src j) - 1) = ucast LOP_JUMPX \<and>
        ?ni ! (new_pc js (src j) - 2) = ucast LOP_JUMP OR push_bit 16 1 \<and>
        ?nl ! (new_pc js (src j) - 1) = lines ! src j \<and> ?nl ! (new_pc js (src j) - 2) = lines ! src j"
    if j: "j \<in> set js" "is_long_jump j" "src j < i + n" for j
  proof (cases "src j < i")
    case True
    then have "new_pc js (src j) - 1 < length ni" "new_pc js (src j) - 2 < length ni"
      using old [OF True] by linarith+
    then show ?thesis using lo j l True by (simp add: laid_out_def nth_append)
  next
    case False
    then have "src j = i" using ins j by force
    moreover from this have "tramps js (Suc i) = tramps js i + 1" using tramps_Suc [OF d j(1)] j(2) by simp
    ultimately show ?thesis using tr l by (auto simp: new_pc_def nth_append)
  qed
  ultimately have "laid_out insns lines js (i + n) (?ni, ?nl, ?rm)"
    using l len L ti by (simp add: laid_out_def new_pc_def)
  with c show ?thesis by blast
qed


lemma filter_from:
  assumes "sorted (map src js)" and "distinct (map src js)"
  shows "(\<exists>j \<in> set js. src j = i \<and> filter (\<lambda>j. i \<le> src j) js = j # filter (\<lambda>j. Suc i \<le> src j) js) \<or>
    ((\<forall>j \<in> set js. src j \<noteq> i) \<and> filter (\<lambda>j. i \<le> src j) js = filter (\<lambda>j. Suc i \<le> src j) js)"
  using assms
proof (induction js)
  case (Cons x xs)
  show ?case
  proof (cases "src x < i")
    case True
    then show ?thesis using Cons by auto
  next
    case False
    have gt: "src x < src y" if "y \<in> set xs" for y
      using Cons.prems that by (auto simp: image_iff order_le_less)
    then have f: "filter (\<lambda>j. i \<le> src j) xs = xs" "src x = i \<Longrightarrow> filter (\<lambda>j. Suc i \<le> src j) xs = xs"
      "src x \<noteq> i \<Longrightarrow> filter (\<lambda>j. Suc i \<le> src j) xs = xs"
      using False by (fastforce simp: filter_id_conv)+
    show ?thesis using False f gt by (cases "src x = i") fastforce+
  qed
qed simp

lemma filter_skip:
  assumes "\<forall>j \<in> set js. \<not> (i < src j \<and> src j < i + n)" and "0 < n"
  shows "filter (\<lambda>j. Suc i \<le> src j) js = filter (\<lambda>j. i + n \<le> src j) js"
  using assms by (intro filter_cong) (auto simp: Suc_le_eq not_less)

lemma add_trampoline_correct:
  assumes "sorted (map src js)" and d: "distinct (map src js)" and "i < length lines" and "i < 2 ^ 31"
  shows "\<exists>tramp trl. add_trampoline lines i (filter (\<lambda>j. i \<le> src j) js) (ni, nl) (tramps js i)
      = Some (filter (\<lambda>j. Suc i \<le> src j) js, (ni @ tramp, nl @ trl), tramps js (Suc i)) \<and>
    (tramp = [] \<and> trl = [] \<and> tramps js (Suc i) = tramps js i \<or>
     tramps js (Suc i) = tramps js i + 1 \<and>
      tramp = [ucast LOP_JUMP OR push_bit 16 1, ucast LOP_JUMPX] \<and> trl = [lines ! i, lines ! i])"
proof -
  have u: "unat (word_of_nat i :: u32) = i" using assms(4) by (simp add: unat_of_nat take_bit_nat_eq_self)
  have src_eq: "jump_source j = word_of_nat i \<longleftrightarrow> src j = i" for j
    using u by (auto simp: src_def word_unat_eq_iff)
  consider j where "j \<in> set js" "src j = i" "filter (\<lambda>j. i \<le> src j) js = j # filter (\<lambda>j. Suc i \<le> src j) js"
    | "\<forall>j \<in> set js. src j \<noteq> i" "filter (\<lambda>j. i \<le> src j) js = filter (\<lambda>j. Suc i \<le> src j) js"
    using filter_from [OF assms(1,2)] by blast
  then show ?thesis
  proof cases
    case (1 j)
    then show ?thesis
      using tramps_Suc [OF d 1(1,2)] assms(3) src_eq by (cases "is_long_jump j") (auto simp: add_trampoline_def)
  next
    case 2
    have "add_trampoline lines i xs st p = Some (xs, st, p)" if "\<forall>j \<in> set xs. jump_source j \<noteq> word_of_nat i" for xs st p
      using that by (cases xs) (auto simp: add_trampoline_def)
    then have "add_trampoline lines i (filter (\<lambda>j. Suc i \<le> src j) js) (ni, nl) (tramps js i)
        = Some (filter (\<lambda>j. Suc i \<le> src j) js, (ni, nl), tramps js i)"
      using src_eq by auto
    then show ?thesis using 2 tramps_Suc_other [OF 2(1)] by simp
  qed
qed

lemma expand_pass_correct:
  assumes wf: "wf_code insns" and ok: "jumps_ok insns js" and so: "sorted (map src js)"
    and ll: "length lines = length insns" and small: "length insns < 2 ^ 31"
    and "instr_start insns i" and "i \<le> length insns" and "laid_out insns lines js i st"
  shows "\<exists>st'. expand_pass insns lines i (filter (\<lambda>j. i \<le> src j) js) st (tramps js i)
      = Some ([], st', tramps js (length insns)) \<and> laid_out insns lines js (length insns) st'"
  using assms(6-8)
proof (induction "length insns - i" arbitrary: i st rule: less_induct)
  case less
  have d: "distinct (map src js)" and js: "\<forall>j \<in> set js. instr_start insns (src j) \<and> src j < length insns"
    using ok by (auto simp: jumps_ok_def)
  show ?case
  proof (cases "i < length insns")
    case False
    then have "filter (\<lambda>j. i \<le> src j) js = []" "i = length insns" using js less.prems(2) by (auto simp: filter_empty_conv)
    then show ?thesis using less.prems(3) by (subst expand_pass.simps) simp
  next
    case True
    let ?op = "insn_op (insns ! i)" and ?n = "getOpLength (insn_op (insns ! i))"
    obtain ni nl rm where st: "st = (ni, nl, rm)" by (cases st) auto
    have op: "?op < LOP__COUNT" "i + ?n \<le> length insns" using wf less.prems(1) True by (auto simp: wf_code_def)
    have n: "0 < ?n" using getOpLength_pos [of ?op] by linarith
    have ins: "\<forall>j \<in> set js. \<not> (i < src j \<and> src j < i + ?n)"
      using no_start_inside [OF less.prems(1)] js by (metis not_less)
    have ti: "tramps js (i + ?n) = tramps js (Suc i)" using tramps_inside [OF ins, of "i + ?n - 1"] n by simp
    obtain tramp trl where at: "add_trampoline lines i (filter (\<lambda>j. i \<le> src j) js) (ni, nl) (tramps js i)
        = Some (filter (\<lambda>j. Suc i \<le> src j) js, (ni @ tramp, nl @ trl), tramps js (Suc i))"
      "tramp = [] \<and> trl = [] \<and> tramps js (Suc i) = tramps js i \<or>
       tramps js (Suc i) = tramps js i + 1 \<and>
        tramp = [ucast LOP_JUMP OR push_bit 16 1, ucast LOP_JUMPX] \<and> trl = [lines ! i, lines ! i]"
      using add_trampoline_correct [OF so d, of i lines ni nl] True ll small by auto
    obtain st1 where st1: "copy_words insns lines ?n i (ni @ tramp, nl @ trl, rm) = Some st1"
        "laid_out insns lines js (i + ?n) st1"
      using laid_out_copy [OF less.prems(3) [unfolded st] op(2) ll at(2) ins n d] by blast
    have "expand_pass insns lines i (filter (\<lambda>j. i \<le> src j) js) st (tramps js i)
      = expand_pass insns lines (i + ?n) (filter (\<lambda>j. i + ?n \<le> src j) js) st1 (tramps js (i + ?n))"
      using True op(1) at(1) st1(1) filter_skip [OF ins n] ti
      by (subst expand_pass.simps) (simp add: st Let_def)
    moreover have "length insns - (i + ?n) < length insns - i" using n True by simp
    ultimately show ?thesis
      using less.hyps [OF _ instr_start_next [OF less.prems(1)] op(2) st1(2)] by simp
  qed
qed


section \<open>Fixing the offsets\<close>

lemma new_pc_mono: "k < k' \<Longrightarrow> new_pc js k < new_pc js k'"
  using new_pc_less [of k k' js] tramps_mono [of k' "Suc k'" js] by (simp add: new_pc_def)

lemma new_pc_gap:
  assumes "distinct (map src js)" and "j \<in> set js" and "is_long_jump j"
  shows "k < src j \<Longrightarrow> new_pc js k + 3 \<le> new_pc js (src j)" and "2 \<le> new_pc js (src j)"
  using new_pc_less [of k "src j" js] tramps_Suc [OF assms(1,2) refl] assms(3) by (simp_all add: new_pc_def)

lemma new_pc_neq:
  assumes "distinct (map src js)" and "j \<in> set js" and "is_long_jump j"
  shows "new_pc js k \<noteq> new_pc js (src j) - 1" and "new_pc js k \<noteq> new_pc js (src j) - 2"
  using new_pc_gap(1) [OF assms, of k] new_pc_gap(2) [OF assms] new_pc_mono [of "src j" k js]
  by (cases "k < src j"; cases "k = src j"; simp)+

definition newoff :: "jump list \<Rightarrow> jump \<Rightarrow> int" where
  "newoff js j = int (new_pc js (tgt j)) - int (new_pc js (src j)) - 1"

definition op_word :: "u32 list \<Rightarrow> jump list \<Rightarrow> jump \<Rightarrow> u32" where
  "op_word insns js j = (insns ! src j AND 0xffff) OR
     push_bit 16 (word_of_int (if is_long_jump j then -2 else newoff js j))"

definition jumpx_word :: "jump list \<Rightarrow> jump \<Rightarrow> u32" where
  "jumpx_word js j = (ucast LOP_JUMPX AND 0xff) OR push_bit 8 (word_of_int (newoff js j + 1))"

text \<open>The new code when the jumps of \<open>done\<close> have their offsets.\<close>

definition fixed :: "u32 list \<Rightarrow> jump list \<Rightarrow> jump set \<Rightarrow> u32 list \<Rightarrow> bool" where
  "fixed insns js done ni \<longleftrightarrow> length ni = length insns + 2 * tramps js (length insns) \<and>
     (\<forall>k < length insns. k \<notin> src ` done \<longrightarrow> ni ! new_pc js k = insns ! k) \<and>
     (\<forall>j \<in> set js. is_long_jump j \<longrightarrow> ni ! (new_pc js (src j) - 2) = ucast LOP_JUMP OR push_bit 16 1) \<and>
     (\<forall>j \<in> set js. is_long_jump j \<longrightarrow>
        ni ! (new_pc js (src j) - 1) = (if j \<in> done then jumpx_word js j else ucast LOP_JUMPX)) \<and>
     (\<forall>j \<in> done. ni ! new_pc js (src j) = op_word insns js j)"

lemma fixed_insert:
  assumes fx: "fixed insns js done ni" and len: "length ni' = length ni" and "p = new_pc js (src j)"
    and op: "ni' ! p = op_word insns js j"
    and x: "is_long_jump j \<Longrightarrow> ni' ! (p - 1) = jumpx_word js j"
    and code: "\<And>k. k \<noteq> src j \<Longrightarrow> ni' ! new_pc js k = ni ! new_pc js k"
    and jump: "\<And>k. k \<in> set js \<Longrightarrow> is_long_jump k \<Longrightarrow> ni' ! (new_pc js (src k) - 2) = ni ! (new_pc js (src k) - 2)"
    and jumpx: "\<And>k. k \<in> set js \<Longrightarrow> is_long_jump k \<Longrightarrow> k \<noteq> j \<Longrightarrow>
      ni' ! (new_pc js (src k) - 1) = ni ! (new_pc js (src k) - 1)"
    and old: "\<And>k. k \<in> done \<Longrightarrow> ni' ! new_pc js (src k) = ni ! new_pc js (src k)"
  shows "fixed insns js (insert j done) ni'"
proof -
  have "ni' ! new_pc js k = insns ! k" if "k < length insns" "k \<notin> src ` insert j done" for k
    using fx that code [of k] by (auto simp: fixed_def)
  moreover have "ni' ! (new_pc js (src k) - 2) = ucast LOP_JUMP OR push_bit 16 1"
    if "k \<in> set js" "is_long_jump k" for k
    using fx that jump [OF that] by (simp add: fixed_def)
  moreover have "ni' ! (new_pc js (src k) - 1) = (if k \<in> insert j done then jumpx_word js k else ucast LOP_JUMPX)"
    if "k \<in> set js" "is_long_jump k" for k
    using fx that x jumpx [OF that] assms(3) by (cases "k = j") (simp_all add: fixed_def)
  moreover have "ni' ! new_pc js (src k) = op_word insns js k" if "k \<in> insert j done" for k
    using fx that op old [of k] assms(3) by (cases "k = j") (simp_all add: fixed_def)
  ultimately show ?thesis using fx len by (simp add: fixed_def)
qed

lemma fix_jump_step:
  assumes fx: "fixed insns js done ni" and ok: "jumps_ok insns js" and j: "j \<in> set js" "j \<notin> done" "done \<subseteq> set js"
    and rm: "\<forall>k < length insns. rm ! k = new_pc js k" "length rm = length insns"
    and short: "\<not> is_long_jump j \<Longrightarrow> LUAU_INSN_D (insns ! src j) = jump_offset j \<and> as_i16 (newoff js j) = newoff js j"
    and pend: "is_long_jump j \<Longrightarrow> 1 \<le> pending"
  shows "\<exists>ni'. fix_jump rm j (ni, pending) = Some (ni', if is_long_jump j then pending - 1 else pending) \<and>
    fixed insns js (insert j done) ni'"
proof -
  let ?s = "src j" and ?p = "new_pc js (src j)"
  have d: "distinct (map src js)" and st: "?s < length insns" "tgt j < length insns"
    using ok j(1) by (auto simp: jumps_ok_def)
  have inj: "src k \<noteq> ?s" if "k \<in> set js" "k \<noteq> j" for k
    using inj_onD [of src "set js" k j] d j(1) that by (auto simp: distinct_map)
  have pl: "?p < length ni" using new_pc_less [OF st(1), of js] fx by (simp add: fixed_def)
  have sd: "src k \<noteq> ?s" if "k \<in> done" for k using inj [of k] j(2,3) that by auto
  then have "?s \<notin> src ` done" by force
  then have old: "ni ! ?p = insns ! ?s" using fx st(1) by (simp add: fixed_def)
  have ix: "index_checked rm (unat (jump_target j)) = Some (new_pc js (tgt j))"
    "index_checked rm (unat (jump_source j)) = Some ?p"
    using rm st by (simp_all add: src_def tgt_def)
  have neq: "new_pc js k \<noteq> ?p" if "k \<noteq> ?s" for k
    using that new_pc_mono [of k ?s js] new_pc_mono [of ?s k js] by (metis less_irrefl linorder_neqE_nat)
  have upd: "(xs[a := v]) ! c = xs ! c" if "c \<noteq> a" for xs :: "u32 list" and a c v using that by simp
  show ?thesis
  proof (cases "is_long_jump j")
    case False
    let ?ni = "ni[?p := op_word insns js j]"
    have "fix_jump rm j (ni, pending) = Some (?ni, pending)"
      using ix pl old short [OF False] False by (simp add: fix_jump_def Let_def newoff_def op_word_def)
    moreover have "fixed insns js (insert j done) ?ni"
    proof -
      have "new_pc js (src k) - 1 \<noteq> ?p" "new_pc js (src k) - 2 \<noteq> ?p" if "k \<in> set js" "is_long_jump k" for k
        using new_pc_neq [OF d that, of ?s] by auto
      moreover have "new_pc js (src k) \<noteq> ?p" if "k \<in> done" for k by (rule neq [OF sd [OF that]])
      ultimately show ?thesis
        by (intro fixed_insert [OF fx, where p = ?p]) (use pl neq False in \<open>simp_all add: upd\<close>)
    qed
    ultimately show ?thesis using False by auto
  next
    case True
    let ?ni = "ni[?p - 1 := jumpx_word js j, ?p := op_word insns js j]"
    have p2: "2 \<le> ?p" using new_pc_gap(2) [OF d j(1) True] .
    have x: "ni ! (?p - 1) = ucast LOP_JUMPX" using fx j True by (simp add: fixed_def)
    have "fix_jump rm j (ni, pending) = Some (?ni, pending - 1)"
      using ix pl old True p2 x pend [OF True]
      by (simp add: fix_jump_def Let_def newoff_def op_word_def jumpx_word_def LUAU_INSN_OP_def)
    moreover have "fixed insns js (insert j done) ?ni"
    proof -
      have a: "new_pc js (src k) - 1 \<noteq> ?p" "new_pc js (src k) - 2 \<noteq> ?p" if "k \<in> set js" "is_long_jump k" for k
        using new_pc_neq [OF d that, of ?s] by auto
      have b: "new_pc js k \<noteq> ?p - 1" for k using new_pc_neq(1) [OF d j(1) True] .
      have c: "new_pc js (src k) - 1 \<noteq> ?p - 1" "new_pc js (src k) - 2 \<noteq> ?p - 1"
        if "k \<in> set js" "is_long_jump k" "k \<noteq> j" for k
        using new_pc_gap(1) [OF d j(1) True, of "src k"] new_pc_gap(1) [OF d that(1,2), of ?s]
          new_pc_gap(2) [OF d that(1,2)] p2 inj [OF that(1,3)]
        by (cases "src k < ?s"; simp)+
      have e: "new_pc js (src k) \<noteq> ?p" if "k \<in> done" for k by (rule neq [OF sd [OF that]])
      have "?p - 2 \<noteq> ?p - 1" "?p - 1 \<noteq> ?p" using p2 by auto
      then have c2: "new_pc js (src k) - 2 \<noteq> ?p - 1" if "k \<in> set js" "is_long_jump k" for k
        using c(2) [OF that] by (cases "k = j") auto
      show ?thesis
        by (rule fixed_insert [OF fx, where p = ?p])
          (use pl neq True a b c c2 e \<open>?p - 1 \<noteq> ?p\<close> in \<open>simp_all add: upd\<close>)
    qed
    ultimately show ?thesis using True by auto
  qed
qed

lemma fix_jumps_correct:
  assumes "fixed insns js (set ds) ni" and "js = ds @ rest" and ok: "jumps_ok insns js"
    and rm: "\<forall>k < length insns. rm ! k = new_pc js k" "length rm = length insns"
    and short: "\<And>j. j \<in> set js \<Longrightarrow> \<not> is_long_jump j \<Longrightarrow>
      LUAU_INSN_D (insns ! src j) = jump_offset j \<and> as_i16 (newoff js j) = newoff js j"
  shows "\<exists>ni'. fix_jumps rm rest (ni, length (filter is_long_jump rest)) = Some (ni', 0) \<and> fixed insns js (set js) ni'"
  using assms(1,2)
proof (induction rest arbitrary: ds ni)
  case (Cons j rest)
  have "j \<notin> set ds" using ok Cons.prems(2) by (auto simp: jumps_ok_def)
  then obtain ni' where "fix_jump rm j (ni, length (filter is_long_jump (j # rest)))
      = Some (ni', length (filter is_long_jump rest))" "fixed insns js (set (ds @ [j])) ni'"
    using fix_jump_step [OF Cons.prems(1) ok _ _ _ rm, of j "length (filter is_long_jump (j # rest))"]
      short [of j] Cons.prems(2) by (cases "is_long_jump j") auto
  then show ?case using Cons.IH [of "ds @ [j]" ni'] Cons.prems(2) by simp
qed simp

lemma jump_offset_eq:
  assumes "src j < 2 ^ 31" and "tgt j < 2 ^ 31"
  shows "jump_offset j = int (tgt j) - int (src j) - 1"
proof -
  have "sint w = int (unat w)" if "unat w < 2 ^ 31" for w :: u32
  proof -
    have "unat w < 2147483648" using that by simp
    then have "- 2147483648 \<le> int (unat w)" "int (unat w) \<le> 2147483647" by linarith+
    then show ?thesis using wrap_i32_small [of "int (unat w)"] by (simp add: wrap_i32_def)
  qed
  then have "jump_offset j = wrap_i32 (int (tgt j) - int (src j) - 1)"
    using assms by (simp add: jump_offset_def src_def tgt_def)
  moreover have "wrap_i32 (int (tgt j) - int (src j) - 1) = int (tgt j) - int (src j) - 1"
    using assms by (intro wrap_i32_small) simp_all
  ultimately show ?thesis by simp
qed

text \<open>Trampolines at most triple a distance, so the new offset of a short jump fits 16 bits, but for
  one forward offset: \<open>32767 div 3 = 10922\<close> itself is not counted as long.\<close>

lemma short_fits:
  assumes "distinct (map src js)" and "src j < 2 ^ 31" and "tgt j < 2 ^ 31"
    and "\<not> is_long_jump j" and "jump_offset j \<noteq> 10922"
  shows "as_i16 (newoff js j) = newoff js j"
proof -
  have off: "abs (int (tgt j) - int (src j) - 1) \<le> 10922" "int (tgt j) - int (src j) - 1 \<noteq> 10922"
    using assms(4,5) jump_offset_eq [OF assms(2,3)] by (simp_all add: is_long_jump_def kMaxJumpDistanceConservative_def)
  show ?thesis
  proof (cases "src j \<le> tgt j")
    case True
    then show ?thesis
      using off tramps_le [OF assms(1), of "Suc (src j)" "Suc (tgt j)"] tramps_mono [of "Suc (src j)" "Suc (tgt j)" js]
      by (simp add: as_i16_id_iff newoff_def new_pc_def)
  next
    case False
    then show ?thesis
      using off tramps_le [OF assms(1), of "Suc (tgt j)" "Suc (src j)"] tramps_mono [of "Suc (tgt j)" "Suc (src j)" js]
      by (simp add: as_i16_id_iff newoff_def new_pc_def)
  qed
qed

section \<open>The expanded code\<close>

lemma op_word_fields:
  assumes "as_i16 x = x"
  shows "insn_op ((w AND 0xffff) OR push_bit 16 (word_of_int x)) = insn_op w"
    and "LUAU_INSN_D ((w AND 0xffff) OR push_bit 16 (word_of_int x)) = x"
    and "((w AND 0xffff) OR push_bit 16 (word_of_int x)) AND 0xffff = w AND 0xffff"
proof -
  let ?d = "word_of_int x :: u16"
  have "push_bit 16 (word_of_int x) = push_bit 16 (ucast ?d :: u32)"
    by (rule bit_word_eqI) (auto simp: bit_simps)
  then show "insn_op ((w AND 0xffff) OR push_bit 16 (word_of_int x)) = insn_op w"
    "LUAU_INSN_D ((w AND 0xffff) OR push_bit 16 (word_of_int x)) = x"
    "((w AND 0xffff) OR push_bit 16 (word_of_int x)) AND 0xffff = w AND 0xffff"
    using set_d_fields [of w ?d] sint_word_of_int_i16 [OF assms] by simp_all
qed

lemma jumpx_word_fields:
  assumes "- (2 ^ 23) \<le> newoff js j + 1" and "newoff js j + 1 < 2 ^ 23"
  shows "insn_op (jumpx_word js j) = LOP_JUMPX" and "LUAU_INSN_E (jumpx_word js j) = newoff js j + 1"
proof -
  have w: "jumpx_word js j = insn_e LOP_JUMPX (word_of_int (newoff js j + 1))"
    by (simp add: jumpx_word_def insn_e_def)
  have "sint (word_of_int (newoff js j + 1) :: u32) = newoff js j + 1"
    unfolding sint_word_of_int_u32 using assms by (intro wrap_i32_small) simp_all
  then show "insn_op (jumpx_word js j) = LOP_JUMPX" "LUAU_INSN_E (jumpx_word js j) = newoff js j + 1"
    using insn_e_fields(1) [of LOP_JUMPX "word_of_int (newoff js j + 1)"]
      insn_e_fields(2) [of "word_of_int (newoff js j + 1)" LOP_JUMPX] assms unfolding w by simp_all
qed

lemma getJumpTarget_D:
  assumes "isJumpD (insn_op w)" and "LUAU_INSN_D w = d" and "p < 2 ^ 30" and "0 \<le> t" and "t < 2 ^ 31"
    and "int p + d + 1 = t"
  shows "getJumpTarget w (word_of_nat p) = t"
proof -
  have "insn_op w < LOP__COUNT" using assms(1) by (auto simp: isJumpD_def split: if_splits)
  moreover have "sint (word_of_nat p :: u32) = int p"
    using wrap_i32_small [of "int p"] assms(3) by (simp add: wrap_i32_def)
  ultimately show ?thesis
    using assms(1,2,4,5,6) wrap_i32_small [of t] by (simp add: getJumpTarget_def Let_def not_le)
qed

lemma getJumpTarget_X:
  assumes "insn_op w = LOP_JUMPX" and "LUAU_INSN_E w = d" and "p < 2 ^ 30" and "0 \<le> t" and "t < 2 ^ 31"
    and "int p + d + 1 = t"
  shows "getJumpTarget w (word_of_nat p) = t"
proof -
  have "sint (word_of_nat p :: u32) = int p"
    using wrap_i32_small [of "int p"] assms(3) by (simp add: wrap_i32_def)
  then show ?thesis
    using assms(1,2,4,5,6) wrap_i32_small [of t]
    by (simp add: getJumpTarget_def Let_def isJumpD_def isFastCall_def isSkipC_def)
qed

text \<open>What the expanded code is: every instruction but the jumps is copied to its new place; a jump
  keeps its opcode and register, and either leads to the new place of its target or, when long, to
  a \<open>JUMPX\<close> in front of it that does, which falling through skips.\<close>

definition expanded :: "u32 list \<Rightarrow> int list \<Rightarrow> jump list \<Rightarrow> u32 list \<Rightarrow> int list \<Rightarrow> bool" where
  "expanded insns lines js ni nl \<longleftrightarrow>
     length ni = length insns + 2 * tramps js (length insns) \<and> length nl = length ni \<and>
     (\<forall>k < length insns. nl ! new_pc js k = lines ! k \<and>
        (k \<notin> src ` set js \<longrightarrow> ni ! new_pc js k = insns ! k)) \<and>
     (\<forall>j \<in> set js. let p = new_pc js (src j); t = int (new_pc js (tgt j)) in
        ni ! p AND 0xffff = insns ! src j AND 0xffff \<and>
        (if is_long_jump j then
           insn_op (ni ! (p - 2)) = LOP_JUMP \<and> getJumpTarget (ni ! (p - 2)) (word_of_nat (p - 2)) = int p \<and>
           insn_op (ni ! (p - 1)) = LOP_JUMPX \<and> getJumpTarget (ni ! (p - 1)) (word_of_nat (p - 1)) = t \<and>
           getJumpTarget (ni ! p) (word_of_nat p) = int p - 1
         else getJumpTarget (ni ! p) (word_of_nat p) = t))"

lemma new_pc_bound:
  assumes "distinct (map src js)" and "k < n"
  shows "new_pc js k < 3 * n"
  using tramps_le [OF assms(1), of 0 "Suc k"] assms(2) by (simp add: new_pc_def)

lemma fixed_expanded:
  assumes fx: "fixed insns js (set js) ni" and ok: "jumps_ok insns js"
    and nl: "length nl = length ni" "\<forall>k < length insns. nl ! new_pc js k = lines ! k"
    and small: "length insns \<le> 2 ^ 21" and jd: "\<forall>j \<in> set js. isJumpD (insn_op (insns ! src j))"
    and short: "\<And>j. j \<in> set js \<Longrightarrow> \<not> is_long_jump j \<Longrightarrow> as_i16 (newoff js j) = newoff js j"
  shows "expanded insns lines js ni nl"
proof -
  have d: "distinct (map src js)" using ok by (simp add: jumps_ok_def)
  have "let p = new_pc js (src j); t = int (new_pc js (tgt j)) in
        ni ! p AND 0xffff = insns ! src j AND 0xffff \<and>
        (if is_long_jump j then
           insn_op (ni ! (p - 2)) = LOP_JUMP \<and> getJumpTarget (ni ! (p - 2)) (word_of_nat (p - 2)) = int p \<and>
           insn_op (ni ! (p - 1)) = LOP_JUMPX \<and> getJumpTarget (ni ! (p - 1)) (word_of_nat (p - 1)) = t \<and>
           getJumpTarget (ni ! p) (word_of_nat p) = int p - 1
         else getJumpTarget (ni ! p) (word_of_nat p) = t)" if j: "j \<in> set js" for j
  proof -
    let ?p = "new_pc js (src j)" and ?t = "new_pc js (tgt j)" and ?i = "insns ! src j"
    have "?p < 3 * length insns" "?t < 3 * length insns"
      using new_pc_bound [OF d] ok j by (auto simp: jumps_ok_def)
    then have b: "?p < 6291456" "?t < 6291456" using small by auto
    have jd': "isJumpD (insn_op ?i)" using jd j by blast
    have w: "ni ! ?p = op_word insns js j" using fx j by (simp add: fixed_def)
    show ?thesis
    proof (cases "is_long_jump j")
      case False
      note f = op_word_fields [OF short [OF j False], of ?i]
      have "getJumpTarget (ni ! ?p) (word_of_nat ?p) = int ?t"
        using f jd' b False by (intro getJumpTarget_D [where d = "newoff js j"]) (simp_all add: w op_word_def newoff_def)
      then show ?thesis using f(3) False by (simp add: Let_def w op_word_def)
    next
      case True
      note p2 = new_pc_gap(2) [OF d j True]
      have i16: "as_i16 (-2) = -2" by (simp add: as_i16_id_iff)
      note f = op_word_fields [OF i16, of ?i]
      have x: "ni ! (?p - 1) = jumpx_word js j" "ni ! (?p - 2) = insn_ad LOP_JUMP 0 1"
        using fx j True by (simp_all add: fixed_def insn_ad_def)
      have fx: "insn_op (jumpx_word js j) = LOP_JUMPX" "LUAU_INSN_E (jumpx_word js j) = newoff js j + 1"
        using b by (intro jumpx_word_fields; simp add: newoff_def)+
      have "getJumpTarget (ni ! ?p) (word_of_nat ?p) = int ?p - 1"
        using f jd' b True p2 by (intro getJumpTarget_D [where d = "-2"]) (simp_all add: w op_word_def)
      moreover have "getJumpTarget (ni ! (?p - 1)) (word_of_nat (?p - 1)) = int ?t" "insn_op (ni ! (?p - 1)) = LOP_JUMPX"
        unfolding x using fx b p2
        by - (intro getJumpTarget_X [where d = "newoff js j + 1"], simp_all add: newoff_def)
      moreover have "getJumpTarget (ni ! (?p - 2)) (word_of_nat (?p - 2)) = int ?p" "insn_op (ni ! (?p - 2)) = LOP_JUMP"
        unfolding x using b p2
        by - (intro getJumpTarget_D [where d = 1], simp_all add: insn_ad_fields isJumpD_def)
      ultimately show ?thesis using f(3) True by (simp add: Let_def w op_word_def)
    qed
  qed
  moreover have "\<forall>k < length insns. k \<notin> src ` set js \<longrightarrow> ni ! new_pc js k = insns ! k"
    "length ni = length insns + 2 * tramps js (length insns)"
    using fx by (simp_all add: fixed_def)
  ultimately show ?thesis using nl by (simp add: expanded_def)
qed

text \<open>The ranges of the debug and type information: a range of instructions keeps its first and its
  last one.\<close>

definition range_ok :: "nat \<Rightarrow> u32 \<Rightarrow> u32 \<Rightarrow> bool" where
  "range_ok n s e \<longleftrightarrow> unat s < n \<and> unat e \<le> n \<and> (s = e \<or> e \<noteq> 0)"

definition new_range :: "jump list \<Rightarrow> u32 \<Rightarrow> u32 \<Rightarrow> u32 \<times> u32" where
  "new_range js s e = (word_of_nat (new_pc js (unat s)),
     if s = e then word_of_nat (new_pc js (unat e)) else word_of_nat (new_pc js (unat e - 1) + 1))"

lemma remap_range_correct:
  assumes "\<forall>k < length rm. rm ! k = new_pc js k" and "range_ok (length rm) s e"
  shows "remap_range rm s e = Some (new_range js s e)"
proof -
  have "unat (e - 1) = unat e - 1" if "e \<noteq> 0" using that by (simp add: unat_minus_one)
  then show ?thesis
    using assms unat_gt_0 [of e] by (auto simp: remap_range_def new_range_def range_ok_def add.commute)
qed

definition new_debug_local :: "jump list \<Rightarrow> debug_local \<Rightarrow> debug_local" where
  "new_debug_local js l = (let r = new_range js (dl_startpc l) (dl_endpc l) in
     l\<lparr>dl_startpc := fst r, dl_endpc := snd r\<rparr>)"

definition new_typed_local :: "jump list \<Rightarrow> typed_local \<Rightarrow> typed_local" where
  "new_typed_local js l = (let r = new_range js (tl_startpc l) (tl_endpc l) in
     l\<lparr>tl_startpc := fst r, tl_endpc := snd r\<rparr>)"

lemma remap_debug_locals_correct:
  assumes "\<forall>k < length rm. rm ! k = new_pc js k"
  shows "\<forall>l \<in> set ls. range_ok (length rm) (dl_startpc l) (dl_endpc l) \<Longrightarrow>
    remap_debug_locals rm ls = Some (map (new_debug_local js) ls)"
  using remap_range_correct [OF assms]
  by (induction ls) (auto simp: new_debug_local_def Let_def split: prod.splits)

lemma remap_typed_locals_correct:
  assumes "\<forall>k < length rm. rm ! k = new_pc js k"
  shows "\<forall>l \<in> set ls. range_ok (length rm) (tl_startpc l) (tl_endpc l) \<Longrightarrow>
    remap_typed_locals rm ls = Some (map (new_typed_local js) ls)"
  using remap_range_correct [OF assms]
  by (induction ls) (auto simp: new_typed_local_def Let_def split: prod.splits)

text \<open>What expansion relies on: a function whose jumps were recorded by \<open>patch_jump_d\<close>.\<close>

definition expandable :: "bytecode_builder \<Rightarrow> bool" where
  "expandable b \<longleftrightarrow>
     wf_code (bb_insns b) \<and> jumps_ok (bb_insns b) (bb_jumps b) \<and>
     length (bb_lines b) = length (bb_insns b) \<and> length (bb_insns b) \<le> 2 ^ 21 \<and>
     (\<exists>j \<in> set (bb_jumps b). is_long_jump j) \<and>
     (\<forall>j \<in> set (bb_jumps b). isJumpD (insn_op (bb_insns b ! src j)) \<and>
        (is_long_jump j \<or> LUAU_INSN_D (bb_insns b ! src j) = jump_offset j)) \<and>
     (\<forall>l \<in> set (bb_debug_locals b). range_ok (length (bb_insns b)) (dl_startpc l) (dl_endpc l)) \<and>
     (\<forall>l \<in> set (bb_typed_locals b). range_ok (length (bb_insns b)) (tl_startpc l) (tl_endpc l))"

lemma jumps_ok_sort: "jumps_ok insns (sort_key f js) \<longleftrightarrow> jumps_ok insns js"
proof -
  have m: "mset (map src (sort_key f js)) = mset (map src js)" by simp
  have "distinct (map src (sort_key f js)) \<longleftrightarrow> distinct (map src js)"
    using m by (metis distinct_count_atmost_1 set_mset_mset)
  then show ?thesis by (simp add: jumps_ok_def)
qed

lemma expand_layout:
  assumes ok: "expandable b" and js: "js = sort_key (\<lambda>j. unat (jump_source j)) (bb_jumps b)"
  shows "\<exists>n0 nl rm. expand_pass (bb_insns b) (bb_lines b) 0 js ([], [], replicate (length (bb_insns b)) 0) 0
      = Some ([], (n0, nl, rm), length (filter is_long_jump js)) \<and>
    laid_out (bb_insns b) (bb_lines b) js (length (bb_insns b)) (n0, nl, rm)"
proof -
  let ?insns = "bb_insns b" and ?lines = "bb_lines b" and ?n = "length (bb_insns b)"
  have o: "jumps_ok ?insns js" "wf_code ?insns" "length ?lines = ?n" "?n \<le> 2 ^ 21"
    using ok by (auto simp: expandable_def js jumps_ok_sort)
  have so: "sorted (map src js)" using sorted_sort_key [of src "bb_jumps b"] by (simp add: js src_def [abs_def])
  have all: "filter (\<lambda>j. 0 \<le> src j) js = js" by simp
  have tr: "tramps js ?n = length (filter is_long_jump js)"
    unfolding tramps_def using o(1) by (intro arg_cong [of _ _ length] filter_cong) (auto simp: jumps_ok_def)
  have "laid_out ?insns ?lines js 0 ([], [], replicate ?n 0)" by (simp add: laid_out_def)
  then show ?thesis
    using expand_pass_correct [OF o(2,1) so o(3), of 0 "([], [], replicate ?n 0)"] o(4) all tr by auto
qed

lemma expand_code:
  assumes ok: "expandable b" and fits: "\<forall>j \<in> set (bb_jumps b). is_long_jump j \<or> jump_offset j \<noteq> 10922"
    and js: "js = sort_key (\<lambda>j. unat (jump_source j)) (bb_jumps b)"
    and lo: "laid_out (bb_insns b) (bb_lines b) js (length (bb_insns b)) (n0, nl, rm)"
  shows "\<exists>ni. fix_jumps rm js (n0, length (filter is_long_jump js)) = Some (ni, 0) \<and>
    expanded (bb_insns b) (bb_lines b) js ni nl"
proof -
  let ?insns = "bb_insns b" and ?lines = "bb_lines b" and ?n = "length (bb_insns b)"
  have o: "jumps_ok ?insns js" "?n \<le> 2 ^ 21" using ok by (auto simp: expandable_def js jumps_ok_sort)
  have d: "distinct (map src js)" using o(1) by (simp add: jumps_ok_def)
  have l: "length rm = ?n" "\<forall>k < ?n. rm ! k = new_pc js k" "length nl = length n0"
    "\<forall>k < ?n. nl ! new_pc js k = ?lines ! k"
    using lo by (simp_all add: laid_out_def)
  have f0: "fixed ?insns js (set []) n0"
    using lo o(1) by (auto simp: laid_out_def fixed_def jumps_ok_def)
  have sh: "LUAU_INSN_D (?insns ! src j) = jump_offset j \<and> as_i16 (newoff js j) = newoff js j"
    if "j \<in> set js" "\<not> is_long_jump j" for j
  proof -
    have "src j < 2 ^ 31" "tgt j < 2 ^ 31" using o that(1) by (force simp: jumps_ok_def)+
    then show ?thesis using short_fits [OF d _ _ that(2)] ok fits that by (auto simp: expandable_def js)
  qed
  obtain ni where ni: "fix_jumps rm js (n0, length (filter is_long_jump js)) = Some (ni, 0)" "fixed ?insns js (set js) ni"
    using fix_jumps_correct [OF f0 _ o(1) l(2,1) sh] by auto
  have "length n0 = length ni" using lo ni(2) by (simp add: laid_out_def fixed_def)
  then have "expanded ?insns ?lines js ni nl"
    using ok l sh by (intro fixed_expanded [OF ni(2) o(1)]) (auto simp: expandable_def js)
  then show ?thesis using ni(1) by blast
qed

text \<open>C4: \<open>expand_jumps\<close> on a function of up to \<open>2^21\<close> words whose jumps are as \<open>patch_jump_d\<close> records
  them, none of them a short forward jump over exactly 10922 words: it returns; every jump leads
  where it led before, in the new layout, directly or through its trampoline, falling through a
  trampoline reaches the instruction behind it, every other instruction and every line number is
  copied, and the ranges of debug and type information follow their instructions.\<close>

theorem expand_jumps_correct:
  assumes "bb_has_long_jumps b" and "expandable b"
    and "\<forall>j \<in> set (bb_jumps b). is_long_jump j \<or> jump_offset j \<noteq> 10922"
  shows "\<exists>js ni nl. js = sort_key src (bb_jumps b) \<and> expanded (bb_insns b) (bb_lines b) js ni nl \<and>
    expand_jumps b = Some (b\<lparr>bb_insns := ni, bb_lines := nl, bb_jumps := js,
      bb_debug_locals := map (new_debug_local js) (bb_debug_locals b),
      bb_typed_locals := map (new_typed_local js) (bb_typed_locals b)\<rparr>)"
proof -
  define js where js: "js = sort_key (\<lambda>j. unat (jump_source j)) (bb_jumps b)"
  then have src: "js = sort_key src (bb_jumps b)" by (simp add: src_def [abs_def])
  obtain n0 nl rm where e: "expand_pass (bb_insns b) (bb_lines b) 0 js ([], [], replicate (length (bb_insns b)) 0) 0
      = Some ([], (n0, nl, rm), length (filter is_long_jump js))"
    "laid_out (bb_insns b) (bb_lines b) js (length (bb_insns b)) (n0, nl, rm)"
    using expand_layout [OF assms(2) js] by blast
  obtain ni where ni: "fix_jumps rm js (n0, length (filter is_long_jump js)) = Some (ni, 0)"
    "expanded (bb_insns b) (bb_lines b) js ni nl"
    using expand_code [OF assms(2,3) js e(2)] by blast
  have rm: "length rm = length (bb_insns b)" "\<forall>k < length rm. rm ! k = new_pc js k"
    using e(2) by (simp_all add: laid_out_def)
  have "0 < length (filter is_long_jump js)"
    using assms(2) by (auto simp: expandable_def js filter_empty_conv)
  moreover have "remap_debug_locals rm (bb_debug_locals b) = Some (map (new_debug_local js) (bb_debug_locals b))"
    "remap_typed_locals rm (bb_typed_locals b) = Some (map (new_typed_local js) (bb_typed_locals b))"
    using remap_debug_locals_correct [OF rm(2)] remap_typed_locals_correct [OF rm(2)] assms(2) rm(1)
    by (simp_all add: expandable_def)
  moreover have "length (bb_insns b) = length (bb_lines b)" using assms(2) by (simp add: expandable_def)
  ultimately have "expand_jumps b = Some (b\<lparr>bb_insns := ni, bb_lines := nl, bb_jumps := js,
      bb_debug_locals := map (new_debug_local js) (bb_debug_locals b),
      bb_typed_locals := map (new_typed_local js) (bb_typed_locals b)\<rparr>)"
    using assms(1) e(1) ni(1) by (simp add: expand_jumps_def Let_def flip: js)
  with src ni(2) show ?thesis by blast
qed

text \<open>Code of one-word instructions.\<close>

lemma simple_starts:
  assumes "\<forall>w \<in> set insns. getOpLength (insn_op w) = 1"
  shows "n \<le> length insns \<Longrightarrow> nth_start insns n = n"
  using assms by (induction n) auto

lemma simple_code:
  assumes "\<forall>w \<in> set insns. insn_op w < LOP__COUNT \<and> getOpLength (insn_op w) = 1"
  shows "wf_code insns" and "i < length insns \<Longrightarrow> instr_start insns i"
  using assms simple_starts [of insns i] by (auto simp: wf_code_def instr_start_def intro: exI [of _ i])

definition mk_jump :: "nat \<Rightarrow> nat \<Rightarrow> jump" where
  "mk_jump s t = \<lparr>jump_source = word_of_nat s, jump_target = word_of_nat t\<rparr>"

lemma mk_jump_simps [simp]:
  "s < 100000 \<Longrightarrow> src (mk_jump s t) = s"
  "t < 100000 \<Longrightarrow> tgt (mk_jump s t) = t"
  "s < 100000 \<Longrightarrow> t < 100000 \<Longrightarrow> jump_offset (mk_jump s t) = int t - int s - 1"
proof -
  show st: "src (mk_jump s t) = s" if "s < 100000" for s t
    using that by (simp add: mk_jump_def src_def unat_of_nat take_bit_nat_eq_self)
  show tt: "tgt (mk_jump s t) = t" if "t < 100000" for s t
    using that by (simp add: mk_jump_def tgt_def unat_of_nat take_bit_nat_eq_self)
  show "jump_offset (mk_jump s t) = int t - int s - 1" if "s < 100000" "t < 100000"
    using jump_offset_eq [of "mk_jump s t"] st [OF that(1)] tt [OF that(2)] that by simp
qed

text \<open>A row of \<open>n\<close> jumps over 20000 words each, all long, behind one over \<open>n\<close> words.\<close>

definition jump_row :: "nat \<Rightarrow> jump list" where
  "jump_row n = mk_jump 0 n #
     map (\<lambda>i. mk_jump i (i + 20001)) [1..<n + 1]"

definition row_builder :: "nat \<Rightarrow> bytecode_builder \<Rightarrow> bytecode_builder" where
  "row_builder n b = b\<lparr>bb_insns := insn_ad LOP_JUMP 0 (word_of_nat (n - 1)) # replicate 60000 (insn_ad LOP_JUMP 0 0),
     bb_lines := replicate 60001 1, bb_jumps := jump_row n, bb_has_long_jumps := True,
     bb_debug_locals := [], bb_typed_locals := []\<rparr>"

lemma jump_row_src: "n \<le> 20000 \<Longrightarrow> map src (jump_row n) = [0..<n + 1]"
  by (auto simp: jump_row_def upt_conv_Cons comp_def intro!: map_idI)

lemma jump_row_cases:
  assumes "j \<in> set (jump_row n)"
  obtains "j = mk_jump 0 n"
  | i where "1 \<le> i" "i \<le> n" "j = mk_jump i (i + 20001)"
  using assms by (auto simp: jump_row_def)

lemma row_expandable:
  assumes "1 \<le> n" and "n \<le> 20000"
  shows "expandable (row_builder n b)"
proof -
  let ?insns = "insn_ad LOP_JUMP 0 (word_of_nat (n - 1)) # replicate 60000 (insn_ad LOP_JUMP 0 0)"
  note code = simple_code [of ?insns]
  have c: "wf_code ?insns" "\<And>i. i < 60001 \<Longrightarrow> instr_start ?insns i"
    using code by (simp_all add: insn_ad_fields getOpLength_def)
  have "jumps_ok ?insns (jump_row n)"
    using jump_row_src [OF assms(2)] c(2) assms(2) by (auto simp: jumps_ok_def elim!: jump_row_cases)
  moreover have "isJumpD (insn_op (?insns ! src j)) \<and> (is_long_jump j \<or> LUAU_INSN_D (?insns ! src j) = jump_offset j)"
    if "j \<in> set (jump_row n)" for j
    using that
  proof (cases rule: jump_row_cases)
    case 1
    have "sint (word_of_nat (n - 1) :: u16) = int (n - 1)"
      using as_i16_id_iff [of "int (n - 1)"] assms(2) by (simp add: as_i16_def)
    then show ?thesis using assms by (simp add: 1 insn_ad_fields isJumpD_def)
  next
    case (2 i)
    then show ?thesis
      using assms(2) by (simp add: nth_Cons' insn_ad_fields isJumpD_def is_long_jump_def kMaxJumpDistanceConservative_def)
  qed
  moreover have "is_long_jump (jump_row n ! 1)" "jump_row n ! 1 \<in> set (jump_row n)"
    using assms nth_mem [of 1 "jump_row n"] by (simp_all add: jump_row_def is_long_jump_def kMaxJumpDistanceConservative_def del: upt_Suc)
  ultimately show ?thesis using c(1) by (auto simp: expandable_def row_builder_def)
qed

text \<open>The two builders below satisfy what expansion relies on; in the first no jump has the offset
  10922, in the second the first one has.\<close>

theorem expand_jumps_correct_witness:
  "\<exists>b ni nl. bb_jumps b = jump_row 1 \<and> expanded (bb_insns b) (bb_lines b) (jump_row 1) ni nl \<and>
    (\<exists>b'. expand_jumps b = Some b' \<and> bb_insns b' = ni \<and> bb_lines b' = nl)"
proof -
  let ?hs = "\<lparr>h_constant = \<lambda>_. 0, h_table_shape = \<lambda>_. 0, h_proto = \<lambda>_. 0, h_string = \<lambda>_. 0\<rparr>"
  obtain b0 where b0: "bb_new ?hs None = Some b0" using bb_new_inv [of ?hs None] by blast
  let ?b = "row_builder 1 b0"
  have js: "bb_jumps ?b = jump_row 1" by (simp add: row_builder_def)
  have "bb_has_long_jumps ?b" by (simp add: row_builder_def)
  moreover have "\<forall>j \<in> set (bb_jumps ?b). is_long_jump j \<or> jump_offset j \<noteq> 10922"
    unfolding js by (auto elim!: jump_row_cases)
  moreover have "sort_key src (jump_row 1) = jump_row 1"
    using jump_row_src [of 1] by (intro sort_key_id_if_sorted) simp
  ultimately show ?thesis
    using expand_jumps_correct [of ?b] row_expandable [of 1 b0] js by (intro exI [of _ ?b]) auto
qed

text \<open>C30: The exclusion of the offset 10922 is needed: a forward jump over 10922 words that are all
  long jumps is not expanded itself, its distance triples to 32768, and \<open>expand_jumps\<close> fails its own
  16-bit check.\<close>

theorem expand_jumps_off_by_one:
  "\<exists>b. bb_has_long_jumps b \<and> expandable b \<and> length (bb_insns b) = 60001 \<and> expand_jumps b = None"
proof -
  let ?hs = "\<lparr>h_constant = \<lambda>_. 0, h_table_shape = \<lambda>_. 0, h_proto = \<lambda>_. 0, h_string = \<lambda>_. 0\<rparr>"
  obtain b0 where b0: "bb_new ?hs None = Some b0" using bb_new_inv [of ?hs None] by blast
  let ?n = "10923" and ?j = "mk_jump 0 10923"
  let ?b = "row_builder ?n b0" and ?js = "jump_row ?n"
  have so: "sort_key (\<lambda>j. unat (jump_source j)) (bb_jumps ?b) = ?js"
    using jump_row_src [of ?n] sort_key_id_if_sorted [of src ?js]
    by (simp add: row_builder_def src_def [abs_def])
  obtain n0 nl rm where p: "expand_pass (bb_insns ?b) (bb_lines ?b) 0 ?js ([], [], replicate (length (bb_insns ?b)) 0) 0
      = Some ([], (n0, nl, rm), length (filter is_long_jump ?js))"
    "laid_out (bb_insns ?b) (bb_lines ?b) ?js (length (bb_insns ?b)) (n0, nl, rm)"
    using expand_layout [OF row_expandable, of ?n _ b0] so by auto
  have rm: "length rm = 60001" "\<forall>k < 60001. rm ! k = new_pc ?js k"
    using p(2) by (simp_all add: laid_out_def row_builder_def)
  have sl: "\<not> is_long_jump ?j" by (simp add: is_long_jump_def kMaxJumpDistanceConservative_def)
  have "distinct (map src ?js)" "?j \<in> set ?js" using jump_row_src [of ?n] by (simp_all add: jump_row_def [of ?n])
  then have "tramps ?js 1 = 0" using tramps_Suc [of ?js ?j 0] sl by simp
  moreover have "tramps ?js 10924 = 10923"
  proof -
    have "filter (\<lambda>j. is_long_jump j \<and> src j < 10924) ?js = tl ?js"
      using sl by (auto simp: jump_row_def filter_id_conv is_long_jump_def kMaxJumpDistanceConservative_def simp del: upt_Suc)
    then show ?thesis by (simp add: tramps_def jump_row_def del: upt_Suc)
  qed
  ultimately have off: "newoff ?js ?j = 32768" by (simp add: newoff_def new_pc_def)
  have "\<not> as_i16 32768 = 32768" unfolding as_i16_id_iff by simp
  moreover have "int (new_pc ?js 10923) - int (new_pc ?js 0) - 1 = 32768" using off by (simp add: newoff_def)
  ultimately have "fix_jump rm ?j (n0, k) = None" for k
    using rm sl by (simp add: fix_jump_def Let_def mk_jump_def index_checked_def)
  then have "fix_jumps rm ?js (n0, k) = None" for k by (simp add: jump_row_def del: upt_Suc)
  moreover have "bb_has_long_jumps ?b" "length (bb_lines ?b) = length (bb_insns ?b)" by (simp_all add: row_builder_def)
  ultimately have "expand_jumps ?b = None" using p(1) so by (simp add: expand_jumps_def Let_def)
  then show ?thesis using row_expandable [of ?n b0] by (intro exI [of _ ?b]) (simp add: row_builder_def)
qed

end
