(* ===== verification/Bytecode_Write.thy ===== *)
theory Bytecode_Write
  imports Bytecode_Builder Line_Info
begin

text \<open>
  Serialisation: \<open>BytecodeBuilder::write_function\<close>, \<open>end_function\<close>, \<open>write_class_shape\<close>,
  \<open>write_string_table\<close> and \<open>finalize\<close> of \<open>luaur-bytecode/src/methods\<close>. The writers append to a
  buffer, as the code does; the lemmas of the second half say what each appends. The fast flags the
  sources consult are the record \<open>fflags\<close>. The textual dump that \<open>end_function\<close> keeps for
  diagnostics is left out.
\<close>

section \<open>Flags, tags and versions\<close>

record fflags =
  LuauEmitCallFeedback :: bool
  DebugLuauUserDefinedClasses :: bool
  LuauCompileUdataDirect :: bool
  LuauIntegerType2 :: bool
  LuauCompileDuptableConstantPack2 :: bool
  LuauCallFeedback :: bool
  LuauUdataDirectAccess6 :: bool

abbreviation LBC_VERSION_MIN :: u8 where "LBC_VERSION_MIN \<equiv> 3"
abbreviation LBC_VERSION_MAX :: u8 where "LBC_VERSION_MAX \<equiv> 11"
abbreviation LBC_VERSION_TARGET :: u8 where "LBC_VERSION_TARGET \<equiv> 6"
abbreviation LBC_TYPE_VERSION_MIN :: u8 where "LBC_TYPE_VERSION_MIN \<equiv> 1"
abbreviation LBC_TYPE_VERSION_MAX :: u8 where "LBC_TYPE_VERSION_MAX \<equiv> 3"
abbreviation LBC_TYPE_VERSION_TARGET :: u8 where "LBC_TYPE_VERSION_TARGET \<equiv> 3"
abbreviation LBC_CONSTANT_NIL :: u8 where "LBC_CONSTANT_NIL \<equiv> 0"
abbreviation LBC_CONSTANT_BOOLEAN :: u8 where "LBC_CONSTANT_BOOLEAN \<equiv> 1"
abbreviation LBC_CONSTANT_NUMBER :: u8 where "LBC_CONSTANT_NUMBER \<equiv> 2"
abbreviation LBC_CONSTANT_STRING :: u8 where "LBC_CONSTANT_STRING \<equiv> 3"
abbreviation LBC_CONSTANT_IMPORT :: u8 where "LBC_CONSTANT_IMPORT \<equiv> 4"
abbreviation LBC_CONSTANT_TABLE :: u8 where "LBC_CONSTANT_TABLE \<equiv> 5"
abbreviation LBC_CONSTANT_CLOSURE :: u8 where "LBC_CONSTANT_CLOSURE \<equiv> 6"
abbreviation LBC_CONSTANT_VECTOR :: u8 where "LBC_CONSTANT_VECTOR \<equiv> 7"
abbreviation LBC_CONSTANT_TABLE_WITH_CONSTANTS :: u8 where "LBC_CONSTANT_TABLE_WITH_CONSTANTS \<equiv> 8"
abbreviation LBC_CONSTANT_INTEGER :: u8 where "LBC_CONSTANT_INTEGER \<equiv> 9"
abbreviation LBC_CONSTANT_CLASS_SHAPE :: u8 where "LBC_CONSTANT_CLASS_SHAPE \<equiv> 10"
abbreviation LFT_CALLTARGET :: u8 where "LFT_CALLTARGET \<equiv> 0"

definition get_version :: "fflags \<Rightarrow> u8" where
  "get_version fl =
     (if LuauEmitCallFeedback fl then 11
      else if DebugLuauUserDefinedClasses fl then 10
      else if LuauCompileUdataDirect fl then 9
      else if LuauIntegerType2 fl then 8
      else if LuauCompileDuptableConstantPack2 fl then 7
      else LBC_VERSION_TARGET)"

definition get_type_encoding_version :: u8 where
  "get_type_encoding_version = LBC_TYPE_VERSION_TARGET"

section \<open>Writers\<close>

text \<open>\<open>x as u64\<close> for an \<open>i32\<close>, which extends the sign, and for a length.\<close>

abbreviation write_i32_var :: "bytes \<Rightarrow> int \<Rightarrow> bytes" where
  "write_i32_var ss x \<equiv> write_var_int ss (word_of_int x)"

abbreviation write_len :: "bytes \<Rightarrow> nat \<Rightarrow> bytes" where
  "write_len ss n \<equiv> write_var_int ss (word_of_nat n)"

fun write_typed_locals :: "typed_local list \<Rightarrow> bytes \<Rightarrow> bytes option" where
  "write_typed_locals [] ss = Some ss"
| "write_typed_locals (l # ls) ss = do {
     let ss = write_byte ss (ucast (tl_type l));
     let ss = write_byte ss (tl_reg l);
     let ss = write_var_int ss (ucast (tl_startpc l));
     LUAU_ASSERT (tl_endpc l \<ge> tl_startpc l);
     let ss = write_var_int ss (ucast (tl_endpc l - tl_startpc l));
     write_typed_locals ls ss
   }"

definition write_type_info :: "bytes \<Rightarrow> u16 list \<Rightarrow> typed_local list \<Rightarrow> bytes option" where
  "write_type_info typeinfo typed_upvals typed_locals =
     (let ss = write_len [] (length typeinfo);
          ss = write_len ss (length typed_upvals);
          ss = write_len ss (length typed_locals);
          ss = ss @ typeinfo;
          ss = foldl (\<lambda>ss t. write_byte ss (ucast t)) ss typed_upvals
      in write_typed_locals typed_locals ss)"

definition write_types :: "bytecode_builder \<Rightarrow> bfunction \<Rightarrow> bytes \<Rightarrow> bytes option" where
  "write_types b func ss =
     (if fn_typeinfo func \<noteq> [] \<or> bb_typed_upvals b \<noteq> [] \<or> bb_typed_locals b \<noteq> [] then do {
        temp_type_info \<leftarrow> write_type_info (fn_typeinfo func) (bb_typed_upvals b) (bb_typed_locals b);
        Some (write_len ss (length temp_type_info) @ temp_type_info)
      } else Some (write_var_int ss 0))"

definition write_class_shape :: "class_shape \<Rightarrow> bytes \<Rightarrow> bytes" where
  "write_class_shape cs ss =
     (let ss = write_i32_var ss (cs_className cs);
          ss = write_len ss (length (cs_propertyNames cs));
          ss = write_len ss (length (cs_methodNames cs));
          ss = foldl write_i32_var ss (cs_propertyNames cs)
      in foldl write_i32_var ss (cs_methodNames cs))"

fun write_shape_keys :: "table_shape \<Rightarrow> nat \<Rightarrow> nat \<Rightarrow> bytes \<Rightarrow> bytes option" where
  "write_shape_keys shape i 0 ss = Some ss"
| "write_shape_keys shape i (Suc n) ss = do {
     key \<leftarrow> index_checked (ts_keys shape) i;
     write_shape_keys shape (i + 1) n (write_i32_var ss key)
   }"

fun write_shape_entries :: "table_shape \<Rightarrow> nat \<Rightarrow> nat \<Rightarrow> bytes \<Rightarrow> bytes option" where
  "write_shape_entries shape i 0 ss = Some ss"
| "write_shape_entries shape i (Suc n) ss = do {
     key \<leftarrow> index_checked (ts_keys shape) i;
     c \<leftarrow> index_checked (ts_constants shape) i;
     write_shape_entries shape (i + 1) n (write_int (write_i32_var ss key) (word_of_int c))
   }"

fun write_constant :: "fflags \<Rightarrow> bytecode_builder \<Rightarrow> bconstant \<Rightarrow> bytes \<Rightarrow> bytes option" where
  "write_constant fl b ConstNil ss = Some (write_byte ss LBC_CONSTANT_NIL)"
| "write_constant fl b (ConstBoolean v) ss =
     Some (write_byte (write_byte ss LBC_CONSTANT_BOOLEAN) (if v then 1 else 0))"
| "write_constant fl b (ConstNumber v) ss = Some (write_double (write_byte ss LBC_CONSTANT_NUMBER) v)"
| "write_constant fl b (ConstInteger v) ss =
     (let ss = write_byte ss LBC_CONSTANT_INTEGER in
      if sint v < 0 then Some (write_var_int (write_byte ss 1) (NOT v + 1))
      else Some (write_var_int (write_byte ss 0) v))"
| "write_constant fl b (ConstVector x y z w) ss =
     Some (write_float (write_float (write_float (write_float
       (write_byte ss LBC_CONSTANT_VECTOR) x) y) z) w)"
| "write_constant fl b (ConstString i) ss =
     Some (write_var_int (write_byte ss LBC_CONSTANT_STRING) (ucast i))"
| "write_constant fl b (ConstImport iid) ss = Some (write_int (write_byte ss LBC_CONSTANT_IMPORT) iid)"
| "write_constant fl b (ConstTable i) ss = do {
     shape \<leftarrow> index_checked (bb_table_shapes b) (unat i);
     (if LuauCompileDuptableConstantPack2 fl \<and> ts_hasConstants shape then
        write_shape_entries shape 0 (unat (ts_length shape))
          (write_var_int (write_byte ss LBC_CONSTANT_TABLE_WITH_CONSTANTS) (ucast (ts_length shape)))
      else
        write_shape_keys shape 0 (unat (ts_length shape))
          (write_var_int (write_byte ss LBC_CONSTANT_TABLE) (ucast (ts_length shape))))
   }"
| "write_constant fl b (ConstClosure fid) ss =
     Some (write_var_int (write_byte ss LBC_CONSTANT_CLOSURE) (ucast fid))"
| "write_constant fl b (ConstClassShape i) ss = do {
     cs \<leftarrow> index_checked (bb_class_shapes b) (unat i);
     Some (write_class_shape cs (write_byte ss LBC_CONSTANT_CLASS_SHAPE))
   }"

fun write_constants :: "fflags \<Rightarrow> bytecode_builder \<Rightarrow> bconstant list \<Rightarrow> bytes \<Rightarrow> bytes option" where
  "write_constants fl b [] ss = Some ss"
| "write_constants fl b (c # cs) ss = do { ss \<leftarrow> write_constant fl b c ss; write_constants fl b cs ss }"

definition write_lines :: "bytecode_builder \<Rightarrow> bytes \<Rightarrow> bytes option" where
  "write_lines b ss =
     (let has_lines = (0 \<notin> set (bb_lines b)) in
      if has_lines then write_line_info (bb_lines b) (write_byte ss 1) else Some (write_byte ss 0))"

definition write_debug_local :: "bytes \<Rightarrow> debug_local \<Rightarrow> bytes" where
  "write_debug_local ss l =
     write_byte (write_var_int (write_var_int (write_var_int ss (ucast (dl_name l)))
       (ucast (dl_startpc l))) (ucast (dl_endpc l))) (dl_reg l)"

definition write_debug :: "bytecode_builder \<Rightarrow> bytes \<Rightarrow> bytes" where
  "write_debug b ss =
     (let has_debug = (bb_debug_locals b \<noteq> [] \<or> bb_debug_upvals b \<noteq> []) in
      if has_debug then
        let ss = write_byte ss 1;
            ss = write_len ss (length (bb_debug_locals b));
            ss = foldl write_debug_local ss (bb_debug_locals b);
            ss = write_len ss (length (bb_debug_upvals b))
        in foldl (\<lambda>ss u. write_var_int ss (ucast u)) ss (bb_debug_upvals b)
      else write_byte ss 0)"

definition write_feedback :: "fflags \<Rightarrow> bytecode_builder \<Rightarrow> bytes \<Rightarrow> bytes" where
  "write_feedback fl b ss =
     (if LuauEmitCallFeedback fl then
        foldl (\<lambda>ss pc. write_var_int (write_byte ss LFT_CALLTARGET) (ucast pc))
          (write_len ss (length (bb_fb_slots b))) (bb_fb_slots b)
      else ss)"

definition write_function :: "fflags \<Rightarrow> u32 \<Rightarrow> u8 \<Rightarrow> bytecode_builder \<Rightarrow> bytes \<Rightarrow> bytes option" where
  "write_function fl fid flags b ss = do {
     LUAU_ASSERT (fid < word_of_nat (length (bb_functions b)));
     func \<leftarrow> index_checked (bb_functions b) (unat fid);
     let ss = write_byte ss (fn_maxstacksize func);
     let ss = write_byte ss (fn_numparams func);
     let ss = write_byte ss (fn_numupvalues func);
     let ss = write_byte ss (if fn_isvararg func then 1 else 0);
     let ss = write_byte ss flags;
     ss \<leftarrow> write_types b func ss;
     let ss = write_len ss (length (bb_insns b));
     let ss = foldl write_int ss (bb_insns b);
     let ss = write_len ss (length (bb_constants b));
     ss \<leftarrow> write_constants fl b (bb_constants b) ss;
     let ss = write_len ss (length (bb_protos b));
     let ss = foldl (\<lambda>ss child. write_var_int ss (ucast child)) ss (bb_protos b);
     let ss = write_i32_var ss (fn_debuglinedefined func);
     let ss = write_var_int ss (ucast (fn_debugname func));
     ss \<leftarrow> write_lines b ss;
     let ss = write_debug b ss;
     Some (write_feedback fl b ss)
   }"

definition end_function :: "fflags \<Rightarrow> u8 \<Rightarrow> u8 \<Rightarrow> u8 \<Rightarrow> bytecode_builder \<Rightarrow> bytecode_builder option" where
  "end_function fl maxstacksize numupvalues flags b = do {
     LUAU_ASSERT (bb_current_function b \<noteq> NOT 0);
     let cur = bb_current_function b;
     b \<leftarrow> update_current (\<lambda>f. f\<lparr>fn_maxstacksize := maxstacksize, fn_numupvalues := numupvalues\<rparr>) b;
     let b = (case bb_encoder b of
                Some encode \<Rightarrow> b\<lparr>bb_insns := encode (bb_insns b)\<rparr>
              | None \<Rightarrow> b);
     data \<leftarrow> write_function fl cur flags b [];
     b \<leftarrow> update_current (\<lambda>f. f\<lparr>fn_data := data\<rparr>) b;
     Some (b\<lparr>bb_current_function := NOT 0,
       bb_total_instruction_count := bb_total_instruction_count b + length (bb_insns b),
       bb_insns := [], bb_lines := [], bb_constants := [], bb_protos := [], bb_jumps := [],
       bb_fb_slots := [], bb_table_shapes := [], bb_debug_locals := [], bb_debug_upvals := [],
       bb_typed_locals := [], bb_typed_upvals := [],
       bb_constant_map := dh_clear (ItemInterfaceMap 0) (bb_constant_map b),
       bb_table_shape_map := dh_clear (ItemInterfaceMap 0) (bb_table_shape_map b),
       bb_proto_map := dh_clear (ItemInterfaceMap 0) (bb_proto_map b)\<rparr>)
   }"

text \<open>\<open>write_string_table\<close> fills an array of \<open>count\<close> uninitialised references; a slot that is not
  filled, and a null reference, are \<open>None\<close>.\<close>

fun fill_strings :: "(string_ref \<times> u32) list \<Rightarrow> string_ref list \<Rightarrow> string_ref list option" where
  "fill_strings [] strings = Some strings"
| "fill_strings ((s, index) # items) strings = do {
     LUAU_ASSERT (index > 0 \<and> unat index \<le> length strings);
     strings \<leftarrow> update_checked strings (unat index - 1) s;
     fill_strings items strings
   }"

fun write_strings :: "string_ref list \<Rightarrow> bytes \<Rightarrow> bytes option" where
  "write_strings [] ss = Some ss"
| "write_strings (s # rest) ss = do {
     data \<leftarrow> s;
     write_strings rest (write_len ss (length data) @ data)
   }"

definition write_string_table :: "bytecode_builder \<Rightarrow> bytes \<Rightarrow> bytes option" where
  "write_string_table b ss = do {
     let t = bb_string_table b;
     let count = dh_size t;
     strings \<leftarrow> fill_strings (const_iterator_items (ItemInterfaceMap 0) t (first_occupied (ItemInterfaceMap 0) t))
       (replicate count None);
     write_strings strings (write_len ss (length strings))
   }"

text \<open>The first loop of \<open>finalize\<close>, and the one that writes the type mapping; \<open>n\<close> counts the user
  types that are left.\<close>

fun name_used_types :: "nat \<Rightarrow> nat \<Rightarrow> bytecode_builder \<Rightarrow> bytecode_builder option" where
  "name_used_types i 0 b = Some b"
| "name_used_types i (Suc n) b = do {
     ut \<leftarrow> index_checked (bb_userdata_types b) i;
     b \<leftarrow> (if ut_used ut then do {
             (ref, b) \<leftarrow> add_string_table_entry (Some (ut_name ut)) b;
             Some (b\<lparr>bb_userdata_types := (bb_userdata_types b)[i := ut\<lparr>ut_nameRef := ref\<rparr>]\<rparr>)
           } else Some b);
     name_used_types (i + 1) n b
   }"

fun write_type_mapping :: "nat \<Rightarrow> userdata_type list \<Rightarrow> bytes \<Rightarrow> bytes" where
  "write_type_mapping i [] ss = ss"
| "write_type_mapping i (ut # uts) ss =
     write_type_mapping (i + 1) uts
       (if ut_used ut then write_var_int (write_byte ss (word_of_nat (i + 1))) (ucast (ut_nameRef ut)) else ss)"

definition finalize :: "fflags \<Rightarrow> bytecode_builder \<Rightarrow> bytecode_builder option" where
  "finalize fl b = do {
     LUAU_ASSERT (bb_bytecode b = []);
     b \<leftarrow> name_used_types 0 (length (bb_userdata_types b)) b;
     let version = get_version fl;
     LUAU_ASSERT (version \<ge> LBC_VERSION_MIN \<and> version \<le> LBC_VERSION_MAX);
     let bytecode = [version];
     let typesversion = get_type_encoding_version;
     LUAU_ASSERT (typesversion \<ge> LBC_TYPE_VERSION_MIN \<and> typesversion \<le> LBC_TYPE_VERSION_MAX);
     let bytecode = write_byte bytecode typesversion;
     bytecode \<leftarrow> write_string_table b bytecode;
     let bytecode = write_type_mapping 0 (bb_userdata_types b) bytecode;
     let bytecode = write_byte bytecode 0;
     let bytecode = write_len bytecode (length (bb_functions b));
     let bytecode = foldl (\<lambda>ss func. ss @ fn_data func) bytecode (bb_functions b);
     LUAU_ASSERT (unat (bb_main_function b) < length (bb_functions b));
     let bytecode = write_var_int bytecode (ucast (bb_main_function b));
     Some (b\<lparr>bb_bytecode := bytecode\<rparr>)
   }"

definition get_bytecode :: "bytecode_builder \<Rightarrow> bytes option" where
  "get_bytecode b = do { LUAU_ASSERT (bb_bytecode b \<noteq> []); Some (bb_bytecode b) }"

definition get_function_data :: "u32 \<Rightarrow> bytecode_builder \<Rightarrow> bytes option" where
  "get_function_data fid b = do {
     func \<leftarrow> index_checked (bb_functions b) (unat fid);
     Some (fn_data func)
   }"

definition get_total_instruction_count :: "bytecode_builder \<Rightarrow> nat" where
  "get_total_instruction_count b = bb_total_instruction_count b"

section \<open>What the writers append\<close>

text \<open>The bytes of a value, independent of the buffer they are appended to.\<close>

abbreviation u32_var :: "u32 \<Rightarrow> bytes" where
  "u32_var v \<equiv> var_int (ucast v)"

abbreviation int_bytes :: "u32 \<Rightarrow> bytes" where
  "int_bytes v \<equiv> le_bytes 4 (unat v)"

abbreviation len_bytes :: "nat \<Rightarrow> bytes" where
  "len_bytes n \<equiv> var_int (word_of_nat n)"

definition typed_local_bytes :: "typed_local \<Rightarrow> bytes" where
  "typed_local_bytes l = [ucast (tl_type l), tl_reg l] @ u32_var (tl_startpc l) @ u32_var (tl_endpc l - tl_startpc l)"

definition type_info_bytes :: "bytes \<Rightarrow> u16 list \<Rightarrow> typed_local list \<Rightarrow> bytes" where
  "type_info_bytes ti us ls = len_bytes (length ti) @ len_bytes (length us) @ len_bytes (length ls) @
     ti @ map ucast us @ concat (map typed_local_bytes ls)"

definition types_bytes :: "bytecode_builder \<Rightarrow> bfunction \<Rightarrow> bytes" where
  "types_bytes b func =
     (let ti = fn_typeinfo func; us = bb_typed_upvals b; ls = bb_typed_locals b in
      if ti = [] \<and> us = [] \<and> ls = [] then var_int 0
      else len_bytes (length (type_info_bytes ti us ls)) @ type_info_bytes ti us ls)"

definition class_shape_bytes :: "class_shape \<Rightarrow> bytes" where
  "class_shape_bytes cs = var_int (word_of_int (cs_className cs)) @ len_bytes (length (cs_propertyNames cs)) @
     len_bytes (length (cs_methodNames cs)) @
     concat (map (\<lambda>n. var_int (word_of_int n)) (cs_propertyNames cs @ cs_methodNames cs))"

text \<open>The entries of a table shape that are written.\<close>

definition shape_keys :: "table_shape \<Rightarrow> int list" where
  "shape_keys s = take (unat (ts_length s)) (ts_keys s)"

definition shape_entries :: "table_shape \<Rightarrow> (int \<times> int) list" where
  "shape_entries s = zip (shape_keys s) (ts_constants s)"

definition packed :: "fflags \<Rightarrow> table_shape \<Rightarrow> bool" where
  "packed fl s \<longleftrightarrow> LuauCompileDuptableConstantPack2 fl \<and> ts_hasConstants s"

fun constant_bytes :: "fflags \<Rightarrow> bytecode_builder \<Rightarrow> bconstant \<Rightarrow> bytes" where
  "constant_bytes fl b ConstNil = [LBC_CONSTANT_NIL]"
| "constant_bytes fl b (ConstBoolean v) = [LBC_CONSTANT_BOOLEAN, if v then 1 else 0]"
| "constant_bytes fl b (ConstNumber v) = [LBC_CONSTANT_NUMBER] @ le_bytes 8 (unat v)"
| "constant_bytes fl b (ConstInteger v) = [LBC_CONSTANT_INTEGER] @
     (if sint v < 0 then [1] @ var_int (NOT v + 1) else [0] @ var_int v)"
| "constant_bytes fl b (ConstVector x y z w) = [LBC_CONSTANT_VECTOR] @ concat (map int_bytes [x, y, z, w])"
| "constant_bytes fl b (ConstString i) = [LBC_CONSTANT_STRING] @ u32_var i"
| "constant_bytes fl b (ConstImport iid) = [LBC_CONSTANT_IMPORT] @ int_bytes iid"
| "constant_bytes fl b (ConstTable i) =
     (let s = bb_table_shapes b ! unat i in
      if packed fl s then [LBC_CONSTANT_TABLE_WITH_CONSTANTS] @ u32_var (ts_length s) @
        concat (map (\<lambda>(k, c). var_int (word_of_int k) @ int_bytes (word_of_int c)) (shape_entries s))
      else [LBC_CONSTANT_TABLE] @ u32_var (ts_length s) @
        concat (map (\<lambda>k. var_int (word_of_int k)) (shape_keys s)))"
| "constant_bytes fl b (ConstClosure fid) = [LBC_CONSTANT_CLOSURE] @ u32_var fid"
| "constant_bytes fl b (ConstClassShape i) =
     [LBC_CONSTANT_CLASS_SHAPE] @ class_shape_bytes (bb_class_shapes b ! unat i)"

text \<open>What the writer needs of a constant: its shape exists and has as many entries as it says.\<close>

definition shape_sized :: "table_shape \<Rightarrow> bool" where
  "shape_sized s \<longleftrightarrow> unat (ts_length s) \<le> length (ts_keys s) \<and> unat (ts_length s) \<le> length (ts_constants s)"

fun constant_written :: "bytecode_builder \<Rightarrow> bconstant \<Rightarrow> bool" where
  "constant_written b (ConstTable i) \<longleftrightarrow>
     unat i < length (bb_table_shapes b) \<and> shape_sized (bb_table_shapes b ! unat i)"
| "constant_written b (ConstClassShape i) \<longleftrightarrow> unat i < length (bb_class_shapes b)"
| "constant_written b _ \<longleftrightarrow> True"

named_theorems writes \<open>what the writers append\<close>

lemmas [writes] = write_byte_def write_int_def write_float_def write_double_def

lemma write_var_int_writes [writes]: "NO_MATCH [] ss \<Longrightarrow> write_var_int ss v = ss @ var_int v"
  by (rule write_var_int_append)

lemma foldl_writes:
  assumes "\<And>ss x. f ss x = ss @ g x"
  shows "foldl f ss xs = ss @ concat (map g xs)"
  using assms by (induction xs arbitrary: ss) auto

lemma concat_singletons: "concat (map (\<lambda>x. [f x]) xs) = map f xs"
  by (induction xs) auto

lemma write_typed_locals_eq:
  "\<forall>l \<in> set ls. tl_startpc l \<le> tl_endpc l \<Longrightarrow>
    write_typed_locals ls ss = Some (ss @ concat (map typed_local_bytes ls))"
  by (induction ls arbitrary: ss) (simp_all add: writes typed_local_bytes_def)

lemma write_type_info_eq:
  assumes "\<forall>l \<in> set ls. tl_startpc l \<le> tl_endpc l"
  shows "write_type_info ti us ls = Some (type_info_bytes ti us ls)"
proof -
  have "foldl (\<lambda>ss t. write_byte ss (ucast t)) ss us = ss @ map ucast us" for ss
    using foldl_writes [of "\<lambda>ss t. write_byte ss (ucast t)" "\<lambda>t. [ucast t]" ss us]
    by (simp add: writes concat_singletons)
  then show ?thesis
    using write_typed_locals_eq [OF assms] by (simp add: write_type_info_def type_info_bytes_def writes)
qed

lemma write_types_eq:
  assumes "\<forall>l \<in> set (bb_typed_locals b). tl_startpc l \<le> tl_endpc l"
  shows "write_types b func ss = Some (ss @ types_bytes b func)"
  using write_type_info_eq [OF assms] by (auto simp: write_types_def types_bytes_def Let_def writes)

lemma write_shape_keys_eq:
  "i + n \<le> length (ts_keys s) \<Longrightarrow>
    write_shape_keys s i n ss = Some (ss @ concat (map (\<lambda>k. var_int (word_of_int k)) (take n (drop i (ts_keys s)))))"
  by (induction n arbitrary: i ss) (simp_all add: writes take_Suc_conv_app_nth Cons_nth_drop_Suc [symmetric])

lemma write_shape_entries_eq:
  "i + n \<le> length (ts_keys s) \<Longrightarrow> i + n \<le> length (ts_constants s) \<Longrightarrow>
    write_shape_entries s i n ss = Some (ss @ concat (map (\<lambda>(k, c). var_int (word_of_int k) @ int_bytes (word_of_int c))
      (zip (take n (drop i (ts_keys s))) (drop i (ts_constants s)))))"
  by (induction n arbitrary: i ss) (simp_all add: writes Cons_nth_drop_Suc [symmetric])

lemma write_class_shape_eq: "write_class_shape cs ss = ss @ class_shape_bytes cs"
  using foldl_writes [of "\<lambda>ss x. write_var_int ss (word_of_int x)" "\<lambda>n. var_int (word_of_int n)"]
  by (simp add: write_class_shape_def class_shape_bytes_def writes)

lemma write_constant_eq:
  "constant_written b c \<Longrightarrow> write_constant fl b c ss = Some (ss @ constant_bytes fl b c)"
  using write_shape_keys_eq [of 0] write_shape_entries_eq [of 0]
  by (cases c) (simp_all add: writes write_class_shape_eq shape_keys_def shape_entries_def shape_sized_def packed_def Let_def)

lemma write_constants_eq:
  "\<forall>c \<in> set cs. constant_written b c \<Longrightarrow>
    write_constants fl b cs ss = Some (ss @ concat (map (constant_bytes fl b) cs))"
  by (induction cs arbitrary: ss) (simp_all add: write_constant_eq)

text \<open>The rest of a function. The line table, when there is one, is the only part whose bytes the
  code searches for; \<open>line_table_correct\<close> says that they do not depend on the buffer.\<close>

definition lines_bytes :: "int list \<Rightarrow> bytes" where
  "lines_bytes lines = (if 0 \<in> set lines then [0] else 1 # the (write_line_info lines []))"

definition debug_local_bytes :: "debug_local \<Rightarrow> bytes" where
  "debug_local_bytes l = u32_var (dl_name l) @ u32_var (dl_startpc l) @ u32_var (dl_endpc l) @ [dl_reg l]"

definition debug_bytes :: "debug_local list \<Rightarrow> u32 list \<Rightarrow> bytes" where
  "debug_bytes ls us =
     (if ls = [] \<and> us = [] then [0]
      else [1] @ len_bytes (length ls) @ concat (map debug_local_bytes ls) @
        len_bytes (length us) @ concat (map u32_var us))"

definition feedback_bytes :: "fflags \<Rightarrow> u32 list \<Rightarrow> bytes" where
  "feedback_bytes fl slots =
     (if LuauEmitCallFeedback fl then
        len_bytes (length slots) @ concat (map (\<lambda>pc. LFT_CALLTARGET # u32_var pc) slots)
      else [])"

definition function_bytes :: "fflags \<Rightarrow> u8 \<Rightarrow> bytecode_builder \<Rightarrow> bfunction \<Rightarrow> bytes" where
  "function_bytes fl flags b func =
     [fn_maxstacksize func, fn_numparams func, fn_numupvalues func, if fn_isvararg func then 1 else 0, flags] @
     types_bytes b func @
     len_bytes (length (bb_insns b)) @ concat (map int_bytes (bb_insns b)) @
     len_bytes (length (bb_constants b)) @ concat (map (constant_bytes fl b) (bb_constants b)) @
     len_bytes (length (bb_protos b)) @ concat (map u32_var (bb_protos b)) @
     var_int (word_of_int (fn_debuglinedefined func)) @ u32_var (fn_debugname func) @
     lines_bytes (bb_lines b) @ debug_bytes (bb_debug_locals b) (bb_debug_upvals b) @
     feedback_bytes fl (bb_fb_slots b)"

text \<open>What \<open>write_function\<close> needs.\<close>

definition function_written :: "bytecode_builder \<Rightarrow> bool" where
  "function_written b \<longleftrightarrow>
     (\<forall>l \<in> set (bb_typed_locals b). tl_startpc l \<le> tl_endpc l) \<and>
     (\<forall>c \<in> set (bb_constants b). constant_written b c) \<and>
     (0 \<notin> set (bb_lines b) \<longrightarrow> bb_lines b \<noteq> [] \<and> good_lines (bb_lines b))"

lemma write_lines_eq:
  assumes "0 \<notin> set (bb_lines b) \<longrightarrow> bb_lines b \<noteq> [] \<and> good_lines (bb_lines b)"
  shows "write_lines b ss = Some (ss @ lines_bytes (bb_lines b))"
proof (cases "0 \<in> set (bb_lines b)")
  case False
  then obtain t where "\<forall>ss. write_line_info (bb_lines b) ss = Some (ss @ t)"
    using line_table_correct assms by blast
  then show ?thesis using False by (simp add: write_lines_def lines_bytes_def writes)
qed (simp add: write_lines_def lines_bytes_def writes)

lemma write_debug_eq: "write_debug b ss = ss @ debug_bytes (bb_debug_locals b) (bb_debug_upvals b)"
  using foldl_writes [of write_debug_local debug_local_bytes]
    foldl_writes [of "\<lambda>ss u. write_var_int ss (ucast u)" u32_var]
  by (simp add: write_debug_def debug_bytes_def writes write_debug_local_def debug_local_bytes_def)

lemma write_feedback_eq: "write_feedback fl b ss = ss @ feedback_bytes fl (bb_fb_slots b)"
  using foldl_writes [of "\<lambda>ss pc. write_var_int (write_byte ss LFT_CALLTARGET) (ucast pc)"
      "\<lambda>pc. LFT_CALLTARGET # u32_var pc"]
  by (simp add: write_feedback_def feedback_bytes_def writes)

lemma write_function_eq:
  assumes "function_written b" and "unat fid < length (bb_functions b)" and "length (bb_functions b) < 2 ^ 32"
  shows "write_function fl fid flags b ss = Some (ss @ function_bytes fl flags b (bb_functions b ! unat fid))"
proof -
  have "fid < word_of_nat (length (bb_functions b))"
    using assms(2,3) by (simp add: word_less_nat_alt unat_of_nat take_bit_nat_eq_self)
  moreover have "foldl write_int ss (bb_insns b) = ss @ concat (map int_bytes (bb_insns b))" for ss
    by (rule foldl_writes) (simp add: writes)
  moreover have "foldl (\<lambda>ss child. write_var_int ss (ucast child)) ss (bb_protos b)
      = ss @ concat (map u32_var (bb_protos b))" for ss
    by (rule foldl_writes) (rule write_var_int_append)
  moreover have "write_types b func ss = Some (ss @ types_bytes b func)" for func ss
    using assms(1) by (intro write_types_eq) (simp add: function_written_def)
  moreover have "write_constants fl b (bb_constants b) ss
      = Some (ss @ concat (map (constant_bytes fl b) (bb_constants b)))" for ss
    using assms(1) by (intro write_constants_eq) (simp add: function_written_def)
  moreover have "write_lines b ss = Some (ss @ lines_bytes (bb_lines b))" for ss
    using assms(1) by (intro write_lines_eq) (simp add: function_written_def)
  ultimately show ?thesis
    using assms(2) by (simp add: write_function_def function_bytes_def write_debug_eq write_feedback_eq writes Let_def)
qed

section \<open>The string table\<close>

abbreviation string_bytes :: "bytes \<Rightarrow> bytes" where
  "string_bytes s \<equiv> len_bytes (length s) @ s"

lemma write_strings_eq: "write_strings (map Some xs) ss = Some (ss @ concat (map string_bytes xs))"
  by (induction xs arbitrary: ss) (simp_all add: writes)

lemma fill_strings_eq:
  assumes "\<forall>(s, i) \<in> set items. \<exists>j < length ys. unat i = j + 1 \<and> s = ys ! j" and "length strings = length ys"
  shows "\<exists>r. fill_strings items strings = Some r \<and> length r = length ys \<and>
    (\<forall>j < length ys. r ! j = (if \<exists>(s, i) \<in> set items. unat i = j + 1 then ys ! j else strings ! j))"
  using assms
proof (induction items arbitrary: strings)
  case (Cons it items)
  obtain s i where it: "it = (s, i)" by (cases it)
  then obtain j where j: "j < length ys" "unat i = j + 1" "s = ys ! j" using Cons.prems(1) by auto
  then have "i > 0" by (metis add_is_0 unat_eq_zero word_neq_0_conv zero_neq_one)
  then have step: "fill_strings (it # items) strings = fill_strings items (strings[j := s])"
    using j Cons.prems(2) by (simp add: it)
  show ?case
    unfolding step
    using Cons.IH [of "strings[j := s]"] Cons.prems j by (fastforce simp: it nth_list_update)
qed simp

lemma write_string_table_eq:
  assumes "strings_inv b xs"
  shows "write_string_table b ss = Some (ss @ len_bytes (length xs) @ concat (map string_bytes xs))"
proof -
  let ?t = "bb_string_table b" and ?ifc = "ItemInterfaceMap 0 :: (string_ref, string_ref \<times> u32) item_interface"
  have inv: "dhm_inv 0 ?t" "interns (dhm_map 0 ?t) Some string_index (map Some xs)" "length xs < 2 ^ 32"
    using assms by (auto simp: strings_inv_def)
  have items: "(s, i) \<in> set (dh_items ?ifc ?t) \<longleftrightarrow> dhm_map 0 ?t s = Some i" for s i
    using dhm_items_distinct [OF inv(1)] by (simp add: dhm_map_def)
  have idx: "unat (string_index j) = j + 1" if "j < length xs" for j
    using that inv(3) by (simp add: unat_of_nat take_bit_nat_eq_self del: of_nat_Suc of_nat_add)
  have "\<forall>(s, i) \<in> set (dh_items ?ifc ?t). \<exists>j < length (map Some xs). unat i = j + 1 \<and> s = map Some xs ! j"
  proof safe
    fix s i assume "(s, i) \<in> set (dh_items ?ifc ?t)"
    then obtain j where "j < length xs" "s = Some (xs ! j)" "i = string_index j"
      using items interns_SomeD [OF inv(2), of s i] by auto
    then show "\<exists>j < length (map Some xs). unat i = j + 1 \<and> s = map Some xs ! j" using idx [of j] by auto
  qed
  from fill_strings_eq [OF this, of "replicate (length xs) None"] obtain r
    where r: "fill_strings (dh_items ?ifc ?t) (replicate (length xs) None) = Some r" "length r = length xs"
      "\<forall>j < length xs. r ! j = (if \<exists>(s, i) \<in> set (dh_items ?ifc ?t). unat i = j + 1 then Some (xs ! j) else None)"
    by auto
  have "\<exists>(s, i) \<in> set (dh_items ?ifc ?t). unat i = j + 1" if "j < length xs" for j
    using items [of "Some (xs ! j)" "string_index j"] interns_nth [OF inv(2), of j "Some (xs ! j)"] idx [OF that] that
    by auto
  then have "r = map Some xs" using r(2,3) by (intro nth_equalityI) auto
  moreover have "const_iterator_items ?ifc ?t (first_occupied ?ifc ?t) = dh_items ?ifc ?t"
    using inv(1) by (intro const_iterator_all) (simp add: dhm_inv_def dh_inv_def)
  ultimately show ?thesis
    using r(1) string_table_size [OF assms] write_strings_eq [of xs]
    by (simp add: write_string_table_def Let_def writes)
qed

end
