(* ===== verification/Bytecode_Load.thy ===== *)
theory Bytecode_Load
  imports Bytecode_Write
begin

text \<open>
  Deserialisation: \<open>loadsafe\<close> of \<open>luaur-vm/src/functions/loadsafe.rs\<close> with \<open>read_string\<close> and
  \<open>remap_userdata_types\<close>. The objects the loader allocates are values: a string is its bytes, a
  table constant the list of the assignments made to it, in order, and a closure constant or child
  proto the number of its proto. What the loader asks of the host (the type mapping and string atom
  callbacks, and the resolution of an import in the global environment) is the record \<open>vm_env\<close>.
  \<open>None\<close> is a failed assertion, a read outside the data or outside an array, a run-time error inside
  the loader, which \<open>luau_load\<close> asserts away, or the use of a slot not yet filled. Memory does not run out,
  but a count that is negative as a \<open>c_int\<close> fails.
\<close>

section \<open>Data\<close>

datatype tvalue = VNil | VBoolean u8 | VNumber u64 | VInteger u64 | VVector u32 u32 u32
  | VString bytes | VTable "(tvalue \<times> tvalue) list" | VClosure nat bool
  | VClass bytes "(bytes \<times> nat) list" "bytes list" nat nat

record loc_var =
  lv_varname :: string_ref
  lv_startpc :: u32
  lv_endpc :: u32
  lv_reg :: u8

record proto =
  p_bytecodeid :: nat
  p_funid :: u32
  p_maxstacksize :: u8
  p_numparams :: u8
  p_nups :: u8
  p_is_vararg :: u8
  p_flags :: u8
  p_typeinfo :: bytes
  p_code :: "u32 list"
  p_k :: "tvalue list"
  p_p :: "nat list"
  p_linedefined :: u32
  p_debugname :: string_ref
  p_lineinfo :: "line_info option"
  p_locvars :: "loc_var list"
  p_upvalues :: "string_ref list"
  p_feedbackvec :: "u32 list"

record vm_env =
  ve_flags :: fflags
  ve_gettypemapping :: "(bytes \<Rightarrow> u8) option"
  ve_atom :: "bytes \<Rightarrow> int"
  ve_resolve_import :: "tvalue list \<Rightarrow> u32 \<Rightarrow> tvalue"

datatype load_error = CompileError bytes | VersionMismatch u8 | TypeVersionMismatch u8

datatype load_result = LoadFailed load_error | Loaded "proto list" nat

abbreviation LBC_TYPE_USERDATA :: u8 where "LBC_TYPE_USERDATA \<equiv> 7"
abbreviation LBC_TYPE_FUNCTION :: u8 where "LBC_TYPE_FUNCTION \<equiv> 5"
abbreviation USERDATA_TYPE_LIMIT :: nat where "USERDATA_TYPE_LIMIT \<equiv> 32"

section \<open>Reading\<close>

text \<open>\<open>read_var_int(..) as c_int\<close>, used as the size of an array.\<close>

definition read_size :: "bytes \<Rightarrow> nat \<Rightarrow> (nat \<times> nat) option" where
  "read_size data offset = do {
     (n, offset) \<leftarrow> vm_read_var_int data offset;
     LUAU_ASSERT (unat n < 2 ^ 31);
     Some (unat n, offset)
   }"

definition read_string :: "bytes list \<Rightarrow> bytes \<Rightarrow> nat \<Rightarrow> (string_ref \<times> nat) option" where
  "read_string strings data offset = do {
     (i, offset) \<leftarrow> vm_read_var_int data offset;
     if i = 0 then Some (None, offset)
     else do { s \<leftarrow> index_checked strings (unat (i - 1)); Some (Some s, offset) }
   }"

fun load_strings :: "nat \<Rightarrow> bytes \<Rightarrow> nat \<Rightarrow> (bytes list \<times> nat) option" where
  "load_strings 0 data offset = Some ([], offset)"
| "load_strings (Suc n) data offset = do {
     (len, offset) \<leftarrow> vm_read_var_int data offset;
     (s, offset) \<leftarrow> read_bytes (unat len) data offset;
     (rest, offset) \<leftarrow> load_strings n data offset;
     Some (s # rest, offset)
   }"

text \<open>The mapping of user types; each round reads two bytes at least, so the loop ends.\<close>

definition load_mapping_entry :: "vm_env \<Rightarrow> bytes list \<Rightarrow> u8 \<Rightarrow> u8 list \<Rightarrow> bytes \<Rightarrow> nat \<Rightarrow> (u8 list \<times> nat) option" where
  "load_mapping_entry env strings index remap data offset = do {
     (name, offset) \<leftarrow> read_string strings data offset;
     remap \<leftarrow> (if unat (index - 1) < USERDATA_TYPE_LIMIT then
                  (case ve_gettypemapping env of
                     Some cb \<Rightarrow> do { s \<leftarrow> name; update_checked remap (unat (index - 1)) (cb s) }
                   | None \<Rightarrow> Some remap)
                else Some remap);
     Some (remap, offset)
   }"

lemma vm_read_var_int_loop_advances:
  "vm_read_var_int_loop data offset result shift = Some (v, offset') \<Longrightarrow> offset < offset' \<and> offset' \<le> length data"
proof (induction data offset result shift rule: vm_read_var_int_loop.induct)
  case (1 data offset result shift)
  show ?case
  proof (cases "read_u8 data offset")
    case None
    then show ?thesis using 1(2) by (subst (asm) vm_read_var_int_loop.simps) simp
  next
    case (Some r)
    then obtain b where r: "r = (b, offset + 1)" "offset < length data" by (cases r) (auto simp: read_u8_Some)
    then show ?thesis
      using 1(2) Some 1(1) [OF Some r(1) [symmetric]]
      by (subst (asm) vm_read_var_int_loop.simps) (fastforce simp: Let_def split: if_splits)
  qed
qed

lemma vm_read_var_int_advances: "vm_read_var_int data offset = Some (v, offset') \<Longrightarrow> offset < offset' \<and> offset' \<le> length data"
  unfolding vm_read_var_int_def by (rule vm_read_var_int_loop_advances)

lemma load_mapping_entry_advances:
  "load_mapping_entry env strings index remap data offset = Some (remap', offset') \<Longrightarrow> offset < offset' \<and> offset' \<le> length data"
  by (auto simp: load_mapping_entry_def read_string_def dest!: vm_read_var_int_advances
      split: Option.bind_splits if_splits option.splits)

function load_type_mapping :: "vm_env \<Rightarrow> bytes list \<Rightarrow> u8 list \<Rightarrow> bytes \<Rightarrow> nat \<Rightarrow> (u8 list \<times> nat) option" where
  "load_type_mapping env strings remap data offset =
     (case read_u8 data offset of
        None \<Rightarrow> None
      | Some (index, offset) \<Rightarrow>
          if index = 0 then Some (remap, offset)
          else (case load_mapping_entry env strings index remap data offset of
                  None \<Rightarrow> None
                | Some (remap, offset) \<Rightarrow> load_type_mapping env strings remap data offset))"
  by auto
termination load_type_mapping
  by (relation "measure (\<lambda>(env, strings, remap, data, offset). length data - offset)")
    (auto simp: read_u8_Some dest!: load_mapping_entry_advances)

declare load_type_mapping.simps [simp del]

section \<open>Type information\<close>

definition remap_type :: "u8 list \<Rightarrow> u8 \<Rightarrow> u8" where
  "remap_type remap t =
     (let index = word_of_int (uint t - 64) :: u32 in
      if index < word_of_nat (length remap) then remap ! unat index else t)"

fun remap_types :: "u8 list \<Rightarrow> nat \<Rightarrow> nat \<Rightarrow> bytes \<Rightarrow> bytes option" where
  "remap_types remap pos 0 data = Some data"
| "remap_types remap pos (Suc n) data = do {
     t \<leftarrow> index_checked data pos;
     remap_types remap (pos + 1) n (data[pos := remap_type remap t])
   }"

fun remap_locals :: "u8 list \<Rightarrow> nat \<Rightarrow> bytes \<Rightarrow> nat \<Rightarrow> (bytes \<times> nat) option" where
  "remap_locals remap 0 data offset = Some (data, offset)"
| "remap_locals remap (Suc n) data offset = do {
     t \<leftarrow> index_checked data offset;
     let data = data[offset := remap_type remap t];
     let offset = offset + 2;
     (_, offset) \<leftarrow> vm_read_var_int data offset;
     (_, offset) \<leftarrow> vm_read_var_int data offset;
     remap_locals remap n data offset
   }"

definition remap_userdata_types :: "u8 list \<Rightarrow> bytes \<Rightarrow> bytes option" where
  "remap_userdata_types remap data = do {
     (type_size, offset) \<leftarrow> vm_read_var_int data 0;
     (upval_count, offset) \<leftarrow> vm_read_var_int data offset;
     (local_count, offset) \<leftarrow> vm_read_var_int data offset;
     (data, offset) \<leftarrow> (if type_size \<noteq> 0 then do {
          data \<leftarrow> remap_types remap (offset + 2) (unat type_size - 2) data;
          Some (data, offset + unat type_size)
        } else Some (data, offset));
     (data, offset) \<leftarrow> (if upval_count \<noteq> 0 then do {
          data \<leftarrow> remap_types remap offset (unat upval_count) data;
          Some (data, offset + unat upval_count)
        } else Some (data, offset));
     (data, offset) \<leftarrow> (if local_count \<noteq> 0 then remap_locals remap (unat local_count) data offset
        else Some (data, offset));
     LUAU_ASSERT (offset = length data);
     Some data
   }"

definition load_typeinfo_v1 :: "u8 \<Rightarrow> bytes \<Rightarrow> nat \<Rightarrow> (bytes \<times> nat) option" where
  "load_typeinfo_v1 numparams data offset = do {
     (typesize, offset) \<leftarrow> vm_read_var_int data offset;
     if typesize \<noteq> 0 then do {
       (types, offset) \<leftarrow> read_bytes (unat typesize) data offset;
       LUAU_ASSERT (typesize = 2 + ucast numparams);
       LUAU_ASSERT (types ! 0 = LBC_TYPE_FUNCTION);
       LUAU_ASSERT (types ! 1 = numparams);
       let header = (if typesize > 127
                     then [ucast ((typesize AND 127) OR push_bit 7 1), ucast (drop_bit 7 typesize), 0, 0]
                     else [ucast typesize, 0, 0]);
       Some (header @ types, offset)
     } else Some ([], offset)
   }"

definition load_typeinfo :: "u8 \<Rightarrow> u8 \<Rightarrow> u8 list \<Rightarrow> bytes \<Rightarrow> nat \<Rightarrow> (bytes \<times> nat) option" where
  "load_typeinfo typesversion numparams remap data offset =
     (if typesversion = 1 then load_typeinfo_v1 numparams data offset
      else if typesversion = 2 \<or> typesversion = 3 then do {
        (typesize, offset) \<leftarrow> vm_read_var_int data offset;
        if typesize \<noteq> 0 then do {
          (types, offset) \<leftarrow> read_bytes (unat typesize) data offset;
          types \<leftarrow> (if typesversion = 3 then remap_userdata_types remap types else Some types);
          Some (types, offset)
        } else Some ([], offset)
      } else Some ([], offset))"

section \<open>Constants\<close>

definition is_nan64 :: "u64 \<Rightarrow> bool" where
  "is_nan64 v \<longleftrightarrow> drop_bit 52 v AND 0x7ff = 0x7ff \<and> take_bit 52 v \<noteq> 0"

definition is_nan32 :: "u32 \<Rightarrow> bool" where
  "is_nan32 v \<longleftrightarrow> drop_bit 23 v AND 0xff = 0xff \<and> take_bit 23 v \<noteq> 0"

text \<open>An assignment to a table constant; \<open>lua_h_newkey\<close> refuses nil and NaN.\<close>

definition table_set :: "tvalue \<Rightarrow> tvalue \<Rightarrow> (tvalue \<times> tvalue) list \<Rightarrow> (tvalue \<times> tvalue) list option" where
  "table_set key val h =
     (case key of
        VNil \<Rightarrow> None
      | VNumber v \<Rightarrow> if is_nan64 v then None else Some (h @ [(key, val)])
      | VVector x y z \<Rightarrow>
          if is_nan32 x \<or> is_nan32 y \<or> is_nan32 z then None else Some (h @ [(key, val)])
      | _ \<Rightarrow> Some (h @ [(key, val)]))"

fun load_table_keys :: "tvalue list \<Rightarrow> nat \<Rightarrow> (tvalue \<times> tvalue) list \<Rightarrow> bytes \<Rightarrow> nat
    \<Rightarrow> ((tvalue \<times> tvalue) list \<times> nat) option" where
  "load_table_keys k 0 h data offset = Some (h, offset)"
| "load_table_keys k (Suc n) h data offset = do {
     (key, offset) \<leftarrow> vm_read_var_int data offset;
     kv \<leftarrow> index_checked k (unat key);
     h \<leftarrow> table_set kv (VNumber 0) h;
     load_table_keys k n h data offset
   }"

fun load_table_entries :: "tvalue list \<Rightarrow> nat \<Rightarrow> u32 list \<Rightarrow> (tvalue \<times> tvalue) list \<Rightarrow> bytes \<Rightarrow> nat
    \<Rightarrow> ((tvalue \<times> tvalue) list \<times> u32 list \<times> nat) option" where
  "load_table_entries k 0 nil_keys h data offset = Some (h, nil_keys, offset)"
| "load_table_entries k (Suc n) nil_keys h data offset = do {
     (key, offset) \<leftarrow> vm_read_var_int data offset;
     kv \<leftarrow> index_checked k (unat key);
     (constant_idx, offset) \<leftarrow> read_u32 data offset;
     if sint constant_idx \<ge> 0 then do {
       c \<leftarrow> index_checked k (unat constant_idx);
       if c = VNil then do {
         h \<leftarrow> table_set kv (VNumber 0) h;
         load_table_entries k n (nil_keys @ [key]) h data offset
       } else do {
         h \<leftarrow> table_set kv c h;
         load_table_entries k n nil_keys h data offset
       }
     } else do {
       h \<leftarrow> table_set kv (VNumber 0) h;
       load_table_entries k n nil_keys h data offset
     }
   }"

fun set_nil_keys :: "tvalue list \<Rightarrow> u32 list \<Rightarrow> (tvalue \<times> tvalue) list \<Rightarrow> (tvalue \<times> tvalue) list option" where
  "set_nil_keys k [] h = Some h"
| "set_nil_keys k (key # keys) h = do {
     kv \<leftarrow> index_checked k (unat key);
     h \<leftarrow> table_set kv VNil h;
     set_nil_keys k keys h
   }"

fun load_members :: "tvalue list \<Rightarrow> nat \<Rightarrow> bytes \<Rightarrow> nat \<Rightarrow> (bytes list \<times> nat) option" where
  "load_members k 0 data offset = Some ([], offset)"
| "load_members k (Suc n) data offset = do {
     (mid, offset) \<leftarrow> vm_read_var_int data offset;
     kv \<leftarrow> index_checked k (unat mid);
     (case kv of
        VString s \<Rightarrow> do { (rest, offset) \<leftarrow> load_members k n data offset; Some (s # rest, offset) }
      | _ \<Rightarrow> None)
   }"

definition load_class_shape :: "tvalue list \<Rightarrow> bytes \<Rightarrow> nat \<Rightarrow> (tvalue \<times> nat) option" where
  "load_class_shape k data offset = do {
     (cnid, offset) \<leftarrow> vm_read_var_int data offset;
     classname \<leftarrow> index_checked k (unat cnid);
     (case classname of
        VString name \<Rightarrow> do {
          (num_properties, offset) \<leftarrow> vm_read_var_int data offset;
          (num_methods, offset) \<leftarrow> vm_read_var_int data offset;
          let num_members = unat num_methods + unat num_properties;
          LUAU_ASSERT (num_members < 2 ^ 31);
          (members, offset) \<leftarrow> load_members k num_members data offset;
          Some (VClass name (zip members [0..<num_members]) members (unat num_properties) (unat num_methods), offset)
        }
      | _ \<Rightarrow> None)
   }"

definition load_constant :: "vm_env \<Rightarrow> bytes list \<Rightarrow> proto list \<Rightarrow> tvalue list \<Rightarrow> bytes \<Rightarrow> nat \<Rightarrow> (tvalue \<times> nat) option" where
  "load_constant env strings protos k data offset = do {
     (tag, offset) \<leftarrow> read_u8 data offset;
     if tag = LBC_CONSTANT_NIL then Some (VNil, offset)
     else if tag = LBC_CONSTANT_BOOLEAN then do {
       (v, offset) \<leftarrow> read_u8 data offset; Some (VBoolean v, offset) }
     else if tag = LBC_CONSTANT_NUMBER then do {
       (v, offset) \<leftarrow> read_u64 data offset; Some (VNumber v, offset) }
     else if tag = LBC_CONSTANT_VECTOR then do {
       (x, offset) \<leftarrow> read_u32 data offset;
       (y, offset) \<leftarrow> read_u32 data offset;
       (z, offset) \<leftarrow> read_u32 data offset;
       (w, offset) \<leftarrow> read_u32 data offset;
       Some (VVector x y z, offset) }
     else if tag = LBC_CONSTANT_STRING then do {
       (v, offset) \<leftarrow> read_string strings data offset;
       s \<leftarrow> v;
       Some (VString s, offset) }
     else if tag = LBC_CONSTANT_IMPORT then do {
       (iid, offset) \<leftarrow> read_u32 data offset;
       Some (ve_resolve_import env k iid, offset) }
     else if tag = LBC_CONSTANT_TABLE then do {
       (keys, offset) \<leftarrow> read_size data offset;
       (h, offset) \<leftarrow> load_table_keys k keys [] data offset;
       Some (VTable h, offset) }
     else if tag = LBC_CONSTANT_TABLE_WITH_CONSTANTS then do {
       (keys, offset) \<leftarrow> read_size data offset;
       (h, nil_keys, offset) \<leftarrow> load_table_entries k keys [] [] data offset;
       h \<leftarrow> set_nil_keys k nil_keys h;
       Some (VTable h, offset) }
     else if tag = LBC_CONSTANT_CLOSURE then do {
       (fid, offset) \<leftarrow> vm_read_var_int data offset;
       p \<leftarrow> index_checked protos (unat fid);
       Some (VClosure (unat fid) (p_nups p > 0), offset) }
     else if tag = LBC_CONSTANT_CLASS_SHAPE then load_class_shape k data offset
     else if tag = LBC_CONSTANT_INTEGER then do {
       (is_negative, offset) \<leftarrow> read_u8 data offset;
       (magnitude, offset) \<leftarrow> read_var_int_64 data offset;
       Some (VInteger (if is_negative \<noteq> 0 then NOT magnitude + 1 else magnitude), offset) }
     else None
   }"

text \<open>The constants before \<open>j\<close> are in place and the others are nil while constant \<open>j\<close> is read.\<close>

fun load_constants :: "vm_env \<Rightarrow> bytes list \<Rightarrow> proto list \<Rightarrow> nat \<Rightarrow> nat \<Rightarrow> tvalue list \<Rightarrow> bytes \<Rightarrow> nat
    \<Rightarrow> (tvalue list \<times> nat) option" where
  "load_constants env strings protos j 0 k data offset = Some (k, offset)"
| "load_constants env strings protos j (Suc n) k data offset = do {
     (v, offset) \<leftarrow> load_constant env strings protos k data offset;
     load_constants env strings protos (j + 1) n (k[j := v]) data offset
   }"

section \<open>Instructions\<close>

text \<open>The rewriting of table accesses on a string with an atom into user data accesses; the second
  \<open>LUAU_INSN_OP\<close> reads the instruction as rewritten.\<close>

definition udata_op :: "LuauOpcode \<Rightarrow> LuauOpcode option" where
  "udata_op op =
     (if op = LOP_GETTABLEKS then Some LOP_GETUDATAKS
      else if op = LOP_SETTABLEKS then Some LOP_SETUDATAKS
      else if op = LOP_NAMECALL then Some LOP_NAMECALLUDATA
      else None)"

definition direct_access_insn :: "(bytes \<Rightarrow> int) \<Rightarrow> tvalue list \<Rightarrow> u32 list \<Rightarrow> nat \<Rightarrow> u32 option" where
  "direct_access_insn atom k code i = do {
     op \<leftarrow> LuauOpcode_from (insn_op (code ! i));
     (case udata_op op of
        None \<Rightarrow> Some (code ! i)
      | Some target_op \<Rightarrow> do {
          aux \<leftarrow> index_checked code (i + 1);
          LUAU_ASSERT (aux < word_of_nat (length k));
          if aux < 0x10000 then do {
            kv \<leftarrow> index_checked k (unat aux);
            (case kv of
               VString s \<Rightarrow>
                 Some (if atom s \<ge> 0 then (code ! i AND 0xffffff00) OR ucast target_op else code ! i)
             | _ \<Rightarrow> None)
          } else Some (code ! i)
        })
   }"

function direct_access :: "(bytes \<Rightarrow> int) \<Rightarrow> tvalue list \<Rightarrow> u32 list \<Rightarrow> nat \<Rightarrow> u32 list option" where
  "direct_access atom k code i =
     (if i < length code then
        (case direct_access_insn atom k code i of
           None \<Rightarrow> None
         | Some insn \<Rightarrow> direct_access atom k (code[i := insn]) (i + getOpLength (insn_op insn)))
      else Some code)"
  by auto
termination direct_access
proof (relation "measure (\<lambda>(atom, k, code, i). length code - i)", goal_cases)
  case (2 atom k code i insn)
  then show ?case using getOpLength_pos [of "insn_op insn"] by simp
qed simp

declare direct_access.simps [simp del]

section \<open>Functions\<close>

fun load_children :: "proto list \<Rightarrow> nat \<Rightarrow> bytes \<Rightarrow> nat \<Rightarrow> (nat list \<times> nat) option" where
  "load_children protos 0 data offset = Some ([], offset)"
| "load_children protos (Suc n) data offset = do {
     (fid, offset) \<leftarrow> vm_read_var_int data offset;
     _ \<leftarrow> index_checked protos (unat fid);
     (rest, offset) \<leftarrow> load_children protos n data offset;
     Some (unat fid # rest, offset)
   }"

definition load_loc_var :: "bytes list \<Rightarrow> bytes \<Rightarrow> nat \<Rightarrow> (loc_var \<times> nat) option" where
  "load_loc_var strings data offset = do {
     (varname, offset) \<leftarrow> read_string strings data offset;
     (startpc, offset) \<leftarrow> vm_read_var_int data offset;
     (endpc, offset) \<leftarrow> vm_read_var_int data offset;
     (reg, offset) \<leftarrow> read_u8 data offset;
     Some (\<lparr>lv_varname = varname, lv_startpc = startpc, lv_endpc = endpc, lv_reg = reg\<rparr>, offset)
   }"

definition load_debug :: "bytes list \<Rightarrow> u8 \<Rightarrow> bytes \<Rightarrow> nat \<Rightarrow> (loc_var list \<times> string_ref list \<times> nat) option" where
  "load_debug strings nups data offset = do {
     (debuginfo, offset) \<leftarrow> read_u8 data offset;
     if debuginfo \<noteq> 0 then do {
       (sizelocvars, offset) \<leftarrow> read_size data offset;
       (locvars, offset) \<leftarrow> read_list sizelocvars (load_loc_var strings) data offset;
       (sizeupvalues, offset) \<leftarrow> read_size data offset;
       LUAU_ASSERT (sizeupvalues = unat nups);
       (upvalues, offset) \<leftarrow> read_list sizeupvalues (read_string strings) data offset;
       Some (locvars, upvalues, offset)
     } else Some ([], [], offset)
   }"

definition load_feedback_slot :: "bytes \<Rightarrow> nat \<Rightarrow> (u32 \<times> nat) option" where
  "load_feedback_slot data offset = do {
     (slottype, offset) \<leftarrow> read_u8 data offset;
     LUAU_ASSERT (slottype = LFT_CALLTARGET);
     vm_read_var_int data offset
   }"

definition load_feedback :: "vm_env \<Rightarrow> u8 \<Rightarrow> bytes \<Rightarrow> nat \<Rightarrow> (u32 list \<times> nat) option" where
  "load_feedback env version data offset =
     (if version \<ge> 11 then do {
        LUAU_ASSERT (LuauCallFeedback (ve_flags env));
        (n, offset) \<leftarrow> vm_read_var_int data offset;
        read_list (unat n) load_feedback_slot data offset
      } else Some ([], offset))"

definition load_lines :: "nat \<Rightarrow> bytes \<Rightarrow> nat \<Rightarrow> (line_info option \<times> nat) option" where
  "load_lines sizecode data offset = do {
     (lineinfo, offset) \<leftarrow> read_u8 data offset;
     if lineinfo \<noteq> 0 then do {
       (li, offset) \<leftarrow> load_line_info sizecode data offset;
       Some (Some li, offset)
     } else Some (None, offset)
   }"

definition load_flags :: "u8 \<Rightarrow> u8 \<Rightarrow> u8 \<Rightarrow> u8 list \<Rightarrow> bytes \<Rightarrow> nat \<Rightarrow> (u8 \<times> bytes \<times> nat) option" where
  "load_flags version typesversion numparams remap data offset =
     (if version \<ge> 4 then do {
        (flags, offset) \<leftarrow> read_u8 data offset;
        (typeinfo, offset) \<leftarrow> load_typeinfo typesversion numparams remap data offset;
        Some (flags, typeinfo, offset)
      } else Some (0, [], offset))"

definition next_funid :: "u32 \<Rightarrow> u32 \<times> u32" where
  "next_funid lastprotoid = (if lastprotoid = 0 then (0, 0) else (lastprotoid, lastprotoid + 1))"

definition load_function :: "vm_env \<Rightarrow> u8 \<Rightarrow> u8 \<Rightarrow> bytes list \<Rightarrow> u8 list \<Rightarrow> proto list \<Rightarrow> u32 \<Rightarrow> bytes \<Rightarrow> nat
    \<Rightarrow> (proto \<times> nat) option" where
  "load_function env version typesversion strings remap protos funid data offset = do {
     (maxstacksize, offset) \<leftarrow> read_u8 data offset;
     (numparams, offset) \<leftarrow> read_u8 data offset;
     (nups, offset) \<leftarrow> read_u8 data offset;
     (is_vararg, offset) \<leftarrow> read_u8 data offset;
     (flags, typeinfo, offset) \<leftarrow> load_flags version typesversion numparams remap data offset;
     (sizecode, offset) \<leftarrow> read_size data offset;
     (code, offset) \<leftarrow> read_list sizecode read_u32 data offset;
     (sizek, offset) \<leftarrow> read_size data offset;
     (k, offset) \<leftarrow> load_constants env strings protos 0 sizek (replicate sizek VNil) data offset;
     code \<leftarrow> (if LuauUdataDirectAccess6 (ve_flags env) then direct_access (ve_atom env) k code 0 else Some code);
     (sizep, offset) \<leftarrow> read_size data offset;
     (ps, offset) \<leftarrow> load_children protos sizep data offset;
     (linedefined, offset) \<leftarrow> vm_read_var_int data offset;
     (debugname, offset) \<leftarrow> read_string strings data offset;
     (lineinfo, offset) \<leftarrow> load_lines sizecode data offset;
     (locvars, upvalues, offset) \<leftarrow> load_debug strings nups data offset;
     (feedback, offset) \<leftarrow> load_feedback env version data offset;
     Some (\<lparr>p_bytecodeid = length protos, p_funid = funid, p_maxstacksize = maxstacksize,
       p_numparams = numparams, p_nups = nups, p_is_vararg = is_vararg, p_flags = flags,
       p_typeinfo = typeinfo, p_code = code, p_k = k, p_p = ps, p_linedefined = linedefined,
       p_debugname = debugname, p_lineinfo = lineinfo, p_locvars = locvars, p_upvalues = upvalues,
       p_feedbackvec = feedback\<rparr>, offset)
   }"

fun load_functions :: "vm_env \<Rightarrow> u8 \<Rightarrow> u8 \<Rightarrow> bytes list \<Rightarrow> u8 list \<Rightarrow> nat \<Rightarrow> proto list \<Rightarrow> u32 \<Rightarrow> bytes \<Rightarrow> nat
    \<Rightarrow> (proto list \<times> u32 \<times> nat) option" where
  "load_functions env version typesversion strings remap 0 protos lastprotoid data offset =
     Some (protos, lastprotoid, offset)"
| "load_functions env version typesversion strings remap (Suc n) protos lastprotoid data offset = do {
     let (funid, lastprotoid) = next_funid lastprotoid;
     (p, offset) \<leftarrow> load_function env version typesversion strings remap protos funid data offset;
     load_functions env version typesversion strings remap n (protos @ [p]) lastprotoid data offset
   }"

definition load_body :: "vm_env \<Rightarrow> u8 \<Rightarrow> u8 \<Rightarrow> u32 \<Rightarrow> bytes \<Rightarrow> nat \<Rightarrow> (load_result \<times> u32) option" where
  "load_body env version typesversion lastprotoid data offset = do {
     (string_count, offset) \<leftarrow> vm_read_var_int data offset;
     (strings, offset) \<leftarrow> load_strings (unat string_count) data offset;
     let remap = replicate USERDATA_TYPE_LIMIT LBC_TYPE_USERDATA;
     (remap, offset) \<leftarrow> (if typesversion = 3 then load_type_mapping env strings remap data offset
                           else Some (remap, offset));
     (proto_count, offset) \<leftarrow> vm_read_var_int data offset;
     (protos, lastprotoid, offset) \<leftarrow>
       load_functions env version typesversion strings remap (unat proto_count) [] lastprotoid data offset;
     (mainid, offset) \<leftarrow> vm_read_var_int data offset;
     _ \<leftarrow> index_checked protos (unat mainid);
     Some (Loaded protos (unat mainid), lastprotoid)
   }"

definition loadsafe :: "vm_env \<Rightarrow> u32 \<Rightarrow> bytes \<Rightarrow> (load_result \<times> u32) option" where
  "loadsafe env lastprotoid data = do {
     (version, offset) \<leftarrow> read_u8 data 0;
     if version = 0 then Some (LoadFailed (CompileError (drop offset data)), lastprotoid)
     else if version < LBC_VERSION_MIN \<or> version > LBC_VERSION_MAX then
       Some (LoadFailed (VersionMismatch version), lastprotoid)
     else if version \<ge> 4 then do {
       (typesversion, offset) \<leftarrow> read_u8 data offset;
       if typesversion < LBC_TYPE_VERSION_MIN \<or> typesversion > LBC_TYPE_VERSION_MAX then
         Some (LoadFailed (TypeVersionMismatch typesversion), lastprotoid)
       else load_body env version typesversion lastprotoid data offset
     } else load_body env version 0 lastprotoid data offset
   }"

end
