(* ===== verification/Bytecode_Roundtrip.thy ===== *)
theory Bytecode_Roundtrip
  imports Bytecode_Load
begin

text \<open>
  What the builder writes, the loader reads: the bytes of each part of a module, wherever they
  stand in the data, are decoded by the corresponding part of \<open>loadsafe\<close> into the values they were
  written for, and \<open>loadsafe\<close> on the output of \<open>finalize\<close> gives a proto for every function.
\<close>

section \<open>Numbers and strings\<close>

named_theorems reads \<open>the readers at the start of what the writers wrote\<close>

lemma read_u8_bytes [reads]: "bytes_at data off [v] \<Longrightarrow> read_u8 data off = Some (v, off + 1)"
  using u8c.dec_enc [of data off v] by simp

lemma read_u32_bytes [reads]: "bytes_at data off (int_bytes v) \<Longrightarrow> read_u32 data off = Some (v, off + 4)"
  using u32c.dec_enc [of data off v] by simp

lemma read_u64_bytes [reads]: "bytes_at data off (le_bytes 8 (unat v)) \<Longrightarrow> read_u64 data off = Some (v, off + 8)"
  using u64c.dec_enc [of data off v] by simp

lemma read_var_bytes [reads]:
  "bytes_at data off (u32_var v) \<Longrightarrow> vm_read_var_int data off = Some (v, off + length (u32_var v))"
  using vi32.dec_enc [of data off v] by simp

lemma read_var64_bytes [reads]:
  "bytes_at data off (var_int v) \<Longrightarrow> read_var_int_64 data off = Some (v, off + length (var_int v))"
  using vi64.dec_enc [of data off v] by simp

lemma len_bytes_u32: "n < 2 ^ 32 \<Longrightarrow> len_bytes n = u32_var (word_of_nat n)"
proof -
  assume "n < 2 ^ 32"
  then have "(word_of_nat n :: u64) = ucast (word_of_nat n :: u32)"
    by (simp add: word_unat_eq_iff unsigned_ucast_eq unat_of_nat take_bit_nat_eq_self)
  then show ?thesis by simp
qed

lemma i32_var_u32:
  assumes "0 \<le> x" and "x < 2 ^ 31"
  shows "var_int (word_of_int x) = u32_var (word_of_int x)" and "unat (word_of_int x :: u32) = nat x"
proof -
  have "uint (word_of_int x :: u32) = x" "uint (word_of_int x :: u64) = x"
    using assms by (simp_all add: uint_word_of_int)
  then have "(word_of_int x :: u64) = ucast (word_of_int x :: u32)"
    by (metis ucast_eq)
  then show "var_int (word_of_int x) = u32_var (word_of_int x)" by simp
  show "unat (word_of_int x :: u32) = nat x"
    using \<open>uint (word_of_int x :: u32) = x\<close> by (metis nat_uint_eq)
qed

lemma unat_of_len: "n < 2 ^ 32 \<Longrightarrow> unat (word_of_nat n :: u32) = n"
  by (simp add: unat_of_nat take_bit_nat_eq_self)

lemma read_len_bytes [reads]:
  "n < 2 ^ 32 \<Longrightarrow> bytes_at data off (len_bytes n) \<Longrightarrow>
    vm_read_var_int data off = Some (word_of_nat n, off + length (len_bytes n))"
  using read_var_bytes [of data off "word_of_nat n"] len_bytes_u32 [of n] by simp

lemma read_size_bytes [reads]:
  "n < 2 ^ 31 \<Longrightarrow> bytes_at data off (len_bytes n) \<Longrightarrow> read_size data off = Some (n, off + length (len_bytes n))"
  using read_len_bytes [of n data off] by (simp add: read_size_def unat_of_nat take_bit_nat_eq_self)

lemma read_i32_bytes [reads]:
  "0 \<le> x \<Longrightarrow> x < 2 ^ 31 \<Longrightarrow> bytes_at data off (var_int (word_of_int x)) \<Longrightarrow>
    vm_read_var_int data off = Some (word_of_int x, off + length (var_int (word_of_int x)))"
  using read_var_bytes [of data off "word_of_int x"] i32_var_u32(1) [of x] by simp

text \<open>A string reference: 0 is no string, the others count from 1.\<close>

definition string_at :: "bytes list \<Rightarrow> u32 \<Rightarrow> string_ref" where
  "string_at xs i = (if i = 0 then None else Some (xs ! (unat i - 1)))"

definition ref_ok :: "bytes list \<Rightarrow> u32 \<Rightarrow> bool" where
  "ref_ok xs i \<longleftrightarrow> unat i \<le> length xs"

lemma read_string_bytes [reads]:
  assumes "bytes_at data off (u32_var i)" and "ref_ok xs i"
  shows "read_string xs data off = Some (string_at xs i, off + length (u32_var i))"
proof -
  have "unat (i - 1) = unat i - 1" if "i \<noteq> 0" using that by (simp add: unat_minus_one)
  moreover have "0 < unat i" if "i \<noteq> 0" using that by (simp add: unat_gt_0)
  ultimately show ?thesis
    using read_var_bytes [OF assms(1)] assms(2) by (auto simp: read_string_def string_at_def ref_ok_def)
qed

lemma load_strings_bytes:
  "\<forall>s \<in> set xs. length s < 2 ^ 32 \<Longrightarrow> bytes_at data off (concat (map string_bytes xs)) \<Longrightarrow>
    load_strings (length xs) data off = Some (xs, off + length (concat (map string_bytes xs)))"
proof (induction xs arbitrary: off)
  case (Cons s xs)
  have at: "bytes_at data off (len_bytes (length s))" "bytes_at data (off + length (len_bytes (length s))) s"
    "bytes_at data (off + length (len_bytes (length s)) + length s) (concat (map string_bytes xs))"
    using Cons.prems(2) by (simp_all add: bytes_at_append)
  then show ?case
    using read_len_bytes [OF _ at(1)] read_bytes_at [OF at(2)] Cons.IH [OF _ at(3)] Cons.prems(1)
    by (simp add: unat_of_nat take_bit_nat_eq_self add.assoc)
qed simp

section \<open>Type information\<close>

definition remapped_local :: "u8 list \<Rightarrow> typed_local \<Rightarrow> bytes" where
  "remapped_local rm l = [remap_type rm (ucast (tl_type l)), tl_reg l] @
     u32_var (tl_startpc l) @ u32_var (tl_endpc l - tl_startpc l)"

definition remapped_types :: "u8 list \<Rightarrow> bytes \<Rightarrow> u16 list \<Rightarrow> typed_local list \<Rightarrow> bytes" where
  "remapped_types rm ti us ls = len_bytes (length ti) @ len_bytes (length us) @ len_bytes (length ls) @
     take 2 ti @ map (remap_type rm) (drop 2 ti) @ map (remap_type rm \<circ> ucast) us @
     concat (map (remapped_local rm) ls)"

lemma length_remapped_local: "length (remapped_local rm l) = length (typed_local_bytes l)"
  by (simp add: remapped_local_def typed_local_bytes_def)

lemma remap_types_eq:
  "data = pre @ ts @ post \<Longrightarrow> pos = length pre \<Longrightarrow>
    remap_types rm pos (length ts) data = Some (pre @ map (remap_type rm) ts @ post)"
proof (induction ts arbitrary: pre pos data)
  case (Cons t ts)
  have "data[pos := remap_type rm t] = (pre @ [remap_type rm t]) @ ts @ post"
    using Cons.prems by (simp add: list_update_append)
  from Cons.IH [OF this] show ?case using Cons.prems by (simp add: nth_append)
qed simp

lemma remap_locals_eq:
  "data = pre @ concat (map typed_local_bytes ls) \<Longrightarrow> pos = length pre \<Longrightarrow>
    remap_locals rm (length ls) data pos =
      Some (pre @ concat (map (remapped_local rm) ls), pos + length (concat (map typed_local_bytes ls)))"
proof (induction ls arbitrary: pre pos data)
  case (Cons l ls)
  let ?a = "u32_var (tl_startpc l)" and ?c = "u32_var (tl_endpc l - tl_startpc l)"
  let ?t = "remap_type rm (ucast (tl_type l))" and ?rest = "concat (map typed_local_bytes ls)"
  let ?data = "(pre @ remapped_local rm l) @ ?rest"
  have data: "data = pre @ (ucast (tl_type l) # tl_reg l # ?a @ ?c) @ ?rest"
    using Cons.prems(1) by (simp add: typed_local_bytes_def [of l])
  then have upd: "data[pos := ?t] = ?data" and t: "data ! pos = ucast (tl_type l)" "pos < length data"
    using Cons.prems(2) by (simp_all add: list_update_append remapped_local_def nth_append)
  have "bytes_at ?data (pos + 2) (?a @ ?c)"
    using bytes_at_self [of "pre @ [?t, tl_reg l]" "?a @ ?c" ?rest] Cons.prems(2) by (simp add: remapped_local_def)
  then have at: "bytes_at ?data (pos + 2) ?a" "bytes_at ?data (pos + 2 + length ?a) ?c"
    unfolding bytes_at_append by blast+
  note r = read_var_bytes [OF at(1)] read_var_bytes [OF at(2)]
  have "pos + 2 + length ?a + length ?c = length (pre @ remapped_local rm l)"
    using Cons.prems(2) by (simp add: remapped_local_def)
  note IH = Cons.IH [OF refl this]
  have "remap_locals rm (length (l # ls)) data pos = remap_locals rm (length ls) ?data (pos + 2 + length ?a + length ?c)"
    using t r upd by (simp add: Let_def del: add_2_eq_Suc')
  moreover have "length (typed_local_bytes l) = 2 + length ?a + length ?c" by (simp add: typed_local_bytes_def)
  ultimately show ?case using IH by (simp add: add.assoc)
qed simp

lemma remap_userdata_types_eq:
  assumes "length ti < 2 ^ 32" and "length us < 2 ^ 32" and "length ls < 2 ^ 32"
  shows "remap_userdata_types rm (type_info_bytes ti us ls) = Some (remapped_types rm ti us ls)"
proof -
  let ?a = "len_bytes (length ti)" and ?b = "len_bytes (length us)" and ?c = "len_bytes (length ls)"
  let ?d = "concat (map typed_local_bytes ls)" and ?us = "map ucast us :: bytes"
  let ?data = "type_info_bytes ti us ls" and ?h = "?a @ ?b @ ?c"
  have data: "?data = ?h @ ti @ ?us @ ?d" by (simp add: type_info_bytes_def)
  have "bytes_at ?data 0 (?a @ ?b @ ?c @ ti @ ?us @ ?d)"
    using bytes_at_self [of "[]" ?data "[]"] by (simp add: type_info_bytes_def)
  then have at: "bytes_at ?data 0 ?a" "bytes_at ?data (length ?a) ?b" "bytes_at ?data (length ?a + length ?b) ?c"
    by (simp_all only: bytes_at_append add_0)
  note r = read_len_bytes [OF assms(1) at(1), unfolded add_0] read_len_bytes [OF assms(2) at(2)] read_len_bytes [OF assms(3) at(3)]
  have z: "(word_of_nat n :: u32) = 0 \<longleftrightarrow> n = 0" if "n < 2 ^ 32" for n
    using unat_of_len [OF that] by (metis unat_0 unat_eq_zero)
  let ?ti = "take 2 ti @ map (remap_type rm) (drop 2 ti)" and ?us' = "map (remap_type rm \<circ> ucast) us"
  have t: "remap_types rm (length ?h + 2) (length ti - 2) ?data = Some (?h @ ?ti @ ?us @ ?d)"
  proof (cases "2 \<le> length ti")
    case True
    have "?data = (?h @ take 2 ti) @ drop 2 ti @ (?us @ ?d)" by (simp add: data)
    moreover have "length ?h + 2 = length (?h @ take 2 ti)" using True by simp
    ultimately have "remap_types rm (length ?h + 2) (length (drop 2 ti)) ?data
        = Some ((?h @ take 2 ti) @ map (remap_type rm) (drop 2 ti) @ (?us @ ?d))"
      by (rule remap_types_eq)
    then show ?thesis by simp
  next
    case False
    then show ?thesis by (simp add: data)
  qed
  have lt: "length ?ti = length ti" by (auto simp: min_def)
  have u: "remap_types rm (length ?h + length ti) (length us) (?h @ ?ti @ ?us @ ?d) = Some (?h @ ?ti @ ?us' @ ?d)"
    using remap_types_eq [OF refl refl, where pre = "?h @ ?ti" and ts = ?us and post = ?d and rm = rm] lt
    by (simp only: length_append length_map append_assoc map_map add.assoc)
  have lt2: "length (?h @ ?ti @ ?us') = length ?h + length ti + length us" by (auto simp: min_def)
  have l: "remap_locals rm (length ls) (?h @ ?ti @ ?us' @ ?d) (length ?h + length ti + length us) =
      Some (remapped_types rm ti us ls, length ?h + length ti + length us + length ?d)"
    using remap_locals_eq [OF refl lt2 [symmetric], where rm = rm and ls = ls]
    by (simp only: append_assoc remapped_types_def)
  have "length (remapped_types rm ti us ls) = length ?h + length ti + length us + length ?d"
    using lt by (simp add: remapped_types_def length_concat comp_def length_remapped_local)
  moreover have h: "length ?a + length ?b + length ?c = length ?h" by simp
  ultimately show ?thesis
    using t u l z [OF assms(1)] z [OF assms(2)] z [OF assms(3)]
    unfolding remap_userdata_types_def r bind.simps(2) prod.case h unat_of_len [OF assms(1)]
      unat_of_len [OF assms(2)] unat_of_len [OF assms(3)]
    by (cases "ti = []"; cases "us = []"; cases "ls = []"; simp add: data)
qed

section \<open>Constants\<close>

text \<open>The value constant \<open>j\<close> of a function loads to, given the values \<open>k\<close> of its constants: tables and
  classes refer to constants before them, and an import is resolved when only those are in place.\<close>

definition entries_table :: "tvalue list \<Rightarrow> (int \<times> int) list \<Rightarrow> (tvalue \<times> tvalue) list" where
  "entries_table k es =
     map (\<lambda>(key, c). (k ! nat key, if c < 0 \<or> k ! nat c = VNil then VNumber 0 else k ! nat c)) es @
     map (\<lambda>(key, c). (k ! nat key, VNil)) (filter (\<lambda>(key, c). 0 \<le> c \<and> k ! nat c = VNil) es)"

definition string_const :: "tvalue list \<Rightarrow> int \<Rightarrow> bytes" where
  "string_const k x = (case k ! nat x of VString s \<Rightarrow> s | _ \<Rightarrow> [])"

fun value_of :: "vm_env \<Rightarrow> fflags \<Rightarrow> bytecode_builder \<Rightarrow> bytes list \<Rightarrow> proto list \<Rightarrow> tvalue list \<Rightarrow> nat
    \<Rightarrow> bconstant \<Rightarrow> tvalue" where
  "value_of env fl b xs protos k j ConstNil = VNil"
| "value_of env fl b xs protos k j (ConstBoolean v) = VBoolean (if v then 1 else 0)"
| "value_of env fl b xs protos k j (ConstNumber v) = VNumber v"
| "value_of env fl b xs protos k j (ConstInteger v) = VInteger v"
| "value_of env fl b xs protos k j (ConstVector x y z w) = VVector x y z"
| "value_of env fl b xs protos k j (ConstString i) = VString (xs ! (unat i - 1))"
| "value_of env fl b xs protos k j (ConstImport iid) =
     ve_resolve_import env (take j k @ replicate (length k - j) VNil) iid"
| "value_of env fl b xs protos k j (ConstTable i) =
     (let s = bb_table_shapes b ! unat i in
      VTable (if packed fl s then entries_table k (shape_entries s)
              else map (\<lambda>key. (k ! nat key, VNumber 0)) (shape_keys s)))"
| "value_of env fl b xs protos k j (ConstClosure fid) = VClosure (unat fid) (p_nups (protos ! unat fid) > 0)"
| "value_of env fl b xs protos k j (ConstClassShape i) =
     (let cs = bb_class_shapes b ! unat i;
          members = map (string_const k) (cs_propertyNames cs @ cs_methodNames cs)
      in VClass (string_const k (cs_className cs)) (zip members [0..<length members]) members
           (length (cs_propertyNames cs)) (length (cs_methodNames cs)))"

text \<open>What a constant may refer to: strings that exist, functions that are finished, and, in a table
  or class, earlier constants that are strings.\<close>

definition key_ok :: "bconstant list \<Rightarrow> nat \<Rightarrow> int \<Rightarrow> bool" where
  "key_ok cs j x \<longleftrightarrow> 0 \<le> x \<and> x < int j \<and> (\<exists>i. cs ! nat x = ConstString i)"

fun const_ok :: "fflags \<Rightarrow> bytecode_builder \<Rightarrow> bytes list \<Rightarrow> nat \<Rightarrow> bconstant list \<Rightarrow> nat \<Rightarrow> bconstant \<Rightarrow> bool" where
  "const_ok fl b xs n cs j (ConstString i) \<longleftrightarrow> i \<noteq> 0 \<and> ref_ok xs i"
| "const_ok fl b xs n cs j (ConstTable i) \<longleftrightarrow>
     (let s = bb_table_shapes b ! unat i in
      unat i < length (bb_table_shapes b) \<and> shape_sized s \<and> unat (ts_length s) < 2 ^ 31 \<and>
      (\<forall>x \<in> set (shape_keys s). key_ok cs j x) \<and>
      (packed fl s \<longrightarrow> (\<forall>(x, c) \<in> set (shape_entries s). - (2 ^ 31) \<le> c \<and> c < int j)))"
| "const_ok fl b xs n cs j (ConstClosure fid) \<longleftrightarrow> unat fid < n"
| "const_ok fl b xs n cs j (ConstClassShape i) \<longleftrightarrow>
     (let c = bb_class_shapes b ! unat i in
      unat i < length (bb_class_shapes b) \<and> key_ok cs j (cs_className c) \<and>
      (\<forall>x \<in> set (cs_propertyNames c @ cs_methodNames c). key_ok cs j x) \<and>
      length (cs_propertyNames c @ cs_methodNames c) < 2 ^ 31)"
| "const_ok fl b xs n cs j _ \<longleftrightarrow> True"

text \<open>The constants while number \<open>j\<close> is loaded.\<close>

definition strings_set :: "bconstant list \<Rightarrow> tvalue list \<Rightarrow> nat \<Rightarrow> bool" where
  "strings_set cs k j \<longleftrightarrow> j \<le> length k \<and> length k < 2 ^ 31 \<and>
     (\<forall>i < j. (\<exists>s. cs ! i = ConstString s) \<longrightarrow> (\<exists>s. k ! i = VString s))"

lemma key_okD:
  assumes "key_ok cs j x" and "strings_set cs k j"
  shows "0 \<le> x" "x < 2 ^ 31" "nat x < length k" "k ! nat x = VString (string_const k x)"
    "table_set (k ! nat x) v h = Some (h @ [(k ! nat x, v)])"
proof -
  show x: "0 \<le> x" "x < 2 ^ 31" "nat x < length k" using assms by (auto simp: key_ok_def strings_set_def)
  have "nat x < j" using assms(1) by (simp add: key_ok_def nat_less_iff)
  then have "\<exists>s. k ! nat x = VString s" using assms by (auto simp: key_ok_def strings_set_def)
  then show "k ! nat x = VString (string_const k x)" "table_set (k ! nat x) v h = Some (h @ [(k ! nat x, v)])"
    by (auto simp: string_const_def table_set_def)
qed

lemma load_table_keys_bytes:
  assumes "strings_set cs k j"
  shows "\<forall>x \<in> set keys. key_ok cs j x \<Longrightarrow> bytes_at data off (concat (map (\<lambda>x. var_int (word_of_int x)) keys)) \<Longrightarrow>
    load_table_keys k (length keys) h data off = Some (h @ map (\<lambda>x. (k ! nat x, VNumber 0)) keys,
      off + length (concat (map (\<lambda>x. var_int (word_of_int x)) keys)))"
proof (induction keys arbitrary: h off)
  case (Cons x keys)
  have at: "bytes_at data off (var_int (word_of_int x))"
    "bytes_at data (off + length (var_int (word_of_int x))) (concat (map (\<lambda>x. var_int (word_of_int x)) keys))"
    using Cons.prems(2) by (simp_all add: bytes_at_append)
  note k = key_okD [OF _ assms, of x]
  show ?case
    using read_i32_bytes [OF _ _ at(1)] k i32_var_u32(2) [of x] Cons.IH [OF _ at(2)] Cons.prems(1)
    by (simp add: add.assoc)
qed simp

lemma load_members_bytes:
  assumes "strings_set cs k j"
  shows "\<forall>x \<in> set ns. key_ok cs j x \<Longrightarrow> bytes_at data off (concat (map (\<lambda>x. var_int (word_of_int x)) ns)) \<Longrightarrow>
    load_members k (length ns) data off = Some (map (string_const k) ns,
      off + length (concat (map (\<lambda>x. var_int (word_of_int x)) ns)))"
proof (induction ns arbitrary: off)
  case (Cons x ns)
  have at: "bytes_at data off (var_int (word_of_int x))"
    "bytes_at data (off + length (var_int (word_of_int x))) (concat (map (\<lambda>x. var_int (word_of_int x)) ns))"
    using Cons.prems(2) by (simp_all add: bytes_at_append)
  note k = key_okD [OF _ assms, of x]
  show ?case
    using read_i32_bytes [OF _ _ at(1)] k i32_var_u32(2) [of x] Cons.IH [OF _ at(2)] Cons.prems(1)
    by (simp add: add.assoc)
qed simp

abbreviation entry_bytes :: "int \<times> int \<Rightarrow> bytes" where
  "entry_bytes \<equiv> \<lambda>(x, c). var_int (word_of_int x) @ int_bytes (word_of_int c)"

lemma load_table_entries_bytes:
  assumes "strings_set cs k j"
  shows "\<forall>(x, c) \<in> set es. key_ok cs j x \<and> - (2 ^ 31) \<le> c \<and> c < int j \<Longrightarrow>
    bytes_at data off (concat (map entry_bytes es)) \<Longrightarrow>
    load_table_entries k (length es) nk h data off = Some
      (h @ map (\<lambda>(x, c). (k ! nat x, if c < 0 \<or> k ! nat c = VNil then VNumber 0 else k ! nat c)) es,
       nk @ map (\<lambda>(x, c). word_of_int x) (filter (\<lambda>(x, c). 0 \<le> c \<and> k ! nat c = VNil) es),
       off + length (concat (map entry_bytes es)))"
proof (induction es arbitrary: h nk off)
  case (Cons e es)
  obtain x c where e: "e = (x, c)" by (cases e)
  let ?x = "var_int (word_of_int x)" and ?c = "int_bytes (word_of_int c)"
  have at: "bytes_at data off ?x" "bytes_at data (off + length ?x) ?c"
    "bytes_at data (off + length ?x + 4) (concat (map entry_bytes es))"
    using Cons.prems(2) by (simp_all add: bytes_at_append e)
  have ok: "key_ok cs j x" "- (2 ^ 31) \<le> c" "c < int j" using Cons.prems(1) by (auto simp: e)
  note k = key_okD [OF ok(1) assms]
  have c: "sint (word_of_int c :: u32) = c"
    unfolding sint_word_of_int_u32 using ok(2,3) assms by (intro wrap_i32_small) (auto simp: strings_set_def)
  have cn: "unat (word_of_int c :: u32) = nat c" "nat c < length k" if "0 \<le> c"
    using i32_var_u32(2) [OF that] ok(3) assms that by (auto simp: strings_set_def)
  note r = read_i32_bytes [OF k(1,2) at(1)] read_u32_bytes [OF at(2)] i32_var_u32(2) [OF k(1,2)]
  note IH = Cons.IH [OF _ at(3)]
  show ?case
    using r k(3,5) c cn IH Cons.prems(1)
    by (cases "0 \<le> c"; cases "k ! nat c = VNil") (simp_all add: e add.assoc)
qed simp

lemma set_nil_keys_eq:
  assumes "strings_set cs k j"
  shows "\<forall>x \<in> set ns. key_ok cs j x \<Longrightarrow>
    set_nil_keys k (map word_of_int ns) h = Some (h @ map (\<lambda>x. (k ! nat x, VNil)) ns)"
proof (induction ns arbitrary: h)
  case (Cons x ns)
  note k = key_okD [OF _ assms, of x]
  show ?case using k i32_var_u32(2) [of x] Cons by simp
qed simp

lemma load_class_shape_bytes:
  assumes s: "strings_set cs k j" and ok: "const_ok fl b xs (length protos) cs j (ConstClassShape i)"
    and at: "bytes_at data off (class_shape_bytes (bb_class_shapes b ! unat i))"
  shows "load_class_shape k data off = Some (value_of env fl b xs protos k j (ConstClassShape i),
    off + length (class_shape_bytes (bb_class_shapes b ! unat i)))"
proof -
  let ?c = "bb_class_shapes b ! unat i"
  let ?n = "var_int (word_of_int (cs_className ?c))" and ?p = "len_bytes (length (cs_propertyNames ?c))"
    and ?m = "len_bytes (length (cs_methodNames ?c))" and ?ns = "cs_propertyNames ?c @ cs_methodNames ?c"
  let ?b = "concat (map (\<lambda>n. var_int (word_of_int n)) ?ns)"
  have at': "bytes_at data off (?n @ ?p @ ?m @ ?b)" using at by (simp add: class_shape_bytes_def)
  then have at: "bytes_at data off ?n" "bytes_at data (off + length ?n) ?p"
    "bytes_at data (off + length ?n + length ?p) ?m" "bytes_at data (off + length ?n + length ?p + length ?m) ?b"
    unfolding bytes_at_append by blast+
  have ok: "key_ok cs j (cs_className ?c)" "\<forall>x \<in> set ?ns. key_ok cs j x" "length ?ns < 2 ^ 31"
    using ok by (auto simp: Let_def)
  note n = key_okD [OF ok(1) s]
  have len: "length (cs_propertyNames ?c) < 2 ^ 32" "length (cs_methodNames ?c) < 2 ^ 32" using ok(3) by simp_all
  note r = read_i32_bytes [OF n(1,2) at(1)] read_len_bytes [OF len(1) at(2)] read_len_bytes [OF len(2) at(3)]
    load_members_bytes [OF s ok(2) at(4)]
  have l: "length (cs_methodNames ?c) + length (cs_propertyNames ?c) = length ?ns" by simp
  show ?thesis
    using n(3,4) ok(3)
    unfolding load_class_shape_def r bind.simps(2) prod.case i32_var_u32(2) [OF n(1,2)]
      unat_of_len [OF len(1)] unat_of_len [OF len(2)] l Let_def
    by (simp add: r(4) [unfolded] class_shape_bytes_def Let_def add.assoc)
qed

lemma negate_twice: "NOT (NOT v + 1) + 1 = (v :: u64)"
  by (metis minus_eq_not_plus_1 minus_minus)

lemma load_constant_bytes:
  assumes s: "strings_set cs k j" and tail: "drop j k = replicate (length k - j) VNil"
    and ok: "const_ok fl b xs (length protos) cs j c" and at: "bytes_at data off (constant_bytes fl b c)"
  shows "load_constant env xs protos k data off
    = Some (value_of env fl b xs protos k j c, off + length (constant_bytes fl b c))"
proof -
  have "constant_bytes fl b c \<noteq> []" by (cases c) (auto simp: Let_def)
  then obtain tag bs where tb: "constant_bytes fl b c = [tag] @ bs" by (cases "constant_bytes fl b c") auto
  have a: "read_u8 data off = Some (tag, off + 1)" "bytes_at data (off + 1) bs"
    using at read_u8_bytes [of data off tag] unfolding tb bytes_at_append by simp_all
  have k: "take j k @ replicate (length k - j) VNil = k" using tail by (metis append_take_drop_id)
  show ?thesis
  proof (cases c)
    case (ConstVector x y z w)
    then have "bytes_at data (off + 1) (int_bytes x @ int_bytes y @ int_bytes z @ int_bytes w)"
      using a(2) tb by simp
    then have "bytes_at data (off + 1) (int_bytes x)" "bytes_at data (off + 5) (int_bytes y)"
      "bytes_at data (off + 9) (int_bytes z)" "bytes_at data (off + 13) (int_bytes w)"
      by (simp_all add: bytes_at_append add.commute)
    then have "read_u32 data (off + 1) = Some (x, off + 5)" "read_u32 data (off + 5) = Some (y, off + 9)"
      "read_u32 data (off + 9) = Some (z, off + 13)" "read_u32 data (off + 13) = Some (w, off + 17)"
      using read_u32_bytes by (simp_all add: add.commute add.left_commute)
    then show ?thesis using a(1) tb by (auto simp: load_constant_def ConstVector)
  next
    case (ConstTable i)
    let ?s = "bb_table_shapes b ! unat i" and ?len = "u32_var (ts_length (bb_table_shapes b ! unat i))"
    have ok': "shape_sized ?s" "unat (ts_length ?s) < 2 ^ 31" "\<forall>x \<in> set (shape_keys ?s). key_ok cs j x"
      "packed fl ?s \<longrightarrow> (\<forall>(x, c) \<in> set (shape_entries ?s). key_ok cs j x \<and> - (2 ^ 31) \<le> c \<and> c < int j)"
      using ok by (auto simp: ConstTable Let_def shape_entries_def dest: set_zip_leftD)
    have n: "length (shape_keys ?s) = unat (ts_length ?s)" "length (shape_entries ?s) = unat (ts_length ?s)"
      using ok'(1) by (auto simp: shape_keys_def shape_entries_def shape_sized_def)
    have rd: "read_size data (off + 1) = Some (unat (ts_length ?s), off + 1 + length ?len)"
      using a(2) tb ok'(2) read_var_bytes [of data "off + 1" "ts_length ?s"]
      by (auto simp: read_size_def ConstTable Let_def bytes_at_append split: if_splits)
    show ?thesis
    proof (cases "packed fl ?s")
      case True
      let ?bs = "concat (map entry_bytes (shape_entries ?s))"
      let ?nk = "filter (\<lambda>(x, c). 0 \<le> c \<and> k ! nat c = VNil) (shape_entries ?s)"
      have "bytes_at data (off + 1 + length ?len) ?bs"
        using a(2) tb True by (auto simp: ConstTable Let_def bytes_at_append)
      note e = load_table_entries_bytes [OF s _ this, of "[]" "[]", unfolded n(2)]
      have "map (\<lambda>(x, c). word_of_int x) ?nk = map word_of_int (map fst ?nk)" by auto
      moreover have "set_nil_keys k (map word_of_int (map fst ?nk)) h = Some (h @ map (\<lambda>x. (k ! nat x, VNil)) (map fst ?nk))" for h
        using ok'(4) True by (intro set_nil_keys_eq [OF s]) auto
      ultimately show ?thesis
        using a(1) tb rd e ok'(4) True
        by (auto simp: load_constant_def ConstTable Let_def entries_table_def comp_def case_prod_unfold add.assoc)
    next
      case False
      have "bytes_at data (off + 1 + length ?len) (concat (map (\<lambda>x. var_int (word_of_int x)) (shape_keys ?s)))"
        using a(2) tb False by (auto simp: ConstTable Let_def bytes_at_append)
      from load_table_keys_bytes [OF s ok'(3) this, of "[]"] show ?thesis
        using a(1) tb rd n(1) False by (auto simp: load_constant_def ConstTable Let_def add.assoc)
    qed
  next
    case (ConstClassShape i)
    then show ?thesis
      using a tb load_class_shape_bytes [OF s, of fl b xs protos i data "off + 1" env] ok
      by (auto simp: load_constant_def)
  next
    case (ConstInteger v)
    let ?neg = "sint v < 0" and ?m = "if sint v < 0 then NOT v + 1 else v"
    have "bytes_at data (off + 1) ([if ?neg then 1 else 0] @ var_int ?m)"
      using a(2) tb by (auto simp: ConstInteger split: if_splits)
    then have "read_u8 data (off + 1) = Some (if ?neg then 1 else 0, off + 2)"
      "read_var_int_64 data (off + 2) = Some (?m, off + 2 + length (var_int ?m))"
      using read_u8_bytes [of data "off + 1" "if ?neg then 1 else 0"] read_var64_bytes [of data "off + 2" ?m]
      unfolding bytes_at_append by (simp_all add: add.assoc)
    then show ?thesis
      using a(1) tb negate_twice [of v] by (auto simp: load_constant_def ConstInteger split: if_splits)
  next
    case (ConstString i)
    then show ?thesis
      using a tb ok read_string_bytes [of data "off + 1" i xs] by (auto simp: load_constant_def string_at_def)
  next
    case (ConstImport iid)
    then show ?thesis using a tb k read_u32_bytes [of data "off + 1" iid] by (auto simp: load_constant_def)
  next
    case (ConstClosure fid)
    then show ?thesis using a tb ok read_var_bytes [of data "off + 1" fid] by (auto simp: load_constant_def)
  next
    case (ConstNumber v)
    then show ?thesis using a tb read_u64_bytes [of data "off + 1" v] by (auto simp: load_constant_def)
  next
    case (ConstBoolean v)
    then show ?thesis using a tb read_u8_bytes [of data "off + 1" "if v then 1 else 0"] by (auto simp: load_constant_def)
  next
    case ConstNil
    then show ?thesis using a tb by (simp add: load_constant_def)
  qed
qed

lemma value_of_cong:
  assumes "const_ok fl b xs (length protos) cs j c" and "take j k = take j k'" and "length k = length k'" and "j \<le> length k"
  shows "value_of env fl b xs protos k j c = value_of env fl b xs protos k' j c"
proof -
  have nth: "k ! nat x = k' ! nat x" if "x < int j" "0 \<le> x" for x
  proof -
    have "nat x < j" using that by (simp add: nat_less_iff)
    then show ?thesis using assms(2) by (metis nth_take)
  qed
  show ?thesis
  proof (cases c)
    case (ConstTable i)
    let ?s = "bb_table_shapes b ! unat i"
    have ok: "\<forall>x \<in> set (shape_keys ?s). 0 \<le> x \<and> x < int j"
      "packed fl ?s \<longrightarrow> (\<forall>(x, c) \<in> set (shape_entries ?s). 0 \<le> x \<and> x < int j \<and> c < int j)"
      using assms(1) by (auto simp: ConstTable Let_def key_ok_def shape_entries_def dest: set_zip_leftD)
    have "map (\<lambda>x. (k ! nat x, VNumber 0)) (shape_keys ?s) = map (\<lambda>x. (k' ! nat x, VNumber 0)) (shape_keys ?s)"
      using ok(1) nth by (intro map_cong) auto
    moreover have "entries_table k (shape_entries ?s) = entries_table k' (shape_entries ?s)" if "packed fl ?s"
    proof -
      have e: "k ! nat x = k' ! nat x \<and> (0 \<le> c \<longrightarrow> k ! nat c = k' ! nat c)" if "(x, c) \<in> set (shape_entries ?s)" for x c
        using ok(2) nth that \<open>packed fl ?s\<close> by auto
      have "filter (\<lambda>(x, c). 0 \<le> c \<and> k ! nat c = VNil) (shape_entries ?s)
          = filter (\<lambda>(x, c). 0 \<le> c \<and> k' ! nat c = VNil) (shape_entries ?s)"
        using e by (intro filter_cong) auto
      then show ?thesis
        unfolding entries_table_def using e by (intro arg_cong2 [of _ _ _ _ append] map_cong) (auto simp: not_less)
    qed
    ultimately show ?thesis by (simp add: ConstTable Let_def)
  next
    case (ConstClassShape i)
    let ?c = "bb_class_shapes b ! unat i"
    have ok: "\<forall>x \<in> set (cs_propertyNames ?c @ cs_methodNames ?c). key_ok cs j x" "key_ok cs j (cs_className ?c)"
      using assms(1) by (auto simp: ConstClassShape Let_def)
    have sc: "string_const k x = string_const k' x" if "key_ok cs j x" for x
      using that nth [of x] by (simp add: string_const_def key_ok_def)
    have "map (string_const k) (cs_propertyNames ?c @ cs_methodNames ?c)
        = map (string_const k') (cs_propertyNames ?c @ cs_methodNames ?c)"
      using ok(1) sc by (intro map_cong) auto
    then show ?thesis using sc [OF ok(2)] by (simp only: ConstClassShape value_of.simps Let_def)
  qed (use assms in simp_all)
qed

definition constants_loaded :: "vm_env \<Rightarrow> fflags \<Rightarrow> bytecode_builder \<Rightarrow> bytes list \<Rightarrow> proto list \<Rightarrow> tvalue list \<Rightarrow> bool" where
  "constants_loaded env fl b xs protos k \<longleftrightarrow> length k = length (bb_constants b) \<and>
     (\<forall>j < length k. k ! j = value_of env fl b xs protos k j (bb_constants b ! j))"

definition constants_ok :: "fflags \<Rightarrow> bytecode_builder \<Rightarrow> bytes list \<Rightarrow> nat \<Rightarrow> bool" where
  "constants_ok fl b xs n \<longleftrightarrow> length (bb_constants b) < 2 ^ 31 \<and>
     (\<forall>j < length (bb_constants b). const_ok fl b xs n (bb_constants b) j (bb_constants b ! j))"

lemma load_constants_bytes:
  assumes ok: "constants_ok fl b xs (length protos)"
  shows "bb_constants b = ds @ rest \<Longrightarrow> length k = length (bb_constants b) \<Longrightarrow>
    \<forall>i < length ds. k ! i = value_of env fl b xs protos k i (bb_constants b ! i) \<Longrightarrow>
    drop (length ds) k = replicate (length k - length ds) VNil \<Longrightarrow>
    bytes_at data off (concat (map (constant_bytes fl b) rest)) \<Longrightarrow>
    \<exists>k'. load_constants env xs protos (length ds) (length rest) k data off
        = Some (k', off + length (concat (map (constant_bytes fl b) rest))) \<and> constants_loaded env fl b xs protos k'"
proof (induction rest arbitrary: ds k off)
  case Nil
  then show ?case by (simp add: constants_loaded_def)
next
  case (Cons c rest)
  let ?j = "length ds" and ?cs = "bb_constants b" and ?v = "value_of env fl b xs protos k (length ds) c"
  have j: "?j < length k" "?cs ! ?j = c" using Cons.prems(1,2) by simp_all
  have cok: "const_ok fl b xs (length protos) ?cs i (?cs ! i)" if "i < length ?cs" for i
    using ok that by (simp add: constants_ok_def)
  have "strings_set ?cs k ?j"
    using ok j Cons.prems(2,3) by (auto simp: strings_set_def constants_ok_def)
  then have ld: "load_constant env xs protos k data off = Some (?v, off + length (constant_bytes fl b c))"
    using load_constant_bytes [OF _ Cons.prems(4), of ?cs fl b xs protos c data off env] cok [of ?j] j Cons.prems(2,5)
    by (simp add: bytes_at_append)
  let ?k = "k[?j := ?v]"
  have val: "?k ! i = value_of env fl b xs protos ?k i (?cs ! i)" if i: "i < length (ds @ [c])" for i
  proof -
    have "take i ?k = take i k" using i by simp
    then have "value_of env fl b xs protos ?k i (?cs ! i) = value_of env fl b xs protos k i (?cs ! i)"
      using cok [of i] i j Cons.prems(2) by (intro value_of_cong [of fl b xs protos ?cs]) auto
    then show ?thesis using i j Cons.prems(3) by (cases "i = ?j") auto
  qed
  have "drop (Suc ?j) k = replicate (length k - Suc ?j) VNil"
    using Cons.prems(4) by (metis Suc_eq_plus1 diff_diff_left drop_Suc drop_replicate drop_drop plus_1_eq_Suc drop_0)
  then have tail: "drop (length (ds @ [c])) ?k = replicate (length ?k - length (ds @ [c])) VNil" by simp
  have at: "bytes_at data (off + length (constant_bytes fl b c)) (concat (map (constant_bytes fl b) rest))"
    using Cons.prems(5) by (simp add: bytes_at_append)
  obtain k' where "load_constants env xs protos (length (ds @ [c])) (length rest) ?k data (off + length (constant_bytes fl b c))
      = Some (k', off + length (constant_bytes fl b c) + length (concat (map (constant_bytes fl b) rest)))"
    "constants_loaded env fl b xs protos k'"
    using Cons.IH [of "ds @ [c]" ?k] Cons.prems(1,2) val tail at by auto
  then show ?case using ld by (simp add: add.assoc)
qed

section \<open>Functions\<close>

lemma load_children_bytes:
  "\<forall>c \<in> set cs. unat c < length protos \<Longrightarrow> bytes_at data off (concat (map u32_var cs)) \<Longrightarrow>
    load_children protos (length cs) data off = Some (map unat cs, off + length (concat (map u32_var cs)))"
proof (induction cs arbitrary: off)
  case (Cons c cs)
  have at: "bytes_at data off (u32_var c)" "bytes_at data (off + length (u32_var c)) (concat (map u32_var cs))"
    using Cons.prems(2) by (simp_all add: bytes_at_append)
  show ?case using read_var_bytes [OF at(1)] Cons.IH [OF _ at(2)] Cons.prems(1) by (simp add: add.assoc)
qed simp

definition local_var :: "bytes list \<Rightarrow> debug_local \<Rightarrow> loc_var" where
  "local_var xs l = \<lparr>lv_varname = string_at xs (dl_name l), lv_startpc = dl_startpc l, lv_endpc = dl_endpc l,
     lv_reg = dl_reg l\<rparr>"

interpretation refc: codec u32_var "read_string xs" "string_at xs" "ref_ok xs" for xs
  by unfold_locales (rule read_string_bytes)

interpretation locc: codec debug_local_bytes "load_loc_var xs" "local_var xs" "\<lambda>l. ref_ok xs (dl_name l)" for xs
proof unfold_locales
  fix l data off
  assume "ref_ok xs (dl_name l)" and "bytes_at data off (debug_local_bytes l)"
  let ?a = "u32_var (dl_name l)" and ?b = "u32_var (dl_startpc l)" and ?c = "u32_var (dl_endpc l)"
  have "bytes_at data off (?a @ ?b @ ?c @ [dl_reg l])"
    using \<open>bytes_at data off (debug_local_bytes l)\<close> by (simp add: debug_local_bytes_def)
  then have at: "bytes_at data off ?a" "bytes_at data (off + length ?a) ?b" "bytes_at data (off + length ?a + length ?b) ?c"
    "bytes_at data (off + length ?a + length ?b + length ?c) [dl_reg l]"
    unfolding bytes_at_append by blast+
  show "load_loc_var xs data off = Some (local_var xs l, off + length (debug_local_bytes l))"
    using read_string_bytes [OF at(1) \<open>ref_ok xs (dl_name l)\<close>] read_var_bytes [OF at(2)] read_var_bytes [OF at(3)]
      read_u8_bytes [OF at(4)]
    by (simp add: load_loc_var_def local_var_def debug_local_bytes_def add.assoc)
qed

interpretation fbc: codec "\<lambda>pc. LFT_CALLTARGET # u32_var pc" load_feedback_slot id "\<lambda>_. True"
proof unfold_locales
  fix pc data off
  assume "bytes_at data off (LFT_CALLTARGET # u32_var pc)"
  then have "bytes_at data off [LFT_CALLTARGET]" and at: "bytes_at data (off + 1) (u32_var pc)"
    using bytes_at_append [of data off "[LFT_CALLTARGET]" "u32_var pc"] by simp_all
  from read_u8_bytes [OF this(1)] read_var_bytes [OF at]
  show "load_feedback_slot data off = Some (id pc, off + length (LFT_CALLTARGET # u32_var pc))"
    by (simp add: load_feedback_slot_def)
qed

subsection \<open>Direct access\<close>

text \<open>An access with a constant string key, whose number fits 16 bits and whose atom is known, becomes
  an access to user data; no other word changes.\<close>

definition direct_insn :: "(bytes \<Rightarrow> int) \<Rightarrow> tvalue list \<Rightarrow> u32 list \<Rightarrow> nat \<Rightarrow> u32" where
  "direct_insn atom k code i =
     (case udata_op (insn_op (code ! i)) of
        None \<Rightarrow> code ! i
      | Some target \<Rightarrow>
          (case k ! unat (code ! (i + 1)) of
             VString s \<Rightarrow>
               if code ! (i + 1) < 0x10000 \<and> atom s \<ge> 0 then (code ! i AND 0xffffff00) OR ucast target
               else code ! i
           | _ \<Rightarrow> code ! i))"

definition direct_ok :: "nat \<Rightarrow> (nat \<Rightarrow> bool) \<Rightarrow> u32 list \<Rightarrow> bool" where
  "direct_ok sizek is_string code \<longleftrightarrow> wf_code code \<and>
     (\<forall>i < length code. instr_start code i \<longrightarrow> udata_op (insn_op (code ! i)) \<noteq> None \<longrightarrow>
        unat (code ! (i + 1)) < sizek \<and> is_string (unat (code ! (i + 1))))"

definition direct_done :: "(bytes \<Rightarrow> int) \<Rightarrow> tvalue list \<Rightarrow> u32 list \<Rightarrow> nat \<Rightarrow> u32 list" where
  "direct_done atom k code i = map (\<lambda>m. if m < i \<and> instr_start code m then direct_insn atom k code m else code ! m)
     [0..<length code]"

lemma insn_op_replace: "insn_op ((w AND 0xffffff00) OR ucast op) = op"
proof -
  have m: "(0xffffff00 :: u32) = NOT (mask 8)" by (simp add: mask_eq_exp_minus_1)
  show ?thesis unfolding insn_op_eq m by (rule bit_word_eqI) (auto simp: bit_simps)
qed

lemma getOpLength_direct: "getOpLength (insn_op (direct_insn atom k code i)) = getOpLength (insn_op (code ! i))"
proof (cases "udata_op (insn_op (code ! i))")
  case (Some t)
  then have "getOpLength t = getOpLength (insn_op (code ! i))" by (auto simp: udata_op_def getOpLength_def split: if_splits)
  then show ?thesis using Some insn_op_replace [of "code ! i" t]
    by (cases "k ! unat (code ! (i + 1))") (simp_all add: direct_insn_def)
qed (simp add: direct_insn_def)

lemma direct_done_next:
  assumes "instr_start code i" and "i < length code"
  shows "(direct_done atom k code i)[i := direct_insn atom k code i]
    = direct_done atom k code (i + getOpLength (insn_op (code ! i)))"
proof (rule nth_equalityI)
  fix m
  assume "m < length ((direct_done atom k code i)[i := direct_insn atom k code i])"
  then have m: "m < length code" by (simp add: direct_done_def)
  have "\<not> instr_start code m" if "i < m" "m < i + getOpLength (insn_op (code ! i))"
    using no_start_inside [OF assms(1) _ that(1)] that(2) by auto
  then show "(direct_done atom k code i)[i := direct_insn atom k code i] ! m
      = direct_done atom k code (i + getOpLength (insn_op (code ! i))) ! m"
    using m assms getOpLength_pos [of "insn_op (code ! i)"]
    by (cases "m = i"; cases "i < m") (auto simp: direct_done_def nth_list_update not_less)
qed (simp add: direct_done_def)

lemma direct_access_insn_eq:
  assumes ok: "direct_ok (length k) (\<lambda>i. \<exists>s. k ! i = VString s) code" and "instr_start code i" "i < length code"
    and small: "length k < 2 ^ 31"
  shows "direct_access_insn atom k (direct_done atom k code i) i = Some (direct_insn atom k code i)"
proof -
  let ?d = "direct_done atom k code i"
  have cur: "?d ! m = code ! m" if "i \<le> m" "m < length code" for m using that by (simp add: direct_done_def)
  have wf: "insn_op (code ! i) < LOP__COUNT" "i + getOpLength (insn_op (code ! i)) \<le> length code"
    using ok assms(2,3) by (auto simp: direct_ok_def wf_code_def)
  show ?thesis
  proof (cases "udata_op (insn_op (code ! i))")
    case None
    then show ?thesis using wf cur assms(3)
      by (simp add: direct_access_insn_def direct_insn_def LuauOpcode_from_def)
  next
    case (Some t)
    then have i1: "i + 1 < length code" using wf(2) by (auto simp: udata_op_def getOpLength_def split: if_splits)
    have aux: "unat (code ! (i + 1)) < length k" "\<exists>s. k ! unat (code ! (i + 1)) = VString s"
      using ok assms(2,3) Some by (auto simp: direct_ok_def)
    then have "code ! (i + 1) < word_of_nat (length k)"
      using small by (simp add: word_less_nat_alt unat_of_nat take_bit_nat_eq_self)
    then show ?thesis
      using wf cur [of i] cur [of "i + 1"] i1 assms(3) aux Some
      by (auto simp: direct_access_insn_def direct_insn_def LuauOpcode_from_def direct_done_def)
  qed
qed

lemma direct_access_eq:
  assumes ok: "direct_ok (length k) (\<lambda>i. \<exists>s. k ! i = VString s) code" and small: "length k < 2 ^ 31"
  shows "instr_start code i \<Longrightarrow> i \<le> length code \<Longrightarrow>
    direct_access atom k (direct_done atom k code i) i = Some (direct_done atom k code (length code))"
proof (induction "length code - i" arbitrary: i rule: less_induct)
  case less
  have len: "length (direct_done atom k code i) = length code" by (simp add: direct_done_def)
  show ?case
  proof (cases "i < length code")
    case False
    then show ?thesis using less.prems(2) len by (subst direct_access.simps) simp
  next
    case True
    let ?n = "getOpLength (insn_op (code ! i))"
    have "length code - (i + ?n) < length code - i" using getOpLength_pos [of "insn_op (code ! i)"] True by simp
    moreover have "i + ?n \<le> length code" using ok less.prems(1) True by (auto simp: direct_ok_def wf_code_def)
    ultimately have "direct_access atom k (direct_done atom k code (i + ?n)) (i + ?n)
        = Some (direct_done atom k code (length code))"
      using less.hyps instr_start_next [OF less.prems(1)] by blast
    then show ?thesis
      using True len direct_access_insn_eq [OF ok less.prems(1) True small]
        direct_done_next [OF less.prems(1) True] getOpLength_direct [of atom k code i]
      by (subst direct_access.simps) simp
  qed
qed

lemma direct_access_correct:
  assumes "direct_ok (length k) (\<lambda>i. \<exists>s. k ! i = VString s) code" and "length k < 2 ^ 31"
  shows "direct_access atom k code 0 = Some (direct_done atom k code (length code))"
proof -
  have "direct_done atom k code 0 = code" by (simp add: direct_done_def map_nth)
  then show ?thesis using direct_access_eq [OF assms, of 0 atom] by simp
qed

subsection \<open>A whole function\<close>

lemma load_debug_bytes:
  assumes "bytes_at data off (debug_bytes ls us)" and "list_all (\<lambda>l. ref_ok xs (dl_name l)) ls" and "list_all (ref_ok xs) us"
    and "length ls < 2 ^ 31" and "length us < 2 ^ 31" and nups: "ls = [] \<and> us = [] \<or> length us = unat nups"
  shows "load_debug xs nups data off = Some (map (local_var xs) ls, map (string_at xs) us, off + length (debug_bytes ls us))"
proof (cases "ls = [] \<and> us = []")
  case True
  then show ?thesis using assms(1) read_u8_bytes [of data off 0] by (simp add: debug_bytes_def load_debug_def)
next
  case False
  let ?n = "len_bytes (length ls)" and ?l = "concat (map debug_local_bytes ls)" and ?m = "len_bytes (length us)"
  have "bytes_at data off ([1] @ ?n @ ?l @ ?m @ concat (map u32_var us))" using assms(1) False by (auto simp: debug_bytes_def)
  then have at: "bytes_at data off [1]" "bytes_at data (off + 1) ?n" "bytes_at data (off + 1 + length ?n) ?l"
    "bytes_at data (off + 1 + length ?n + length ?l) ?m"
    "bytes_at data (off + 1 + length ?n + length ?l + length ?m) (concat (map u32_var us))"
    unfolding bytes_at_append by simp_all
  note r = read_u8_bytes [OF at(1)] read_size_bytes [OF assms(4) at(2)] locc.dec_list [OF assms(2) at(3)]
    read_size_bytes [OF assms(5) at(4)] refc.dec_list [OF assms(3) at(5)]
  show ?thesis
    using False nups unfolding load_debug_def r bind.simps(2) prod.case
    by (auto simp: debug_bytes_def add.assoc)
qed

lemma load_lines_bytes:
  assumes "bytes_at data off (lines_bytes lines)" and "0 \<notin> set lines \<longrightarrow> lines \<noteq> [] \<and> good_lines lines"
  shows "\<exists>li. load_lines (length lines) data off = Some (li, off + length (lines_bytes lines)) \<and>
    (if 0 \<in> set lines then li = None
     else li \<noteq> None \<and> (\<forall>pc < length lines. luaG_getline (length lines) li pc = Some (lines ! pc)))"
proof (cases "0 \<in> set lines")
  case True
  then show ?thesis using assms(1) read_u8_bytes [of data off 0] by (simp add: lines_bytes_def load_lines_def)
next
  case False
  then obtain t li where t: "\<forall>ss. write_line_info lines ss = Some (ss @ t)"
    "\<forall>data off. bytes_at data off t \<longrightarrow> load_line_info (length lines) data off = Some (li, off + length t)"
    "\<forall>pc < length lines. luaG_getline (length lines) (Some li) pc = Some (lines ! pc)"
    using line_table_correct assms(2) by blast
  have b: "lines_bytes lines = [1] @ t" using False t(1) by (simp add: lines_bytes_def)
  have at: "bytes_at data off [1]" "bytes_at data (off + 1) t"
    using assms(1) unfolding b bytes_at_append by simp_all
  show ?thesis
    using read_u8_bytes [OF at(1)] t(2) [rule_format, OF at(2)] t(3) False
    by (simp add: load_lines_def b)
qed

lemma load_feedback_bytes:
  assumes "bytes_at data off (feedback_bytes fl slots)" and "length slots < 2 ^ 32"
    and "LuauEmitCallFeedback fl \<longrightarrow> LuauCallFeedback (ve_flags env)"
  shows "load_feedback env (get_version fl) data off
    = Some (if LuauEmitCallFeedback fl then slots else [], off + length (feedback_bytes fl slots))"
proof (cases "LuauEmitCallFeedback fl")
  case True
  let ?n = "len_bytes (length slots)"
  have at: "bytes_at data off ?n" "bytes_at data (off + length ?n) (concat (map (\<lambda>pc. LFT_CALLTARGET # u32_var pc) slots))"
    using assms(1) True by (simp_all add: feedback_bytes_def bytes_at_append)
  have "read_list (length slots) load_feedback_slot data (off + length ?n)
      = Some (slots, off + length (feedback_bytes fl slots))"
    using fbc.dec_list [OF _ at(2)] True by (simp add: list_all_iff feedback_bytes_def add.assoc)
  then show ?thesis
    using read_len_bytes [OF assms(2) at(1)] True assms(3) unat_of_len [OF assms(2)]
    by (simp add: load_feedback_def get_version_def)
next
  case False
  then show ?thesis by (simp add: load_feedback_def get_version_def feedback_bytes_def word_le_nat_alt)
qed

lemma typed_locals_length: "length ls \<le> length (concat (map typed_local_bytes ls))"
  by (induction ls) (simp_all add: typed_local_bytes_def)

lemma load_flags_bytes:
  assumes at: "bytes_at data off ([flags] @ types_bytes b func)"
    and "length (type_info_bytes (fn_typeinfo func) (bb_typed_upvals b) (bb_typed_locals b)) < 2 ^ 32"
  shows "load_flags (get_version fl) 3 numparams rm data off = Some (flags,
      if fn_typeinfo func = [] \<and> bb_typed_upvals b = [] \<and> bb_typed_locals b = [] then []
      else remapped_types rm (fn_typeinfo func) (bb_typed_upvals b) (bb_typed_locals b),
      off + 1 + length (types_bytes b func))"
proof -
  let ?ti = "fn_typeinfo func" and ?us = "bb_typed_upvals b" and ?ls = "bb_typed_locals b"
  let ?t = "type_info_bytes ?ti ?us ?ls"
  have v: "4 \<le> get_version fl" by (simp add: get_version_def word_le_nat_alt)
  have at: "bytes_at data off [flags]" "bytes_at data (off + 1) (types_bytes b func)"
    using at unfolding bytes_at_append by simp_all
  note f = read_u8_bytes [OF at(1)]
  show ?thesis
  proof (cases "?ti = [] \<and> ?us = [] \<and> ?ls = []")
    case True
    then have "bytes_at data (off + 1) (u32_var 0)" using at(2) by (simp add: types_bytes_def)
    from read_var_bytes [OF this] show ?thesis
      using f v True by (simp add: load_flags_def load_typeinfo_def types_bytes_def)
  next
    case False
    let ?n = "len_bytes (length ?t)"
    have tb: "types_bytes b func = ?n @ ?t" using False by (auto simp: types_bytes_def Let_def)
    have at': "bytes_at data (off + 1) ?n" "bytes_at data (off + 1 + length ?n) ?t"
      using at(2) unfolding tb bytes_at_append by simp_all
    have "length ?ti \<le> length ?t" "length ?us \<le> length ?t" "length ?ls \<le> length ?t"
      using typed_locals_length [of ?ls] by (simp_all add: type_info_bytes_def)
    then have rm: "remap_userdata_types rm ?t = Some (remapped_types rm ?ti ?us ?ls)"
      using assms(2) by (intro remap_userdata_types_eq) linarith+
    have "?t \<noteq> []" by (simp add: type_info_bytes_def var_int_unfold [of "word_of_nat (length ?ti)"])
    then have nz: "(word_of_nat (length ?t) :: u32) \<noteq> 0" using unat_of_len [OF assms(2)] by (metis length_0_conv unat_0)
    note r = f read_len_bytes [OF assms(2) at'(1)] read_bytes_at [OF at'(2)] rm
    show ?thesis
      using False v nz r unat_of_len [OF assms(2)] unfolding load_flags_def load_typeinfo_def
      by (auto simp: tb add.assoc)
  qed
qed

text \<open>What a function must satisfy to be loaded: besides what \<open>write_function\<close> needs, sizes that a
  \<open>c_int\<close> holds, references to strings and functions that are there, one name per upvalue when there
  is debug information, and, for direct access, constant keys that are strings.\<close>

definition function_ok :: "vm_env \<Rightarrow> fflags \<Rightarrow> bytes list \<Rightarrow> nat \<Rightarrow> bytecode_builder \<Rightarrow> bfunction \<Rightarrow> bool" where
  "function_ok env fl xs n b func \<longleftrightarrow>
     function_written b \<and> constants_ok fl b xs n \<and>
     length (type_info_bytes (fn_typeinfo func) (bb_typed_upvals b) (bb_typed_locals b)) < 2 ^ 32 \<and>
     length (bb_insns b) < 2 ^ 31 \<and> length (bb_lines b) = length (bb_insns b) \<and>
     length (bb_protos b) < 2 ^ 31 \<and> (\<forall>c \<in> set (bb_protos b). unat c < n) \<and>
     0 \<le> fn_debuglinedefined func \<and> fn_debuglinedefined func < 2 ^ 31 \<and> ref_ok xs (fn_debugname func) \<and>
     list_all (\<lambda>l. ref_ok xs (dl_name l)) (bb_debug_locals b) \<and> list_all (ref_ok xs) (bb_debug_upvals b) \<and>
     length (bb_debug_locals b) < 2 ^ 31 \<and> length (bb_debug_upvals b) < 2 ^ 31 \<and>
     (bb_debug_locals b = [] \<and> bb_debug_upvals b = [] \<or> length (bb_debug_upvals b) = unat (fn_numupvalues func)) \<and>
     length (bb_fb_slots b) < 2 ^ 32 \<and>
     (LuauEmitCallFeedback fl \<longrightarrow> LuauCallFeedback (ve_flags env)) \<and>
     (LuauUdataDirectAccess6 (ve_flags env) \<longrightarrow>
        direct_ok (length (bb_constants b)) (\<lambda>i. \<exists>s. bb_constants b ! i = ConstString s) (bb_insns b))"

text \<open>What it is loaded as.\<close>

definition loaded_as :: "vm_env \<Rightarrow> fflags \<Rightarrow> bytes list \<Rightarrow> u8 list \<Rightarrow> proto list \<Rightarrow> u8 \<Rightarrow> bytecode_builder \<Rightarrow> bfunction
    \<Rightarrow> proto \<Rightarrow> bool" where
  "loaded_as env fl xs rm protos flags b func p \<longleftrightarrow>
     p_bytecodeid p = length protos \<and> p_maxstacksize p = fn_maxstacksize func \<and>
     p_numparams p = fn_numparams func \<and> p_nups p = fn_numupvalues func \<and>
     p_is_vararg p = (if fn_isvararg func then 1 else 0) \<and> p_flags p = flags \<and>
     p_typeinfo p = (if fn_typeinfo func = [] \<and> bb_typed_upvals b = [] \<and> bb_typed_locals b = [] then []
       else remapped_types rm (fn_typeinfo func) (bb_typed_upvals b) (bb_typed_locals b)) \<and>
     p_code p = (if LuauUdataDirectAccess6 (ve_flags env)
       then direct_done (ve_atom env) (p_k p) (bb_insns b) (length (bb_insns b)) else bb_insns b) \<and>
     constants_loaded env fl b xs protos (p_k p) \<and>
     p_p p = map unat (bb_protos b) \<and> p_linedefined p = word_of_int (fn_debuglinedefined func) \<and>
     p_debugname p = string_at xs (fn_debugname func) \<and>
     (if 0 \<in> set (bb_lines b) then p_lineinfo p = None
      else p_lineinfo p \<noteq> None \<and> (\<forall>pc < length (bb_insns b).
        luaG_getline (length (bb_insns b)) (p_lineinfo p) pc = Some (bb_lines b ! pc))) \<and>
     p_locvars p = map (local_var xs) (bb_debug_locals b) \<and> p_upvalues p = map (string_at xs) (bb_debug_upvals b) \<and>
     p_feedbackvec p = (if LuauEmitCallFeedback fl then bb_fb_slots b else [])"

lemma loaded_strings:
  assumes "constants_loaded env fl b xs protos k"
  shows "direct_ok (length (bb_constants b)) (\<lambda>i. \<exists>s. bb_constants b ! i = ConstString s) code \<Longrightarrow>
    direct_ok (length k) (\<lambda>i. \<exists>s. k ! i = VString s) code"
  using assms unfolding direct_ok_def constants_loaded_def by fastforce

lemma load_function_bytes:
  assumes ok: "function_ok env fl xs (length protos) b func" and at: "bytes_at data off (function_bytes fl flags b func)"
  shows "\<exists>p. load_function env (get_version fl) 3 xs rm protos funid data off
      = Some (p, off + length (function_bytes fl flags b func)) \<and>
    p_funid p = funid \<and> loaded_as env fl xs rm protos flags b func p"
proof -
  let ?hd = "[fn_maxstacksize func, fn_numparams func, fn_numupvalues func, if fn_isvararg func then 1 else 0]"
  let ?ty = "types_bytes b func" and ?nc = "len_bytes (length (bb_insns b))" and ?c = "concat (map int_bytes (bb_insns b))"
    and ?nk = "len_bytes (length (bb_constants b))" and ?k = "concat (map (constant_bytes fl b) (bb_constants b))"
    and ?np = "len_bytes (length (bb_protos b))" and ?p = "concat (map u32_var (bb_protos b))"
    and ?ld = "var_int (word_of_int (fn_debuglinedefined func))" and ?dn = "u32_var (fn_debugname func)"
    and ?li = "lines_bytes (bb_lines b)" and ?db = "debug_bytes (bb_debug_locals b) (bb_debug_upvals b)"
    and ?fb = "feedback_bytes fl (bb_fb_slots b)"
  define o1 where "o1 = off + length ?hd"
  define o2 where "o2 = o1 + length ([flags] @ ?ty)"
  define o3 where "o3 = o2 + length ?nc"
  define o4 where "o4 = o3 + length ?c"
  define o5 where "o5 = o4 + length ?nk"
  define o6 where "o6 = o5 + length ?k"
  define o7 where "o7 = o6 + length ?np"
  define o8 where "o8 = o7 + length ?p"
  define o9 where "o9 = o8 + length ?ld"
  define o10 where "o10 = o9 + length ?dn"
  define o11 where "o11 = o10 + length ?li"
  define o12 where "o12 = o11 + length ?db"
  note os = o1_def o2_def o3_def o4_def o5_def o6_def o7_def o8_def o9_def o10_def o11_def o12_def
  have "bytes_at data off (?hd @ ([flags] @ ?ty) @ ?nc @ ?c @ ?nk @ ?k @ ?np @ ?p @ ?ld @ ?dn @ ?li @ ?db @ ?fb)"
    using at by (simp add: function_bytes_def)
  then have at: "bytes_at data off ?hd" "bytes_at data o1 ([flags] @ ?ty)" "bytes_at data o2 ?nc" "bytes_at data o3 ?c"
    "bytes_at data o4 ?nk" "bytes_at data o5 ?k" "bytes_at data o6 ?np" "bytes_at data o7 ?p" "bytes_at data o8 ?ld"
    "bytes_at data o9 ?dn" "bytes_at data o10 ?li" "bytes_at data o11 ?db" "bytes_at data o12 ?fb"
    unfolding bytes_at_append [of data _ ?hd] bytes_at_append [of data _ "[flags] @ ?ty"] bytes_at_append [of data _ ?nc]
      bytes_at_append [of data _ ?c] bytes_at_append [of data _ ?nk] bytes_at_append [of data _ ?k]
      bytes_at_append [of data _ ?np] bytes_at_append [of data _ ?p] bytes_at_append [of data _ ?ld]
      bytes_at_append [of data _ ?dn] bytes_at_append [of data _ ?li] bytes_at_append [of data _ ?db] os
    by (simp_all only: simp_thms)
  have o: "constants_ok fl b xs (length protos)" "function_written b" "length (bb_constants b) < 2 ^ 31" "length (bb_insns b) < 2 ^ 31"
    "length (bb_protos b) < 2 ^ 31" "0 \<le> fn_debuglinedefined func" "fn_debuglinedefined func < 2 ^ 31"
    "ref_ok xs (fn_debugname func)" "length (bb_lines b) = length (bb_insns b)" "length (bb_fb_slots b) < 2 ^ 32"
    using ok by (simp_all add: function_ok_def constants_ok_def)
  obtain k where k: "load_constants env xs protos 0 (length (bb_constants b)) (replicate (length (bb_constants b)) VNil) data o5
      = Some (k, o6)" "constants_loaded env fl b xs protos k"
    using load_constants_bytes [OF o(1), of "[]" "bb_constants b" "replicate (length (bb_constants b)) VNil" env data o5] at(6)
    by (auto simp: o6_def)
  obtain li where li: "load_lines (length (bb_insns b)) data o10 = Some (li, o11)"
    "if 0 \<in> set (bb_lines b) then li = None else li \<noteq> None \<and> (\<forall>pc < length (bb_insns b).
        luaG_getline (length (bb_insns b)) li pc = Some (bb_lines b ! pc))"
    using load_lines_bytes [OF at(11), unfolded o(9), folded o11_def] o(2) unfolding function_written_def by blast
  let ?code = "if LuauUdataDirectAccess6 (ve_flags env) then direct_done (ve_atom env) k (bb_insns b) (length (bb_insns b))
    else bb_insns b"
  have lk: "length k = length (bb_constants b)" using k(2) by (simp add: constants_loaded_def)
  have code: "(if LuauUdataDirectAccess6 (ve_flags env) then direct_access (ve_atom env) k (bb_insns b) 0
      else Some (bb_insns b)) = Some ?code"
    using direct_access_correct [of k "bb_insns b" "ve_atom env"] loaded_strings [OF k(2)] ok o(3) lk
    by (simp add: function_ok_def)
  have hd: "read_u8 data off = Some (fn_maxstacksize func, off + 1)" "read_u8 data (off + 1) = Some (fn_numparams func, off + 2)"
    "read_u8 data (off + 2) = Some (fn_numupvalues func, off + 3)"
    "read_u8 data (off + 3) = Some (if fn_isvararg func then 1 else 0, o1)"
    using at(1) by (simp_all add: bytes_at_Cons read_u8_at o1_def eval_nat_numeral)
  have "load_flags (get_version fl) 3 (fn_numparams func) rm data o1 = Some (flags,
      if fn_typeinfo func = [] \<and> bb_typed_upvals b = [] \<and> bb_typed_locals b = [] then []
      else remapped_types rm (fn_typeinfo func) (bb_typed_upvals b) (bb_typed_locals b), o2)"
    using load_flags_bytes [OF at(2)] ok by (simp add: function_ok_def o2_def)
  moreover have "read_size data o2 = Some (length (bb_insns b), o3)" "read_size data o4 = Some (length (bb_constants b), o5)"
    "read_size data o6 = Some (length (bb_protos b), o7)"
    using read_size_bytes [OF o(4) at(3)] read_size_bytes [OF o(3) at(5)] read_size_bytes [OF o(5) at(7)] by (simp_all add: os)
  moreover have "read_list (length (bb_insns b)) read_u32 data o3 = Some (bb_insns b, o4)"
    using u32c.dec_list [OF _ at(4)] by (simp add: list_all_iff o4_def)
  moreover have "load_children protos (length (bb_protos b)) data o7 = Some (map unat (bb_protos b), o8)"
    using load_children_bytes [OF _ at(8)] ok by (simp add: function_ok_def o8_def)
  moreover have "vm_read_var_int data o8 = Some (word_of_int (fn_debuglinedefined func), o9)"
    using read_i32_bytes [OF o(6,7) at(9)] by (simp add: o9_def)
  moreover have "read_string xs data o9 = Some (string_at xs (fn_debugname func), o10)"
    using read_string_bytes [OF at(10) o(8)] by (simp add: o10_def)
  moreover have "load_debug xs (fn_numupvalues func) data o11
      = Some (map (local_var xs) (bb_debug_locals b), map (string_at xs) (bb_debug_upvals b), o12)"
    using load_debug_bytes [OF at(12)] ok by (simp add: function_ok_def o12_def)
  moreover have "load_feedback env (get_version fl) data o12
      = Some (if LuauEmitCallFeedback fl then bb_fb_slots b else [], o12 + length ?fb)"
    using load_feedback_bytes [OF at(13) o(10)] ok by (simp add: function_ok_def)
  moreover have "o12 + length ?fb = off + length (function_bytes fl flags b func)"
    by (simp add: os function_bytes_def)
  ultimately show ?thesis
    unfolding load_function_def hd bind.simps(2) prod.case k(1) code li(1)
    using k(2) li(2) by (simp add: loaded_as_def hd k(1) li(1) code)
qed

end
