(* ===== verification/Bytecode_Module.thy ===== *)
theory Bytecode_Module
  imports Bytecode_Roundtrip
begin

text \<open>
  Whole modules: \<open>end_function\<close> stores the bytes of the current function and resets the state for the
  next one; \<open>finalize\<close> assembles the functions, the string table and the mapping of user types; and
  \<open>loadsafe\<close> on the result loads every function back.
\<close>

section \<open>The mapping of user types\<close>

fun mapping_bytes :: "nat \<Rightarrow> userdata_type list \<Rightarrow> bytes" where
  "mapping_bytes i [] = []"
| "mapping_bytes i (ut # uts) =
     (if ut_used ut then word_of_nat (i + 1) # u32_var (ut_nameRef ut) else []) @ mapping_bytes (i + 1) uts"

lemma write_type_mapping_eq: "write_type_mapping i uts ss = ss @ mapping_bytes i uts"
  by (induction i uts ss rule: write_type_mapping.induct) (simp_all add: writes)

text \<open>What the loader maps the user types to: a used type among the first 32 to what the host says,
  every other to the common type of user data.\<close>

fun mapped_types :: "vm_env \<Rightarrow> nat \<Rightarrow> userdata_type list \<Rightarrow> u8 list \<Rightarrow> u8 list" where
  "mapped_types env i [] rm = rm"
| "mapped_types env i (ut # uts) rm = mapped_types env (i + 1) uts
     (case ve_gettypemapping env of
        Some cb \<Rightarrow> if ut_used ut then rm[i := cb (ut_name ut)] else rm
      | None \<Rightarrow> rm)"

definition type_map :: "vm_env \<Rightarrow> userdata_type list \<Rightarrow> u8 list" where
  "type_map env uts = map (\<lambda>i. case ve_gettypemapping env of
     Some cb \<Rightarrow> if i < length uts \<and> ut_used (uts ! i) then cb (ut_name (uts ! i)) else LBC_TYPE_USERDATA
   | None \<Rightarrow> LBC_TYPE_USERDATA) [0..<USERDATA_TYPE_LIMIT]"

lemma mapped_types_nth:
  "j < length rm \<Longrightarrow> mapped_types env i uts rm ! j =
    (case ve_gettypemapping env of
       Some cb \<Rightarrow> if i \<le> j \<and> j < i + length uts \<and> ut_used (uts ! (j - i)) then cb (ut_name (uts ! (j - i))) else rm ! j
     | None \<Rightarrow> rm ! j)"
proof (induction env i uts rm rule: mapped_types.induct)
  case (2 env i ut uts rm)
  have "(ut # uts) ! (j - i) = uts ! (j - (i + 1))" if "i < j" using that by (simp add: nth_Cons' Suc_diff_Suc)
  then show ?case
    using 2 by (cases "ve_gettypemapping env"; cases "i < j"; cases "i = j") (auto simp: nth_list_update)
qed (auto split: option.splits)

lemma length_mapped_types: "length (mapped_types env i uts rm) = length rm"
  by (induction env i uts rm rule: mapped_types.induct) (auto split: option.splits)

lemma mapped_types_all: "mapped_types env 0 uts (replicate USERDATA_TYPE_LIMIT LBC_TYPE_USERDATA) = type_map env uts"
  by (rule nth_equalityI) (auto simp: type_map_def mapped_types_nth length_mapped_types split: option.splits)

definition names_ok :: "bytes list \<Rightarrow> userdata_type list \<Rightarrow> bool" where
  "names_ok ys uts \<longleftrightarrow> (\<forall>ut \<in> set uts. ut_used ut \<longrightarrow> ut_nameRef ut \<noteq> 0 \<and> ref_ok ys (ut_nameRef ut) \<and>
     string_at ys (ut_nameRef ut) = Some (ut_name ut))"

lemma load_type_mapping_bytes:
  assumes "names_ok ys uts" and "i + length uts \<le> 255" and "length rm = USERDATA_TYPE_LIMIT"
    and "bytes_at data off (mapping_bytes i uts @ [0])"
  shows "load_type_mapping env ys rm data off
    = Some (mapped_types env i uts rm, off + length (mapping_bytes i uts) + 1)"
  using assms
proof (induction i uts arbitrary: rm off rule: mapping_bytes.induct)
  case (1 i)
  then have "read_u8 data off = Some (0, off + 1)" using read_u8_bytes [of data off 0] by simp
  then show ?case by (subst load_type_mapping.simps) simp
next
  case (2 i ut uts)
  have tail: "names_ok ys uts" "i + 1 + length uts \<le> 255" using 2(2,3) by (auto simp: names_ok_def)
  show ?case
  proof (cases "ut_used ut")
    case False
    then show ?thesis using 2(1) [OF tail 2(4)] 2(5) by (simp split: option.splits)
  next
    case True
    let ?i = "word_of_nat (i + 1) :: u8" and ?r = "u32_var (ut_nameRef ut)"
    let ?rm = "case ve_gettypemapping env of Some cb \<Rightarrow> rm[i := cb (ut_name ut)] | None \<Rightarrow> rm"
    have "bytes_at data off ([?i] @ ?r @ mapping_bytes (i + 1) uts @ [0])" using 2(5) True by simp
    then have at: "bytes_at data off [?i]" "bytes_at data (off + 1) ?r"
      "bytes_at data (off + 1 + length ?r) (mapping_bytes (i + 1) uts @ [0])"
      unfolding bytes_at_append [of data _ "[?i]"] bytes_at_append [of data _ ?r] by simp_all
    have name: "ref_ok ys (ut_nameRef ut)" "string_at ys (ut_nameRef ut) = Some (ut_name ut)"
      using 2(2) True by (auto simp: names_ok_def)
    have "unat (word_of_nat i :: u8) = i" "unat ?i = i + 1"
      using 2(3) by (simp_all add: unat_of_nat take_bit_nat_eq_self del: of_nat_Suc of_nat_add)
    then have i: "unat (?i - 1) = i" "?i \<noteq> 0" by auto
    have "load_mapping_entry env ys ?i rm data (off + 1) = Some (?rm, off + 1 + length ?r)"
      using read_string_bytes [OF at(2) name(1)] name(2) i(1) 2(4)
      by (auto simp: load_mapping_entry_def not_less list_update_beyond split: option.splits)
    moreover have "length ?rm = USERDATA_TYPE_LIMIT" using 2(4) by (simp split: option.splits)
    ultimately show ?thesis
      using read_u8_bytes [OF at(1)] i(2) 2(1) [OF tail, of ?rm "off + 1 + length ?r"] at(3) True
      by (subst load_type_mapping.simps) (simp add: add.assoc split: option.splits)
  qed
qed

section \<open>Ending a function\<close>

text \<open>The function that \<open>end_function\<close> writes: the current one, with its final sizes, over the encoded
  instructions.\<close>

definition ending :: "u8 \<Rightarrow> u8 \<Rightarrow> bytecode_builder \<Rightarrow> bytecode_builder" where
  "ending maxstacksize numupvalues b =
     (let cur = unat (bb_current_function b);
          f = (bb_functions b ! cur)\<lparr>fn_maxstacksize := maxstacksize, fn_numupvalues := numupvalues\<rparr>;
          b = b\<lparr>bb_functions := (bb_functions b)[cur := f]\<rparr>
      in case bb_encoder b of None \<Rightarrow> b | Some enc \<Rightarrow> b\<lparr>bb_insns := enc (bb_insns b)\<rparr>)"

text \<open>C25: \<open>end_function\<close> returns, stores the serialised function, leaves the other functions alone, keeps
  the string table and the class shapes, counts the instructions, and leaves every per-function table and list empty
  (instructions, lines, constants, child functions, jumps, feedback slots, table shapes, debug and type information of
  locals and upvalues) and the three maps without entries, so that the next function starts from a well-formed
  builder.\<close>

theorem end_function_correct:
  assumes "bb_inv b xs" and "bb_current_function b \<noteq> NOT 0"
    and "unat (bb_current_function b) < length (bb_functions b)" and "length (bb_functions b) < 2 ^ 32"
    and "function_written (ending ms nu b)"
  shows "\<exists>b' data. end_function fl ms nu flags b = Some b' \<and>
    write_function fl (bb_current_function b) flags (ending ms nu b) [] = Some data \<and>
    fn_data (bb_functions b' ! unat (bb_current_function b)) = data \<and>
    (\<forall>i < length (bb_functions b). i \<noteq> unat (bb_current_function b) \<longrightarrow> bb_functions b' ! i = bb_functions b ! i) \<and>
    length (bb_functions b') = length (bb_functions b) \<and> bb_current_function b' = NOT 0 \<and>
    bb_inv b' xs \<and> bb_insns b' = [] \<and> bb_lines b' = [] \<and> bb_constants b' = [] \<and> bb_protos b' = [] \<and>
    bb_jumps b' = [] \<and> bb_table_shapes b' = [] \<and> bb_fb_slots b' = [] \<and>
    bb_class_shapes b' = bb_class_shapes b \<and>
    bb_debug_locals b' = [] \<and> bb_debug_upvals b' = [] \<and> bb_typed_locals b' = [] \<and> bb_typed_upvals b' = [] \<and>
    bb_total_instruction_count b' = bb_total_instruction_count b + length (bb_insns (ending ms nu b)) \<and>
    dhm_map 0 (bb_constant_map b') = Map.empty \<and> dhm_map 0 (bb_table_shape_map b') = Map.empty \<and>
    dhm_map 0 (bb_proto_map b') = Map.empty"
proof -
  let ?cur = "bb_current_function b" and ?e = "ending ms nu b"
  have e: "bb_functions ?e = (bb_functions b)[unat ?cur := (bb_functions b ! unat ?cur)\<lparr>fn_maxstacksize := ms, fn_numupvalues := nu\<rparr>]"
    "bb_current_function ?e = ?cur"
    by (simp_all add: ending_def Let_def split: option.splits)
  have w: "write_function fl ?cur flags ?e [] = Some (function_bytes fl flags ?e (bb_functions ?e ! unat ?cur))"
    using write_function_eq [OF assms(5), of ?cur fl flags "[]"] assms(3,4) e(1) by simp
  have inv: "constants_inv b" "shapes_inv b" "protos_inv b" "strings_inv b xs"
    using assms(1) by (auto simp: bb_inv_def)
  note clear = dhm_clear_correct
  let ?d = "function_bytes fl flags ?e (bb_functions ?e ! unat ?cur)"
  let ?fs = "(bb_functions ?e)[unat ?cur := (bb_functions ?e ! unat ?cur)\<lparr>fn_data := ?d\<rparr>]"
  let ?b' = "?e\<lparr>bb_functions := ?fs, bb_current_function := NOT 0,
       bb_total_instruction_count := bb_total_instruction_count ?e + length (bb_insns ?e),
       bb_insns := [], bb_lines := [], bb_constants := [], bb_protos := [], bb_jumps := [],
       bb_fb_slots := [], bb_table_shapes := [], bb_debug_locals := [], bb_debug_upvals := [],
       bb_typed_locals := [], bb_typed_upvals := [],
       bb_constant_map := dh_clear (ItemInterfaceMap 0) (bb_constant_map b),
       bb_table_shape_map := dh_clear (ItemInterfaceMap 0) (bb_table_shape_map b),
       bb_proto_map := dh_clear (ItemInterfaceMap 0) (bb_proto_map b)\<rparr>"
  have "end_function fl ms nu flags b = Some ?b'"
  proof (cases "bb_encoder b")
    case None
    then show ?thesis
      using assms(2,3) w by (simp add: end_function_def update_current_def ending_def Let_def)
  next
    case (Some enc)
    then show ?thesis
      using assms(2,3) w by (simp add: end_function_def update_current_def ending_def Let_def)
  qed
  moreover have "bb_inv ?b' xs"
  proof -
    have "bb_string_table ?e = bb_string_table b" by (simp add: ending_def Let_def split: option.splits)
    then have "constants_inv ?b'" "shapes_inv ?b'" "protos_inv ?b'" "strings_inv ?b' xs" "refs_inv ?b' xs"
      using inv clear(1,2,3) [of 0 "bb_constant_map b"] clear(1,2,3) [of 0 "bb_table_shape_map b"]
        clear(1,2,3) [of 0 "bb_proto_map b"]
      by (simp_all add: inv_defs)
    then show ?thesis by (simp add: bb_inv_def)
  qed
  moreover have "bb_class_shapes ?e = bb_class_shapes b" "bb_total_instruction_count ?e = bb_total_instruction_count b"
    by (simp_all add: ending_def Let_def split: option.splits)
  moreover have "dhm_map 0 (bb_constant_map ?b') = Map.empty" "dhm_map 0 (bb_table_shape_map ?b') = Map.empty"
      "dhm_map 0 (bb_proto_map ?b') = Map.empty"
    using inv clear(2) [of 0 "bb_constant_map b"] clear(2) [of 0 "bb_table_shape_map b"] clear(2) [of 0 "bb_proto_map b"]
    by (simp_all add: inv_defs)
  ultimately show ?thesis
    using w e(1) assms(3) by (intro exI [of _ ?b'] exI [of _ ?d]) simp
qed

abbreviation no_flags :: fflags where
  "no_flags \<equiv> \<lparr>LuauEmitCallFeedback = False, DebugLuauUserDefinedClasses = False, LuauCompileUdataDirect = False,
     LuauIntegerType2 = False, LuauCompileDuptableConstantPack2 = False, LuauCallFeedback = False,
     LuauUdataDirectAccess6 = False\<rparr>"

text \<open>A function that only returns, on line 1.\<close>

abbreviation just_return :: "bytecode_builder \<Rightarrow> bytecode_builder" where
  "just_return b \<equiv> b\<lparr>bb_functions := [bfunction_default], bb_current_function := 0, bb_encoder := None,
     bb_insns := [insn_abc LOP_RETURN 0 1 0], bb_lines := [1]\<rparr>"

lemma just_return_builder:
  "\<exists>b. bb_inv b [] \<and> bb_constants b = [] \<and> bb_typed_locals b = [] \<and> bb_typed_upvals b = [] \<and> bb_protos b = [] \<and>
    bb_debug_locals b = [] \<and> bb_debug_upvals b = [] \<and> bb_fb_slots b = [] \<and> bb_userdata_types b = [] \<and> bb_bytecode b = []"
proof -
  let ?hs = "\<lparr>h_constant = \<lambda>_. 0, h_table_shape = \<lambda>_. 0, h_proto = \<lambda>_. 0, h_string = \<lambda>_. 0\<rparr>"
  obtain b where b: "bb_inv b []" "bb_constants b = []"
    using bb_new_inv [of ?hs None] by (auto simp: bb_inv_def refs_inv_def)
  let ?b = "b\<lparr>bb_typed_locals := [], bb_typed_upvals := [], bb_debug_locals := [], bb_debug_upvals := [],
    bb_fb_slots := [], bb_userdata_types := [], bb_bytecode := [],
    bb_protos := [], bb_proto_map := dh_clear (ItemInterfaceMap 0) (bb_proto_map b)\<rparr>"
  have "bb_inv ?b []"
    using b(1) dhm_clear_correct(1,2,3) [of 0 "bb_proto_map b"] by (simp add: bb_inv_def inv_defs)
  then show ?thesis using b(2) by (intro exI [of _ ?b]) simp
qed

theorem end_function_correct_witness:
  "\<exists>b b'. bb_insns b = [insn_abc LOP_RETURN 0 1 0] \<and> end_function no_flags 2 0 0 b = Some b' \<and> bb_insns b' = [] \<and>
     bb_inv b' [] \<and> write_function no_flags 0 0 (ending 2 0 b) [] = Some (fn_data (bb_functions b' ! 0))"
proof -
  obtain b0 where b0: "bb_inv b0 []" "bb_constants b0 = []" "bb_typed_locals b0 = []"
    using just_return_builder by blast
  have "bb_inv (just_return b0) []" using b0(1) by (simp add: bb_inv_def inv_defs)
  moreover have "function_written (ending 2 0 (just_return b0))"
    using b0(2,3) by (simp add: ending_def function_written_def good_lines_def)
  ultimately obtain b' data where "end_function no_flags 2 0 0 (just_return b0) = Some b'"
    "write_function no_flags 0 0 (ending 2 0 (just_return b0)) [] = Some data"
    "fn_data (bb_functions b' ! 0) = data" "bb_inv b' []" "bb_insns b' = []"
    using end_function_correct [of "just_return b0" "[]" 2 0 no_flags 0] by auto
  then show ?thesis by (intro exI [of _ "just_return b0"] exI [of _ b']) simp
qed

section \<open>Naming the user types\<close>

lemma string_at_append: "ref_ok xs i \<Longrightarrow> string_at (xs @ ys) i = string_at xs i \<and> ref_ok (xs @ ys) i"
proof -
  assume r: "ref_ok xs i"
  have "0 < unat i" if "i \<noteq> 0" using that by (simp add: unat_gt_0)
  then have "i \<noteq> 0 \<Longrightarrow> unat i - 1 < length xs" using r by (auto simp: ref_ok_def)
  then show ?thesis using r by (auto simp: string_at_def ref_ok_def nth_append)
qed

definition named :: "bytes list \<Rightarrow> userdata_type \<Rightarrow> bool" where
  "named ys ut \<longleftrightarrow> (ut_used ut \<longrightarrow> ut_nameRef ut \<noteq> 0 \<and> ref_ok ys (ut_nameRef ut) \<and>
     string_at ys (ut_nameRef ut) = Some (ut_name ut))"

lemma named_append: "named xs ut \<Longrightarrow> named (xs @ ys) ut"
  using string_at_append by (auto simp: named_def)

lemma string_index_at:
  assumes "j < length ys" and "length ys < 2 ^ 32"
  shows "string_index j \<noteq> (0 :: u32)" "ref_ok ys (string_index j)" "string_at ys (string_index j) = Some (ys ! j)"
proof -
  have u: "unat (string_index j) = j + 1"
    using assms by (simp add: unat_of_nat take_bit_nat_eq_self del: of_nat_Suc of_nat_add)
  then show nz: "string_index j \<noteq> 0" by (metis add_is_0 one_neq_zero unat_0)
  show "ref_ok ys (string_index j)" "string_at ys (string_index j) = Some (ys ! j)"
    using u nz assms(1) by (simp_all add: ref_ok_def string_at_def del: of_nat_Suc of_nat_add)
qed

lemma name_used_types_correct:
  "strings_inv b xs \<Longrightarrow> length xs + n < 2 ^ 32 \<Longrightarrow> i + n = length (bb_userdata_types b) \<Longrightarrow>
    \<forall>j < i. named xs (bb_userdata_types b ! j) \<Longrightarrow>
    \<exists>b' zs uts m ds. name_used_types i n b = Some b' \<and> strings_inv b' (xs @ zs) \<and>
      b' = b\<lparr>bb_string_table := m, bb_debug_strings := ds, bb_userdata_types := uts\<rparr> \<and>
      set zs \<subseteq> ut_name ` set (bb_userdata_types b) \<and> length zs \<le> n \<and>
      map ut_name uts = map ut_name (bb_userdata_types b) \<and> map ut_used uts = map ut_used (bb_userdata_types b) \<and>
      (\<forall>ut \<in> set uts. named (xs @ zs) ut)"
proof (induction i n b arbitrary: xs rule: name_used_types.induct)
  case (1 i b)
  then have "\<forall>ut \<in> set (bb_userdata_types b). named xs ut" by (auto simp: in_set_conv_nth)
  moreover have "b = b\<lparr>bb_string_table := bb_string_table b, bb_debug_strings := bb_debug_strings b,
      bb_userdata_types := bb_userdata_types b\<rparr>" by simp
  moreover have "name_used_types i 0 b = Some b" "strings_inv b (xs @ [])" using 1(1) by simp_all
  ultimately show ?case
    by (metis append_Nil2 empty_subsetI empty_set le_zero_eq length_0_conv)
next
  case (2 i n b)
  let ?uts = "bb_userdata_types b" and ?ut = "bb_userdata_types b ! i"
  have i: "i < length ?uts" using 2(4) by simp
  show ?case
  proof (cases "ut_used ?ut")
    case False
    then have "\<forall>j < i + 1. named xs (?uts ! j)" using 2(5) by (auto simp: less_Suc_eq named_def)
    moreover have "length xs + n < 2 ^ 32" "i + 1 + n = length ?uts" using 2(3,4) by simp_all
    moreover have "name_used_types i (Suc n) b = name_used_types (i + 1) n b" using False i by simp
    ultimately obtain b' zs uts m ds where r: "name_used_types i (Suc n) b = Some b'" "strings_inv b' (xs @ zs)"
      "b' = b\<lparr>bb_string_table := m, bb_debug_strings := ds, bb_userdata_types := uts\<rparr>"
      "set zs \<subseteq> ut_name ` set ?uts" "length zs \<le> n" "map ut_name uts = map ut_name ?uts"
      "map ut_used uts = map ut_used ?uts" "\<forall>ut \<in> set uts. named (xs @ zs) ut"
      using 2(1) [of ?ut b xs] 2(2) False i by auto
    then show ?thesis
      by (intro exI [of _ b'] exI [of _ zs] exI [of _ uts] exI [of _ m] exI [of _ ds]) simp
  next
    case True
    have room: "length xs + 1 < 2 ^ 32" using 2(3) by simp
    obtain j ys b1 where a: "add_string_table_entry (Some (ut_name ?ut)) b = Some (string_index j, b1)" "strings_inv b1 ys"
      "j < length ys" "ys ! j = ut_name ?ut" "if ut_name ?ut \<in> set xs then ys = xs \<and> b1 = b else ys = xs @ [ut_name ?ut]"
      "\<exists>m ds. b1 = b\<lparr>bb_string_table := m, bb_debug_strings := ds\<rparr>"
      using add_string_table_entry_correct [OF 2(2) room, of "ut_name ?ut"] by blast
    then obtain m1 ds1 where b1: "b1 = b\<lparr>bb_string_table := m1, bb_debug_strings := ds1\<rparr>" by blast
    obtain zs1 where zs1: "ys = xs @ zs1" "length zs1 \<le> 1" "set zs1 \<subseteq> {ut_name ?ut}"
      using a(5) by (cases "ut_name ?ut \<in> set xs") auto
    have ly: "length ys < 2 ^ 32" using zs1(1,2) room by simp
    let ?b = "b1\<lparr>bb_userdata_types := ?uts[i := ?ut\<lparr>ut_nameRef := string_index j\<rparr>]\<rparr>"
    have step: "name_used_types i (Suc n) b = name_used_types (i + 1) n ?b"
      using True i a(1) by (simp add: b1)
    have s: "strings_inv ?b ys" using a(2) by (simp add: strings_inv_def)
    have nm: "\<forall>k < i + 1. named ys (bb_userdata_types ?b ! k)"
    proof (intro allI impI)
      fix k assume "k < i + 1"
      then show "named ys (bb_userdata_types ?b ! k)"
        using 2(5) named_append [of xs "?uts ! k" zs1] zs1(1) string_index_at [OF a(3) ly] a(4) i
        by (cases "k = i") (simp_all add: named_def del: of_nat_Suc of_nat_add)
    qed
    have bnd: "length ys + n < 2 ^ 32" "i + 1 + n = length (bb_userdata_types ?b)" using 2(3,4) zs1(1,2) by simp_all
    have bb: "bb_userdata_types b1 = ?uts" by (simp add: b1)
    have c1: "index_checked ?uts i = Some ?ut" using i by simp
    have c2: "(if ut_used ?ut then add_string_table_entry (Some (ut_name ?ut)) b \<bind>
        (\<lambda>(ref, b). Some (b\<lparr>bb_userdata_types := (bb_userdata_types b)[i := ?ut\<lparr>ut_nameRef := ref\<rparr>]\<rparr>)) else Some b) = Some ?b"
      using True a(1) by (simp add: bb)
    obtain b' zs uts m ds where r: "name_used_types (i + 1) n ?b = Some b'" "strings_inv b' (ys @ zs)"
      "b' = ?b\<lparr>bb_string_table := m, bb_debug_strings := ds, bb_userdata_types := uts\<rparr>"
      "set zs \<subseteq> ut_name ` set (bb_userdata_types ?b)" "length zs \<le> n" "map ut_name uts = map ut_name (bb_userdata_types ?b)"
      "map ut_used uts = map ut_used (bb_userdata_types ?b)" "\<forall>ut \<in> set uts. named (ys @ zs) ut"
      using 2(1) [OF c1 c2 s bnd nm] by blast
    have names: "map ut_name (bb_userdata_types ?b) = map ut_name ?uts" "map ut_used (bb_userdata_types ?b) = map ut_used ?uts"
      using i by (simp_all add: map_update list_update_same_conv)
    then have "ut_name ` set (bb_userdata_types ?b) = ut_name ` set ?uts" by (metis list.set_map)
    then show ?thesis
      using r step zs1 i names
      by (intro exI [of _ b'] exI [of _ "zs1 @ zs"] exI [of _ uts] exI [of _ m] exI [of _ ds]) (auto simp: b1)
  qed
qed

section \<open>Loading a module\<close>

lemma const_ok_append: "const_ok fl b xs n cs j c \<Longrightarrow> const_ok fl b (xs @ zs) n cs j c"
  by (cases c) (auto simp: ref_ok_def Let_def)

lemma function_ok_append: "function_ok env fl xs n b func \<Longrightarrow> function_ok env fl (xs @ zs) n b func"
  using const_ok_append by (fastforce simp: function_ok_def constants_ok_def ref_ok_def list_all_iff)

text \<open>Each function of a module was written from a state of the builder, when it ended: \<open>snaps\<close> are those
  states, with the flags the function got.\<close>

definition snaps_ok :: "vm_env \<Rightarrow> fflags \<Rightarrow> bytes list \<Rightarrow> (u8 \<times> bytecode_builder) list \<Rightarrow> bfunction list \<Rightarrow> bool" where
  "snaps_ok env fl xs snaps fs \<longleftrightarrow> length snaps = length fs \<and> (\<forall>i < length fs. let (flags, b) = snaps ! i in
     i < length (bb_functions b) \<and> length (bb_functions b) < 2 ^ 32 \<and>
     function_ok env fl xs i b (bb_functions b ! i) \<and>
     write_function fl (word_of_nat i) flags b [] = Some (fn_data (fs ! i)))"

definition module_loaded :: "vm_env \<Rightarrow> fflags \<Rightarrow> bytes list \<Rightarrow> u8 list \<Rightarrow> (u8 \<times> bytecode_builder) list \<Rightarrow> proto list \<Rightarrow> bool" where
  "module_loaded env fl xs rm snaps protos \<longleftrightarrow> length protos = length snaps \<and>
     (\<forall>i < length snaps. let (flags, b) = snaps ! i in
       loaded_as env fl xs rm (take i protos) flags b (bb_functions b ! i) (protos ! i))"

lemma snap_bytes:
  assumes "snaps_ok env fl xs snaps fs" and "i < length fs" and "snaps ! i = (flags, b)"
  shows "fn_data (fs ! i) = function_bytes fl flags b (bb_functions b ! i)"
    and "function_ok env fl xs i b (bb_functions b ! i)"
proof -
  have o: "i < length (bb_functions b)" "length (bb_functions b) < 2 ^ 32" "function_ok env fl xs i b (bb_functions b ! i)"
    "write_function fl (word_of_nat i) flags b [] = Some (fn_data (fs ! i))"
    using assms by (auto simp: snaps_ok_def)
  have "unat (word_of_nat i :: u32) = i" using o(1,2) by (intro unat_of_len) simp
  then show "fn_data (fs ! i) = function_bytes fl flags b (bb_functions b ! i)"
    using write_function_eq [of b "word_of_nat i" fl flags "[]"] o by (simp add: function_ok_def)
  show "function_ok env fl xs i b (bb_functions b ! i)" by (rule o(3))
qed

lemma load_functions_bytes:
  assumes "snaps_ok env fl xs snaps fs"
  shows "length protos + n = length fs \<Longrightarrow> module_loaded env fl xs rm (take (length protos) snaps) protos \<Longrightarrow>
    bytes_at data off (concat (map fn_data (drop (length protos) fs))) \<Longrightarrow>
    \<exists>protos' lastid1. load_functions env (get_version fl) 3 xs rm n protos lastid data off
        = Some (protos', lastid1, off + length (concat (map fn_data (drop (length protos) fs)))) \<and>
      module_loaded env fl xs rm snaps protos'"
proof (induction n arbitrary: protos lastid off)
  case 0
  have "length snaps = length fs" using assms by (simp add: snaps_ok_def)
  then show ?case using 0 by simp
next
  case (Suc n)
  let ?i = "length protos"
  have i: "?i < length fs" "?i < length snaps" using Suc.prems(1) assms by (auto simp: snaps_ok_def)
  obtain flags b where sn: "snaps ! ?i = (flags, b)" by (cases "snaps ! ?i")
  note o = snap_bytes [OF assms i(1) sn]
  let ?f = "function_bytes fl flags b (bb_functions b ! ?i)" and ?r = "concat (map fn_data (drop (?i + 1) fs))"
  have d: "concat (map fn_data (drop ?i fs)) = ?f @ ?r" using i(1) o(1) by (simp add: Cons_nth_drop_Suc [symmetric])
  then have at: "bytes_at data off ?f" "bytes_at data (off + length ?f) ?r"
    using Suc.prems(3) unfolding d bytes_at_append by blast+
  obtain funid lastid0 where nf: "next_funid lastid = (funid, lastid0)" by (cases "next_funid lastid")
  obtain p where p: "load_function env (get_version fl) 3 xs rm protos funid data off = Some (p, off + length ?f)"
    "loaded_as env fl xs rm protos flags b (bb_functions b ! ?i) p"
    using load_function_bytes [OF o(2) at(1), of rm funid] by blast
  have "module_loaded env fl xs rm (take (length (protos @ [p])) snaps) (protos @ [p])"
    using Suc.prems(2) p(2) sn i(2) by (auto simp: module_loaded_def nth_append less_Suc_eq)
  then obtain protos' lastid1 where "load_functions env (get_version fl) 3 xs rm n (protos @ [p]) lastid0 data (off + length ?f)
        = Some (protos', lastid1, off + length ?f + length ?r)" "module_loaded env fl xs rm snaps protos'"
    using Suc.IH [of "protos @ [p]" "off + length ?f" lastid0] Suc.prems(1) at(2) by auto
  then show ?case using p(1) nf d by (simp add: add.assoc)
qed

definition strings_bytes :: "bytes list \<Rightarrow> bytes" where
  "strings_bytes xs = len_bytes (length xs) @ concat (map string_bytes xs)"

lemma finalize_eq:
  assumes "bb_bytecode b = []" and inv: "strings_inv b xs" and room: "length xs + length (bb_userdata_types b) < 2 ^ 32"
    and "unat (bb_main_function b) < length (bb_functions b)"
  shows "\<exists>b' zs uts. finalize fl b = Some b' \<and> set zs \<subseteq> ut_name ` set (bb_userdata_types b) \<and>
    length (xs @ zs) < 2 ^ 32 \<and> names_ok (xs @ zs) uts \<and>
    map ut_name uts = map ut_name (bb_userdata_types b) \<and> map ut_used uts = map ut_used (bb_userdata_types b) \<and>
    bb_bytecode b' = [get_version fl, 3] @ strings_bytes (xs @ zs) @ (mapping_bytes 0 uts @ [0]) @
      len_bytes (length (bb_functions b)) @ concat (map fn_data (bb_functions b)) @ u32_var (bb_main_function b)"
proof -
  let ?n = "length (bb_userdata_types b)"
  obtain b' zs uts m ds where r: "name_used_types 0 ?n b = Some b'" "strings_inv b' (xs @ zs)"
      "b' = b\<lparr>bb_string_table := m, bb_debug_strings := ds, bb_userdata_types := uts\<rparr>"
      "set zs \<subseteq> ut_name ` set (bb_userdata_types b)" "length zs \<le> ?n"
      "map ut_name uts = map ut_name (bb_userdata_types b)" "map ut_used uts = map ut_used (bb_userdata_types b)"
      "\<forall>ut \<in> set uts. named (xs @ zs) ut"
    using name_used_types_correct [OF inv room, of 0] by auto
  have v: "LBC_VERSION_MIN \<le> get_version fl" "get_version fl \<le> LBC_VERSION_MAX"
    by (simp_all add: get_version_def word_le_nat_alt)
  let ?bc = "[get_version fl, 3] @ strings_bytes (xs @ zs) @ (mapping_bytes 0 uts @ [0]) @
      len_bytes (length (bb_functions b)) @ concat (map fn_data (bb_functions b)) @ u32_var (bb_main_function b)"
  have "foldl (\<lambda>ss func. ss @ fn_data func) ss fs = ss @ concat (map fn_data fs)" for ss and fs :: "bfunction list"
    by (rule foldl_writes) simp
  then have "finalize fl b = Some (b'\<lparr>bb_bytecode := ?bc\<rparr>)"
    using r(1) v assms(1,4) write_string_table_eq [OF r(2)]
    by (simp add: finalize_def get_type_encoding_version_def Let_def write_type_mapping_eq writes strings_bytes_def r(3))
  moreover have "names_ok (xs @ zs) uts" using r(8) by (simp add: names_ok_def named_def)
  ultimately show ?thesis
    using r room by (intro exI [of _ "b'\<lparr>bb_bytecode := ?bc\<rparr>"] exI [of _ zs] exI [of _ uts]) simp
qed

lemma type_map_cong:
  assumes "map ut_name uts = map ut_name uts'" and "map ut_used uts = map ut_used uts'"
  shows "type_map env uts = type_map env uts'"
proof -
  have "length uts = length uts'" using assms(1) by (metis length_map)
  moreover have "ut_name (uts ! i) = ut_name (uts' ! i)" "ut_used (uts ! i) = ut_used (uts' ! i)"
    if "i < length uts'" for i
    using assms that calculation by (metis nth_map)+
  ultimately show ?thesis by (auto simp: type_map_def split: option.splits)
qed

lemma load_body_bytes:
  assumes ok: "snaps_ok env fl ys snaps fs" and strings: "\<forall>s \<in> set ys. length s < 2 ^ 32" "length ys < 2 ^ 32"
    and names: "names_ok ys uts" and n: "length uts \<le> 255" and fs: "unat main < length fs" "length fs < 2 ^ 32"
    and at: "bytes_at data off (strings_bytes ys @ (mapping_bytes 0 uts @ [0]) @ len_bytes (length fs) @
      concat (map fn_data fs) @ u32_var main)"
  shows "\<exists>protos lastid1. load_body env (get_version fl) 3 lastid data off = Some (Loaded protos (unat main), lastid1) \<and>
    module_loaded env fl ys (type_map env uts) snaps protos"
proof -
  let ?n = "len_bytes (length ys)" and ?s = "concat (map string_bytes ys)" and ?m = "mapping_bytes 0 uts @ [0]"
    and ?k = "len_bytes (length fs)" and ?f = "concat (map fn_data fs)" and ?rm = "type_map env uts"
  define o1 where "o1 = off + length ?n"
  define o2 where "o2 = o1 + length ?s"
  define o3 where "o3 = o2 + length ?m"
  define o4 where "o4 = o3 + length ?k"
  define o5 where "o5 = o4 + length ?f"
  note os = o1_def o2_def o3_def o4_def o5_def
  have "bytes_at data off (?n @ ?s @ ?m @ ?k @ ?f @ u32_var main)" using at by (simp add: strings_bytes_def)
  then have at: "bytes_at data off ?n" "bytes_at data o1 ?s" "bytes_at data o2 ?m" "bytes_at data o3 ?k"
    "bytes_at data o4 ?f" "bytes_at data o5 (u32_var main)"
    unfolding bytes_at_append [of data _ ?n] bytes_at_append [of data _ ?s] bytes_at_append [of data _ ?m]
      bytes_at_append [of data _ ?k] bytes_at_append [of data _ ?f] os
    by (simp_all only: simp_thms)
  have rd: "vm_read_var_int data off = Some (word_of_nat (length ys), o1)"
    "load_strings (length ys) data o1 = Some (ys, o2)"
    "vm_read_var_int data o3 = Some (word_of_nat (length fs), o4)"
    "vm_read_var_int data o5 = Some (main, o5 + length (u32_var main))"
    using read_len_bytes [OF strings(2) at(1)] load_strings_bytes [OF strings(1) at(2)]
      read_len_bytes [OF fs(2) at(4)] read_var_bytes [OF at(6)] by (simp_all add: os)
  have mp: "load_type_mapping env ys (replicate USERDATA_TYPE_LIMIT LBC_TYPE_USERDATA) data o2 = Some (?rm, o3)"
    using load_type_mapping_bytes [OF names _ _ at(3), of "replicate USERDATA_TYPE_LIMIT LBC_TYPE_USERDATA" env] n
      mapped_types_all [of env uts] by (simp add: o3_def)
  obtain protos lastid1 where fn: "load_functions env (get_version fl) 3 ys ?rm (length fs) [] lastid data o4
        = Some (protos, lastid1, o5)" "module_loaded env fl ys ?rm snaps protos"
    using load_functions_bytes [OF ok, of "[]" "length fs" ?rm data o4 lastid] at(5)
    by (auto simp: module_loaded_def [of _ _ _ _ "[]"] o5_def)
  have "unat main < length protos" using fn(2) ok fs(1) by (simp add: module_loaded_def snaps_ok_def)
  then show ?thesis
    using fn rd mp unat_of_len [OF strings(2)] unat_of_len [OF fs(2)] by (simp add: load_body_def Let_def)
qed

text \<open>C1: what the builder writes, the virtual machine loads: when the functions were written from the
  states \<open>snaps\<close> of the builder, \<open>finalize\<close> returns and \<open>loadsafe\<close> on its bytes returns one proto per
  function, each with the code, constants, children, lines, debug information, types and feedback of
  the state it was written from, and the id of the main function.\<close>

theorem finalize_loadsafe:
  assumes "bb_bytecode b = []" and "strings_inv b xs" and "length xs + length (bb_userdata_types b) < 2 ^ 32"
    and "\<forall>s \<in> set xs \<union> ut_name ` set (bb_userdata_types b). length s < 2 ^ 32" and "length (bb_userdata_types b) \<le> 255"
    and "unat (bb_main_function b) < length (bb_functions b)" and "length (bb_functions b) < 2 ^ 32"
    and "snaps_ok env fl xs snaps (bb_functions b)"
  shows "\<exists>b' zs protos lastid1. finalize fl b = Some b' \<and> set zs \<subseteq> ut_name ` set (bb_userdata_types b) \<and>
    loadsafe env lastid (bb_bytecode b') = Some (Loaded protos (unat (bb_main_function b)), lastid1) \<and>
    module_loaded env fl (xs @ zs) (type_map env (bb_userdata_types b)) snaps protos"
proof -
  obtain b' zs uts where f: "finalize fl b = Some b'" "set zs \<subseteq> ut_name ` set (bb_userdata_types b)"
    "length (xs @ zs) < 2 ^ 32" "names_ok (xs @ zs) uts" "map ut_name uts = map ut_name (bb_userdata_types b)"
    "map ut_used uts = map ut_used (bb_userdata_types b)"
    "bb_bytecode b' = [get_version fl, 3] @ strings_bytes (xs @ zs) @ (mapping_bytes 0 uts @ [0]) @
      len_bytes (length (bb_functions b)) @ concat (map fn_data (bb_functions b)) @ u32_var (bb_main_function b)"
    using finalize_eq [OF assms(1-3,6)] by blast
  let ?rest = "strings_bytes (xs @ zs) @ (mapping_bytes 0 uts @ [0]) @ len_bytes (length (bb_functions b)) @
    concat (map fn_data (bb_functions b)) @ u32_var (bb_main_function b)" and ?data = "bb_bytecode b'"
  have at: "bytes_at ?data 0 ([get_version fl] @ [3] @ ?rest)"
    using bytes_at_self [of "[]" ?data "[]"] by (simp add: f(7))
  then have at: "bytes_at ?data 0 [get_version fl]" "bytes_at ?data 1 [3]" "bytes_at ?data 2 ?rest"
    unfolding bytes_at_append [of _ _ "[get_version fl]"] bytes_at_append [of _ _ "[3]"] by (simp_all add: numeral_2_eq_2)
  have ok: "snaps_ok env fl (xs @ zs) snaps (bb_functions b)"
    using assms(8) function_ok_append by (fastforce simp: snaps_ok_def)
  have "length uts = length (bb_userdata_types b)" using f(5) by (metis length_map)
  moreover have "\<forall>s \<in> set (xs @ zs). length s < 2 ^ 32" using assms(4) f(2) by auto
  ultimately obtain protos lastid1 where l:
    "load_body env (get_version fl) 3 lastid ?data 2 = Some (Loaded protos (unat (bb_main_function b)), lastid1)"
    "module_loaded env fl (xs @ zs) (type_map env uts) snaps protos"
    using load_body_bytes [OF ok _ f(3,4) _ assms(6,7) at(3), of lastid] assms(5) by auto
  have v: "get_version fl \<noteq> 0" "\<not> get_version fl < 3" "\<not> 11 < get_version fl" "4 \<le> get_version fl"
    by (simp_all add: get_version_def word_le_nat_alt)
  have r: "read_u8 ?data 0 = Some (get_version fl, 1)" "read_u8 ?data 1 = Some (3, 2)"
    using read_u8_bytes [OF at(1)] read_u8_bytes [OF at(2)] by (simp_all add: numeral_2_eq_2)
  have "loadsafe env lastid ?data = Some (Loaded protos (unat (bb_main_function b)), lastid1)"
    using r v l(1) by (simp add: loadsafe_def)
  then show ?thesis
    using f(1,2) l(2) type_map_cong [OF f(5,6), of env] by (intro exI [of _ b'] exI [of _ zs] exI [of _ protos]) auto
qed

theorem finalize_loadsafe_witness:
  "\<exists>b b' p lastid1 env. finalize no_flags b = Some b' \<and> loadsafe env 0 (bb_bytecode b') = Some (Loaded [p] 0, lastid1) \<and>
     p_code p = [insn_abc LOP_RETURN 0 1 0] \<and> luaG_getline 1 (p_lineinfo p) 0 = Some 1"
proof -
  let ?env = "\<lparr>ve_flags = no_flags, ve_gettypemapping = None, ve_atom = \<lambda>_. - 1, ve_resolve_import = \<lambda>_ _. VNil\<rparr>"
  obtain b0 where b0: "bb_inv b0 []" "bb_constants b0 = []" "bb_typed_locals b0 = []" "bb_typed_upvals b0 = []" "bb_protos b0 = []"
    "bb_debug_locals b0 = []" "bb_debug_upvals b0 = []" "bb_fb_slots b0 = []" "bb_userdata_types b0 = []" "bb_bytecode b0 = []"
    using just_return_builder by blast
  let ?s = "just_return b0"
  have w: "function_written ?s" using b0(2,3) by (simp add: function_written_def good_lines_def)
  let ?d = "function_bytes no_flags 0 ?s (bb_functions ?s ! unat (0 :: u32))"
  have d: "write_function no_flags 0 0 ?s [] = Some ?d" using write_function_eq [OF w, of 0 no_flags 0 "[]"] by simp
  let ?b = "b0\<lparr>bb_functions := [bfunction_default\<lparr>fn_data := ?d\<rparr>], bb_main_function := 0\<rparr>"
  have ti: "length (type_info_bytes [] [] []) < 2 ^ 32" by (simp add: type_info_bytes_def var_int_unfold [of 0])
  have "function_ok ?env no_flags [] 0 ?s bfunction_default"
    using w b0 ti by (simp add: function_ok_def constants_ok_def bfunction_default_def ref_ok_def)
  then have "snaps_ok ?env no_flags [] [(0, ?s)] (bb_functions ?b)"
    using d by (simp add: snaps_ok_def)
  moreover have "strings_inv ?b []" using b0(1) by (simp add: bb_inv_def strings_inv_def)
  ultimately obtain b' zs protos lastid1 where r: "finalize no_flags ?b = Some b'"
    "loadsafe ?env 0 (bb_bytecode b') = Some (Loaded protos 0, lastid1)"
    "module_loaded ?env no_flags zs (type_map ?env []) [(0, ?s)] protos"
    using finalize_loadsafe [of ?b "[]" ?env no_flags "[(0, ?s)]" 0] b0(9,10) by auto
  then obtain p where p: "protos = [p]" by (cases protos) (auto simp: module_loaded_def)
  then have "loaded_as ?env no_flags zs (type_map ?env []) [] 0 ?s bfunction_default p"
    using r(3) by (simp add: module_loaded_def)
  then have "p_code p = [insn_abc LOP_RETURN 0 1 0]" "luaG_getline 1 (p_lineinfo p) 0 = Some 1"
    by (simp_all add: loaded_as_def)
  then show ?thesis using r(1,2) p by blast
qed

section \<open>Modules that are refused\<close>

text \<open>C31: error bytecode is reported as the compiler's message, and a version of the format or of its
  types outside the supported range is refused with that version, whatever follows it.\<close>

theorem loadsafe_errors:
  "loadsafe env lastid (get_error message) = Some (LoadFailed (CompileError message), lastid) \<and>
   (version \<noteq> 0 \<and> (version < LBC_VERSION_MIN \<or> LBC_VERSION_MAX < version) \<longrightarrow>
      loadsafe env lastid (version # rest) = Some (LoadFailed (VersionMismatch version), lastid)) \<and>
   (4 \<le> version \<and> version \<le> LBC_VERSION_MAX \<and> (types < LBC_TYPE_VERSION_MIN \<or> LBC_TYPE_VERSION_MAX < types) \<longrightarrow>
      loadsafe env lastid (version # types # rest) = Some (LoadFailed (TypeVersionMismatch types), lastid))"
proof (intro conjI impI)
  have r: "read_u8 (v # bs) 0 = Some (v, 1)" for v bs
    using read_u8_bytes [of "v # bs" 0 v] bytes_at_self [of "[]" "[v]" bs] by simp
  show "loadsafe env lastid (get_error message) = Some (LoadFailed (CompileError message), lastid)"
    by (simp add: loadsafe_def get_error_def r)
  show "loadsafe env lastid (version # rest) = Some (LoadFailed (VersionMismatch version), lastid)"
    if "version \<noteq> 0 \<and> (version < LBC_VERSION_MIN \<or> LBC_VERSION_MAX < version)"
    using that by (auto simp: loadsafe_def r)
  assume v: "4 \<le> version \<and> version \<le> LBC_VERSION_MAX \<and> (types < LBC_TYPE_VERSION_MIN \<or> LBC_TYPE_VERSION_MAX < types)"
  have "read_u8 (version # types # rest) 1 = Some (types, 2)"
    using read_u8_bytes [of "version # types # rest" 1 types] bytes_at_self [of "[version]" "[types]" rest]
    by (simp add: numeral_2_eq_2)
  moreover have "version \<noteq> 0" "\<not> version < LBC_VERSION_MIN" "\<not> LBC_VERSION_MAX < version"
    using v by (auto simp: word_le_nat_alt word_less_nat_alt)
  ultimately show "loadsafe env lastid (version # types # rest) = Some (LoadFailed (TypeVersionMismatch types), lastid)"
    using v by (auto simp: loadsafe_def r)
qed

theorem loadsafe_errors_witness:
  "\<exists>env. loadsafe env 1 [2, 0] = Some (LoadFailed (VersionMismatch 2), 1) \<and>
     loadsafe env 1 [6, 4] = Some (LoadFailed (TypeVersionMismatch 4), 1) \<and>
     loadsafe env 1 (get_error [104, 105]) = Some (LoadFailed (CompileError [104, 105]), 1)"
  using loadsafe_errors [of _ 1 "[104, 105]" 2 "[0]" 0] loadsafe_errors [of _ 1 "[]" 6 "[]" 4] by simp

end
