(* ===== verification/Bytecode_Validate.thy ===== *)
theory Bytecode_Validate
  imports Bytecode_Builder
begin

text \<open>
  The validator of the builder: \<open>bytecode_builder_validate.rs\<close>, \<open>bytecode_builder_validate_instructions.rs\<close>,
  \<open>bytecode_builder_validate_variadic.rs\<close> and the \<open>V*\<close> macros they use. Every check of the code is an
  \<open>LUAU_ASSERT\<close>; a function that passes all of them gives \<open>Some ()\<close>. Additions of \<open>u8\<close> operands are
  checked for overflow, as in the builds whose assertions are on by default.

  Code that passes has no instruction with a register, constant or upvalue operand out of range, no
  jump to a place that is not the start of an instruction, closes what it captures by reference, and
  produces and consumes variadic results in matching pairs.
\<close>

section \<open>Checks\<close>

definition insn_a :: "u32 \<Rightarrow> u8" where "insn_a insn = ucast (LUAU_INSN_A insn)"
definition insn_b :: "u32 \<Rightarrow> u8" where "insn_b insn = ucast (LUAU_INSN_B insn)"
definition insn_c :: "u32 \<Rightarrow> u8" where "insn_c insn = ucast (LUAU_INSN_C insn)"

abbreviation LCT_VAL :: u8 where "LCT_VAL \<equiv> 0"
abbreviation LCT_REF :: u8 where "LCT_REF \<equiv> 1"
abbreviation LCT_UPVAL :: u8 where "LCT_UPVAL \<equiv> 2"

definition add_u8 :: "u8 \<Rightarrow> u8 \<Rightarrow> u8 option" where
  "add_u8 x y = (if unat x + unat y < 256 then Some (x + y) else None)"

text \<open>\<open>x as usize\<close> of an \<open>i32\<close>: the sign is extended to 64 bits.\<close>

definition as_usize :: "int \<Rightarrow> nat" where
  "as_usize x = unat (word_of_int x :: u64)"

definition VREG :: "u8 \<Rightarrow> bfunction \<Rightarrow> unit option" where
  "VREG v func = LUAU_ASSERT (v < fn_maxstacksize func)"

definition VREGRANGE :: "u8 \<Rightarrow> int \<Rightarrow> bfunction \<Rightarrow> unit option" where
  "VREGRANGE v n func =
     LUAU_ASSERT (uint v + (if n < 0 then 0 else n) \<le> uint (fn_maxstacksize func))"

definition VUPVAL :: "u8 \<Rightarrow> bfunction \<Rightarrow> unit option" where
  "VUPVAL v func = LUAU_ASSERT (v < fn_numupvalues func)"

fun type_of_constant :: "bconstant \<Rightarrow> constant_type" where
  "type_of_constant ConstNil = Type_Nil"
| "type_of_constant (ConstBoolean _) = Type_Boolean"
| "type_of_constant (ConstNumber _) = Type_Number"
| "type_of_constant (ConstInteger _) = Type_Integer"
| "type_of_constant (ConstVector _ _ _ _) = Type_Vector"
| "type_of_constant (ConstString _) = Type_String"
| "type_of_constant (ConstImport _) = Type_Import"
| "type_of_constant (ConstTable _) = Type_Table"
| "type_of_constant (ConstClosure _) = Type_Closure"
| "type_of_constant (ConstClassShape _) = Type_ClassShape"

definition VCONST :: "nat \<Rightarrow> constant_type \<Rightarrow> bconstant list \<Rightarrow> unit option" where
  "VCONST v kind constants = LUAU_ASSERT (v < length constants \<and> type_of_constant (constants ! v) = kind)"

definition VCONSTANY :: "nat \<Rightarrow> bconstant list \<Rightarrow> unit option" where
  "VCONSTANY v constants = LUAU_ASSERT (v < length constants)"

definition VJUMP :: "int \<Rightarrow> nat \<Rightarrow> u32 list \<Rightarrow> bool list \<Rightarrow> unit option" where
  "VJUMP v i insns insnvalid =
     LUAU_ASSERT (int i + 1 + v \<ge> 0 \<and> int i + 1 + v < int (length insns) \<and> insnvalid ! nat (int i + 1 + v))"

section \<open>Instruction starts\<close>

lemma advance: "i < n \<Longrightarrow> n - (i + getOpLength op) < n - i"
  using getOpLength_pos [of op] by simp

function tag_insns :: "u32 list \<Rightarrow> nat \<Rightarrow> bool list \<Rightarrow> bool list option" where
  "tag_insns insns i insnvalid =
     (if i < length insns then do {
        op \<leftarrow> LuauOpcode_from (insn_op (insns ! i));
        insnvalid \<leftarrow> update_checked insnvalid i True;
        LUAU_ASSERT (i + getOpLength op \<le> length insns);
        tag_insns insns (i + getOpLength op) insnvalid
      } else Some insnvalid)"
  by pat_completeness auto
termination
  by (relation "measure (\<lambda>(insns, i, _). length insns - i)") (simp_all add: advance)

declare tag_insns.simps [simp del]

section \<open>Individual instructions\<close>

text \<open>The words after a closure instruction, one per upvalue, are captures; those of a \<open>DUPCLOSURE\<close>
  are not by reference.\<close>

fun check_captures :: "u32 list \<Rightarrow> nat \<Rightarrow> nat \<Rightarrow> nat \<Rightarrow> bool \<Rightarrow> unit option" where
  "check_captures insns i j 0 by_value = Some ()"
| "check_captures insns i j (Suc n) by_value = do {
     LUAU_ASSERT (i + 1 + j < length insns);
     let cinsn = insns ! (i + 1 + j);
     LUAU_ASSERT (LUAU_INSN_OP cinsn = ucast LOP_CAPTURE);
     LUAU_ASSERT (by_value \<longrightarrow> insn_a cinsn = LCT_VAL \<or> insn_a cinsn = LCT_UPVAL);
     check_captures insns i (j + 1) n by_value
   }"

fun check_import :: "u32 \<Rightarrow> nat \<Rightarrow> nat \<Rightarrow> bconstant list \<Rightarrow> unit option" where
  "check_import iid j 0 constants = Some ()"
| "check_import iid j (Suc n) constants = do {
     VCONST (unat (drop_bit (20 - 10 * j) iid AND 1023)) Type_String constants;
     check_import iid (j + 1) n constants
   }"

definition pop_captures :: "u8 \<Rightarrow> u8 list \<Rightarrow> u8 list" where
  "pop_captures a open_captures = rev (dropWhile (\<lambda>r. r \<ge> a) (rev open_captures))"

definition check_fastcall :: "u32 list \<Rightarrow> bool list \<Rightarrow> nat \<Rightarrow> unit option" where
  "check_fastcall insns insnvalid i = do {
     let insn = insns ! i;
     VJUMP (uint (LUAU_INSN_C insn)) i insns insnvalid;
     call \<leftarrow> index_checked insns (i + 1 + unat (LUAU_INSN_C insn));
     LUAU_ASSERT (LUAU_INSN_OP call = ucast LOP_CALL)
   }"

text \<open>The arms of the match, in the order of the code and in four groups. \<open>open_captures\<close> is returned
  updated; an opcode with no arm fails.\<close>

definition validate_misc_op :: "bytecode_builder \<Rightarrow> bfunction \<Rightarrow> bool list \<Rightarrow> nat \<Rightarrow> u8 list \<Rightarrow> u8 list option" where
  "validate_misc_op b func insnvalid i open_captures =
     (let insns = bb_insns b; insn = insns ! i; op = insn_op insn; keep = Some open_captures in
      if op = LOP_FASTCALL then do { check_fastcall insns insnvalid i; keep }
      else if op = LOP_FASTCALL1 then do { VREG (insn_b insn) func; check_fastcall insns insnvalid i; keep }
      else if op = LOP_FASTCALL2 then do {
        VREG (insn_b insn) func; check_fastcall insns insnvalid i;
        aux \<leftarrow> index_checked insns (i + 1); VREG (ucast aux) func; keep }
      else if op = LOP_FASTCALL2K then do {
        VREG (insn_b insn) func; check_fastcall insns insnvalid i;
        aux \<leftarrow> index_checked insns (i + 1); VCONSTANY (unat aux) (bb_constants b); keep }
      else if op = LOP_FASTCALL3 then do {
        VREG (insn_b insn) func; check_fastcall insns insnvalid i;
        aux \<leftarrow> index_checked insns (i + 1);
        VREG (ucast (aux AND 0xff)) func; VREG (ucast (drop_bit 8 aux AND 0xff)) func; keep }
      else if op = LOP_COVERAGE then keep
      else if op = LOP_CAPTURE then
        (if insn_a insn = LCT_VAL then do { VREG (insn_b insn) func; keep }
         else if insn_a insn = LCT_REF then do { VREG (insn_b insn) func; Some (open_captures @ [insn_b insn]) }
         else if insn_a insn = LCT_UPVAL then do { VUPVAL (insn_b insn) func; keep }
         else None)
      else if op = LOP_NEWCLASSMEMBER then do {
        VREG (insn_a insn) func; LUAU_ASSERT (LUAU_INSN_B insn = 0); VREG (insn_c insn) func;
        aux \<leftarrow> index_checked insns (i + 1); VCONST (unat aux) Type_String (bb_constants b); keep }
      else if op \<in> {LOP_GETUDATAKS, LOP_SETUDATAKS} then do {
        VREG (insn_a insn) func; VREG (insn_b insn) func;
        aux \<leftarrow> index_checked insns (i + 1); VCONST (unat (LUAU_INSN_AUX_KV16 aux)) Type_String (bb_constants b); keep }
      else if op = LOP_NAMECALLUDATA then do {
        VREG (insn_a insn) func; VREG (insn_b insn) func;
        aux \<leftarrow> index_checked insns (i + 1); VCONST (unat (LUAU_INSN_AUX_KV16 aux)) Type_String (bb_constants b);
        call \<leftarrow> index_checked insns (i + 2); LUAU_ASSERT (LUAU_INSN_OP call = ucast LOP_CALL); keep }
      else if op = LOP_CMPPROTO then do {
        VREG (insn_a insn) func; VJUMP (LUAU_INSN_D insn) i insns insnvalid; keep }
      else None)"

definition validate_loop_op :: "bytecode_builder \<Rightarrow> bfunction \<Rightarrow> bool list \<Rightarrow> nat \<Rightarrow> u8 list \<Rightarrow> u8 list option" where
  "validate_loop_op b func insnvalid i open_captures =
     (let insns = bb_insns b; insn = insns ! i; op = insn_op insn; keep = Some open_captures in
      if op \<in> {LOP_FORNPREP, LOP_FORNLOOP} then do {
        r \<leftarrow> add_u8 (insn_a insn) 2; VREG r func; VJUMP (LUAU_INSN_D insn) i insns insnvalid; keep }
      else if op = LOP_FORGPREP then do {
        r \<leftarrow> add_u8 (insn_a insn) 2; r \<leftarrow> add_u8 r 1; VREG r func; VJUMP (LUAU_INSN_D insn) i insns insnvalid; keep }
      else if op = LOP_FORGLOOP then do {
        aux \<leftarrow> index_checked insns (i + 1);
        r \<leftarrow> add_u8 (insn_a insn) 2; r \<leftarrow> add_u8 r (ucast aux); VREG r func;
        VJUMP (LUAU_INSN_D insn) i insns insnvalid;
        LUAU_ASSERT ((ucast aux :: u8) \<ge> 1); keep }
      else if op \<in> {LOP_FORGPREP_INEXT, LOP_FORGPREP_NEXT} then do {
        r \<leftarrow> add_u8 (insn_a insn) 4; VREG r func; VJUMP (LUAU_INSN_D insn) i insns insnvalid; keep }
      else if op = LOP_GETVARARGS then do {
        VREGRANGE (insn_a insn) (uint (LUAU_INSN_B insn) - 1) func; keep }
      else if op = LOP_DUPCLOSURE then do {
        VREG (insn_a insn) func;
        VCONST (as_usize (LUAU_INSN_D insn)) Type_Closure (bb_constants b);
        proto \<leftarrow> (case bb_constants b ! as_usize (LUAU_INSN_D insn) of ConstClosure fid \<Rightarrow> Some fid | _ \<Rightarrow> None);
        LUAU_ASSERT (proto < word_of_nat (length (bb_functions b)));
        f \<leftarrow> index_checked (bb_functions b) (unat proto);
        check_captures insns i 0 (unat (fn_numupvalues f)) True; keep }
      else if op = LOP_PREPVARARGS then do {
        LUAU_ASSERT (LUAU_INSN_A insn = ucast (fn_numparams func)); LUAU_ASSERT (fn_isvararg func); keep }
      else if op = LOP_BREAK then keep
      else if op = LOP_JUMPBACK then do { VJUMP (LUAU_INSN_D insn) i insns insnvalid; keep }
      else if op = LOP_LOADKX then do {
        VREG (insn_a insn) func; aux \<leftarrow> index_checked insns (i + 1); VCONSTANY (unat aux) (bb_constants b); keep }
      else if op = LOP_JUMPX then do { VJUMP (LUAU_INSN_E insn) i insns insnvalid; keep }
      else validate_misc_op b func insnvalid i open_captures)"

definition validate_arith_op :: "bytecode_builder \<Rightarrow> bfunction \<Rightarrow> bool list \<Rightarrow> nat \<Rightarrow> u8 list \<Rightarrow> u8 list option" where
  "validate_arith_op b func insnvalid i open_captures =
     (let insns = bb_insns b; insn = insns ! i; op = insn_op insn; keep = Some open_captures in
      if op = LOP_JUMP then do { VJUMP (LUAU_INSN_D insn) i insns insnvalid; keep }
      else if op \<in> {LOP_JUMPIF, LOP_JUMPIFNOT} then do {
        VREG (insn_a insn) func; VJUMP (LUAU_INSN_D insn) i insns insnvalid; keep }
      else if op \<in> {LOP_JUMPIFEQ, LOP_JUMPIFLE, LOP_JUMPIFLT, LOP_JUMPIFNOTEQ, LOP_JUMPIFNOTLE, LOP_JUMPIFNOTLT} then do {
        VREG (insn_a insn) func; aux \<leftarrow> index_checked insns (i + 1); VREG (ucast aux) func;
        VJUMP (LUAU_INSN_D insn) i insns insnvalid; keep }
      else if op \<in> {LOP_JUMPXEQKNIL, LOP_JUMPXEQKB} then do {
        VREG (insn_a insn) func; VJUMP (LUAU_INSN_D insn) i insns insnvalid; keep }
      else if op = LOP_JUMPXEQKN then do {
        VREG (insn_a insn) func; aux \<leftarrow> index_checked insns (i + 1);
        VCONST (unat (aux AND 0xffffff)) Type_Number (bb_constants b);
        VJUMP (LUAU_INSN_D insn) i insns insnvalid; keep }
      else if op = LOP_JUMPXEQKS then do {
        VREG (insn_a insn) func; aux \<leftarrow> index_checked insns (i + 1);
        VCONST (unat (aux AND 0xffffff)) Type_String (bb_constants b);
        VJUMP (LUAU_INSN_D insn) i insns insnvalid; keep }
      else if op \<in> {LOP_ADD, LOP_SUB, LOP_MUL, LOP_DIV, LOP_MOD, LOP_POW} then do {
        VREG (insn_a insn) func; VREG (insn_b insn) func; VREG (insn_c insn) func; keep }
      else if op \<in> {LOP_ADDK, LOP_SUBK, LOP_MULK, LOP_DIVK, LOP_MODK, LOP_POWK} then do {
        VREG (insn_a insn) func; VREG (insn_b insn) func;
        VCONST (unat (LUAU_INSN_C insn)) Type_Number (bb_constants b); keep }
      else if op \<in> {LOP_SUBRK, LOP_DIVRK} then do {
        VREG (insn_a insn) func; VCONST (unat (LUAU_INSN_B insn)) Type_Number (bb_constants b);
        VREG (insn_c insn) func; keep }
      else if op \<in> {LOP_AND, LOP_OR} then do {
        VREG (insn_a insn) func; VREG (insn_b insn) func; VREG (insn_c insn) func; keep }
      else if op \<in> {LOP_ANDK, LOP_ORK} then do {
        VREG (insn_a insn) func; VREG (insn_b insn) func; VCONSTANY (unat (LUAU_INSN_C insn)) (bb_constants b); keep }
      else if op = LOP_CONCAT then do {
        VREG (insn_a insn) func; VREG (insn_b insn) func; VREG (insn_c insn) func;
        LUAU_ASSERT (LUAU_INSN_B insn \<le> LUAU_INSN_C insn); keep }
      else if op \<in> {LOP_NOT, LOP_MINUS, LOP_LENGTH} then do {
        VREG (insn_a insn) func; VREG (insn_b insn) func; keep }
      else if op = LOP_NEWTABLE then do { VREG (insn_a insn) func; keep }
      else if op = LOP_DUPTABLE then do {
        VREG (insn_a insn) func; VCONST (as_usize (LUAU_INSN_D insn)) Type_Table (bb_constants b); keep }
      else if op = LOP_SETLIST then do {
        VREG (insn_a insn) func; VREGRANGE (insn_b insn) (uint (LUAU_INSN_C insn) - 1) func; keep }
      else validate_loop_op b func insnvalid i open_captures)"

definition validate_op :: "bytecode_builder \<Rightarrow> bfunction \<Rightarrow> bool list \<Rightarrow> nat \<Rightarrow> u8 list \<Rightarrow> u8 list option" where
  "validate_op b func insnvalid i open_captures =
     (let insns = bb_insns b; insn = insns ! i; op = insn_op insn; keep = Some open_captures in
      if op = LOP_LOADNIL then do { VREG (insn_a insn) func; keep }
      else if op = LOP_LOADB then do {
        VREG (insn_a insn) func; LUAU_ASSERT (insn_b insn = 0 \<or> insn_b insn = 1);
        VJUMP (uint (LUAU_INSN_C insn)) i insns insnvalid; keep }
      else if op = LOP_LOADN then do { VREG (insn_a insn) func; keep }
      else if op = LOP_LOADK then do {
        VREG (insn_a insn) func; VCONSTANY (as_usize (LUAU_INSN_D insn)) (bb_constants b); keep }
      else if op = LOP_MOVE then do { VREG (insn_a insn) func; VREG (insn_b insn) func; keep }
      else if op \<in> {LOP_GETGLOBAL, LOP_SETGLOBAL} then do {
        VREG (insn_a insn) func; aux \<leftarrow> index_checked insns (i + 1);
        VCONST (unat aux) Type_String (bb_constants b); keep }
      else if op \<in> {LOP_GETUPVAL, LOP_SETUPVAL} then do { VREG (insn_a insn) func; VUPVAL (insn_b insn) func; keep }
      else if op = LOP_CLOSEUPVALS then do { VREG (insn_a insn) func; Some (pop_captures (insn_a insn) open_captures) }
      else if op = LOP_GETIMPORT then do {
        VREG (insn_a insn) func; VCONST (as_usize (LUAU_INSN_D insn)) Type_Import (bb_constants b);
        iid \<leftarrow> index_checked insns (i + 1);
        LUAU_ASSERT (drop_bit 30 iid \<noteq> 0);
        check_import iid 0 (unat (drop_bit 30 iid)) (bb_constants b); keep }
      else if op \<in> {LOP_GETTABLE, LOP_SETTABLE} then do {
        VREG (insn_a insn) func; VREG (insn_b insn) func; VREG (insn_c insn) func; keep }
      else if op \<in> {LOP_GETTABLEKS, LOP_SETTABLEKS} then do {
        VREG (insn_a insn) func; VREG (insn_b insn) func; aux \<leftarrow> index_checked insns (i + 1);
        VCONST (unat aux) Type_String (bb_constants b); keep }
      else if op \<in> {LOP_GETTABLEN, LOP_SETTABLEN} then do { VREG (insn_a insn) func; VREG (insn_b insn) func; keep }
      else if op = LOP_NEWCLOSURE then do {
        VREG (insn_a insn) func;
        LUAU_ASSERT (as_usize (LUAU_INSN_D insn) < length (bb_protos b));
        let proto_val = bb_protos b ! as_usize (LUAU_INSN_D insn);
        LUAU_ASSERT (proto_val < word_of_nat (length (bb_functions b)));
        f \<leftarrow> index_checked (bb_functions b) (unat proto_val);
        check_captures insns i 0 (unat (fn_numupvalues f)) False; keep }
      else if op = LOP_NAMECALL then do {
        VREG (insn_a insn) func; VREG (insn_b insn) func; aux \<leftarrow> index_checked insns (i + 1);
        VCONST (unat aux) Type_String (bb_constants b);
        call \<leftarrow> index_checked insns (i + 2);
        LUAU_ASSERT (LUAU_INSN_OP call = ucast LOP_CALLFB \<or> LUAU_INSN_OP call = ucast LOP_CALL); keep }
      else if op \<in> {LOP_CALL, LOP_CALLFB} then do {
        VREG (insn_a insn) func; r \<leftarrow> add_u8 (insn_a insn) 1;
        VREGRANGE r (uint (LUAU_INSN_B insn) - 1) func;
        VREGRANGE (insn_a insn) (uint (LUAU_INSN_C insn) - 1) func; keep }
      else if op = LOP_RETURN then do { VREGRANGE (insn_a insn) (uint (LUAU_INSN_B insn) - 1) func; keep }
      else validate_arith_op b func insnvalid i open_captures)"

function validate_loop :: "bytecode_builder \<Rightarrow> bfunction \<Rightarrow> bool list \<Rightarrow> nat \<Rightarrow> u8 list \<Rightarrow> u8 list option" where
  "validate_loop b func insnvalid i open_captures =
     (if i < length (bb_insns b) then do {
        op \<leftarrow> LuauOpcode_from (insn_op (bb_insns b ! i));
        open_captures \<leftarrow> validate_op b func insnvalid i open_captures;
        LUAU_ASSERT (i + getOpLength op \<le> length (bb_insns b));
        validate_loop b func insnvalid (i + getOpLength op) open_captures
      } else Some open_captures)"
  by pat_completeness auto
termination
  by (relation "measure (\<lambda>(b, _, _, i, _). length (bb_insns b) - i)") (simp_all add: advance)

declare validate_loop.simps [simp del]

definition validate_instructions :: "bytecode_builder \<Rightarrow> unit option" where
  "validate_instructions b = do {
     LUAU_ASSERT (bb_current_function b \<noteq> NOT 0);
     func \<leftarrow> index_checked (bb_functions b) (unat (bb_current_function b));
     insnvalid \<leftarrow> tag_insns (bb_insns b) 0 (replicate (length (bb_insns b)) False);
     open_captures \<leftarrow> validate_loop b func insnvalid 0 [];
     LUAU_ASSERT (open_captures = [])
   }"

section \<open>The operands of an instruction\<close>

text \<open>What the operands of an instruction mean to the interpreter: the registers it names, ranges
  included, its constants with the type they need, its upvalues and the instructions it can continue
  at besides the next one. An operand that stands for "up to the top of the stack" names no range.\<close>

definition insn_registers :: "u32 list \<Rightarrow> nat \<Rightarrow> nat set" where
  "insn_registers code i =
     (let insn = code ! i; aux = code ! (i + 1); op = insn_op insn;
          a = unat (insn_a insn); b = unat (insn_b insn); c = unat (insn_c insn) in
      if op \<in> {LOP_LOADNIL, LOP_LOADB, LOP_LOADN, LOP_LOADK, LOP_GETGLOBAL, LOP_SETGLOBAL, LOP_GETUPVAL, LOP_SETUPVAL,
          LOP_CLOSEUPVALS, LOP_GETIMPORT, LOP_NEWCLOSURE, LOP_JUMPIF, LOP_JUMPIFNOT, LOP_JUMPXEQKNIL, LOP_JUMPXEQKB,
          LOP_JUMPXEQKN, LOP_JUMPXEQKS, LOP_NEWTABLE, LOP_DUPTABLE, LOP_DUPCLOSURE, LOP_LOADKX, LOP_CMPPROTO} then {a}
      else if op \<in> {LOP_MOVE, LOP_GETTABLEKS, LOP_SETTABLEKS, LOP_GETTABLEN, LOP_SETTABLEN, LOP_NAMECALL, LOP_ADDK,
          LOP_SUBK, LOP_MULK, LOP_DIVK, LOP_MODK, LOP_POWK, LOP_ANDK, LOP_ORK, LOP_NOT, LOP_MINUS, LOP_LENGTH,
          LOP_GETUDATAKS, LOP_SETUDATAKS, LOP_NAMECALLUDATA} then {a, b}
      else if op \<in> {LOP_SUBRK, LOP_DIVRK, LOP_NEWCLASSMEMBER} then {a, c}
      else if op \<in> {LOP_GETTABLE, LOP_SETTABLE, LOP_ADD, LOP_SUB, LOP_MUL, LOP_DIV, LOP_MOD, LOP_POW, LOP_AND, LOP_OR}
        then {a, b, c}
      else if op \<in> {LOP_JUMPIFEQ, LOP_JUMPIFLE, LOP_JUMPIFLT, LOP_JUMPIFNOTEQ, LOP_JUMPIFNOTLE, LOP_JUMPIFNOTLT}
        then {a, unat aux}
      else if op = LOP_CONCAT then {a} \<union> {b..c}
      else if op \<in> {LOP_CALL, LOP_CALLFB} then {a} \<union> {a<..<a + b} \<union> {a..<a + c - 1}
      else if op \<in> {LOP_RETURN, LOP_GETVARARGS} then {a..<a + b - 1}
      else if op = LOP_SETLIST then {a} \<union> {b..<b + c - 1}
      else if op \<in> {LOP_FORNPREP, LOP_FORNLOOP} then {a..a + 2}
      else if op = LOP_FORGPREP then {a..a + 3}
      else if op = LOP_FORGLOOP then {a..a + 2 + unat (LUAU_INSN_AUX_A aux)}
      else if op \<in> {LOP_FORGPREP_INEXT, LOP_FORGPREP_NEXT} then {a..a + 4}
      else if op \<in> {LOP_FASTCALL1, LOP_FASTCALL2K} then {b}
      else if op = LOP_FASTCALL2 then {b, unat aux}
      else if op = LOP_FASTCALL3 then {b, unat (LUAU_INSN_AUX_A aux), unat (LUAU_INSN_AUX_B aux)}
      else if op = LOP_CAPTURE \<and> insn_a insn \<noteq> LCT_UPVAL then {b}
      else {})"

definition insn_upvalues :: "u32 list \<Rightarrow> nat \<Rightarrow> nat set" where
  "insn_upvalues code i =
     (let insn = code ! i; op = insn_op insn in
      if op \<in> {LOP_GETUPVAL, LOP_SETUPVAL} \<or> op = LOP_CAPTURE \<and> insn_a insn = LCT_UPVAL then {unat (insn_b insn)} else {})"

definition insn_constants :: "u32 list \<Rightarrow> nat \<Rightarrow> (int \<times> constant_type option) set" where
  "insn_constants code i =
     (let insn = code ! i; aux = code ! (i + 1); op = insn_op insn;
          names = unat (drop_bit 30 aux) in
      if op = LOP_LOADK then {(LUAU_INSN_D insn, None)}
      else if op \<in> {LOP_LOADKX, LOP_FASTCALL2K} then {(uint aux, None)}
      else if op \<in> {LOP_ANDK, LOP_ORK} then {(uint (LUAU_INSN_C insn), None)}
      else if op \<in> {LOP_GETGLOBAL, LOP_SETGLOBAL, LOP_GETTABLEKS, LOP_SETTABLEKS, LOP_NAMECALL, LOP_NEWCLASSMEMBER}
        then {(uint aux, Some Type_String)}
      else if op \<in> {LOP_GETUDATAKS, LOP_SETUDATAKS, LOP_NAMECALLUDATA} then {(uint (LUAU_INSN_AUX_KV16 aux), Some Type_String)}
      else if op = LOP_JUMPXEQKS then {(uint (LUAU_INSN_AUX_KV aux), Some Type_String)}
      else if op = LOP_JUMPXEQKN then {(uint (LUAU_INSN_AUX_KV aux), Some Type_Number)}
      else if op \<in> {LOP_ADDK, LOP_SUBK, LOP_MULK, LOP_DIVK, LOP_MODK, LOP_POWK} then {(uint (LUAU_INSN_C insn), Some Type_Number)}
      else if op \<in> {LOP_SUBRK, LOP_DIVRK} then {(uint (LUAU_INSN_B insn), Some Type_Number)}
      else if op = LOP_DUPTABLE then {(LUAU_INSN_D insn, Some Type_Table)}
      else if op = LOP_DUPCLOSURE then {(LUAU_INSN_D insn, Some Type_Closure)}
      else if op = LOP_GETIMPORT then insert (LUAU_INSN_D insn, Some Type_Import)
        ((\<lambda>j. (uint (drop_bit (20 - 10 * j) aux AND 1023), Some Type_String)) ` {..<names})
      else {})"

definition insn_destinations :: "u32 list \<Rightarrow> nat \<Rightarrow> int set" where
  "insn_destinations code i =
     (let insn = code ! i; op = insn_op insn in
      if isJumpD op then {int i + 1 + LUAU_INSN_D insn}
      else if op = LOP_JUMPX then {int i + 1 + LUAU_INSN_E insn}
      else if op = LOP_LOADB \<or> isFastCall op then {int i + 1 + uint (LUAU_INSN_C insn)}
      else {})"

definition operands_ok :: "bytecode_builder \<Rightarrow> bfunction \<Rightarrow> nat \<Rightarrow> bool" where
  "operands_ok b func i \<longleftrightarrow>
     (\<forall>r \<in> insn_registers (bb_insns b) i. r < unat (fn_maxstacksize func)) \<and>
     (\<forall>u \<in> insn_upvalues (bb_insns b) i. u < unat (fn_numupvalues func)) \<and>
     (\<forall>(k, t) \<in> insn_constants (bb_insns b) i. 0 \<le> k \<and> nat k < length (bb_constants b) \<and>
        (case t of None \<Rightarrow> True | Some t \<Rightarrow> type_of_constant (bb_constants b ! nat k) = t)) \<and>
     (\<forall>d \<in> insn_destinations (bb_insns b) i. 0 \<le> d \<and> nat d < length (bb_insns b) \<and> instr_start (bb_insns b) (nat d))"

text \<open>The second register of a comparison and of \<open>FASTCALL2\<close> is a whole word, which the validator reads as a byte:
  what it checks of an instruction is that every register is in range, or is the register of the word and in range
  modulo 256.\<close>

definition aux_registers :: "u32 list \<Rightarrow> nat \<Rightarrow> nat set" where
  "aux_registers code i =
     (if insn_op (code ! i) \<in> {LOP_JUMPIFEQ, LOP_JUMPIFLE, LOP_JUMPIFLT, LOP_JUMPIFNOTEQ, LOP_JUMPIFNOTLE, LOP_JUMPIFNOTLT,
        LOP_FASTCALL2} then {unat (code ! (i + 1))} else {})"

definition operands_checked :: "bytecode_builder \<Rightarrow> bfunction \<Rightarrow> nat \<Rightarrow> bool" where
  "operands_checked b func i \<longleftrightarrow>
     (\<forall>r \<in> insn_registers (bb_insns b) i. r < unat (fn_maxstacksize func) \<or>
        r \<in> aux_registers (bb_insns b) i \<and> r mod 256 < unat (fn_maxstacksize func)) \<and>
     (\<forall>u \<in> insn_upvalues (bb_insns b) i. u < unat (fn_numupvalues func)) \<and>
     (\<forall>(k, t) \<in> insn_constants (bb_insns b) i. 0 \<le> k \<and> nat k < length (bb_constants b) \<and>
        (case t of None \<Rightarrow> True | Some t \<Rightarrow> type_of_constant (bb_constants b ! nat k) = t)) \<and>
     (\<forall>d \<in> insn_destinations (bb_insns b) i. 0 \<le> d \<and> nat d < length (bb_insns b) \<and> instr_start (bb_insns b) (nat d))"

definition aux_reg_ok :: "u32 list \<Rightarrow> nat \<Rightarrow> bool" where
  "aux_reg_ok code i \<longleftrightarrow>
     (\<forall>r \<in> aux_registers code i. r < 256)"

lemma operands_checked_ok: "operands_checked b func i \<Longrightarrow> aux_reg_ok (bb_insns b) i \<Longrightarrow> operands_ok b func i"
proof -
  assume c: "operands_checked b func i" and a: "aux_reg_ok (bb_insns b) i"
  have "r < unat (fn_maxstacksize func)" if "r \<in> insn_registers (bb_insns b) i" for r
    using c a that unfolding operands_checked_def aux_reg_ok_def by (metis mod_less)
  then show "operands_ok b func i" using c unfolding operands_checked_def operands_ok_def by simp
qed

section \<open>What the checks establish\<close>

named_theorems checks \<open>what a check that passes says\<close>

lemma as_usize_eq:
  assumes "- (2 ^ 31) \<le> x" and "x < 2 ^ 31" and "as_usize x < n" and "n < 2 ^ 31"
  shows "0 \<le> x \<and> as_usize x = nat x"
proof -
  have u: "uint (word_of_int x :: u64) = x mod 2 ^ 64" by (simp add: uint_word_of_int)
  have "0 \<le> x"
  proof (rule ccontr)
    assume "\<not> 0 \<le> x"
    then have "(x + 2 ^ 64) mod 2 ^ 64 = x + 2 ^ 64" using assms(1) by (intro mod_pos_pos_trivial) simp_all
    then have "x mod 2 ^ 64 = x + 2 ^ 64" by simp
    then have "int (as_usize x) = x + 2 ^ 64" using u by (simp add: as_usize_def)
    then show False using assms by simp
  qed
  moreover have "x mod 2 ^ 64 = x" using calculation assms(2) by simp
  ultimately show ?thesis using u by (simp add: as_usize_def unat_eq_nat_uint)
qed

lemma d_index [checks]:
  assumes "n < 2 ^ 31"
  shows "as_usize (LUAU_INSN_D w) < n \<longleftrightarrow> 0 \<le> LUAU_INSN_D w \<and> nat (LUAU_INSN_D w) < n"
proof -
  have "as_usize (LUAU_INSN_D w) = nat (LUAU_INSN_D w)" if "0 \<le> LUAU_INSN_D w"
    using that LUAU_INSN_D_range [of w] by (simp add: as_usize_def unat_eq_nat_uint uint_word_of_int)
  then show ?thesis using as_usize_eq [OF _ _ _ assms, of "LUAU_INSN_D w"] LUAU_INSN_D_range [of w] by auto
qed

lemma as_usize_nonneg [checks]: "0 \<le> LUAU_INSN_D w \<Longrightarrow> as_usize (LUAU_INSN_D w) = nat (LUAU_INSN_D w)"
  using LUAU_INSN_D_range [of w] by (simp add: as_usize_def unat_eq_nat_uint uint_word_of_int)

lemma check_Some [checks]:
  "VREG v func = Some u \<longleftrightarrow> unat v < unat (fn_maxstacksize func)"
  "VREGRANGE v (uint n - 1) func = Some u \<longleftrightarrow> unat v + (unat n - 1) \<le> unat (fn_maxstacksize func)"
  "VUPVAL v func = Some u \<longleftrightarrow> unat v < unat (fn_numupvalues func)"
  "VCONST k t cs = Some u \<longleftrightarrow> k < length cs \<and> type_of_constant (cs ! k) = t"
  "VCONSTANY k cs = Some u \<longleftrightarrow> k < length cs"
  "VJUMP d i insns valid = Some u \<longleftrightarrow> int i + 1 + d \<ge> 0 \<and> nat (int i + 1 + d) < length insns \<and> valid ! nat (int i + 1 + d)"
  "(if P then m else None) = Some x \<longleftrightarrow> P \<and> m = Some x"
proof -
  have "uint n < 1 \<longleftrightarrow> unat n = 0" by (simp add: uint_nat del: of_nat_unat)
  then show "VREGRANGE v (uint n - 1) func = Some u \<longleftrightarrow> unat v + (unat n - 1) \<le> unat (fn_maxstacksize func)"
    by (auto simp: VREGRANGE_def uint_nat simp del: of_nat_unat)
qed (auto simp: VREG_def VUPVAL_def VCONST_def VCONSTANY_def VJUMP_def word_less_nat_alt)

lemma unat_u8: "unat (x :: u8) < 256"
  using unsigned_less [of x, where ?'a = nat] by simp

lemma add_u8_Some [checks]: "add_u8 x y = Some r \<longleftrightarrow> unat r = unat x + unat y"
proof -
  have "unat (x + y) = unat x + unat y" if "unat x + unat y < 256"
    using that by (simp add: unat_plus_if')
  then show ?thesis using unat_u8 [of r] by (auto simp: add_u8_def word_unat_eq_iff)
qed

lemma byte_mask: "unat (ucast ((x :: u32) AND 0xff) :: u8) = unat (x AND 0xff)"
  unfolding mask8_u32 by (simp add: word_unat_eq_iff unsigned_ucast_eq take_bit_eq_mask [symmetric] unsigned_take_bit_eq)

lemma field_byte: "unat (insn_a w) = unat (LUAU_INSN_A w)" "unat (insn_b w) = unat (LUAU_INSN_B w)"
  "unat (insn_c w) = unat (LUAU_INSN_C w)" "unat (ucast aux :: u8) = unat (LUAU_INSN_AUX_A aux)"
proof -
  show "unat (insn_a w) = unat (LUAU_INSN_A w)" "unat (insn_b w) = unat (LUAU_INSN_B w)" "unat (insn_c w) = unat (LUAU_INSN_C w)"
    unfolding insn_a_def insn_b_def insn_c_def LUAU_INSN_A_def LUAU_INSN_B_def LUAU_INSN_C_def by (rule byte_mask)+
  have "(ucast aux :: u8) = ucast (aux AND 0xff)"
    unfolding mask8_u32 by (rule bit_word_eqI) (auto simp: bit_simps)
  then show "unat (ucast aux :: u8) = unat (LUAU_INSN_AUX_A aux)" by (simp add: LUAU_INSN_AUX_A_def byte_mask)
qed

lemma aux_byte: "unat aux mod 256 = unat (LUAU_INSN_AUX_A aux)"
  unfolding field_byte(4) [symmetric] by (simp add: unsigned_ucast_eq take_bit_eq_mod)

lemma op_is: "LUAU_INSN_OP w = ucast (op :: u8) \<longleftrightarrow> insn_op w = op"
proof -
  have "take_bit 32 (unat x) = unat x" for x :: u8
    using unat_u8 [of x] by (simp add: take_bit_nat_eq_self)
  then show ?thesis unfolding field_insn_op by (auto simp: word_unat_eq_iff unsigned_ucast_eq)
qed

lemma check_import_Some [checks]:
  "check_import iid j n cs = Some u \<longleftrightarrow> (\<forall>m < n. unat (drop_bit (20 - 10 * (j + m)) iid AND 1023) < length cs \<and>
    type_of_constant (cs ! unat (drop_bit (20 - 10 * (j + m)) iid AND 1023)) = Type_String)"
  by (induction iid j n cs rule: check_import.induct) (auto simp: checks bind_eq_Some_conv All_less_Suc2 Let_def)

lemma check_captures_Some [checks]:
  "check_captures insns i j n by_value = Some u \<longleftrightarrow> (\<forall>m < n. i + 1 + j + m < length insns \<and>
    insn_op (insns ! (i + 1 + j + m)) = LOP_CAPTURE \<and>
    (by_value \<longrightarrow> insn_a (insns ! (i + 1 + j + m)) \<in> {LCT_VAL, LCT_UPVAL}))"
proof (induction insns i j n by_value rule: check_captures.induct)
  case (2 insns i j n by_value)
  show ?case
    using 2 op_is [of "insns ! (i + 1 + j)" LOP_CAPTURE]
    by (auto simp: bind_eq_Some_conv All_less_Suc2 Let_def simp del: unsigned_numeral)
qed simp

lemma check_fastcall_Some [checks]:
  "check_fastcall insns valid i = Some u \<longleftrightarrow>
    VJUMP (uint (LUAU_INSN_C (insns ! i))) i insns valid = Some () \<and>
    insn_op (insns ! (i + 1 + unat (LUAU_INSN_C (insns ! i)))) = LOP_CALL"
  using op_is [of "insns ! (i + 1 + unat (LUAU_INSN_C (insns ! i)))" LOP_CALL]
  by (auto simp: check_fastcall_def bind_eq_Some_conv Let_def checks uint_nat simp del: unsigned_numeral of_nat_unat)

lemma opcode_cases: "op < LOP__COUNT \<Longrightarrow> op \<in> set (map word_of_nat [0..<89])"
proof -
  assume "op < LOP__COUNT"
  then have "unat op < 89" by (simp add: word_less_nat_alt)
  then have "unat op \<in> set [0..<89]" by simp
  moreover have "op = word_of_nat (unat op)" by simp
  ultimately show ?thesis unfolding set_map by (rule image_eqI [rotated])
qed

lemmas validate_arms = validate_op_def validate_arith_op_def validate_loop_op_def validate_misc_op_def

lemmas insn_operands = operands_checked_def aux_registers_def insn_registers_def insn_upvalues_def insn_constants_def insn_destinations_def
  isJumpD_def isFastCall_def

lemma validate_op_operands:
  assumes v: "validate_op b func valid i caps = Some caps'" and "insn_op (bb_insns b ! i) < LOP__COUNT"
    and starts: "\<And>j. j < length (bb_insns b) \<Longrightarrow> valid ! j = instr_start (bb_insns b) j"
    and k: "length (bb_constants b) < 2 ^ 31"
  shows "operands_checked b func i"
proof -
  have "insn_op (bb_insns b ! i) \<in> set (map word_of_nat [0..<89])" by (rule opcode_cases [OF assms(2)])
  then show ?thesis
    using v k
    apply (simp add: upt_rec)
    apply (elim disjE)
    apply (simp_all add: validate_arms insn_operands Let_def bind_eq_Some_conv checks starts field_byte byte_mask)
    apply (auto simp: starts checks bind_eq_Some_conv aux_byte field_byte byte_mask LUAU_INSN_AUX_KV_def LUAU_INSN_AUX_A_def LUAU_INSN_AUX_B_def
      split: if_splits)
    done
qed

text \<open>The captures by reference that are still open after an instruction.\<close>

lemma validate_op_captures:
  assumes v: "validate_op b func valid i caps = Some caps'" and "insn_op (bb_insns b ! i) < LOP__COUNT"
  shows "caps' = (let insn = bb_insns b ! i in
    if insn_op insn = LOP_CLOSEUPVALS then pop_captures (insn_a insn) caps
    else if insn_op insn = LOP_CAPTURE \<and> insn_a insn = LCT_REF then caps @ [insn_b insn] else caps)"
proof -
  have "insn_op (bb_insns b ! i) \<in> set (map word_of_nat [0..<89])" by (rule opcode_cases [OF assms(2)])
  then show ?thesis
    using v
    apply (simp add: upt_rec)
    apply (elim disjE)
    apply (simp_all add: validate_arms Let_def bind_eq_Some_conv checks)
    apply (auto simp: bind_eq_Some_conv split: if_splits)
    done
qed

text \<open>A closure instruction names a function of the module and is followed by a capture for each of its
  upvalues.\<close>

definition captures_follow :: "u32 list \<Rightarrow> nat \<Rightarrow> bfunction \<Rightarrow> bool \<Rightarrow> bool" where
  "captures_follow code i f by_value \<longleftrightarrow> (\<forall>m < unat (fn_numupvalues f). i + 1 + m < length code \<and>
     insn_op (code ! (i + 1 + m)) = LOP_CAPTURE \<and> (by_value \<longrightarrow> insn_a (code ! (i + 1 + m)) \<in> {LCT_VAL, LCT_UPVAL}))"

definition closure_ok :: "bytecode_builder \<Rightarrow> nat \<Rightarrow> bool" where
  "closure_ok b i \<longleftrightarrow>
     (let insn = bb_insns b ! i; d = LUAU_INSN_D insn in
      (insn_op insn = LOP_NEWCLOSURE \<longrightarrow> 0 \<le> d \<and> nat d < length (bb_protos b) \<and>
         unat (bb_protos b ! nat d) < length (bb_functions b) \<and>
         captures_follow (bb_insns b) i (bb_functions b ! unat (bb_protos b ! nat d)) False) \<and>
      (insn_op insn = LOP_DUPCLOSURE \<longrightarrow> 0 \<le> d \<and> nat d < length (bb_constants b) \<and>
         (\<exists>fid. bb_constants b ! nat d = ConstClosure fid \<and> unat fid < length (bb_functions b) \<and>
            captures_follow (bb_insns b) i (bb_functions b ! unat fid) True)))"

lemma validate_op_closure:
  assumes v: "validate_op b func valid i caps = Some caps'"
    and k: "length (bb_constants b) < 2 ^ 31" "length (bb_protos b) < 2 ^ 31"
  shows "closure_ok b i"
proof -
  consider "insn_op (bb_insns b ! i) = LOP_NEWCLOSURE" | "insn_op (bb_insns b ! i) = LOP_DUPCLOSURE"
    | "insn_op (bb_insns b ! i) \<noteq> LOP_NEWCLOSURE" "insn_op (bb_insns b ! i) \<noteq> LOP_DUPCLOSURE" by blast
  then show ?thesis
  proof cases
    case 1
    then show ?thesis
      using v k(2)
      by (auto simp: validate_op_def closure_ok_def captures_follow_def Let_def bind_eq_Some_conv checks)
  next
    case 2
    then show ?thesis
      using v k(1)
      by (auto simp: validate_op_def validate_arith_op_def validate_loop_op_def closure_ok_def captures_follow_def Let_def
        bind_eq_Some_conv checks split: bconstant.splits)
  qed (simp add: closure_ok_def Let_def)
qed

section \<open>Passes over the code\<close>

lemma tag_insns_marks:
  "tag_insns insns i v = Some v' \<Longrightarrow> instr_start insns i \<Longrightarrow> length v = length insns \<Longrightarrow>
    (\<And>j. j < length insns \<Longrightarrow> v ! j = (instr_start insns j \<and> j < i)) \<Longrightarrow>
    length v' = length insns \<and> (\<forall>j < length insns. v' ! j = instr_start insns j) \<and>
    (\<forall>j. instr_start insns j \<longrightarrow> i \<le> j \<longrightarrow> j < length insns \<longrightarrow>
       insn_op (insns ! j) < LOP__COUNT \<and> j + getOpLength (insn_op (insns ! j)) \<le> length insns)"
proof (induction insns i v rule: tag_insns.induct)
  case (1 insns i v)
  show ?case
  proof (cases "i < length insns")
    case False
    then show ?thesis using 1(2,4,5) by (subst (asm) tag_insns.simps) auto
  next
    case True
    let ?op = "insn_op (insns ! i)" and ?n = "i + getOpLength (insn_op (insns ! i))"
    have s: "?op < LOP__COUNT" "?n \<le> length insns" "tag_insns insns ?n (v[i := True]) = Some v'"
      using 1(2) True by (subst (asm) tag_insns.simps; simp add: LuauOpcode_from_def bind_eq_Some_conv split: if_splits)+
    have inside: "\<not> instr_start insns j" if "i < j" "j < ?n" for j
      using no_start_inside [OF 1(3) _ that(1)] that(2) by auto
    have "length (v[i := True]) = length insns" using 1(4) by simp
    moreover have "v[i := True] ! j = (instr_start insns j \<and> j < ?n)" if "j < length insns" for j
      using 1(3,4,5) that inside [of j] getOpLength_pos [of ?op] by (cases "j = i"; cases "i < j") auto
    ultimately have IH: "length v' = length insns \<and> (\<forall>j < length insns. v' ! j = instr_start insns j) \<and>
      (\<forall>j. instr_start insns j \<longrightarrow> ?n \<le> j \<longrightarrow> j < length insns \<longrightarrow>
         insn_op (insns ! j) < LOP__COUNT \<and> j + getOpLength (insn_op (insns ! j)) \<le> length insns)"
      using 1(1) [OF True, of ?op "v[i := True]" "()"] s 1(4) True instr_start_next [OF 1(3)]
      by (simp add: LuauOpcode_from_def)
    then show ?thesis using s(1,2) inside by (metis le_neq_implies_less not_less)
  qed
qed

lemma tag_insns_correct:
  assumes "tag_insns insns 0 (replicate (length insns) False) = Some valid"
  shows "wf_code insns" "\<And>j. j < length insns \<Longrightarrow> valid ! j = instr_start insns j"
  using tag_insns_marks [OF assms] by (auto simp: wf_code_def)

lemma validate_loop_step:
  assumes "validate_loop b func valid i caps = Some caps'" and "i < length (bb_insns b)"
  shows "\<exists>caps1. validate_op b func valid i caps = Some caps1 \<and>
    validate_loop b func valid (i + getOpLength (insn_op (bb_insns b ! i))) caps1 = Some caps'"
    "insn_op (bb_insns b ! i) < LOP__COUNT"
  using assms by (subst (asm) validate_loop.simps; auto simp: LuauOpcode_from_def bind_eq_Some_conv split: if_splits)+

lemma validate_loop_visits:
  "validate_loop b func valid i caps = Some caps' \<Longrightarrow> instr_start (bb_insns b) i \<Longrightarrow> i \<le> j \<Longrightarrow> instr_start (bb_insns b) j \<Longrightarrow>
    j < length (bb_insns b) \<Longrightarrow> \<exists>c c'. validate_op b func valid j c = Some c'"
proof (induction "j - i" arbitrary: i caps rule: less_induct)
  case less
  let ?n = "i + getOpLength (insn_op (bb_insns b ! i))"
  have "i < length (bb_insns b)" using less.prems by simp
  from validate_loop_step [OF less.prems(1) this]
  obtain caps1 where c: "validate_op b func valid i caps = Some caps1" "validate_loop b func valid ?n caps1 = Some caps'" by blast
  show ?case
  proof (cases "j = i")
    case False
    then have "?n \<le> j" using no_start_inside [OF less.prems(2,4)] less.prems(3) by simp
    moreover have "j - ?n < j - i" using False less.prems(3) getOpLength_pos [of "insn_op (bb_insns b ! i)"] by simp
    ultimately show ?thesis
      using less.hyps [OF _ c(2)] instr_start_next [OF less.prems(2)] less.prems(4,5) by blast
  qed (use c in blast)
qed

definition closed_later :: "u32 list \<Rightarrow> u8 \<Rightarrow> nat \<Rightarrow> bool" where
  "closed_later code r i \<longleftrightarrow> (\<exists>j \<ge> i. j < length code \<and> instr_start code j \<and>
     insn_op (code ! j) = LOP_CLOSEUPVALS \<and> insn_a (code ! j) \<le> r)"

lemma closed_later_mono: "closed_later code r i \<Longrightarrow> k \<le> i \<Longrightarrow> closed_later code r k"
  unfolding closed_later_def using le_trans by blast

lemma pop_captures_left:
  assumes "r \<in> set caps" shows "r \<in> set (pop_captures a caps) \<or> a \<le> r"
proof -
  have "set (rev caps) = set (takeWhile (\<lambda>r. r \<ge> a) (rev caps)) \<union> set (dropWhile (\<lambda>r. r \<ge> a) (rev caps))"
    by (metis set_append takeWhile_dropWhile_id)
  then show ?thesis using assms by (auto simp: pop_captures_def dest: set_takeWhileD)
qed

lemma validate_loop_closes:
  "validate_loop b func valid i caps = Some [] \<Longrightarrow> instr_start (bb_insns b) i \<Longrightarrow>
    (\<forall>r \<in> set caps. closed_later (bb_insns b) r i) \<and>
    (\<forall>p \<ge> i. p < length (bb_insns b) \<longrightarrow> instr_start (bb_insns b) p \<longrightarrow> insn_op (bb_insns b ! p) = LOP_CAPTURE \<longrightarrow>
       insn_a (bb_insns b ! p) = LCT_REF \<longrightarrow> closed_later (bb_insns b) (insn_b (bb_insns b ! p)) p)"
proof (induction "length (bb_insns b) - i" arbitrary: i caps rule: less_induct)
  case less
  let ?code = "bb_insns b" and ?insn = "bb_insns b ! i" and ?n = "i + getOpLength (insn_op (bb_insns b ! i))"
  show ?case
  proof (cases "i < length ?code")
    case False
    then show ?thesis using less.prems(1) by (subst (asm) validate_loop.simps) simp
  next
    case True
    from validate_loop_step [OF less.prems(1) True] obtain caps1
      where c: "validate_op b func valid i caps = Some caps1" "validate_loop b func valid ?n caps1 = Some []"
        "insn_op ?insn < LOP__COUNT" by blast
    note caps1 = validate_op_captures [OF c(1,3)]
    have IH: "\<forall>r \<in> set caps1. closed_later ?code r ?n"
      "\<And>p. ?n \<le> p \<Longrightarrow> p < length ?code \<Longrightarrow> instr_start ?code p \<Longrightarrow> insn_op (?code ! p) = LOP_CAPTURE \<Longrightarrow>
        insn_a (?code ! p) = LCT_REF \<Longrightarrow> closed_later ?code (insn_b (?code ! p)) p"
      using less.hyps [OF advance [OF True] c(2) instr_start_next [OF less.prems(2)]] by auto
    have now: "closed_later ?code r i" if "insn_op ?insn = LOP_CLOSEUPVALS" "insn_a ?insn \<le> r" for r
      using that True less.prems(2) by (auto simp: closed_later_def)
    have "closed_later ?code r i" if "r \<in> set caps" for r
      using that caps1 pop_captures_left [OF that, of "insn_a ?insn"] now IH(1) closed_later_mono [of ?code r ?n i]
      by (auto simp: Let_def split: if_splits)
    moreover have "closed_later ?code (insn_b (?code ! p)) p"
      if p: "i \<le> p" "p < length ?code" "instr_start ?code p" "insn_op (?code ! p) = LOP_CAPTURE" "insn_a (?code ! p) = LCT_REF" for p
    proof (cases "p = i")
      case True
      then have "insn_b (?code ! p) \<in> set caps1" using caps1 p(4,5) by (simp add: Let_def)
      then show ?thesis using IH(1) closed_later_mono [of ?code _ ?n p] True by auto
    next
      case False
      then have "?n \<le> p" using no_start_inside [OF less.prems(2) p(3)] p(1) by simp
      then show ?thesis using IH(2) p(2-5) by blast
    qed
    ultimately show ?thesis by blast
  qed
qed

section \<open>Validated code\<close>

lemma validated_instruction:
  assumes "validate_instructions b = Some ()" and "i < length (bb_insns b)" "instr_start (bb_insns b) i"
    and "length (bb_constants b) < 2 ^ 31"
  shows "operands_checked b (bb_functions b ! unat (bb_current_function b)) i"
    and "length (bb_protos b) < 2 ^ 31 \<Longrightarrow> closure_ok b i"
proof -
  let ?code = "bb_insns b" and ?func = "bb_functions b ! unat (bb_current_function b)"
  obtain valid where v: "tag_insns ?code 0 (replicate (length ?code) False) = Some valid"
      "validate_loop b ?func valid 0 [] = Some []"
    using assms(1) by (auto simp: validate_instructions_def bind_eq_Some_conv split: if_splits)
  note tag = tag_insns_correct [OF v(1)]
  obtain c c' where op: "validate_op b ?func valid i c = Some c'"
    using validate_loop_visits [OF v(2)] assms(2,3) by (metis instr_start_0 le0)
  have known: "insn_op (?code ! i) < LOP__COUNT" using tag(1) assms(2,3) by (auto simp: wf_code_def)
  show "operands_checked b ?func i" by (rule validate_op_operands [OF op known tag(2) assms(4)])
  show "closure_ok b i" if "length (bb_protos b) < 2 ^ 31" using validate_op_closure [OF op assms(4) that] known by blast
qed

text \<open>C6: code that \<open>validate_instructions\<close> accepts consists of whole instructions with known opcodes; every
  register, upvalue and constant operand is in range and of the type the instruction needs, every
  destination is the start of an instruction, every closure instruction names a function and is
  followed by its captures, and every capture by reference is closed further on. One operand is an exception: the
  second register of a comparison and of \<open>FASTCALL2\<close> is a word of its own, and is in range only modulo 256, hence in
  range when it fits a byte.\<close>

theorem validate_instructions_safe:
  assumes "validate_instructions b = Some ()" and "length (bb_constants b) < 2 ^ 31" and "length (bb_protos b) < 2 ^ 31"
  shows "wf_code (bb_insns b) \<and> unat (bb_current_function b) < length (bb_functions b) \<and>
    (\<forall>i < length (bb_insns b). instr_start (bb_insns b) i \<longrightarrow>
       operands_checked b (bb_functions b ! unat (bb_current_function b)) i \<and>
       (aux_reg_ok (bb_insns b) i \<longrightarrow> operands_ok b (bb_functions b ! unat (bb_current_function b)) i) \<and>
       closure_ok b i \<and>
       (insn_op (bb_insns b ! i) = LOP_CAPTURE \<and> insn_a (bb_insns b ! i) = LCT_REF \<longrightarrow>
          closed_later (bb_insns b) (insn_b (bb_insns b ! i)) i))"
proof -
  let ?code = "bb_insns b" and ?func = "bb_functions b ! unat (bb_current_function b)"
  obtain valid where v: "unat (bb_current_function b) < length (bb_functions b)"
    "tag_insns ?code 0 (replicate (length ?code) False) = Some valid" "validate_loop b ?func valid 0 [] = Some []"
    using assms(1) by (auto simp: validate_instructions_def bind_eq_Some_conv split: if_splits)
  show ?thesis
    using tag_insns_correct(1) [OF v(2)] v(1) validate_loop_closes [OF v(3)] validated_instruction [OF assms(1) _ _ assms(2)]
      operands_checked_ok assms(3) by auto
qed

text \<open>A function of two registers that compares them and returns one of them.\<close>

abbreviation example_builder :: "bytecode_builder \<Rightarrow> u32 list \<Rightarrow> bytecode_builder" where
  "example_builder b code \<equiv> b\<lparr>bb_insns := code, bb_constants := [], bb_protos := [], bb_current_function := 0,
     bb_functions := [bfunction_default\<lparr>fn_maxstacksize := 2\<rparr>]\<rparr>"

lemmas run_validate = validate_instructions_def tag_insns.simps validate_loop.simps validate_arms LuauOpcode_from_def
  getOpLength_def check_Some VREG_def VREGRANGE_def VJUMP_def insn_a_def insn_b_def insn_c_def bfunction_default_def word_fields

lemma example_validates:
  assumes "aux = 1 \<or> aux = 257"
  shows "validate_instructions (example_builder b [insn_ad LOP_JUMPIFEQ 0 1, aux, insn_abc LOP_RETURN 1 2 0]) = Some ()"
  using assms by (auto simp: run_validate)

theorem validate_instructions_safe_witness:
  "\<exists>b. validate_instructions b = Some () \<and> bb_insns b = [insn_ad LOP_JUMPIFEQ 0 1, 1, insn_abc LOP_RETURN 1 2 0] \<and>
     operands_ok b (bb_functions b ! 0) 0"
proof -
  fix b0 :: bytecode_builder
  let ?b = "example_builder b0 [insn_ad LOP_JUMPIFEQ 0 1, 1, insn_abc LOP_RETURN 1 2 0]"
  have "validate_instructions ?b = Some ()" by (rule example_validates) simp
  moreover have "aux_reg_ok (bb_insns ?b) 0" by (simp add: aux_reg_ok_def aux_registers_def)
  ultimately show ?thesis
    using validate_instructions_safe [of ?b] by (intro exI [of _ ?b]) simp
qed

text \<open>C33: the validator truncates the second register of a comparison to a byte: it accepts a function of
  two registers that compares register 0 with register 257.\<close>

theorem validate_truncates_register:
  "\<exists>b. validate_instructions b = Some () \<and> insn_op (bb_insns b ! 0) = LOP_JUMPIFEQ \<and> 257 \<in> insn_registers (bb_insns b) 0 \<and>
     unat (fn_maxstacksize (bb_functions b ! unat (bb_current_function b))) = 2"
proof -
  fix b0 :: bytecode_builder
  let ?b = "example_builder b0 [insn_ad LOP_JUMPIFEQ 0 1, 257, insn_abc LOP_RETURN 1 2 0]"
  have "validate_instructions ?b = Some ()" by (rule example_validates) simp
  then show ?thesis
    by (intro exI [of _ ?b]) (simp add: insn_registers_def word_fields bfunction_default_def)
qed

text \<open>C34: no function that divides with \<open>IDIV\<close> or \<open>IDIVK\<close>, the instructions the compiler emits for floor
  division, passes the validator.\<close>

theorem validate_refuses_floor_division:
  assumes "instr_start (bb_insns b) i" and "i < length (bb_insns b)" and "insn_op (bb_insns b ! i) \<in> {LOP_IDIV, LOP_IDIVK}"
  shows "validate_instructions b = None"
proof (rule ccontr)
  assume "validate_instructions b \<noteq> None"
  then obtain func valid where "validate_loop b func valid 0 [] = Some []"
    by (auto simp: validate_instructions_def bind_eq_Some_conv split: if_splits)
  then obtain c c' where "validate_op b func valid i c = Some c'"
    using validate_loop_visits assms(1,2) by (metis instr_start_0 le0)
  then show False using assms(3) by (auto simp: validate_arms)
qed

theorem validate_refuses_floor_division_witness:
  "\<exists>b. validate_instructions b = None \<and> bb_insns b = [insn_abc LOP_IDIV 0 0 1, insn_abc LOP_RETURN 0 2 0]"
proof -
  fix b0 :: bytecode_builder
  let ?b = "example_builder b0 [insn_abc LOP_IDIV 0 0 1, insn_abc LOP_RETURN 0 2 0]"
  show ?thesis
    using validate_refuses_floor_division [of ?b 0] by (intro exI [of _ ?b]) (simp add: word_fields)
qed

section \<open>Variadic results\<close>

function mark_targets :: "u32 list \<Rightarrow> nat \<Rightarrow> bool list \<Rightarrow> bool list option" where
  "mark_targets insns i insn_targets =
     (if i < length insns then do {
        op \<leftarrow> LuauOpcode_from (insn_op (insns ! i));
        let target = getJumpTarget (insns ! i) (word_of_nat i);
        insn_targets \<leftarrow> (if target \<ge> 0 \<and> \<not> isFastCall op then do {
          LUAU_ASSERT (nat target < length insns);
          update_checked insn_targets (nat target) True
        } else Some insn_targets);
        LUAU_ASSERT (i + getOpLength op \<le> length insns);
        mark_targets insns (i + getOpLength op) insn_targets
      } else Some insn_targets)"
  by pat_completeness auto
termination
  by (relation "measure (\<lambda>(insns, i, _). length insns - i)") (simp_all add: advance)

declare mark_targets.simps [simp del]

definition variadic_step :: "u32 list \<Rightarrow> bool list \<Rightarrow> nat \<Rightarrow> bool \<Rightarrow> bool option" where
  "variadic_step insns insn_targets i variadic_seq = do {
     let insn = insns ! i;
     op \<leftarrow> LuauOpcode_from (insn_op insn);
     LUAU_ASSERT (variadic_seq \<longrightarrow> \<not> insn_targets ! i);
     if op = LOP_CALL \<or> op = LOP_CALLFB then do {
       variadic_seq \<leftarrow> (if LUAU_INSN_B insn = 0 then do { LUAU_ASSERT variadic_seq; Some False }
                         else do { LUAU_ASSERT (\<not> variadic_seq); Some variadic_seq });
       if LUAU_INSN_C insn = 0 then do { LUAU_ASSERT (\<not> variadic_seq); Some True } else Some variadic_seq
     }
     else if op = LOP_GETVARARGS \<and> LUAU_INSN_B insn = 0 then do { LUAU_ASSERT (\<not> variadic_seq); Some True }
     else if (op = LOP_RETURN \<and> LUAU_INSN_B insn = 0) \<or> (op = LOP_SETLIST \<and> LUAU_INSN_C insn = 0) then do {
       LUAU_ASSERT variadic_seq; Some False }
     else if op = LOP_FASTCALL then do {
       let call_target = as_usize (wrap_i32 (int i + uint (LUAU_INSN_C insn) + 1));
       LUAU_ASSERT (call_target < length insns \<and> insn_op (insns ! call_target) = LOP_CALL);
       LUAU_ASSERT (if LUAU_INSN_B (insns ! call_target) = 0 then variadic_seq else \<not> variadic_seq);
       Some variadic_seq
     }
     else if op \<in> {LOP_CLOSEUPVALS, LOP_NAMECALL, LOP_GETIMPORT, LOP_MOVE, LOP_GETUPVAL, LOP_GETGLOBAL, LOP_GETTABLEKS,
       LOP_COVERAGE} then Some variadic_seq
     else do { LUAU_ASSERT (\<not> variadic_seq); Some variadic_seq }
   }"

function variadic_loop :: "u32 list \<Rightarrow> bool list \<Rightarrow> nat \<Rightarrow> bool \<Rightarrow> bool option" where
  "variadic_loop insns insn_targets i variadic_seq =
     (if i < length insns then do {
        variadic_seq \<leftarrow> variadic_step insns insn_targets i variadic_seq;
        LUAU_ASSERT (i + getOpLength (insn_op (insns ! i)) \<le> length insns);
        variadic_loop insns insn_targets (i + getOpLength (insn_op (insns ! i))) variadic_seq
      } else Some variadic_seq)"
  by pat_completeness auto
termination
  by (relation "measure (\<lambda>(insns, _, i, _). length insns - i)") (simp_all add: advance)

declare variadic_loop.simps [simp del]

definition validate_variadic :: "bytecode_builder \<Rightarrow> unit option" where
  "validate_variadic b = do {
     insn_targets \<leftarrow> mark_targets (bb_insns b) 0 (replicate (length (bb_insns b)) False);
     variadic_seq \<leftarrow> variadic_loop (bb_insns b) insn_targets 0 False;
     LUAU_ASSERT (\<not> variadic_seq)
   }"

definition validate :: "bytecode_builder \<Rightarrow> unit option" where
  "validate b = do { validate_instructions b; validate_variadic b }"

text \<open>An instruction that leaves its results up to the top of the stack, and one that takes them.\<close>

definition produces :: "u32 \<Rightarrow> bool" where
  "produces insn \<longleftrightarrow> insn_op insn \<in> {LOP_CALL, LOP_CALLFB} \<and> LUAU_INSN_C insn = 0 \<or>
     insn_op insn = LOP_GETVARARGS \<and> LUAU_INSN_B insn = 0"

definition consumes :: "u32 \<Rightarrow> bool" where
  "consumes insn \<longleftrightarrow> insn_op insn \<in> {LOP_CALL, LOP_CALLFB, LOP_RETURN} \<and> LUAU_INSN_B insn = 0 \<or>
     insn_op insn = LOP_SETLIST \<and> LUAU_INSN_C insn = 0"

definition jump_target :: "u32 list \<Rightarrow> nat \<Rightarrow> bool" where
  "jump_target code j \<longleftrightarrow> (\<exists>q < length code. instr_start code q \<and> \<not> isFastCall (insn_op (code ! q)) \<and>
     getJumpTarget (code ! q) (word_of_nat q) = int j)"

text \<open>Between \<open>i\<close> and \<open>c\<close> no results are produced or taken, and no jump enters up to \<open>c\<close>.\<close>

definition undisturbed :: "u32 list \<Rightarrow> nat \<Rightarrow> nat \<Rightarrow> bool" where
  "undisturbed code i c \<longleftrightarrow> (\<forall>j. i \<le> j \<longrightarrow> j \<le> c \<longrightarrow> instr_start code j \<longrightarrow>
     \<not> jump_target code j \<and> (j < c \<longrightarrow> \<not> produces (code ! j) \<and> \<not> consumes (code ! j)))"

definition feeds :: "u32 list \<Rightarrow> nat \<Rightarrow> nat \<Rightarrow> bool" where
  "feeds code p c \<longleftrightarrow> p < c \<and> c < length code \<and> instr_start code p \<and> instr_start code c \<and>
     produces (code ! p) \<and> consumes (code ! c) \<and> undisturbed code (p + 1) c"

lemma variadic_step_Some:
  "variadic_step insns targets i seq = Some seq' \<Longrightarrow>
    insn_op (insns ! i) < LOP__COUNT \<and> (seq \<longrightarrow> \<not> targets ! i) \<and> (consumes (insns ! i) \<longrightarrow> seq) \<and>
    (produces (insns ! i) \<and> \<not> consumes (insns ! i) \<longrightarrow> \<not> seq) \<and>
    seq' = (produces (insns ! i) \<or> seq \<and> \<not> consumes (insns ! i))"
  by (auto simp: variadic_step_def produces_def consumes_def LuauOpcode_from_def Let_def split: if_splits)

lemma mark_targets_marks:
  "mark_targets insns i v = Some v' \<Longrightarrow> instr_start insns i \<Longrightarrow> length v = length insns \<Longrightarrow>
    (\<forall>j < length insns. v ! j \<longrightarrow> v' ! j) \<and>
    (\<forall>q. instr_start insns q \<longrightarrow> i \<le> q \<longrightarrow> q < length insns \<longrightarrow> \<not> isFastCall (insn_op (insns ! q)) \<longrightarrow>
       getJumpTarget (insns ! q) (word_of_nat q) \<ge> 0 \<longrightarrow>
       nat (getJumpTarget (insns ! q) (word_of_nat q)) < length insns \<and> v' ! nat (getJumpTarget (insns ! q) (word_of_nat q)))"
proof (induction "length insns - i" arbitrary: i v rule: less_induct)
  case less
  let ?op = "insn_op (insns ! i)" and ?n = "i + getOpLength (insn_op (insns ! i))"
    and ?t = "getJumpTarget (insns ! i) (word_of_nat i)"
  show ?case
  proof (cases "i < length insns")
    case False
    then show ?thesis using less.prems by (subst (asm) mark_targets.simps) auto
  next
    case True
    let ?v = "if ?t \<ge> 0 \<and> \<not> isFastCall ?op then v[nat ?t := True] else v"
    have s: "mark_targets insns ?n ?v = Some v'" "?t \<ge> 0 \<Longrightarrow> \<not> isFastCall ?op \<Longrightarrow> nat ?t < length insns"
      using less.prems(1,3) True
      by (subst (asm) mark_targets.simps; auto simp: LuauOpcode_from_def Let_def split: if_splits)+
    have "length ?v = length insns" using less.prems(3) by simp
    note IH = less.hyps [OF advance [OF True] s(1) instr_start_next [OF less.prems(2)] this]
    have mono: "v' ! j" if "v ! j" "j < length insns" for j
      using IH that less.prems(3) by (cases "?t \<ge> 0 \<and> \<not> isFastCall ?op"; cases "j = nat ?t") auto
    have here: "v' ! nat ?t" if "?t \<ge> 0" "\<not> isFastCall ?op"
      using IH that s(2) less.prems(3) by auto
    have "?n \<le> q" if "instr_start insns q" "i \<le> q" "q \<noteq> i" for q
      using no_start_inside [OF less.prems(2) that(1)] that(2,3) by simp
    then show ?thesis using IH mono here s(2) by metis
  qed
qed

lemma undisturbed_next:
  assumes "instr_start code i" and "undisturbed code (i + getOpLength (insn_op (code ! i))) c"
  shows "undisturbed code (i + 1) c"
    and "\<not> jump_target code i \<Longrightarrow> \<not> produces (code ! i) \<Longrightarrow> \<not> consumes (code ! i) \<Longrightarrow> undisturbed code i c"
proof -
  have n: "i + getOpLength (insn_op (code ! i)) \<le> j" if "instr_start code j" "i < j" for j
    using no_start_inside [OF assms(1) that] .
  then show "undisturbed code (i + 1) c" using assms(2) by (simp add: undisturbed_def)
  show "undisturbed code i c" if "\<not> jump_target code i" "\<not> produces (code ! i)" "\<not> consumes (code ! i)"
    using assms(2) n that unfolding undisturbed_def by (metis le_neq_implies_less)
qed

lemma variadic_loop_pairs:
  assumes marks: "\<And>j. j < length code \<Longrightarrow> jump_target code j \<Longrightarrow> targets ! j"
  shows "variadic_loop code targets i seq = Some False \<Longrightarrow> instr_start code i \<Longrightarrow>
    (seq \<longrightarrow> (\<exists>c \<ge> i. c < length code \<and> instr_start code c \<and> consumes (code ! c) \<and> undisturbed code i c)) \<and>
    (\<forall>p \<ge> i. p < length code \<longrightarrow> instr_start code p \<longrightarrow> produces (code ! p) \<longrightarrow> (\<exists>c. feeds code p c)) \<and>
    (\<forall>c \<ge> i. c < length code \<longrightarrow> instr_start code c \<longrightarrow> consumes (code ! c) \<longrightarrow>
       seq \<and> undisturbed code i c \<or> (\<exists>p. feeds code p c))"
proof (induction "length code - i" arbitrary: i seq rule: less_induct)
  case less
  let ?insn = "code ! i" and ?n = "i + getOpLength (insn_op (code ! i))"
  show ?case
  proof (cases "i < length code")
    case False
    then show ?thesis using less.prems(1) by (subst (asm) variadic_loop.simps) simp
  next
    case True
    obtain seq1 where s: "variadic_step code targets i seq = Some seq1" "variadic_loop code targets ?n seq1 = Some False"
      using less.prems(1) True by (subst (asm) variadic_loop.simps) (auto simp: bind_eq_Some_conv split: if_splits)
    note st = variadic_step_Some [OF s(1)]
    have jt: "seq \<Longrightarrow> \<not> jump_target code i" using st marks True by blast
    note IH = less.hyps [OF advance [OF True] s(2) instr_start_next [OF less.prems(2)]]
    note und = undisturbed_next [OF less.prems(2)]
    have later: "?n \<le> j" if "instr_start code j" "i \<le> j" "j \<noteq> i" for j
      using no_start_inside [OF less.prems(2) that(1)] that(2,3) by simp
    have pos: "i < ?n" using getOpLength_pos [of "insn_op ?insn"] by simp
    have self: "\<not> jump_target code i \<Longrightarrow> undisturbed code i i" by (simp add: undisturbed_def)
    have fed: "feeds code i c" if "produces ?insn" "?n \<le> c" "c < length code" "instr_start code c" "consumes (code ! c)"
      "undisturbed code ?n c" for c
      using that und(1) pos less.prems(2) by (auto simp: feeds_def)
    have "\<exists>c \<ge> i. c < length code \<and> instr_start code c \<and> consumes (code ! c) \<and> undisturbed code i c" if seq
    proof (cases "consumes ?insn")
      case True
      then show ?thesis using self jt [OF that] \<open>i < length code\<close> less.prems(2) by blast
    next
      case False
      then have "\<not> produces ?insn" seq1 using st that by auto
      then obtain c where "?n \<le> c" "c < length code" "instr_start code c" "consumes (code ! c)" "undisturbed code ?n c"
        using IH by blast
      then show ?thesis using und(2) jt [OF that] False \<open>\<not> produces ?insn\<close> pos by (meson le_trans less_imp_le)
    qed
    moreover have "\<exists>c. feeds code p c" if p: "i \<le> p" "p < length code" "instr_start code p" "produces (code ! p)" for p
    proof (cases "p = i")
      case True
      then show ?thesis using IH st p(4) fed by blast
    qed (use IH later p in blast)
    moreover have "seq \<and> undisturbed code i c \<or> (\<exists>p. feeds code p c)"
      if c: "i \<le> c" "c < length code" "instr_start code c" "consumes (code ! c)" for c
    proof (cases "c = i")
      case True
      then show ?thesis using st c(4) self jt by blast
    next
      case False
      then have "seq1 \<and> undisturbed code ?n c \<or> (\<exists>p. feeds code p c)" using IH later c by blast
      then show ?thesis using st fed later c False und(2) jt by blast
    qed
    ultimately show ?thesis by blast
  qed
qed

text \<open>C32: in code that \<open>validate_variadic\<close> accepts, instructions that leave a variable number of results and
  instructions that take one come in pairs: between the two no other results are produced or taken, and no jump
  enters. No jump leads behind the end of the code either; a jump to before its start is none of the places between
  the two, passes this check, and is refused by \<open>validate_instructions\<close>: with both, no destination leaves the code.\<close>

theorem validate_variadic_pairs:
  assumes "validate_variadic b = Some ()"
  shows "(\<forall>i < length (bb_insns b). instr_start (bb_insns b) i \<longrightarrow>
       (consumes (bb_insns b ! i) \<longrightarrow> (\<exists>p. feeds (bb_insns b) p i)) \<and>
       (produces (bb_insns b ! i) \<longrightarrow> (\<exists>c. feeds (bb_insns b) i c))) \<and>
    (\<forall>j. jump_target (bb_insns b) j \<longrightarrow> j < length (bb_insns b)) \<and>
    (validate_instructions b = Some () \<longrightarrow> length (bb_constants b) < 2 ^ 31 \<longrightarrow> (\<forall>i < length (bb_insns b). instr_start (bb_insns b) i \<longrightarrow>
       (\<forall>d \<in> insn_destinations (bb_insns b) i. 0 \<le> d \<and> d < int (length (bb_insns b)))))"
proof -
  let ?code = "bb_insns b"
  obtain targets where v: "mark_targets ?code 0 (replicate (length ?code) False) = Some targets"
    "variadic_loop ?code targets 0 False = Some False"
    using assms by (auto simp: validate_variadic_def bind_eq_Some_conv split: if_splits)
  note m = mark_targets_marks [OF v(1)]
  have t: "j < length ?code \<and> targets ! j" if "jump_target ?code j" for j
    using that m unfolding jump_target_def by (metis instr_start_0 le0 length_replicate nat_int of_nat_0_le_iff)
  have "(\<forall>p < length ?code. instr_start ?code p \<longrightarrow> produces (?code ! p) \<longrightarrow> (\<exists>c. feeds ?code p c)) \<and>
    (\<forall>c < length ?code. instr_start ?code c \<longrightarrow> consumes (?code ! c) \<longrightarrow> (\<exists>p. feeds ?code p c))"
    using variadic_loop_pairs [of ?code targets 0 False] t v(2) by simp
  moreover have "0 \<le> d \<and> d < int (length ?code)"
    if "validate_instructions b = Some ()" "length (bb_constants b) < 2 ^ 31" "i < length ?code" "instr_start ?code i"
      "d \<in> insn_destinations ?code i" for i d
    using validated_instruction(1) [OF that(1,3,4,2)] that(5) unfolding operands_checked_def by fastforce
  ultimately show ?thesis using t by blast
qed

theorem validate_variadic_pairs_witness:
  "\<exists>b. validate_variadic b = Some () \<and> bb_insns b = [insn_abc LOP_GETVARARGS 0 0 0, insn_abc LOP_RETURN 0 0 0] \<and>
     (\<exists>c. feeds (bb_insns b) 0 c)"
proof -
  fix b0 :: bytecode_builder
  let ?b = "b0\<lparr>bb_insns := [insn_abc LOP_GETVARARGS 0 0 0, insn_abc LOP_RETURN 0 0 0]\<rparr>"
  have "validate_variadic ?b = Some ()"
    by (simp add: validate_variadic_def mark_targets.simps variadic_loop.simps variadic_step_def LuauOpcode_from_def
      getJumpTarget_def isJumpD_def isFastCall_def isSkipC_def getOpLength_def word_fields Let_def)
  then show ?thesis
    using validate_variadic_pairs [of ?b] by (intro exI [of _ ?b]) (simp add: produces_def word_fields)
qed

end
