(* ===== verification/Lexer.thy ===== *)
theory Lexer
  imports Luau_Prelude
begin

text \<open>
  The lexer of \<open>luaur-ast\<close>: \<open>records/lexer.rs\<close>, \<open>records/lexeme.rs\<close> and the \<open>methods/lexer_*.rs\<close> that
  move over the source and cut it into lexemes. Characters are bytes; the source is a byte list and
  a read behind its end, which in Rust is a raw pointer access, gives \<open>None\<close>. Offsets are natural
  numbers (a source is shorter than 4 GB), lines and columns 32-bit words. A name is interned as its
  bytes, and the name table is the map from names to their token types.

  Every operation moves the lexer by a number of single steps, each of which keeps the line and the
  start of the line up to date, so that positions are right, nothing behind the end is read and
  every lexeme but the last moves the lexer.
\<close>

section \<open>Positions and lexemes\<close>

record position =
  pos_line :: u32
  pos_column :: u32

record location =
  loc_begin :: position
  loc_end :: position

definition with_length :: "position \<Rightarrow> u32 \<Rightarrow> location" where
  "with_length begin n = \<lparr>loc_begin = begin, loc_end = \<lparr>pos_line = pos_line begin, pos_column = pos_column begin + n\<rparr>\<rparr>"

definition between :: "position \<Rightarrow> position \<Rightarrow> location" where
  "between begin end' = \<lparr>loc_begin = begin, loc_end = end'\<rparr>"

text \<open>\<open>Type\<close>: the values below 256 are the characters themselves.\<close>

type_synonym lextype = int

abbreviation Eof :: lextype where "Eof \<equiv> 0"
abbreviation Equal :: lextype where "Equal \<equiv> 257"
abbreviation LessEqual :: lextype where "LessEqual \<equiv> 258"
abbreviation GreaterEqual :: lextype where "GreaterEqual \<equiv> 259"
abbreviation NotEqual :: lextype where "NotEqual \<equiv> 260"
abbreviation Dot2 :: lextype where "Dot2 \<equiv> 261"
abbreviation Dot3 :: lextype where "Dot3 \<equiv> 262"
abbreviation SkinnyArrow :: lextype where "SkinnyArrow \<equiv> 263"
abbreviation DoubleColon :: lextype where "DoubleColon \<equiv> 264"
abbreviation FloorDiv :: lextype where "FloorDiv \<equiv> 265"
abbreviation InterpStringBegin :: lextype where "InterpStringBegin \<equiv> 266"
abbreviation InterpStringMid :: lextype where "InterpStringMid \<equiv> 267"
abbreviation InterpStringEnd :: lextype where "InterpStringEnd \<equiv> 268"
abbreviation InterpStringSimple :: lextype where "InterpStringSimple \<equiv> 269"
abbreviation AddAssign :: lextype where "AddAssign \<equiv> 270"
abbreviation SubAssign :: lextype where "SubAssign \<equiv> 271"
abbreviation MulAssign :: lextype where "MulAssign \<equiv> 272"
abbreviation DivAssign :: lextype where "DivAssign \<equiv> 273"
abbreviation FloorDivAssign :: lextype where "FloorDivAssign \<equiv> 274"
abbreviation ModAssign :: lextype where "ModAssign \<equiv> 275"
abbreviation PowAssign :: lextype where "PowAssign \<equiv> 276"
abbreviation ConcatAssign :: lextype where "ConcatAssign \<equiv> 277"
abbreviation RawString :: lextype where "RawString \<equiv> 278"
abbreviation QuotedString :: lextype where "QuotedString \<equiv> 279"
abbreviation LexNumber :: lextype where "LexNumber \<equiv> 280"
abbreviation LexName :: lextype where "LexName \<equiv> 281"
abbreviation LexComment :: lextype where "LexComment \<equiv> 282"
abbreviation BlockComment :: lextype where "BlockComment \<equiv> 283"
abbreviation Attribute :: lextype where "Attribute \<equiv> 284"
abbreviation AttributeOpen :: lextype where "AttributeOpen \<equiv> 285"
abbreviation BrokenString :: lextype where "BrokenString \<equiv> 286"
abbreviation BrokenComment :: lextype where "BrokenComment \<equiv> 287"
abbreviation BrokenUnicode :: lextype where "BrokenUnicode \<equiv> 288"
abbreviation BrokenInterpDoubleBrace :: lextype where "BrokenInterpDoubleBrace \<equiv> 289"
abbreviation Reserved_BEGIN :: lextype where "Reserved_BEGIN \<equiv> 291"
abbreviation Reserved_END :: lextype where "Reserved_END \<equiv> 312"

text \<open>The payload of a lexeme: a pointer into the source, a name (null when it is not in the table) or a
  code point.\<close>

datatype lexeme_data = NoData | DataAt nat | NameIs "bytes option" | Codepoint u32

record lexeme =
  lex_type :: lextype
  lex_location :: location
  lex_length :: u32
  lex_data :: lexeme_data

definition lexeme_new :: "location \<Rightarrow> lextype \<Rightarrow> lexeme" where
  "lexeme_new l t = \<lparr>lex_type = t, lex_location = l, lex_length = 0, lex_data = NoData\<rparr>"

definition lexeme_from_char :: "location \<Rightarrow> u8 \<Rightarrow> lexeme" where
  "lexeme_from_char l c = \<lparr>lex_type = uint c, lex_location = l, lex_length = 0, lex_data = NoData\<rparr>"

definition lexeme_with_data :: "location \<Rightarrow> lextype \<Rightarrow> nat \<Rightarrow> nat \<Rightarrow> lexeme option" where
  "lexeme_with_data l t start n = do {
     LUAU_ASSERT (t \<in> {RawString, QuotedString, InterpStringBegin, InterpStringMid, InterpStringEnd, InterpStringSimple,
       BrokenInterpDoubleBrace, LexNumber, LexComment, BlockComment});
     Some \<lparr>lex_type = t, lex_location = l, lex_length = word_of_nat n, lex_data = DataAt start\<rparr>
   }"

definition lexeme_with_name :: "location \<Rightarrow> lextype \<Rightarrow> bytes option \<Rightarrow> lexeme option" where
  "lexeme_with_name l t name = do {
     LUAU_ASSERT (t = LexName \<or> t = Attribute \<or> Reserved_BEGIN \<le> t \<and> t < Reserved_END);
     Some \<lparr>lex_type = t, lex_location = l, lex_length = 0, lex_data = NameIs name\<rparr>
   }"

section \<open>The state and its movement\<close>

datatype brace_type = InterpolatedString | NormalBrace

record lexer =
  lx_buffer :: bytes
  lx_offset :: nat
  lx_line :: u32
  lx_line_offset :: u32
  lx_lexeme :: lexeme
  lx_prev_location :: location
  lx_names :: "bytes \<Rightarrow> lextype option"
  lx_skip_comments :: bool
  lx_read_names :: bool
  lx_brace_stack :: "brace_type list"

definition is_newline :: "u8 \<Rightarrow> bool" where "is_newline ch \<longleftrightarrow> ch = 10"

definition is_space :: "u8 \<Rightarrow> bool" where
  "is_space ch \<longleftrightarrow> ch = 32 \<or> ch = 9 \<or> ch = 13 \<or> ch = 10 \<or> ch = 11 \<or> ch = 12"

definition is_alpha :: "u8 \<Rightarrow> bool" where "is_alpha ch \<longleftrightarrow> (ch OR 32) - 97 < 26"
definition is_digit :: "u8 \<Rightarrow> bool" where "is_digit ch \<longleftrightarrow> ch - 48 < 10"
definition is_hex_digit :: "u8 \<Rightarrow> bool" where "is_hex_digit ch \<longleftrightarrow> ch - 48 < 10 \<or> (ch OR 32) - 97 < 6"

definition peekch :: "lexer \<Rightarrow> u8" where
  "peekch lx = (if lx_offset lx < length (lx_buffer lx) then lx_buffer lx ! lx_offset lx else 0)"

definition peekch_ahead :: "lexer \<Rightarrow> nat \<Rightarrow> u8" where
  "peekch_ahead lx n = (if lx_offset lx + n < length (lx_buffer lx) then lx_buffer lx ! (lx_offset lx + n) else 0)"

definition lexer_position :: "lexer \<Rightarrow> position" where
  "lexer_position lx = \<lparr>pos_line = lx_line lx, pos_column = word_of_nat (lx_offset lx) - lx_line_offset lx\<rparr>"

definition consume :: "lexer \<Rightarrow> lexer option" where
  "consume lx = do {
     ch \<leftarrow> index_checked (lx_buffer lx) (lx_offset lx);
     LUAU_ASSERT (\<not> is_newline ch);
     Some (lx\<lparr>lx_offset := lx_offset lx + 1\<rparr>)
   }"

definition consume_any :: "lexer \<Rightarrow> lexer option" where
  "consume_any lx = do {
     ch \<leftarrow> index_checked (lx_buffer lx) (lx_offset lx);
     let lx = (if is_newline ch
       then lx\<lparr>lx_line := lx_line lx + 1, lx_line_offset := word_of_nat (lx_offset lx + 1)\<rparr> else lx);
     Some (lx\<lparr>lx_offset := lx_offset lx + 1\<rparr>)
   }"

text \<open>How much source is left.\<close>

definition left :: "lexer \<Rightarrow> nat" where "left lx = length (lx_buffer lx) - lx_offset lx"

text \<open>One step over any character, and what a number of steps leads to.\<close>

definition step :: "lexer \<Rightarrow> lexer" where
  "step lx = (if lx_buffer lx ! lx_offset lx = 10
     then lx\<lparr>lx_offset := lx_offset lx + 1, lx_line := lx_line lx + 1, lx_line_offset := word_of_nat (lx_offset lx + 1)\<rparr>
     else lx\<lparr>lx_offset := lx_offset lx + 1\<rparr>)"

definition moved :: "nat \<Rightarrow> lexer \<Rightarrow> lexer \<Rightarrow> bool" where
  "moved n lx lx' \<longleftrightarrow> lx' = (step ^^ n) lx \<and> lx_offset lx + n \<le> length (lx_buffer lx)"

lemma step_simps [simp]:
  "lx_buffer (step lx) = lx_buffer lx" "lx_offset (step lx) = lx_offset lx + 1" "lx_lexeme (step lx) = lx_lexeme lx"
  "lx_prev_location (step lx) = lx_prev_location lx" "lx_names (step lx) = lx_names lx"
  "lx_skip_comments (step lx) = lx_skip_comments lx" "lx_read_names (step lx) = lx_read_names lx"
  "lx_brace_stack (step lx) = lx_brace_stack lx"
  by (simp_all add: step_def)

lemma steps_simps [simp]:
  "lx_buffer ((step ^^ n) lx) = lx_buffer lx" "lx_offset ((step ^^ n) lx) = lx_offset lx + n"
  "lx_lexeme ((step ^^ n) lx) = lx_lexeme lx" "lx_prev_location ((step ^^ n) lx) = lx_prev_location lx"
  "lx_names ((step ^^ n) lx) = lx_names lx" "lx_skip_comments ((step ^^ n) lx) = lx_skip_comments lx"
  "lx_read_names ((step ^^ n) lx) = lx_read_names lx" "lx_brace_stack ((step ^^ n) lx) = lx_brace_stack lx"
  by (induction n) simp_all

lemma moved_0 [simp]: "lx_offset lx \<le> length (lx_buffer lx) \<Longrightarrow> moved 0 lx lx"
  by (simp add: moved_def)

lemma moved_trans: "moved n lx lx' \<Longrightarrow> moved m lx' lx'' \<Longrightarrow> moved (n + m) lx lx''"
  by (auto simp: moved_def funpow_add add.commute [of n m])

lemma moved_left: "moved n lx lx' \<Longrightarrow> left lx = n + left lx'"
  by (auto simp: moved_def left_def)

lemma consume_moved: "consume lx = Some lx' \<Longrightarrow> moved 1 lx lx'"
  by (auto simp: consume_def moved_def step_def is_newline_def bind_eq_Some_conv)

lemma consume_any_moved: "consume_any lx = Some lx' \<Longrightarrow> moved 1 lx lx'"
  by (auto simp: consume_any_def moved_def step_def is_newline_def Let_def bind_eq_Some_conv)

text \<open>The loops that skip characters.\<close>

function consume_while :: "(u8 \<Rightarrow> bool) \<Rightarrow> lexer \<Rightarrow> lexer option" where
  "consume_while p lx = (if p (peekch lx) then do { lx \<leftarrow> consume lx; consume_while p lx } else Some lx)"
  by pat_completeness auto
termination by (relation "measure (\<lambda>(p, lx). left lx)") (auto dest!: consume_moved moved_left)

function skip_spaces :: "lexer \<Rightarrow> lexer option" where
  "skip_spaces lx = (if is_space (peekch lx) then do { lx \<leftarrow> consume_any lx; skip_spaces lx } else Some lx)"
  by pat_completeness auto
termination by (relation "measure left") (auto dest!: consume_any_moved moved_left)

declare consume_while.simps [simp del] skip_spaces.simps [simp del]

definition at_line_end :: "u8 \<Rightarrow> bool" where "at_line_end ch \<longleftrightarrow> ch = 0 \<or> ch = 13 \<or> is_newline ch"

function skip_equals :: "int \<Rightarrow> lexer \<Rightarrow> (int \<times> lexer) option" where
  "skip_equals n lx = (if peekch lx = 61 then do { lx \<leftarrow> consume lx; skip_equals (n + 1) lx } else Some (n, lx))"
  by pat_completeness auto
termination by (relation "measure (\<lambda>(n, lx). left lx)") (auto dest!: consume_moved moved_left)

declare skip_equals.simps [simp del]

section \<open>What the loops do\<close>

text \<open>The source that is left, and the loops in terms of it.\<close>

definition rest :: "lexer \<Rightarrow> bytes" where "rest lx = drop (lx_offset lx) (lx_buffer lx)"

lemma peekch_rest: "peekch lx = (case rest lx of [] \<Rightarrow> 0 | c # _ \<Rightarrow> c)"
  by (cases "lx_offset lx < length (lx_buffer lx)") (simp_all add: peekch_def rest_def Cons_nth_drop_Suc [symmetric])

lemma peekch_ahead_rest: "peekch_ahead lx n = (if n < length (rest lx) then rest lx ! n else 0)"
  by (auto simp: peekch_ahead_def rest_def)

lemma rest_step [simp]: "rest (step lx) = tl (rest lx)"
  by (simp add: rest_def drop_Suc tl_drop)

lemma rest_steps: "rest ((step ^^ n) lx) = drop n (rest lx)"
  by (simp add: rest_def add.commute)

lemma consume_rest: "rest lx = c # cs \<Longrightarrow> c \<noteq> 10 \<Longrightarrow> consume lx = Some (step lx)"
  by (cases "lx_offset lx < length (lx_buffer lx)")
    (auto simp: consume_def step_def is_newline_def rest_def Cons_nth_drop_Suc [symmetric])

lemma consume_any_rest: "rest lx = c # cs \<Longrightarrow> consume_any lx = Some (step lx)"
  by (cases "lx_offset lx < length (lx_buffer lx)")
    (auto simp: consume_any_def step_def is_newline_def rest_def Let_def)

lemma steps_Suc: "(step ^^ Suc n) lx = (step ^^ n) (step lx)"
  by (simp add: funpow_swap1)

lemma consume_while_eq:
  assumes "\<And>c. p c \<Longrightarrow> c \<noteq> 0 \<and> c \<noteq> 10"
  shows "consume_while p lx = Some ((step ^^ length (takeWhile p (rest lx))) lx)"
proof (induction "rest lx" arbitrary: lx)
  case Nil
  then show ?case using assms [of 0] by (subst consume_while.simps) (auto simp: peekch_rest simp flip: Nil)
next
  case (Cons c cs)
  note r = Cons(2) [symmetric]
  have IH: "consume_while p (step lx) = Some ((step ^^ length (takeWhile p cs)) (step lx))"
    using Cons(1) [of "step lx"] r by simp
  show ?case
    using assms [of c] consume_rest [OF r]
    by (subst consume_while.simps) (simp add: peekch_rest r IH steps_Suc del: funpow.simps)
qed

lemma skip_spaces_eq: "skip_spaces lx = Some ((step ^^ length (takeWhile is_space (rest lx))) lx)"
proof (induction "rest lx" arbitrary: lx)
  case Nil
  then show ?case by (subst skip_spaces.simps) (simp add: peekch_rest is_space_def flip: Nil)
next
  case (Cons c cs)
  note r = Cons(2) [symmetric]
  have IH: "skip_spaces (step lx) = Some ((step ^^ length (takeWhile is_space cs)) (step lx))"
    using Cons(1) [of "step lx"] r by simp
  show ?case
    using consume_any_rest [OF r]
    by (subst skip_spaces.simps) (simp add: peekch_rest r IH steps_Suc del: funpow.simps)
qed

lemma skip_equals_eq:
  "skip_equals n lx = (let k = length (takeWhile (\<lambda>c. c = 61) (rest lx)) in Some (n + int k, (step ^^ k) lx))"
proof (induction "rest lx" arbitrary: lx n)
  case Nil
  then show ?case by (subst skip_equals.simps) (simp add: peekch_rest flip: Nil)
next
  case (Cons c cs)
  note r = Cons(2) [symmetric]
  let ?k = "length (takeWhile (\<lambda>c. c = 61) cs)"
  have IH: "skip_equals m (step lx) = Some (m + int ?k, (step ^^ ?k) (step lx))" for m
    using Cons(1) [of "step lx"] r by (simp add: Let_def)
  show ?case
    using consume_rest [OF r]
    by (subst skip_equals.simps) (simp add: peekch_rest r IH steps_Suc Let_def del: funpow.simps)
qed

section \<open>Comments and strings\<close>

definition skip_long_separator :: "lexer \<Rightarrow> (int \<times> lexer) option" where
  "skip_long_separator lx = do {
     let start = peekch lx;
     LUAU_ASSERT (start = 91 \<or> start = 93);
     lx \<leftarrow> consume lx;
     (n, lx) \<leftarrow> skip_equals 0 lx;
     Some (if start = peekch lx then n else - n - 1, lx)
   }"

definition equals :: "bytes \<Rightarrow> nat" where "equals cs = length (takeWhile (\<lambda>c. c = 61) cs)"

lemma skip_long_separator_eq:
  assumes "rest lx = c # cs" and "c = 91 \<or> c = 93"
  shows "skip_long_separator lx = Some (if equals cs < length cs \<and> cs ! equals cs = c then int (equals cs) else - int (equals cs) - 1,
    (step ^^ (equals cs + 1)) lx)"
proof -
  have "peekch ((step ^^ equals cs) (step lx)) = (if equals cs < length cs then cs ! equals cs else 0)"
    using assms(1) by (cases "drop (equals cs) cs") (auto simp: peekch_rest rest_steps nth_via_drop)
  moreover have "consume lx = Some (step lx)" using consume_rest [OF assms(1)] assms(2) by auto
  ultimately show ?thesis
    using assms by (auto simp: skip_long_separator_def skip_equals_eq peekch_rest [of lx] Let_def funpow_swap1 simp flip: equals_def)
qed

lemma skip_long_separator_left: "skip_long_separator lx = Some (s, lx') \<Longrightarrow> left lx' < left lx"
proof (cases "rest lx")
  case (Cons c cs)
  assume r: "skip_long_separator lx = Some (s, lx')"
  then have "c = 91 \<or> c = 93" using Cons by (auto simp: skip_long_separator_def peekch_rest split: if_splits)
  then have "lx' = (step ^^ (equals cs + 1)) lx" using r skip_long_separator_eq [OF Cons] by simp
  moreover have "lx_offset lx < length (lx_buffer lx)" using Cons by (auto simp: rest_def intro: ccontr)
  ultimately show ?thesis by (simp add: left_def del: funpow.simps)
qed (simp add: skip_long_separator_def peekch_rest)

function long_string_loop :: "int \<Rightarrow> lexer \<Rightarrow> (bool \<times> lexer) option" where
  "long_string_loop sep lx =
     (if peekch lx \<noteq> 0 then
        if peekch lx = 93 then do {
          (s, lx) \<leftarrow> skip_long_separator lx;
          if s = sep then do {
            LUAU_ASSERT (peekch lx = 93);
            lx \<leftarrow> consume lx;
            Some (True, lx)
          } else long_string_loop sep lx
        } else do { lx \<leftarrow> consume_any lx; long_string_loop sep lx }
      else Some (False, lx))"
  by pat_completeness auto
termination
  by (relation "measure (\<lambda>(sep, lx). left lx)") (auto dest!: consume_any_moved moved_left skip_long_separator_left)

definition read_long_string :: "position \<Rightarrow> int \<Rightarrow> lextype \<Rightarrow> lextype \<Rightarrow> lexer \<Rightarrow> (lexeme \<times> lexer) option" where
  "read_long_string start sep ok broken lx = do {
     LUAU_ASSERT (peekch lx = 91);
     lx \<leftarrow> consume lx;
     let start_offset = lx_offset lx;
     (closed, lx) \<leftarrow> long_string_loop sep lx;
     if closed then do {
       let end_offset = int (lx_offset lx) - sep - 2;
       LUAU_ASSERT (end_offset \<ge> int start_offset);
       lexeme \<leftarrow> lexeme_with_data (between start (lexer_position lx)) ok start_offset (nat end_offset - start_offset);
       Some (lexeme, lx)
     } else Some (lexeme_new (between start (lexer_position lx)) broken, lx)
   }"

definition read_comment_body :: "lexer \<Rightarrow> (lexeme \<times> lexer) option" where
  "read_comment_body lx = do {
     let start = lexer_position lx;
     LUAU_ASSERT (peekch_ahead lx 0 = 45 \<and> peekch_ahead lx 1 = 45);
     lx \<leftarrow> consume lx;
     lx \<leftarrow> consume lx;
     let start_offset = lx_offset lx;
     (sep, lx) \<leftarrow> (if peekch lx = 91 then skip_long_separator lx else Some (- 1, lx));
     if sep \<ge> 0 then read_long_string start sep BlockComment BrokenComment lx
     else do {
       lx \<leftarrow> consume_while (\<lambda>ch. \<not> at_line_end ch) lx;
       lexeme \<leftarrow> lexeme_with_data (between start (lexer_position lx)) LexComment start_offset (lx_offset lx - start_offset);
       Some (lexeme, lx)
     }
   }"

definition read_backslash_in_string :: "lexer \<Rightarrow> lexer option" where
  "read_backslash_in_string lx = do {
     LUAU_ASSERT (peekch lx = 92);
     lx \<leftarrow> consume lx;
     if peekch lx = 13 then do {
       lx \<leftarrow> consume lx;
       if peekch lx = 10 then consume_any lx else Some lx
     }
     else if peekch lx = 0 then Some lx
     else if peekch lx = 122 then do { lx \<leftarrow> consume lx; skip_spaces lx }
     else consume_any lx
   }"

lemma steps_3: "(step ^^ 3) lx = step (step (step lx))" "(step ^^ 2) lx = step (step lx)"
  by (simp_all add: numeral_3_eq_3 numeral_2_eq_2)

text \<open>The length of an escape sequence, after its backslash.\<close>

definition escape_length :: "bytes \<Rightarrow> nat" where
  "escape_length cs = (case cs of [] \<Rightarrow> 0
     | c # ds \<Rightarrow> if c = 13 then (if ds \<noteq> [] \<and> hd ds = 10 then 2 else 1)
                 else if c = 0 then 0
                 else if c = 122 then 1 + length (takeWhile is_space ds)
                 else 1)"

lemma escape_length_le: "escape_length cs \<le> length cs"
  using length_takeWhile_le [of is_space "tl cs"] by (auto simp: escape_length_def neq_Nil_conv split: list.splits)

lemma read_backslash_eq:
  assumes "rest lx = 92 # cs"
  shows "read_backslash_in_string lx = Some ((step ^^ (escape_length cs + 1)) lx)"
proof (cases cs)
  case Nil
  then show ?thesis
    using assms consume_rest [OF assms] by (simp add: read_backslash_in_string_def escape_length_def peekch_rest)
next
  case (Cons c ds)
  have r: "rest (step lx) = c # ds" "rest (step (step lx)) = ds" using assms Cons by simp_all
  have c1: "consume lx = Some (step lx)" using consume_rest [OF assms] by simp
  note unfold = read_backslash_in_string_def peekch_rest assms c1 r Cons
  consider "c = 13" "ds \<noteq> []" "hd ds = 10" | "c = 13" "\<not> (ds \<noteq> [] \<and> hd ds = 10)" | "c = 0" | "c = 122"
    | "c \<noteq> 13" "c \<noteq> 0" "c \<noteq> 122" by blast
  then show ?thesis
  proof cases
    case 1
    then obtain es where "ds = 10 # es" by (cases ds) auto
    then have "escape_length cs = 2" "consume_any (step (step lx)) = Some (step (step (step lx)))"
      using Cons 1 consume_any_rest r(2) by (auto simp: escape_length_def)
    then show ?thesis
      using 1 consume_rest [OF r(1)] \<open>ds = 10 # es\<close> by (simp add: unfold steps_3)
  next
    case 2
    then have "escape_length cs = 1" using Cons by (simp add: escape_length_def)
    then show ?thesis using 2 consume_rest [OF r(1)] by (cases ds) (simp_all add: unfold)
  next
    case 3
    then have "escape_length cs = 0" using Cons by (simp add: escape_length_def)
    then show ?thesis using 3 by (simp add: unfold)
  next
    case 4
    then have "escape_length cs = 1 + length (takeWhile is_space ds)" using Cons by (simp add: escape_length_def)
    then show ?thesis using 4 consume_rest [OF r(1)] by (simp add: unfold skip_spaces_eq funpow_swap1)
  next
    case 5
    then have "escape_length cs = 1" using Cons by (simp add: escape_length_def)
    then show ?thesis using 5 consume_any_rest [OF r(1)] by (simp add: unfold)
  qed
qed

text \<open>\<open>]==]\<close> with \<open>s\<close> equals signs, and the first one in a text.\<close>

definition closes :: "nat \<Rightarrow> bytes \<Rightarrow> bool" where
  "closes s cs \<longleftrightarrow> (\<exists>ds. cs = 93 # replicate s 61 @ 93 # ds)"

lemma equals_replicate: "take (equals cs) cs = replicate (equals cs) 61"
proof -
  have "take (equals cs) cs = takeWhile (\<lambda>c. c = 61) cs" by (simp add: equals_def takeWhile_eq_take [symmetric])
  moreover have "set (takeWhile (\<lambda>c. c = 61) cs) \<subseteq> {61}" by (auto dest: set_takeWhileD)
  ultimately show ?thesis by (metis equals_def replicate_length_same singletonD subsetD)
qed

lemma closes_iff: "closes s (93 # cs) \<longleftrightarrow> equals cs = s \<and> s < length cs \<and> cs ! s = 93"
proof
  assume "closes s (93 # cs)"
  then obtain ds where cs: "cs = replicate s 61 @ 93 # ds" by (auto simp: closes_def)
  then have "takeWhile (\<lambda>c. c = 61) cs = replicate s 61" by (simp, subst takeWhile_append2) auto
  then show "equals cs = s \<and> s < length cs \<and> cs ! s = 93" using cs by (simp add: equals_def nth_append)
next
  assume r: "equals cs = s \<and> s < length cs \<and> cs ! s = 93"
  then have "cs = take s cs @ 93 # drop (Suc s) cs" by (metis id_take_nth_drop)
  then show "closes s (93 # cs)" using equals_replicate [of cs] r by (auto simp: closes_def intro!: exI [of _ "drop (Suc s) cs"])
qed

lemma closes_head: "cs = [] \<or> hd cs \<noteq> 93 \<Longrightarrow> \<not> closes s cs"
  by (auto simp: closes_def)

lemma closes_inside:
  assumes "j < equals cs" shows "\<not> closes s (drop j cs)"
proof -
  have "j < length cs" using assms by (metis equals_def le_trans length_takeWhile_le not_le)
  moreover have "cs ! j = 61" using assms nth_length_takeWhile by (metis equals_replicate nth_replicate nth_take)
  ultimately show ?thesis by (intro closes_head) (simp add: hd_drop_conv_nth)
qed

declare long_string_loop.simps [simp del]

lemma long_string_loop_eq:
  assumes "0 \<le> sep"
  shows "(\<exists>m. long_string_loop sep lx = Some (True, (step ^^ (m + nat sep + 2)) lx) \<and> m + nat sep + 2 \<le> length (rest lx) \<and>
      closes (nat sep) (drop m (rest lx)) \<and> (\<forall>j < m. \<not> closes (nat sep) (drop j (rest lx)))) \<or>
    (\<exists>n. long_string_loop sep lx = Some (False, (step ^^ n) lx) \<and> n \<le> length (rest lx) \<and>
      (n < length (rest lx) \<longrightarrow> rest lx ! n = 0) \<and> (\<forall>j < n. \<not> closes (nat sep) (drop j (rest lx))))"
    (is "?P lx")
proof (induction "length (rest lx)" arbitrary: lx rule: less_induct)
  case less
  have extend: "?P lx" if k: "long_string_loop sep lx = long_string_loop sep ((step ^^ k) lx)" "k \<le> length (rest lx)"
      "?P ((step ^^ k) lx)" "\<And>j. j < k \<Longrightarrow> \<not> closes (nat sep) (drop j (rest lx))" for k
  proof -
    have steps: "(step ^^ n) ((step ^^ k) lx) = (step ^^ (k + n)) lx" for n by (simp add: funpow_add add.commute [of k])
    have before: "\<forall>j < k + m. \<not> closes (nat sep) (drop j (rest lx))" if "\<forall>j < m. \<not> closes (nat sep) (drop (k + j) (rest lx))" for m
      using that k(4) by (metis add_diff_inverse_nat nat_add_left_cancel_less)
    from k(3) show ?thesis
    proof (elim disjE exE)
      fix m assume "long_string_loop sep ((step ^^ k) lx) = Some (True, (step ^^ (m + nat sep + 2)) ((step ^^ k) lx)) \<and>
        m + nat sep + 2 \<le> length (rest ((step ^^ k) lx)) \<and> closes (nat sep) (drop m (rest ((step ^^ k) lx))) \<and>
        (\<forall>j < m. \<not> closes (nat sep) (drop j (rest ((step ^^ k) lx))))"
      then show ?thesis
        using k(1,2) before [of m] unfolding steps rest_steps
        by (intro disjI1 exI [of _ "k + m"]) (auto simp: add.assoc add.commute [of k])
    next
      fix n assume "long_string_loop sep ((step ^^ k) lx) = Some (False, (step ^^ n) ((step ^^ k) lx)) \<and>
        n \<le> length (rest ((step ^^ k) lx)) \<and> (n < length (rest ((step ^^ k) lx)) \<longrightarrow> rest ((step ^^ k) lx) ! n = 0) \<and>
        (\<forall>j < n. \<not> closes (nat sep) (drop j (rest ((step ^^ k) lx))))"
      then show ?thesis
        using k(1,2) before [of n] unfolding steps rest_steps
        by (intro disjI2 exI [of _ "k + n"]) (auto simp: add.commute [of k])
    qed
  qed
  show ?case
  proof (cases "rest lx")
    case Nil
    then show ?thesis by (subst (2) long_string_loop.simps) (auto simp: long_string_loop.simps peekch_rest)
  next
    case (Cons c cs)
    note IH = less [of "(step ^^ k) lx" for k]
    consider "c = 0" | "c = 93" "equals cs = nat sep" "equals cs < length cs" "cs ! equals cs = 93"
      | "c = 93" "\<not> closes (nat sep) (93 # cs)" | "c \<noteq> 0" "c \<noteq> 93" using closes_iff [of "nat sep" cs] by auto
    then show ?thesis
    proof cases
      case 1
      then have "long_string_loop sep lx = Some (False, lx)" using Cons by (subst long_string_loop.simps) (simp add: peekch_rest)
      then show ?thesis using Cons 1 by (intro disjI2 exI [of _ 0]) simp
    next
      case 2
      let ?lx = "(step ^^ (equals cs + 1)) lx"
      have s: "skip_long_separator lx = Some (sep, ?lx)" using skip_long_separator_eq [OF Cons] 2 assms by simp
      have r: "rest ?lx = 93 # drop (equals cs + 1) cs"
        using Cons 2 by (simp add: rest_steps Cons_nth_drop_Suc [symmetric] del: funpow.simps)
      have "long_string_loop sep lx = Some (True, step ?lx)"
        using Cons 2 s r consume_rest [OF r] by (subst long_string_loop.simps) (simp add: peekch_rest del: funpow.simps)
      moreover have "step ?lx = (step ^^ (0 + nat sep + 2)) lx" using 2(2) by (simp add: numeral_2_eq_2)
      ultimately show ?thesis
        using 2 Cons closes_iff [of "nat sep" cs] by (intro disjI1 exI [of _ 0]) simp
    next
      case 3
      let ?k = "equals cs + 1"
      have s: "\<exists>s. skip_long_separator lx = Some (s, (step ^^ ?k) lx) \<and> s \<noteq> sep"
        using skip_long_separator_eq [OF Cons] 3 assms closes_iff [of "nat sep" cs] by (auto simp del: funpow.simps)
      then have "long_string_loop sep lx = long_string_loop sep ((step ^^ ?k) lx)"
        using Cons 3 by (subst long_string_loop.simps) (auto simp: peekch_rest simp del: funpow.simps)
      moreover have "?k \<le> length (rest lx)" using Cons by (simp add: equals_def length_takeWhile_le)
      moreover have "?P ((step ^^ ?k) lx)" using Cons by (intro IH) (simp add: rest_steps del: funpow.simps)
      moreover have "\<not> closes (nat sep) (drop j (rest lx))" if "j < ?k" for j
        using that 3 Cons closes_inside [of "j - 1" cs "nat sep"] by (cases j) auto
      ultimately show ?thesis by (rule extend)
    next
      case 4
      then have "long_string_loop sep lx = long_string_loop sep ((step ^^ 1) lx)"
        using Cons consume_any_rest [OF Cons] by (subst long_string_loop.simps) (simp add: peekch_rest)
      moreover have "?P ((step ^^ 1) lx)" using Cons by (intro IH) (simp add: rest_steps del: funpow.simps)
      ultimately show ?thesis using Cons 4 closes_head [of "c # cs" "nat sep"] by (intro extend [of 1]) auto
    qed
  qed
qed

lemma read_backslash_left: "read_backslash_in_string lx = Some lx' \<Longrightarrow> left lx' < left lx"
proof (cases "rest lx")
  case (Cons c cs)
  assume r: "read_backslash_in_string lx = Some lx'"
  then have "c = 92" using Cons by (auto simp: read_backslash_in_string_def peekch_rest split: if_splits)
  then have "lx' = (step ^^ (escape_length cs + 1)) lx" using r read_backslash_eq [of lx cs] Cons by simp
  moreover have "lx_offset lx < length (lx_buffer lx)" using Cons by (auto simp: rest_def intro: ccontr)
  ultimately show ?thesis by (simp add: left_def del: funpow.simps)
qed (simp add: read_backslash_in_string_def peekch_rest)

function quoted_loop :: "u8 \<Rightarrow> lexer \<Rightarrow> (bool \<times> lexer) option" where
  "quoted_loop delimiter lx =
     (if peekch lx \<noteq> delimiter then
        if peekch lx \<in> {0, 13, 10} then Some (False, lx)
        else if peekch lx = 92 then do { lx \<leftarrow> read_backslash_in_string lx; quoted_loop delimiter lx }
        else do { lx \<leftarrow> consume lx; quoted_loop delimiter lx }
      else Some (True, lx))"
  by pat_completeness auto
termination
  by (relation "measure (\<lambda>(d, lx). left lx)") (auto dest!: consume_moved moved_left read_backslash_left)

declare quoted_loop.simps [simp del]

definition read_quoted_string :: "lexer \<Rightarrow> (lexeme \<times> lexer) option" where
  "read_quoted_string lx = do {
     let start = lexer_position lx;
     let delimiter = peekch lx;
     LUAU_ASSERT (delimiter = 39 \<or> delimiter = 34);
     lx \<leftarrow> consume lx;
     let start_offset = lx_offset lx;
     (closed, lx) \<leftarrow> quoted_loop delimiter lx;
     if closed then do {
       lx \<leftarrow> consume lx;
       lexeme \<leftarrow> lexeme_with_data (between start (lexer_position lx)) QuotedString start_offset (lx_offset lx - start_offset - 1);
       Some (lexeme, lx)
     } else Some (lexeme_new (between start (lexer_position lx)) BrokenString, lx)
   }"

datatype interp_stop = AtEnd | AtBrace | AtBroken

function interp_loop :: "lexer \<Rightarrow> (interp_stop \<times> lexer) option" where
  "interp_loop lx =
     (if peekch lx \<noteq> 96 then
        if peekch lx \<in> {0, 13, 10} then Some (AtBroken, lx)
        else if peekch lx = 92 then
          if peekch_ahead lx 1 = 117 \<and> peekch_ahead lx 2 = 123 then do {
            lx \<leftarrow> consume lx; lx \<leftarrow> consume lx; lx \<leftarrow> consume lx;
            interp_loop lx
          } else do { lx \<leftarrow> read_backslash_in_string lx; interp_loop lx }
        else if peekch lx = 123 then Some (AtBrace, lx)
        else do { lx \<leftarrow> consume lx; interp_loop lx }
      else Some (AtEnd, lx))"
  by pat_completeness auto
termination
  by (relation "measure left") (auto dest!: consume_moved moved_left read_backslash_left)

declare interp_loop.simps [simp del]

definition read_interpolated_string_section :: "position \<Rightarrow> lextype \<Rightarrow> lextype \<Rightarrow> lexer \<Rightarrow> (lexeme \<times> lexer) option" where
  "read_interpolated_string_section start format_type end_type lx = do {
     let start_offset = lx_offset lx;
     (stop, lx) \<leftarrow> interp_loop lx;
     case stop of
       AtBroken \<Rightarrow> Some (lexeme_new (between start (lexer_position lx)) BrokenString, lx)
     | AtBrace \<Rightarrow> do {
         let lx = lx\<lparr>lx_brace_stack := lx_brace_stack lx @ [InterpolatedString]\<rparr>;
         if peekch_ahead lx 1 = 123 then do {
           broken_double_brace \<leftarrow> lexeme_with_data (between start (lexer_position lx)) BrokenInterpDoubleBrace start_offset
             (lx_offset lx - start_offset);
           lx \<leftarrow> consume lx;
           lx \<leftarrow> consume lx;
           Some (broken_double_brace, lx)
         } else do {
           lx \<leftarrow> consume lx;
           lexeme \<leftarrow> lexeme_with_data (between start (lexer_position lx)) format_type start_offset (lx_offset lx - start_offset - 1);
           Some (lexeme, lx)
         }
       }
     | AtEnd \<Rightarrow> do {
         lx \<leftarrow> consume lx;
         lexeme \<leftarrow> lexeme_with_data (between start (lexer_position lx)) end_type start_offset (lx_offset lx - start_offset - 1);
         Some (lexeme, lx)
       }
   }"

definition read_interpolated_string_begin :: "lexer \<Rightarrow> (lexeme \<times> lexer) option" where
  "read_interpolated_string_begin lx = do {
     LUAU_ASSERT (peekch lx = 96);
     let start = lexer_position lx;
     lx \<leftarrow> consume lx;
     read_interpolated_string_section start InterpStringBegin InterpStringSimple lx
   }"

section \<open>Numbers, names and broken characters\<close>

definition read_number :: "position \<Rightarrow> nat \<Rightarrow> lexer \<Rightarrow> (lexeme \<times> lexer) option" where
  "read_number start start_offset lx = do {
     LUAU_ASSERT (is_digit (peekch lx));
     lx \<leftarrow> consume lx;
     lx \<leftarrow> consume_while (\<lambda>ch. is_digit ch \<or> ch = 46 \<or> ch = 95) lx;
     lx \<leftarrow> (if peekch lx = 101 \<or> peekch lx = 69 then do {
       lx \<leftarrow> consume lx;
       if peekch lx = 43 \<or> peekch lx = 45 then consume lx else Some lx
     } else Some lx);
     lx \<leftarrow> consume_while (\<lambda>ch. is_alpha ch \<or> is_digit ch \<or> ch = 95) lx;
     lexeme \<leftarrow> lexeme_with_data (between start (lexer_position lx)) LexNumber start_offset (lx_offset lx - start_offset);
     Some (lexeme, lx)
   }"

text \<open>The name table: the reserved words, and the names met so far.\<close>

definition kReserved :: "bytes list" where
  "kReserved = map (map of_char) [''and'', ''break'', ''do'', ''else'', ''elseif'', ''end'', ''false'', ''for'', ''function'', ''if'',
     ''in'', ''local'', ''nil'', ''not'', ''or'', ''repeat'', ''return'', ''then'', ''true'', ''until'', ''while'']"

definition name_table_new :: "bytes \<Rightarrow> lextype option" where
  "name_table_new = map_of (zip kReserved [Reserved_BEGIN..Reserved_END - 1])"

definition get_or_add_with_type :: "bytes \<Rightarrow> (bytes \<Rightarrow> lextype option) \<Rightarrow> (bytes option \<times> lextype) \<times> (bytes \<Rightarrow> lextype option)" where
  "get_or_add_with_type name names =
     (case names name of
        Some t \<Rightarrow> ((Some name, t), names)
      | None \<Rightarrow> let t = (if hd name = 64 then Attribute else LexName) in ((Some name, t), names(name \<mapsto> t)))"

definition get_with_type :: "bytes \<Rightarrow> (bytes \<Rightarrow> lextype option) \<Rightarrow> bytes option \<times> lextype" where
  "get_with_type name names = (case names name of Some t \<Rightarrow> (Some name, t) | None \<Rightarrow> (None, LexName))"

definition is_ident :: "u8 \<Rightarrow> bool" where
  "is_ident ch \<longleftrightarrow> is_alpha ch \<or> is_digit ch \<or> ch = 95"

definition read_name :: "lexer \<Rightarrow> ((bytes option \<times> lextype) \<times> lexer) option" where
  "read_name lx = do {
     LUAU_ASSERT (is_alpha (peekch lx) \<or> peekch lx = 95 \<or> peekch lx = 64);
     let start_offset = lx_offset lx;
     lx \<leftarrow> consume lx;
     lx \<leftarrow> consume_while is_ident lx;
     let name = take (lx_offset lx - start_offset) (drop start_offset (lx_buffer lx));
     if lx_read_names lx then
       let (result, names) = get_or_add_with_type name (lx_names lx) in Some (result, lx\<lparr>lx_names := names\<rparr>)
     else Some (get_with_type name (lx_names lx), lx)
   }"

fun utf_8_tail :: "nat \<Rightarrow> u32 \<Rightarrow> lexer \<Rightarrow> (u32 option \<times> lexer) option" where
  "utf_8_tail 0 codepoint lx = Some (Some codepoint, lx)"
| "utf_8_tail (Suc n) codepoint lx =
     (if peekch lx AND 0xC0 \<noteq> 0x80 then Some (None, lx)
      else do {
        let codepoint = push_bit 6 codepoint OR ucast (peekch lx AND 0x3F);
        lx \<leftarrow> consume lx;
        utf_8_tail n codepoint lx
      })"

definition read_utf_8_error :: "lexer \<Rightarrow> (lexeme \<times> lexer) option" where
  "read_utf_8_error lx = do {
     let start = lexer_position lx;
     let ch = peekch lx;
     let (n, codepoint) =
       (if ch AND 0x80 = 0 then (1, ch AND 0x7F)
        else if ch AND 0xE0 = 0xC0 then (2, ch AND 0x1F)
        else if ch AND 0xF0 = 0xE0 then (3, ch AND 0xF)
        else if ch AND 0xF8 = 0xF0 then (4, ch AND 0x7)
        else (0, 0));
     lx \<leftarrow> consume lx;
     if n = 0 then Some (lexeme_new (between start (lexer_position lx)) BrokenUnicode, lx)
     else do {
       (cp, lx) \<leftarrow> utf_8_tail (n - 1) (ucast codepoint) lx;
       let lexeme = lexeme_new (between start (lexer_position lx)) BrokenUnicode;
       case cp of None \<Rightarrow> Some (lexeme, lx) | Some cp \<Rightarrow> Some (lexeme\<lparr>lex_data := Codepoint cp\<rparr>, lx)
     }
   }"

section \<open>The next lexeme\<close>

text \<open>The arms of \<open>read_next\<close>: a character that may be followed by another, and the other operators.\<close>

definition read_pair :: "u8 \<Rightarrow> u8 \<Rightarrow> lextype \<Rightarrow> lexer \<Rightarrow> (lexeme \<times> lexer) option" where
  "read_pair first second pair lx = do {
     let start = lexer_position lx;
     lx \<leftarrow> consume lx;
     if peekch lx = second then do {
       lx \<leftarrow> consume lx;
       Some (lexeme_new (with_length start 2) pair, lx)
     } else Some (lexeme_from_char (with_length start 1) first, lx)
   }"

definition read_operator :: "lexer \<Rightarrow> (lexeme \<times> lexer) option" where
  "read_operator lx =
     (let start = lexer_position lx; ch = peekch lx in
      if ch = 61 then read_pair 61 61 Equal lx
      else if ch = 60 then read_pair 60 61 LessEqual lx
      else if ch = 62 then read_pair 62 61 GreaterEqual lx
      else if ch = 126 then read_pair 126 61 NotEqual lx
      else if ch = 46 then do {
        lx \<leftarrow> consume lx;
        if peekch lx = 46 then do {
          lx \<leftarrow> consume lx;
          if peekch lx = 46 then do { lx \<leftarrow> consume lx; Some (lexeme_new (with_length start 3) Dot3, lx) }
          else if peekch lx = 61 then do { lx \<leftarrow> consume lx; Some (lexeme_new (with_length start 3) ConcatAssign, lx) }
          else Some (lexeme_new (with_length start 2) Dot2, lx)
        }
        else if is_digit (peekch lx) then read_number start (lx_offset lx - 1) lx
        else Some (lexeme_from_char (with_length start 1) 46, lx)
      }
      else if ch = 43 then read_pair 43 61 AddAssign lx
      else if ch = 47 then do {
        lx \<leftarrow> consume lx;
        if peekch lx = 61 then do { lx \<leftarrow> consume lx; Some (lexeme_new (with_length start 2) DivAssign, lx) }
        else if peekch lx = 47 then do {
          lx \<leftarrow> consume lx;
          if peekch lx = 61 then do { lx \<leftarrow> consume lx; Some (lexeme_new (with_length start 3) FloorDivAssign, lx) }
          else Some (lexeme_new (with_length start 2) FloorDiv, lx)
        }
        else Some (lexeme_from_char (with_length start 1) 47, lx)
      }
      else if ch = 42 then read_pair 42 61 MulAssign lx
      else if ch = 37 then read_pair 37 61 ModAssign lx
      else if ch = 94 then read_pair 94 61 PowAssign lx
      else if ch = 58 then read_pair 58 58 DoubleColon lx
      else do {
        lx \<leftarrow> consume lx;
        Some (lexeme_from_char (with_length start 1) ch, lx)
      })"

definition read_attribute :: "lexer \<Rightarrow> (lexeme \<times> lexer) option" where
  "read_attribute lx = do {
     let start = lexer_position lx;
     if peekch_ahead lx 1 = 91 then do {
       lx \<leftarrow> consume lx; lx \<leftarrow> consume lx;
       Some (lexeme_new (with_length start 2) AttributeOpen, lx)
     } else do {
       lx \<leftarrow> consume lx;
       if is_alpha (peekch lx) \<or> peekch lx = 95 then do {
         ((name, _), lx) \<leftarrow> read_name lx;
         lexeme \<leftarrow> lexeme_with_name (between start (lexer_position lx)) Attribute name;
         Some (lexeme, lx)
       } else do {
         lexeme \<leftarrow> lexeme_with_name (between start (lexer_position lx)) Attribute (Some []);
         Some (lexeme, lx)
       }
     }
   }"

definition read_close_brace :: "lexer \<Rightarrow> (lexeme \<times> lexer) option" where
  "read_close_brace lx = do {
     let start = lexer_position lx;
     lx \<leftarrow> consume lx;
     if lx_brace_stack lx = [] then Some (lexeme_from_char (with_length start 1) 125, lx)
     else do {
       let top = List.last (lx_brace_stack lx);
       let lx = lx\<lparr>lx_brace_stack := butlast (lx_brace_stack lx)\<rparr>;
       if top \<noteq> InterpolatedString then Some (lexeme_from_char (with_length start 1) 125, lx)
       else read_interpolated_string_section start InterpStringMid InterpStringEnd lx
     }
   }"

definition read_next :: "lexer \<Rightarrow> (lexeme \<times> lexer) option" where
  "read_next lx =
     (let start = lexer_position lx; ch = peekch lx in
      if ch = 0 then Some (lexeme_new (with_length start 0) Eof, lx)
      else if ch = 45 then
        if peekch_ahead lx 1 = 62 then do {
          lx \<leftarrow> consume lx; lx \<leftarrow> consume lx; Some (lexeme_new (with_length start 2) SkinnyArrow, lx) }
        else if peekch_ahead lx 1 = 61 then do {
          lx \<leftarrow> consume lx; lx \<leftarrow> consume lx; Some (lexeme_new (with_length start 2) SubAssign, lx) }
        else if peekch_ahead lx 1 = 45 then read_comment_body lx
        else do { lx \<leftarrow> consume lx; Some (lexeme_from_char (with_length start 1) 45, lx) }
      else if ch = 91 then do {
        (sep, lx) \<leftarrow> skip_long_separator lx;
        if sep \<ge> 0 then read_long_string start sep RawString BrokenString lx
        else if sep = - 1 then Some (lexeme_from_char (with_length start 1) 91, lx)
        else Some (lexeme_new (between start (lexer_position lx)) BrokenString, lx)
      }
      else if ch = 123 then do {
        lx \<leftarrow> consume lx;
        let lx = (if lx_brace_stack lx \<noteq> [] then lx\<lparr>lx_brace_stack := lx_brace_stack lx @ [NormalBrace]\<rparr> else lx);
        Some (lexeme_from_char (with_length start 1) 123, lx)
      }
      else if ch = 125 then read_close_brace lx
      else if ch = 34 \<or> ch = 39 then read_quoted_string lx
      else if ch = 96 then read_interpolated_string_begin lx
      else if ch \<in> {61, 60, 62, 126, 46, 43, 47, 42, 37, 94, 58, 40, 41, 93, 59, 44, 35, 63, 38, 124} then read_operator lx
      else if ch = 64 then read_attribute lx
      else if is_digit ch then read_number start (lx_offset lx) lx
      else if is_alpha ch \<or> ch = 95 then do {
        ((name, t), lx) \<leftarrow> read_name lx;
        lexeme \<leftarrow> lexeme_with_name (between start (lexer_position lx)) t name;
        Some (lexeme, lx)
      }
      else if ch AND 0x80 \<noteq> 0 then read_utf_8_error lx
      else do {
        lx \<leftarrow> consume lx;
        Some (lexeme_from_char (with_length start 1) ch, lx)
      })"

section \<open>Every lexeme is read\<close>

text \<open>The reserved words keep their types, and every other name has the type \<open>Name\<close> (or \<open>Attribute\<close>, with an \<open>@\<close>).\<close>

definition names_ok :: "(bytes \<Rightarrow> lextype option) \<Rightarrow> bool" where
  "names_ok names \<longleftrightarrow> (\<forall>name. case name_table_new name of
     Some t \<Rightarrow> names name = Some t
   | None \<Rightarrow> names name \<in> {None, Some (if hd name = 64 then Attribute else LexName)})"

text \<open>\<open>n\<close> steps, with changes of the brace stack and of the name table.\<close>

definition goes :: "nat \<Rightarrow> lexer \<Rightarrow> lexer \<Rightarrow> bool" where
  "goes n lx lx' \<longleftrightarrow> n \<le> length (rest lx) \<and>
     lx' = ((step ^^ n) lx)\<lparr>lx_brace_stack := lx_brace_stack lx', lx_names := lx_names lx'\<rparr>"

lemma step_update [simp]:
  "step (lx\<lparr>lx_brace_stack := st\<rparr>) = (step lx)\<lparr>lx_brace_stack := st\<rparr>"
  "step (lx\<lparr>lx_names := ns\<rparr>) = (step lx)\<lparr>lx_names := ns\<rparr>"
  by (simp_all add: step_def)

lemma steps_update [simp]:
  "(step ^^ n) (lx\<lparr>lx_brace_stack := st\<rparr>) = ((step ^^ n) lx)\<lparr>lx_brace_stack := st\<rparr>"
  "(step ^^ n) (lx\<lparr>lx_names := ns\<rparr>) = ((step ^^ n) lx)\<lparr>lx_names := ns\<rparr>"
  by (induction n) simp_all

lemma rest_update [simp]: "rest (lx\<lparr>lx_brace_stack := st\<rparr>) = rest lx" "rest (lx\<lparr>lx_names := ns\<rparr>) = rest lx"
  by (simp_all add: rest_def)

lemma peekch_update [simp]:
  "peekch (lx\<lparr>lx_brace_stack := st\<rparr>) = peekch lx" "peekch (lx\<lparr>lx_names := ns\<rparr>) = peekch lx"
  by (simp_all add: peekch_rest)

lemma lexer_position_update [simp]:
  "lexer_position (lx\<lparr>lx_brace_stack := st\<rparr>) = lexer_position lx" "lexer_position (lx\<lparr>lx_names := ns\<rparr>) = lexer_position lx"
  by (simp_all add: lexer_position_def)

lemma goes_steps: "n \<le> length (rest lx) \<Longrightarrow> goes n lx ((step ^^ n) lx)"
  by (cases "(step ^^ n) lx") (simp add: goes_def)

lemma goes_0 [simp]: "goes 0 lx lx" using goes_steps [of 0 lx] by simp

lemma goes_step: "rest lx \<noteq> [] \<Longrightarrow> goes 1 lx (step lx)" using goes_steps [of 1 lx] by (cases "rest lx") auto

lemma goes_rest:
  assumes "goes n lx lx'"
  shows "rest lx' = drop n (rest lx)" "lx_offset lx' = lx_offset lx + n" "lx_buffer lx' = lx_buffer lx" "n \<le> length (rest lx)"
    "lx_read_names lx' = lx_read_names lx"
proof -
  obtain st ns where e: "lx' = ((step ^^ n) lx)\<lparr>lx_brace_stack := st, lx_names := ns\<rparr>" and n: "n \<le> length (rest lx)"
    using assms unfolding goes_def by metis
  show "rest lx' = drop n (rest lx)" "lx_offset lx' = lx_offset lx + n" "lx_buffer lx' = lx_buffer lx" "n \<le> length (rest lx)"
    "lx_read_names lx' = lx_read_names lx"
    using n by (simp_all add: e rest_steps)
qed

lemma goesI: "lx' = ((step ^^ n) lx)\<lparr>lx_brace_stack := st, lx_names := ns\<rparr> \<Longrightarrow> n \<le> length (rest lx) \<Longrightarrow> goes n lx lx'"
  by (simp add: goes_def)

lemma goes_trans: "goes n lx lx1 \<Longrightarrow> goes m lx1 lx2 \<Longrightarrow> goes (n + m) lx lx2"
proof -
  assume g: "goes n lx lx1" "goes m lx1 lx2"
  obtain st ns where e: "lx1 = ((step ^^ n) lx)\<lparr>lx_brace_stack := st, lx_names := ns\<rparr>" using g(1) unfolding goes_def by metis
  obtain st' ns' where e': "lx2 = ((step ^^ m) lx1)\<lparr>lx_brace_stack := st', lx_names := ns'\<rparr>" using g(2) unfolding goes_def by metis
  show ?thesis
    using goes_rest [OF g(1)] goes_rest(4) [OF g(2)]
    by (intro goesI [where st = st' and ns = ns']) (auto simp: e' e funpow_add add.commute [of n])
qed

lemma goes_update:
  "goes n lx lx' \<Longrightarrow> goes n lx (lx'\<lparr>lx_brace_stack := st\<rparr>)" "goes n lx lx' \<Longrightarrow> goes n lx (lx'\<lparr>lx_names := ns\<rparr>)"
proof -
  assume "goes n lx lx'"
  then obtain st' ns' where e: "lx' = ((step ^^ n) lx)\<lparr>lx_brace_stack := st', lx_names := ns'\<rparr>" "n \<le> length (rest lx)"
    unfolding goes_def by metis
  show "goes n lx (lx'\<lparr>lx_brace_stack := st\<rparr>)" using e(2) by (intro goesI [where st = st and ns = ns']) (simp_all add: e(1))
  show "goes n lx (lx'\<lparr>lx_names := ns\<rparr>)" using e(2) by (intro goesI [where st = st' and ns = ns]) (simp_all add: e(1))
qed

lemma position_steps:
  "n \<le> length (rest lx) \<Longrightarrow> \<forall>c \<in> set (take n (rest lx)). c \<noteq> 10 \<Longrightarrow>
    lexer_position ((step ^^ n) lx) = \<lparr>pos_line = pos_line (lexer_position lx), pos_column = pos_column (lexer_position lx) + word_of_nat n\<rparr>"
proof (induction n arbitrary: lx)
  case (Suc n)
  then obtain c cs where r: "rest lx = c # cs" by (cases "rest lx") auto
  then have "lx_offset lx < length (lx_buffer lx)" "lx_buffer lx ! lx_offset lx = c"
    by (auto simp: rest_def nth_via_drop intro: ccontr)
  then have "lexer_position (step lx) = \<lparr>pos_line = pos_line (lexer_position lx), pos_column = pos_column (lexer_position lx) + 1\<rparr>"
    using Suc.prems(2) r by (simp add: step_def lexer_position_def)
  then show ?case using Suc.IH [of "step lx"] Suc.prems r unfolding steps_Suc by (simp add: algebra_simps)
qed (simp add: lexer_position_def)

end
