(* ===== verification/Lexer_Tokens.thy ===== *)
theory Lexer_Tokens
  imports Lexer
begin

text \<open>
  The lexer reads every source to its end: \<open>read_next\<close> returns from every state, never reads outside
  the source, moves unless it is at the end, and gives each lexeme the location of its characters;
  \<open>next\<close>, \<open>nextline\<close> and \<open>lookahead\<close> on top of it.
\<close>

section \<open>Lexemes and their locations\<close>

text \<open>A lexeme changes the brace stack by at most one entry, a comment not at all.\<close>

definition near :: "'a list \<Rightarrow> 'a list \<Rightarrow> bool" where
  "near xs ys \<longleftrightarrow> ys = xs \<or> (\<exists>x. ys = xs @ [x]) \<or> (\<exists>x. xs = ys @ [x])"

text \<open>A lexeme whose location begins at a given position and ends where the lexer stands after it; the
  exception is the broken \<open>{{\<close> of an interpolated string, whose location ends in front of these last two braces.\<close>

definition reads :: "position \<Rightarrow> nat \<Rightarrow> lexer \<Rightarrow> lexeme \<Rightarrow> lexer \<Rightarrow> bool" where
  "reads start n lx lexeme lx' \<longleftrightarrow> goes n lx lx' \<and> names_ok (lx_names lx') \<and> loc_begin (lex_location lexeme) = start \<and>
     (lex_type lexeme \<noteq> BrokenInterpDoubleBrace \<longrightarrow> loc_end (lex_location lexeme) = lexer_position lx') \<and>
     (lex_type lexeme = BrokenInterpDoubleBrace \<longrightarrow>
       2 \<le> n \<and> loc_end (lex_location lexeme) = lexer_position ((step ^^ (n - 2)) lx)) \<and>
     near (lx_brace_stack lx) (lx_brace_stack lx') \<and>
     (lex_type lexeme \<in> {LexComment, BlockComment} \<longrightarrow> lx_brace_stack lx' = lx_brace_stack lx)"

text \<open>\<open>r\<close> reads a lexeme, which is not the end of the source, from \<open>lx\<close> on.\<close>

definition lexes_from :: "position \<Rightarrow> (lexeme \<times> lexer) option \<Rightarrow> lexer \<Rightarrow> bool" where
  "lexes_from start r lx \<longleftrightarrow> (\<exists>lexeme lx' n. r = Some (lexeme, lx') \<and> reads start n lx lexeme lx' \<and> lex_type lexeme \<noteq> Eof)"

definition lexes :: "(lexeme \<times> lexer) option \<Rightarrow> lexer \<Rightarrow> bool" where
  "lexes r lx \<longleftrightarrow> (\<exists>lexeme lx' n. r = Some (lexeme, lx') \<and> reads (lexer_position lx) n lx lexeme lx' \<and>
     (lex_type lexeme = Eof \<longleftrightarrow> n = 0) \<and> (n = 0 \<longrightarrow> peekch lx = 0 \<and> lx' = lx))"

lemma goes_position:
  assumes "goes k lx lx'"
  shows "lexer_position ((step ^^ m) lx') = lexer_position ((step ^^ (k + m)) lx)"
proof -
  obtain st ns where e: "lx' = ((step ^^ k) lx)\<lparr>lx_brace_stack := st, lx_names := ns\<rparr>" using assms unfolding goes_def by metis
  show ?thesis by (simp add: e lexer_position_def funpow_add add.commute [of k])
qed

lemma near_refl [simp]: "near xs xs" "near xs (xs @ [x])" "near (xs @ [x]) xs"
  by (auto simp: near_def)

lemma lexes_fromI:
  assumes "r = Some (lexeme, lx')" and "goes n lx lx'" and "names_ok (lx_names lx')" and "lex_location lexeme = between start (lexer_position lx')"
    and "lex_type lexeme \<notin> {Eof, BrokenInterpDoubleBrace}" and "near (lx_brace_stack lx) (lx_brace_stack lx')"
    and "lex_type lexeme \<in> {LexComment, BlockComment} \<longrightarrow> lx_brace_stack lx' = lx_brace_stack lx"
  shows "lexes_from start r lx"
  using assms by (auto simp: lexes_from_def reads_def between_def)

text \<open>Reading goes on from a lexer that stands behind the first characters.\<close>

lemma lexes_from_lexes:
  assumes "lexes_from (lexer_position lx) r lx1" and "goes k lx lx1" and "0 < k" and "lx_brace_stack lx1 = lx_brace_stack lx"
  shows "lexes r lx"
proof -
  obtain lexeme lx' n where r: "r = Some (lexeme, lx')" and rd: "reads (lexer_position lx) n lx1 lexeme lx'" and "lex_type lexeme \<noteq> Eof"
    using assms(1) unfolding lexes_from_def by blast
  have "reads (lexer_position lx) (k + n) lx lexeme lx'"
    using rd goes_trans [OF assms(2)] assms(4) goes_position [OF assms(2), of "n - 2"] unfolding reads_def by auto
  then show ?thesis using r assms(3) \<open>lex_type lexeme \<noteq> Eof\<close> unfolding lexes_def by (intro exI [of _ lexeme] exI [of _ lx'] exI [of _ "k + n"]) simp
qed

lemma lexes_between:
  assumes "r = Some (lexeme, lx')" and "goes n lx lx'" and "0 < n" and "names_ok (lx_names lx')"
    and "lex_location lexeme = between (lexer_position lx) (lexer_position lx')"
    and "lex_type lexeme \<notin> {Eof, BrokenInterpDoubleBrace}" and "near (lx_brace_stack lx) (lx_brace_stack lx')"
    and "lex_type lexeme \<in> {LexComment, BlockComment} \<longrightarrow> lx_brace_stack lx' = lx_brace_stack lx"
  shows "lexes r lx"
  using assms unfolding lexes_def reads_def between_def by (intro exI [of _ lexeme] exI [of _ lx'] exI [of _ n]) simp

text \<open>A fixed number of characters.\<close>

lemma lexes_fixed:
  assumes "names_ok (lx_names lx)" and "rest lx = cs @ ds" and "cs \<noteq> []" and "10 \<notin> set cs" and "t \<notin> {Eof, LexComment, BlockComment, BrokenInterpDoubleBrace}"
  shows "lexes (Some (lexeme_new (with_length (lexer_position lx) (word_of_nat (length cs))) t, (step ^^ length cs) lx)) lx"
    and "c \<noteq> 0 \<Longrightarrow> lexes (Some (lexeme_from_char (with_length (lexer_position lx) (word_of_nat (length cs))) c, (step ^^ length cs) lx)) lx"
proof -
  have l: "with_length (lexer_position lx) (word_of_nat (length cs)) = between (lexer_position lx) (lexer_position ((step ^^ length cs) lx))"
    using assms(2,4) by (subst position_steps) (auto simp: with_length_def between_def)
  have g: "goes (length cs) lx ((step ^^ length cs) lx)" using assms(2) by (intro goes_steps) simp
  show "lexes (Some (lexeme_new (with_length (lexer_position lx) (word_of_nat (length cs))) t, (step ^^ length cs) lx)) lx"
    using assms g by (intro lexes_between [OF refl, of "length cs"]) (auto simp: lexeme_new_def l)
  have "uint c \<noteq> 0" "uint c < 256" if "c \<noteq> 0" using that unsigned_less [of c, where ?'a = int] by (simp_all add: uint_0_iff)
  then show "c \<noteq> 0 \<Longrightarrow> lexes (Some (lexeme_from_char (with_length (lexer_position lx) (word_of_nat (length cs))) c, (step ^^ length cs) lx)) lx"
    using assms g by (intro lexes_between [OF refl, of "length cs"]) (auto simp: lexeme_from_char_def l)
qed

section \<open>Strings and comments\<close>

lemma next_char: "rest lx = c # cs \<Longrightarrow> c \<noteq> 10 \<Longrightarrow> consume lx = Some (step lx) \<and> goes 1 lx (step lx) \<and> rest (step lx) = cs \<and>
    lexer_position (step lx) = \<lparr>pos_line = pos_line (lexer_position lx), pos_column = pos_column (lexer_position lx) + 1\<rparr>"
  using consume_rest [of lx c cs] goes_step [of lx] position_steps [of 1 lx] by simp

lemma peek_nonzero: "peekch lx \<noteq> 0 \<Longrightarrow> \<exists>cs. rest lx = peekch lx # cs"
  by (cases "rest lx") (simp_all add: peekch_rest)

lemma goes_self [simp]: "\<exists>n. goes n lx lx"
  by (rule exI [of _ 0]) simp

lemma quoted_loop_goes:
  assumes d: "d \<noteq> 0"
  shows "\<exists>closed n lx'. quoted_loop d lx = Some (closed, lx') \<and> goes n lx lx' \<and> lx_names lx' = lx_names lx \<and>
    lx_brace_stack lx' = lx_brace_stack lx \<and> (closed \<longrightarrow> peekch lx' = d)"
proof (induction "length (rest lx)" arbitrary: lx rule: less_induct)
  case less
  have extend: ?case if "quoted_loop d lx = quoted_loop d ((step ^^ k) lx)" "0 < k" "k \<le> length (rest lx)" for k
  proof -
    have "length (rest ((step ^^ k) lx)) < length (rest lx)" using that(2,3) by (simp add: rest_steps)
    from less [OF this] show ?thesis
      using that(1) goes_trans [OF goes_steps [OF that(3)]] by (metis steps_simps(5,8))
  qed
  show ?case
  proof (cases "rest lx")
    case Nil
    then have "quoted_loop d lx = Some (False, lx)" using d by (subst quoted_loop.simps) (simp add: peekch_rest)
    then show ?thesis by (intro exI [of _ False] exI [of _ "0 :: nat"]) simp
  next
    case (Cons c cs)
    consider "c = d" | "c \<noteq> d" "c \<in> {0, 13, 10}" | "c \<noteq> d" "c = 92" | "c \<noteq> d" "c \<notin> {0, 13, 10, 92}" by blast
    then show ?thesis
    proof cases
      case 1
      then have "quoted_loop d lx = Some (True, lx) \<and> peekch lx = d" using Cons by (subst quoted_loop.simps) (simp add: peekch_rest)
      then show ?thesis by (intro exI [of _ True] exI [of _ "0 :: nat"]) simp
    next
      case 2
      then have "quoted_loop d lx = Some (False, lx)" using Cons by (subst quoted_loop.simps) (simp add: peekch_rest)
      then show ?thesis by (intro exI [of _ False] exI [of _ "0 :: nat"]) simp
    next
      case 3
      then have "quoted_loop d lx = quoted_loop d ((step ^^ (escape_length cs + 1)) lx)"
        using Cons read_backslash_eq [of lx cs] by (subst quoted_loop.simps) (auto simp: peekch_rest simp del: funpow.simps)
      then show ?thesis using extend [of "escape_length cs + 1"] escape_length_le [of cs] Cons by simp
    next
      case 4
      then have "quoted_loop d lx = quoted_loop d ((step ^^ 1) lx)"
        using Cons consume_rest [OF Cons] by (subst quoted_loop.simps) (auto simp: peekch_rest)
      then show ?thesis using extend [of 1] Cons by simp
    qed
  qed
qed

lemma interp_loop_goes:
  "\<exists>stop n lx'. interp_loop lx = Some (stop, lx') \<and> goes n lx lx' \<and> lx_names lx' = lx_names lx \<and>
    lx_brace_stack lx' = lx_brace_stack lx \<and> (stop = AtEnd \<longrightarrow> peekch lx' = 96) \<and> (stop = AtBrace \<longrightarrow> peekch lx' = 123)"
proof (induction "length (rest lx)" arbitrary: lx rule: less_induct)
  case less
  have extend: ?case if "interp_loop lx = interp_loop ((step ^^ k) lx)" "0 < k" "k \<le> length (rest lx)" for k
  proof -
    have "length (rest ((step ^^ k) lx)) < length (rest lx)" using that(2,3) by (simp add: rest_steps)
    from less [OF this] show ?thesis
      using that(1) goes_trans [OF goes_steps [OF that(3)]] by (metis steps_simps(5,8))
  qed
  show ?case
  proof (cases "rest lx")
    case Nil
    then show ?thesis by (subst interp_loop.simps) (simp add: peekch_rest)
  next
    case (Cons c cs)
    consider "c = 96" | "c = 123" | "c \<in> {0, 13, 10}" | (u) "c = 92" "peekch_ahead lx 1 = 117" "peekch_ahead lx 2 = 123"
      | (esc) "c = 92" "\<not> (peekch_ahead lx 1 = 117 \<and> peekch_ahead lx 2 = 123)" | (other) "c \<notin> {0, 13, 10, 92, 96, 123}" by blast
    then show ?thesis
    proof cases
      case u
      then obtain ds where cs: "cs = 117 # 123 # ds" using Cons
        by (cases cs; cases "tl cs") (auto simp: peekch_ahead_rest split: if_splits)
      have "interp_loop lx = interp_loop ((step ^^ 3) lx)"
        using u Cons cs consume_rest [OF Cons] consume_rest [of "step lx" 117] consume_rest [of "step (step lx)" 123]
        by (subst interp_loop.simps) (simp add: peekch_rest steps_3)
      then show ?thesis using extend [of 3] Cons cs by simp
    next
      case esc
      then have "interp_loop lx = interp_loop ((step ^^ (escape_length cs + 1)) lx)"
        using Cons read_backslash_eq [of lx cs] by (subst interp_loop.simps) (auto simp: peekch_rest simp del: funpow.simps)
      then show ?thesis using extend [of "escape_length cs + 1"] escape_length_le [of cs] Cons by simp
    next
      case other
      then have "interp_loop lx = interp_loop ((step ^^ 1) lx)"
        using Cons consume_rest [OF Cons] by (subst interp_loop.simps) (auto simp: peekch_rest)
      then show ?thesis using extend [of 1] Cons by simp
    qed (use Cons in \<open>subst interp_loop.simps, simp add: peekch_rest\<close>)+
  qed
qed

section \<open>The readers\<close>

lemma consume_goes: "peekch lx = c \<Longrightarrow> c \<noteq> 0 \<Longrightarrow> c \<noteq> 10 \<Longrightarrow> consume lx = Some (step lx) \<and> goes 1 lx (step lx)"
  using peek_nonzero [of lx] next_char [of lx] by fastforce

lemma consume_while_goes:
  assumes "\<And>c. p c \<Longrightarrow> c \<noteq> 0 \<and> c \<noteq> 10"
  shows "\<exists>n. consume_while p lx = Some ((step ^^ n) lx) \<and> goes n lx ((step ^^ n) lx)"
  using consume_while_eq [OF assms] goes_steps [OF length_takeWhile_le [of p "rest lx"]] by blast

lemma read_long_string_lexes:
  assumes p: "peekch lx = 91" and "0 \<le> sep" and ok: "ok \<in> {RawString, BlockComment}" and br: "broken \<in> {BrokenString, BrokenComment}"
    and ns: "names_ok (lx_names lx)"
  shows "lexes_from start (read_long_string start sep ok broken lx) lx"
proof -
  have c: "consume lx = Some (step lx)" and g: "goes 1 lx (step lx)" using consume_goes [OF p] by simp_all
  from long_string_loop_eq [OF assms(2), of "step lx"] show ?thesis
  proof (elim disjE exE)
    fix m assume l: "long_string_loop sep (step lx) = Some (True, (step ^^ (m + nat sep + 2)) (step lx)) \<and>
      m + nat sep + 2 \<le> length (rest (step lx)) \<and> closes (nat sep) (drop m (rest (step lx))) \<and>
      (\<forall>j < m. \<not> closes (nat sep) (drop j (rest (step lx))))"
    let ?lx = "(step ^^ (m + nat sep + 2)) (step lx)"
    have "goes (1 + (m + nat sep + 2)) lx ?lx" using g l goes_steps by (intro goes_trans [OF g]) blast
    moreover have "int (lx_offset ?lx) - sep - 2 = int (lx_offset lx + 1 + m)" using assms(2) by (simp del: funpow.simps)
    then have "read_long_string start sep ok broken lx = Some (\<lparr>lex_type = ok, lex_location = between start (lexer_position ?lx),
        lex_length = word_of_nat m, lex_data = DataAt (lx_offset lx + 1)\<rparr>, ?lx)"
      using l p c ok unfolding read_long_string_def by (auto simp: lexeme_with_data_def simp del: funpow.simps)
    ultimately show ?thesis
      using ns ok by (intro lexes_fromI [where lx' = ?lx]) (assumption | auto simp del: funpow.simps)+
  next
    fix n assume l: "long_string_loop sep (step lx) = Some (False, (step ^^ n) (step lx)) \<and> n \<le> length (rest (step lx)) \<and>
      (n < length (rest (step lx)) \<longrightarrow> rest (step lx) ! n = 0) \<and> (\<forall>j < n. \<not> closes (nat sep) (drop j (rest (step lx))))"
    let ?lx = "(step ^^ n) (step lx)"
    have "goes (1 + n) lx ?lx" using g l goes_steps by (intro goes_trans [OF g]) blast
    moreover have "read_long_string start sep ok broken lx = Some (lexeme_new (between start (lexer_position ?lx)) broken, ?lx)"
      using l p c unfolding read_long_string_def by (auto simp del: funpow.simps)
    ultimately show ?thesis
      using ns br by (intro lexes_fromI [where lx' = ?lx]) (assumption | auto simp: lexeme_new_def simp del: funpow.simps)+
  qed
qed

lemma skip_long_separator_goes:
  assumes "peekch lx = 91"
  shows "\<exists>sep n. skip_long_separator lx = Some (sep, (step ^^ n) lx) \<and> goes n lx ((step ^^ n) lx) \<and> 0 < n \<and>
    (0 \<le> sep \<longrightarrow> peekch ((step ^^ n) lx) = 91) \<and> (sep = - 1 \<longrightarrow> n = 1)"
proof -
  obtain cs where r: "rest lx = 91 # cs" using peek_nonzero [of lx] assms by auto
  let ?n = "equals cs + 1"
  have "goes ?n lx ((step ^^ ?n) lx)" using r by (intro goes_steps) (simp add: equals_def length_takeWhile_le)
  moreover have "peekch ((step ^^ ?n) lx) = 91" if "equals cs < length cs" "cs ! equals cs = 91"
    using that r by (simp add: peekch_rest rest_steps Cons_nth_drop_Suc [symmetric] del: funpow.simps)
  ultimately show ?thesis
    using skip_long_separator_eq [OF r]
    by (intro exI [of _ "if equals cs < length cs \<and> cs ! equals cs = 91 then int (equals cs) else - int (equals cs) - 1"] exI [of _ ?n])
      (auto simp del: funpow.simps)
qed

lemma read_comment_body_lexes:
  assumes p: "peekch lx = 45" "peekch_ahead lx 1 = 45" and ns: "names_ok (lx_names lx)"
  shows "lexes (read_comment_body lx) lx"
proof -
  obtain cs where r: "rest lx = 45 # 45 # cs"
    using p peek_nonzero [of lx] by (cases "tl (rest lx)") (auto simp: peekch_ahead_rest split: if_splits)
  have c: "consume lx = Some (step lx)" "consume (step lx) = Some ((step ^^ 2) lx)"
    using r consume_rest [of lx 45 "45 # cs"] consume_rest [of "step lx" 45 cs] by (simp_all add: steps_3)
  have g: "goes 2 lx ((step ^^ 2) lx)" using r by (intro goes_steps) simp
  have a: "peekch_ahead lx 0 = 45" using r by (simp add: peekch_ahead_rest)
  define lx2 where "lx2 = (step ^^ 2) lx"
  have st: "lx_brace_stack lx2 = lx_brace_stack lx" "lx_names lx2 = lx_names lx" by (simp_all add: lx2_def del: funpow.simps)
  have line: "lexes_from start (do {
       lx' \<leftarrow> consume_while (\<lambda>ch. \<not> at_line_end ch) lx3;
       lexeme \<leftarrow> lexeme_with_data (between start (lexer_position lx')) LexComment so (lx_offset lx' - so);
       Some (lexeme, lx')}) lx3" if "names_ok (lx_names lx3)" for lx3 start so
  proof -
    obtain n where "consume_while (\<lambda>ch. \<not> at_line_end ch) lx3 = Some ((step ^^ n) lx3) \<and> goes n lx3 ((step ^^ n) lx3)"
      using consume_while_goes [of "\<lambda>ch. \<not> at_line_end ch" lx3] by (auto simp: at_line_end_def is_newline_def)
    then show ?thesis
      using that by (intro lexes_fromI [of _ _ "(step ^^ n) lx3" n]) (auto simp: lexeme_with_data_def simp del: funpow.simps)
  qed
  have "lexes_from (lexer_position lx) (read_comment_body lx) lx2 \<or>
    (\<exists>n. goes n lx2 ((step ^^ n) lx2) \<and> lexes_from (lexer_position lx) (read_comment_body lx) ((step ^^ n) lx2))"
  proof (cases "peekch lx2 = 91")
    case False
    then show ?thesis
      using c p a line [of lx2 "lexer_position lx" "lx_offset lx2"] ns st unfolding lx2_def read_comment_body_def by simp
  next
    case True
    obtain sep n where s: "skip_long_separator lx2 = Some (sep, (step ^^ n) lx2)" "goes n lx2 ((step ^^ n) lx2)"
        "0 \<le> sep \<longrightarrow> peekch ((step ^^ n) lx2) = 91" using skip_long_separator_goes [OF True] by blast
    have "lexes_from (lexer_position lx) (read_comment_body lx) ((step ^^ n) lx2)"
      using True s c p a ns st line [of "(step ^^ n) lx2" "lexer_position lx" "lx_offset lx2"]
        read_long_string_lexes [of "(step ^^ n) lx2" sep BlockComment BrokenComment "lexer_position lx"]
      unfolding read_comment_body_def by (auto simp: lx2_def [symmetric] Let_def simp del: funpow.simps)
    then show ?thesis using s by blast
  qed
  moreover have "lexes (read_comment_body lx) lx"
    if "goes n lx2 ((step ^^ n) lx2)" "lexes_from (lexer_position lx) (read_comment_body lx) ((step ^^ n) lx2)" for n
    using that st goes_trans [OF g, of n] unfolding lx2_def [symmetric]
    by (intro lexes_from_lexes [OF that(2), of "2 + n"]) (simp_all del: funpow.simps)
  moreover have "goes 0 lx2 ((step ^^ 0) lx2)" by simp
  ultimately show ?thesis by (metis funpow_0)
qed

lemma read_quoted_string_lexes:
  assumes p: "peekch lx = 39 \<or> peekch lx = 34" and ns: "names_ok (lx_names lx)"
  shows "lexes (read_quoted_string lx) lx"
proof -
  have c: "consume lx = Some (step lx)" and g: "goes 1 lx (step lx)" using consume_goes [OF refl] p by auto
  obtain closed n lx' where q: "quoted_loop (peekch lx) (step lx) = Some (closed, lx')" "goes n (step lx) lx'"
      "lx_names lx' = lx_names lx" "lx_brace_stack lx' = lx_brace_stack lx" "closed \<longrightarrow> peekch lx' = peekch lx"
    using quoted_loop_goes [of "peekch lx" "step lx"] p by auto
  note g' = goes_trans [OF g q(2)]
  show ?thesis
  proof (cases closed)
    case True
    then have c': "consume lx' = Some (step lx')" and "goes 1 lx' (step lx')" using consume_goes [OF refl, of lx'] q(5) p by auto
    from goes_trans [OF g' this(2)] show ?thesis
      using p c q c' True ns
      by (intro lexes_between [where lx' = "step lx'" and n = "1 + n + 1"]) (auto simp: read_quoted_string_def lexeme_with_data_def Let_def)
  next
    case False
    then show ?thesis
      using g' p c q ns by (intro lexes_between [where lx' = lx' and n = "1 + n"]) (auto simp: read_quoted_string_def lexeme_new_def Let_def)
  qed
qed

lemma read_section_lexes:
  assumes f: "fmt \<in> {InterpStringBegin, InterpStringMid}" and e: "end' \<in> {InterpStringEnd, InterpStringSimple}" and ns: "names_ok (lx_names lx)"
  shows "\<exists>lexeme n lx'. read_interpolated_string_section start fmt end' lx = Some (lexeme, lx') \<and> goes n lx lx' \<and>
    lx_names lx' = lx_names lx \<and> lx_brace_stack lx' \<in> {lx_brace_stack lx, lx_brace_stack lx @ [InterpolatedString]} \<and>
    lex_type lexeme \<notin> {Eof, LexComment, BlockComment} \<and> loc_begin (lex_location lexeme) = start \<and>
    (lex_type lexeme \<noteq> BrokenInterpDoubleBrace \<longrightarrow> loc_end (lex_location lexeme) = lexer_position lx') \<and>
    (lex_type lexeme = BrokenInterpDoubleBrace \<longrightarrow> 2 \<le> n \<and> loc_end (lex_location lexeme) = lexer_position ((step ^^ (n - 2)) lx))"
proof -
  obtain stop n lx1 where i: "interp_loop lx = Some (stop, lx1)" "goes n lx lx1" "lx_names lx1 = lx_names lx"
      "lx_brace_stack lx1 = lx_brace_stack lx" "stop = AtEnd \<longrightarrow> peekch lx1 = 96" "stop = AtBrace \<longrightarrow> peekch lx1 = 123"
    using interp_loop_goes [of lx] by blast
  show ?thesis
  proof (cases stop)
    case AtEnd
    then have c: "consume lx1 = Some (step lx1)" and "goes 1 lx1 (step lx1)" using consume_goes [OF refl, of lx1] i(5) by auto
    from goes_trans [OF i(2) this(2)] show ?thesis
      using AtEnd i c e by (intro exI [of _ "\<lparr>lex_type = end', lex_location = between start (lexer_position (step lx1)),
          lex_length = word_of_nat (lx_offset lx1 + 1 - lx_offset lx - 1), lex_data = DataAt (lx_offset lx)\<rparr>"] exI [of _ "n + 1"] exI [of _ "step lx1"])
        (auto simp: read_interpolated_string_section_def lexeme_with_data_def between_def Let_def)
  next
    case AtBroken
    then show ?thesis
      using i by (intro exI [of _ "lexeme_new (between start (lexer_position lx1)) BrokenString"] exI [of _ n] exI [of _ lx1])
        (auto simp: read_interpolated_string_section_def lexeme_new_def between_def Let_def)
  next
    case AtBrace
    let ?lx = "lx1\<lparr>lx_brace_stack := lx_brace_stack lx1 @ [InterpolatedString]\<rparr>"
    obtain cs where r: "rest lx1 = 123 # cs" using AtBrace i(6) peek_nonzero [of lx1] by auto
    have c: "consume ?lx = Some (step ?lx)" using consume_rest [of ?lx 123 cs] r by simp
    have g1: "goes (n + 1) lx (step ?lx)"
      using goes_update(1) [OF goes_trans [OF i(2) goes_step [of lx1]], of "lx_brace_stack lx1 @ [InterpolatedString]"] r by simp
    show ?thesis
    proof (cases "peekch_ahead ?lx 1 = 123")
      case False
      then show ?thesis
        using AtBrace i c f g1 by (intro exI [of _ "\<lparr>lex_type = fmt, lex_location = between start (lexer_position (step ?lx)),
            lex_length = word_of_nat (lx_offset lx1 + 1 - lx_offset lx - 1), lex_data = DataAt (lx_offset lx)\<rparr>"] exI [of _ "n + 1"] exI [of _ "step ?lx"])
          (auto simp: read_interpolated_string_section_def lexeme_with_data_def between_def Let_def)
    next
      case True
      then obtain ds where r2: "rest (step ?lx) = 123 # ds" using r
        by (cases cs) (auto simp: peekch_ahead_rest split: if_splits)
      have c2: "consume (step ?lx) = Some (step (step ?lx))" using consume_rest [OF r2] by simp
      have "goes (n + 1 + 1) lx (step (step ?lx))" using goes_trans [OF g1 goes_step [of "step ?lx"]] r2 by simp
      moreover have "lexer_position ?lx = lexer_position ((step ^^ (n + 1 + 1 - 2)) lx)"
        using goes_position [OF i(2), of 0] by (simp add: lexer_position_def)
      ultimately show ?thesis
        using AtBrace i c c2 True
        by (intro exI [of _ "\<lparr>lex_type = BrokenInterpDoubleBrace, lex_location = between start (lexer_position ?lx),
            lex_length = word_of_nat (lx_offset lx1 - lx_offset lx), lex_data = DataAt (lx_offset lx)\<rparr>"] exI [of _ "n + 1 + 1"] exI [of _ "step (step ?lx)"])
          (auto simp: read_interpolated_string_section_def lexeme_with_data_def between_def Let_def)
    qed
  qed
qed

lemma read_begin_lexes:
  assumes p: "peekch lx = 96" and ns: "names_ok (lx_names lx)"
  shows "lexes (read_interpolated_string_begin lx) lx"
proof -
  have c: "consume lx = Some (step lx)" and g: "goes 1 lx (step lx)" using consume_goes [OF p] by simp_all
  obtain lexeme n lx' where r: "read_interpolated_string_section (lexer_position lx) InterpStringBegin InterpStringSimple (step lx) =
        Some (lexeme, lx')" "goes n (step lx) lx'" "lx_names lx' = lx_names (step lx)"
      "lx_brace_stack lx' \<in> {lx_brace_stack (step lx), lx_brace_stack (step lx) @ [InterpolatedString]}"
      "lex_type lexeme \<notin> {Eof, LexComment, BlockComment}" "loc_begin (lex_location lexeme) = lexer_position lx"
      "lex_type lexeme \<noteq> BrokenInterpDoubleBrace \<longrightarrow> loc_end (lex_location lexeme) = lexer_position lx'"
      "lex_type lexeme = BrokenInterpDoubleBrace \<longrightarrow> 2 \<le> n \<and> loc_end (lex_location lexeme) = lexer_position ((step ^^ (n - 2)) (step lx))"
    using read_section_lexes [of InterpStringBegin InterpStringSimple "step lx" "lexer_position lx"] ns by auto
  have "read_interpolated_string_begin lx = Some (lexeme, lx')" using p c r(1) by (simp add: read_interpolated_string_begin_def)
  moreover have "reads (lexer_position lx) n (step lx) lexeme lx'"
    unfolding reads_def using r(2-8) ns by (auto simp: near_def)
  ultimately show ?thesis
    using r(5) by (intro lexes_from_lexes [OF _ g]) (auto simp: lexes_from_def)
qed

lemma goes_names: "goes n lx lx' \<Longrightarrow> goes n lx (lx'\<lparr>lx_names := ns\<rparr>)" by (rule goes_update)

lemma digit_not_newline: "is_digit c \<Longrightarrow> c \<noteq> 0 \<and> c \<noteq> 10" by (auto simp: is_digit_def word_less_alt)

lemma alpha_not_newline: "is_alpha c \<Longrightarrow> c \<noteq> 0 \<and> c \<noteq> 10" by (auto simp: is_alpha_def word_less_alt)

lemma ident_not_newline: "is_ident c \<Longrightarrow> c \<noteq> 0 \<and> c \<noteq> 10"
  using digit_not_newline alpha_not_newline by (auto simp: is_ident_def)

lemma read_number_lexes:
  assumes p: "is_digit (peekch lx)" and ns: "names_ok (lx_names lx)"
  shows "\<exists>n. 0 < n \<and> goes n lx ((step ^^ n) lx) \<and> read_number start so lx =
    Some (\<lparr>lex_type = LexNumber, lex_location = between start (lexer_position ((step ^^ n) lx)),
      lex_length = word_of_nat (lx_offset lx + n - so), lex_data = DataAt so\<rparr>, (step ^^ n) lx)"
proof -
  have c: "consume lx = Some (step lx)" and g: "goes 1 lx (step lx)" using consume_goes [OF refl] digit_not_newline [OF p] by auto
  let ?p = "\<lambda>ch. is_digit ch \<or> ch = 46 \<or> ch = 95" and ?q = "\<lambda>ch. is_alpha ch \<or> is_digit ch \<or> ch = 95"
  have np: "?p c \<Longrightarrow> c \<noteq> 0 \<and> c \<noteq> 10" and nq: "?q c \<Longrightarrow> c \<noteq> 0 \<and> c \<noteq> 10" for c
    using digit_not_newline [of c] alpha_not_newline [of c] by auto
  obtain n where w: "consume_while ?p (step lx) = Some ((step ^^ n) (step lx))" and g1: "goes n (step lx) ((step ^^ n) (step lx))"
    using consume_while_goes [of ?p "step lx", OF np] by blast
  let ?lx = "(step ^^ n) (step lx)"
  have "\<exists>k. (if peekch ?lx = 101 \<or> peekch ?lx = 69 then do {
       lx \<leftarrow> consume ?lx;
       if peekch lx = 43 \<or> peekch lx = 45 then consume lx else Some lx
     } else Some ?lx) = Some ((step ^^ k) ?lx) \<and> goes k ?lx ((step ^^ k) ?lx)"
  proof (cases "peekch ?lx = 101 \<or> peekch ?lx = 69")
    case True
    then have c1: "consume ?lx = Some (step ?lx)" and g: "goes 1 ?lx (step ?lx)" using consume_goes [OF refl, of ?lx] by auto
    show ?thesis
    proof (cases "peekch (step ?lx) = 43 \<or> peekch (step ?lx) = 45")
      case True
      then have c2: "consume (step ?lx) = Some (step (step ?lx))" and g2: "goes 1 (step ?lx) (step (step ?lx))"
        using consume_goes [OF refl, of "step ?lx"] by auto
      have "goes 2 ?lx (step (step ?lx))" using goes_trans [OF g g2] by (simp only: one_add_one)
      then show ?thesis
        using True \<open>peekch ?lx = 101 \<or> peekch ?lx = 69\<close> c1 c2 by (intro exI [of _ 2]) (auto simp: steps_3)
    next
      case False
      then show ?thesis using \<open>peekch ?lx = 101 \<or> peekch ?lx = 69\<close> c1 g by (intro exI [of _ 1]) auto
    qed
  qed (intro exI [of _ 0], simp)
  then obtain k where k: "(if peekch ?lx = 101 \<or> peekch ?lx = 69 then do {
       lx \<leftarrow> consume ?lx;
       if peekch lx = 43 \<or> peekch lx = 45 then consume lx else Some lx
     } else Some ?lx) = Some ((step ^^ k) ?lx)" and g2: "goes k ?lx ((step ^^ k) ?lx)" by blast
  obtain m where w2: "consume_while ?q ((step ^^ k) ?lx) = Some ((step ^^ m) ((step ^^ k) ?lx))"
      and g3: "goes m ((step ^^ k) ?lx) ((step ^^ m) ((step ^^ k) ?lx))"
    using consume_while_goes [of ?q "(step ^^ k) ?lx", OF nq] by blast
  have e: "(step ^^ m) ((step ^^ k) ?lx) = (step ^^ (m + k + n + 1)) lx"
    by (simp add: funpow_add funpow_swap1)
  have g4: "goes (m + k + n + 1) lx ((step ^^ (m + k + n + 1)) lx)"
    using goes_trans [OF goes_trans [OF goes_trans [OF g g1] g2] g3] unfolding e by (simp only: ac_simps)
  have "read_number start so lx = Some (\<lparr>lex_type = LexNumber, lex_location = between start (lexer_position ((step ^^ (m + k + n + 1)) lx)),
      lex_length = word_of_nat (lx_offset lx + (m + k + n + 1) - so), lex_data = DataAt so\<rparr>, (step ^^ (m + k + n + 1)) lx)"
    unfolding read_number_def using p c w
    by (simp add: k w2 e lexeme_with_data_def del: funpow.simps)
  then show ?thesis using g4 by (intro exI [of _ "m + k + n + 1"]) simp
qed

lemma name_table_new_range: "name_table_new name = Some t \<Longrightarrow> Reserved_BEGIN \<le> t \<and> t < Reserved_END"
proof -
  assume "name_table_new name = Some t"
  then have "t \<in> set [Reserved_BEGIN..Reserved_END - 1]"
    unfolding name_table_new_def using map_of_SomeD set_zip_rightD by metis
  then show ?thesis unfolding set_upto atLeastAtMost_iff by simp
qed

lemma name_table_new_ok [simp]: "names_ok name_table_new"
  by (simp add: names_ok_def split: option.split)

lemma names_ok_reserved: "names_ok names \<Longrightarrow> name_table_new name = Some t \<Longrightarrow> names name = Some t"
  unfolding names_ok_def by (drule spec [of _ name]) simp

lemma names_ok_other:
  "names_ok names \<Longrightarrow> name_table_new name = None \<Longrightarrow> names name = None \<or> names name = Some (if hd name = 64 then Attribute else LexName)"
  unfolding names_ok_def by (drule spec [of _ name]) simp

lemma names_okD: "names_ok names \<Longrightarrow> names name = Some t \<Longrightarrow> t = LexName \<or> t = Attribute \<or> Reserved_BEGIN \<le> t \<and> t < Reserved_END"
  using names_ok_reserved [of names name] names_ok_other [of names name] name_table_new_range [of name]
  by (cases "name_table_new name") (auto split: if_splits)

lemma names_ok_update:
  assumes "names_ok names" and "names name = None"
  shows "names_ok (names(name \<mapsto> if hd name = 64 then Attribute else LexName))"
  unfolding names_ok_def
proof
  fix n
  have "name_table_new name = None" using assms names_ok_reserved [OF assms(1), of name] by (cases "name_table_new name") auto
  then show "case name_table_new n of
       Some t \<Rightarrow> (names(name \<mapsto> if hd name = 64 then Attribute else LexName)) n = Some t
     | None \<Rightarrow> (names(name \<mapsto> if hd name = 64 then Attribute else LexName)) n \<in> {None, Some (if hd n = 64 then Attribute else LexName)}"
    using names_ok_reserved [OF assms(1), of n] names_ok_other [OF assms(1), of n] by (cases "name_table_new n") auto
qed

lemma get_or_add_names_ok:
  "names_ok names \<Longrightarrow> get_or_add_with_type name names = ((r, t), names') \<Longrightarrow> names_ok names' \<and> r = Some name \<and>
    (t = LexName \<or> t = Attribute \<or> Reserved_BEGIN \<le> t \<and> t < Reserved_END)"
  using names_ok_update [of names name]
  by (auto simp: get_or_add_with_type_def Let_def dest: names_okD split: option.splits if_splits)

lemma get_names_ok:
  "names_ok names \<Longrightarrow> get_with_type name names = (r, t) \<Longrightarrow> t = LexName \<or> t = Attribute \<or> Reserved_BEGIN \<le> t \<and> t < Reserved_END"
  by (auto simp: get_with_type_def dest: names_okD split: option.splits)

lemma read_name_lexes:
  assumes p: "is_alpha (peekch lx) \<or> peekch lx = 95 \<or> peekch lx = 64" and ns: "names_ok (lx_names lx)"
  shows "\<exists>r t n ns. read_name lx = Some ((r, t), ((step ^^ n) lx)\<lparr>lx_names := ns\<rparr>) \<and> goes n lx ((step ^^ n) lx) \<and> 0 < n \<and> names_ok ns \<and>
    (t = LexName \<or> t = Attribute \<or> Reserved_BEGIN \<le> t \<and> t < Reserved_END)"
proof -
  have c: "consume lx = Some (step lx)" and g: "goes 1 lx (step lx)" using consume_goes [OF refl] alpha_not_newline p by auto
  obtain n where w: "consume_while is_ident (step lx) = Some ((step ^^ n) (step lx))" and g1: "goes n (step lx) ((step ^^ n) (step lx))"
    using consume_while_goes [of is_ident "step lx"] ident_not_newline by blast
  have e: "(step ^^ n) (step lx) = (step ^^ (n + 1)) lx" by (simp add: funpow_swap1)
  have g2: "goes (n + 1) lx ((step ^^ (n + 1)) lx)" using goes_trans [OF g g1] unfolding e by (simp only: ac_simps)
  let ?name = "take (n + 1) (drop (lx_offset lx) (lx_buffer lx))"
  show ?thesis
  proof (cases "lx_read_names lx")
    case True
    obtain r t names where f: "get_or_add_with_type ?name (lx_names lx) = ((r, t), names)" by (metis prod.collapse)
    then show ?thesis
      using True g2 p c w get_or_add_names_ok [OF ns f] unfolding e
      by (intro exI [of _ r] exI [of _ t] exI [of _ "n + 1"] exI [of _ names]) (auto simp: read_name_def Let_def simp del: funpow.simps)
  next
    case False
    obtain r t where f: "get_with_type ?name (lx_names lx) = (r, t)" by (metis prod.collapse)
    have same: "((step ^^ (n + 1)) lx)\<lparr>lx_names := lx_names lx\<rparr> = (step ^^ (n + 1)) lx"
      by (cases "(step ^^ (n + 1)) lx") (metis lexer.update_convs(7) lexer.select_convs(7) steps_simps(5))
    show ?thesis
      using False f g2 p c w get_names_ok [OF ns f] ns same unfolding e
      by (intro exI [of _ r] exI [of _ t] exI [of _ "n + 1"] exI [of _ "lx_names lx"]) (auto simp: read_name_def Let_def simp del: funpow.simps)
  qed
qed

lemma utf_8_tail_goes: "\<exists>cp k. utf_8_tail n codepoint lx = Some (cp, (step ^^ k) lx) \<and> goes k lx ((step ^^ k) lx)"
proof (induction n arbitrary: codepoint lx)
  case (Suc n)
  show ?case
  proof (cases "peekch lx AND 0xC0 = 0x80")
    case True
    then have "peekch lx \<noteq> 0" "peekch lx \<noteq> 10" by auto
    then have c: "consume lx = Some (step lx)" and g: "goes 1 lx (step lx)" using consume_goes [OF refl, of lx] by auto
    obtain cp k where "utf_8_tail n (push_bit 6 codepoint OR ucast (peekch lx AND 0x3F)) (step lx) = Some (cp, (step ^^ k) (step lx))"
        "goes k (step lx) ((step ^^ k) (step lx))" using Suc by blast
    then show ?thesis using True c goes_trans [OF g] by (intro exI [of _ cp] exI [of _ "Suc k"]) (simp add: funpow_swap1)
  qed (intro exI [of _ None] exI [of _ 0], simp)
next
  case (0 codepoint)
  show ?case by (intro exI [of _ "Some codepoint"] exI [of _ 0]) simp
qed

lemma read_utf_8_error_lexes:
  assumes p: "peekch lx AND 0x80 \<noteq> 0" and ns: "names_ok (lx_names lx)"
  shows "lexes (read_utf_8_error lx) lx"
proof -
  have "peekch lx \<noteq> 0" "peekch lx \<noteq> 10" using p by auto
  then have c: "consume lx = Some (step lx)" and g: "goes 1 lx (step lx)" using consume_goes [OF refl, of lx] by auto
  define nc where "nc = (if peekch lx AND 0x80 = 0 then (1 :: nat, peekch lx AND 0x7F)
        else if peekch lx AND 0xE0 = 0xC0 then (2, peekch lx AND 0x1F)
        else if peekch lx AND 0xF0 = 0xE0 then (3, peekch lx AND 0xF)
        else if peekch lx AND 0xF8 = 0xF0 then (4, peekch lx AND 0x7)
        else (0, 0))"
  show ?thesis
  proof (cases "fst nc = 0")
    case True
    then show ?thesis
      using c g ns by (intro lexes_between [where lx' = "step lx" and n = 1])
        (auto simp: read_utf_8_error_def lexeme_new_def Let_def split_beta simp flip: nc_def)
  next
    case False
    obtain cp k where t: "utf_8_tail (fst nc - 1) (ucast (snd nc)) (step lx) = Some (cp, (step ^^ k) (step lx))"
        "goes k (step lx) ((step ^^ k) (step lx))" using utf_8_tail_goes by blast
    let ?lexeme = "lexeme_new (between (lexer_position lx) (lexer_position ((step ^^ k) (step lx)))) BrokenUnicode"
    have "read_utf_8_error lx = Some (case cp of None \<Rightarrow> ?lexeme | Some cp \<Rightarrow> ?lexeme\<lparr>lex_data := Codepoint cp\<rparr>, (step ^^ k) (step lx))"
      using False c t(1) by (cases cp) (simp_all add: read_utf_8_error_def Let_def split_beta flip: nc_def)
    then show ?thesis
      using goes_trans [OF g t(2)] ns by (intro lexes_between [where lx' = "(step ^^ k) (step lx)" and n = "1 + k"])
        (auto simp: lexeme_new_def split: option.splits)
  qed
qed

section \<open>The next lexeme\<close>

lemma peek_step: "peekch lx = c \<Longrightarrow> c \<notin> {0, 10} \<Longrightarrow> consume lx = Some (step lx) \<and> rest lx = c # rest (step lx)"
  using peek_nonzero [of lx] next_char [of lx] by fastforce

lemmas peek_consume = peek_step [THEN conjunct1]
lemmas peek_rest = peek_step [THEN conjunct2]

lemma lexes_one:
  assumes "peekch lx = c" and "c \<notin> {0, 10}" and "names_ok (lx_names lx)"
  shows "lexes (Some (lexeme_from_char (with_length (lexer_position lx) 1) c, step lx)) lx"
  using assms peek_step [OF assms(1,2)] lexes_fixed(2) [where lx = lx and cs = "[c]" and ds = "rest (step lx)" and c = c and t = Equal] by simp

lemma lexes_two:
  assumes "peekch lx \<notin> {0, 10}" and "peekch (step lx) \<notin> {0, 10}" and "names_ok (lx_names lx)" and "t \<notin> {Eof, LexComment, BlockComment, BrokenInterpDoubleBrace}"
  shows "lexes (Some (lexeme_new (with_length (lexer_position lx) 2) t, step (step lx))) lx"
proof -
  have "rest lx = [peekch lx, peekch (step lx)] @ rest (step (step lx))"
    using peek_step [OF refl assms(1)] peek_step [OF refl assms(2)] by (metis append_Cons append_Nil)
  from lexes_fixed(1) [OF assms(3) this _ _ assms(4)] assms(1,2) show ?thesis by (simp add: steps_3)
qed

lemma lexes_three:
  assumes "peekch lx \<notin> {0, 10}" and "peekch (step lx) \<notin> {0, 10}" and "peekch (step (step lx)) \<notin> {0, 10}"
    and "names_ok (lx_names lx)" and "t \<notin> {Eof, LexComment, BlockComment, BrokenInterpDoubleBrace}"
  shows "lexes (Some (lexeme_new (with_length (lexer_position lx) 3) t, step (step (step lx)))) lx"
proof -
  have "rest lx = [peekch lx, peekch (step lx), peekch (step (step lx))] @ rest (step (step (step lx)))"
    using peek_step [OF refl assms(1)] peek_step [OF refl assms(2)] peek_step [OF refl assms(3)] by (metis append_Cons append_Nil)
  from lexes_fixed(1) [OF assms(4) this _ _ assms(5)] assms(1-3) show ?thesis by (simp add: steps_3)
qed

lemma read_pair_lexes:
  assumes p: "peekch lx = c" and "c \<notin> {0, 10}" "d \<notin> {0, 10}" and ns: "names_ok (lx_names lx)" and t: "t \<notin> {Eof, LexComment, BlockComment, BrokenInterpDoubleBrace}"
  shows "lexes (read_pair c d t lx) lx"
  using assms peek_consume [OF p] peek_consume [of "step lx" d] lexes_one [OF p] lexes_two [of lx t]
  by (auto simp: read_pair_def Let_def)

lemma read_operator_lexes:
  assumes p: "peekch lx \<notin> {0, 10}" and ns: "names_ok (lx_names lx)"
  shows "lexes (read_operator lx) lx"
proof -
  note s1 = peek_consume [OF refl p]
  note one = lexes_one [OF refl p ns]
  have two: "lexes (Some (lexeme_new (with_length (lexer_position lx) 2) t, step (step lx))) lx" "consume (step lx) = Some (step (step lx))"
    if "peekch (step lx) = d" "d \<notin> {0, 10}" "t \<notin> {Eof, LexComment, BlockComment, BrokenInterpDoubleBrace}" for d t
    using that s1 peek_consume [of "step lx" d] p ns lexes_two [of lx t] by auto
  have three: "lexes (Some (lexeme_new (with_length (lexer_position lx) 3) t, step (step (step lx)))) lx" "consume (step (step lx)) = Some (step (step (step lx)))"
    if "peekch (step lx) = d" "d \<notin> {0, 10}" "peekch (step (step lx)) = e" "e \<notin> {0, 10}" "t \<notin> {Eof, LexComment, BlockComment, BrokenInterpDoubleBrace}" for d e t
    using that s1 peek_consume [of "step lx" d] peek_consume [of "step (step lx)" e] p ns lexes_three [of lx t] by auto
  have number: "lexes (read_number (lexer_position lx) so (step lx)) lx" if d: "is_digit (peekch (step lx))" for so
  proof -
    obtain n where "0 < n" "goes n (step lx) ((step ^^ n) (step lx))" "read_number (lexer_position lx) so (step lx) =
        Some (\<lparr>lex_type = LexNumber, lex_location = between (lexer_position lx) (lexer_position ((step ^^ n) (step lx))),
          lex_length = word_of_nat (lx_offset (step lx) + n - so), lex_data = DataAt so\<rparr>, (step ^^ n) (step lx))"
      using read_number_lexes [OF d] ns by (metis step_simps(5))
    moreover have "rest lx \<noteq> []" using peek_nonzero [of lx] p by auto
    ultimately show ?thesis
      using goes_trans [OF goes_step [of lx], of n] ns by (intro lexes_between [where n = "1 + n" and lx' = "(step ^^ n) (step lx)"]) (assumption | simp)+
  qed
  consider "peekch lx \<in> {61, 60, 62, 126, 43, 42, 37, 94, 58}" | "peekch lx = 46" | "peekch lx = 47"
    | "peekch lx \<notin> {61, 60, 62, 126, 43, 42, 37, 94, 58, 46, 47}" by blast
  then show ?thesis
  proof cases
    case 1
    then show ?thesis using ns by (elim insertE emptyE) (simp_all add: read_operator_def read_pair_lexes)
  next
    case 2
    show ?thesis
    proof (cases "peekch (step lx) = 46")
      case True
      then show ?thesis
        using 2 s1 two(1) [OF True, of Dot2] two(2) [OF True, of Dot2] three [OF True, of 46 Dot3] three [OF True, of 61 ConcatAssign]
        by (simp add: read_operator_def Let_def)
    next
      case False
      then show ?thesis
        using 2 s1 one number [of "lx_offset lx"] by (simp add: read_operator_def Let_def)
    qed
  next
    case 3
    show ?thesis
    proof (cases "peekch (step lx) = 47")
      case True
      then show ?thesis
        using 3 s1 two(1) [OF True, of FloorDiv] two(2) [OF True, of FloorDiv] three [OF True, of 61 FloorDivAssign]
        by (simp add: read_operator_def Let_def)
    next
      case False
      then show ?thesis using 3 s1 one two [of 61 DivAssign] by (simp add: read_operator_def Let_def)
    qed
  next
    case 4
    then have "read_operator lx = Some (lexeme_from_char (with_length (lexer_position lx) 1) (peekch lx), step lx)"
      using s1 by (simp add: read_operator_def Let_def)
    then show ?thesis using one by simp
  qed
qed

lemma peekch_ahead_step: "peekch_ahead lx 1 = peekch (step lx)" "peekch_ahead lx (Suc 0) = peekch (step lx)"
  by (simp_all add: peekch_ahead_def peekch_def)

lemma read_attribute_lexes:
  assumes p: "peekch lx = 64" and ns: "names_ok (lx_names lx)"
  shows "lexes (read_attribute lx) lx"
proof -
  have c: "consume lx = Some (step lx)" and g: "goes 1 lx (step lx)" using consume_goes [OF p] by simp_all
  show ?thesis
  proof (cases "peekch_ahead lx 1 = 91")
    case True
    then have "peekch (step lx) = 91" by (simp add: peekch_ahead_step)
    then show ?thesis
      using True c p ns lexes_two [of lx AttributeOpen] peek_consume [of "step lx" 91] by (simp add: read_attribute_def)
  next
    case False
    show ?thesis
    proof (cases "is_alpha (peekch (step lx)) \<or> peekch (step lx) = 95")
      case True
      then obtain r t n ns' where n: "read_name (step lx) = Some ((r, t), ((step ^^ n) (step lx))\<lparr>lx_names := ns'\<rparr>)"
          "goes n (step lx) ((step ^^ n) (step lx))" "names_ok ns'" using read_name_lexes [of "step lx"] ns by auto
      let ?lx = "((step ^^ n) (step lx))\<lparr>lx_names := ns'\<rparr>"
      have "read_attribute lx = Some (\<lparr>lex_type = Attribute, lex_location = between (lexer_position lx) (lexer_position ?lx),
          lex_length = 0, lex_data = NameIs r\<rparr>, ?lx)"
        using False True c n(1) by (simp add: read_attribute_def lexeme_with_name_def)
      moreover have "goes (1 + n) lx ?lx" using goes_update(2) [OF goes_trans [OF g n(2)]] .
      ultimately show ?thesis using n(3) by (intro lexes_between [where lx' = ?lx and n = "1 + n"]) (assumption | simp)+
    next
      case False': False
      have "read_attribute lx = Some (\<lparr>lex_type = Attribute, lex_location = between (lexer_position lx) (lexer_position (step lx)),
          lex_length = 0, lex_data = NameIs (Some [])\<rparr>, step lx)"
        using False False' c by (simp add: read_attribute_def lexeme_with_name_def)
      then show ?thesis using g ns by (intro lexes_between [where lx' = "step lx" and n = 1]) (assumption | simp)+
    qed
  qed
qed

lemma read_close_brace_lexes:
  assumes p: "peekch lx = 125" and ns: "names_ok (lx_names lx)"
  shows "lexes (read_close_brace lx) lx"
proof -
  have c: "consume lx = Some (step lx)" and g: "goes 1 lx (step lx)" using consume_goes [OF p] by simp_all
  have pos: "lexer_position (step lx) = loc_end (with_length (lexer_position lx) 1)"
    using peek_nonzero [of lx] next_char [of lx 125] p by (auto simp: with_length_def)
  show ?thesis
  proof (cases "lx_brace_stack lx" rule: rev_cases)
    case Nil
    then show ?thesis using c p ns lexes_one [OF p] by (simp add: read_close_brace_def)
  next
    case (snoc st top)
    let ?lx = "(step lx)\<lparr>lx_brace_stack := st\<rparr>"
    have g': "goes 1 lx ?lx" using goes_update(1) [OF g] .
    show ?thesis
    proof (cases "top = InterpolatedString")
      case False
      then have "read_close_brace lx = Some (lexeme_from_char (with_length (lexer_position lx) 1) 125, ?lx)"
        using snoc c by (simp add: read_close_brace_def Let_def)
      then show ?thesis
        using g' ns snoc pos
        by (intro lexes_between [where lx' = ?lx and n = 1]) (assumption | simp add: lexeme_from_char_def between_def with_length_def)+
    next
      case True
      obtain lexeme n lx' where r: "read_interpolated_string_section (lexer_position lx) InterpStringMid InterpStringEnd ?lx = Some (lexeme, lx')"
          "goes n ?lx lx'" "lx_names lx' = lx_names lx" "lx_brace_stack lx' \<in> {st, st @ [InterpolatedString]}"
          "lex_type lexeme \<notin> {Eof, LexComment, BlockComment}" "loc_begin (lex_location lexeme) = lexer_position lx"
          "lex_type lexeme \<noteq> BrokenInterpDoubleBrace \<longrightarrow> loc_end (lex_location lexeme) = lexer_position lx'"
          "lex_type lexeme = BrokenInterpDoubleBrace \<longrightarrow> 2 \<le> n \<and> loc_end (lex_location lexeme) = lexer_position ((step ^^ (n - 2)) ?lx)"
        using read_section_lexes [of InterpStringMid InterpStringEnd ?lx "lexer_position lx"] ns by auto
      have "read_close_brace lx = Some (lexeme, lx')" using snoc True c r(1) by (simp add: read_close_brace_def Let_def)
      moreover have "lexer_position ((step ^^ (n - 2)) ?lx) = lexer_position ((step ^^ (1 + n - 2)) lx)" if "2 \<le> n"
      proof -
        have "1 + (n - 2) = 1 + n - 2" using that by simp
        then show ?thesis using goes_position [OF g', of "n - 2"] by (simp only:)
      qed
      ultimately show ?thesis
        using goes_trans [OF g' r(2)] r snoc True ns unfolding lexes_def reads_def
        by (intro exI [of _ lexeme] exI [of _ lx'] exI [of _ "1 + n"]) auto
    qed
  qed
qed

lemma read_minus_lexes:
  assumes p: "peekch lx = 45" and ns: "names_ok (lx_names lx)"
  shows "lexes (read_next lx) lx"
proof -
  have c: "consume lx = Some (step lx)" using consume_goes [OF p] by simp
  have two: "consume (step lx) = Some (step (step lx))" if "peekch (step lx) \<in> {62, 61}"
    using that peek_consume [OF refl, of "step lx"] by auto
  consider "peekch (step lx) = 62" | "peekch (step lx) = 61" | "peekch (step lx) = 45" | "peekch (step lx) \<notin> {62, 61, 45}" by blast
  then show ?thesis
  proof cases
    case 1
    then show ?thesis using p c two ns lexes_two [of lx SkinnyArrow] by (simp add: read_next_def peekch_ahead_step)
  next
    case 2
    then show ?thesis using p c two ns lexes_two [of lx SubAssign] by (simp add: read_next_def peekch_ahead_step)
  next
    case 3
    then show ?thesis using p ns read_comment_body_lexes [of lx] by (simp add: read_next_def peekch_ahead_step)
  next
    case 4
    then show ?thesis using p c ns lexes_one [OF p] by (simp add: read_next_def peekch_ahead_step)
  qed
qed

lemma read_bracket_lexes:
  assumes p: "peekch lx = 91" and ns: "names_ok (lx_names lx)"
  shows "lexes (read_next lx) lx"
proof -
  obtain sep n where s: "skip_long_separator lx = Some (sep, (step ^^ n) lx)" "goes n lx ((step ^^ n) lx)" "0 < n"
      "0 \<le> sep \<longrightarrow> peekch ((step ^^ n) lx) = 91" "sep = - 1 \<longrightarrow> n = 1"
    using skip_long_separator_goes [OF p] by metis
  let ?lx = "(step ^^ n) lx"
  consider "0 \<le> sep" | "sep = - 1" | "sep < - 1" by linarith
  then show ?thesis
  proof cases
    case 1
    then have "read_next lx = read_long_string (lexer_position lx) sep RawString BrokenString ?lx"
      using p s(1) by (simp add: read_next_def del: funpow.simps)
    then show ?thesis
      using read_long_string_lexes [of ?lx sep RawString BrokenString "lexer_position lx"] 1 s ns
      by (intro lexes_from_lexes [OF _ s(2,3)]) simp_all
  next
    case 2
    then show ?thesis using p s(1,5) lexes_one [OF p] ns by (simp add: read_next_def)
  next
    case 3
    then have "read_next lx = Some (lexeme_new (between (lexer_position lx) (lexer_position ?lx)) BrokenString, ?lx)"
      using p s(1) by (simp add: read_next_def del: funpow.simps)
    then show ?thesis
      using s(2,3) ns by (intro lexes_between [where lx' = ?lx and n = n]) (assumption | simp add: lexeme_new_def)+
  qed
qed

lemma read_open_brace_lexes:
  assumes p: "peekch lx = 123" and ns: "names_ok (lx_names lx)"
  shows "lexes (read_next lx) lx"
proof -
  have c: "consume lx = Some (step lx)" and g: "goes 1 lx (step lx)" using consume_goes [OF p] by simp_all
  have pos: "lexer_position (step lx) = loc_end (with_length (lexer_position lx) 1)"
    using peek_nonzero [of lx] next_char [of lx 123] p by (auto simp: with_length_def)
  define lx' where "lx' = (if lx_brace_stack lx \<noteq> [] then (step lx)\<lparr>lx_brace_stack := lx_brace_stack lx @ [NormalBrace]\<rparr> else step lx)"
  have "read_next lx = Some (lexeme_from_char (with_length (lexer_position lx) 1) 123, lx')"
    using c p by (simp add: read_next_def lx'_def)
  moreover have "goes 1 lx lx'" "lexer_position lx' = lexer_position (step lx)" "near (lx_brace_stack lx) (lx_brace_stack lx')"
      "lx_names lx' = lx_names lx"
    using g goes_update(1) [OF g] by (simp_all add: lx'_def)
  ultimately show ?thesis
    using ns pos by (intro lexes_between [where lx' = lx' and n = 1])
      (assumption | simp add: lexeme_from_char_def between_def with_length_def)+
qed

lemma read_ident_lexes:
  assumes p: "is_alpha (peekch lx) \<or> peekch lx = 95" and ns: "names_ok (lx_names lx)"
  shows "lexes (do {
        ((name, t), lx') \<leftarrow> read_name lx;
        lexeme \<leftarrow> lexeme_with_name (between (lexer_position lx) (lexer_position lx')) t name;
        Some (lexeme, lx') }) lx"
proof -
  obtain r t n ns' where n: "read_name lx = Some ((r, t), ((step ^^ n) lx)\<lparr>lx_names := ns'\<rparr>)" "goes n lx ((step ^^ n) lx)" "0 < n"
      "names_ok ns'" "t = LexName \<or> t = Attribute \<or> Reserved_BEGIN \<le> t \<and> t < Reserved_END"
    using read_name_lexes [of lx] p ns by metis
  let ?lx = "((step ^^ n) lx)\<lparr>lx_names := ns'\<rparr>"
  have "goes n lx ?lx" using goes_update(2) [OF n(2)] .
  then show ?thesis
    using n by (intro lexes_between [where lx' = ?lx and n = n and lexeme = "\<lparr>lex_type = t,
          lex_location = between (lexer_position lx) (lexer_position ?lx), lex_length = 0, lex_data = NameIs r\<rparr>"])
      (auto simp: lexeme_with_name_def)
qed

text \<open>Every call of \<open>read_next\<close> returns: a lexeme of at least one character, or the end of the source.\<close>

lemma read_next_lexes:
  assumes ns: "names_ok (lx_names lx)" and nl: "peekch lx \<noteq> 10"
  shows "lexes (read_next lx) lx"
proof -
  let ?ops = "{61, 60, 62, 126, 46, 43, 47, 42, 37, 94, 58, 40, 41, 93, 59, 44, 35, 63, 38, 124} :: u8 set"
  consider "peekch lx = 0" | "peekch lx = 45" | "peekch lx = 91" | "peekch lx = 123" | "peekch lx \<notin> {0, 45, 91, 123}" by blast
  then show ?thesis
  proof cases
    case 1
    then have "read_next lx = Some (lexeme_new (with_length (lexer_position lx) 0) Eof, lx)" by (simp add: read_next_def)
    then show ?thesis using 1 ns by (auto simp: lexes_def reads_def lexeme_new_def with_length_def)
  next
    case 5
    then have ne: "peekch lx \<noteq> 0" "peekch lx \<noteq> 45" "peekch lx \<noteq> 91" "peekch lx \<noteq> 123" by auto
    have one: "lexes (do { lx' \<leftarrow> consume lx; Some (lexeme_from_char (with_length (lexer_position lx) 1) (peekch lx), lx') }) lx"
      using 5 nl ns lexes_one [OF refl, of lx] peek_consume [OF refl, of lx] by simp
    have op: "lexes (read_operator lx) lx" using 5 nl ns by (intro read_operator_lexes) auto
    have num: "lexes (read_number (lexer_position lx) (lx_offset lx) lx) lx" if d: "is_digit (peekch lx)"
    proof -
      obtain n where "0 < n" "goes n lx ((step ^^ n) lx)" "read_number (lexer_position lx) (lx_offset lx) lx =
        Some (\<lparr>lex_type = LexNumber, lex_location = between (lexer_position lx) (lexer_position ((step ^^ n) lx)),
          lex_length = word_of_nat (lx_offset lx + n - lx_offset lx), lex_data = DataAt (lx_offset lx)\<rparr>, (step ^^ n) lx)"
        using read_number_lexes [OF d ns] by blast
      then show ?thesis using ns by (intro lexes_between [where lx' = "(step ^^ n) lx" and n = n]) (assumption | simp)+
    qed
    have "read_next lx = (if peekch lx = 125 then read_close_brace lx
      else if peekch lx = 34 \<or> peekch lx = 39 then read_quoted_string lx
      else if peekch lx = 96 then read_interpolated_string_begin lx
      else if peekch lx \<in> ?ops then read_operator lx
      else if peekch lx = 64 then read_attribute lx
      else if is_digit (peekch lx) then read_number (lexer_position lx) (lx_offset lx) lx
      else if is_alpha (peekch lx) \<or> peekch lx = 95 then do {
        ((name, t), lx') \<leftarrow> read_name lx;
        lexeme \<leftarrow> lexeme_with_name (between (lexer_position lx) (lexer_position lx')) t name;
        Some (lexeme, lx')
      }
      else if peekch lx AND 0x80 \<noteq> 0 then read_utf_8_error lx
      else do { lx' \<leftarrow> consume lx; Some (lexeme_from_char (with_length (lexer_position lx) 1) (peekch lx), lx') })"
      using ne unfolding read_next_def Let_def by (simp del: insert_iff)
    then show ?thesis
      using one op num ns read_close_brace_lexes [of lx] read_quoted_string_lexes [of lx] read_begin_lexes [of lx] read_attribute_lexes [of lx]
        read_ident_lexes [of lx] read_utf_8_error_lexes [of lx]
      by presburger
  qed (use ns in \<open>auto intro: read_minus_lexes read_bracket_lexes read_open_brace_lexes\<close>)
qed

end
