(* ===== verification/Lexer_Next.thy ===== *)
theory Lexer_Next
  imports Lexer_Tokens
begin

text \<open>
  The interface of the lexer that the parser uses: \<open>new\<close>, \<open>next\<close>, \<open>nextline\<close>, \<open>lookahead\<close>. A lexer is
  in order when its position is the one that counting lines and columns from the start of the source
  gives; every operation keeps that, so that every lexeme is located where its characters are, and
  repeated calls of \<open>next\<close> reach the end of every source.
\<close>

section \<open>Operations\<close>

definition lexer_new :: "bytes \<Rightarrow> (bytes \<Rightarrow> lextype option) \<Rightarrow> position \<Rightarrow> lexer" where
  "lexer_new buffer names start = \<lparr>lx_buffer = buffer, lx_offset = 0, lx_line = pos_line start, lx_line_offset = 0 - pos_column start,
     lx_lexeme = lexeme_new (with_length start 0) Eof,
     lx_prev_location = \<lparr>loc_begin = \<lparr>pos_line = 0, pos_column = 0\<rparr>, loc_end = \<lparr>pos_line = 0, pos_column = 0\<rparr>\<rparr>,
     lx_names = names, lx_skip_comments = False, lx_read_names = True, lx_brace_stack = []\<rparr>"

definition is_comment :: "lexeme \<Rightarrow> bool" where
  "is_comment lexeme \<longleftrightarrow> lex_type lexeme = LexComment \<or> lex_type lexeme = BlockComment"

partial_function (option) next_with :: "bool \<Rightarrow> bool \<Rightarrow> lexer \<Rightarrow> lexer option" where
  "next_with skip_comments update_prev_location lx = do {
     lx \<leftarrow> skip_spaces lx;
     let lx = (if update_prev_location then lx\<lparr>lx_prev_location := lex_location (lx_lexeme lx)\<rparr> else lx);
     (lexeme, lx) \<leftarrow> read_next lx;
     let lx = lx\<lparr>lx_lexeme := lexeme\<rparr>;
     if skip_comments \<and> is_comment lexeme then next_with skip_comments False lx else Some lx
   }"

definition lexer_next :: "lexer \<Rightarrow> lexer option" where "lexer_next lx = next_with (lx_skip_comments lx) True lx"

definition nextline :: "lexer \<Rightarrow> lexer option" where
  "nextline lx = do { lx \<leftarrow> consume_while (\<lambda>ch. \<not> at_line_end ch) lx; lexer_next lx }"

definition lookahead :: "lexer \<Rightarrow> (lexeme \<times> lexer) option" where
  "lookahead lx = do {
     let brace_type = (if lx_brace_stack lx = [] then NormalBrace else List.last (lx_brace_stack lx));
     lx' \<leftarrow> lexer_next lx;
     let result = lx_lexeme lx';
     let lx' = lx'\<lparr>lx_offset := lx_offset lx, lx_line := lx_line lx, lx_line_offset := lx_line_offset lx, lx_lexeme := lx_lexeme lx,
       lx_prev_location := lx_prev_location lx\<rparr>;
     Some (result,
       if length (lx_brace_stack lx') < length (lx_brace_stack lx) then lx'\<lparr>lx_brace_stack := lx_brace_stack lx' @ [brace_type]\<rparr>
       else if length (lx_brace_stack lx') > length (lx_brace_stack lx) then lx'\<lparr>lx_brace_stack := butlast (lx_brace_stack lx')\<rparr>
       else lx')
   }"

definition set_skip_comments :: "bool \<Rightarrow> lexer \<Rightarrow> lexer" where "set_skip_comments skip lx = lx\<lparr>lx_skip_comments := skip\<rparr>"
definition set_read_names :: "bool \<Rightarrow> lexer \<Rightarrow> lexer" where "set_read_names rd lx = lx\<lparr>lx_read_names := rd\<rparr>"

definition peek_brace_stack_top :: "lexer \<Rightarrow> brace_type option" where
  "peek_brace_stack_top lx = (if lx_brace_stack lx = [] then None else Some (List.last (lx_brace_stack lx)))"

definition is_reserved :: "bytes \<Rightarrow> bool" where
  "is_reserved word \<longleftrightarrow> list_ex (\<lambda>i. word = kReserved ! nat (i - Reserved_BEGIN)) [Reserved_BEGIN..Reserved_END - 1]"

section \<open>Positions\<close>

text \<open>Counting lines and columns.\<close>

definition advance :: "u8 \<Rightarrow> position \<Rightarrow> position" where
  "advance c p = (if c = 10 then \<lparr>pos_line = pos_line p + 1, pos_column = 0\<rparr> else \<lparr>pos_line = pos_line p, pos_column = pos_column p + 1\<rparr>)"

definition position_at :: "position \<Rightarrow> bytes \<Rightarrow> nat \<Rightarrow> position" where
  "position_at start buffer k = fold advance (take k buffer) start"

definition lexer_ok :: "position \<Rightarrow> lexer \<Rightarrow> bool" where
  "lexer_ok start lx \<longleftrightarrow> lx_offset lx \<le> length (lx_buffer lx) \<and> names_ok (lx_names lx) \<and>
     lexer_position lx = position_at start (lx_buffer lx) (lx_offset lx)"

lemma position_step: "rest lx = c # cs \<Longrightarrow> lexer_position (step lx) = advance c (lexer_position lx)"
proof -
  assume r: "rest lx = c # cs"
  then have "lx_buffer lx ! lx_offset lx = c" by (auto simp: rest_def nth_via_drop)
  then show ?thesis by (simp add: step_def lexer_position_def advance_def)
qed

lemma position_at_Suc: "k < length buffer \<Longrightarrow> position_at start buffer (Suc k) = advance (buffer ! k) (position_at start buffer k)"
  by (simp add: position_at_def take_Suc_conv_app_nth)

lemma steps_ok: "lexer_ok start lx \<Longrightarrow> n \<le> length (rest lx) \<Longrightarrow> lexer_ok start ((step ^^ n) lx)"
proof (induction n arbitrary: lx)
  case (Suc n)
  then obtain c cs where r: "rest lx = c # cs" by (cases "rest lx") auto
  then have o: "lx_offset lx < length (lx_buffer lx)" "lx_buffer lx ! lx_offset lx = c"
    by (auto simp: rest_def nth_via_drop intro: ccontr)
  then have "lexer_ok start (step lx)"
    using Suc.prems(1) r by (simp add: lexer_ok_def position_step position_at_Suc)
  then show ?case using Suc.IH [of "step lx"] Suc.prems(2) r by (simp add: funpow_swap1)
qed simp

lemma goes_ok: "lexer_ok start lx \<Longrightarrow> goes n lx lx' \<Longrightarrow> names_ok (lx_names lx') \<Longrightarrow> lexer_ok start lx'"
proof -
  assume ok: "lexer_ok start lx" and g: "goes n lx lx'" and ns: "names_ok (lx_names lx')"
  obtain st ns' where e: "lx' = ((step ^^ n) lx)\<lparr>lx_brace_stack := st, lx_names := ns'\<rparr>" and "n \<le> length (rest lx)"
    using g unfolding goes_def by metis
  then show ?thesis using steps_ok [OF ok] ns by (simp add: lexer_ok_def)
qed

lemma lexer_new_ok: "names_ok names \<Longrightarrow> lexer_ok start (lexer_new buffer names start)"
  by (simp add: lexer_ok_def lexer_new_def lexer_position_def position_at_def)

section \<open>Next\<close>

text \<open>What a call of \<open>next\<close> leads to: the lexeme lies between the offsets \<open>b\<close> and \<open>e\<close>.\<close>

definition lexed :: "position \<Rightarrow> lexer \<Rightarrow> nat \<Rightarrow> lexer \<Rightarrow> bool" where
  "lexed start lx b lx' \<longleftrightarrow> lexer_ok start lx' \<and> lx_buffer lx' = lx_buffer lx \<and> lx_offset lx \<le> b \<and> b \<le> lx_offset lx' \<and>
     loc_begin (lex_location (lx_lexeme lx')) = position_at start (lx_buffer lx) b \<and>
     loc_end (lex_location (lx_lexeme lx')) = position_at start (lx_buffer lx)
       (if lex_type (lx_lexeme lx') = BrokenInterpDoubleBrace then lx_offset lx' - 2 else lx_offset lx') \<and>
     (lex_type (lx_lexeme lx') = BrokenInterpDoubleBrace \<longrightarrow> b + 2 \<le> lx_offset lx') \<and>
     (if lex_type (lx_lexeme lx') = Eof then b = lx_offset lx' \<and> (b = length (lx_buffer lx) \<or> lx_buffer lx ! b = 0) else b < lx_offset lx') \<and>
     near (lx_brace_stack lx) (lx_brace_stack lx') \<and> lx_skip_comments lx' = lx_skip_comments lx \<and> lx_read_names lx' = lx_read_names lx"

lemma after_spaces:
  "\<exists>n. skip_spaces lx = Some ((step ^^ n) lx) \<and> n \<le> length (rest lx) \<and> peekch ((step ^^ n) lx) \<noteq> 10"
proof (intro exI conjI)
  let ?n = "length (takeWhile is_space (rest lx))"
  show "skip_spaces lx = Some ((step ^^ ?n) lx)" by (rule skip_spaces_eq)
  show "?n \<le> length (rest lx)" by (rule length_takeWhile_le)
  have r: "rest ((step ^^ ?n) lx) = dropWhile is_space (rest lx)" by (simp add: rest_steps dropWhile_eq_drop)
  show "peekch ((step ^^ ?n) lx) \<noteq> 10"
  proof (cases "dropWhile is_space (rest lx)")
    case (Cons c cs)
    then have "\<not> is_space c" using hd_dropWhile [of is_space "rest lx"] by simp
    then show ?thesis using Cons r by (auto simp: peekch_rest is_space_def)
  next
    case Nil
    then show ?thesis using r by (simp add: peekch_rest del: dropWhile_eq_Nil_conv)
  qed
qed

lemma read_next_frame:
  "goes n lx lx' \<Longrightarrow> lx_skip_comments lx' = lx_skip_comments lx \<and> lx_lexeme lx' = lx_lexeme lx \<and> lx_prev_location lx' = lx_prev_location lx"
proof -
  assume "goes n lx lx'"
  then obtain st ns' where "lx' = ((step ^^ n) lx)\<lparr>lx_brace_stack := st, lx_names := ns'\<rparr>" unfolding goes_def by metis
  then show ?thesis by simp
qed

text \<open>One turn of the loop.\<close>

lemma next_turn:
  assumes ok: "lexer_ok start lx"
  shows "\<exists>lx1 lexeme lx' b. skip_spaces lx = Some lx1 \<and>
    read_next (if upd then lx1\<lparr>lx_prev_location := lex_location (lx_lexeme lx1)\<rparr> else lx1) = Some (lexeme, lx') \<and>
    lexed start lx b (lx'\<lparr>lx_lexeme := lexeme\<rparr>) \<and>
    lx_prev_location lx' = (if upd then lex_location (lx_lexeme lx) else lx_prev_location lx) \<and>
    (is_comment lexeme \<longrightarrow> lx_brace_stack lx' = lx_brace_stack lx)"
proof -
  obtain n where s: "skip_spaces lx = Some ((step ^^ n) lx)" "n \<le> length (rest lx)" "peekch ((step ^^ n) lx) \<noteq> 10"
    using after_spaces by blast
  define lx1 where "lx1 = (if upd then ((step ^^ n) lx)\<lparr>lx_prev_location := lex_location (lx_lexeme lx)\<rparr> else (step ^^ n) lx)"
  have p1: "peekch lx1 = peekch ((step ^^ n) lx)" "rest lx1 = drop n (rest lx)" by (simp_all add: lx1_def peekch_def rest_def add.commute)
  have f1: "lx_buffer lx1 = lx_buffer lx" "lx_offset lx1 = lx_offset lx + n" "lx_names lx1 = lx_names lx"
      "lx_brace_stack lx1 = lx_brace_stack lx" "lx_skip_comments lx1 = lx_skip_comments lx" "lx_read_names lx1 = lx_read_names lx"
      "lx_prev_location lx1 = (if upd then lex_location (lx_lexeme lx) else lx_prev_location lx)"
    by (simp_all add: lx1_def)
  have ok1: "lexer_ok start lx1" using steps_ok [OF ok s(2)] by (simp add: lx1_def lexer_ok_def lexer_position_def)
  obtain lexeme lx' m where r: "read_next lx1 = Some (lexeme, lx')" and rd: "reads (lexer_position lx1) m lx1 lexeme lx'"
      and eof: "lex_type lexeme = Eof \<longleftrightarrow> m = 0" "m = 0 \<longrightarrow> peekch lx1 = 0 \<and> lx' = lx1"
    using read_next_lexes [of lx1] ok p1(1) s(3) f1(3) unfolding lexes_def lexer_ok_def by metis
  have g: "goes m lx1 lx'" using rd by (simp add: reads_def)
  have ok': "lexer_ok start lx'" using goes_ok [OF ok1 g] rd by (simp add: reads_def)
  have at_end: "lx_offset lx1 = length (lx_buffer lx) \<or> lx_buffer lx ! lx_offset lx1 = 0" if "m = 0"
    using that eof(2) ok1 f1(1) by (auto simp: peekch_def lexer_ok_def split: if_splits)
  have pos: "lexer_position lx1 = position_at start (lx_buffer lx) (lx_offset lx1)"
      "lexer_position lx' = position_at start (lx_buffer lx) (lx_offset lx')"
    using ok1 ok' f1(1) goes_rest(3) [OF g] by (simp_all add: lexer_ok_def)
  have broken: "2 \<le> m \<and> loc_end (lex_location lexeme) = position_at start (lx_buffer lx) (lx_offset lx1 + m - 2)"
    if "lex_type lexeme = BrokenInterpDoubleBrace"
  proof -
    have m: "2 \<le> m" "loc_end (lex_location lexeme) = lexer_position ((step ^^ (m - 2)) lx1)" using rd that by (simp_all add: reads_def)
    have "lexer_ok start ((step ^^ (m - 2)) lx1)" using goes_rest(4) [OF g] by (intro steps_ok [OF ok1]) simp
    then show ?thesis using m f1(1) by (simp add: lexer_ok_def)
  qed
  have off: "lx_offset lx' = lx_offset lx1 + m" "lx_offset lx \<le> lx_offset lx1" "lx_buffer lx' = lx_buffer lx"
      "lx_read_names lx' = lx_read_names lx" "lx_skip_comments lx' = lx_skip_comments lx"
    using goes_rest [OF g] read_next_frame [OF g] f1 by simp_all
  have "lexer_ok start (lx'\<lparr>lx_lexeme := lexeme\<rparr>)" using ok' by (simp add: lexer_ok_def lexer_position_def)
  moreover have "near (lx_brace_stack lx) (lx_brace_stack lx')" "loc_begin (lex_location lexeme) = lexer_position lx1"
      "lex_type lexeme \<noteq> BrokenInterpDoubleBrace \<longrightarrow> loc_end (lex_location lexeme) = lexer_position lx'"
    using rd f1(4) by (simp_all add: reads_def)
  ultimately have "lexed start lx (lx_offset lx1) (lx'\<lparr>lx_lexeme := lexeme\<rparr>)"
    using off pos eof(1) at_end broken unfolding lexed_def by simp
  moreover have "read_next (if upd then ((step ^^ n) lx)\<lparr>lx_prev_location := lex_location (lx_lexeme ((step ^^ n) lx))\<rparr> else (step ^^ n) lx)
      = Some (lexeme, lx')" using r by (simp only: lx1_def steps_simps)
  moreover have "lx_prev_location lx' = (if upd then lex_location (lx_lexeme lx) else lx_prev_location lx)"
    using read_next_frame [OF g] f1 by simp
  moreover have "is_comment lexeme \<longrightarrow> lx_brace_stack lx' = lx_brace_stack lx" using rd f1(4) by (auto simp: reads_def is_comment_def)
  ultimately show ?thesis using s(1) by blast
qed

text \<open>The loop over the comments.\<close>

lemma lexed_after_comment:
  assumes "lexed start lx b lx1" and "lexed start lx1 b' lx2" and "lx_brace_stack lx1 = lx_brace_stack lx"
  shows "lexed start lx b' lx2"
proof -
  have "lx_offset lx \<le> lx_offset lx1" using assms(1) by (simp add: lexed_def)
  moreover have "lx_offset lx1 \<le> b'" using assms(2) by (simp add: lexed_def)
  ultimately have "lx_offset lx \<le> b'" by simp
  moreover have "lx_buffer lx1 = lx_buffer lx" "lx_skip_comments lx1 = lx_skip_comments lx" "lx_read_names lx1 = lx_read_names lx"
    using assms(1) by (simp_all add: lexed_def)
  ultimately show ?thesis using assms(2,3) unfolding lexed_def by (simp only:) blast
qed

lemma next_with_lexed:
  assumes "lexer_ok start lx"
  shows "\<exists>lx' b. next_with skip upd lx = Some lx' \<and> lexed start lx b lx' \<and> (skip \<longrightarrow> \<not> is_comment (lx_lexeme lx')) \<and>
    lx_prev_location lx' = (if upd then lex_location (lx_lexeme lx) else lx_prev_location lx)"
  using assms
proof (induction "length (lx_buffer lx) - lx_offset lx" arbitrary: lx upd rule: less_induct)
  case less
  obtain lx1 lexeme lx2 b where t: "skip_spaces lx = Some lx1"
      "read_next (if upd then lx1\<lparr>lx_prev_location := lex_location (lx_lexeme lx1)\<rparr> else lx1) = Some (lexeme, lx2)"
      "lexed start lx b (lx2\<lparr>lx_lexeme := lexeme\<rparr>)"
      "lx_prev_location lx2 = (if upd then lex_location (lx_lexeme lx) else lx_prev_location lx)"
      "is_comment lexeme \<longrightarrow> lx_brace_stack lx2 = lx_brace_stack lx"
    using next_turn [OF less.prems, of upd] by blast
  let ?lx = "lx2\<lparr>lx_lexeme := lexeme\<rparr>"
  have step: "next_with skip upd lx = (if skip \<and> is_comment lexeme then next_with skip False ?lx else Some ?lx)"
    by (subst next_with.simps) (simp add: t(1,2) Let_def)
  show ?case
  proof (cases "skip \<and> is_comment lexeme")
    case True
    then have "lex_type lexeme \<noteq> Eof" by (auto simp: is_comment_def)
    then have "lexer_ok start ?lx" "length (lx_buffer ?lx) - lx_offset ?lx < length (lx_buffer lx) - lx_offset lx"
      using t(3) less.prems by (auto simp: lexed_def lexer_ok_def)
    from less.hyps [OF this(2,1), of False] obtain lx' b' where n: "next_with skip False ?lx = Some lx'" "lexed start ?lx b' lx'"
        "skip \<longrightarrow> \<not> is_comment (lx_lexeme lx')" "lx_prev_location lx' = lx_prev_location ?lx" by auto
    have "lexed start lx b' lx'" using lexed_after_comment [OF t(3) n(2)] t(5) True by simp
    then show ?thesis using n t(4) True unfolding step by auto
  next
    case False
    then show ?thesis using t(3,4) unfolding step by auto
  qed
qed

section \<open>What the parser relies on\<close>

text \<open>C8: \<open>next\<close> always returns, from every state of the lexer that is in order, and leaves it in order. The
  new lexeme starts at an offset \<open>b\<close> behind the old lexeme and ends at the new offset; its location is the line
  and column of these two offsets in the source, except that the location of a broken \<open>{{\<close> of an interpolated string ends two characters
  earlier, in front of the braces that \<open>next\<close> has consumed; it is not empty, unless it is the end of the source; a comment is not returned when comments are skipped; and the
  previous location is the one of the old lexeme.\<close>

theorem next_located:
  assumes "lexer_ok start lx"
  shows "\<exists>lx' b. lexer_next lx = Some lx' \<and> lexer_ok start lx' \<and> lx_buffer lx' = lx_buffer lx \<and>
    lx_offset lx \<le> b \<and> b \<le> lx_offset lx' \<and>
    loc_begin (lex_location (lx_lexeme lx')) = position_at start (lx_buffer lx) b \<and>
    loc_end (lex_location (lx_lexeme lx')) = position_at start (lx_buffer lx)
      (if lex_type (lx_lexeme lx') = BrokenInterpDoubleBrace then lx_offset lx' - 2 else lx_offset lx') \<and>
    (lex_type (lx_lexeme lx') = BrokenInterpDoubleBrace \<longrightarrow> b + 2 \<le> lx_offset lx') \<and>
    (if lex_type (lx_lexeme lx') = Eof then b = lx_offset lx' \<and> (b = length (lx_buffer lx) \<or> lx_buffer lx ! b = 0) else b < lx_offset lx') \<and>
    (lx_skip_comments lx \<longrightarrow> \<not> is_comment (lx_lexeme lx')) \<and>
    lx_prev_location lx' = lex_location (lx_lexeme lx)"
proof -
  obtain lx' b where n: "next_with (lx_skip_comments lx) True lx = Some lx'" "lexed start lx b lx'"
      "lx_skip_comments lx \<longrightarrow> \<not> is_comment (lx_lexeme lx')" "lx_prev_location lx' = lex_location (lx_lexeme lx)"
    using next_with_lexed [OF assms, of "lx_skip_comments lx" True] by auto
  then show ?thesis
    unfolding lexer_next_def lexed_def by (intro exI [of _ lx'] exI [of _ b] conjI) blast+
qed

theorem next_located_witness:
  "\<exists>lx' b. lexer_next (lexer_new [97, 10, 98] name_table_new \<lparr>pos_line = 0, pos_column = 0\<rparr>) = Some lx' \<and> b \<le> lx_offset lx' \<and>
    loc_begin (lex_location (lx_lexeme lx')) = position_at \<lparr>pos_line = 0, pos_column = 0\<rparr> [97, 10, 98] b"
proof -
  have "lexer_ok \<lparr>pos_line = 0, pos_column = 0\<rparr> (lexer_new [97, 10, 98] name_table_new \<lparr>pos_line = 0, pos_column = 0\<rparr>)"
    by (rule lexer_new_ok) simp
  from next_located [OF this] show ?thesis by (auto simp: lexer_new_def)
qed

text \<open>Repeated calls of \<open>next\<close>.\<close>

fun nexts :: "nat \<Rightarrow> lexer \<Rightarrow> lexer option" where
  "nexts 0 lx = Some lx"
| "nexts (Suc n) lx = do { lx \<leftarrow> lexer_next lx; nexts n lx }"

lemma nexts_reach_end:
  assumes "lexer_ok start lx"
  shows "\<exists>n lx'. n \<le> length (lx_buffer lx) - lx_offset lx + 1 \<and> nexts n lx = Some lx' \<and> lexer_ok start lx' \<and> lex_type (lx_lexeme lx') = Eof \<and>
    lx_buffer lx' = lx_buffer lx \<and> (lx_offset lx' = length (lx_buffer lx) \<or> lx_buffer lx ! lx_offset lx' = 0)"
  using assms
proof (induction "length (lx_buffer lx) - lx_offset lx" arbitrary: lx rule: less_induct)
  case less
  obtain lx1 b where n: "next_with (lx_skip_comments lx) True lx = Some lx1" and l: "lexed start lx b lx1"
    using next_with_lexed [OF less.prems] by blast
  have s: "nexts (Suc k) lx = nexts k lx1" for k using n by (simp add: lexer_next_def)
  show ?case
  proof (cases "lex_type (lx_lexeme lx1) = Eof")
    case True
    then show ?thesis using l s [of 0] by (intro exI [of _ 1] exI [of _ lx1]) (auto simp: lexed_def)
  next
    case False
    have b: "b < lx_offset lx1" "lx_offset lx \<le> b" "lexer_ok start lx1" "lx_buffer lx1 = lx_buffer lx" using l False by (simp_all add: lexed_def)
    then have "length (lx_buffer lx1) - lx_offset lx1 < length (lx_buffer lx) - lx_offset lx" by (auto simp: lexer_ok_def)
    from less.hyps [OF this b(3)] obtain k lx' where k: "k \<le> length (lx_buffer lx) - lx_offset lx1 + 1" "nexts k lx1 = Some lx'" "lexer_ok start lx'"
        "lex_type (lx_lexeme lx') = Eof" "lx_buffer lx' = lx_buffer lx" "lx_offset lx' = length (lx_buffer lx) \<or> lx_buffer lx ! lx_offset lx' = 0"
      unfolding b(4) by blast
    have "Suc k \<le> length (lx_buffer lx) - lx_offset lx + 1" using k(1) b by (auto simp: lexer_ok_def)
    then show ?thesis using k s [of k] by (intro exI [of _ "Suc k"] exI [of _ lx']) simp
  qed
qed

text \<open>C7: Every source is lexed to its end: after at most one call of \<open>next\<close> for every character, and one more,
  the lexeme is \<open>Eof\<close>, at the end of the source or at its first NUL character that is not inside a lexeme.
  No call reads outside the source or fails an assertion.\<close>

theorem every_source_is_lexed:
  "\<exists>n lx. n \<le> length source + 1 \<and> nexts n (set_read_names rd (set_skip_comments skip (lexer_new source name_table_new start))) = Some lx \<and>
    lex_type (lx_lexeme lx) = Eof \<and> (lx_offset lx = length source \<or> source ! lx_offset lx = 0)"
proof -
  let ?lx = "set_read_names rd (set_skip_comments skip (lexer_new source name_table_new start))"
  have "lexer_ok start ?lx"
    using lexer_new_ok [of name_table_new start source] by (simp add: lexer_ok_def set_read_names_def set_skip_comments_def lexer_position_def)
  from nexts_reach_end [OF this] show ?thesis
    by (simp add: set_read_names_def set_skip_comments_def lexer_new_def) blast
qed

text \<open>C24: \<open>lookahead\<close> returns the lexeme that \<open>next\<close> would read, and puts the lexer back: the offset, the line,
  the current lexeme, the previous location and the brace stack are what they were, and only the name table may
  have grown.\<close>

theorem lookahead_restores:
  assumes "lexer_ok start lx"
  shows "\<exists>lx'. lexer_next lx = Some lx' \<and> lookahead lx = Some (lx_lexeme lx', lx\<lparr>lx_names := lx_names lx'\<rparr>)"
proof -
  obtain lx' b where n: "lexer_next lx = Some lx'" and l: "lexed start lx b lx'"
    using next_with_lexed [OF assms] unfolding lexer_next_def by blast
  have f: "lx_buffer lx' = lx_buffer lx" "lx_skip_comments lx' = lx_skip_comments lx" "lx_read_names lx' = lx_read_names lx"
      "near (lx_brace_stack lx) (lx_brace_stack lx')" using l by (simp_all add: lexed_def)
  have eq: "lx1 = lx2" if "lx_buffer lx1 = lx_buffer lx2" "lx_offset lx1 = lx_offset lx2" "lx_line lx1 = lx_line lx2"
    "lx_line_offset lx1 = lx_line_offset lx2" "lx_lexeme lx1 = lx_lexeme lx2" "lx_prev_location lx1 = lx_prev_location lx2"
    "lx_names lx1 = lx_names lx2" "lx_skip_comments lx1 = lx_skip_comments lx2" "lx_read_names lx1 = lx_read_names lx2"
    "lx_brace_stack lx1 = lx_brace_stack lx2" for lx1 lx2 :: lexer
    using that by (cases lx1; cases lx2) simp
  from f(4) consider "lx_brace_stack lx' = lx_brace_stack lx" | x where "lx_brace_stack lx' = lx_brace_stack lx @ [x]"
    | x where "lx_brace_stack lx = lx_brace_stack lx' @ [x]" unfolding near_def by blast
  then have "\<exists>lx2. lookahead lx = Some (lx_lexeme lx', lx2) \<and> lx2 = lx\<lparr>lx_names := lx_names lx'\<rparr>"
    by cases (simp_all add: lookahead_def Let_def n, (intro eq; simp add: f(1-3))+)
  then show ?thesis using n by blast
qed

theorem lookahead_restores_witness:
  "\<exists>result names. lookahead (lexer_new [125, 97] name_table_new \<lparr>pos_line = 0, pos_column = 0\<rparr>) =
    Some (result, (lexer_new [125, 97] name_table_new \<lparr>pos_line = 0, pos_column = 0\<rparr>)\<lparr>lx_names := names\<rparr>)"
proof -
  have "lexer_ok \<lparr>pos_line = 0, pos_column = 0\<rparr> (lexer_new [125, 97] name_table_new \<lparr>pos_line = 0, pos_column = 0\<rparr>)"
    by (rule lexer_new_ok) simp
  from lookahead_restores [OF this] show ?thesis by auto
qed

end
