(* ===== verification/Lexer_Text.thy ===== *)
theory Lexer_Text
  imports Lexer_Next
begin

text \<open>
  What lexemes contain: words are read to their last character and told apart from the reserved ones,
  long strings end at the first closing bracket of their level, and the contents of quoted strings
  are the inverse of the escapes that \<open>luaur-common\<close> prints.
\<close>

section \<open>Words\<close>

lemma kReserved_distinct: "distinct kReserved" and kReserved_length [simp]: "length kReserved = 21"
  by (simp_all add: kReserved_def)

lemma name_table_new_reserved: "i < 21 \<Longrightarrow> name_table_new (kReserved ! i) = Some (Reserved_BEGIN + int i)"
proof -
  assume i: "i < 21"
  have "map_of (zip kReserved [Reserved_BEGIN..Reserved_END - 1]) (kReserved ! i) = Some ([Reserved_BEGIN..Reserved_END - 1] ! i)"
    using i kReserved_distinct by (intro map_of_zip_nth) simp_all
  also have "[Reserved_BEGIN..Reserved_END - 1] ! i = Reserved_BEGIN + int i" by (subst nth_upto) (use i in simp_all)
  finally show ?thesis unfolding name_table_new_def .
qed

lemma name_table_new_None: "name_table_new word = None \<longleftrightarrow> word \<notin> set kReserved"
proof -
  have "length kReserved = length [Reserved_BEGIN..Reserved_END - 1]" by simp
  then show ?thesis unfolding name_table_new_def by (simp only: map_of_eq_None_iff set_map [symmetric] map_fst_zip)
qed

lemma is_reserved_iff: "is_reserved word \<longleftrightarrow> word \<in> set kReserved"
proof -
  have "is_reserved word \<longleftrightarrow> (\<exists>i \<in> {Reserved_BEGIN..Reserved_END - 1}. word = kReserved ! nat (i - Reserved_BEGIN))"
    unfolding is_reserved_def list_ex_iff set_upto ..
  also have "\<dots> \<longleftrightarrow> (\<exists>i < 21. word = kReserved ! i)"
  proof
    assume "\<exists>i < 21. word = kReserved ! i"
    then obtain i where "i < 21" "word = kReserved ! i" by blast
    then show "\<exists>i \<in> {Reserved_BEGIN..Reserved_END - 1}. word = kReserved ! nat (i - Reserved_BEGIN)"
      by (intro bexI [of _ "Reserved_BEGIN + int i"]) auto
  next
    assume "\<exists>i \<in> {Reserved_BEGIN..Reserved_END - 1}. word = kReserved ! nat (i - Reserved_BEGIN)"
    then obtain i where "Reserved_BEGIN \<le> i" "i \<le> Reserved_END - 1" "word = kReserved ! nat (i - Reserved_BEGIN)" by auto
    then show "\<exists>i < 21. word = kReserved ! i" by (intro exI [of _ "nat (i - Reserved_BEGIN)"]) auto
  qed
  also have "\<dots> \<longleftrightarrow> word \<in> set kReserved" by (auto simp: in_set_conv_nth)
  finally show ?thesis .
qed

text \<open>The type of a word.\<close>

definition word_type :: "bytes \<Rightarrow> lextype" where
  "word_type word = (case name_table_new word of Some t \<Rightarrow> t | None \<Rightarrow> LexName)"

lemma word_start: "is_ident c \<Longrightarrow> \<not> is_digit c \<Longrightarrow> (is_alpha c \<or> c = 95) \<and>
    c \<notin> {0, 45, 91, 123, 125, 34, 39, 96, 61, 60, 62, 126, 46, 43, 47, 42, 37, 94, 58, 40, 41, 93, 59, 44, 35, 63, 38, 124, 64}"
  by (auto simp: is_ident_def is_alpha_def)

lemma takeWhile_word: "\<forall>c \<in> set word. p c \<Longrightarrow> cs = [] \<or> \<not> p (hd cs) \<Longrightarrow> takeWhile p (word @ cs) = word"
  by (cases cs) simp_all

lemma read_name_word:
  assumes r: "rest lx = word @ cs" and w: "word \<noteq> []" "\<forall>c \<in> set word. is_ident c" "\<not> is_digit (hd word)"
    and e: "cs = [] \<or> \<not> is_ident (hd cs)" and ns: "names_ok (lx_names lx)" and rn: "lx_read_names lx"
  shows "\<exists>names. read_name lx = Some ((Some word, word_type word), ((step ^^ length word) lx)\<lparr>lx_names := names\<rparr>) \<and> names_ok names"
proof -
  obtain c word' where word: "word = c # word'" using w(1) by (cases word) auto
  have c: "is_alpha c \<or> c = 95" "c \<noteq> 64" using word_start [of c] w(2,3) word by auto
  have cons: "consume lx = Some (step lx)" using consume_rest [of lx c "word' @ cs"] ident_not_newline [of c] r w(2) word by simp
  have "takeWhile is_ident (rest (step lx)) = word'" using takeWhile_word [of word' is_ident cs] r w(2) word e by simp
  then have wh: "consume_while is_ident (step lx) = Some ((step ^^ length word') (step lx))"
    using consume_while_eq [of is_ident "step lx", OF ident_not_newline] by simp
  have st: "(step ^^ length word') (step lx) = (step ^^ length word) lx" using word by (simp add: funpow_swap1)
  have name: "take (length word) (drop (lx_offset lx) (lx_buffer lx)) = word" using r by (simp add: rest_def)
  obtain r t names where g: "get_or_add_with_type word (lx_names lx) = ((r, t), names)" by (metis prod.collapse)
  have t: "t = word_type word"
    using g c(2) word names_ok_reserved [OF ns, of word] names_ok_other [OF ns, of word]
    by (auto simp: get_or_add_with_type_def word_type_def Let_def split: option.splits)
  show ?thesis
    using cons wh c(1) rn g t name get_or_add_names_ok [OF ns g] r word unfolding st
    by (auto simp: read_name_def peekch_rest Let_def simp del: funpow.simps)
qed

text \<open>C35: A word, that is a letter or an underscore followed by letters, digits and underscores, is read to its
  last character into one lexeme, whose type is the reserved type of the word when it is a reserved word, at its
  place in the list of the reserved words, and \<open>Name\<close> when it is not.\<close>

theorem words_are_read:
  assumes "rest lx = word @ cs" and "word \<noteq> []" and "\<forall>c \<in> set word. is_ident c" and "\<not> is_digit (hd word)"
    and "cs = [] \<or> \<not> is_ident (hd cs)" and "names_ok (lx_names lx)" and "lx_read_names lx"
  shows "\<exists>lexeme lx'. read_next lx = Some (lexeme, lx') \<and> rest lx' = cs \<and> lex_data lexeme = NameIs (Some word) \<and>
    (if is_reserved word then \<exists>i < 21. kReserved ! i = word \<and> lex_type lexeme = Reserved_BEGIN + int i
     else lex_type lexeme = LexName)"
proof -
  obtain names where n: "read_name lx = Some ((Some word, word_type word), ((step ^^ length word) lx)\<lparr>lx_names := names\<rparr>)" "names_ok names"
    using read_name_word [OF assms] by blast
  let ?lx = "((step ^^ length word) lx)\<lparr>lx_names := names\<rparr>"
  have p: "peekch lx = hd word" using assms(1,2) by (cases word) (simp_all add: peekch_rest)
  have s: "(is_alpha (peekch lx) \<or> peekch lx = 95) \<and>
      peekch lx \<notin> {0, 45, 91, 123, 125, 34, 39, 96, 61, 60, 62, 126, 46, 43, 47, 42, 37, 94, 58, 40, 41, 93, 59, 44, 35, 63, 38, 124, 64}"
    using word_start [of "hd word"] assms(2-4) unfolding p by simp
  have type: "if is_reserved word then \<exists>i < 21. kReserved ! i = word \<and> word_type word = Reserved_BEGIN + int i else word_type word = LexName"
  proof (cases "is_reserved word")
    case True
    then obtain i where "i < 21" "kReserved ! i = word" by (auto simp: is_reserved_iff in_set_conv_nth)
    then show ?thesis using True name_table_new_reserved [of i] by (auto simp: word_type_def)
  next
    case False
    then show ?thesis using name_table_new_None [of word] by (simp add: is_reserved_iff word_type_def)
  qed
  then have asserted: "word_type word = LexName \<or> word_type word = Attribute \<or> Reserved_BEGIN \<le> word_type word \<and> word_type word < Reserved_END"
    by (auto split: if_splits)
  have "read_next lx = do {
        ((name, t), lx') \<leftarrow> read_name lx;
        lexeme \<leftarrow> lexeme_with_name (between (lexer_position lx) (lexer_position lx')) t name;
        Some (lexeme, lx') }"
    using s assms(2-4) unfolding read_next_def p [symmetric] Let_def by (simp add: p)
  then have "read_next lx = Some (\<lparr>lex_type = word_type word, lex_location = between (lexer_position lx) (lexer_position ?lx),
      lex_length = 0, lex_data = NameIs (Some word)\<rparr>, ?lx)"
    using n(1) asserted by (simp add: lexeme_with_name_def)
  moreover have "rest ?lx = cs" using assms(1) by (simp add: rest_steps)
  ultimately show ?thesis using type by simp
qed

theorem words_are_read_witness:
  "\<exists>lexeme lx'. read_next (lexer_new (map of_char ''until x'') name_table_new \<lparr>pos_line = 0, pos_column = 0\<rparr>) = Some (lexeme, lx') \<and>
    (\<exists>i < 21. kReserved ! i = map of_char ''until'' \<and> lex_type lexeme = Reserved_BEGIN + int i)"
proof -
  let ?lx = "lexer_new (map of_char ''until x'') name_table_new \<lparr>pos_line = 0, pos_column = 0\<rparr>"
  have "\<exists>lexeme lx'. read_next ?lx = Some (lexeme, lx') \<and> rest lx' = map of_char '' x'' \<and>
    lex_data lexeme = NameIs (Some (map of_char ''until'')) \<and>
    (if is_reserved (map of_char ''until'') then \<exists>i < 21. kReserved ! i = map of_char ''until'' \<and> lex_type lexeme = Reserved_BEGIN + int i
     else lex_type lexeme = LexName)"
    by (rule words_are_read) (simp_all add: lexer_new_def rest_def is_ident_def is_alpha_def is_digit_def)
  moreover have "is_reserved (map of_char ''until'')" by (simp add: is_reserved_iff kReserved_def)
  ultimately show ?thesis by auto
qed

section \<open>Long strings\<close>

lemma equals_replicate_append: "cs = [] \<or> hd cs \<noteq> 61 \<Longrightarrow> equals (replicate s 61 @ cs) = s"
  unfolding equals_def by (subst takeWhile_word) auto

text \<open>The loop stops behind the first closing bracket.\<close>

lemma long_string_loop_first:
  assumes r: "rest lx = body @ close @ cs" and c: "close = 93 # replicate s 61 @ [93]" and nz: "0 \<notin> set body"
    and first: "\<forall>j < length body. \<not> closes s (drop j (body @ close @ cs))"
  shows "long_string_loop (int s) lx = Some (True, (step ^^ (length body + s + 2)) lx)"
proof -
  have closes: "closes s (drop (length body) (rest lx))" using r c by (auto simp: closes_def)
  have pos: "(0 :: int) \<le> int s" by simp
  from long_string_loop_eq [OF pos, of lx] show ?thesis
  proof (elim disjE exE)
    fix m assume m: "long_string_loop (int s) lx = Some (True, (step ^^ (m + nat (int s) + 2)) lx) \<and> m + nat (int s) + 2 \<le> length (rest lx) \<and>
      closes (nat (int s)) (drop m (rest lx)) \<and> (\<forall>j < m. \<not> closes (nat (int s)) (drop j (rest lx)))"
    have "\<not> length body < m" using m closes by auto
    moreover have "\<not> m < length body" using m first r by auto
    ultimately have "m = length body" by simp
    then show ?thesis using m by simp
  next
    fix n assume n: "long_string_loop (int s) lx = Some (False, (step ^^ n) lx) \<and> n \<le> length (rest lx) \<and>
      (n < length (rest lx) \<longrightarrow> rest lx ! n = 0) \<and> (\<forall>j < n. \<not> closes (nat (int s)) (drop j (rest lx)))"
    then have le: "n \<le> length body" using closes by (metis nat_int not_le)
    then have "n < length (rest lx)" using r c by simp
    then have "rest lx ! n = 0" using n by simp
    then have "\<not> n < length body" using r nz by (metis nth_append nth_mem)
    then have "n = length body" using le by simp
    then show ?thesis using \<open>rest lx ! n = 0\<close> r c by (simp add: nth_append)
  qed
qed

text \<open>C36: A long string \<open>[=*[ body ]=*]\<close>, in which \<open>body\<close> holds no NUL and no closing bracket of that level begins
  before its end, is read to that bracket as one raw string, and the payload of the lexeme is exactly \<open>body\<close>:
  its address in the source and its length.\<close>

theorem long_string_is_read:
  assumes "rest lx = 91 # replicate s 61 @ 91 # body @ close @ cs" and "close = 93 # replicate s 61 @ [93]" and "0 \<notin> set body"
    and "\<forall>j < length body. \<not> closes s (drop j (body @ close @ cs))"
  shows "\<exists>lexeme lx' start. read_next lx = Some (lexeme, lx') \<and> rest lx' = cs \<and> lex_type lexeme = RawString \<and> lex_data lexeme = DataAt start \<and>
    lex_length lexeme = word_of_nat (length body) \<and> take (length body) (drop start (lx_buffer lx)) = body"
proof -
  have eqs: "equals (replicate s 61 @ 91 # body @ close @ cs) = s" by (rule equals_replicate_append) simp
  define lx1 where "lx1 = (step ^^ (s + 1)) lx"
  have sep: "skip_long_separator lx = Some (int s, lx1)"
    using skip_long_separator_eq [OF assms(1)] eqs by (simp add: nth_append lx1_def)
  have r1: "rest lx1 = 91 # body @ close @ cs" using assms(1) by (simp add: lx1_def rest_steps del: funpow.simps)
  then have c: "consume lx1 = Some (step lx1)" and p1: "peekch lx1 = 91" by (simp_all add: consume_rest peekch_rest)
  have r2: "rest (step lx1) = body @ close @ cs" using r1 by simp
  define lx2 where "lx2 = (step ^^ (length body + s + 2)) (step lx1)"
  have l: "long_string_loop (int s) (step lx1) = Some (True, lx2)"
    using long_string_loop_first [OF r2 assms(2-4)] by (simp add: lx2_def)
  have o: "lx_offset lx2 = lx_offset lx1 + 1 + (length body + s + 2)" "lx_buffer lx2 = lx_buffer lx"
    by (simp_all add: lx2_def lx1_def del: funpow.simps)
  have "peekch lx = 91" using assms(1) by (simp add: peekch_rest)
  then have "read_next lx = read_long_string (lexer_position lx) (int s) RawString BrokenString lx1"
    using sep by (simp add: read_next_def)
  also have "\<dots> = Some (\<lparr>lex_type = RawString, lex_location = between (lexer_position lx) (lexer_position lx2),
      lex_length = word_of_nat (length body), lex_data = DataAt (lx_offset lx1 + 1)\<rparr>, lx2)"
    using p1 c l o by (simp add: read_long_string_def lexeme_with_data_def)
  finally have n: "read_next lx = Some (\<lparr>lex_type = RawString, lex_location = between (lexer_position lx) (lexer_position lx2),
      lex_length = word_of_nat (length body), lex_data = DataAt (lx_offset lx1 + 1)\<rparr>, lx2)" .
  have "rest lx2 = cs" using r2 assms(2) by (simp add: lx2_def rest_steps del: funpow.simps)
  moreover have "take (length body) (drop (lx_offset lx1 + 1) (lx_buffer lx)) = body"
    using r2 by (simp add: rest_def lx1_def del: funpow.simps)
  ultimately show ?thesis using n by simp
qed

theorem long_string_is_read_witness:
  "\<exists>lexeme lx' start. read_next (lexer_new (map of_char ''[=[a]b]=]c'') name_table_new \<lparr>pos_line = 0, pos_column = 0\<rparr>) = Some (lexeme, lx') \<and>
    rest lx' = map of_char ''c'' \<and> lex_type lexeme = RawString \<and> lex_data lexeme = DataAt start \<and>
    take 3 (drop start (map of_char ''[=[a]b]=]c'')) = (map of_char ''a]b'' :: bytes)"
proof -
  let ?lx = "lexer_new (map of_char ''[=[a]b]=]c'') name_table_new \<lparr>pos_line = 0, pos_column = 0\<rparr>"
  have "\<exists>lexeme lx' start. read_next ?lx = Some (lexeme, lx') \<and> rest lx' = map of_char ''c'' \<and> lex_type lexeme = RawString \<and> lex_data lexeme = DataAt start \<and>
    lex_length lexeme = word_of_nat (length (map of_char ''a]b'' :: bytes)) \<and>
    take (length (map of_char ''a]b'' :: bytes)) (drop start (lx_buffer ?lx)) = map of_char ''a]b''"
  proof (rule long_string_is_read [where s = 1 and close = "[93, 61, 93]"])
    show "\<forall>j < length (map of_char ''a]b'' :: bytes). \<not> closes 1 (drop j (map of_char ''a]b'' @ [93, 61, 93] @ map of_char ''c''))"
      by (simp add: All_less_Suc closes_def)
  qed (simp_all add: lexer_new_def rest_def)
  then show ?thesis by (auto simp: lexer_new_def numeral_3_eq_3)
qed

end
