(* ===== verification/Lexer_Escape.thy ===== *)
theory Lexer_Escape
  imports Lexer_Text
begin

text \<open>
  The contents of strings: \<open>fixup_quoted_bytes\<close> and \<open>fixup_multiline_bytes\<close> of the lexer, which rewrite
  the payload of a string in place, and \<open>escape\<close> of \<open>luaur-common\<close>, which prints a string. The rewriting
  loops write behind the position they read from, so they are equal to decoders that consume their input.
\<close>

section \<open>Rewriting in place\<close>

function multiline_loop :: "bytes \<Rightarrow> nat \<Rightarrow> nat \<Rightarrow> (bytes \<times> nat) option" where
  "multiline_loop data src dst =
     (if src < length data then
        if src + 1 < length data \<and> data ! src = 13 \<and> data ! (src + 1) = 10 then do {
          data \<leftarrow> update_checked data dst 10;
          multiline_loop data (src + 2) (dst + 1)
        } else do {
          data \<leftarrow> update_checked data dst (data ! src);
          multiline_loop data (src + 1) (dst + 1)
        }
      else Some (data, dst))"
  by pat_completeness auto
termination by (relation "measure (\<lambda>(data, src, dst). length data - src)") auto

declare multiline_loop.simps [simp del]

definition fixup_multiline_bytes :: "bytes \<Rightarrow> bytes option" where
  "fixup_multiline_bytes data =
     (if data = [] then Some data
      else do {
        let src = (if 1 < length data \<and> data ! 0 = 13 \<and> data ! 1 = 10 then 2 else if data ! 0 = 10 then 1 else 0);
        (data, dst) \<leftarrow> multiline_loop data src 0;
        Some (take dst data)
      })"

definition to_utf_8 :: "bytes \<Rightarrow> u32 \<Rightarrow> (nat \<times> bytes) option" where
  "to_utf_8 data code =
     (if code < 0x80 then do {
        data \<leftarrow> update_checked data 0 (ucast code);
        Some (1, data) }
      else if code < 0x800 then do {
        data \<leftarrow> update_checked data 0 (ucast (0xC0 OR drop_bit 6 code));
        data \<leftarrow> update_checked data 1 (ucast (0x80 OR (code AND 0x3F)));
        Some (2, data) }
      else if code < 0x10000 then do {
        data \<leftarrow> update_checked data 0 (ucast (0xE0 OR drop_bit 12 code));
        data \<leftarrow> update_checked data 1 (ucast (0x80 OR (drop_bit 6 code AND 0x3F)));
        data \<leftarrow> update_checked data 2 (ucast (0x80 OR (code AND 0x3F)));
        Some (3, data) }
      else if code < 0x110000 then do {
        data \<leftarrow> update_checked data 0 (ucast (0xF0 OR drop_bit 18 code));
        data \<leftarrow> update_checked data 1 (ucast (0x80 OR (drop_bit 12 code AND 0x3F)));
        data \<leftarrow> update_checked data 2 (ucast (0x80 OR (drop_bit 6 code AND 0x3F)));
        data \<leftarrow> update_checked data 3 (ucast (0x80 OR (code AND 0x3F)));
        Some (4, data) }
      else Some (0, data))"

definition unescape :: "u8 \<Rightarrow> u8" where
  "unescape ch = (if ch = 97 then 7 else if ch = 98 then 8 else if ch = 102 then 12 else if ch = 110 then 10
     else if ch = 114 then 13 else if ch = 116 then 9 else if ch = 118 then 11 else ch)"

definition hex_value :: "u8 \<Rightarrow> u32" where
  "hex_value ch = (if is_digit ch then ucast ch - 48 else (ucast ch OR 32) - 97 + 10)"

text \<open>The digits of the escapes. The loops stop the function with \<open>false\<close> (\<open>Some None\<close>) or go on with a
  code and the next index.\<close>

fun hex_digits :: "nat \<Rightarrow> bytes \<Rightarrow> nat \<Rightarrow> u32 \<Rightarrow> (u32 option) option" where
  "hex_digits 0 data i code = Some (Some code)"
| "hex_digits (Suc n) data i code = do {
     ch \<leftarrow> index_checked data i;
     if \<not> is_hex_digit ch then Some None
     else hex_digits n data (i + 1) (16 * code + hex_value ch)
   }"

fun unicode_digits :: "nat \<Rightarrow> bytes \<Rightarrow> nat \<Rightarrow> u32 \<Rightarrow> ((bool \<times> u32 \<times> nat) option) option" where
  "unicode_digits 0 data i code = Some (Some (False, code, i))"
| "unicode_digits (Suc n) data i code =
     (if i = length data then Some None
      else do {
        ch \<leftarrow> index_checked data i;
        if ch = 125 then Some (Some (True, code, i))
        else if \<not> is_hex_digit ch then Some None
        else unicode_digits n data (i + 1) (code * 16 + hex_value ch)
      })"

fun decimal_digits :: "nat \<Rightarrow> bytes \<Rightarrow> nat \<Rightarrow> u32 \<Rightarrow> (u32 \<times> nat) option" where
  "decimal_digits 0 data i code = Some (code, i)"
| "decimal_digits (Suc n) data i code =
     (if i = length data then Some (code, i)
      else do {
        ch \<leftarrow> index_checked data i;
        if \<not> is_digit ch then Some (code, i)
        else decimal_digits n data (i + 1) (10 * code + (ucast ch - 48))
      })"

definition skip_space_from :: "bytes \<Rightarrow> nat \<Rightarrow> nat" where
  "skip_space_from data i = i + length (takeWhile is_space (drop i data))"

text \<open>One escape sequence, from behind its backslash and letter: the buffer, the write index and the read index after it.\<close>

definition fix_unicode :: "bytes \<Rightarrow> nat \<Rightarrow> nat \<Rightarrow> ((bytes \<times> nat \<times> nat) option) option" where
  "fix_unicode data write i =
     (if i + 3 > length data then Some None
      else do {
        brace \<leftarrow> index_checked data i;
        if brace \<noteq> 123 then Some None
        else if i + 1 < length data \<and> data ! (i + 1) = 125 then Some None
        else do {
          r \<leftarrow> unicode_digits 16 data (i + 1) 0;
          case r of None \<Rightarrow> Some None
          | Some (found_brace, code, i) \<Rightarrow>
              if \<not> found_brace \<or> i = length data \<or> data ! i \<noteq> 125 then Some None
              else do {
                LUAU_ASSERT (write \<le> length data);
                (utf8_len, tail) \<leftarrow> to_utf_8 (drop write data) code;
                if utf8_len = 0 then Some None
                else Some (Some (take write data @ tail, write + utf8_len, i + 1))
              }
        }
      })"

definition fix_escape :: "u8 \<Rightarrow> bytes \<Rightarrow> nat \<Rightarrow> nat \<Rightarrow> ((bytes \<times> nat \<times> nat) option) option" where
  "fix_escape esc data write i =
     (if esc = 10 then do {
        data \<leftarrow> update_checked data write 10;
        Some (Some (data, write + 1, i)) }
      else if esc = 13 then do {
        data \<leftarrow> update_checked data write 10;
        Some (Some (data, write + 1, if i < length data \<and> data ! i = 10 then i + 1 else i)) }
      else if esc = 0 then Some None
      else if esc = 120 then
        if i + 2 > length data then Some None
        else do {
          r \<leftarrow> hex_digits 2 data i 0;
          case r of None \<Rightarrow> Some None
          | Some code \<Rightarrow> do {
              data \<leftarrow> update_checked data write (ucast code);
              Some (Some (data, write + 1, i + 2)) }
        }
      else if esc = 122 then Some (Some (data, write, skip_space_from data i))
      else if esc = 117 then fix_unicode data write i
      else if is_digit esc then do {
        (code, i) \<leftarrow> decimal_digits 2 data i (ucast esc - 48);
        if code > 255 then Some None
        else do {
          data \<leftarrow> update_checked data write (ucast code);
          Some (Some (data, write + 1, i))
        }
      }
      else do {
        data \<leftarrow> update_checked data write (unescape esc);
        Some (Some (data, write + 1, i))
      })"

lemma unicode_digits_ge: "unicode_digits n data i code = Some (Some (b, code', i')) \<Longrightarrow> i \<le> i'"
  by (induction n arbitrary: i code) (fastforce split: if_splits simp: bind_eq_Some_conv)+

lemma decimal_digits_ge: "decimal_digits n data i code = Some (code', i') \<Longrightarrow> i \<le> i'"
  by (induction n arbitrary: i code) (fastforce split: if_splits simp: bind_eq_Some_conv)+

lemma to_utf_8_length: "to_utf_8 data code = Some (n, data') \<Longrightarrow> length data' = length data"
  by (auto simp: to_utf_8_def bind_eq_Some_conv split: if_splits)

lemma fix_unicode_ge:
  assumes "fix_unicode data write i = Some (Some (data', write', i'))" shows "length data' = length data \<and> i \<le> i'"
proof (cases "unicode_digits 16 data (i + 1) 0")
  case None
  then show ?thesis using assms by (simp add: fix_unicode_def bind_eq_Some_conv split: if_splits)
next
  case u: (Some r)
  show ?thesis
  proof (cases r)
    case None
    then show ?thesis using u assms by (simp add: fix_unicode_def bind_eq_Some_conv split: if_splits)
  next
    case (Some t)
    obtain b code j where t: "t = (b, code, j)" by (cases t)
    obtain n tail where "to_utf_8 (drop write data) code = Some (n, tail)" "data' = take write data @ tail" "i' = j + 1" "write \<le> length data"
      using u Some t assms by (auto simp: fix_unicode_def bind_eq_Some_conv split: if_splits)
    then show ?thesis using unicode_digits_ge [of 16 data "i + 1" 0 b code j] to_utf_8_length [of "drop write data" code n tail] u Some t by simp
  qed
qed

lemma fix_escape_ge:
  "fix_escape esc data write i = Some (Some (data', write', i')) \<Longrightarrow> length data' = length data \<and> i \<le> i'"
  by (auto simp: fix_escape_def bind_eq_Some_conv skip_space_from_def
      dest: fix_unicode_ge decimal_digits_ge split: if_splits option.splits)

function quoted_fix :: "bytes \<Rightarrow> nat \<Rightarrow> nat \<Rightarrow> ((bytes \<times> nat) option) option" where
  "quoted_fix data write i =
     (if i < length data then
        if data ! i \<noteq> 92 then do {
          data \<leftarrow> update_checked data write (data ! i);
          quoted_fix data (write + 1) (i + 1)
        }
        else if i + 1 = length data then Some None
        else do {
          esc \<leftarrow> index_checked data (i + 1);
          r \<leftarrow> fix_escape esc data write (i + 2);
          case r of None \<Rightarrow> Some None | Some (data, write, i) \<Rightarrow> quoted_fix data write i
        }
      else Some (Some (data, write)))"
  by pat_completeness auto
termination by (relation "measure (\<lambda>(data, write, i). length data - i)") (auto dest: fix_escape_ge)

declare quoted_fix.simps [simp del]

text \<open>\<open>Some None\<close> is the result \<open>false\<close>, \<open>Some (Some data)\<close> the result \<open>true\<close> with the rewritten buffer.\<close>

definition fixup_quoted_bytes :: "bytes \<Rightarrow> (bytes option) option" where
  "fixup_quoted_bytes data =
     (if data = [] \<or> 92 \<notin> set data then Some (Some data)
      else do {
        r \<leftarrow> quoted_fix data 0 0;
        case r of None \<Rightarrow> Some None
        | Some (data', write) \<Rightarrow> do {
            LUAU_ASSERT (write \<le> length data);
            Some (Some (take write data'))
          }
      })"

text \<open>Printing. A \<open>char\<close> pushed on a string is encoded in UTF-8, and \<open>{:03}\<close> prints three digits.\<close>

definition push_char :: "u8 \<Rightarrow> bytes" where
  "push_char c = (if c < 128 then [c] else [0xC0 OR drop_bit 6 c, 0x80 OR (c AND 0x3F)])"

definition decimal3 :: "u8 \<Rightarrow> bytes" where
  "decimal3 c = [48 + c div 100, 48 + c div 10 mod 10, 48 + c mod 10]"

definition escape_char :: "bool \<Rightarrow> u8 \<Rightarrow> bytes" where
  "escape_char for_interp c =
     (if 32 \<le> c \<and> c \<noteq> 92 \<and> c \<noteq> 39 \<and> c \<noteq> 34 \<and> c \<noteq> 96 \<and> c \<noteq> 123 then push_char c
      else 92 # (if for_interp \<and> (c = 96 \<or> c = 123) then push_char c
        else if c = 7 then [97] else if c = 8 then [98] else if c = 12 then [102] else if c = 10 then [110]
        else if c = 13 then [114] else if c = 9 then [116] else if c = 11 then [118]
        else if c = 39 then [39] else if c = 34 then [34] else if c = 92 then [92]
        else decimal3 c))"

definition escape :: "bool \<Rightarrow> bytes \<Rightarrow> bytes" where
  "escape for_interp s = concat (map (escape_char for_interp) s)"

section \<open>The decoders\<close>

fun normal_newlines :: "bytes \<Rightarrow> bytes" where
  "normal_newlines [] = []"
| "normal_newlines (c # cs) = (if c = 13 \<and> cs \<noteq> [] \<and> hd cs = 10 then normal_newlines cs else c # normal_newlines cs)"

definition drop_newline :: "bytes \<Rightarrow> bytes" where
  "drop_newline cs = (if take 2 cs = [13, 10] then drop 2 cs else if cs \<noteq> [] \<and> hd cs = 10 then drop 1 cs else cs)"

fun hex_list :: "nat \<Rightarrow> bytes \<Rightarrow> u32 \<Rightarrow> u32 option" where
  "hex_list 0 cs code = Some code"
| "hex_list (Suc n) [] code = None"
| "hex_list (Suc n) (c # cs) code = (if is_hex_digit c then hex_list n cs (16 * code + hex_value c) else None)"

fun unicode_list :: "nat \<Rightarrow> bytes \<Rightarrow> u32 \<Rightarrow> (u32 \<times> nat) option" where
  "unicode_list 0 cs code = None"
| "unicode_list (Suc n) [] code = None"
| "unicode_list (Suc n) (c # cs) code =
     (if c = 125 then Some (code, 0)
      else if is_hex_digit c then map_option (\<lambda>(code, k). (code, k + 1)) (unicode_list n cs (code * 16 + hex_value c))
      else None)"

fun decimal_list :: "nat \<Rightarrow> bytes \<Rightarrow> u32 \<Rightarrow> u32 \<times> nat" where
  "decimal_list 0 cs code = (code, 0)"
| "decimal_list (Suc n) [] code = (code, 0)"
| "decimal_list (Suc n) (c # cs) code =
     (if is_digit c then let (code, k) = decimal_list n cs (10 * code + (ucast c - 48)) in (code, k + 1) else (code, 0))"

definition utf_8 :: "u32 \<Rightarrow> bytes option" where
  "utf_8 code =
     (if code < 0x80 then Some [ucast code]
      else if code < 0x800 then Some [ucast (0xC0 OR drop_bit 6 code), ucast (0x80 OR (code AND 0x3F))]
      else if code < 0x10000 then Some [ucast (0xE0 OR drop_bit 12 code), ucast (0x80 OR (drop_bit 6 code AND 0x3F)), ucast (0x80 OR (code AND 0x3F))]
      else if code < 0x110000 then Some [ucast (0xF0 OR drop_bit 18 code), ucast (0x80 OR (drop_bit 12 code AND 0x3F)),
        ucast (0x80 OR (drop_bit 6 code AND 0x3F)), ucast (0x80 OR (code AND 0x3F))]
      else None)"

text \<open>What an escape stands for, and how much of the text behind its letter belongs to it.\<close>

definition decode_escape :: "u8 \<Rightarrow> bytes \<Rightarrow> (bytes \<times> nat) option" where
  "decode_escape esc cs =
     (if esc = 10 then Some ([10], 0)
      else if esc = 13 then Some ([10], if cs \<noteq> [] \<and> hd cs = 10 then 1 else 0)
      else if esc = 0 then None
      else if esc = 120 then map_option (\<lambda>code. ([ucast code], 2)) (hex_list 2 cs 0)
      else if esc = 122 then Some ([], length (takeWhile is_space cs))
      else if esc = 117 then
        if length cs < 3 \<or> cs ! 0 \<noteq> 123 \<or> cs ! 1 = 125 then None
        else (case unicode_list 16 (drop 1 cs) 0 of None \<Rightarrow> None
          | Some (code, k) \<Rightarrow> map_option (\<lambda>out. (out, k + 2)) (utf_8 code))
      else if is_digit esc then
        (let (code, k) = decimal_list 2 cs (ucast esc - 48) in if code > 255 then None else Some ([ucast code], k))
      else Some ([unescape esc], 0))"

function decode :: "bytes \<Rightarrow> bytes option" where
  "decode [] = Some []"
| "decode [c] = (if c = 92 then None else Some [c])"
| "decode (c # d # cs) =
     (if c \<noteq> 92 then map_option ((#) c) (decode (d # cs))
      else case decode_escape d cs of None \<Rightarrow> None
        | Some (out, k) \<Rightarrow> map_option ((@) out) (decode (drop k cs)))"
  by pat_completeness auto
termination by (relation "measure length") auto

section \<open>The loops are the decoders\<close>

lemma drop_head: "i < length data \<Longrightarrow> drop i data = data ! i # drop (i + 1) data"
  by (simp add: Cons_nth_drop_Suc)

lemma multiline_loop_eq:
  "dst \<le> src \<Longrightarrow> src \<le> length data \<Longrightarrow> \<exists>data'. multiline_loop data src dst = Some (data', dst + length (normal_newlines (drop src data))) \<and>
    take (dst + length (normal_newlines (drop src data))) data' = take dst data @ normal_newlines (drop src data)"
proof (induction "length data - src" arbitrary: data src dst rule: less_induct)
  case less
  show ?case
  proof (cases "src < length data")
    case False
    then show ?thesis using less.prems by (subst multiline_loop.simps) simp
  next
    case True
    then have d: "drop src data = data ! src # drop (src + 1) data" by (rule drop_head)
    show ?thesis
    proof (cases "src + 1 < length data \<and> data ! src = 13 \<and> data ! (src + 1) = 10")
      case True': True
      then have d2: "drop (src + 1) data = 10 # drop (src + 2) data" using drop_head [of "src + 1" data] by simp
      let ?data = "data[dst := 10]"
      obtain data' where "multiline_loop ?data (src + 2) (dst + 1) = Some (data', dst + 1 + length (normal_newlines (drop (src + 2) ?data)))"
          "take (dst + 1 + length (normal_newlines (drop (src + 2) ?data))) data' = take (dst + 1) ?data @ normal_newlines (drop (src + 2) ?data)"
        using less.hyps [of ?data "src + 2" "dst + 1"] less.prems True True' by (auto simp: diff_less_mono2)
      moreover have "drop (src + 2) ?data = drop (src + 2) data" using less.prems by simp
      moreover have "take (dst + 1) ?data = take dst data @ [10]" using less.prems True by (simp add: take_Suc_conv_app_nth)
      moreover have "normal_newlines (drop src data) = 10 # normal_newlines (drop (src + 2) data)" using d d2 True' by simp
      ultimately show ?thesis using True True' less.prems by (subst multiline_loop.simps) simp
    next
      case False
      let ?data = "data[dst := data ! src]"
      obtain data' where "multiline_loop ?data (src + 1) (dst + 1) = Some (data', dst + 1 + length (normal_newlines (drop (src + 1) ?data)))"
          "take (dst + 1 + length (normal_newlines (drop (src + 1) ?data))) data' = take (dst + 1) ?data @ normal_newlines (drop (src + 1) ?data)"
        using less.hyps [of ?data "src + 1" "dst + 1"] less.prems True by (auto simp: diff_less_mono2)
      moreover have "drop (src + 1) ?data = drop (src + 1) data" using less.prems by simp
      moreover have "take (dst + 1) ?data = take dst data @ [data ! src]" using less.prems True by (simp add: take_Suc_conv_app_nth)
      moreover have "normal_newlines (drop src data) = data ! src # normal_newlines (drop (src + 1) data)"
        using d False by (auto simp: hd_drop_conv_nth)
      ultimately show ?thesis using True False less.prems by (subst multiline_loop.simps) auto
    qed
  qed
qed

text \<open>C37: \<open>fixup_multiline_bytes\<close>, which rewrites the contents of a long string in place, never writes outside the
  buffer, and its result is the contents without a newline at their start (\<open>\n\<close> or \<open>\r\n\<close>) and with every other
  \<open>\r\n\<close> replaced by \<open>\n\<close>.\<close>

theorem fixup_multiline_correct: "fixup_multiline_bytes data = Some (normal_newlines (drop_newline data))"
proof (cases "data = []")
  case False
  define src :: nat where "src = (if 1 < length data \<and> data ! 0 = 13 \<and> data ! 1 = 10 then 2 else if data ! 0 = 10 then 1 else 0)"
  have "src \<le> length data" using False by (cases data) (auto simp: src_def Suc_le_eq)
  then obtain data' where "multiline_loop data src 0 = Some (data', length (normal_newlines (drop src data)))"
      "take (length (normal_newlines (drop src data))) data' = normal_newlines (drop src data)"
    using multiline_loop_eq [of 0 src data] by auto
  moreover have "drop src data = drop_newline data"
    using False by (cases data; cases "List.tl data") (auto simp: src_def drop_newline_def)
  ultimately show ?thesis using False unfolding fixup_multiline_bytes_def src_def [symmetric] Let_def by simp
qed (simp add: fixup_multiline_bytes_def drop_newline_def)

text \<open>The digits.\<close>

lemma hex_digits_eq: "i + n \<le> length data \<Longrightarrow> hex_digits n data i code = Some (hex_list n (drop i data) code)"
proof (induction n arbitrary: i code)
  case (Suc n)
  then show ?case using drop_head [of i data] by simp
qed simp

lemma unicode_digits_list:
  "i \<le> length data \<Longrightarrow>
    (case unicode_list n (drop i data) code of
       None \<Rightarrow> unicode_digits n data i code = Some None \<or> (\<exists>code' i'. unicode_digits n data i code = Some (Some (False, code', i')))
     | Some (code', k) \<Rightarrow> unicode_digits n data i code = Some (Some (True, code', i + k)) \<and> i + k < length data \<and> data ! (i + k) = 125)"
proof (induction n arbitrary: i code)
  case (Suc n)
  show ?case
  proof (cases "i = length data")
    case False
    then have i: "i < length data" using Suc.prems by simp
    note d = drop_head [OF i]
    show ?thesis
    proof (cases "data ! i = 125 \<or> \<not> is_hex_digit (data ! i)")
      case True
      then show ?thesis using i d by auto
    next
      case False
      then show ?thesis
        using i d Suc.IH [of "i + 1" "code * 16 + hex_value (data ! i)"] by (auto split: option.splits)
    qed
  qed simp
qed simp

lemma decimal_digits_eq:
  "i \<le> length data \<Longrightarrow> decimal_digits n data i code = (let (code', k) = decimal_list n (drop i data) code in Some (code', i + k))"
proof (induction n arbitrary: i code)
  case (Suc n)
  show ?case
  proof (cases "i = length data")
    case False
    then have "i < length data" using Suc.prems by simp
    then show ?thesis using drop_head [of i data] Suc.IH [of "i + 1"] by (simp add: Let_def split_beta)
  qed simp
qed simp

lemma update_two: "w < length data \<Longrightarrow> data[w := x] = take w data @ [x] @ drop (w + 1) data"
  by (simp add: upd_conv_take_nth_drop)

lemma to_utf_8_eq:
  "4 \<le> length data \<Longrightarrow> to_utf_8 data code = Some (case utf_8 code of None \<Rightarrow> (0, data) | Some out \<Rightarrow> (length out, out @ drop (length out) data))"
proof -
  assume "4 \<le> length data"
  then obtain a b c d ds where "data = a # b # c # d # ds"
    by (cases data; cases "List.tl data"; cases "List.tl (List.tl data)"; cases "List.tl (List.tl (List.tl data))") auto
  then show ?thesis by (simp add: to_utf_8_def utf_8_def)
qed

lemma utf_8_length: "utf_8 code = Some out \<Longrightarrow> 0 < length out \<and> length out \<le> 4"
  by (auto simp: utf_8_def split: if_splits)

lemma decimal_list_le: "decimal_list n cs code = (code', k) \<Longrightarrow> k \<le> length cs"
  by (induction n cs code arbitrary: k rule: decimal_list.induct) (auto simp: Let_def split: if_splits prod.splits)

lemma unicode_list_le: "unicode_list n cs code = Some (code', k) \<Longrightarrow> k < length cs"
  by (induction n cs code arbitrary: k rule: unicode_list.induct) (auto split: if_splits)

lemma hex_list_le: "hex_list n cs code = Some code' \<Longrightarrow> n \<le> length cs"
  by (induction n cs code rule: hex_list.induct) (auto split: if_splits)

lemma decode_escape_length: "decode_escape esc cs = Some (out, k) \<Longrightarrow> length out \<le> k + 2 \<and> k \<le> length cs"
  using length_takeWhile_le [of is_space cs]
  by (auto simp: decode_escape_def Let_def Suc_le_eq dest!: utf_8_length decimal_list_le unicode_list_le hex_list_le
      split: if_splits option.splits prod.splits)

text \<open>One escape, and the loop.\<close>

lemma fix_unicode_eq:
  assumes "i \<le> length data" and "write + 2 \<le> i"
  shows "fix_unicode data write i = Some (
    if length (drop i data) < 3 \<or> drop i data ! 0 \<noteq> 123 \<or> drop i data ! 1 = 125 then None
    else case unicode_list 16 (drop 1 (drop i data)) 0 of None \<Rightarrow> None
      | Some (code, k) \<Rightarrow> map_option (\<lambda>out. (take write data @ out @ drop (write + length out) data, write + length out, i + (k + 2))) (utf_8 code))"
proof (cases "length (drop i data) < 3 \<or> drop i data ! 0 \<noteq> 123 \<or> drop i data ! 1 = 125")
  case True
  then show ?thesis using assms by (auto simp: fix_unicode_def)
next
  case False
  then have i: "i + 3 \<le> length data" "data ! i = 123" "data ! (i + 1) \<noteq> 125" using assms by auto
  have 4: "4 \<le> length (drop write data)" using i(1) assms(2) by simp
  show ?thesis
  proof (cases "unicode_list 16 (drop 1 (drop i data)) 0")
    case None
    then show ?thesis using i False unicode_digits_list [of "i + 1" data 16 0] by (auto simp: fix_unicode_def)
  next
    case (Some ck)
    obtain code k where ck: "ck = (code, k)" by (cases ck)
    have u: "unicode_digits 16 data (i + 1) 0 = Some (Some (True, code, i + 1 + k)) \<and> i + 1 + k < length data \<and> data ! (i + 1 + k) = 125"
      using Some i unicode_digits_list [of "i + 1" data 16 0] by (simp add: ck)
    show ?thesis
    proof (cases "utf_8 code")
      case None
      then show ?thesis using u i False Some ck to_utf_8_eq [OF 4, of code] assms by (simp add: fix_unicode_def)
    next
      case (Some out)
      then show ?thesis
        using u i False \<open>unicode_list 16 (drop 1 (drop i data)) 0 = Some ck\<close> ck to_utf_8_eq [OF 4, of code] utf_8_length [OF Some] assms
        by (simp add: fix_unicode_def add.commute)
    qed
  qed
qed

lemma fix_escape_eq:
  assumes "i \<le> length data" and "write + 2 \<le> i"
  shows "fix_escape esc data write i = Some (map_option
    (\<lambda>(out, k). (take write data @ out @ drop (write + length out) data, write + length out, i + k)) (decode_escape esc (drop i data)))"
proof -
  have w: "write < length data" using assms by simp
  note store = update_two [OF w]
  consider "esc = 10" | "esc = 0" | "esc = 122" | "esc = 13" | "esc = 120" | "esc = 117" | "esc \<notin> {10, 0, 122, 13, 120, 117}" "is_digit esc"
    | "esc \<notin> {10, 0, 122, 13, 120, 117}" "\<not> is_digit esc" by blast
  then show ?thesis
  proof cases
    case 1
    then show ?thesis using w store [of 10] by (simp add: fix_escape_def decode_escape_def)
  next
    case 2
    then show ?thesis by (simp add: fix_escape_def decode_escape_def)
  next
    case 3
    then show ?thesis by (simp add: fix_escape_def decode_escape_def skip_space_from_def)
  next
    case 4
    have "(i < length (data[write := 10]) \<and> data[write := 10] ! i = 10) \<longleftrightarrow> drop i data \<noteq> [] \<and> hd (drop i data) = 10"
      using assms by (auto simp: hd_drop_conv_nth)
    then have "fix_escape 13 data write i =
        Some (Some (data[write := 10], write + 1, if drop i data \<noteq> [] \<and> hd (drop i data) = 10 then i + 1 else i))"
      using w by (simp add: fix_escape_def)
    then show ?thesis using 4 store [of 10] by (simp add: decode_escape_def)
  next
    case 5
    show ?thesis
    proof (cases "i + 2 \<le> length data")
      case True
      then show ?thesis
        using 5 w store hex_digits_eq [of i 2 data 0]
        by (cases "hex_list 2 (drop i data) 0") (simp_all add: fix_escape_def decode_escape_def)
    next
      case False
      then have "hex_list 2 (drop i data) 0 = None"
        using hex_list_le [of 2 "drop i data" 0] by (cases "hex_list 2 (drop i data) 0") auto
      then show ?thesis using 5 False by (simp add: fix_escape_def decode_escape_def)
    qed
  next
    case 6
    then show ?thesis
      unfolding fix_escape_def decode_escape_def using fix_unicode_eq [OF assms]
      by (simp add: option.map_comp comp_def split: option.splits prod.splits)
  next
    case 7
    then show ?thesis
      using w store decimal_digits_eq [OF assms(1), of 2]
      by (auto simp: fix_escape_def decode_escape_def Let_def split: prod.splits)
  next
    case 8
    then show ?thesis using w store by (auto simp: fix_escape_def decode_escape_def)
  qed
qed

lemma append_single: "(@) [c] = (#) c"
  by (rule ext) simp

declare decode.simps [simp del]

lemma quoted_fix_decode:
  "write \<le> i \<Longrightarrow> i \<le> length data \<Longrightarrow>
    (case decode (drop i data) of
       None \<Rightarrow> quoted_fix data write i = Some None
     | Some out \<Rightarrow> \<exists>data'. quoted_fix data write i = Some (Some (data', write + length out)) \<and> length data' = length data \<and>
         take (write + length out) data' = take write data @ out)"
proof (induction "length data - i" arbitrary: data "write" i rule: less_induct)
  case less
  have next_part: "case map_option ((@) out) (decode (drop i' data)) of
       None \<Rightarrow> quoted_fix data write i = Some None
     | Some out \<Rightarrow> \<exists>data'. quoted_fix data write i = Some (Some (data', write + length out)) \<and> length data' = length data \<and>
         take (write + length out) data' = take write data @ out"
    if step: "quoted_fix data write i = quoted_fix data1 (write + length out) i'" and "data1 = take write data @ out @ drop (write + length out) data"
      and "i < i'" "i' \<le> length data" "write + length out \<le> i'" for data1 out i'
  proof -
    have d1: "length data1 = length data" "drop i' data1 = drop i' data" "take (write + length out) data1 = take write data @ out"
      using that(2-5) less.prems by (simp_all add: min_def)
    have "length data1 - i' < length data - i" using that(3,4) d1(1) by simp
    from less.hyps [OF this, of "write + length out"] that(4,5) d1 show ?thesis
      unfolding step by (auto simp: add.assoc split: option.splits)
  qed
  show ?case
  proof (cases "drop i data")
    case Nil
    then show ?thesis using less.prems by (subst quoted_fix.simps) (simp add: decode.simps)
  next
    case (Cons c cs)
    have il: "i < length data" using Cons by (auto intro: ccontr)
    then have i: "i < length data" "data ! i = c" "drop (i + 1) data = cs" using Cons drop_head [OF il] by simp_all
    show ?thesis
    proof (cases "c = 92")
      case False
      have "quoted_fix data write i = quoted_fix (data[write := c]) (write + length [c]) (i + 1)"
        using i False less.prems by (subst quoted_fix.simps) simp
      moreover have "decode (drop i data) = map_option ((@) [c]) (decode (drop (i + 1) data))"
        using Cons i(3) False append_single [of c] by (cases cs) (simp_all add: decode.simps)
      ultimately show ?thesis
        using next_part [of "data[write := c]" "[c]" "i + 1"] i less.prems update_two [of "write" data c] by simp
    next
      case True
      show ?thesis
      proof (cases cs)
        case Nil
        then have "i + 1 = length data" using i by simp
        then show ?thesis using i True Nil Cons by (subst quoted_fix.simps) (simp add: decode.simps)
      next
        case (Cons esc ds)
        have jl: "i + 1 < length data" using Cons i(3) by (auto intro: ccontr)
        then have j: "i + 1 < length data" "data ! (i + 1) = esc" "drop (i + 2) data = ds"
          using Cons i(3) drop_head [OF jl] by simp_all
        have f: "fix_escape esc data write (i + 2) = Some (map_option
            (\<lambda>(out, k). (take write data @ out @ drop (write + length out) data, write + length out, i + 2 + k)) (decode_escape esc ds))"
          using fix_escape_eq [of "i + 2" data "write" esc] j less.prems by simp
        have dec: "decode (drop i data) = (case decode_escape esc ds of None \<Rightarrow> None
            | Some (out, k) \<Rightarrow> map_option ((@) out) (decode (drop k ds)))"
          using \<open>drop i data = c # cs\<close> Cons True by (simp add: decode.simps)
        show ?thesis
        proof (cases "decode_escape esc ds")
          case None
          then show ?thesis using i j f True by (subst quoted_fix.simps) (simp add: dec)
        next
          case (Some ok)
          obtain out k where ok: "ok = (out, k)" by (cases ok)
          have l: "length out \<le> k + 2" "k \<le> length ds" using decode_escape_length Some ok by blast+
          have q: "quoted_fix data write i = quoted_fix (take write data @ out @ drop (write + length out) data) (write + length out) (i + 2 + k)"
            using i j f True Some ok by (subst quoted_fix.simps) simp
          have "drop k ds = drop (i + 2 + k) data" using j(3) by (metis add.commute drop_drop)
          moreover have "i + 2 + k \<le> length data" using l(2) j by auto
          ultimately show ?thesis
            using next_part [OF q refl] l less.prems by (simp add: dec Some ok)
        qed
      qed
    qed
  qed
qed

lemma decode_plain: "92 \<notin> set data \<Longrightarrow> decode data = Some data"
  by (induction data rule: decode.induct) (auto simp: decode.simps)

lemma fixup_quoted_eq: "fixup_quoted_bytes data = Some (decode data)"
proof (cases "data = [] \<or> 92 \<notin> set data")
  case True
  then show ?thesis using decode_plain [of data] by (auto simp: fixup_quoted_bytes_def decode.simps)
next
  case False
  show ?thesis
  proof (cases "decode data")
    case None
    then show ?thesis using False quoted_fix_decode [of 0 0 data] by (simp add: fixup_quoted_bytes_def)
  next
    case (Some out)
    then obtain data' where d: "quoted_fix data 0 0 = Some (Some (data', length out))" "length data' = length data"
        "take (length out) data' = out" using quoted_fix_decode [of 0 0 data] by auto
    have "length out \<le> length data" using d(2,3) by (metis length_take min.cobounded1)
    then show ?thesis using False Some d by (simp add: fixup_quoted_bytes_def)
  qed
qed

text \<open>C18: \<open>fixup_quoted_bytes\<close>, which decodes the escapes of a quoted string in place, never reads or writes
  outside the buffer, for any contents, valid or not: the text that an escape stands for is never longer than the
  escape, so the writes stay behind the reads. Its result is that of the decoder: \<open>false\<close> exactly when an escape is
  malformed, and otherwise the decoded contents, which are not longer than the buffer.\<close>

theorem fixup_quoted_correct:
  "fixup_quoted_bytes data = Some (decode data) \<and> length (case decode data of None \<Rightarrow> [] | Some out \<Rightarrow> out) \<le> length data"
proof (cases "decode data")
  case (Some out)
  then obtain data' where "length data' = length data" "take (length out) data' = out"
    using quoted_fix_decode [of 0 0 data] by auto
  then show ?thesis using Some fixup_quoted_eq [of data] by (metis length_take min.cobounded1 option.simps(5))
qed (simp add: fixup_quoted_eq)

section \<open>Printing and reading back\<close>

text \<open>A printed character is plain text, or a backslash, a letter and plain text.\<close>

definition plain :: "u8 \<Rightarrow> bool" where "plain c \<longleftrightarrow> c \<notin> {0, 10, 13, 92, 34, 39, 96, 123}"

lemma push_char_plain:
  assumes "32 \<le> c" and "c \<noteq> 92" "c \<noteq> 39" "c \<noteq> 34" "c \<noteq> 96" "c \<noteq> 123" shows "list_all plain (push_char c)"
proof (cases "c < 128")
  case True
  then show ?thesis using assms by (auto simp: push_char_def plain_def)
next
  case False
  have hi: "bit (0xC0 OR drop_bit 6 c) 7" "bit (0x80 OR (c AND 0x3F)) 7" by (simp_all add: bit_simps)
  have "plain x" if "bit x 7" for x using that by (auto simp: plain_def)
  then show ?thesis using False hi by (simp add: push_char_def)
qed

lemma decimal_list_2:
  "is_digit a \<Longrightarrow> is_digit b \<Longrightarrow> decimal_list 2 (a # b # cs) code = (10 * (10 * code + (ucast a - 48)) + (ucast b - 48), 2)"
  by (simp add: numeral_2_eq_2)

lemma digit_plain: "is_digit d \<Longrightarrow> plain d \<and> d \<notin> {0, 10, 13, 117, 120, 122}"
  by (auto simp: is_digit_def plain_def)

lemma digit_value: "unat x < 10 \<Longrightarrow> is_digit (48 + x :: u8) \<and> ucast (48 + x) - 48 = (ucast x :: u32)"
proof -
  assume x: "unat x < 10"
  then have u: "unat (48 + x) = 48 + unat x" by (subst unat_add_lem [THEN iffD1]) simp_all
  have "ucast (48 + x) = (word_of_nat (unat (48 + x)) :: u32)" by simp
  also have "\<dots> = 48 + ucast x" unfolding u by simp
  finally show ?thesis using x by (simp add: is_digit_def word_less_nat_alt)
qed

lemma ucast_u32_u8: "ucast (ucast (c :: u8) :: u32) = c"
  by (rule bit_word_eqI) (auto simp: bit_simps)

lemma ucast_u8_le: "\<not> (255 :: u32) < ucast (c :: u8)"
proof -
  have "unat (ucast c :: u32) = unat c" by (simp add: unsigned_ucast_eq take_bit_nat_eq_self less_trans [OF unsigned_less [of c, where ?'a = nat]])
  then show ?thesis using unsigned_less [of c, where ?'a = nat] by (simp add: word_less_nat_alt)
qed

lemma three_digits: "n = 100 * (n div 100) + 10 * (n div 10 mod 10) + n mod 10" for n :: nat
proof -
  have "n div 100 = n div 10 div 10" using div_mult2_eq [of n 10 10] by simp
  then show ?thesis using mult_div_mod_eq [of 10 n] mult_div_mod_eq [of 10 "n div 10"] by linarith
qed

text \<open>Three digits are read back.\<close>

lemma decimal3_digits:
  "\<exists>x y z. decimal3 c = [48 + x, 48 + y, 48 + z] \<and> unat x < 10 \<and> unat y < 10 \<and> unat z < 10 \<and> unat c = 100 * unat x + 10 * unat y + unat z"
proof (intro exI conjI)
  show "decimal3 c = [48 + c div 100, 48 + c div 10 mod 10, 48 + c mod 10]" by (simp add: decimal3_def)
  have "unat c < 256" using unsigned_less [of c, where ?'a = nat] by simp
  then show "unat (c div 100) < 10" by (simp add: unat_div)
  show "unat (c div 10 mod 10) < 10" "unat (c mod 10) < 10" by (simp_all add: unat_mod)
  show "unat c = 100 * unat (c div 100) + 10 * unat (c div 10 mod 10) + unat (c mod 10)"
    using three_digits [of "unat c"] by (simp add: unat_div unat_mod)
qed

lemma decode_decimal3:
  "\<exists>e ps. decimal3 c = e # ps \<and> e \<notin> {0, 13, 122, 117} \<and> list_all plain ps \<and> length ps = 2 \<and> (\<forall>cs. decode_escape e (ps @ cs) = Some ([c], 2))"
proof -
  obtain x y z where d: "decimal3 c = [48 + x, 48 + y, 48 + z]" and b: "unat x < 10" "unat y < 10" "unat z < 10"
    and v: "unat c = 100 * unat x + 10 * unat y + unat z" using decimal3_digits by blast
  have "ucast c = (word_of_nat (unat c) :: u32)" by simp
  also have "\<dots> = 10 * (10 * ucast x + ucast y) + ucast z" unfolding v by (simp add: algebra_simps)
  finally have code: "10 * (10 * ucast x + ucast y) + ucast z = (ucast c :: u32)" ..
  have "decode_escape (48 + x) ([48 + y, 48 + z] @ cs) = Some ([c], 2)" for cs
    using digit_plain [of "48 + x"] digit_value [OF b(1)] digit_value [OF b(2)] digit_value [OF b(3)] code ucast_u32_u8 [of c] ucast_u8_le [of c]
    by (simp add: decode_escape_def decimal_list_2)
  then show ?thesis
    using d digit_plain [of "48 + x"] digit_plain [of "48 + y"] digit_plain [of "48 + z"]
      digit_value [OF b(1)] digit_value [OF b(2)] digit_value [OF b(3)] by simp
qed

text \<open>Every character is printed as plain text or as an escape that stands for it.\<close>

lemma escape_char_cases:
  "(list_all plain (escape_char b c) \<and> escape_char b c = push_char c) \<or>
   (\<exists>e ps. escape_char b c = 92 # e # ps \<and> e \<notin> {0, 13, 122, 117} \<and> list_all plain ps \<and>
     (\<forall>cs. decode_escape e (ps @ cs) = Some (push_char c, length ps)))"
proof (cases "32 \<le> c \<and> c \<noteq> 92 \<and> c \<noteq> 39 \<and> c \<noteq> 34 \<and> c \<noteq> 96 \<and> c \<noteq> 123")
  case True
  then show ?thesis using push_char_plain [of c] by (simp add: escape_char_def)
next
  case False
  then have small: "push_char c = [c]" using less_trans [of c 32 128] by (auto simp: push_char_def not_le)
  let ?named = "{7, 8, 12, 10, 13, 9, 11, 39, 34, 92} :: u8 set"
  consider "b" "c = 96 \<or> c = 123" | "\<not> (b \<and> (c = 96 \<or> c = 123))" "c \<in> ?named" | "\<not> (b \<and> (c = 96 \<or> c = 123))" "c \<notin> ?named" by blast
  then show ?thesis
  proof cases
    case 1
    then show ?thesis using small by (intro disjI2 exI [of _ c] exI [of _ "[]"])
        (auto simp: escape_char_def decode_escape_def is_digit_def unescape_def)
  next
    case 2
    then have e: "\<exists>e. escape_char b c = [92, e] \<and> e \<notin> {0, 13, 122, 117} \<and> (\<forall>cs. decode_escape e cs = Some ([c], 0))"
      using False by (elim insertE emptyE) (simp_all add: escape_char_def decode_escape_def is_digit_def unescape_def)
    then show ?thesis using small by auto
  next
    case 3
    then have "escape_char b c = 92 # decimal3 c" using False by (auto simp: escape_char_def)
    then show ?thesis using decode_decimal3 [of c] small by auto
  qed
qed

lemma decode_plain_cons: "c \<noteq> 92 \<Longrightarrow> decode (c # cs) = map_option ((#) c) (decode cs)"
  by (cases cs) (simp_all add: decode.simps)

lemma decode_append_plain: "list_all plain ps \<Longrightarrow> decode (ps @ cs) = map_option ((@) ps) (decode cs)"
proof (induction ps)
  case Nil
  show ?case by (cases "decode cs") simp_all
next
  case (Cons p ps)
  then show ?case by (cases "decode cs") (auto simp: plain_def decode_plain_cons)
qed

lemma decode_escape_char: "decode (escape_char b c @ cs) = map_option ((@) (push_char c)) (decode cs)"
  using escape_char_cases [of b c]
proof (elim disjE exE conjE)
  assume "list_all plain (escape_char b c)" "escape_char b c = push_char c"
  then show ?thesis using decode_append_plain by metis
next
  fix e ps assume e: "escape_char b c = 92 # e # ps" "\<forall>cs. decode_escape e (ps @ cs) = Some (push_char c, length ps)"
  then show ?thesis by (simp add: decode.simps)
qed

lemma decode_of_escape: "decode (escape for_interp s) = Some (concat (map push_char s))"
  by (induction s) (simp_all add: escape_def decode_escape_char decode.simps)

text \<open>C23: What \<open>escape\<close> prints, in either of its modes, the lexer decodes again: the decoded contents are the
  characters of the printed text, each encoded as \<open>push_char\<close> does. For ASCII text these are the text itself.\<close>

theorem escape_roundtrip:
  "fixup_quoted_bytes (escape for_interp s) = Some (Some (concat (map push_char s))) \<and>
   ((\<forall>c \<in> set s. c < 128) \<longrightarrow> fixup_quoted_bytes (escape for_interp s) = Some (Some s))"
proof -
  have "concat (map push_char s) = s" if "\<forall>c \<in> set s. c < 128"
    using that by (induction s) (simp_all add: push_char_def)
  then show ?thesis using fixup_quoted_eq decode_of_escape by simp
qed

theorem escape_roundtrip_witness:
  "fixup_quoted_bytes (escape False [97, 10, 34, 0]) = Some (Some [97, 10, 34, 0])"
  by (rule escape_roundtrip [THEN conjunct2, rule_format]) auto

text \<open>Beyond ASCII the text does not come back: \<open>escape\<close> pushes every byte as a character of its own, which is
  encoded again, so that the two bytes of an encoded letter become four.\<close>

lemma escape_encodes_twice:
  "fixup_quoted_bytes (escape for_interp [0xC3, 0xA9]) = Some (Some [0xC3, 0x83, 0xC2, 0xA9])"
proof -
  have "concat (map push_char [0xC3, 0xA9]) = [0xC3, 0x83, 0xC2, 0xA9]" by (simp add: push_char_def drop_bit_eq_div)
  then show ?thesis using fixup_quoted_eq decode_of_escape by simp
qed

lemma pushed_length: "length s \<le> length (concat (map push_char s))"
  by (induction s) (auto simp: push_char_def)

lemma pushed_same: "concat (map push_char s) = s \<longleftrightarrow> (\<forall>c \<in> set s. c < 128)"
proof (induction s)
  case (Cons c s)
  show ?case
  proof (cases "c < 128")
    case True
    then show ?thesis using Cons by (simp add: push_char_def)
  next
    case False
    then have "length (concat (map push_char (c # s))) \<noteq> length (c # s)" using pushed_length [of s] by (simp add: push_char_def)
    then show ?thesis using False by (metis list.set_intros(1))
  qed
qed simp

section \<open>Printed strings are lexed\<close>

text \<open>The loop of a quoted string passes over plain text and over the escapes.\<close>

lemma quoted_loop_plain:
  assumes d: "d = 34 \<or> d = 39"
  shows "rest lx = ps @ cs \<Longrightarrow> list_all plain ps \<Longrightarrow> quoted_loop d lx = quoted_loop d ((step ^^ length ps) lx)"
proof (induction ps arbitrary: lx)
  case (Cons p ps)
  have "quoted_loop d lx = quoted_loop d (step lx)"
    using Cons.prems d consume_rest [of lx p "ps @ cs"] by (subst quoted_loop.simps) (auto simp: peekch_rest plain_def)
  also have "\<dots> = quoted_loop d ((step ^^ length ps) (step lx))" using Cons by simp
  finally show ?case by (simp add: funpow_swap1)
qed simp

lemma quoted_loop_char:
  assumes d: "d = 34 \<or> d = 39" and r: "rest lx = escape_char b c @ cs"
  shows "quoted_loop d lx = quoted_loop d ((step ^^ length (escape_char b c)) lx)"
  using escape_char_cases [of b c]
proof (elim disjE exE conjE)
  assume "list_all plain (escape_char b c)" "escape_char b c = push_char c"
  then show ?thesis using quoted_loop_plain [OF d r] by simp
next
  fix e ps assume e: "escape_char b c = 92 # e # ps" "e \<notin> {0, 13, 122, 117}" "list_all plain ps"
  have "escape_length (e # ps @ cs) = 1" using e(2) by (simp add: escape_length_def)
  then have "read_backslash_in_string lx = Some ((step ^^ 2) lx)"
    using read_backslash_eq [of lx "e # ps @ cs"] r e(1) by (simp add: steps_3)
  then have "quoted_loop d lx = quoted_loop d ((step ^^ 2) lx)"
    using r e(1) d by (subst quoted_loop.simps) (auto simp: peekch_rest)
  also have "\<dots> = quoted_loop d ((step ^^ length ps) ((step ^^ 2) lx))"
    using r e by (intro quoted_loop_plain [OF d, where cs = cs]) (simp_all add: rest_steps)
  also have "(step ^^ length ps) ((step ^^ 2) lx) = (step ^^ length (escape_char b c)) lx"
    using e(1) by (simp add: steps_3 funpow_swap1)
  finally show ?thesis .
qed

lemma quoted_loop_escape:
  assumes d: "d = 34 \<or> d = 39"
  shows "rest lx = escape b s @ d # cs \<Longrightarrow> quoted_loop d lx = Some (True, (step ^^ length (escape b s)) lx)"
proof (induction s arbitrary: lx)
  case Nil
  then show ?case using d by (subst quoted_loop.simps) (auto simp: escape_def peekch_rest)
next
  case (Cons c s)
  have e: "escape b (c # s) = escape_char b c @ escape b s" by (simp add: escape_def)
  then have "quoted_loop d lx = quoted_loop d ((step ^^ length (escape_char b c)) lx)"
    using Cons.prems by (intro quoted_loop_char [OF d, where cs = "escape b s @ d # cs"]) simp
  also have "\<dots> = Some (True, (step ^^ length (escape b s)) ((step ^^ length (escape_char b c)) lx))"
    using Cons.prems e by (intro Cons.IH) (simp add: rest_steps)
  also have "(step ^^ length (escape b s)) ((step ^^ length (escape_char b c)) lx) = (step ^^ length (escape b (c # s))) lx"
    by (simp add: e funpow_add add.commute [of "length (escape_char b c)"])
  finally show ?case .
qed

text \<open>C22: A text that is printed by \<open>escape\<close> between two quotes is lexed as one quoted string, up to the second
  quote; its payload is what was printed, and decoding the payload gives the bytes of the text, each encoded as a character by
  \<open>push_char\<close>. That is the text itself exactly when the text is ASCII.\<close>

theorem printed_string_is_lexed:
  assumes "rest lx = d # escape for_interp s @ d # cs" and "d = 34 \<or> d = 39"
  shows "\<exists>lexeme lx' start. read_next lx = Some (lexeme, lx') \<and> rest lx' = cs \<and> lex_type lexeme = QuotedString \<and> lex_data lexeme = DataAt start \<and>
    lex_length lexeme = word_of_nat (length (escape for_interp s)) \<and>
    fixup_quoted_bytes (take (length (escape for_interp s)) (drop start (lx_buffer lx))) = Some (Some (concat (map push_char s))) \<and>
    (fixup_quoted_bytes (take (length (escape for_interp s)) (drop start (lx_buffer lx))) = Some (Some s) \<longleftrightarrow> (\<forall>c \<in> set s. c < 128))"
proof -
  let ?e = "escape for_interp s"
  have d: "d \<noteq> 10" "d \<noteq> 0" using assms(2) by auto
  have c: "consume lx = Some (step lx)" "peekch lx = d" using consume_rest [OF assms(1) d(1)] assms(1) by (simp_all add: peekch_rest)
  have r1: "rest (step lx) = ?e @ d # cs" using assms(1) by simp
  define lx1 where "lx1 = (step ^^ length ?e) (step lx)"
  have q: "quoted_loop d (step lx) = Some (True, lx1)" using quoted_loop_escape [OF assms(2) r1] by (simp add: lx1_def)
  have r2: "rest lx1 = d # cs" using r1 by (simp add: lx1_def rest_steps)
  have c2: "consume lx1 = Some (step lx1)" using consume_rest [OF r2 d(1)] .
  have o: "lx_offset lx1 = lx_offset lx + 1 + length ?e" by (simp add: lx1_def)
  have "read_next lx = read_quoted_string lx" using c(2) assms(2) by (auto simp: read_next_def Let_def)
  also have "\<dots> = Some (\<lparr>lex_type = QuotedString, lex_location = between (lexer_position lx) (lexer_position (step lx1)),
      lex_length = word_of_nat (length ?e), lex_data = DataAt (lx_offset lx + 1)\<rparr>, step lx1)"
    using assms(2) c q c2 o by (auto simp: read_quoted_string_def lexeme_with_data_def Let_def)
  finally have n: "read_next lx = \<dots>" .
  have "take (length ?e) (drop (lx_offset lx + 1) (lx_buffer lx)) = ?e" using r1 by (simp add: rest_def)
  then show ?thesis using n r2 fixup_quoted_eq [of ?e] decode_of_escape [of for_interp s] pushed_same [of s] by simp
qed

theorem printed_string_is_lexed_witness:
  "\<exists>lexeme lx' start. read_next (lexer_new (34 # escape False [97, 34] @ 34 # [41]) name_table_new \<lparr>pos_line = 0, pos_column = 0\<rparr>) = Some (lexeme, lx') \<and>
    rest lx' = [41] \<and> lex_type lexeme = QuotedString \<and> lex_data lexeme = DataAt start \<and>
    fixup_quoted_bytes (take (length (escape False [97, 34])) (drop start (34 # escape False [97, 34] @ 34 # [41]))) = Some (Some [97, 34])"
  using printed_string_is_lexed [of "lexer_new (34 # escape False [97, 34] @ 34 # [41]) name_table_new \<lparr>pos_line = 0, pos_column = 0\<rparr>"
      34 False "[97, 34]" "[41]"] by (auto simp: rest_def lexer_new_def)

end
