(* ===== verification/Table_Sort.thy ===== *)
theory Table_Sort
  imports Luau_Prelude "HOL-Library.Multiset"
begin

text \<open>
  \<open>table.sort\<close> of \<open>luaur-vm\<close>: \<open>tsort.rs\<close>, \<open>sort_rec.rs\<close>, \<open>sort_heap.rs\<close>, \<open>sort_siftheap.rs\<close>, \<open>sort_less.rs\<close>,
  \<open>sort_swap.rs\<close>. A quicksort with the median of three as pivot, which goes over to heap sort when the
  recursion exceeds its limit. It runs a predicate of the user in the middle of its work. The state is the
  array part of the table together with all that the predicate can reach besides, as an arbitrary type; the predicate
  takes two values and the state, and leaves a state: it can raise an error, keep a state of its
  own, assign to the table that is being sorted, resize it, or be no order at all.
\<close>

section \<open>The code\<close>

datatype sort_error = InvalidOrder | TableModified | PredicateError | AssertionFailed

text \<open>The answer \<open>None\<close> of a predicate is an error it raises. An error leaves the state it was raised in.\<close>

type_synonym ('a, 'w) sort_state = "'a list \<times> 'w"
type_synonym ('a, 'w) pred = "'a \<Rightarrow> 'a \<Rightarrow> ('a, 'w) sort_state \<Rightarrow> bool option \<times> ('a, 'w) sort_state"
type_synonym ('r, 'a, 'w) sort_result = "sort_error \<times> ('a, 'w) sort_state + 'r \<times> ('a, 'w) sort_state"

text \<open>\<open>sort_less\<close>: the size of the array part is compared with the one before the call of the predicate.\<close>

definition sort_less :: "('a, 'w) pred \<Rightarrow> ('a, 'w) sort_state \<Rightarrow> nat \<Rightarrow> nat \<Rightarrow> (bool, 'a, 'w) sort_result" where
  "sort_less pred s i j =
     (let arr = fst s; n = length arr in
      if i < n \<and> j < n then
        case pred (arr ! i) (arr ! j) s of
          (None, s) \<Rightarrow> Inl (PredicateError, s)
        | (Some res, s) \<Rightarrow> if length (fst s) \<noteq> n then Inl (TableModified, s) else Inr (res, s)
      else Inl (AssertionFailed, s))"

definition sort_swap :: "('a, 'w) sort_state \<Rightarrow> nat \<Rightarrow> nat \<Rightarrow> (unit, 'a, 'w) sort_result" where
  "sort_swap s i j =
     (let arr = fst s; n = length arr in
      if i < n \<and> j < n then Inr ((), arr[i := arr ! j, j := arr ! i], snd s) else Inl (AssertionFailed, s))"

text \<open>\<open>sort_siftheap\<close>: the loop over the elements with two children, and the last element.\<close>

definition larger :: "('a, 'w) pred \<Rightarrow> ('a, 'w) sort_state \<Rightarrow> nat \<Rightarrow> nat \<Rightarrow> nat \<Rightarrow> (nat, 'a, 'w) sort_result" where
  "larger pred s l next child =
     and_then (sort_less pred s (l + next) (l + child)) (\<lambda>(b, s). Inr (if b then child else next, s))"

lemma larger_cases: "larger pred s l next child = Inr (k, s') \<Longrightarrow> k = next \<or> k = child"
  by (auto simp: larger_def split: if_splits)

function sift_loop :: "('a, 'w) pred \<Rightarrow> nat \<Rightarrow> nat \<Rightarrow> nat \<Rightarrow> ('a, 'w) sort_state \<Rightarrow> (nat, 'a, 'w) sort_result" where
  "sift_loop pred l n root s =
     (if root * 2 + 2 < n then
        let left = root * 2 + 1; right = root * 2 + 2 in
        and_then (larger pred s l root left) (\<lambda>(next, s).
          and_then (larger pred s l next right) (\<lambda>(next, s).
            if next = root then Inr (root, s)
            else and_then (sort_swap s (l + root) (l + next)) (\<lambda>(_, s). sift_loop pred l n next s)))
      else Inr (root, s))"
  by pat_completeness auto

termination
  by (relation "measure (\<lambda>(pred, l, n, root, s). n - root)") (auto dest!: larger_cases)

declare sift_loop.simps [simp del]

definition sort_siftheap :: "('a, 'w) pred \<Rightarrow> nat \<Rightarrow> nat \<Rightarrow> nat \<Rightarrow> ('a, 'w) sort_state \<Rightarrow> (unit, 'a, 'w) sort_result" where
  "sort_siftheap pred l u root s =
     (if l \<le> u then
        let n = u - l + 1 in
        and_then (sift_loop pred l n root s) (\<lambda>(root, s).
          let lastleft = root * 2 + 1 in
          if lastleft = n - 1 then
            and_then (sort_less pred s (l + root) (l + lastleft)) (\<lambda>(b, s).
              if b then sort_swap s (l + root) (l + lastleft) else Inr ((), s))
          else Inr ((), s))
      else Inl (AssertionFailed, s))"

text \<open>\<open>sort_heap\<close>: the loop from \<open>count / 2 - 1\<close> down to 0 and the loop from \<open>count - 1\<close> down to 1.\<close>

fun build_loop :: "('a, 'w) pred \<Rightarrow> nat \<Rightarrow> nat \<Rightarrow> nat \<Rightarrow> ('a, 'w) sort_state \<Rightarrow> (unit, 'a, 'w) sort_result" where
  "build_loop pred l u 0 s = Inr ((), s)"
| "build_loop pred l u (Suc i) s = and_then (sort_siftheap pred l u i s) (\<lambda>(_, s). build_loop pred l u i s)"

fun extract_loop :: "('a, 'w) pred \<Rightarrow> nat \<Rightarrow> nat \<Rightarrow> ('a, 'w) sort_state \<Rightarrow> (unit, 'a, 'w) sort_result" where
  "extract_loop pred l 0 s = Inr ((), s)"
| "extract_loop pred l (Suc i) s =
     and_then (sort_swap s l (l + Suc i)) (\<lambda>(_, s).
       and_then (sort_siftheap pred l (l + Suc i - 1) 0 s) (\<lambda>(_, s). extract_loop pred l i s))"

definition sort_heap :: "('a, 'w) pred \<Rightarrow> nat \<Rightarrow> nat \<Rightarrow> ('a, 'w) sort_state \<Rightarrow> (unit, 'a, 'w) sort_result" where
  "sort_heap pred l u s =
     (if l \<le> u then
        let n = u - l + 1 in
        and_then (build_loop pred l u (n div 2) s) (\<lambda>(_, s). extract_loop pred l (n - 1) s)
      else Inl (AssertionFailed, s))"

text \<open>The scans of the partition. A decrement of 0 gives an index that fails the assertion of \<open>sort_less\<close>.\<close>

function scan_up :: "('a, 'w) pred \<Rightarrow> nat \<Rightarrow> nat \<Rightarrow> nat \<Rightarrow> ('a, 'w) sort_state \<Rightarrow> (nat, 'a, 'w) sort_result" where
  "scan_up pred u p i s =
     and_then (sort_less pred s (i + 1) p) (\<lambda>(b, s).
       if b then (if i + 1 \<ge> u then Inl (InvalidOrder, s) else scan_up pred u p (i + 1) s) else Inr (i + 1, s))"
  by pat_completeness auto
termination by (relation "measure (\<lambda>(pred, u, p, i, s). u - i)") auto

fun scan_down :: "('a, 'w) pred \<Rightarrow> nat \<Rightarrow> nat \<Rightarrow> nat \<Rightarrow> ('a, 'w) sort_state \<Rightarrow> (nat, 'a, 'w) sort_result" where
  "scan_down pred l p 0 s = Inl (AssertionFailed, s)"
| "scan_down pred l p (Suc j) s =
     and_then (sort_less pred s p j) (\<lambda>(b, s).
       if b then (if j \<le> l then Inl (InvalidOrder, s) else scan_down pred l p j s) else Inr (j, s))"

declare scan_up.simps [simp del]

lemma scan_down_less: "scan_down pred l p j s = Inr (j', s') \<Longrightarrow> j' < j"
  by (induction j arbitrary: s) (auto split: if_splits intro: less_SucI)

function partition_loop :: "('a, 'w) pred \<Rightarrow> nat \<Rightarrow> nat \<Rightarrow> nat \<Rightarrow> nat \<Rightarrow> nat \<Rightarrow> ('a, 'w) sort_state \<Rightarrow> (nat, 'a, 'w) sort_result" where
  "partition_loop pred l u p i j s =
     and_then (scan_up pred u p i s) (\<lambda>(i, s).
       and_then (scan_down pred l p j s) (\<lambda>(j, s).
         if j < i then Inr (i, s)
         else and_then (sort_swap s i j) (\<lambda>(_, s). partition_loop pred l u p i j s)))"
  by pat_completeness auto
termination by (relation "measure (\<lambda>(pred, l, u, p, i, j, s). j)") (auto dest: scan_down_less)

declare partition_loop.simps [simp del]

lemma scan_up_range: "scan_up pred u p i s = Inr (i', s') \<Longrightarrow> i < u \<Longrightarrow> i < i' \<and> i' \<le> u"
proof (induction "u - i" arbitrary: i s rule: less_induct)
  case less
  obtain b t where b: "sort_less pred s (i + 1) p = Inr (b, t)"
    and r: "(if b then (if i + 1 \<ge> u then Inl (InvalidOrder, t) else scan_up pred u p (i + 1) t) else Inr (i + 1, t)) = Inr (i', s')"
    using less.prems(1) by (subst (asm) scan_up.simps) auto
  show ?case
  proof (cases "b \<and> i + 1 < u")
    case True
    moreover from this have "u - (i + 1) < u - i" by linarith
    ultimately have "i + 1 < i' \<and> i' \<le> u" using less.hyps [of "i + 1" t] r by simp
    then show ?thesis by simp
  next
    case False
    then show ?thesis using r less.prems(2) by (auto split: if_splits)
  qed
qed

lemma partition_loop_range:
  "partition_loop pred l u p i j s = Inr (i', s') \<Longrightarrow> i < u \<Longrightarrow> j \<le> u \<Longrightarrow> i < i' \<and> i' \<le> u"
proof (induction j arbitrary: i s rule: less_induct)
  case (less j)
  obtain k t m v where s: "scan_up pred u p i s = Inr (k, t)" "scan_down pred l p j t = Inr (m, v)"
    and r: "(if m < k then Inr (k, v) else and_then (sort_swap v k m) (\<lambda>(_, s). partition_loop pred l u p k m s)) = Inr (i', s')"
    using less.prems(1) by (subst (asm) partition_loop.simps) auto
  have k: "i < k" "k \<le> u" using scan_up_range [OF s(1) less.prems(2)] by simp_all
  have m: "m < j" using scan_down_less [OF s(2)] .
  show ?case
  proof (cases "m < k")
    case True
    then show ?thesis using r k by simp
  next
    case False
    then obtain y where "partition_loop pred l u p k m y = Inr (i', s')" using r by (auto split: prod.splits)
    then show ?thesis using less.IH [OF m, of k y] k m False less.prems(3) by simp
  qed
qed

text \<open>One turn of the loop of \<open>sort_rec\<close>: the small cases end it, otherwise the new place of the pivot is returned.\<close>

definition median :: "('a, 'w) pred \<Rightarrow> nat \<Rightarrow> nat \<Rightarrow> nat \<Rightarrow> ('a, 'w) sort_state \<Rightarrow> (unit, 'a, 'w) sort_result" where
  "median pred l m u s =
     and_then (sort_less pred s m l) (\<lambda>(b, s).
       if b then sort_swap s m l
       else and_then (sort_less pred s u m) (\<lambda>(b, s). if b then sort_swap s m u else Inr ((), s)))"

definition partition_range :: "('a, 'w) pred \<Rightarrow> nat \<Rightarrow> nat \<Rightarrow> nat \<Rightarrow> ('a, 'w) sort_state \<Rightarrow> (nat, 'a, 'w) sort_result" where
  "partition_range pred l m u s =
     and_then (sort_swap s m (u - 1)) (\<lambda>(_, s).
       and_then (partition_loop pred l u (u - 1) l (u - 1) s) (\<lambda>(i, s).
         and_then (sort_swap s (u - 1) i) (\<lambda>(_, s). Inr (i, s))))"

definition sort_turn :: "('a, 'w) pred \<Rightarrow> nat \<Rightarrow> nat \<Rightarrow> ('a, 'w) sort_state \<Rightarrow> (nat option, 'a, 'w) sort_result" where
  "sort_turn pred l u s =
     and_then (sort_less pred s u l) (\<lambda>(b, s).
       and_then (if b then sort_swap s u l else Inr ((), s)) (\<lambda>(_, s).
         if u - l = 1 then Inr (None, s)
         else
           let m = l + (u - l) div 2 in
           and_then (median pred l m u s) (\<lambda>(_, s).
             if u - l = 2 then Inr (None, s)
             else and_then (partition_range pred l m u s) (\<lambda>(i, s). Inr (Some i, s)))))"

lemma sort_turn_range: "sort_turn pred l u s = Inr (Some i, s') \<Longrightarrow> l < u \<Longrightarrow> l < i \<and> i \<le> u"
  by (auto simp: sort_turn_def partition_range_def Let_def split: if_splits dest!: partition_loop_range)

function sort_rec :: "('a, 'w) pred \<Rightarrow> nat \<Rightarrow> nat \<Rightarrow> nat \<Rightarrow> ('a, 'w) sort_state \<Rightarrow> (unit, 'a, 'w) sort_result" where
  "sort_rec pred l u limit s =
     (if l < u then
        if limit = 0 then sort_heap pred l u s
        else
          and_then (sort_turn pred l u s) (\<lambda>(k, s).
            case k of
              None \<Rightarrow> Inr ((), s)
            | Some i \<Rightarrow>
                let limit = limit div 2 + limit div 4 in
                if i - l < u - i then
                  and_then (sort_rec pred l (i - 1) limit s) (\<lambda>(_, s). sort_rec pred (i + 1) u limit s)
                else
                  and_then (sort_rec pred (i + 1) u limit s) (\<lambda>(_, s). sort_rec pred l (i - 1) limit s))
      else Inr ((), s))"
  by pat_completeness auto
termination by (relation "measure (\<lambda>(pred, l, u, limit, s). u - l)") (auto dest!: sort_turn_range)

declare sort_rec.simps [simp del]

text \<open>\<open>tsort\<close> on the first \<open>n\<close> elements of the array part.\<close>

definition tsort :: "('a, 'w) pred \<Rightarrow> nat \<Rightarrow> ('a, 'w) sort_state \<Rightarrow> (unit, 'a, 'w) sort_result" where
  "tsort pred n s = (if n > 0 then sort_rec pred 0 (n - 1) n s else Inr ((), s))"

section \<open>Any predicate: bounds and moves\<close>

text \<open>\<open>swaps l u xs ys\<close>: swaps between the indices \<open>l\<close> and \<open>u\<close> lead from \<open>xs\<close> to \<open>ys\<close>.\<close>

inductive swaps :: "nat \<Rightarrow> nat \<Rightarrow> 'a list \<Rightarrow> 'a list \<Rightarrow> bool" for l u where
  swaps_refl [intro, simp]: "swaps l u xs xs"
| swaps_swap: "swaps l u xs ys \<Longrightarrow> l \<le> i \<Longrightarrow> i \<le> u \<Longrightarrow> l \<le> j \<Longrightarrow> j \<le> u \<Longrightarrow> i < length ys \<Longrightarrow> j < length ys \<Longrightarrow>
    swaps l u xs (ys[i := ys ! j, j := ys ! i])"

lemma swaps_length [simp]: "swaps l u xs ys \<Longrightarrow> length ys = length xs"
  by (induction rule: swaps.induct) auto

lemma swaps_mset: "swaps l u xs ys \<Longrightarrow> mset ys = mset xs"
  by (induction rule: swaps.induct) (auto simp: mset_swap)

lemma swaps_outside: "swaps l u xs ys \<Longrightarrow> k < l \<or> u < k \<Longrightarrow> ys ! k = xs ! k"
  by (induction rule: swaps.induct) auto

text \<open>What holds of all elements of the range goes on to hold.\<close>

lemma swaps_all: "swaps l u xs ys \<Longrightarrow> \<forall>k. l \<le> k \<and> k \<le> u \<longrightarrow> P (xs ! k) \<Longrightarrow> u < length xs \<Longrightarrow> \<forall>k. l \<le> k \<and> k \<le> u \<longrightarrow> P (ys ! k)"
proof (induction rule: swaps.induct)
  case (swaps_swap xs ys i j)
  then show ?case using swaps_length [OF swaps_swap(1)] by (simp add: nth_list_update)
qed

lemma swaps_drop: "swaps l u xs ys \<Longrightarrow> drop (Suc u) ys = drop (Suc u) xs"
  by (rule nth_equalityI) (auto simp: swaps_outside)

lemma swaps_take_mset:
  assumes "swaps 0 u xs ys"
  shows "mset (take (Suc u) ys) = mset (take (Suc u) xs)"
proof -
  have "mset (take (Suc u) ys) + mset (drop (Suc u) ys) = mset (take (Suc u) xs) + mset (drop (Suc u) xs)"
    using swaps_mset [OF assms] by (simp flip: mset_append)
  then show ?thesis unfolding swaps_drop [OF assms] by simp
qed

text \<open>\<open>moves pred l u s s'\<close>: swaps in the range, and calls of the predicate that answered and kept the size of the array,
  lead from \<open>s\<close> to \<open>s'\<close>; \<open>fails pred l u s e s'\<close>: after such moves the error \<open>e\<close> was raised for its reason.\<close>

inductive moves :: "('a, 'w) pred \<Rightarrow> nat \<Rightarrow> nat \<Rightarrow> ('a, 'w) sort_state \<Rightarrow> ('a, 'w) sort_state \<Rightarrow> bool" for pred l u where
  moves_refl [intro, simp]: "moves pred l u s s"
| moves_call: "moves pred l u s s' \<Longrightarrow> pred a b s' = (Some r, s'') \<Longrightarrow> length (fst s'') = length (fst s') \<Longrightarrow> moves pred l u s s''"
| moves_swap: "moves pred l u s s' \<Longrightarrow> l \<le> i \<Longrightarrow> i \<le> u \<Longrightarrow> l \<le> j \<Longrightarrow> j \<le> u \<Longrightarrow> i < length (fst s') \<Longrightarrow> j < length (fst s') \<Longrightarrow>
    moves pred l u s ((fst s')[i := fst s' ! j, j := fst s' ! i], snd s')"

lemma moves_trans: "moves pred l u s' s'' \<Longrightarrow> moves pred l u s s' \<Longrightarrow> moves pred l u s s''"
  by (induction rule: moves.induct) (auto intro: moves_call moves_swap)

lemma moves_mono: "moves pred l u s s' \<Longrightarrow> l' \<le> l \<Longrightarrow> u \<le> u' \<Longrightarrow> moves pred l' u' s s'"
  by (induction rule: moves.induct) (auto intro: moves_call moves_swap)

lemma moves_length [simp]: "moves pred l u s s' \<Longrightarrow> length (fst s') = length (fst s)"
  by (induction rule: moves.induct) auto

inductive fails :: "('a, 'w) pred \<Rightarrow> nat \<Rightarrow> nat \<Rightarrow> ('a, 'w) sort_state \<Rightarrow> sort_error \<Rightarrow> ('a, 'w) sort_state \<Rightarrow> bool" for pred l u s where
  fails_order: "moves pred l u s s' \<Longrightarrow> fails pred l u s InvalidOrder s'"
| fails_modified: "moves pred l u s v \<Longrightarrow> pred a b v = (Some r, s') \<Longrightarrow> length (fst s') \<noteq> length (fst v) \<Longrightarrow>
    fails pred l u s TableModified s'"
| fails_call: "moves pred l u s v \<Longrightarrow> pred a b v = (None, s') \<Longrightarrow> fails pred l u s PredicateError s'"

inductive_simps fails_simps [simp]: "fails pred l u s AssertionFailed s'" "fails pred l u s InvalidOrder s'"

lemma fails_trans: "fails pred l u s' e s'' \<Longrightarrow> moves pred l u s s' \<Longrightarrow> fails pred l u s e s''"
  by (induction rule: fails.induct) (blast intro: moves_trans fails.intros)+

lemma fails_mono: "fails pred l u s e s' \<Longrightarrow> l' \<le> l \<Longrightarrow> u \<le> u' \<Longrightarrow> fails pred l' u' s e s'"
  by (induction rule: fails.induct) (blast intro: moves_mono fails.intros)+

text \<open>A predicate that leaves the table alone: the array is only permuted, also when an error ends the sort.\<close>

definition keeps_table :: "('a, 'w) pred \<Rightarrow> bool" where
  "keeps_table pred \<longleftrightarrow> (\<forall>a b s. fst (snd (pred a b s)) = fst s)"

lemma keeps_tableD: "keeps_table pred \<Longrightarrow> pred a b s = (r, s') \<Longrightarrow> fst s' = fst s"
  unfolding keeps_table_def by (metis snd_conv)

lemma moves_swaps: "moves pred l u s s' \<Longrightarrow> keeps_table pred \<Longrightarrow> swaps l u (fst s) (fst s')"
proof (induction rule: moves.induct)
  case (moves_call s s' a b r s'')
  then show ?case using keeps_tableD [OF moves_call(5,2)] by simp
qed (auto intro: swaps_swap)

lemma fails_swaps: "fails pred l u s e s' \<Longrightarrow> keeps_table pred \<Longrightarrow> swaps l u (fst s) (fst s')"
proof (induction rule: fails.induct)
  case (fails_modified v a b r s')
  then show ?case using keeps_tableD [OF fails_modified(4,2)] by simp
next
  case (fails_call v a b s')
  then show ?case using keeps_tableD [OF fails_call(3,2)] moves_swaps by metis
qed (rule moves_swaps)

text \<open>A routine that works within a range, with a condition on the value it returns.\<close>

definition within :: "('a, 'w) pred \<Rightarrow> nat \<Rightarrow> nat \<Rightarrow> ('a, 'w) sort_state \<Rightarrow> ('r \<Rightarrow> bool) \<Rightarrow> ('r, 'a, 'w) sort_result \<Rightarrow> bool" where
  "within pred l u s Q r \<longleftrightarrow> (case r of Inl (e, s') \<Rightarrow> fails pred l u s e s' | Inr (x, s') \<Rightarrow> Q x \<and> moves pred l u s s')"

lemma within_simps [simp]:
  "within pred l u s Q (Inl (e, s')) \<longleftrightarrow> fails pred l u s e s'"
  "within pred l u s Q (Inr (x, s')) \<longleftrightarrow> Q x \<and> moves pred l u s s'"
  by (simp_all add: within_def)

lemma within_trans: "within pred l u s' Q r \<Longrightarrow> moves pred l u s s' \<Longrightarrow> within pred l u s Q r"
  by (auto simp: within_def intro: moves_trans fails_trans split: sum.splits)

lemma within_mono: "within pred l u s Q r \<Longrightarrow> l' \<le> l \<Longrightarrow> u \<le> u' \<Longrightarrow> within pred l' u' s Q r"
  by (auto simp: within_def intro: moves_mono fails_mono split: sum.splits)

lemma within_weaken: "within pred l u s Q r \<Longrightarrow> (\<And>x. Q x \<Longrightarrow> Q' x) \<Longrightarrow> within pred l u s Q' r"
  by (auto simp: within_def split: sum.splits)

lemma within_then:
  assumes "within pred l u s Q r" and "\<And>x s'. Q x \<Longrightarrow> length (fst s') = length (fst s) \<Longrightarrow> within pred l u s' Q' (f x s')"
  shows "within pred l u s Q' (and_then r (\<lambda>(x, s). f x s))"
proof (cases r)
  case (Inl e)
  then show ?thesis using assms(1) by (cases e) simp
next
  case (Inr a)
  obtain x s' where a: "a = (x, s')" by (cases a)
  then have "Q x" "moves pred l u s s'" using assms(1) Inr by simp_all
  then have "within pred l u s' Q' (f x s')" using assms(2) by simp
  then show ?thesis using Inr a within_trans \<open>moves pred l u s s'\<close> by fastforce
qed

lemma less_within: "i < length (fst s) \<Longrightarrow> j < length (fst s) \<Longrightarrow> within pred l u s (\<lambda>_. True) (sort_less pred s i j)"
  by (auto simp: sort_less_def Let_def intro: moves_call [OF moves_refl] fails_modified [OF moves_refl] fails_call [OF moves_refl]
      split: prod.split option.split)

lemma swap_within:
  "l \<le> i \<Longrightarrow> i \<le> u \<Longrightarrow> l \<le> j \<Longrightarrow> j \<le> u \<Longrightarrow> u < length (fst s) \<Longrightarrow> within pred l u s (\<lambda>_. True) (sort_swap s i j)"
  by (simp add: sort_swap_def Let_def moves_swap [OF moves_refl])

lemma larger_within:
  "l + next < length (fst s) \<Longrightarrow> l + child < length (fst s) \<Longrightarrow>
    within pred l u s (\<lambda>k. k = next \<or> k = child) (larger pred s l next child)"
  unfolding larger_def by (rule within_then [OF less_within]) auto

lemma sift_loop_within:
  "l + n \<le> length (fst s) \<Longrightarrow> root < n \<Longrightarrow> within pred l (l + n - 1) s (\<lambda>root'. root' < n) (sift_loop pred l n root s)"
proof (induction "n - root" arbitrary: root s rule: less_induct)
  case less
  let ?u = "l + n - 1"
  have "within pred l ?u s (\<lambda>root'. root' < n)
      (and_then (larger pred s l root (root * 2 + 1)) (\<lambda>(next, s).
          and_then (larger pred s l next (root * 2 + 2)) (\<lambda>(next, s).
            if next = root then Inr (root, s)
            else and_then (sort_swap s (l + root) (l + next)) (\<lambda>(_, s). sift_loop pred l n next s))))" if two: "root * 2 + 2 < n"
  proof (rule within_then [OF larger_within], goal_cases)
    case (3 next' t)
    show ?case
    proof (rule within_then [OF larger_within], goal_cases)
      case (3 nxt v)
      have nxt: "nxt < n" "nxt = root \<or> root < nxt" using 3(1) \<open>next' = root \<or> next' = root * 2 + 1\<close> two by auto
      have "within pred l ?u v (\<lambda>root'. root' < n)
          (and_then (sort_swap v (l + root) (l + nxt)) (\<lambda>(_, s). sift_loop pred l n nxt s))" if "nxt \<noteq> root"
      proof (rule within_then [OF swap_within], goal_cases)
        case (6 x y)
        then show ?case using that nxt 3(2) \<open>length (fst t) = length (fst s)\<close> less.prems by (intro less.hyps) auto
      qed (use nxt 3(2) \<open>length (fst t) = length (fst s)\<close> less.prems in auto)
      then show ?case using less.prems(2) by simp
    qed (use 3 two less.prems in auto)
  qed (use two less.prems in auto)
  then show ?case using less.prems(2) by (subst sift_loop.simps) (simp add: Let_def)
qed

lemma siftheap_within:
  assumes "l \<le> u" "u < length (fst s)" "root \<le> u - l"
  shows "within pred l u s (\<lambda>_. True) (sort_siftheap pred l u root s)"
proof -
  let ?n = "u - l + 1"
  have "within pred l u s (\<lambda>root'. root' < ?n) (sift_loop pred l ?n root s)"
    using sift_loop_within [of l ?n s root pred] assms by simp
  then have "within pred l u s (\<lambda>_. True) (and_then (sift_loop pred l ?n root s) (\<lambda>(root, s).
      if root * 2 + 1 = ?n - 1 then
        and_then (sort_less pred s (l + root) (l + (root * 2 + 1))) (\<lambda>(b, s).
          if b then sort_swap s (l + root) (l + (root * 2 + 1)) else Inr ((), s))
      else Inr ((), s)))"
  proof (rule within_then, goal_cases)
    case (1 root' t)
    have "within pred l u t (\<lambda>_. True) (and_then (sort_less pred t (l + root') (l + (root' * 2 + 1))) (\<lambda>(b, s).
          if b then sort_swap s (l + root') (l + (root' * 2 + 1)) else Inr ((), s)))" if "root' * 2 + 1 = ?n - 1"
    proof (rule within_then [OF less_within], goal_cases)
      case (3 b v)
      then show ?case using that 1 assms by (auto intro: swap_within)
    qed (use that 1 assms in auto)
    then show ?case by simp
  qed
  then show ?thesis by (simp only: sort_siftheap_def Let_def assms(1) if_True)
qed

lemma build_loop_within:
  "l \<le> u \<Longrightarrow> u < length (fst s) \<Longrightarrow> k \<le> u - l + 1 \<Longrightarrow> within pred l u s (\<lambda>_. True) (build_loop pred l u k s)"
proof (induction k arbitrary: s)
  case (Suc k)
  then show ?case using siftheap_within [of l u s k pred] by (auto intro!: within_then)
qed simp

lemma extract_loop_within:
  "l + k \<le> u \<Longrightarrow> u < length (fst s) \<Longrightarrow> within pred l u s (\<lambda>_. True) (extract_loop pred l k s)"
proof (induction k arbitrary: s)
  case (Suc k)
  show ?case unfolding extract_loop.simps
  proof (rule within_then [OF swap_within], goal_cases)
    case (6 x t)
    have "within pred l (l + k) t (\<lambda>_. True) (sort_siftheap pred l (l + k) 0 t)"
      using Suc.prems 6 by (intro siftheap_within) auto
    then have "within pred l u t (\<lambda>_. True) (sort_siftheap pred l (l + Suc k - 1) 0 t)"
      using Suc.prems by (auto intro: within_mono)
    then show ?case using Suc.IH Suc.prems 6 by (auto intro!: within_then)
  qed (use Suc.prems in auto)
qed simp

lemma heap_within: "l \<le> u \<Longrightarrow> u < length (fst s) \<Longrightarrow> within pred l u s (\<lambda>_. True) (sort_heap pred l u s)"
  unfolding sort_heap_def by (auto simp: Let_def intro!: within_then [OF build_loop_within] extract_loop_within)

lemma scan_up_within:
  "i < u \<Longrightarrow> u < length (fst s) \<Longrightarrow> p < length (fst s) \<Longrightarrow> within pred l u s (\<lambda>i'. i < i' \<and> i' \<le> u) (scan_up pred u p i s)"
proof (induction "u - i" arbitrary: i s rule: less_induct)
  case less
  show ?case unfolding scan_up.simps [of pred u p i s]
  proof (rule within_then [OF less_within], goal_cases)
    case (3 b t)
    have "within pred l u t (\<lambda>i'. i < i' \<and> i' \<le> u) (scan_up pred u p (i + 1) t)" if "i + 1 < u"
      by (rule within_weaken [OF less.hyps]) (use that less.prems 3 in auto)
    then show ?case using less.prems by auto
  qed (use less.prems in auto)
qed

lemma scan_down_within:
  "l < j \<Longrightarrow> j \<le> length (fst s) \<Longrightarrow> p < length (fst s) \<Longrightarrow> within pred l u s (\<lambda>j'. l \<le> j' \<and> j' < j) (scan_down pred l p j s)"
proof (induction j arbitrary: s)
  case (Suc j)
  show ?case unfolding scan_down.simps
  proof (rule within_then [OF less_within], goal_cases)
    case (3 b t)
    have "within pred l u t (\<lambda>j'. l \<le> j' \<and> j' < Suc j) (scan_down pred l p j t)" if "l < j"
      by (rule within_weaken [OF Suc.IH]) (use that Suc.prems 3 in auto)
    then show ?case using Suc.prems by auto
  qed (use Suc.prems in auto)
qed simp

lemma partition_loop_within:
  "l \<le> i \<Longrightarrow> i < u \<Longrightarrow> l < j \<Longrightarrow> j \<le> u \<Longrightarrow> u < length (fst s) \<Longrightarrow> p < length (fst s) \<Longrightarrow>
    within pred l u s (\<lambda>i'. l < i' \<and> i' \<le> u) (partition_loop pred l u p i j s)"
proof (induction j arbitrary: i s rule: less_induct)
  case (less j)
  show ?case unfolding partition_loop.simps [of pred l u p i j s]
  proof (rule within_then [OF scan_up_within [where l = l]], goal_cases)
    case (4 k t)
    show ?case
    proof (rule within_then [OF scan_down_within [where u = u]], goal_cases)
      case (4 m v)
      have "within pred l u v (\<lambda>i'. l < i' \<and> i' \<le> u) (and_then (sort_swap v k m) (\<lambda>(_, s). partition_loop pred l u p k m s))"
        if "\<not> m < k"
      proof (rule within_then [OF swap_within], goal_cases)
        case (6 x y)
        then show ?case
          using that 4 \<open>i < k \<and> k \<le> u\<close> \<open>length (fst t) = length (fst s)\<close> less.prems by (intro less.IH) auto
      qed (use that 4 \<open>i < k \<and> k \<le> u\<close> \<open>length (fst t) = length (fst s)\<close> less.prems in auto)
      then show ?case using \<open>i < k \<and> k \<le> u\<close> less.prems(1) by simp
    qed (use 4 less.prems in auto)
  qed (use less.prems in auto)
qed

lemma partition_range_within:
  assumes "l < m" "m < u" "u < length (fst s)" "l + 2 \<le> u"
  shows "within pred l u s (\<lambda>i. l < i \<and> i \<le> u) (partition_range pred l m u s)"
  unfolding partition_range_def
proof (rule within_then [OF swap_within], goal_cases)
  case (6 x t)
  show ?case
  proof (rule within_then [OF partition_loop_within], goal_cases)
    case (7 i v)
    have "within pred l u v (\<lambda>_. True) (sort_swap v (u - 1) i)" using assms 6 7 by (intro swap_within) auto
    then show ?case using 7 by (auto intro!: within_then)
  qed (use assms 6 in auto)
qed (use assms in auto)

lemma median_within:
  assumes "l < m" "m < u" "u < length (fst s)"
  shows "within pred l u s (\<lambda>_. True) (median pred l m u s)"
  unfolding median_def
proof (rule within_then [OF less_within], goal_cases)
  case (3 b t)
  have "within pred l u t (\<lambda>_. True) (and_then (sort_less pred t u m) (\<lambda>(b, s). if b then sort_swap s m u else Inr ((), s)))"
    using assms 3 by (auto intro!: within_then [OF less_within] swap_within)
  then show ?case using assms 3 by (auto intro: swap_within)
qed (use assms in auto)

lemma midpoint: "l + 1 < u \<Longrightarrow> l < l + (u - l) div 2 \<and> l + (u - l) div 2 < u" for l u :: nat
  by linarith

definition pivot_in :: "nat \<Rightarrow> nat \<Rightarrow> nat option \<Rightarrow> bool" where
  "pivot_in l u k \<longleftrightarrow> (case k of None \<Rightarrow> True | Some i \<Rightarrow> l < i \<and> i \<le> u)"

lemma pivot_in_simps [simp]: "pivot_in l u None" "pivot_in l u (Some i) \<longleftrightarrow> l < i \<and> i \<le> u"
  by (simp_all add: pivot_in_def)

lemma sort_turn_within:
  assumes "l < u" "u < length (fst s)"
  shows "within pred l u s (pivot_in l u) (sort_turn pred l u s)"
  unfolding sort_turn_def
proof (rule within_then [OF less_within], goal_cases)
  case (3 b t)
  let ?m = "l + (u - l) div 2"
  have "within pred l u t (\<lambda>_. True) (if b then sort_swap t u l else Inr ((), t))"
    using assms 3 by (auto intro: swap_within)
  then show ?case
  proof (rule within_then, goal_cases)
    case (1 x v)
    have "within pred l u v (pivot_in l u) (and_then (median pred l ?m u v) (\<lambda>(_, s).
             if u - l = 2 then Inr (None, s)
             else and_then (partition_range pred l ?m u s) (\<lambda>(i, s). Inr (Some i, s))))" if "u - l \<noteq> 1"
    proof (rule within_then [OF median_within], goal_cases)
      case (4 x y)
      have "within pred l u y (\<lambda>i. l < i \<and> i \<le> u) (partition_range pred l ?m u y)" if "u - l \<noteq> 2"
        using that \<open>u - l \<noteq> 1\<close> assms midpoint [of l u] 4 1 3 by (intro partition_range_within) auto
      then show ?case by (auto intro!: within_then)
    qed (use that assms midpoint [of l u] 1 3 in auto)
    then show ?case by (simp add: Let_def)
  qed
qed (use assms in auto)

lemma sort_rec_within: "u < length (fst s) \<Longrightarrow> within pred l u s (\<lambda>_. True) (sort_rec pred l u limit s)"
  for pred :: "('a, 'b) pred"
proof (induction "u - l" arbitrary: l u limit s rule: less_induct)
  case less
  let ?lim = "limit div 2 + limit div 4"
  have "within pred l u s (\<lambda>_. True) (and_then (sort_turn pred l u s) (\<lambda>(k, s).
            case k of
              None \<Rightarrow> Inr ((), s)
            | Some i \<Rightarrow>
                if i - l < u - i then
                  and_then (sort_rec pred l (i - 1) ?lim s) (\<lambda>(_, s). sort_rec pred (i + 1) u ?lim s)
                else
                  and_then (sort_rec pred (i + 1) u ?lim s) (\<lambda>(_, s). sort_rec pred l (i - 1) ?lim s)))" if "l < u"
  proof (rule within_then [OF sort_turn_within [OF that less.prems]])
    fix k and t :: "('a, 'b) sort_state" assume k: "pivot_in l u k" and t: "length (fst t) = length (fst s)"
    show "within pred l u t (\<lambda>_. True) (case k of None \<Rightarrow> Inr ((), t)
            | Some i \<Rightarrow>
                if i - l < u - i then
                  and_then (sort_rec pred l (i - 1) ?lim t) (\<lambda>(_, s). sort_rec pred (i + 1) u ?lim s)
                else
                  and_then (sort_rec pred (i + 1) u ?lim t) (\<lambda>(_, s). sort_rec pred l (i - 1) ?lim s))"
    proof (cases k)
      case (Some i)
      then have i: "l < i" "i \<le> u" using k by simp_all
      have left: "within pred l u v (\<lambda>_. True) (sort_rec pred l (i - 1) ?lim v)" if "length (fst v) = length (fst s)" for v
      proof -
        have "i - 1 - l < u - l" "i - 1 < length (fst v)" using i less.prems that by auto
        from within_mono [OF less.hyps [OF this]] i show ?thesis by auto
      qed
      have right: "within pred l u v (\<lambda>_. True) (sort_rec pred (i + 1) u ?lim v)" if "length (fst v) = length (fst s)" for v
      proof -
        have "u - (i + 1) < u - l" "u < length (fst v)" using i less.prems that by auto
        from within_mono [OF less.hyps [OF this]] i show ?thesis by auto
      qed
      show ?thesis unfolding Some option.case
        using within_then [OF left [OF t], of "\<lambda>_. True" "\<lambda>_. sort_rec pred (i + 1) u ?lim"]
          within_then [OF right [OF t], of "\<lambda>_. True" "\<lambda>_. sort_rec pred l (i - 1) ?lim"] left right t by simp
    qed simp
  qed
  then show ?case
    unfolding sort_rec.simps [of pred l u limit s] Let_def using heap_within [of l u s pred] less.prems by simp
qed

text \<open>So does \<open>tsort\<close>, in the first \<open>n\<close> elements.\<close>

lemma tsort_within: "0 < n \<Longrightarrow> n \<le> length (fst s) \<Longrightarrow> within pred 0 (n - 1) s (\<lambda>_. True) (tsort pred n s)"
  unfolding tsort_def by (auto intro!: sort_rec_within)

end
