(* ===== verification/Sort_Order.thy ===== *)
theory Sort_Order
  imports Table_Sort "HOL-Library.List_Lexorder" "HOL-Library.Word"
begin

text \<open>
  The result of \<open>table.sort\<close> under a predicate that is a strict weak order: the locale \<open>weak_order\<close> states
  what the user promises of the comparison, and its lemmas that no run raises an error and that the
  range comes out sorted, through the partition and, beyond the recursion limit, through the heap.
\<close>

section \<open>An order: the result is sorted\<close>

text \<open>A predicate that always answers and changes nothing, and the order of a range that it asks for.\<close>

definition total_pred :: "('a \<Rightarrow> 'a \<Rightarrow> bool) \<Rightarrow> ('a, 'w) pred" where "total_pred lt = (\<lambda>a b s. (Some (lt a b), s))"

lemma total_within: "within (total_pred lt) l u s Q r \<Longrightarrow> r = Inr (x, s') \<Longrightarrow> Q x \<and> swaps l u (fst s) (fst s')"
  by (auto simp: keeps_table_def total_pred_def dest: moves_swaps)

definition sorted_range :: "('a \<Rightarrow> 'a \<Rightarrow> bool) \<Rightarrow> nat \<Rightarrow> nat \<Rightarrow> 'a list \<Rightarrow> bool" where
  "sorted_range lt l u xs \<longleftrightarrow> (\<forall>i j. l \<le> i \<and> i < j \<and> j \<le> u \<longrightarrow> \<not> lt (xs ! j) (xs ! i))"

text \<open>A heap of \<open>n\<close> elements as a function of the index: no child is larger than its parent, from the node \<open>r\<close> on;
  \<open>heap_hole\<close> excepts one node, which can be smaller than its children, but they are not larger than its parent.\<close>

definition child :: "nat \<Rightarrow> nat \<Rightarrow> bool" where "child k c \<longleftrightarrow> c = 2 * k + 1 \<or> c = 2 * k + 2"

definition node_ok :: "('a \<Rightarrow> 'a \<Rightarrow> bool) \<Rightarrow> nat \<Rightarrow> (nat \<Rightarrow> 'a) \<Rightarrow> nat \<Rightarrow> bool" where
  "node_ok lt n f k \<longleftrightarrow> (\<forall>c. child k c \<and> c < n \<longrightarrow> \<not> lt (f k) (f c))"

definition heap_from :: "('a \<Rightarrow> 'a \<Rightarrow> bool) \<Rightarrow> nat \<Rightarrow> nat \<Rightarrow> (nat \<Rightarrow> 'a) \<Rightarrow> bool" where
  "heap_from lt n r f \<longleftrightarrow> (\<forall>k \<ge> r. node_ok lt n f k)"

definition heap_hole :: "('a \<Rightarrow> 'a \<Rightarrow> bool) \<Rightarrow> nat \<Rightarrow> nat \<Rightarrow> nat \<Rightarrow> (nat \<Rightarrow> 'a) \<Rightarrow> bool" where
  "heap_hole lt n r h f \<longleftrightarrow>
     (\<forall>k \<ge> r. k \<noteq> h \<longrightarrow> node_ok lt n f k) \<and> (\<forall>q \<ge> r. child q h \<longrightarrow> (\<forall>c. child h c \<and> c < n \<longrightarrow> \<not> lt (f q) (f c)))"

lemma child_less: "child k c \<Longrightarrow> k < c" by (auto simp: child_def)

lemma child_unique: "child k c \<Longrightarrow> child k' c \<Longrightarrow> k = k'" unfolding child_def by presburger

lemma child_parent: "0 < c \<Longrightarrow> child ((c - 1) div 2) c" unfolding child_def by presburger

lemma heap_fill: "heap_hole lt n r h f \<Longrightarrow> node_ok lt n f h \<Longrightarrow> heap_from lt n r f"
  unfolding heap_hole_def heap_from_def by blast

abbreviation heap_at :: "nat \<Rightarrow> 'a list \<Rightarrow> nat \<Rightarrow> 'a" where "heap_at l xs \<equiv> (\<lambda>k. xs ! (l + k))"

lemma heap_at_swap: "l + a < length xs \<Longrightarrow> l + b < length xs \<Longrightarrow> i = l + a \<Longrightarrow> j = l + b \<Longrightarrow>
    heap_at l (xs[i := xs ! j, j := xs ! i]) = (heap_at l xs)(a := xs ! (l + b), b := xs ! (l + a))"
  by (rule ext) (simp add: nth_list_update)

locale weak_order =
  fixes lt :: "'a \<Rightarrow> 'a \<Rightarrow> bool"
  assumes asym: "lt a b \<Longrightarrow> \<not> lt b a"
    and not_less_trans: "\<not> lt a b \<Longrightarrow> \<not> lt b c \<Longrightarrow> \<not> lt a c"
begin

lemma irrefl [simp]: "\<not> lt a a" using asym by blast

lemma sort_less_total [simp]: "i < length xs \<Longrightarrow> j < length xs \<Longrightarrow> sort_less (total_pred lt) (xs, w) i j = Inr (lt (xs ! i) (xs ! j), xs, w)"
  by (simp add: sort_less_def total_pred_def Let_def)

lemma scan_up_stops:
  "i < k \<Longrightarrow> k < u \<Longrightarrow> u < length xs \<Longrightarrow> p < length xs \<Longrightarrow> \<not> lt (xs ! k) (xs ! p) \<Longrightarrow>
    \<exists>i'. scan_up (total_pred lt) u p i (xs, w) = Inr (i', xs, w) \<and> i < i' \<and> i' \<le> k \<and> (\<forall>n. i < n \<and> n < i' \<longrightarrow> lt (xs ! n) (xs ! p)) \<and>
      \<not> lt (xs ! i') (xs ! p)"
proof (induction "k - i" arbitrary: i)
  case (Suc d)
  show ?case
  proof (cases "lt (xs ! (i + 1)) (xs ! p)")
    case True
    then have k: "i + 1 < k" using Suc.prems by (cases "i + 1 = k") auto
    then obtain i' where i': "scan_up (total_pred lt) u p (i + 1) (xs, w) = Inr (i', xs, w)" "i + 1 < i'" "i' \<le> k"
        "\<forall>n. i + 1 < n \<and> n < i' \<longrightarrow> lt (xs ! n) (xs ! p)" "\<not> lt (xs ! i') (xs ! p)"
    proof -
      have "d = k - (i + 1)" using Suc.hyps(2) by simp
      from Suc.hyps(1) [OF this k Suc.prems(2-5)] that show thesis by blast
    qed
    have "scan_up (total_pred lt) u p i (xs, w) = Inr (i', xs, w)"
      using True k i'(1) Suc.prems by (subst scan_up.simps) simp
    moreover have "lt (xs ! n) (xs ! p)" if "i < n" "n < i'" for n
      using that True i'(4) by (cases "n = i + 1") auto
    moreover have "i < i'" using i'(2) by simp
    ultimately show ?thesis using i'(3,5) by blast
  next
    case False
    then have "scan_up (total_pred lt) u p i (xs, w) = Inr (i + 1, xs, w)" using Suc.prems by (subst scan_up.simps) simp
    moreover have "\<not> (i < n \<and> n < i + 1)" for n by simp
    moreover have "i < i + 1" "i + 1 \<le> k" using Suc.prems(1) by simp_all
    ultimately show ?thesis using False by blast
  qed
qed simp

lemma scan_down_stops:
  "k < j \<Longrightarrow> l \<le> k \<Longrightarrow> j \<le> length xs \<Longrightarrow> p < length xs \<Longrightarrow> \<not> lt (xs ! p) (xs ! k) \<Longrightarrow>
    \<exists>j'. scan_down (total_pred lt) l p j (xs, w) = Inr (j', xs, w) \<and> k \<le> j' \<and> j' < j \<and> (\<forall>n. j' < n \<and> n < j \<longrightarrow> lt (xs ! p) (xs ! n)) \<and>
      \<not> lt (xs ! p) (xs ! j')"
proof (induction j)
  case (Suc j)
  show ?case
  proof (cases "lt (xs ! p) (xs ! j)")
    case True
    then have k: "k < j" using Suc.prems by (cases "k = j") auto
    then obtain j' where j': "scan_down (total_pred lt) l p j (xs, w) = Inr (j', xs, w)" "k \<le> j'" "j' < j"
        "\<forall>n. j' < n \<and> n < j \<longrightarrow> lt (xs ! p) (xs ! n)" "\<not> lt (xs ! p) (xs ! j')"
      using Suc.IH [OF k Suc.prems(2) _ Suc.prems(4,5)] Suc.prems(3) by (meson Suc_leD)
    moreover have "lt (xs ! p) (xs ! n)" if "j' < n" "n < Suc j" for n
      using that True j'(4) by (cases "n = j") auto
    moreover have "scan_down (total_pred lt) l p (Suc j) (xs, w) = scan_down (total_pred lt) l p j (xs, w)"
      using True k Suc.prems by simp
    moreover have "j' < Suc j" using j'(3) by simp
    ultimately show ?thesis using j'(1,2,5) by (intro exI [of _ j']) simp
  next
    case False
    then have "scan_down (total_pred lt) l p (Suc j) (xs, w) = Inr (j, xs, w)" using Suc.prems by simp
    moreover have "k \<le> j" "j < Suc j" using Suc.prems(1) by simp_all
    moreover have "\<not> (j < n \<and> n < Suc j)" for n by simp
    ultimately show ?thesis using False by blast
  qed
qed simp

text \<open>The partition: what is not above the pivot and what is not below it.\<close>

lemma partition_loop_splits:
  "l \<le> i \<Longrightarrow> i \<le> j \<Longrightarrow> l < j \<Longrightarrow> j \<le> u - 1 \<Longrightarrow> (i = j \<Longrightarrow> j < u - 1) \<Longrightarrow> u < length xs \<Longrightarrow>
    \<forall>n. l \<le> n \<and> n \<le> i \<longrightarrow> \<not> lt (xs ! (u - 1)) (xs ! n) \<Longrightarrow> \<forall>n. j \<le> n \<and> n \<le> u \<longrightarrow> \<not> lt (xs ! n) (xs ! (u - 1)) \<Longrightarrow>
    \<exists>i' ys. partition_loop (total_pred lt) l u (u - 1) i j (xs, w) = Inr (i', ys, w) \<and> l < i' \<and> i' \<le> u - 1 \<and> ys ! (u - 1) = xs ! (u - 1) \<and>
      (\<forall>n. l \<le> n \<and> n < i' \<longrightarrow> \<not> lt (xs ! (u - 1)) (ys ! n)) \<and> (\<forall>n. i' \<le> n \<and> n \<le> u \<longrightarrow> \<not> lt (ys ! n) (xs ! (u - 1)))"
proof (induction j arbitrary: i xs rule: less_induct)
  case (less j)
  let ?P = "xs ! (u - 1)"
  have up: "\<exists>k. max (i + 1) j = k \<and> i < k \<and> k < u \<and> \<not> lt (xs ! k) ?P" using less.prems by (auto simp: max_def)
  then obtain k where k: "scan_up (total_pred lt) u (u - 1) i (xs, w) = Inr (k, xs, w)" "i < k" "k \<le> max (i + 1) j"
      "\<forall>n. i < n \<and> n < k \<longrightarrow> lt (xs ! n) ?P" "\<not> lt (xs ! k) ?P"
  proof -
    have "i < max (i + 1) j" "max (i + 1) j < u" "u - 1 < length xs" "\<not> lt (xs ! max (i + 1) j) ?P"
      using up less.prems(6) by auto
    from scan_up_stops [OF this(1,2) less.prems(6) this(3,4), of w] that show thesis by blast
  qed
  have below: "\<not> lt ?P (xs ! n)" if "l \<le> n" "n < k" for n
    using that k(4) asym less.prems(7) by (cases "n \<le> i") auto
  have "min (k - 1) (j - 1) < j \<and> l \<le> min (k - 1) (j - 1) \<and> min (k - 1) (j - 1) < k" using less.prems k(2) by auto
  then obtain m where m: "scan_down (total_pred lt) l (u - 1) j (xs, w) = Inr (m, xs, w)" "min (k - 1) (j - 1) \<le> m" "m < j"
      "\<forall>n. m < n \<and> n < j \<longrightarrow> lt ?P (xs ! n)" "\<not> lt ?P (xs ! m)"
  proof -
    note b = \<open>min (k - 1) (j - 1) < j \<and> l \<le> min (k - 1) (j - 1) \<and> min (k - 1) (j - 1) < k\<close>
    then have b: "min (k - 1) (j - 1) < j" "l \<le> min (k - 1) (j - 1)" "min (k - 1) (j - 1) < k" by simp_all
    have "j \<le> length xs" "u - 1 < length xs" "\<not> lt ?P (xs ! min (k - 1) (j - 1))" using below [OF b(2,3)] less.prems by auto
    from scan_down_stops [OF b(1,2) this, of w] that show thesis by blast
  qed
  have above: "\<not> lt (xs ! n) ?P" if "m < n" "n \<le> u" for n
    using that m(4) asym less.prems(8) by (cases "n < j") auto
  have ku: "k \<le> u - 1" using k(3) less.prems by (auto simp: max_def split: if_splits)
  show ?case
  proof (cases "m < k")
    case True
    then have "partition_loop (total_pred lt) l u (u - 1) i j (xs, w) = Inr (k, xs, w)" using k(1) m(1) by (subst partition_loop.simps) simp
    moreover have "\<not> lt (xs ! n) ?P" if "k \<le> n" "n \<le> u" for n using that True above by auto
    ultimately show ?thesis using below ku k(2) less.prems(1) by auto
  next
    case False
    let ?ys = "xs[k := xs ! m, m := xs ! k]"
    have "m < length xs" "k < length xs" using False m(3) less.prems(4,6) by linarith+
    then have w: "sort_swap (xs, w) k m = Inr ((), ?ys, w)" by (simp add: sort_swap_def Let_def)
    have e: "partition_loop (total_pred lt) l u (u - 1) i j (xs, w) = partition_loop (total_pred lt) l u (u - 1) k m (?ys, w)"
      using k(1) m(1) w False by (subst partition_loop.simps) simp
    have P: "?ys ! (u - 1) = ?P" using m(3) False less.prems by simp
    have b: "\<forall>n. l \<le> n \<and> n \<le> k \<longrightarrow> \<not> lt (?ys ! (u - 1)) (?ys ! n)"
      using P below m(3,5) k(5) False less.prems by (auto simp: nth_list_update)
    have a: "\<forall>n. m \<le> n \<and> n \<le> u \<longrightarrow> \<not> lt (?ys ! n) (?ys ! (u - 1))"
      using P above m(3) k(5) False less.prems by (auto simp: nth_list_update)
    have "\<exists>i' ys. partition_loop (total_pred lt) l u (u - 1) k m (?ys, w) = Inr (i', ys, w) \<and> l < i' \<and> i' \<le> u - 1 \<and> ys ! (u - 1) = ?ys ! (u - 1) \<and>
      (\<forall>n. l \<le> n \<and> n < i' \<longrightarrow> \<not> lt (?ys ! (u - 1)) (ys ! n)) \<and> (\<forall>n. i' \<le> n \<and> n \<le> u \<longrightarrow> \<not> lt (ys ! n) (?ys ! (u - 1)))"
      using False k(2) m(3) less.prems(1-6) by (intro less.IH [OF m(3) _ _ _ _ _ _ b a]) auto
    then show ?thesis unfolding e P .
  qed
qed

text \<open>The pivot in its place.\<close>

lemma partition_range_splits:
  assumes "l < m" "m < u" "l + 3 \<le> u" "u < length xs" "\<not> lt (xs ! m) (xs ! l)" "\<not> lt (xs ! u) (xs ! m)"
  shows "\<exists>i ys. partition_range (total_pred lt) l m u (xs, w) = Inr (i, ys, w) \<and> l < i \<and> i < u \<and>
    (\<forall>n. l \<le> n \<and> n < i \<longrightarrow> \<not> lt (ys ! i) (ys ! n)) \<and> (\<forall>n. i < n \<and> n \<le> u \<longrightarrow> \<not> lt (ys ! n) (ys ! i))"
proof -
  let ?xs = "xs[m := xs ! (u - 1), u - 1 := xs ! m]"
  have w: "sort_swap (xs, w) m (u - 1) = Inr ((), ?xs, w)" using assms by (simp add: sort_swap_def Let_def)
  have P: "?xs ! (u - 1) = xs ! m" "?xs ! l = xs ! l" "?xs ! u = xs ! u" "length ?xs = length xs" using assms by auto
  have low: "\<forall>n. l \<le> n \<and> n \<le> l \<longrightarrow> \<not> lt (?xs ! (u - 1)) (?xs ! n)"
  proof (intro allI impI)
    fix n assume "l \<le> n \<and> n \<le> l"
    then have "n = l" by simp
    then show "\<not> lt (?xs ! (u - 1)) (?xs ! n)" using P assms(5) by metis
  qed
  have high: "\<forall>n. u - 1 \<le> n \<and> n \<le> u \<longrightarrow> \<not> lt (?xs ! n) (?xs ! (u - 1))"
  proof (intro allI impI)
    fix n assume "u - 1 \<le> n \<and> n \<le> u"
    then have "n = u - 1 \<or> n = u" using assms(3) by linarith
    then show "\<not> lt (?xs ! n) (?xs ! (u - 1))" using P assms(6) irrefl by metis
  qed
  have "\<exists>i ys. partition_loop (total_pred lt) l u (u - 1) l (u - 1) (?xs, w) = Inr (i, ys, w) \<and> l < i \<and> i \<le> u - 1 \<and>
      ys ! (u - 1) = ?xs ! (u - 1) \<and> (\<forall>n. l \<le> n \<and> n < i \<longrightarrow> \<not> lt (?xs ! (u - 1)) (ys ! n)) \<and>
      (\<forall>n. i \<le> n \<and> n \<le> u \<longrightarrow> \<not> lt (ys ! n) (?xs ! (u - 1)))"
  proof (rule partition_loop_splits [OF _ _ _ _ _ _ low high])
    show "l \<le> l" "l \<le> u - 1" "l < u - 1" "u - 1 \<le> u - 1" "l = u - 1 \<Longrightarrow> u - 1 < u - 1" "u < length ?xs"
      using assms(3,4) P(4) by linarith+
  qed
  then obtain i ys where r: "partition_loop (total_pred lt) l u (u - 1) l (u - 1) (?xs, w) = Inr (i, ys, w)" and i: "l < i" "i \<le> u - 1"
    and p: "ys ! (u - 1) = xs ! m" and b: "\<forall>n. l \<le> n \<and> n < i \<longrightarrow> \<not> lt (xs ! m) (ys ! n)"
    and a: "\<forall>n. i \<le> n \<and> n \<le> u \<longrightarrow> \<not> lt (ys ! n) (xs ! m)" unfolding P(1) by blast
  have "within (total_pred lt) l u (?xs, w) (\<lambda>i'. l < i' \<and> i' \<le> u) (partition_loop (total_pred lt) l u (u - 1) l (u - 1) (?xs, w))"
    using assms by (intro partition_loop_within) auto
  from total_within [OF this r] have "swaps l u ?xs ys" by simp
  then have len: "length ys = length xs" using P(4) swaps_length by fastforce
  let ?ys = "ys[u - 1 := ys ! i, i := ys ! (u - 1)]"
  have w2: "sort_swap (ys, w) (u - 1) i = Inr ((), ?ys, w)" using i assms(4) len by (simp add: sort_swap_def Let_def)
  have at_i: "?ys ! i = xs ! m" using i p len assms(4) by simp
  have "partition_range (total_pred lt) l m u (xs, w) = Inr (i, ?ys, w)" using w r w2 by (simp add: partition_range_def)
  moreover have "\<not> lt (?ys ! i) (?ys ! n)" if "l \<le> n" "n < i" for n
  proof -
    have "?ys ! n = ys ! n" using that i by simp
    then show ?thesis unfolding at_i using b that by simp
  qed
  moreover have "\<not> lt (?ys ! n) (?ys ! i)" if "i < n" "n \<le> u" for n
  proof (cases "n = u - 1")
    case True
    then have "?ys ! n = ys ! i" using that(1) len assms(4) by simp
    then show ?thesis unfolding at_i using a i by simp
  next
    case False
    then have "?ys ! n = ys ! n" using that by simp
    then show ?thesis unfolding at_i using a that by simp
  qed
  moreover have "i < u" using i assms(3) by linarith
  ultimately show ?thesis using i(1) by blast
qed

lemma not_less_not_less: "\<not> lt b a \<Longrightarrow> \<not> lt c b \<Longrightarrow> \<not> lt c a"
  using not_less_trans by blast

lemma median_orders:
  assumes "l < m" "m < u" "u < length xs" "\<not> lt (xs ! u) (xs ! l)"
  shows "\<exists>ys. median (total_pred lt) l m u (xs, w) = Inr ((), ys, w) \<and> \<not> lt (ys ! m) (ys ! l) \<and> \<not> lt (ys ! u) (ys ! m)"
proof -
  consider "lt (xs ! m) (xs ! l)" | "\<not> lt (xs ! m) (xs ! l)" "lt (xs ! u) (xs ! m)" | "\<not> lt (xs ! m) (xs ! l)" "\<not> lt (xs ! u) (xs ! m)" by blast
  then show ?thesis
  proof cases
    case 1
    let ?ys = "xs[m := xs ! l, l := xs ! m]"
    have "?ys ! m = xs ! l" "?ys ! l = xs ! m" "?ys ! u = xs ! u" using assms by simp_all
    moreover have "median (total_pred lt) l m u (xs, w) = Inr ((), ?ys, w)" using 1 assms by (simp add: median_def sort_swap_def Let_def)
    ultimately show ?thesis using asym [OF 1] assms(4) by metis
  next
    case 2
    let ?ys = "xs[m := xs ! u, u := xs ! m]"
    have "?ys ! m = xs ! u" "?ys ! l = xs ! l" "?ys ! u = xs ! m" using assms by simp_all
    moreover have "median (total_pred lt) l m u (xs, w) = Inr ((), ?ys, w)" using 2 assms by (simp add: median_def sort_swap_def Let_def)
    ultimately show ?thesis using asym [OF 2(2)] assms(4) by metis
  next
    case 3
    then show ?thesis using assms by (simp add: median_def)
  qed
qed

lemma sort_turn_splits:
  assumes "l < u" "u < length xs"
  shows "\<exists>k ys. sort_turn (total_pred lt) l u (xs, w) = Inr (k, ys, w) \<and>
    (case k of None \<Rightarrow> sorted_range lt l u ys
     | Some i \<Rightarrow> (\<forall>n. l \<le> n \<and> n < i \<longrightarrow> \<not> lt (ys ! i) (ys ! n)) \<and> (\<forall>n. i < n \<and> n \<le> u \<longrightarrow> \<not> lt (ys ! n) (ys ! i)))"
proof -
  define b where "b = lt (xs ! u) (xs ! l)"
  define ys where "ys = (if b then xs[u := xs ! l, l := xs ! u] else xs)"
  have s: "sort_less (total_pred lt) (xs, w) u l = Inr (b, xs, w)" using assms by (simp add: b_def)
  have w: "(if b then sort_swap (xs, w) u l else Inr ((), xs, w)) = Inr ((), ys, w)" using assms by (simp add: ys_def sort_swap_def Let_def)
  have len: "length ys = length xs" by (simp add: ys_def)
  have lu: "\<not> lt (ys ! u) (ys ! l)"
    using assms asym [of "xs ! u" "xs ! l"] by (auto simp: ys_def b_def nth_list_update)
  have turn: "sort_turn (total_pred lt) l u (xs, w) = (if u - l = 1 then Inr (None, ys, w)
      else and_then (median (total_pred lt) l (l + (u - l) div 2) u (ys, w)) (\<lambda>(_, s).
             if u - l = 2 then Inr (None, s)
             else and_then (partition_range (total_pred lt) l (l + (u - l) div 2) u s) (\<lambda>(i, s). Inr (Some i, s))))"
    unfolding sort_turn_def s and_then_simps prod.case w Let_def by simp
  let ?m = "l + (u - l) div 2"
  show ?thesis
  proof (cases "u - l = 1")
    case True
    then have "i = l \<and> j = u" if "l \<le> i" "i < j" "j \<le> u" for i j using that by linarith
    then have "sorted_range lt l u ys" unfolding sorted_range_def using lu by blast
    then show ?thesis using True turn by simp
  next
    case False
    then have m: "l < ?m" "?m < u" using midpoint [of l u] assms(1) by linarith+
    obtain zs where z: "median (total_pred lt) l ?m u (ys, w) = Inr ((), zs, w)" "\<not> lt (zs ! ?m) (zs ! l)" "\<not> lt (zs ! u) (zs ! ?m)"
      using median_orders [OF m _ lu, of w] assms(2) len by auto
    have "within (total_pred lt) l u (ys, w) (\<lambda>_. True) (median (total_pred lt) l ?m u (ys, w))"
      using m assms(2) len by (intro median_within) simp_all
    then have "length zs = length xs" using len by (auto dest!: total_within [OF _ z(1)])
    show ?thesis
    proof (cases "u - l = 2")
      case True
      then have "i = l \<and> j = ?m \<or> i = l \<and> j = u \<or> i = ?m \<and> j = u" if "l \<le> i" "i < j" "j \<le> u" for i j using that by auto
      moreover have "\<not> lt (zs ! u) (zs ! l)" using not_less_not_less [OF z(2,3)] .
      ultimately have "sorted_range lt l u zs" unfolding sorted_range_def using z by blast
      then show ?thesis using True turn z(1) by simp
    next
      case False': False
      obtain i ws where p: "partition_range (total_pred lt) l ?m u (zs, w) = Inr (i, ws, w)"
          "\<forall>n. l \<le> n \<and> n < i \<longrightarrow> \<not> lt (ws ! i) (ws ! n)" "\<forall>n. i < n \<and> n \<le> u \<longrightarrow> \<not> lt (ws ! n) (ws ! i)"
      proof -
        have "l + 3 \<le> u" "u < length zs" using \<open>length zs = length xs\<close> assms False False' by linarith+
        from partition_range_splits [OF m this z(2,3), of w] that show thesis by blast
      qed
      have "sort_turn (total_pred lt) l u (xs, w) = Inr (Some i, ws, w)" using turn z(1) p(1) False False' by simp
      then show ?thesis using p(2,3) by simp
    qed
  qed
qed

text \<open>Two sorted parts around a pivot.\<close>

lemma sorted_range_join:
  assumes "sorted_range lt l (i - 1) zs" "sorted_range lt (i + 1) u zs" "l < i"
    and b: "\<forall>n. l \<le> n \<and> n < i \<longrightarrow> \<not> lt (zs ! i) (zs ! n)" and a: "\<forall>n. i < n \<and> n \<le> u \<longrightarrow> \<not> lt (zs ! n) (zs ! i)"
  shows "sorted_range lt l u zs"
  unfolding sorted_range_def
proof (intro allI impI)
  fix x y assume xy: "l \<le> x \<and> x < y \<and> y \<le> u"
  consider "y < i" | "i < x" | "x = i" | "y = i" | "x < i" "i < y" by linarith
  then show "\<not> lt (zs ! y) (zs ! x)"
  proof cases
    case 1
    then have "y \<le> i - 1" by linarith
    then show ?thesis using assms(1) xy unfolding sorted_range_def by blast
  next
    case 2
    then have "i + 1 \<le> x" by linarith
    then show ?thesis using assms(2) xy unfolding sorted_range_def by blast
  next
    case 5
    then show ?thesis using a b xy not_less_trans by blast
  qed (use a b xy in auto)
qed

text \<open>Heaps: moving the hole to the larger child, the root, and the last leaves.\<close>

lemma heap_hole_down:
  assumes hole: "heap_hole lt n r h f" and "r \<le> h" "child h c" "c < n" "lt (f h) (f c)"
    and other: "\<And>d. child h d \<Longrightarrow> d < n \<Longrightarrow> \<not> lt (f c) (f d)"
  shows "heap_hole lt n r c (f(h := f c, c := f h))"
  unfolding heap_hole_def
proof (intro conjI allI impI)
  have hc: "h < c" using child_less [OF assms(3)] .
  let ?g = "f(h := f c, c := f h)"
  fix k assume k: "r \<le> k" "k \<noteq> c"
  show "node_ok lt n ?g k"
    unfolding node_ok_def
  proof (intro allI impI)
    fix d assume d: "child k d \<and> d < n"
    show "\<not> lt (?g k) (?g d)"
    proof (cases "k = h")
      case True
      then have gk: "?g k = f c" using hc by simp
      show ?thesis
      proof (cases "d = c")
        case True
        then show ?thesis using gk asym [OF assms(5)] by simp
      next
        case False
        then have "?g d = f d" using child_less [of k d] d True by auto
        then show ?thesis using gk other [of d] d True by simp
      qed
    next
      case False
      then have gk: "?g k = f k" using k by simp
      have dc: "d \<noteq> c" using False d child_unique [OF assms(3), of k] by blast
      show ?thesis
      proof (cases "d = h")
        case True
        then have "\<not> lt (f k) (f c)" using hole k d assms(3,4) unfolding heap_hole_def by blast
        then show ?thesis using True gk hc by simp
      next
        case False': False
        then show ?thesis using hole k(1) False d gk dc unfolding heap_hole_def node_ok_def by simp
      qed
    qed
  qed
next
  have hc: "h < c" using child_less [OF assms(3)] .
  fix q d assume q: "r \<le> q" "child q c" and d: "child c d \<and> d < n"
  have "q = h" using child_unique [OF q(2) assms(3)] .
  moreover have "c < d" using child_less d by blast
  moreover have "\<not> lt (f c) (f d)" using hole d assms(2) hc unfolding heap_hole_def node_ok_def by auto
  ultimately show "\<not> lt ((f(h := f c, c := f h)) q) ((f(h := f c, c := f h)) d)" using hc by simp
qed

lemma heap_root: "heap_from lt n 0 f \<Longrightarrow> k < n \<Longrightarrow> \<not> lt (f 0) (f k)"
proof (induction k rule: less_induct)
  case (less k)
  show ?case
  proof (cases "k = 0")
    case False
    let ?q = "(k - 1) div 2"
    have c: "child ?q k" using False child_parent by simp
    then have "\<not> lt (f 0) (f ?q)" using less child_less [OF c] by simp
    moreover have "\<not> lt (f ?q) (f k)" using less(2,3) c unfolding heap_from_def node_ok_def by blast
    ultimately show ?thesis using not_less_trans by blast
  qed simp
qed

lemma heap_leaves: "n div 2 \<le> r \<Longrightarrow> heap_from lt n r f"
  unfolding heap_from_def node_ok_def child_def by presburger

lemma larger_total: "l + a < length xs \<Longrightarrow> l + b < length xs \<Longrightarrow>
    larger (total_pred lt) (xs, w) l a b = Inr (if lt (xs ! (l + a)) (xs ! (l + b)) then b else a, xs, w)"
  by (simp add: larger_def)

lemma sift_loop_hole:
  "heap_hole lt n r root (heap_at l xs) \<Longrightarrow> r \<le> root \<Longrightarrow> root < n \<Longrightarrow> l + n \<le> length xs \<Longrightarrow>
    \<exists>h ys. sift_loop (total_pred lt) l n root (xs, w) = Inr (h, ys, w) \<and> h < n \<and> r \<le> h \<and> heap_hole lt n r h (heap_at l ys) \<and>
      (2 * h + 2 < n \<longrightarrow> node_ok lt n (heap_at l ys) h)"
proof (induction "n - root" arbitrary: root xs rule: less_induct)
  case less
  show ?case
  proof (cases "root * 2 + 2 < n")
    case False
    then have "sift_loop (total_pred lt) l n root (xs, w) = Inr (root, xs, w)" by (subst sift_loop.simps) simp
    then show ?thesis using less.prems False by simp
  next
    case True
    let ?f = "heap_at l xs"
    define a where "a = (if lt (?f root) (?f (2 * root + 1)) then 2 * root + 1 else root)"
    define b where "b = (if lt (?f a) (?f (2 * root + 2)) then 2 * root + 2 else a)"
    have bound: "l + root < length xs" "l + (2 * root + 1) < length xs" "l + (2 * root + 2) < length xs" "l + a < length xs" "l + b < length xs"
      using True less.prems(4) by (simp_all add: a_def b_def)
    have lg: "larger (total_pred lt) (xs, w) l root (root * 2 + 1) = Inr (a, xs, w)"
        "larger (total_pred lt) (xs, w) l a (root * 2 + 2) = Inr (b, xs, w)"
      using bound larger_total [of l root xs "2 * root + 1" w] larger_total [of l a xs "2 * root + 2" w]
      by (simp_all add: a_def b_def mult.commute)
    have amax: "\<not> lt (?f a) (?f root)" "\<not> lt (?f a) (?f (2 * root + 1))"
      using asym [of "?f root" "?f (2 * root + 1)"] by (auto simp: a_def)
    have bmax: "\<not> lt (?f b) (?f (2 * root + 2))" "\<not> lt (?f b) (?f a)"
      using asym [of "?f a" "?f (2 * root + 2)"] by (auto simp: b_def)
    have bl: "\<not> lt (?f b) (?f (2 * root + 1))" using not_less_trans [OF bmax(2) amax(2)] .
    show ?thesis
    proof (cases "b = root")
      case same: True
      then have "sift_loop (total_pred lt) l n root (xs, w) = Inr (root, xs, w)"
        using True lg by (subst sift_loop.simps) (simp add: Let_def)
      moreover have "node_ok lt n ?f root" using bl bmax(1) same unfolding node_ok_def child_def by auto
      ultimately show ?thesis using less.prems by simp
    next
      case False
      let ?ys = "xs[l + root := xs ! (l + b), l + b := xs ! (l + root)]"
      have w: "sort_swap (xs, w) (l + root) (l + b) = Inr ((), ?ys, w)" using bound by (simp add: sort_swap_def Let_def)
      have e: "sift_loop (total_pred lt) l n root (xs, w) = sift_loop (total_pred lt) l n b (?ys, w)"
        using True lg w False by (subst sift_loop.simps) (simp add: Let_def)
      have c: "child root b" "b < n" "root < b" "r \<le> b" "l + n \<le> length ?ys"
        using False True less.prems by (auto simp: a_def b_def child_def split: if_splits)
      have up: "lt (?f root) (?f b)"
      proof (cases "a = root")
        case True
        then show ?thesis using False by (auto simp: b_def split: if_splits)
      next
        case a: False
        then have "lt (?f root) (?f a)" by (auto simp: a_def split: if_splits)
        then show ?thesis using not_less_trans [OF _ bmax(2)] by blast
      qed
      have "heap_hole lt n r b (heap_at l ?ys)"
        unfolding heap_at_swap [OF bound(1,5) refl refl]
        using c bl bmax(1) by (intro heap_hole_down [OF less.prems(1,2) c(1,2) up]) (auto simp: child_def)
      moreover have "n - b < n - root" using c(2,3) by simp
      ultimately show ?thesis unfolding e using less.hyps [OF _ _ c(4,2,5)] by blast
    qed
  qed
qed

lemma siftheap_heap:
  assumes "heap_hole lt (u - l + 1) r r (heap_at l xs)" "r \<le> u - l" "l \<le> u" "u < length xs"
  shows "\<exists>ys. sort_siftheap (total_pred lt) l u r (xs, w) = Inr ((), ys, w) \<and> heap_from lt (u - l + 1) r (heap_at l ys) \<and> swaps l u xs ys"
proof -
  let ?n = "u - l + 1"
  have n: "l + ?n \<le> length xs" "r < ?n" "r \<le> r" using assms(2-4) by simp_all
  obtain h ys where h: "sift_loop (total_pred lt) l ?n r (xs, w) = Inr (h, ys, w)" "h < ?n" "r \<le> h"
      "heap_hole lt ?n r h (heap_at l ys)" "2 * h + 2 < ?n \<longrightarrow> node_ok lt ?n (heap_at l ys) h"
    using sift_loop_hole [OF assms(1) n(3,2,1), of w] by blast
  have "within (total_pred lt) l (l + ?n - 1) (xs, w) (\<lambda>h. h < ?n) (sift_loop (total_pred lt) l ?n r (xs, w))"
    using n by (intro sift_loop_within) simp_all
  from total_within [OF this h(1)] have len: "length ys = length xs" by (auto dest: swaps_length)
  have within: "within (total_pred lt) l u (xs, w) (\<lambda>_. True) (sort_siftheap (total_pred lt) l u r (xs, w))"
    using assms by (intro siftheap_within) simp_all
  have "\<exists>ys. sort_siftheap (total_pred lt) l u r (xs, w) = Inr ((), ys, w) \<and> heap_from lt ?n r (heap_at l ys)"
  proof (cases "2 * h + 1 = u - l")
    case False
    then have "sort_siftheap (total_pred lt) l u r (xs, w) = Inr ((), ys, w)"
      using h(1) assms(3) by (simp add: sort_siftheap_def Let_def)
    moreover have "node_ok lt ?n (heap_at l ys) h" using False h(2,5) unfolding node_ok_def child_def by auto
    ultimately show ?thesis using heap_fill [OF h(4)] by blast
  next
    case True
    let ?c = "2 * h + 1"
    have b: "l + h < length ys" "l + ?c < length ys" using True assms(3,4) len by linarith+
    have cu: "l + ?c = u" using True assms(3) by simp
    have only: "d = ?c" if "child h d" "d < ?n" for d using that True unfolding child_def by auto
    show ?thesis
    proof (cases "lt (heap_at l ys h) (heap_at l ys ?c)")
      case False
      then have "\<not> lt (ys ! (l + h)) (ys ! u)" using cu by simp
      then have "sort_siftheap (total_pred lt) l u r (xs, w) = Inr ((), ys, w)"
        using h(1) True b assms(3) cu by (simp add: sort_siftheap_def Let_def mult.commute)
      moreover have "node_ok lt ?n (heap_at l ys) h" using False only unfolding node_ok_def by blast
      ultimately show ?thesis using heap_fill [OF h(4)] by blast
    next
      case less: True
      let ?zs = "ys[l + h := ys ! u, u := ys ! (l + h)]"
      have "sort_swap (ys, w) (l + h) u = Inr ((), ?zs, w)" using b cu by (simp add: sort_swap_def Let_def)
      moreover have "lt (ys ! (l + h)) (ys ! u)" using less by (simp only: cu)
      ultimately have "sort_siftheap (total_pred lt) l u r (xs, w) = Inr ((), ?zs, w)"
        using h(1) True b assms(3) cu by (simp add: sort_siftheap_def Let_def mult.commute)
      moreover have "heap_hole lt ?n r ?c (heap_at l ?zs)"
      proof -
        have "child h ?c" "?c < ?n" using True by (simp_all add: child_def)
        moreover have "\<not> lt (heap_at l ys ?c) (heap_at l ys d)" if "child h d" "d < ?n" for d
          using only [OF that] by simp
        ultimately have "heap_hole lt ?n r ?c ((heap_at l ys)(h := heap_at l ys ?c, ?c := heap_at l ys h))"
          by (rule heap_hole_down [OF h(4,3) _ _ less])
        moreover have "heap_at l ?zs = (heap_at l ys)(h := heap_at l ys ?c, ?c := heap_at l ys h)"
          by (rule heap_at_swap [OF b refl cu [symmetric]])
        ultimately show ?thesis by (rule subst [OF sym, rotated])
      qed
      moreover have "\<not> (child ?c d \<and> d < ?n)" for d using True unfolding child_def by presburger
      then have "node_ok lt ?n (heap_at l ?zs) ?c" unfolding node_ok_def by blast
      ultimately show ?thesis using heap_fill by blast
    qed
  qed
  then show ?thesis using total_within [OF within] by fastforce
qed

lemma build_loop_heap:
  "heap_from lt (u - l + 1) k (heap_at l xs) \<Longrightarrow> k \<le> u - l + 1 \<Longrightarrow> l \<le> u \<Longrightarrow> u < length xs \<Longrightarrow>
    \<exists>ys. build_loop (total_pred lt) l u k (xs, w) = Inr ((), ys, w) \<and> heap_from lt (u - l + 1) 0 (heap_at l ys)"
proof (induction k arbitrary: xs)
  case (Suc k)
  have "heap_hole lt (u - l + 1) k k (heap_at l xs)"
    using Suc.prems(1) unfolding heap_hole_def heap_from_def by (auto dest: child_less)
  moreover have "k \<le> u - l" using Suc.prems(2) by simp
  ultimately obtain ys where ys: "sort_siftheap (total_pred lt) l u k (xs, w) = Inr ((), ys, w)" "heap_from lt (u - l + 1) k (heap_at l ys)"
      "swaps l u xs ys" using siftheap_heap [where w = w] Suc.prems(3,4) by blast
  have "k \<le> u - l + 1" "u < length ys" using Suc.prems(2,4) ys(3) by simp_all
  from Suc.IH [OF ys(2) this(1) Suc.prems(3) this(2)] show ?case using ys(1) by simp
qed simp

text \<open>Extraction: the heap at the front, above it the largest elements in order.\<close>

lemma extract_loop_sorts:
  "heap_from lt (k + 1) 0 (heap_at l xs) \<Longrightarrow> l + k \<le> u \<Longrightarrow> u < length xs \<Longrightarrow>
    \<forall>i j. l \<le> i \<and> i < j \<and> l + k < j \<and> j \<le> u \<longrightarrow> \<not> lt (xs ! j) (xs ! i) \<Longrightarrow>
    \<exists>ys. extract_loop (total_pred lt) l k (xs, w) = Inr ((), ys, w) \<and> sorted_range lt l u ys"
proof (induction k arbitrary: xs)
  case 0
  then show ?case unfolding sorted_range_def by simp
next
  case (Suc k)
  note tail = Suc.prems(4)
  let ?ys = "xs[l := xs ! (l + Suc k), l + Suc k := xs ! l]"
  have w: "sort_swap (xs, w) l (l + Suc k) = Inr ((), ?ys, w)" using Suc.prems(2,3) by (simp add: sort_swap_def Let_def)
  have b: "l + 0 < length xs" "l + Suc k < length xs" using Suc.prems(2,3) by simp_all
  have at: "heap_at l ?ys = (heap_at l xs)(0 := xs ! (l + Suc k), Suc k := xs ! l)"
    using heap_at_swap [OF b, of l "l + Suc k"] by simp
  have "heap_hole lt (k + 1) 0 0 (heap_at l ?ys)"
    unfolding heap_hole_def
  proof (intro conjI allI impI)
    fix q assume q: "0 \<le> q" "q \<noteq> (0 :: nat)"
    have "\<not> lt (heap_at l xs q) (heap_at l xs c)" if "child q c" "c < k + 1" for c
      using Suc.prems(1) that unfolding heap_from_def node_ok_def by simp
    then show "node_ok lt (k + 1) (heap_at l ?ys) q"
      unfolding at node_ok_def using q child_less [of q] by fastforce
  qed (use child_less in blast)
  moreover have "l + k < length ?ys" "l \<le> l + k" using b by simp_all
  ultimately obtain zs where zs: "sort_siftheap (total_pred lt) l (l + k) 0 (?ys, w) = Inr ((), zs, w)" "heap_from lt (k + 1) 0 (heap_at l zs)"
      "swaps l (l + k) ?ys zs" using siftheap_heap [of "l + k" l 0 ?ys w] by auto
  have low: "\<forall>i. l \<le> i \<and> i \<le> l + k \<longrightarrow> \<not> lt (?ys ! j) (?ys ! i)" if j: "l + k < j" "j \<le> u" for j
  proof (intro allI impI)
    fix i assume i: "l \<le> i \<and> i \<le> l + k"
    then have yi: "?ys ! i = (if i = l then xs ! (l + Suc k) else xs ! i)" using b by (simp add: nth_list_update)
    show "\<not> lt (?ys ! j) (?ys ! i)"
    proof (cases "j = l + Suc k")
      case True
      then have "?ys ! j = heap_at l xs 0" using b by simp
      moreover have "?ys ! i = heap_at l xs (if i = l then Suc k else i - l)" using yi i by simp
      moreover have "(if i = l then Suc k else i - l) < Suc k + 1" using i by auto
      ultimately show ?thesis using heap_root [OF Suc.prems(1)] by simp
    next
      case False
      then have "?ys ! j = xs ! j" using j by simp
      then show ?thesis using tail yi i j False by simp
    qed
  qed
  have len: "l + k < length ?ys" using b by simp
  have "\<not> lt (zs ! j) (zs ! i)" if "l \<le> i" "i < j" "l + k < j" "j \<le> u" for i j
  proof -
    have zj: "zs ! j = ?ys ! j" using swaps_outside [OF zs(3)] that by simp
    show ?thesis
    proof (cases "i \<le> l + k")
      case True
      then show ?thesis using swaps_all [OF zs(3) low [OF that(3,4)] len] that(1) unfolding zj by blast
    next
      case False
      then have zi: "zs ! i = ?ys ! i" using swaps_outside [OF zs(3)] by simp
      have "?ys ! j = xs ! j" using False that by simp
      moreover have "?ys ! i = (if i = l + Suc k then xs ! l else xs ! i)" using False b by (simp add: nth_list_update)
      ultimately show ?thesis unfolding zj zi using tail that False by simp
    qed
  qed
  moreover have "l + k \<le> u" "u < length zs" using Suc.prems(2,3) zs(3) by simp_all
  ultimately obtain ws where "extract_loop (total_pred lt) l k (zs, w) = Inr ((), ws, w)" "sorted_range lt l u ws"
    using Suc.IH [OF zs(2)] by blast
  then show ?case using w zs(1) by simp
qed

lemma sort_heap_sorts:
  assumes "l \<le> u" "u < length xs"
  shows "\<exists>ys. sort_heap (total_pred lt) l u (xs, w) = Inr ((), ys, w) \<and> sorted_range lt l u ys"
proof -
  let ?n = "u - l + 1"
  have "heap_from lt ?n (?n div 2) (heap_at l xs)" by (rule heap_leaves) simp
  moreover have half: "?n div 2 \<le> ?n" by simp
  ultimately obtain ys where ys: "build_loop (total_pred lt) l u (?n div 2) (xs, w) = Inr ((), ys, w)" "heap_from lt ?n 0 (heap_at l ys)"
    using build_loop_heap [OF _ _ assms, where w = w] by blast
  have "within (total_pred lt) l u (xs, w) (\<lambda>_. True) (build_loop (total_pred lt) l u (?n div 2) (xs, w))"
    using assms half by (intro build_loop_within) simp_all
  from total_within [OF this ys(1)] have "length ys = length xs" by (auto dest: swaps_length)
  then have "\<exists>zs. extract_loop (total_pred lt) l (u - l) (ys, w) = Inr ((), zs, w) \<and> sorted_range lt l u zs"
  proof (intro extract_loop_sorts [OF ys(2)] allI impI)
    show "l + (u - l) \<le> u" "u < length ys" using assms \<open>length ys = length xs\<close> by simp_all
    fix i j assume "l \<le> i \<and> i < j \<and> l + (u - l) < j \<and> j \<le> u"
    then show "\<not> lt (ys ! j) (ys ! i)" using assms(1) by linarith
  qed
  moreover have "sort_heap (total_pred lt) l u (xs, w) = extract_loop (total_pred lt) l (u - l) (ys, w)"
    using ys(1) assms(1) unfolding sort_heap_def Let_def by simp
  ultimately show ?thesis by simp
qed

text \<open>The recursion: the halves are sorted one after the other, and stay on their sides of the pivot.\<close>

lemma swaps_side:
  assumes "swaps a b xs ys" "b < length xs" "\<forall>n. l \<le> n \<and> n \<le> u \<longrightarrow> P (xs ! n)" "l \<le> a" "b \<le> u"
  shows "\<forall>n. l \<le> n \<and> n \<le> u \<longrightarrow> P (ys ! n)"
proof (intro allI impI)
  fix n assume n: "l \<le> n \<and> n \<le> u"
  show "P (ys ! n)"
  proof (cases "a \<le> n \<and> n \<le> b")
    case True
    have "\<forall>k. a \<le> k \<and> k \<le> b \<longrightarrow> P (xs ! k)" using assms(3-5) by simp
    from swaps_all [OF assms(1) this assms(2)] show ?thesis using True by blast
  next
    case False
    then have "ys ! n = xs ! n" using swaps_outside [OF assms(1)] by auto
    then show ?thesis using assms(3) n by simp
  qed
qed

lemma sorted_range_outside:
  assumes "sorted_range lt l u xs" "swaps a b xs ys" "u < a \<or> b < l"
  shows "sorted_range lt l u ys"
  unfolding sorted_range_def
proof (intro allI impI)
  fix i j assume ij: "l \<le> i \<and> i < j \<and> j \<le> u"
  then have "ys ! i = xs ! i" "ys ! j = xs ! j" using assms(3) by (auto intro!: swaps_outside [OF assms(2)])
  then show "\<not> lt (ys ! j) (ys ! i)" using assms(1) ij unfolding sorted_range_def by simp
qed

lemma sort_rec_sorts:
  "u < length xs \<Longrightarrow> \<exists>zs. sort_rec (total_pred lt) l u limit (xs, w) = Inr ((), zs, w) \<and> sorted_range lt l u zs"
proof (induction "u - l" arbitrary: l u limit xs rule: less_induct)
  case less
  let ?p = "total_pred lt"
  consider "\<not> l < u" | "l < u" "limit = 0" | "l < u" "limit \<noteq> 0" by blast
  then show ?case
  proof cases
    case 1
    then show ?thesis by (subst sort_rec.simps) (auto simp: sorted_range_def)
  next
    case 2
    then show ?thesis using sort_heap_sorts [of l u xs w] less.prems by (subst sort_rec.simps) simp
  next
    case 3
    obtain k ys where t: "sort_turn ?p l u (xs, w) = Inr (k, ys, w)" and k: "case k of None \<Rightarrow> sorted_range lt l u ys
     | Some i \<Rightarrow> (\<forall>n. l \<le> n \<and> n < i \<longrightarrow> \<not> lt (ys ! i) (ys ! n)) \<and> (\<forall>n. i < n \<and> n \<le> u \<longrightarrow> \<not> lt (ys ! n) (ys ! i))"
      using sort_turn_splits [OF 3(1) less.prems, of w] by blast
    show ?thesis
    proof (cases k)
      case None
      then show ?thesis using t k 3 by (subst sort_rec.simps) simp
    next
      case (Some i)
      have within: "within ?p l u (xs, w) (pivot_in l u) (sort_turn ?p l u (xs, w))"
        using 3(1) less.prems by (intro sort_turn_within) simp_all
      have i: "l < i" "i \<le> u" and len: "u < length ys"
        using total_within [OF within t] Some less.prems by (auto dest: swaps_length)
      let ?lim = "limit div 2 + limit div 4"
      have left: "\<exists>vs. sort_rec ?p l (i - 1) ?lim (zs, w) = Inr ((), vs, w) \<and> sorted_range lt l (i - 1) vs \<and> swaps l (i - 1) zs vs"
        if "length zs = length ys" for zs
      proof -
        have b: "i - 1 - l < u - l" "i - 1 < length zs" using i that len by linarith+
        then obtain vs where "sort_rec ?p l (i - 1) ?lim (zs, w) = Inr ((), vs, w)" "sorted_range lt l (i - 1) vs" using less.hyps by blast
        then show ?thesis using total_within [OF sort_rec_within] b(2) by fastforce
      qed
      have right: "\<exists>vs. sort_rec ?p (i + 1) u ?lim (zs, w) = Inr ((), vs, w) \<and> sorted_range lt (i + 1) u vs \<and> swaps (i + 1) u zs vs"
        if "length zs = length ys" for zs
      proof -
        have b: "u - (i + 1) < u - l" "u < length zs" using i that len by linarith+
        then obtain vs where "sort_rec ?p (i + 1) u ?lim (zs, w) = Inr ((), vs, w)" "sorted_range lt (i + 1) u vs" using less.hyps by blast
        then show ?thesis using total_within [OF sort_rec_within] b(2) by fastforce
      qed
      define ps where "ps zs \<longleftrightarrow> zs ! i = ys ! i \<and> (\<forall>n. l \<le> n \<and> n \<le> i - 1 \<longrightarrow> \<not> lt (ys ! i) (zs ! n)) \<and>
          (\<forall>n. i + 1 \<le> n \<and> n \<le> u \<longrightarrow> \<not> lt (zs ! n) (ys ! i))" for zs
      have ps0: "ps ys" using k Some i unfolding ps_def by auto
      have psl: "ps vs" if "ps zs" "swaps l (i - 1) zs vs" "length zs = length ys" for zs vs
      proof -
        have "vs ! i = zs ! i" using i by (intro swaps_outside [OF that(2)]) simp
        moreover have "\<forall>n. l \<le> n \<and> n \<le> i - 1 \<longrightarrow> \<not> lt (ys ! i) (vs ! n)"
          using that i len unfolding ps_def by (intro swaps_all [OF that(2)]) simp_all
        moreover have "vs ! n = zs ! n" if "i + 1 \<le> n" for n using that by (intro swaps_outside [OF \<open>swaps l (i - 1) zs vs\<close>]) linarith
        ultimately show ?thesis using that(1) unfolding ps_def by simp
      qed
      have psr: "ps vs" if "ps zs" "swaps (i + 1) u zs vs" "length zs = length ys" for zs vs
      proof -
        have "vs ! i = zs ! i" by (intro swaps_outside [OF that(2)]) simp
        moreover have "\<forall>n. i + 1 \<le> n \<and> n \<le> u \<longrightarrow> \<not> lt (vs ! n) (ys ! i)"
          using that len unfolding ps_def by (intro swaps_all [OF that(2)]) simp_all
        moreover have "vs ! n = zs ! n" if "n \<le> i - 1" for n
          using that i by (intro swaps_outside [OF \<open>swaps (i + 1) u zs vs\<close>]) linarith
        ultimately show ?thesis using that(1) unfolding ps_def by simp
      qed
      have join: "sorted_range lt l u zs" if "ps zs" "sorted_range lt l (i - 1) zs" "sorted_range lt (i + 1) u zs" for zs
      proof -
        have "\<forall>n. l \<le> n \<and> n < i \<longrightarrow> \<not> lt (zs ! i) (zs ! n)" "\<forall>n. i < n \<and> n \<le> u \<longrightarrow> \<not> lt (zs ! n) (zs ! i)"
          using that(1) i(1) unfolding ps_def by auto
        from sorted_range_join [OF that(2,3) i(1) this] show ?thesis .
      qed
      have rec: "sort_rec ?p l u limit (xs, w) = (if i - l < u - i
            then and_then (sort_rec ?p l (i - 1) ?lim (ys, w)) (\<lambda>(_, s). sort_rec ?p (i + 1) u ?lim s)
            else and_then (sort_rec ?p (i + 1) u ?lim (ys, w)) (\<lambda>(_, s). sort_rec ?p l (i - 1) ?lim s))"
        using 3 t Some by (subst sort_rec.simps) (simp add: Let_def)
      show ?thesis
      proof (cases "i - l < u - i")
        case True
        obtain vs where vs: "sort_rec ?p l (i - 1) ?lim (ys, w) = Inr ((), vs, w)" "sorted_range lt l (i - 1) vs" "swaps l (i - 1) ys vs"
          using left by blast
        then have lv: "length vs = length ys" by simp
        obtain ws where ws: "sort_rec ?p (i + 1) u ?lim (vs, w) = Inr ((), ws, w)" "sorted_range lt (i + 1) u ws" "swaps (i + 1) u vs ws"
          using right [OF lv] by blast
        have "ps ws" using psr [OF psl [OF ps0 vs(3) refl] ws(3) lv] .
        moreover have "sorted_range lt l (i - 1) ws" using i by (intro sorted_range_outside [OF vs(2) ws(3)]) linarith
        ultimately show ?thesis using rec True vs(1) ws(1) join [OF _ _ ws(2)] by simp
      next
        case False
        obtain vs where vs: "sort_rec ?p (i + 1) u ?lim (ys, w) = Inr ((), vs, w)" "sorted_range lt (i + 1) u vs" "swaps (i + 1) u ys vs"
          using right by blast
        then have lv: "length vs = length ys" by simp
        obtain ws where ws: "sort_rec ?p l (i - 1) ?lim (vs, w) = Inr ((), ws, w)" "sorted_range lt l (i - 1) ws" "swaps l (i - 1) vs ws"
          using left [OF lv] by blast
        have "ps ws" using psl [OF psr [OF ps0 vs(3) refl] ws(3) lv] .
        moreover have "sorted_range lt (i + 1) u ws" using i by (intro sorted_range_outside [OF vs(2) ws(3)]) linarith
        ultimately show ?thesis using rec False vs(1) ws(1) join [OF _ ws(2)] by simp
      qed
    qed
  qed
qed

lemma tsort_sorts:
  "n \<le> length xs \<Longrightarrow> \<exists>ys. tsort (total_pred lt) n (xs, w) = Inr ((), ys, w) \<and> (\<forall>i j. i < j \<and> j < n \<longrightarrow> \<not> lt (ys ! j) (ys ! i))"
proof (cases n)
  case (Suc k)
  assume "n \<le> length xs"
  then have "k < length xs" using Suc by simp
  then obtain ys where "sort_rec (total_pred lt) 0 k n (xs, w) = Inr ((), ys, w)" "sorted_range lt 0 k ys"
    using sort_rec_sorts [where w = w] by blast
  then show ?thesis using Suc unfolding sorted_range_def tsort_def by auto
qed (simp add: tsort_def)

end

section \<open>The default order of strings\<close>

text \<open>\<open>lua_v_strcmp\<close>: a comparison of the first characters, which are the terminator for an empty string, then of
  the common length, then of the lengths. \<open>memcmp\<close> is the one of the C library on two blocks of the same length.\<close>

type_synonym lua_string = "8 word list"

fun memcmp :: "lua_string \<Rightarrow> lua_string \<Rightarrow> int" where
  "memcmp [] ys = 0"
| "memcmp (x # xs) [] = 0"
| "memcmp (x # xs) (y # ys) = (if x = y then memcmp xs ys else int (unat x) - int (unat y))"

definition first_char :: "lua_string \<Rightarrow> 8 word" where "first_char s = (case s of [] \<Rightarrow> 0 | c # _ \<Rightarrow> c)"

definition lua_v_strcmp :: "lua_string \<Rightarrow> lua_string \<Rightarrow> int" where
  "lua_v_strcmp ls rs =
     (if ls = rs then 0
      else let bl = first_char ls; br = first_char rs in
        if bl \<noteq> br then int (unat bl) - int (unat br)
        else let lmin = min (length ls) (length rs); res = memcmp (take lmin ls) (take lmin rs) in
          if res \<noteq> 0 then res
          else if length ls = length rs then 0 else if length ls < length rs then -1 else 1)"

definition lua_v_lessthan :: "lua_string \<Rightarrow> lua_string \<Rightarrow> bool" where "lua_v_lessthan l r \<longleftrightarrow> lua_v_strcmp l r < 0"

text \<open>It is the lexicographic order.\<close>

definition lex_sign :: "lua_string \<Rightarrow> lua_string \<Rightarrow> int" where
  "lex_sign ls rs = (let lmin = min (length ls) (length rs); res = memcmp (take lmin ls) (take lmin rs) in
     if res \<noteq> 0 then res else if length ls = length rs then 0 else if length ls < length rs then -1 else 1)"

lemma memcmp_same [simp]: "memcmp xs xs = 0" by (induction xs) simp_all

lemma lex_sign_less: "lex_sign ls rs < 0 \<longleftrightarrow> ls < rs"
proof (induction ls rs rule: memcmp.induct)
  case (1 rs)
  then show ?case by (cases rs) (simp_all add: lex_sign_def)
next
  case (2 x xs)
  then show ?case by (simp add: lex_sign_def)
next
  case (3 x xs y ys)
  have "x \<noteq> y \<Longrightarrow> uint x \<noteq> uint y" using unsigned_word_eqI by blast
  moreover have "x < y \<longleftrightarrow> uint x < uint y" by (simp add: word_less_def)
  ultimately show ?case using 3 by (cases "x = y") (auto simp: lex_sign_def Let_def)
qed

lemma lua_v_lessthan_lex: "lua_v_lessthan l r \<longleftrightarrow> l < r"
proof -
  have f: "int (unat a) - int (unat b) < 0 \<longleftrightarrow> a < b" for a b :: "8 word" by (simp add: word_less_def)
  have "lua_v_strcmp l r < 0 \<longleftrightarrow> lex_sign l r < 0"
  proof (cases l)
    case Nil
    moreover have "a \<noteq> 0 \<Longrightarrow> 0 < uint a" for a :: "8 word" by (metis f unsigned_0 word_coorder.not_eq_extremum word_less_def)
    ultimately show ?thesis by (cases r) (auto simp: lua_v_strcmp_def lex_sign_def first_char_def Let_def)
  next
    case (Cons a as)
    then show ?thesis
      by (cases r) (auto simp: lua_v_strcmp_def lex_sign_def first_char_def Let_def dest: unsigned_word_eqI)
  qed
  then show ?thesis by (simp add: lua_v_lessthan_def lex_sign_less)
qed

interpretation string_order: weak_order lua_v_lessthan
  by unfold_locales (auto simp: lua_v_lessthan_lex)

section \<open>Properties\<close>

lemma tsort_moves:
  assumes "n \<le> length (fst s)"
  shows "within pred 0 (n - 1) s (\<lambda>_. True) (tsort pred n s)"
proof (cases n)
  case (Suc k)
  then show ?thesis using tsort_within [OF _ assms] by simp
qed (simp add: tsort_def)

lemma swaps_first:
  assumes "swaps 0 (n - 1) xs ys" "0 < n"
  shows "mset (take n ys) = mset (take n xs) \<and> drop n ys = drop n xs"
  using swaps_take_mset [OF assms(1)] swaps_drop [OF assms(1)] assms(2) by simp

lemma tsort_first:
  assumes "n \<le> length xs" and "tsort pred n (xs, w) = Inl (e, ys, w') \<or> tsort pred n (xs, w) = Inr ((), ys, w')" and "keeps_table pred"
  shows "mset (take n ys) = mset (take n xs) \<and> drop n ys = drop n xs"
proof (cases "n = 0")
  case True
  then show ?thesis using assms(2) by (simp add: tsort_def)
next
  case False
  have "swaps 0 (n - 1) xs ys"
    using tsort_moves [of n "(xs, w)" pred] assms moves_swaps [OF _ assms(3)] fails_swaps [OF _ assms(3)] by fastforce
  then show ?thesis using False by (intro swaps_first) simp_all
qed

lemma fails_size: "fails pred l u s e s' \<Longrightarrow> e = TableModified \<Longrightarrow> length (fst s') \<noteq> length (fst s)"
  by (induction rule: fails.induct) (auto dest: moves_length)

text \<open>C39: \<open>table.sort\<close> with any predicate on the first \<open>n\<close> elements of the array part: one that raises errors, keeps a
  state, assigns to the table, resizes it, or is no order. It terminates, and never reads or writes outside of the array (the
  assertions of \<open>sort_less\<close>, \<open>sort_swap\<close> and the heap hold). When it returns, the predicate has raised no error and
  resized the table in none of its calls, and besides what the predicate did there were only swaps of the first \<open>n\<close>
  elements (\<open>moves\<close>); otherwise an error was raised for its reason: the call before raised it, or left the
  table with another size, or the order is invalid (\<open>fails\<close>). If the predicate leaves the table alone, then in every
  case, errors included, the first \<open>n\<close> elements are permuted, the others stay as they are, and no error speaks of a
  modified table.\<close>

theorem tsort_permutes:
  assumes "n \<le> length xs"
  shows "case tsort pred n (xs, w) of
      Inl (e, ys, w') \<Rightarrow> e \<noteq> AssertionFailed \<and> fails pred 0 (n - 1) (xs, w) e (ys, w') \<and>
        (e = TableModified \<longrightarrow> length ys \<noteq> length xs) \<and> (e = InvalidOrder \<longrightarrow> length ys = length xs) \<and>
        (keeps_table pred \<longrightarrow> e \<noteq> TableModified \<and> mset (take n ys) = mset (take n xs) \<and> drop n ys = drop n xs)
    | Inr (_, ys, w') \<Rightarrow> moves pred 0 (n - 1) (xs, w) (ys, w') \<and> length ys = length xs \<and>
        (keeps_table pred \<longrightarrow> mset (take n ys) = mset (take n xs) \<and> drop n ys = drop n xs)"
proof -
  have within: "within pred 0 (n - 1) (xs, w) (\<lambda>_. True) (tsort pred n (xs, w))" using assms by (intro tsort_moves) simp
  show ?thesis
  proof (cases "tsort pred n (xs, w)")
    case (Inl r)
    obtain e ys w' where r: "r = (e, ys, w')" by (cases r)
    have f: "fails pred 0 (n - 1) (xs, w) e (ys, w')" using within Inl r by simp
    have k: "mset (take n ys) = mset (take n xs) \<and> drop n ys = drop n xs" if "keeps_table pred"
      using tsort_first [OF assms _ that] Inl r by blast
    have len: "length ys = length xs" if "keeps_table pred" using fails_swaps [OF f that] by (auto dest: swaps_length)
    have "e \<noteq> AssertionFailed" using f by auto
    moreover have "e = TableModified \<longrightarrow> length ys \<noteq> length xs" using fails_size [OF f] by simp
    moreover have "e = InvalidOrder \<longrightarrow> length ys = length xs" using f by (force dest: moves_length)
    ultimately show ?thesis using f k len unfolding Inl r by fastforce
  next
    case (Inr r)
    obtain ys w' where r: "r = ((), ys, w')" by (cases r) auto
    have "moves pred 0 (n - 1) (xs, w) (ys, w')" using within Inr r by simp
    moreover from this have "length ys = length xs" by (auto dest: moves_length)
    ultimately show ?thesis using tsort_first [OF assms disjI2 [OF Inr [unfolded r]]] unfolding Inr r by fastforce
  qed
qed

text \<open>A predicate with a counter as its state: its first call assigns to the table, which is allowed, its third call grows it.\<close>

definition growing_pred :: "(nat, nat) pred" where
  "growing_pred a b s = (case s of (xs, k) \<Rightarrow>
     (Some (a < b), if k = 0 then xs[0 := 7] else if k = 2 then xs @ [0] else xs, k + 1))"

theorem tsort_permutes_witness:
  "tsort growing_pred 4 ([5, 1, 4, 2, 9], 0) = Inl (TableModified, [1, 4, 2, 7, 9, 0], 3) \<and>
    fails growing_pred 0 3 ([5, 1, 4, 2, 9], 0) TableModified ([1, 4, 2, 7, 9, 0], 3)"
proof -
  have r: "tsort growing_pred 4 ([5, 1, 4, 2, 9], 0) = Inl (TableModified, [1, 4, 2, 7, 9, 0], 3)" by code_simp
  have "4 \<le> length [5, 1, 4, 2, 9 :: nat]" by simp
  from tsort_permutes [OF this, of growing_pred 0] show ?thesis unfolding r by simp
qed

text \<open>C13: \<open>table.sort\<close> with a comparison that is a strict weak order raises no error and leaves the elements in its
  order, on the quicksort path and beyond the recursion limit on the heap sort path.\<close>

theorem tsort_orders:
  assumes "\<And>a b. lt a b \<Longrightarrow> \<not> lt b a" and "\<And>a b c. \<not> lt a b \<Longrightarrow> \<not> lt b c \<Longrightarrow> \<not> lt a c" and "n \<le> length xs"
  shows "\<exists>ys. tsort (total_pred lt) n (xs, w) = Inr ((), ys, w) \<and> (\<forall>i j. i < j \<and> j < n \<longrightarrow> \<not> lt (ys ! j) (ys ! i))"
  by (rule weak_order.tsort_sorts [OF weak_order.intro [OF assms(1,2)] assms(3)])

text \<open>By the second component only, as a user's predicate on records does: equal keys in any order.\<close>

theorem tsort_orders_witness:
  "\<exists>ys. tsort (total_pred (\<lambda>a b. snd a < snd b)) 3 ([(1 :: nat, 7 :: nat), (2, 3), (3, 7), (4, 0)], ()) = Inr ((), ys, ()) \<and>
    (\<forall>i j. i < j \<and> j < 3 \<longrightarrow> \<not> snd (ys ! j) < snd (ys ! i))"
proof -
  have n: "3 \<le> length [(1 :: nat, 7 :: nat), (2, 3), (3, 7), (4, 0)]" by simp
  show ?thesis by (rule tsort_orders [OF _ _ n]) auto
qed

text \<open>C40: \<open>table.sort\<close> of strings with the default order: the result is the sorted list of the first \<open>n\<close> elements, in
  the lexicographic order of their bytes, with the rest of the array behind it.\<close>

theorem tsort_strings:
  assumes "n \<le> length xs"
  shows "tsort (total_pred lua_v_lessthan) n (xs, w) = Inr ((), sort (take n xs) @ drop n xs, w)"
proof -
  obtain ys where ys: "tsort (total_pred lua_v_lessthan) n (xs, w) = Inr ((), ys, w)" "\<forall>i j. i < j \<and> j < n \<longrightarrow> \<not> lua_v_lessthan (ys ! j) (ys ! i)"
    using string_order.tsort_sorts [OF assms, of w] by blast
  have "keeps_table (total_pred lua_v_lessthan)" by (simp add: keeps_table_def total_pred_def)
  then have p: "mset (take n ys) = mset (take n xs)" "drop n ys = drop n xs"
    using tsort_first [OF assms disjI2 [OF ys(1)]] by blast+
  have "sorted (take n ys)"
    unfolding sorted_iff_nth_mono_less using ys(2) by (auto simp: lua_v_lessthan_lex not_less)
  then have "take n ys = sort (take n xs)" using p(1) by (metis properties_for_sort)
  then show ?thesis using ys(1) p(2) append_take_drop_id [of n ys] by metis
qed

theorem tsort_strings_witness:
  "tsort (total_pred lua_v_lessthan) 4 ([[98], [], [0], [97, 97], [1]], ()) = Inr ((), [[], [0], [97, 97], [98], [1]], ())"
proof -
  have n: "4 \<le> length [[98], [], [0], [97, 97], [1 :: 8 word]]" by simp
  have s: "sort (take 4 [[98], [], [0], [97, 97], [1]]) @ drop 4 [[98], [], [0], [97, 97], [1]] = [[], [0], [97, 97], [98], [1 :: 8 word]]"
    by code_simp
  show ?thesis using tsort_strings [OF n] unfolding s .
qed

end
