(* ===== verification/Lua_Key.thy ===== *)
theory Lua_Key
  imports Luau_Prelude
begin

text \<open>
  The keys of a Lua table (\<open>luaur-vm\<close>): the tagged values that can be keys, their raw equality
  (\<open>lua_o_rawequal_key.rs\<close>), the conversions between doubles and integers that decide which numbers
  belong to the array part (\<open>arrayindex.rs\<close>), and the hash functions behind \<open>mainposition.rs\<close>. Doubles
  and floats are their bit patterns. A string is interned, so that the identity of the object is that of
  its bytes; other collectable values are a type tag and an address. The theory ends with
  the law a hash table needs, that equal keys have equal hashes, and with the exception to it.
\<close>

section \<open>Doubles\<close>

function log2i :: "int \<Rightarrow> nat" where "log2i n = (if n < 2 then 0 else Suc (log2i (n div 2)))"
  by pat_completeness auto
termination by (relation "measure nat") auto

declare log2i.simps [simp del]

text \<open>The comparison \<open>a == b\<close> of doubles and of floats: NaN equals nothing, the two zeros are equal.\<close>

definition f64_nan :: "u64 \<Rightarrow> bool" where "f64_nan b \<longleftrightarrow> b AND 0x7FFFFFFFFFFFFFFF > 0x7FF0000000000000"
definition f64_zero :: "u64 \<Rightarrow> bool" where "f64_zero b \<longleftrightarrow> b AND 0x7FFFFFFFFFFFFFFF = 0"
definition luai_numeq :: "u64 \<Rightarrow> u64 \<Rightarrow> bool" where
  "luai_numeq a b \<longleftrightarrow> \<not> f64_nan a \<and> \<not> f64_nan b \<and> (a = b \<or> f64_zero a \<and> f64_zero b)"

definition f32_nan :: "u32 \<Rightarrow> bool" where "f32_nan b \<longleftrightarrow> b AND 0x7FFFFFFF > 0x7F800000"
definition f32_zero :: "u32 \<Rightarrow> bool" where "f32_zero b \<longleftrightarrow> b AND 0x7FFFFFFF = 0"
definition f32_eq :: "u32 \<Rightarrow> u32 \<Rightarrow> bool" where
  "f32_eq a b \<longleftrightarrow> \<not> f32_nan a \<and> \<not> f32_nan b \<and> (a = b \<or> f32_zero a \<and> f32_zero b)"

text \<open>\<open>i as f64\<close>: the nearest double, ties to even. The carry of the rounding goes into the exponent.\<close>

definition f64_magnitude :: "int \<Rightarrow> int" where
  "f64_magnitude m =
     (if m = 0 then 0
      else let e = log2i m in
        if e \<le> 52 then (int e + 1023) * 2 ^ 52 + (m - 2 ^ e) * 2 ^ (52 - e)
        else let s = e - 52; q = m div 2 ^ s; r = m mod 2 ^ s; half = 2 ^ (s - 1) in
          (int e + 1023) * 2 ^ 52 + (q - 2 ^ 52) + (if r > half \<or> r = half \<and> odd q then 1 else 0))"

definition cast_num :: "int \<Rightarrow> u64" where
  "cast_num i = word_of_int ((if i < 0 then 2 ^ 63 else 0) + f64_magnitude \<bar>i\<bar>)"

text \<open>\<open>x as i32\<close>: towards zero, saturating, 0 for NaN.\<close>

definition f64_trunc :: "u64 \<Rightarrow> int" where
  "f64_trunc b =
     (let n = uint b mod 2 ^ 63; E = nat (n div 2 ^ 52); frac = n mod 2 ^ 52; m = (if E = 0 then frac else 2 ^ 52 + frac);
          k = (if 1075 \<le> E then m * 2 ^ (E - 1075) else m div 2 ^ (1075 - max 1 E)) in
      if 2 ^ 63 \<le> uint b then - k else k)"

definition luai_num2int :: "u64 \<Rightarrow> int" where
  "luai_num2int b = (if f64_nan b then 0 else max (- (2 ^ 31)) (min (2 ^ 31 - 1) (f64_trunc b)))"

definition arrayindex :: "u64 \<Rightarrow> int" where
  "arrayindex key = (let i = luai_num2int key in if luai_numeq (cast_num i) key then i else -1)"

section \<open>Keys\<close>

text \<open>An interned string is its bytes; \<open>KObject\<close> is any other collectable value.\<close>

datatype lua_key =
    KNil
  | KBoolean bool
  | KLightUserdata u64 int
  | KNumber u64
  | KInteger u64
  | KVector u32 u32 u32
  | KString bytes
  | KObject nat u64

text \<open>The comparison of integer keys goes through doubles, as \<open>luai_inteq\<close> takes them.\<close>

definition luai_inteq :: "u64 \<Rightarrow> u64 \<Rightarrow> bool" where "luai_inteq a b = luai_numeq a b"

definition luai_veceq :: "u32 \<times> u32 \<times> u32 \<Rightarrow> u32 \<times> u32 \<times> u32 \<Rightarrow> bool" where
  "luai_veceq a b = (case (a, b) of ((x, y, z), (x', y', z')) \<Rightarrow> f32_eq x x' \<and> f32_eq y y' \<and> f32_eq z z')"

fun rawequal_key :: "lua_key \<Rightarrow> lua_key \<Rightarrow> bool" where
  "rawequal_key KNil KNil = True"
| "rawequal_key (KNumber a) (KNumber b) = luai_numeq a b"
| "rawequal_key (KInteger a) (KInteger b) = luai_inteq (cast_num (sint a)) (cast_num (sint b))"
| "rawequal_key (KVector x y z) (KVector x' y' z') = luai_veceq (x, y, z) (x', y', z')"
| "rawequal_key (KBoolean a) (KBoolean b) = (a = b)"
| "rawequal_key (KLightUserdata p t) (KLightUserdata q u) = (p = q \<and> t = u)"
| "rawequal_key (KString a) (KString b) = (a = b)"
| "rawequal_key (KObject t p) (KObject u q) = (t = u \<and> p = q)"
| "rawequal_key _ _ = False"

section \<open>Hashes\<close>

text \<open>The index of a hash in a node vector of a power of two: \<open>lmod\<close> on the value widened to 64 bits.\<close>

definition lmod :: "u64 \<Rightarrow> nat \<Rightarrow> nat" where "lmod s sz = unat (s AND (of_nat sz - 1))"

definition murmur64b :: "u32 \<Rightarrow> u32 \<Rightarrow> u32" where
  "murmur64b i0 i1 =
     (let M = 0x5bd1e995;
          h1 = (i0 XOR drop_bit 18 i1) * M;
          h2 = (i1 XOR drop_bit 22 h1) * M;
          h1 = (h1 XOR drop_bit 17 h2) * M
      in (h2 XOR drop_bit 19 h1) * M)"

definition hashnum :: "nat \<Rightarrow> u64 \<Rightarrow> nat" where
  "hashnum sz n = lmod (scast (murmur64b (ucast n) (ucast (drop_bit 32 n) AND 0x7fffffff))) sz"

definition hashint :: "nat \<Rightarrow> u64 \<Rightarrow> nat" where
  "hashint sz n = lmod (scast (murmur64b (ucast n) (ucast (drop_bit 32 n)))) sz"

definition hashvec :: "nat \<Rightarrow> u32 \<Rightarrow> u32 \<Rightarrow> u32 \<Rightarrow> nat" where
  "hashvec sz x y z =
     (let plain = (\<lambda>i. if i = 0x80000000 then 0 else i); spread = (\<lambda>i. i XOR drop_bit 17 i);
          h = (spread (plain x) * 73856093) XOR (spread (plain y) * 19349663) XOR (spread (plain z) * 83492791)
      in unat (h AND (of_nat sz - 1)))"

definition hashpointer :: "nat \<Rightarrow> u64 \<Rightarrow> nat" where
  "hashpointer sz p =
     (let h = ucast p :: u32;
          h = (h XOR drop_bit 16 h) * 0x85ebca6b;
          h = (h XOR drop_bit 13 h) * 0xc2b2ae35;
          h = h XOR drop_bit 16 h
      in lmod (scast h) sz)"

text \<open>The hash of a string, \<open>luaS_hash\<close>: blocks of 12 bytes while 32 or more are left, then the rest from its end.\<close>

definition rol :: "u32 \<Rightarrow> nat \<Rightarrow> u32" where "rol x s = drop_bit s x OR push_bit (32 - s) x"

definition mix :: "nat \<Rightarrow> nat \<Rightarrow> nat \<Rightarrow> u32 \<times> u32 \<times> u32 \<Rightarrow> u32 \<times> u32 \<times> u32" where
  "mix u v w = (\<lambda>(a, b, h).
     let a = a XOR h; a = a - rol h u; b = b XOR a; b = b - rol a v; h = h XOR b; h = h - rol b w in (a, b, h))"

definition word_at :: "bytes \<Rightarrow> nat \<Rightarrow> u32" where
  "word_at s i = ucast (s ! i) OR push_bit 8 (ucast (s ! (i + 1))) OR push_bit 16 (ucast (s ! (i + 2))) OR push_bit 24 (ucast (s ! (i + 3)))"

function hash_blocks :: "bytes \<Rightarrow> u32 \<times> u32 \<times> u32 \<Rightarrow> bytes \<times> u32" where
  "hash_blocks s abh =
     (if 32 \<le> length s then
        hash_blocks (drop 12 s) (case abh of (a, b, h) \<Rightarrow> mix 14 11 25 (a + word_at s 0, b + word_at s 4, h + word_at s 8))
      else (s, snd (snd abh)))"
  by pat_completeness auto
termination by (relation "measure (length \<circ> fst)") auto

declare hash_blocks.simps [simp del]

definition hash_char :: "byte \<Rightarrow> u32 \<Rightarrow> u32" where
  "hash_char c h = h XOR (push_bit 5 h + drop_bit 2 h + ucast c)"

definition luaS_hash :: "bytes \<Rightarrow> u32" where
  "luaS_hash s = (case hash_blocks s (0, 0, of_nat (length s)) of (rest, h) \<Rightarrow> foldr hash_char rest h)"

definition mainposition :: "nat \<Rightarrow> lua_key \<Rightarrow> nat" where
  "mainposition sz key =
     (case key of
        KNumber n \<Rightarrow> hashnum sz n
      | KInteger n \<Rightarrow> hashint sz n
      | KVector x y z \<Rightarrow> hashvec sz x y z
      | KString s \<Rightarrow> lmod (ucast (luaS_hash s)) sz
      | KBoolean b \<Rightarrow> lmod (if b then 1 else 0) sz
      | KLightUserdata p _ \<Rightarrow> hashpointer sz p
      | KObject _ p \<Rightarrow> hashpointer sz p
      | KNil \<Rightarrow> hashpointer sz 0)"


section \<open>Laws of the conversions\<close>

lemma log2i_bounds: "0 < n \<Longrightarrow> 2 ^ log2i n \<le> n \<and> n < 2 ^ Suc (log2i n)"
proof (induction n rule: log2i.induct)
  case (1 n)
  show ?case
  proof (cases "n < 2")
    case True
    then show ?thesis using 1(2) by (subst (1 2) log2i.simps) simp
  next
    case False
    then have "2 ^ log2i (n div 2) \<le> n div 2 \<and> n div 2 < 2 ^ Suc (log2i (n div 2))" using 1(1) by simp
    then show ?thesis using False by (subst (1 2) log2i.simps) auto
  qed
qed

lemma log2i_le: "0 < n \<Longrightarrow> n < 2 ^ Suc k \<Longrightarrow> log2i n \<le> k"
proof (rule ccontr)
  assume "0 < n" "n < 2 ^ Suc k" "\<not> log2i n \<le> k"
  then have "2 ^ Suc k \<le> (2 :: int) ^ log2i n" by (intro power_increasing) auto
  then show False using log2i_bounds [OF \<open>0 < n\<close>] \<open>n < 2 ^ Suc k\<close> by simp
qed

lemma uint_low: "uint (b AND 0x7FFFFFFFFFFFFFFF) = uint (b :: u64) mod 2 ^ 63"
proof -
  have m: "(0x7FFFFFFFFFFFFFFF :: u64) = mask 63" by (simp add: mask_eq_exp_minus_1)
  show ?thesis unfolding m take_bit_eq_mask [symmetric] unsigned_take_bit_eq by (rule take_bit_eq_mod)
qed

lemma f64_nan_int: "f64_nan b \<longleftrightarrow> 2047 * 2 ^ 52 < uint b mod 2 ^ 63"
proof -
  have "f64_nan b \<longleftrightarrow> uint (0x7FF0000000000000 :: u64) < uint (b AND 0x7FFFFFFFFFFFFFFF)"
    unfolding f64_nan_def word_less_def ..
  then show ?thesis unfolding uint_low by simp
qed

lemma f64_zero_int: "f64_zero b \<longleftrightarrow> uint b mod 2 ^ 63 = 0"
proof -
  have "f64_zero b \<longleftrightarrow> uint (b AND 0x7FFFFFFFFFFFFFFF) = 0" unfolding f64_zero_def uint_0_iff ..
  then show ?thesis unfolding uint_low .
qed

lemma f64_zero_cases: "f64_zero b \<longleftrightarrow> b = 0 \<or> b = 0x8000000000000000"
proof
  assume z: "f64_zero b"
  have "uint b < 2 * 2 ^ 63" using uint_lt2p [of b] by simp
  then have "uint b div 2 ^ 63 < 2" by simp
  moreover have "0 \<le> uint b div 2 ^ 63" by (simp add: pos_imp_zdiv_nonneg_iff)
  moreover have "uint b = uint b mod 2 ^ 63 + 2 ^ 63 * (uint b div 2 ^ 63)" by simp
  ultimately have "uint b div 2 ^ 63 = 0 \<or> uint b div 2 ^ 63 = 1" by linarith
  then have "uint b = 0 \<or> uint b = 2 ^ 63" using z \<open>uint b = _\<close> unfolding f64_zero_int by auto
  then have "uint b = uint (0 :: u64) \<or> uint b = uint (0x8000000000000000 :: u64)" by simp
  then show "b = 0 \<or> b = 0x8000000000000000" using unsigned_word_eqI by blast
qed (auto simp: f64_zero_def)

lemma f64_magnitude_decode:
  assumes "0 < m" "m \<le> 2 ^ 53"
  shows "(if 1075 \<le> nat (f64_magnitude m div 2 ^ 52) then (2 ^ 52 + f64_magnitude m mod 2 ^ 52) * 2 ^ (nat (f64_magnitude m div 2 ^ 52) - 1075)
      else (2 ^ 52 + f64_magnitude m mod 2 ^ 52) div 2 ^ (1075 - nat (f64_magnitude m div 2 ^ 52))) = m
    \<and> 1023 \<le> f64_magnitude m div 2 ^ 52 \<and> f64_magnitude m div 2 ^ 52 \<le> 1076"
proof (cases "log2i m \<le> 52")
  case True
  let ?e = "log2i m"
  have b: "2 ^ ?e \<le> m" "m < 2 * 2 ^ ?e" using log2i_bounds [OF assms(1)] by simp_all
  have p: "(2 :: int) ^ 52 = 2 ^ ?e * 2 ^ (52 - ?e)" using True by (simp flip: power_add)
  have frac: "0 \<le> (m - 2 ^ ?e) * 2 ^ (52 - ?e)" "(m - 2 ^ ?e) * 2 ^ (52 - ?e) < 2 ^ 52" unfolding p using b by simp_all
  have mag: "f64_magnitude m = (int ?e + 1023) * 2 ^ 52 + (m - 2 ^ ?e) * 2 ^ (52 - ?e)"
    using assms(1) True by (simp add: f64_magnitude_def Let_def)
  have "(2 :: int) ^ 52 \<noteq> 0" by simp
  then have d: "f64_magnitude m div 2 ^ 52 = int ?e + 1023" "f64_magnitude m mod 2 ^ 52 = (m - 2 ^ ?e) * 2 ^ (52 - ?e)"
    unfolding mag div_mult_self3 [OF \<open>2 ^ 52 \<noteq> 0\<close>] mod_mult_self3 using div_pos_pos_trivial [OF frac] mod_pos_pos_trivial [OF frac]
    by simp_all
  have n: "nat (int ?e + 1023) = ?e + 1023" by simp
  have "2 ^ 52 + (m - 2 ^ ?e) * 2 ^ (52 - ?e) = m * 2 ^ (52 - ?e)"
    unfolding p by (simp add: left_diff_distrib)
  then show ?thesis unfolding d n using True by (cases "?e = 52") auto
next
  case False
  have "log2i m \<le> 53" using assms by (intro log2i_le) auto
  then have e: "log2i m = 53" using False by simp
  then have "m = 2 ^ 53" using log2i_bounds [OF assms(1)] assms(2) by simp
  then have mag: "f64_magnitude m = 1076 * 2 ^ 52" using e by (simp add: f64_magnitude_def)
  show ?thesis unfolding mag using \<open>m = 2 ^ 53\<close> by simp
qed

lemma f64_magnitude_small: "0 \<le> m \<Longrightarrow> m \<le> 2 ^ 53 \<Longrightarrow> 0 \<le> f64_magnitude m \<and> f64_magnitude m < 1077 * 2 ^ 52"
proof (cases "m = 0")
  case False
  assume "0 \<le> m" "m \<le> 2 ^ 53"
  then have "1023 \<le> f64_magnitude m div 2 ^ 52" "f64_magnitude m div 2 ^ 52 < 1077"
    using f64_magnitude_decode [of m] False by simp_all
  moreover have "f64_magnitude m = f64_magnitude m div 2 ^ 52 * 2 ^ 52 + f64_magnitude m mod 2 ^ 52"
    "0 \<le> f64_magnitude m mod 2 ^ 52" "f64_magnitude m mod 2 ^ 52 < 2 ^ 52" by simp_all
  ultimately show ?thesis by auto
qed (simp add: f64_magnitude_def)

lemma cast_num_bits:
  assumes "\<bar>i\<bar> \<le> 2 ^ 53"
  shows "uint (cast_num i) mod 2 ^ 63 = f64_magnitude \<bar>i\<bar>" "2 ^ 63 \<le> uint (cast_num i) \<longleftrightarrow> i < 0"
    "f64_magnitude \<bar>i\<bar> < 2047 * 2 ^ 52"
proof -
  define n where "n = f64_magnitude \<bar>i\<bar>"
  have "0 \<le> n \<and> n < 1077 * 2 ^ 52" unfolding n_def using assms by (intro f64_magnitude_small) simp_all
  then have m: "0 \<le> n" "n < 2047 * 2 ^ 52" by simp_all
  then have "0 \<le> (if i < 0 then 2 ^ 63 else 0) + n" "(if i < 0 then 2 ^ 63 else 0) + n < 2 ^ 64" by simp_all
  then have u: "uint (cast_num i) = (if i < 0 then 2 ^ 63 else 0) + n"
    unfolding cast_num_def n_def [symmetric] by (subst uint_word_of_int) simp
  show "uint (cast_num i) mod 2 ^ 63 = f64_magnitude \<bar>i\<bar>" "2 ^ 63 \<le> uint (cast_num i) \<longleftrightarrow> i < 0"
    "f64_magnitude \<bar>i\<bar> < 2047 * 2 ^ 52"
    unfolding u n_def [symmetric] using m by simp_all
qed

lemma f64_trunc_cast_num: "\<bar>i\<bar> \<le> 2 ^ 53 \<Longrightarrow> f64_trunc (cast_num i) = i"
proof -
  assume i: "\<bar>i\<bar> \<le> 2 ^ 53"
  let ?n = "f64_magnitude \<bar>i\<bar>"
  note n = cast_num_bits(1,2) [OF i]
  show ?thesis
  proof (cases "i = 0")
    case True
    then show ?thesis by (simp add: f64_trunc_def cast_num_def f64_magnitude_def)
  next
    case False
    have d: "(if 1075 \<le> nat (?n div 2 ^ 52) then (2 ^ 52 + ?n mod 2 ^ 52) * 2 ^ (nat (?n div 2 ^ 52) - 1075)
      else (2 ^ 52 + ?n mod 2 ^ 52) div 2 ^ (1075 - nat (?n div 2 ^ 52))) = \<bar>i\<bar>" "1023 \<le> ?n div 2 ^ 52"
      using f64_magnitude_decode [of "\<bar>i\<bar>"] False i by simp_all
    have "nat (?n div 2 ^ 52) \<noteq> 0" "max 1 (nat (?n div 2 ^ 52)) = nat (?n div 2 ^ 52)" using d(2) by linarith+
    then have "f64_trunc (cast_num i) = (if i < 0 then - \<bar>i\<bar> else \<bar>i\<bar>)"
      unfolding f64_trunc_def Let_def n using d(1) by (simp only: if_False)
    then show ?thesis by simp
  qed
qed

lemma cast_num_not_nan: "\<bar>i\<bar> \<le> 2 ^ 53 \<Longrightarrow> \<not> f64_nan (cast_num i)"
  unfolding f64_nan_int using cast_num_bits [of i] by simp

lemma cast_num_zero: "\<bar>i\<bar> \<le> 2 ^ 53 \<Longrightarrow> f64_zero (cast_num i) \<longleftrightarrow> i = 0"
proof
  assume i: "\<bar>i\<bar> \<le> 2 ^ 53" and z: "f64_zero (cast_num i)"
  have "f64_trunc (0 :: u64) = 0" "f64_trunc (0x8000000000000000 :: u64) = 0" by (simp_all add: f64_trunc_def)
  then show "i = 0" using z f64_trunc_cast_num [OF i] unfolding f64_zero_cases by metis
qed (simp add: f64_zero_def cast_num_def f64_magnitude_def)

lemma cast_num_inj: "\<bar>i\<bar> \<le> 2 ^ 53 \<Longrightarrow> \<bar>j\<bar> \<le> 2 ^ 53 \<Longrightarrow> luai_numeq (cast_num i) (cast_num j) \<longleftrightarrow> i = j"
  using cast_num_not_nan cast_num_zero [of i] cast_num_zero [of j] f64_trunc_cast_num [of i] f64_trunc_cast_num [of j]
  unfolding luai_numeq_def by metis

lemma num2int_cast_num: "- (2 ^ 31) \<le> i \<Longrightarrow> i < 2 ^ 31 \<Longrightarrow> luai_num2int (cast_num i) = i"
proof -
  assume i: "- (2 ^ 31) \<le> i" "i < 2 ^ 31"
  then have "\<bar>i\<bar> \<le> 2 ^ 53" by simp
  then show ?thesis using i f64_trunc_cast_num cast_num_not_nan unfolding luai_num2int_def by simp
qed

lemma num2int_range: "- (2 ^ 31) \<le> luai_num2int b" "luai_num2int b < 2 ^ 31"
  by (auto simp: luai_num2int_def)

lemma num2int_zero: "f64_zero b \<Longrightarrow> luai_num2int b = 0"
proof -
  have "luai_num2int (0 :: u64) = 0" "luai_num2int (0x8000000000000000 :: u64) = 0"
    by (simp_all add: luai_num2int_def f64_trunc_def f64_nan_def)
  then show "f64_zero b \<Longrightarrow> luai_num2int b = 0" unfolding f64_zero_cases by metis
qed

lemma numeq_num2int: "luai_numeq a b \<Longrightarrow> luai_num2int a = luai_num2int b"
  unfolding luai_numeq_def using num2int_zero by metis

lemma numeq_sym: "luai_numeq a b \<longleftrightarrow> luai_numeq b a" by (auto simp: luai_numeq_def)
lemma numeq_trans: "luai_numeq a b \<Longrightarrow> luai_numeq b c \<Longrightarrow> luai_numeq a c" by (auto simp: luai_numeq_def)


section \<open>Equal keys\<close>

text \<open>One representative of every class of equal keys: the zeros of a double or float are one.\<close>

definition canon_f32 :: "u32 \<Rightarrow> u32" where "canon_f32 x = (if f32_zero x then 0 else x)"

fun canon :: "lua_key \<Rightarrow> lua_key" where
  "canon (KNumber b) = KNumber (if f64_zero b then 0 else b)"
| "canon (KVector x y z) = KVector (canon_f32 x) (canon_f32 y) (canon_f32 z)"
| "canon k = k"

text \<open>A key that can be stored and that the comparison through doubles tells from the others.\<close>

fun good_key :: "lua_key \<Rightarrow> bool" where
  "good_key KNil \<longleftrightarrow> False"
| "good_key (KNumber b) \<longleftrightarrow> \<not> f64_nan b"
| "good_key (KVector x y z) \<longleftrightarrow> \<not> f32_nan x \<and> \<not> f32_nan y \<and> \<not> f32_nan z"
| "good_key (KInteger n) \<longleftrightarrow> \<bar>sint n\<bar> \<le> 2 ^ 53"
| "good_key k \<longleftrightarrow> True"

lemma f32_zero_cases: "f32_zero b \<longleftrightarrow> b = 0 \<or> b = 0x80000000"
proof
  assume z: "f32_zero b"
  have m: "(0x7FFFFFFF :: u32) = mask 31" by (simp add: mask_eq_exp_minus_1)
  have "unat b mod 2 ^ 31 = unat (b AND 0x7FFFFFFF)"
    unfolding m take_bit_eq_mask [symmetric] unsigned_take_bit_eq by (simp only: take_bit_eq_mod)
  then have low: "unat b mod 2 ^ 31 = 0" using z by (simp add: f32_zero_def)
  have "unat b < 2 * 2 ^ 31" using unsigned_less [of b, where ?'a = nat] by simp
  then have "unat b div 2 ^ 31 < 2" by (rule less_mult_imp_div_less)
  moreover have "unat b = unat b mod 2 ^ 31 + 2 ^ 31 * (unat b div 2 ^ 31)" by simp
  ultimately have "unat b = 0 \<or> unat b = 2 ^ 31" using low by auto
  then have "unat b = unat (0 :: u32) \<or> unat b = unat (0x80000000 :: u32)" by simp
  then show "b = 0 \<or> b = 0x80000000" using unsigned_word_eqI by blast
qed (auto simp: f32_zero_def)

lemma f32_eq_canon: "\<not> f32_nan a \<Longrightarrow> \<not> f32_nan b \<Longrightarrow> f32_eq a b \<longleftrightarrow> canon_f32 a = canon_f32 b"
  by (auto simp: f32_eq_def canon_f32_def f32_zero_def split: if_splits)

lemma sint_inj: "sint (a :: u64) = sint b \<Longrightarrow> a = b" by (rule signed_word_eqI)

lemma rawequal_canon: "good_key a \<Longrightarrow> good_key b \<Longrightarrow> rawequal_key a b \<longleftrightarrow> canon a = canon b"
proof (cases a)
  case (KNumber x)
  assume "good_key a" "good_key b"
  then show ?thesis using KNumber
    by (cases b) (auto simp: luai_numeq_def f64_zero_def split: if_splits)
next
  case (KInteger n)
  assume "good_key a" "good_key b"
  then show ?thesis using KInteger cast_num_inj sint_inj by (cases b) (auto simp: luai_inteq_def)
next
  case (KVector x y z)
  assume "good_key a" "good_key b"
  then show ?thesis using KVector by (cases b) (simp_all add: luai_veceq_def f32_eq_canon)
qed (cases b; auto)+

lemma rawequal_nil: "good_key k \<Longrightarrow> \<not> rawequal_key KNil k" by (cases k) auto

text \<open>Equal keys have the same main position.\<close>

lemma mainposition_canon: "mainposition sz (canon k) = mainposition sz k"
proof (cases k)
  case (KNumber b)
  show ?thesis
  proof (cases "f64_zero b")
    case True
    then consider "b = 0" | "b = 0x8000000000000000" unfolding f64_zero_cases by blast
    then have "(ucast b :: u32) = 0" "ucast (drop_bit 32 b) AND 0x7fffffff = (0 :: u32)" by (cases; simp add: drop_bit_eq_div)+
    then have "hashnum sz b = hashnum sz 0" unfolding hashnum_def by simp
    then show ?thesis using KNumber True by (simp add: mainposition_def)
  qed (simp add: KNumber)
next
  case (KVector x y z)
  have c: "(if canon_f32 i = 0x80000000 then 0 else canon_f32 i) = (if i = 0x80000000 then 0 else i)" for i
    by (auto simp: canon_f32_def f32_zero_cases)
  show ?thesis using KVector by (simp add: mainposition_def hashvec_def Let_def c)
qed simp_all

lemma canon_eq_mainposition: "canon a = canon b \<Longrightarrow> mainposition sz a = mainposition sz b"
  by (metis mainposition_canon)

lemma canon_eq_good: "canon a = canon b \<Longrightarrow> good_key a \<Longrightarrow> good_key b"
proof -
  have "\<not> f32_nan (0 :: u32)" "\<not> f32_nan (0x80000000 :: u32)" "\<not> f64_nan (0 :: u64)" "\<not> f64_nan (0x8000000000000000 :: u64)"
    by (simp_all add: f32_nan_def f64_nan_def)
  then have "good_key (canon k) \<longleftrightarrow> good_key k" for k
    by (cases k) (auto simp: canon_f32_def f32_zero_cases f64_zero_cases split: if_splits)
  then show "canon a = canon b \<Longrightarrow> good_key a \<Longrightarrow> good_key b" by metis
qed

lemma lmod_less: "0 < sz \<Longrightarrow> sz < 2 ^ 64 \<Longrightarrow> lmod s sz < sz"
proof -
  assume sz: "0 < sz" "sz < 2 ^ 64"
  have "unat (s AND (of_nat sz - 1)) \<le> unat (of_nat sz - 1 :: u64)" by (rule word_and_le1 [unfolded word_le_nat_alt])
  also have "unat (of_nat sz - 1 :: u64) = sz - 1"
    using sz by (subst unat_sub) (simp_all add: unat_of_nat word_le_nat_alt)
  finally show ?thesis using sz(1) by (simp add: lmod_def)
qed


lemma hashvec_less: "0 < sz \<Longrightarrow> sz < 2 ^ 32 \<Longrightarrow> hashvec sz x y z < sz"
proof -
  assume sz: "0 < sz" "sz < 2 ^ 32"
  have "unat (h AND (of_nat sz - 1)) < sz" for h :: u32
  proof -
    have "unat (h AND (of_nat sz - 1)) \<le> unat (of_nat sz - 1 :: u32)" by (rule word_and_le1 [unfolded word_le_nat_alt])
    also have "unat (of_nat sz - 1 :: u32) = sz - 1"
      using sz by (subst unat_sub) (simp_all add: unat_of_nat word_le_nat_alt)
    finally show ?thesis using sz(1) by simp
  qed
  then show ?thesis by (simp add: hashvec_def Let_def)
qed

lemma mainposition_less: "0 < sz \<Longrightarrow> sz < 2 ^ 32 \<Longrightarrow> mainposition sz k < sz"
  by (cases k) (simp_all add: mainposition_def hashnum_def hashint_def hashpointer_def Let_def lmod_less hashvec_less)

end
