(* ===== verification/Lua_Node.thy ===== *)
theory Lua_Node
  imports Lua_Key
begin

text \<open>
  The hash part of a Lua table (\<open>luaur-vm\<close>): a vector of nodes in which the keys of one main position are linked
  by relative offsets, as chained scatter with Brent's variation. The theory holds the parts of \<open>newkey.rs\<close>,
  \<open>getfreepos.rs\<close>, \<open>lua_h_get.rs\<close> and \<open>setnodevector.rs\<close> that work on the nodes, the invariant \<open>nodes_ok\<close>, and that
  searching and inserting keep it and find what was inserted. A null pointer is \<open>None\<close>; an access outside
  the vector, a failed assertion or a walk that does not end is the error \<open>Fault\<close>.
\<close>

section \<open>The code\<close>

datatype table_error = TableOverflow | IndexNil | IndexNaN | VectorNaN | InvalidNext | Fault

type_synonym 'r table_result = "table_error + 'r"

record 'v lua_node =
  nd_val :: "'v option"
  nd_key :: lua_key
  nd_next :: int

text \<open>The field \<open>next\<close> has 28 bits.\<close>

definition set_next :: "int \<Rightarrow> 'v lua_node \<Rightarrow> 'v lua_node" where
  "set_next d n = n\<lparr>nd_next := sint (word_of_int d :: 28 word)\<rparr>"

definition free_node :: "'v lua_node" where "free_node = \<lparr>nd_val = None, nd_key = KNil, nd_next = 0\<rparr>"

text \<open>The walk along a chain up to a key, as in \<open>lua_h_get\<close>, \<open>lua_h_getnum\<close>, \<open>lua_h_getstr\<close> and \<open>findindex\<close>.
  It visits a node once, so the length of the vector is fuel enough.\<close>

fun find_node :: "nat \<Rightarrow> 'v lua_node list \<Rightarrow> (lua_key \<Rightarrow> bool) \<Rightarrow> nat \<Rightarrow> nat option table_result" where
  "find_node 0 ns P i = Inl Fault"
| "find_node (Suc fuel) ns P i =
     (if i < length ns then
        if P (nd_key (ns ! i)) then Inr (Some i)
        else let next = nd_next (ns ! i) in
          if next = 0 then Inr None
          else if 0 \<le> int i + next then find_node fuel ns P (nat (int i + next)) else Inl Fault
      else Inl Fault)"

text \<open>\<open>getfreepos\<close>: downwards from \<open>lastfree\<close>, which shares its place with the cached boundary and can be negative.\<close>

fun free_loop :: "'v lua_node list \<Rightarrow> nat \<Rightarrow> nat \<times> nat option" where
  "free_loop ns 0 = (0, None)"
| "free_loop ns (Suc i) = (if nd_key (ns ! i) = KNil then (i, Some i) else free_loop ns i)"

definition getfreepos :: "'v lua_node list \<Rightarrow> int \<Rightarrow> (int \<times> nat option) table_result" where
  "getfreepos ns lastfree =
     (if lastfree > 0 then
        if nat lastfree \<le> length ns then (case free_loop ns (nat lastfree) of (f, n) \<Rightarrow> Inr (int f, n)) else Inl Fault
      else Inr (lastfree, None))"

text \<open>The two collisions in \<open>newkey\<close>: a node away from its main position is moved to the free one and its
  predecessor relinked; otherwise the free node is linked in behind the main position.\<close>

fun find_previous :: "nat \<Rightarrow> 'v lua_node list \<Rightarrow> nat \<Rightarrow> nat \<Rightarrow> nat table_result" where
  "find_previous 0 ns mp i = Inl Fault"
| "find_previous (Suc fuel) ns mp i =
     (if i < length ns then
        let j = int i + nd_next (ns ! i) in
        if j = int mp then Inr i
        else if 0 \<le> j then find_previous fuel ns mp (nat j) else Inl Fault
      else Inl Fault)"

definition move_node :: "'v lua_node list \<Rightarrow> nat \<Rightarrow> nat \<Rightarrow> nat \<Rightarrow> 'v lua_node list" where
  "move_node ns n mp othern =
     (let ns = ns[othern := set_next (int n - int othern) (ns ! othern)];
          ns = ns[n := ns ! mp];
          ns = (if nd_next (ns ! mp) \<noteq> 0
                then let ns = ns[n := set_next (nd_next (ns ! n) + (int mp - int n)) (ns ! n)]
                     in ns[mp := set_next 0 (ns ! mp)]
                else ns)
      in ns[mp := (ns ! mp)\<lparr>nd_val := None\<rparr>])"

definition link_node :: "'v lua_node list \<Rightarrow> nat \<Rightarrow> nat \<Rightarrow> 'v lua_node list table_result" where
  "link_node ns n mp =
     (let r = (if nd_next (ns ! mp) \<noteq> 0
               then Inr (ns[n := set_next (int mp + nd_next (ns ! mp) - int n) (ns ! n)])
               else if nd_next (ns ! n) = 0 then Inr ns else Inl Fault)
      in and_then r (\<lambda>ns. Inr (ns[mp := set_next (int n - int mp) (ns ! mp)])))"

definition set_node_key :: "lua_key \<Rightarrow> 'v lua_node list \<Rightarrow> nat \<Rightarrow> ('v lua_node list \<times> nat) table_result" where
  "set_node_key key ns mp =
     (let ns = ns[mp := (ns ! mp)\<lparr>nd_key := key\<rparr>] in if nd_val (ns ! mp) = None then Inr (ns, mp) else Inl Fault)"

text \<open>\<open>newkey\<close> on a proper node vector: \<open>None\<close> when no node is free and the table has to be rehashed.\<close>

definition insert_node :: "'v lua_node list \<Rightarrow> int \<Rightarrow> lua_key \<Rightarrow> (int \<times> ('v lua_node list \<times> nat) option) table_result" where
  "insert_node ns lastfree key =
     (let mp = mainposition (length ns) key in
      if length ns \<le> mp then Inl Fault
      else if nd_val (ns ! mp) = None then and_then (set_node_key key ns mp) (\<lambda>r. Inr (lastfree, Some r))
      else and_then (getfreepos ns lastfree) (\<lambda>(lastfree, free).
        case free of
          None \<Rightarrow> Inr (lastfree, None)
        | Some n \<Rightarrow>
            let othern = mainposition (length ns) (nd_key (ns ! mp)) in
            and_then
              (if othern \<noteq> mp
               then and_then (find_previous (Suc (length ns)) ns mp othern) (\<lambda>p. set_node_key key (move_node ns n mp p) mp)
               else and_then (link_node ns n mp) (\<lambda>ns. set_node_key key ns n))
              (\<lambda>r. Inr (lastfree, Some r))))"


section \<open>Chains\<close>

text \<open>Chains of a successor function, as the lists of their nodes.\<close>

inductive chain :: "(nat \<Rightarrow> nat option) \<Rightarrow> nat \<Rightarrow> nat list \<Rightarrow> bool" for s where
  chain_end: "s i = None \<Longrightarrow> chain s i [i]"
| chain_step: "s i = Some j \<Longrightarrow> chain s j is \<Longrightarrow> chain s i (i # is)"

inductive_cases chain_endE: "chain s i [j]"
inductive_cases chain_stepE: "chain s i (j # is)"

definition reach :: "(nat \<Rightarrow> nat option) \<Rightarrow> nat \<Rightarrow> nat \<Rightarrow> bool" where
  "reach s i j \<longleftrightarrow> (\<exists>is. chain s i is \<and> j \<in> set is)"

definition links_ok :: "nat \<Rightarrow> (nat \<Rightarrow> nat option) \<Rightarrow> bool" where
  "links_ok n s \<longleftrightarrow> (\<forall>i < n. \<forall>j. s i = Some j \<longrightarrow> j < n) \<and>
     (\<forall>i < n. \<forall>j < n. \<forall>k. s i = Some k \<and> s j = Some k \<longrightarrow> i = j) \<and> (\<forall>i < n. \<exists>is. chain s i is)"

lemma chain_unique: "chain s i is \<Longrightarrow> chain s i js \<Longrightarrow> is = js"
proof (induction arbitrary: js rule: chain.induct)
  case (chain_end i)
  from chain_end(2,1) show ?case by cases simp_all
next
  case (chain_step i j "is")
  from chain_step(4) show ?case
  proof cases
    case (chain_step j' js')
    then show ?thesis using \<open>s i = Some j\<close> \<open>\<And>js. chain s j js \<Longrightarrow> is = js\<close> by simp
  qed (use chain_step(1) in simp)
qed

lemma chain_hd: "chain s i is \<Longrightarrow> is \<noteq> [] \<and> hd is = i" by (erule chain.cases) simp_all

lemma chain_suffix: "chain s i is \<Longrightarrow> j \<in> set is \<Longrightarrow> \<exists>js. chain s j js \<and> length js \<le> length is \<and> set js \<subseteq> set is"
proof (induction rule: chain.induct)
  case (chain_end i)
  then have "j = i" by simp
  then show ?case using chain.chain_end [of s, OF chain_end(1)] by blast
next
  case (chain_step i k "is")
  show ?case
  proof (cases "j = i")
    case True
    then show ?thesis using chain.chain_step [OF chain_step(1,2)] by blast
  next
    case False
    then have "j \<in> set is" using chain_step(4) by simp
    then obtain js where "chain s j js" "length js \<le> length is" "set js \<subseteq> set is" using chain_step(3) by blast
    then show ?thesis by (intro exI [of _ js] conjI) (simp_all add: subset_insertI2)
  qed
qed

lemma chain_distinct: "chain s i is \<Longrightarrow> distinct is"
proof (induction rule: chain.induct)
  case (chain_step i j "is")
  have "i \<notin> set is"
  proof
    assume "i \<in> set is"
    then obtain js where js: "chain s i js" "length js \<le> length is" using chain_suffix [OF chain_step(2)] by blast
    have "js = i # is" by (rule chain_unique [OF js(1) chain.chain_step [OF chain_step(1,2)]])
    then show False using js(2) by simp
  qed
  then show ?case using chain_step(3) by simp
qed simp

lemma chain_bound: "chain s i is \<Longrightarrow> links_ok n s \<Longrightarrow> i < n \<Longrightarrow> set is \<subseteq> {..<n}"
proof (induction rule: chain.induct)
  case (chain_step i j "is")
  then have "j < n" unfolding links_ok_def by blast
  then show ?case using chain_step(3-5) by simp
qed simp

lemma chain_length: "links_ok n s \<Longrightarrow> chain s i is \<Longrightarrow> i < n \<Longrightarrow> length is \<le> n"
  using chain_bound [of s i "is" n] chain_distinct [of s i "is"] by (metis card_lessThan card_mono distinct_card finite_lessThan)

lemma links_chain: "links_ok n s \<Longrightarrow> i < n \<Longrightarrow> \<exists>is. chain s i is" by (simp add: links_ok_def)

lemma reach_self: "links_ok n s \<Longrightarrow> i < n \<Longrightarrow> reach s i i"
  using links_chain chain_hd unfolding reach_def by (metis hd_in_set)

lemma reach_bound: "links_ok n s \<Longrightarrow> reach s i j \<Longrightarrow> i < n \<Longrightarrow> j < n"
  using chain_bound [of s i _ n] unfolding reach_def by blast

text \<open>Linking a free node in behind another.\<close>

definition link_succ :: "nat \<Rightarrow> nat \<Rightarrow> (nat \<Rightarrow> nat option) \<Rightarrow> nat \<Rightarrow> nat option" where
  "link_succ n mp s = s(n := s mp, mp := Some n)"

lemma chain_link:
  assumes "n \<noteq> mp" "\<And>i. s i \<noteq> Some n"
  shows "chain s i is \<Longrightarrow> i \<noteq> n \<Longrightarrow> chain (link_succ n mp s) i (concat (map (\<lambda>j. if j = mp then [mp, n] else [j]) is))"
proof (induction rule: chain.induct)
  case (chain_end i)
  show ?case
  proof (cases "i = mp")
    case True
    have "chain (link_succ n mp s) n [n]" using True chain_end(1) assms(1) by (intro chain.chain_end) (simp add: link_succ_def)
    moreover have "link_succ n mp s i = Some n" using True by (simp add: link_succ_def)
    ultimately have "chain (link_succ n mp s) i [i, n]" by (rule chain.chain_step [rotated])
    then show ?thesis using True by simp
  next
    case False
    then have "link_succ n mp s i = None" using chain_end by (simp add: link_succ_def)
    then show ?thesis using False chain.chain_end [of "link_succ n mp s" i] by simp
  qed
next
  case (chain_step i j "is")
  then have "j \<noteq> n" using assms(2) by metis
  then have c: "chain (link_succ n mp s) j (concat (map (\<lambda>j. if j = mp then [mp, n] else [j]) is))" using chain_step by simp
  show ?case
  proof (cases "i = mp")
    case True
    then have "link_succ n mp s n = Some j" "link_succ n mp s i = Some n" using chain_step assms(1) by (simp_all add: link_succ_def)
    then have "chain (link_succ n mp s) i (i # n # concat (map (\<lambda>j. if j = mp then [mp, n] else [j]) is))"
      using c chain.chain_step by meson
    then show ?thesis using True by simp
  next
    case False
    then have "link_succ n mp s i = Some j" using chain_step by (simp add: link_succ_def)
    then show ?thesis using c False chain.chain_step by fastforce
  qed
qed

lemma link_succ_n: "link_succ n mp s n = (if n = mp then Some n else s mp)" by (simp add: link_succ_def)

lemma reach_link:
  assumes "n \<noteq> mp" "\<And>i. s i \<noteq> Some n" "reach s i j" "i \<noteq> n"
  shows "reach (link_succ n mp s) i j" "j = mp \<Longrightarrow> reach (link_succ n mp s) i n"
proof -
  obtain "is" where c: "chain s i is" "j \<in> set is" using assms(3) unfolding reach_def by blast
  note l = chain_link [OF assms(1,2) c(1) assms(4)]
  have "j \<in> set (concat (map (\<lambda>j. if j = mp then [mp, n] else [j]) is))" using c(2) by force
  then show "reach (link_succ n mp s) i j" using l unfolding reach_def by blast
  assume "j = mp"
  then have "n \<in> set (concat (map (\<lambda>j. if j = mp then [mp, n] else [j]) is))" using c(2) by force
  then show "reach (link_succ n mp s) i n" using l unfolding reach_def by blast
qed

lemma links_link:
  assumes l: "links_ok N s" and n: "n < N" "s n = None" "\<And>i. s i \<noteq> Some n" and mp: "mp < N" "n \<noteq> mp"
  shows "links_ok N (link_succ n mp s)"
proof -
  have inj: "i = j" if "i < N" "j < N" "s i = Some k" "s j = Some k" for i j k using l that unfolding links_ok_def by blast
  have bound: "j < N" if "i < N" "s i = Some j" for i j using l that unfolding links_ok_def by blast
  have range: "j < N" if "i < N" "link_succ n mp s i = Some j" for i j
    using bound that n(1) mp(1) unfolding link_succ_def by (auto split: if_splits)
  have inj': "i = j" if "i < N" "j < N" "link_succ n mp s i = Some k" "link_succ n mp s j = Some k" for i j k
    using inj [of i j k] inj [of i mp k] inj [of mp j k] that n(3) mp n(1) unfolding link_succ_def
    by (auto split: if_splits)
  have chains: "\<exists>is. chain (link_succ n mp s) i is" if i: "i < N" for i
  proof (cases "i = n")
    case False
    obtain "is" where "chain s i is" using links_chain [OF l i] by blast
    then show ?thesis using chain_link [of n mp s i "is", OF mp(2) n(3) _ False] by blast
  next
    case True
    have "reach (link_succ n mp s) mp n"
      by (rule reach_link(2) [OF mp(2) n(3) reach_self [OF l mp(1)] _ refl]) (use mp(2) in simp)
    then show ?thesis using True chain_suffix [of "link_succ n mp s" mp _ n] unfolding reach_def by blast
  qed
  show ?thesis unfolding links_ok_def using range inj' chains by blast
qed

text \<open>Moving a node to a free one.\<close>

definition move_succ :: "nat \<Rightarrow> nat \<Rightarrow> nat \<Rightarrow> (nat \<Rightarrow> nat option) \<Rightarrow> nat \<Rightarrow> nat option" where
  "move_succ n mp p s = s(p := Some n, n := s mp, mp := None)"

definition rename :: "nat \<Rightarrow> nat \<Rightarrow> nat \<Rightarrow> nat" where "rename mp n j = (if j = mp then n else j)"

lemma chain_move:
  assumes p: "s p = Some mp" "\<And>i. s i = Some mp \<Longrightarrow> i = p" and n: "\<And>i. s i \<noteq> Some n" and d: "n \<noteq> mp" "p \<noteq> mp" "p \<noteq> n"
  shows "chain s i is \<Longrightarrow> i \<noteq> n \<Longrightarrow> chain (move_succ n mp p s) (rename mp n i) (map (rename mp n) is)"
proof (induction rule: chain.induct)
  case (chain_end i)
  then have "i \<noteq> p" using p(1) by auto
  then have "move_succ n mp p s (rename mp n i) = None"
    using chain_end d by (cases "i = mp") (simp_all add: move_succ_def rename_def)
  then show ?case using chain.chain_end [of "move_succ n mp p s" "rename mp n i"] by simp
next
  case (chain_step i j "is")
  have j: "j \<noteq> n" using chain_step(1) n by metis
  have c: "chain (move_succ n mp p s) (rename mp n j) (map (rename mp n) is)" using chain_step(3) j by simp
  have "j = mp \<longleftrightarrow> i = p" using chain_step(1) p by (metis option.inject)
  then have "move_succ n mp p s (rename mp n i) = Some (rename mp n j)"
    using chain_step(1,4) d by (cases "i = mp"; cases "i = p") (simp_all add: move_succ_def rename_def)
  then show ?case using chain.chain_step [OF _ c] by simp
qed

lemma reach_move:
  assumes n: "\<And>i. s i \<noteq> Some n" and p: "s p = Some mp" "\<And>i. s i = Some mp \<Longrightarrow> i = p" "n \<noteq> mp" "p \<noteq> mp" "p \<noteq> n"
    and i: "reach s i j" "i \<noteq> n"
  shows "reach (move_succ n mp p s) (rename mp n i) (rename mp n j)"
proof -
  obtain "is" where c: "chain s i is" "j \<in> set is" using i(1) unfolding reach_def by blast
  have "rename mp n j \<in> set (map (rename mp n) is)" using c(2) by simp
  then show ?thesis using chain_move [OF p(1,2) n p(3-5) c(1) i(2)] unfolding reach_def by blast
qed

lemma links_move:
  assumes l: "links_ok N s" and n: "n < N" "s n = None" "\<And>i. s i \<noteq> Some n" and mp: "mp < N" "n \<noteq> mp"
    and p: "p < N" "s p = Some mp" "\<And>i. s i = Some mp \<Longrightarrow> i = p" "p \<noteq> mp"
  shows "links_ok N (move_succ n mp p s)"
proof -
  have inj: "i = j" if "i < N" "j < N" "s i = Some k" "s j = Some k" for i j k using l that unfolding links_ok_def by blast
  have bound: "j < N" if "i < N" "s i = Some j" for i j using l that unfolding links_ok_def by blast
  have pn: "p \<noteq> n" using n(2) p(2) by auto
  have range: "j < N" if "i < N" "move_succ n mp p s i = Some j" for i j
    using bound that n(1) mp(1) unfolding move_succ_def by (auto split: if_splits)
  have inj': "i = j" if "i < N" "j < N" "move_succ n mp p s i = Some k" "move_succ n mp p s j = Some k" for i j k
    using inj [of i j k] inj [of i mp k] inj [of mp j k] that n(3) mp n(1) unfolding move_succ_def
    by (auto split: if_splits)
  have chains: "\<exists>is. chain (move_succ n mp p s) i is" if i: "i < N" for i
  proof (cases "i = mp")
    case True
    then have "move_succ n mp p s i = None" by (simp add: move_succ_def)
    then show ?thesis using chain_end by blast
  next
    case False
    obtain "is" where c: "chain s (if i = n then mp else i) is" using links_chain [OF l] i mp(1) by (metis (full_types))
    have "(if i = n then mp else i) \<noteq> n" "rename mp n (if i = n then mp else i) = i" using False mp(2) by (auto simp: rename_def)
    then show ?thesis using chain_move [OF p(2,3) n(3) mp(2) p(4) pn c] by metis
  qed
  show ?thesis unfolding links_ok_def using range inj' chains by blast
qed


section \<open>The invariant of the nodes\<close>

definition succ :: "'v lua_node list \<Rightarrow> nat \<Rightarrow> nat option" where
  "succ ns i = (if i < length ns \<and> nd_next (ns ! i) \<noteq> 0 then Some (nat (int i + nd_next (ns ! i))) else None)"

definition home :: "'v lua_node list \<Rightarrow> nat \<Rightarrow> nat" where "home ns i = mainposition (length ns) (nd_key (ns ! i))"

text \<open>The offsets stay in the vector and form chains; an unused node is in no chain; a key is stored once, in the
  chain of its main position, and the node there holds a key of that main position.\<close>

definition nodes_ok :: "'v lua_node list \<Rightarrow> bool" where
  "nodes_ok ns \<longleftrightarrow> 0 < length ns \<and> length ns \<le> 2 ^ 26 \<and>
     (\<forall>i < length ns. 0 \<le> int i + nd_next (ns ! i)) \<and> links_ok (length ns) (succ ns) \<and>
     (\<forall>i < length ns. nd_key (ns ! i) = KNil \<longrightarrow> nd_val (ns ! i) = None \<and> nd_next (ns ! i) = 0 \<and> (\<forall>j. succ ns j \<noteq> Some i)) \<and>
     (\<forall>i < length ns. nd_key (ns ! i) \<noteq> KNil \<longrightarrow> good_key (nd_key (ns ! i)) \<and> reach (succ ns) (home ns i) i \<and>
        nd_key (ns ! home ns i) \<noteq> KNil \<and> home ns (home ns i) = home ns i) \<and>
     (\<forall>i < length ns. \<forall>j < length ns. nd_key (ns ! i) \<noteq> KNil \<and> canon (nd_key (ns ! i)) = canon (nd_key (ns ! j)) \<longrightarrow> i = j)"

lemma nodes_okD:
  assumes "nodes_ok ns"
  shows "0 < length ns" "length ns \<le> 2 ^ 26" "\<And>i. i < length ns \<Longrightarrow> 0 \<le> int i + nd_next (ns ! i)" "links_ok (length ns) (succ ns)"
    "\<And>i. i < length ns \<Longrightarrow> nd_key (ns ! i) = KNil \<Longrightarrow> nd_val (ns ! i) = None \<and> nd_next (ns ! i) = 0 \<and> (\<forall>j. succ ns j \<noteq> Some i)"
    "\<And>i. i < length ns \<Longrightarrow> nd_key (ns ! i) \<noteq> KNil \<Longrightarrow> good_key (nd_key (ns ! i)) \<and> reach (succ ns) (home ns i) i \<and>
        nd_key (ns ! home ns i) \<noteq> KNil \<and> home ns (home ns i) = home ns i"
    "\<And>i j. i < length ns \<Longrightarrow> j < length ns \<Longrightarrow> nd_key (ns ! i) \<noteq> KNil \<Longrightarrow> canon (nd_key (ns ! i)) = canon (nd_key (ns ! j)) \<Longrightarrow> i = j"
  using assms unfolding nodes_ok_def by blast+

lemma home_less: "nodes_ok ns \<Longrightarrow> home ns i < length ns"
  unfolding home_def using nodes_okD(1,2) [of ns] by (intro mainposition_less) auto

text \<open>Walking along a chain.\<close>

lemma find_node_chain:
  "chain (succ ns) i is \<Longrightarrow> (\<And>j. j < length ns \<Longrightarrow> 0 \<le> int j + nd_next (ns ! j)) \<Longrightarrow> set is \<subseteq> {..<length ns} \<Longrightarrow>
    length is \<le> fuel \<Longrightarrow> find_node fuel ns P i = Inr (find (\<lambda>j. P (nd_key (ns ! j))) is)"
proof (induction arbitrary: fuel rule: chain.induct)
  case (chain_end i)
  then obtain f where "fuel = Suc f" by (cases fuel) auto
  then show ?case using chain_end by (auto simp: succ_def Let_def split: if_splits)
next
  case (chain_step i j "is")
  obtain f where f: "fuel = Suc f" "length is \<le> f" using chain_step(6) by (cases fuel) auto
  have i: "i < length ns" using chain_step(5) by simp
  then have j: "nd_next (ns ! i) \<noteq> 0" "j = nat (int i + nd_next (ns ! i))"
    using chain_step(1) by (auto simp: succ_def split: if_splits)
  have "find_node f ns P j = Inr (find (\<lambda>j. P (nd_key (ns ! j))) is)" using chain_step(3-5) f(2) by simp
  then show ?case using f(1) i j chain_step(4) [OF i] by (simp add: Let_def)
qed

lemma find_previous_chain:
  "chain (succ ns) i is \<Longrightarrow> (\<And>j. j < length ns \<Longrightarrow> 0 \<le> int j + nd_next (ns ! j)) \<Longrightarrow> set is \<subseteq> {..<length ns} \<Longrightarrow>
    length is \<le> fuel \<Longrightarrow> mp \<in> set is \<Longrightarrow> i \<noteq> mp \<Longrightarrow> \<exists>p < length ns. find_previous fuel ns mp i = Inr p \<and> succ ns p = Some mp"
proof (induction arbitrary: fuel rule: chain.induct)
  case (chain_step i j "is")
  obtain f where f: "fuel = Suc f" "length is \<le> f" using chain_step(6) by (cases fuel) auto
  have i: "i < length ns" using chain_step(5) by simp
  then have j: "nd_next (ns ! i) \<noteq> 0" "int j = int i + nd_next (ns ! i)"
    using chain_step(1) chain_step(4) [OF i] by (auto simp: succ_def split: if_splits)
  show ?case
  proof (cases "j = mp")
    case True
    then show ?thesis using f(1) i j chain_step(1) by (intro exI [of _ i]) (simp add: Let_def)
  next
    case False
    have "find_previous fuel ns mp i = find_previous f ns mp j"
      using f(1) i False by (simp add: Let_def flip: j(2))
    then show ?thesis using chain_step(3) [OF chain_step(4) _ f(2) _ False] chain_step(5,7,8) by simp
  qed
qed simp

text \<open>What a search for a key returns: the node of the key, or nothing when no node holds it.\<close>

definition node_of :: "'v lua_node list \<Rightarrow> lua_key \<Rightarrow> nat option \<Rightarrow> bool" where
  "node_of ns k r \<longleftrightarrow> (case r of
       Some i \<Rightarrow> i < length ns \<and> nd_key (ns ! i) \<noteq> KNil \<and> canon (nd_key (ns ! i)) = canon k
     | None \<Rightarrow> \<forall>i < length ns. nd_key (ns ! i) \<noteq> KNil \<longrightarrow> canon (nd_key (ns ! i)) \<noteq> canon k)"

lemma find_node_correct:
  assumes ok: "nodes_ok ns" and k: "good_key k"
    and P: "\<And>k'. k' \<noteq> KNil \<Longrightarrow> good_key k' \<Longrightarrow> P k' \<longleftrightarrow> canon k' = canon k" "\<not> P KNil"
  shows "\<exists>r. find_node (length ns) ns P (mainposition (length ns) k) = Inr r \<and> node_of ns k r"
proof -
  note D = nodes_okD [OF ok]
  let ?m = "mainposition (length ns) k"
  have m: "?m < length ns" using D(1,2) by (intro mainposition_less) auto
  obtain "is" where c: "chain (succ ns) ?m is" using links_chain [OF D(4) m] by blast
  have b: "set is \<subseteq> {..<length ns}" "length is \<le> length ns" using chain_bound [OF c D(4) m] chain_length [OF D(4) c m] by auto
  let ?r = "find (\<lambda>j. P (nd_key (ns ! j))) is"
  have f: "find_node (length ns) ns P ?m = Inr ?r" using find_node_chain [OF c D(3) b] .
  have "node_of ns k ?r"
  proof (cases ?r)
    case (Some i)
    then obtain n where "n < length is" "P (nd_key (ns ! i))" "i = is ! n" unfolding find_Some_iff by blast
    then have i: "i < length ns" "P (nd_key (ns ! i))" using b(1) nth_mem [of n "is"] by blast+
    then have "nd_key (ns ! i) \<noteq> KNil" using P(2) by metis
    then show ?thesis using i P(1) D(6) unfolding Some node_of_def by auto
  next
    case None
    have "canon (nd_key (ns ! i)) \<noteq> canon k" if i: "i < length ns" "nd_key (ns ! i) \<noteq> KNil" for i
    proof
      assume e: "canon (nd_key (ns ! i)) = canon k"
      then have h: "home ns i = ?m" unfolding home_def by (rule canon_eq_mainposition)
      have "reach (succ ns) ?m i" "good_key (nd_key (ns ! i))" using D(6) [OF i] h by simp_all
      then have "i \<in> set is" using chain_unique [OF c] unfolding reach_def by metis
      moreover have "P (nd_key (ns ! i))" using P(1) [OF i(2) \<open>good_key (nd_key (ns ! i))\<close>] e by simp
      ultimately show False using None unfolding find_None_iff by blast
    qed
    then show ?thesis unfolding None node_of_def by simp
  qed
  then show ?thesis using f by blast
qed

section \<open>Inserting\<close>

definition lastfree_ok :: "'v lua_node list \<Rightarrow> int \<Rightarrow> bool" where
  "lastfree_ok ns f \<longleftrightarrow> f \<le> int (length ns) \<and> (\<forall>i < length ns. f \<le> int i \<longrightarrow> nd_key (ns ! i) \<noteq> KNil)"

lemma free_loop_correct:
  "free_loop ns f = (f', r) \<Longrightarrow> (case r of None \<Rightarrow> f' = 0 \<and> (\<forall>i < f. nd_key (ns ! i) \<noteq> KNil)
     | Some n \<Rightarrow> n = f' \<and> n < f \<and> nd_key (ns ! n) = KNil \<and> (\<forall>i. n < i \<and> i < f \<longrightarrow> nd_key (ns ! i) \<noteq> KNil))"
proof (induction f)
  case (Suc f)
  show ?case
  proof (cases "nd_key (ns ! f) = KNil")
    case True
    then show ?thesis using Suc.prems by auto
  next
    case False
    then have "free_loop ns f = (f', r)" using Suc.prems by simp
    from Suc.IH [OF this] show ?thesis using False by (auto split: option.splits simp: less_Suc_eq)
  qed
qed auto

lemma getfreepos_correct:
  assumes "lastfree_ok ns f"
  shows "\<exists>f' r. getfreepos ns f = Inr (f', r) \<and> (case r of None \<Rightarrow> (\<forall>i < length ns. nd_key (ns ! i) \<noteq> KNil) \<and> lastfree_ok ns f'
     | Some n \<Rightarrow> f' = int n \<and> n < length ns \<and> nd_key (ns ! n) = KNil \<and> (\<forall>i < length ns. n < i \<longrightarrow> nd_key (ns ! i) \<noteq> KNil))"
proof (cases "f > 0")
  case False
  then have "\<forall>i < length ns. nd_key (ns ! i) \<noteq> KNil" using assms by (simp add: lastfree_ok_def)
  then show ?thesis using False assms by (simp add: getfreepos_def)
next
  case True
  obtain f' r where l: "free_loop ns (nat f) = (f', r)" by fastforce
  have "nat f \<le> length ns" using assms unfolding lastfree_ok_def by linarith
  then have g: "getfreepos ns f = Inr (int f', r)" using True l by (simp add: getfreepos_def)
  have high: "nd_key (ns ! i) \<noteq> KNil" if "i < length ns" "nat f \<le> i" for i using assms that by (auto simp: lastfree_ok_def)
  show ?thesis
  proof (cases r)
    case None
    then have "f' = 0" "\<forall>i < length ns. nd_key (ns ! i) \<noteq> KNil"
      using free_loop_correct [OF l] high by (auto simp: not_less [symmetric])
    then show ?thesis using g None by (simp add: lastfree_ok_def)
  next
    case (Some n)
    then have "n = f'" "n < nat f" "nd_key (ns ! n) = KNil" "\<forall>i. n < i \<and> i < nat f \<longrightarrow> nd_key (ns ! i) \<noteq> KNil"
      using free_loop_correct [OF l] Some by auto
    moreover have "\<forall>i < length ns. n < i \<longrightarrow> nd_key (ns ! i) \<noteq> KNil" using calculation(4) high by (meson not_le)
    ultimately show ?thesis using g Some \<open>nat f \<le> length ns\<close> by simp
  qed
qed

lemma set_next_simps [simp]: "nd_key (set_next d x) = nd_key x" "nd_val (set_next d x) = nd_val x"
  by (simp_all add: set_next_def)

lemma set_next_next: "\<bar>d\<bar> \<le> 2 ^ 26 \<Longrightarrow> nd_next (set_next d x) = d"
  by (simp add: set_next_def signed_of_int signed_take_bit_int_eq_self)

text \<open>The invariant from descriptions of the keys and links.\<close>

lemma nodes_okI:
  assumes "0 < length ns" "length ns \<le> 2 ^ 26" "\<And>i. i < length ns \<Longrightarrow> 0 \<le> int i + nd_next (ns ! i)" "links_ok (length ns) (succ ns)"
    "\<And>i. i < length ns \<Longrightarrow> nd_key (ns ! i) = KNil \<Longrightarrow> nd_val (ns ! i) = None \<and> nd_next (ns ! i) = 0 \<and> (\<forall>j. succ ns j \<noteq> Some i)"
    "\<And>i. i < length ns \<Longrightarrow> nd_key (ns ! i) \<noteq> KNil \<Longrightarrow> good_key (nd_key (ns ! i)) \<and> reach (succ ns) (home ns i) i \<and>
        nd_key (ns ! home ns i) \<noteq> KNil \<and> home ns (home ns i) = home ns i"
    "\<And>i j. i < length ns \<Longrightarrow> j < length ns \<Longrightarrow> nd_key (ns ! i) \<noteq> KNil \<Longrightarrow> canon (nd_key (ns ! i)) = canon (nd_key (ns ! j)) \<Longrightarrow> i = j"
  shows "nodes_ok ns"
  using assms unfolding nodes_ok_def by blast

lemma link_node_correct:
  assumes ok: "nodes_ok ns" and n: "n < length ns" "nd_key (ns ! n) = KNil" and mp: "mp < length ns" "mp \<noteq> n"
  shows "\<exists>ns'. link_node ns n mp = Inr ns' \<and> length ns' = length ns \<and> succ ns' = link_succ n mp (succ ns) \<and>
    (\<forall>i. nd_key (ns' ! i) = nd_key (ns ! i) \<and> nd_val (ns' ! i) = nd_val (ns ! i)) \<and>
    (\<forall>i. i \<noteq> n \<and> i \<noteq> mp \<longrightarrow> nd_next (ns' ! i) = nd_next (ns ! i)) \<and> (\<forall>i < length ns. 0 \<le> int i + nd_next (ns' ! i))"
proof -
  note D = nodes_okD [OF ok]
  have free: "nd_next (ns ! n) = 0" "\<And>j. succ ns j \<noteq> Some n" using D(5) [OF n] by auto
  let ?d = "int mp + nd_next (ns ! mp) - int n"
  let ?a = "if nd_next (ns ! mp) \<noteq> 0 then ns[n := set_next ?d (ns ! n)] else ns"
  let ?ns = "?a[mp := set_next (int n - int mp) (?a ! mp)]"
  have e: "link_node ns n mp = Inr ?ns" using free(1) by (simp add: link_node_def Let_def)
  have N: "int (length ns) \<le> 2 ^ 26" using D(2) by (metis of_nat_le_iff of_nat_numeral of_nat_power)
  have b: "\<bar>int n - int mp\<bar> \<le> 2 ^ 26" using n(1) mp(1) N by linarith
  have am: "?a ! mp = ns ! mp" using mp by simp
  have nm: "nd_next (?ns ! mp) = int n - int mp" using mp b by (simp add: set_next_next)
  have nn: "nd_next (?ns ! n) = (if nd_next (ns ! mp) \<noteq> 0 then ?d else 0) \<and> (nd_next (ns ! mp) \<noteq> 0 \<longrightarrow> ?d \<noteq> 0 \<and> 0 \<le> int mp + nd_next (ns ! mp))"
  proof (cases "nd_next (ns ! mp) = 0")
    case False
    then have s: "succ ns mp = Some (nat (int mp + nd_next (ns ! mp)))" using mp(1) by (simp add: succ_def)
    then have "nat (int mp + nd_next (ns ! mp)) < length ns" using D(4) mp(1) unfolding links_ok_def by blast
    then have "\<bar>?d\<bar> \<le> 2 ^ 26" using n(1) N D(3) [OF mp(1)] by linarith
    moreover have "nat (int mp + nd_next (ns ! mp)) \<noteq> n" using s free(2) by metis
    ultimately show ?thesis using False mp n(1) D(3) [OF mp(1)] by (simp add: set_next_next)
  qed (use mp free(1) in simp)
  have other: "?ns ! i = ns ! i" if "i \<noteq> n" "i \<noteq> mp" for i using that by simp
  have "succ ?ns i = link_succ n mp (succ ns) i" for i
  proof -
    consider "i = n" | "i = mp" | "i \<noteq> n" "i \<noteq> mp" by blast
    then show ?thesis
    proof cases
      case 1
      then show ?thesis using nn mp n(1) by (auto simp: succ_def link_succ_def)
    next
      case 2
      then show ?thesis using nm mp by (auto simp: succ_def link_succ_def)
    next
      case 3
      then show ?thesis using other by (simp add: succ_def link_succ_def)
    qed
  qed
  then have "succ ?ns = link_succ n mp (succ ns)" by blast
  moreover have "nd_key (?ns ! i) = nd_key (ns ! i) \<and> nd_val (?ns ! i) = nd_val (ns ! i)" for i
    using mp n(1) by (simp add: nth_list_update)
  moreover have "0 \<le> int i + nd_next (?ns ! i)" if "i < length ns" for i
    using other [of i] nm nn D(3) [OF that] by (cases "i = n"; cases "i = mp") (simp_all split: if_splits)
  ultimately show ?thesis using e other by (intro exI [of _ ?ns]) simp
qed

lemma move_node_correct:
  assumes ok: "nodes_ok ns" and n: "n < length ns" "nd_key (ns ! n) = KNil" and mp: "mp < length ns" "mp \<noteq> n"
    and p: "p < length ns" "succ ns p = Some mp" "p \<noteq> mp"
  shows "length (move_node ns n mp p) = length ns \<and> succ (move_node ns n mp p) = move_succ n mp p (succ ns) \<and>
    (\<forall>i. nd_key (move_node ns n mp p ! i) = (if i = n then nd_key (ns ! mp) else nd_key (ns ! i))) \<and>
    (\<forall>i. nd_val (move_node ns n mp p ! i) = (if i = n then nd_val (ns ! mp) else if i = mp then None else nd_val (ns ! i))) \<and>
    (\<forall>i. i \<noteq> n \<and> i \<noteq> mp \<and> i \<noteq> p \<longrightarrow> nd_next (move_node ns n mp p ! i) = nd_next (ns ! i)) \<and>
    (\<forall>i < length ns. 0 \<le> int i + nd_next (move_node ns n mp p ! i))"
proof -
  note D = nodes_okD [OF ok]
  have free: "nd_next (ns ! n) = 0" "\<And>j. succ ns j \<noteq> Some n" using D(5) [OF n] by auto
  have pn: "p \<noteq> n" using p(2) free(1) by (auto simp: succ_def)
  have N: "int (length ns) \<le> 2 ^ 26" using D(2) by (metis of_nat_le_iff of_nat_numeral of_nat_power)
  let ?e = "nd_next (ns ! mp)"
  let ?a = "ns[p := set_next (int n - int p) (ns ! p)]"
  let ?b = "?a[n := ?a ! mp]"
  let ?c = "if ?e \<noteq> 0 then (?b[n := set_next (?e + (int mp - int n)) (?b ! n)])[mp := set_next 0 (?b ! mp)] else ?b"
  let ?ns = "?c[mp := (?c ! mp)\<lparr>nd_val := None\<rparr>]"
  have bmp: "?b ! mp = ns ! mp" "?b ! n = ns ! mp" using mp(2) p(3) n(1) pn by simp_all
  have e: "move_node ns n mp p = ?ns"
    unfolding move_node_def Let_def bmp using mp(2) p(3) by simp
  have ex: "?e \<noteq> 0 \<longrightarrow> 0 \<le> int mp + ?e \<and> int mp + ?e < int (length ns) \<and> int mp + ?e \<noteq> int n"
  proof
    assume ne: "?e \<noteq> 0"
    then have s: "succ ns mp = Some (nat (int mp + ?e))" using mp(1) by (simp add: succ_def)
    then have "nat (int mp + ?e) < length ns" using D(4) mp(1) unfolding links_ok_def by blast
    moreover have "nat (int mp + ?e) \<noteq> n" using s free(2) by metis
    ultimately show "0 \<le> int mp + ?e \<and> int mp + ?e < int (length ns) \<and> int mp + ?e \<noteq> int n" using D(3) [OF mp(1)] by auto
  qed
  obtain ms where ms: "ms = ?ns" by blast
  have len: "length ms = length ns" by (simp add: ms)
  have nP: "nd_next (ms ! p) = int n - int p" "nd_key (ms ! p) = nd_key (ns ! p)" "nd_val (ms ! p) = nd_val (ns ! p)"
    unfolding ms using p(1,3) pn N n(1) by (simp_all add: set_next_next)
  have "\<bar>?e + (int mp - int n)\<bar> \<le> 2 ^ 26" if "?e \<noteq> 0" using ex that n(1) mp(1) N by linarith
  then have nN: "nd_next (ms ! n) = (if ?e \<noteq> 0 then ?e + (int mp - int n) else 0)" "nd_key (ms ! n) = nd_key (ns ! mp)"
      "nd_val (ms ! n) = nd_val (ns ! mp)"
    unfolding ms using n(1) mp p(3) pn by (simp_all add: set_next_next)
  have nM: "nd_next (ms ! mp) = 0" "nd_key (ms ! mp) = nd_key (ns ! mp)" "nd_val (ms ! mp) = None"
    unfolding ms using n(1) mp p(3) pn by (simp_all add: set_next_next)
  have other: "ms ! i = ns ! i" if "i \<noteq> n" "i \<noteq> mp" "i \<noteq> p" for i unfolding ms using that by simp
  have "succ ms i = move_succ n mp p (succ ns) i" for i
  proof -
    consider "i = n" | "i = mp" | "i = p" | "i \<noteq> n" "i \<noteq> mp" "i \<noteq> p" by blast
    then show ?thesis
    proof cases
      case 1
      then show ?thesis using nN(1) mp n(1) ex by (auto simp: succ_def move_succ_def len)
    next
      case 2
      then show ?thesis using nM(1) mp by (simp add: succ_def move_succ_def len)
    next
      case 3
      then show ?thesis using nP(1) p(1,3) pn by (simp add: succ_def move_succ_def len)
    next
      case 4
      then show ?thesis using other by (simp add: succ_def move_succ_def len)
    qed
  qed
  then have s: "succ ms = move_succ n mp p (succ ns)" by blast
  have k: "nd_key (ms ! i) = (if i = n then nd_key (ns ! mp) else nd_key (ns ! i))" for i
    using nN(2) nM(2) nP(2) other [of i] by metis
  have v: "nd_val (ms ! i) = (if i = n then nd_val (ns ! mp) else if i = mp then None else nd_val (ns ! i))" for i
    using nN(3) nM(3) nP(3) other [of i] by metis
  have pos: "0 \<le> int i + nd_next (ms ! i)" if "i < length ns" for i
  proof -
    consider "i = n" | "i = mp" | "i = p" | "i \<noteq> n" "i \<noteq> mp" "i \<noteq> p" by blast
    then show ?thesis
    proof cases
      case 1
      then show ?thesis using nN(1) ex by (cases "?e = 0") auto
    next
      case 4
      then show ?thesis using other D(3) [OF that] by simp
    next
      case 2
      then show ?thesis using nM(1) by (simp only: add_0_right of_nat_0_le_iff)
    next
      case 3
      then show ?thesis using nP(1) by simp
    qed
  qed
  have nx: "nd_next (ms ! i) = nd_next (ns ! i)" if "i \<noteq> n" "i \<noteq> mp" "i \<noteq> p" for i using other [OF that] by simp
  show ?thesis unfolding e ms [symmetric] using len s k v pos nx by simp
qed

text \<open>The entries of the hash part.\<close>

definition entries :: "'v lua_node list \<Rightarrow> (lua_key \<times> 'v) set" where
  "entries ns = {(nd_key (ns ! i), v) | i v. i < length ns \<and> nd_val (ns ! i) = Some v}"

lemma entries_eqI:
  assumes "length ns' = length ns"
    "\<And>i v. i < length ns \<Longrightarrow> nd_val (ns' ! i) = Some v \<Longrightarrow> \<exists>j < length ns. nd_key (ns' ! i) = nd_key (ns ! j) \<and> nd_val (ns ! j) = Some v"
    "\<And>i v. i < length ns \<Longrightarrow> nd_val (ns ! i) = Some v \<Longrightarrow> \<exists>j < length ns. nd_key (ns ! i) = nd_key (ns' ! j) \<and> nd_val (ns' ! j) = Some v"
  shows "entries ns' = entries ns"
proof (intro equalityI subsetI)
  fix e assume "e \<in> entries ns'"
  then obtain i v where "e = (nd_key (ns' ! i), v)" "i < length ns" "nd_val (ns' ! i) = Some v" using assms(1) unfolding entries_def by auto
  then show "e \<in> entries ns" using assms(2) [of i v] unfolding entries_def by auto
next
  fix e assume "e \<in> entries ns"
  then obtain i v where "e = (nd_key (ns ! i), v)" "i < length ns" "nd_val (ns ! i) = Some v" unfolding entries_def by auto
  then show "e \<in> entries ns'" using assms(1) assms(3) [of i v] unfolding entries_def by auto
qed

lemma entries_same:
  assumes "length ns' = length ns" "\<And>i. i < length ns \<Longrightarrow> nd_val (ns' ! i) = nd_val (ns ! i)"
    "\<And>i. i < length ns \<Longrightarrow> nd_val (ns ! i) \<noteq> None \<Longrightarrow> nd_key (ns' ! i) = nd_key (ns ! i)"
  shows "entries ns' = entries ns"
  by (rule entries_eqI [OF assms(1)]) (use assms(2,3) in force)+

definition inserted :: "'v lua_node list \<Rightarrow> lua_key \<Rightarrow> 'v lua_node list \<Rightarrow> nat \<Rightarrow> bool" where
  "inserted ns k ns' i \<longleftrightarrow> nodes_ok ns' \<and> length ns' = length ns \<and> i < length ns' \<and> nd_key (ns' ! i) = k \<and> nd_val (ns' ! i) = None \<and>
     entries ns' = entries ns \<and> (\<forall>j < length ns. nd_key (ns ! j) \<noteq> KNil \<longrightarrow> nd_key (ns' ! j) \<noteq> KNil) \<and>
     (\<forall>j < length ns. nd_key (ns' ! j) = k \<or> nd_key (ns' ! j) \<in> nd_key ` set ns) \<and>
     (\<exists>x. \<forall>j < length ns. nd_key (ns' ! j) \<noteq> KNil \<longrightarrow> j = x \<or> nd_key (ns ! j) \<noteq> KNil)"

lemma insertedI:
  assumes "nodes_ok ns'" "entries ns' = entries ns" "length ns' = length ns" "i < length ns" "nd_key (ns' ! i) = k" "nd_val (ns' ! i) = None"
    "\<And>j. j < length ns \<Longrightarrow> nd_key (ns ! j) \<noteq> KNil \<Longrightarrow> nd_key (ns' ! j) \<noteq> KNil"
    "\<And>j. j < length ns \<Longrightarrow> nd_key (ns' ! j) = k \<or> (\<exists>j' < length ns. nd_key (ns' ! j) = nd_key (ns ! j'))"
    "\<And>j. j < length ns \<Longrightarrow> nd_key (ns' ! j) \<noteq> KNil \<Longrightarrow> j = x \<or> nd_key (ns ! j) \<noteq> KNil"
  shows "inserted ns k ns' i"
proof -
  have "nd_key (ns' ! j) = k \<or> nd_key (ns' ! j) \<in> nd_key ` set ns" if "j < length ns" for j
    using assms(8) [OF that] nth_mem by fastforce
  moreover have "\<exists>x. \<forall>j < length ns. nd_key (ns' ! j) \<noteq> KNil \<longrightarrow> j = x \<or> nd_key (ns ! j) \<noteq> KNil"
    using assms(9) by (intro exI [of _ x] allI impI)
  ultimately show ?thesis unfolding inserted_def using assms(1-7) by simp
qed

definition fresh :: "'v lua_node list \<Rightarrow> lua_key \<Rightarrow> bool" where
  "fresh ns k \<longleftrightarrow> (\<forall>i < length ns. nd_key (ns ! i) \<noteq> KNil \<longrightarrow> canon (nd_key (ns ! i)) \<noteq> canon k)"

lemma good_not_nil: "good_key k \<Longrightarrow> k \<noteq> KNil" by auto

lemma insert_here:
  assumes ok: "nodes_ok ns" and k: "good_key k" "fresh ns k" and mp: "mp = mainposition (length ns) k" "nd_val (ns ! mp) = None"
  shows "inserted ns k (ns[mp := (ns ! mp)\<lparr>nd_key := k\<rparr>]) mp"
proof -
  note D = nodes_okD [OF ok]
  let ?ns = "ns[mp := (ns ! mp)\<lparr>nd_key := k\<rparr>]"
  have m: "mp < length ns" unfolding mp(1) using D(1,2) by (intro mainposition_less) auto
  have nx: "nd_next (?ns ! i) = nd_next (ns ! i)" for i using m by (simp add: nth_list_update)
  have s: "succ ?ns = succ ns" by (rule ext) (simp add: succ_def nx)
  have ky: "nd_key (?ns ! i) = (if i = mp then k else nd_key (ns ! i))" for i using m by (simp add: nth_list_update)
  have vl: "nd_val (?ns ! i) = nd_val (ns ! i)" for i using m by (simp add: nth_list_update)
  have kn: "k \<noteq> KNil" using k(1) by (rule good_not_nil)
  have h: "home ?ns i = (if i = mp then mp else home ns i)" for i using ky mp(1) by (simp add: home_def)
  have "nodes_ok ?ns"
  proof (rule nodes_okI)
    fix i assume i: "i < length ?ns" "nd_key (?ns ! i) \<noteq> KNil"
    show "good_key (nd_key (?ns ! i)) \<and> reach (succ ?ns) (home ?ns i) i \<and> nd_key (?ns ! home ?ns i) \<noteq> KNil \<and> home ?ns (home ?ns i) = home ?ns i"
    proof (cases "i = mp")
      case True
      then show ?thesis using k(1) kn reach_self [OF D(4) m] h ky unfolding s by simp
    next
      case False
      then have "nd_key (ns ! i) \<noteq> KNil" "i < length ns" using i ky by simp_all
      then show ?thesis using D(6) [of i] False h ky kn unfolding s by simp
    qed
  next
    fix i j assume i: "i < length ?ns" "j < length ?ns" "nd_key (?ns ! i) \<noteq> KNil" "canon (nd_key (?ns ! i)) = canon (nd_key (?ns ! j))"
    have "nd_key (?ns ! j) \<noteq> KNil" using canon_eq_good [OF i(4)] i(3) D(6) k(1) i(1) unfolding ky by (auto split: if_splits)
    then show "i = j" using i D(7) [of i j] k(2) unfolding ky fresh_def by (auto split: if_splits)
  next
    fix i assume i: "i < length ?ns" "nd_key (?ns ! i) = KNil"
    then have "i \<noteq> mp" "nd_key (ns ! i) = KNil" "i < length ns" using kn ky by (simp_all split: if_splits)
    then show "nd_val (?ns ! i) = None \<and> nd_next (?ns ! i) = 0 \<and> (\<forall>j. succ ?ns j \<noteq> Some i)"
      using D(5) unfolding nx s vl by blast
  next
    show "links_ok (length ?ns) (succ ?ns)" unfolding s using D(4) by simp
  next
    show "0 \<le> int i + nd_next (?ns ! i)" if "i < length ?ns" for i unfolding nx using D(3) that by simp
  qed (use D(1,2) in simp_all)
  moreover have "entries ?ns = entries ns"
    using mp(2) vl ky by (intro entries_same) auto
  ultimately show ?thesis
    by (rule insertedI [where x = mp]) (use m mp(2) kn ky vl in \<open>auto split: if_splits\<close>)
qed

lemma insert_linked:
  assumes ok: "nodes_ok ns" and k: "good_key k" "fresh ns k" and mp: "mp = mainposition (length ns) k" "nd_val (ns ! mp) \<noteq> None"
    and h: "home ns mp = mp" and n: "n < length ns" "nd_key (ns ! n) = KNil"
  shows "\<exists>ns' ns''. link_node ns n mp = Inr ns' \<and> set_node_key k ns' n = Inr (ns'', n) \<and> inserted ns k ns'' n"
proof -
  note D = nodes_okD [OF ok]
  have m: "mp < length ns" unfolding mp(1) using D(1,2) by (intro mainposition_less) auto
  have km: "nd_key (ns ! mp) \<noteq> KNil" using D(5) [OF m] mp(2) by blast
  then have mn: "mp \<noteq> n" using n(2) by auto
  have free: "nd_val (ns ! n) = None" "\<And>j. succ ns j \<noteq> Some n" "succ ns n = None" using D(5) [OF n] by (auto simp: succ_def)
  obtain ns' where l: "link_node ns n mp = Inr ns'" "length ns' = length ns" "succ ns' = link_succ n mp (succ ns)"
      "\<And>i. nd_key (ns' ! i) = nd_key (ns ! i)" "\<And>i. nd_val (ns' ! i) = nd_val (ns ! i)"
      "\<And>i. i \<noteq> n \<Longrightarrow> i \<noteq> mp \<Longrightarrow> nd_next (ns' ! i) = nd_next (ns ! i)" "\<And>i. i < length ns \<Longrightarrow> 0 \<le> int i + nd_next (ns' ! i)"
    using link_node_correct [OF ok n m mn] by blast
  define ms where "ms = ns'[n := (ns' ! n)\<lparr>nd_key := k\<rparr>]"
  have len: "length ms = length ns" by (simp add: ms_def l(2))
  have nx: "nd_next (ms ! i) = nd_next (ns' ! i)" for i unfolding ms_def using n(1) l(2) by (simp add: nth_list_update)
  have s: "succ ms = link_succ n mp (succ ns)" unfolding l(3) [symmetric] by (rule ext) (simp add: succ_def nx len l(2))
  have ky: "nd_key (ms ! i) = (if i = n then k else nd_key (ns ! i))" for i
    unfolding ms_def using n(1) l(2,4) by (simp add: nth_list_update)
  have vl: "nd_val (ms ! i) = nd_val (ns ! i)" for i unfolding ms_def using n(1) l(2,5) by (simp add: nth_list_update)
  have kn: "k \<noteq> KNil" using k(1) by (rule good_not_nil)
  have hm: "home ms i = (if i = n then mp else home ns i)" for i using ky mp(1) len by (simp add: home_def)
  have "nodes_ok ms"
  proof (rule nodes_okI)
    show "0 \<le> int i + nd_next (ms ! i)" if "i < length ms" for i using l(7) that len nx by simp
    show "links_ok (length ms) (succ ms)" unfolding s len using links_link [OF D(4) n(1) free(3,2) m] mn by metis
    fix i assume i: "i < length ms"
    show "nd_val (ms ! i) = None \<and> nd_next (ms ! i) = 0 \<and> (\<forall>j. succ ms j \<noteq> Some i)" if "nd_key (ms ! i) = KNil"
    proof -
      have "i \<noteq> n" "nd_key (ns ! i) = KNil" using that kn ky by (auto split: if_splits)
      moreover have "i \<noteq> mp" using calculation km by auto
      ultimately show ?thesis using D(5) [of i] i len nx l(6) vl unfolding s link_succ_def by auto
    qed
    assume ki: "nd_key (ms ! i) \<noteq> KNil"
    show "good_key (nd_key (ms ! i)) \<and> reach (succ ms) (home ms i) i \<and> nd_key (ms ! home ms i) \<noteq> KNil \<and> home ms (home ms i) = home ms i"
    proof (cases "i = n")
      case True
      have "reach (succ ms) mp n" unfolding s
        by (rule reach_link(2) [OF mn [symmetric] free(2) reach_self [OF D(4) m] mn refl])
      then show ?thesis using True k(1) hm h ky km mn by simp
    next
      case False
      then have "nd_key (ns ! i) \<noteq> KNil" using ki ky by simp
      then have d: "good_key (nd_key (ns ! i))" "reach (succ ns) (home ns i) i" "nd_key (ns ! home ns i) \<noteq> KNil" "home ns (home ns i) = home ns i"
        using D(6) [of i] i len by simp_all
      have hn: "home ns i \<noteq> n" using d(3) n(2) by auto
      then have "reach (succ ms) (home ns i) i" unfolding s by (intro reach_link(1) [OF mn [symmetric] free(2) d(2)])
      then show ?thesis using False d hn hm ky by simp
    qed
  next
    fix i j assume i: "i < length ms" "j < length ms" "nd_key (ms ! i) \<noteq> KNil" "canon (nd_key (ms ! i)) = canon (nd_key (ms ! j))"
    have "good_key (nd_key (ms ! i))" using i(1,3) D(6) k(1) unfolding ky len by (auto split: if_splits)
    then have "nd_key (ms ! j) \<noteq> KNil" using canon_eq_good [OF i(4)] by auto
    then show "i = j" using i D(7) [of i j] k(2) unfolding ky fresh_def len by (auto split: if_splits)
  qed (use D(1,2) len in simp_all)
  moreover have "entries ms = entries ns"
    using free(1) vl ky len by (intro entries_same) auto
  ultimately have "inserted ns k ms n"
    by (rule insertedI [where x = n]) (use n(1) free(1) kn ky vl len in \<open>auto split: if_splits\<close>)
  moreover have "set_node_key k ns' n = Inr (ms, n)" using vl [of n] free(1) by (simp add: set_node_key_def ms_def Let_def)
  ultimately show ?thesis using l(1) by blast
qed

lemma insert_moved:
  assumes ok: "nodes_ok ns" and k: "good_key k" "fresh ns k" and mp: "mp = mainposition (length ns) k" "nd_val (ns ! mp) \<noteq> None"
    and h: "home ns mp \<noteq> mp" and n: "n < length ns" "nd_key (ns ! n) = KNil"
  shows "\<exists>p ns'. find_previous (Suc (length ns)) ns mp (home ns mp) = Inr p \<and> set_node_key k (move_node ns n mp p) mp = Inr (ns', mp) \<and>
    inserted ns k ns' mp \<and> nd_key (ns' ! n) \<noteq> KNil"
proof -
  note D = nodes_okD [OF ok]
  have m: "mp < length ns" unfolding mp(1) using D(1,2) by (intro mainposition_less) auto
  have km: "nd_key (ns ! mp) \<noteq> KNil" using D(5) [OF m] mp(2) by blast
  then have mn: "mp \<noteq> n" using n(2) by auto
  have free: "nd_val (ns ! n) = None" "\<And>j. succ ns j \<noteq> Some n" "succ ns n = None" using D(5) [OF n] by (auto simp: succ_def)
  note hmp = D(6) [OF m km]
  let ?o = "home ns mp"
  have o: "?o < length ns" using home_less [OF ok] .
  obtain "is" where c: "chain (succ ns) ?o is" "mp \<in> set is" using hmp unfolding reach_def by blast
  have b: "set is \<subseteq> {..<length ns}" "length is \<le> Suc (length ns)"
    using chain_bound [OF c(1) D(4) o] chain_length [OF D(4) c(1) o] by auto
  obtain p where p: "p < length ns" "find_previous (Suc (length ns)) ns mp ?o = Inr p" "succ ns p = Some mp"
    using find_previous_chain [OF c(1) D(3) b c(2) h] by blast
  have pu: "i = p" if "succ ns i = Some mp" for i
  proof -
    have "i < length ns" using that by (auto simp: succ_def split: if_splits)
    then show ?thesis using D(4) p(1,3) that unfolding links_ok_def by blast
  qed
  have pm: "p \<noteq> mp"
  proof
    assume "p = mp"
    then have "succ ns mp = Some mp" using p(3) by simp
    obtain js where js: "chain (succ ns) mp js" using links_chain [OF D(4) m] by blast
    have "chain (succ ns) mp (mp # js)" by (rule chain_step [of "succ ns", OF \<open>succ ns mp = Some mp\<close> js])
    then show False using chain_unique [OF js] by fastforce
  qed
  have pn: "p \<noteq> n" using p(3) free(3) by auto
  define ns' where "ns' = move_node ns n mp p"
  have l: "length ns' = length ns" "succ ns' = move_succ n mp p (succ ns)"
      "\<And>i. nd_key (ns' ! i) = (if i = n then nd_key (ns ! mp) else nd_key (ns ! i))"
      "\<And>i. nd_val (ns' ! i) = (if i = n then nd_val (ns ! mp) else if i = mp then None else nd_val (ns ! i))"
      "\<And>i. i \<noteq> n \<Longrightarrow> i \<noteq> mp \<Longrightarrow> i \<noteq> p \<Longrightarrow> nd_next (ns' ! i) = nd_next (ns ! i)" "\<And>i. i < length ns \<Longrightarrow> 0 \<le> int i + nd_next (ns' ! i)"
    using move_node_correct [OF ok n m mn p(1,3) pm] unfolding ns'_def by blast+
  define ms where "ms = ns'[mp := (ns' ! mp)\<lparr>nd_key := k\<rparr>]"
  have len: "length ms = length ns" by (simp add: ms_def l(1))
  have nx: "nd_next (ms ! i) = nd_next (ns' ! i)" for i unfolding ms_def using m l(1) by (simp add: nth_list_update)
  have s: "succ ms = move_succ n mp p (succ ns)" unfolding l(2) [symmetric] by (rule ext) (simp add: succ_def nx len l(1))
  have ky: "nd_key (ms ! i) = (if i = mp then k else if i = n then nd_key (ns ! mp) else nd_key (ns ! i))" for i
    unfolding ms_def using m l(1,3) by (simp add: nth_list_update)
  have vl: "nd_val (ms ! i) = (if i = n then nd_val (ns ! mp) else if i = mp then None else nd_val (ns ! i))" for i
    unfolding ms_def using m l(1,4) by (simp add: nth_list_update)
  have kn: "k \<noteq> KNil" using k(1) by (rule good_not_nil)
  have hm: "home ms i = (if i = mp then mp else if i = n then ?o else home ns i)" for i
    using ky mp(1) len by (simp add: home_def)
  have ok': "?o \<noteq> n" "nd_key (ns ! ?o) \<noteq> KNil" using hmp n(2) by auto
  have rm: "reach (succ ms) (rename mp n i) (rename mp n j)" if "reach (succ ns) i j" "i \<noteq> n" for i j
    unfolding s by (rule reach_move [where s = "succ ns" and p = p]) (use free(2) p(3) pu mn pm pn that in blast)+
  have "nodes_ok ms"
  proof (rule nodes_okI)
    show "0 \<le> int i + nd_next (ms ! i)" if "i < length ms" for i using l(6) that len nx by simp
    show "links_ok (length ms) (succ ms)"
      unfolding s len by (rule links_move [OF D(4) n(1) free(3,2) m mn [symmetric] p(1,3) pu pm])
    fix i assume i: "i < length ms"
    show "nd_val (ms ! i) = None \<and> nd_next (ms ! i) = 0 \<and> (\<forall>j. succ ms j \<noteq> Some i)" if "nd_key (ms ! i) = KNil"
    proof -
      have e: "i \<noteq> mp" "i \<noteq> n" "nd_key (ns ! i) = KNil" using that kn km ky by (auto split: if_splits)
      have fi: "nd_val (ns ! i) = None" "nd_next (ns ! i) = 0" "\<And>j. succ ns j \<noteq> Some i" using D(5) [of i] i len e(3) by auto
      then have "i \<noteq> p" using p(3) by (auto simp: succ_def)
      then show ?thesis using fi e nx l(5) vl unfolding s move_succ_def by auto
    qed
    assume ki: "nd_key (ms ! i) \<noteq> KNil"
    show "good_key (nd_key (ms ! i)) \<and> reach (succ ms) (home ms i) i \<and> nd_key (ms ! home ms i) \<noteq> KNil \<and> home ms (home ms i) = home ms i"
    proof -
      consider "i = mp" | "i = n" | "i \<noteq> mp" "i \<noteq> n" by blast
      then show ?thesis
      proof cases
        case 1
        have "succ ms mp = None" by (simp add: s move_succ_def)
        then have "reach (succ ms) mp mp" unfolding reach_def by (intro exI [of _ "[mp]"] conjI chain_end) simp_all
        then show ?thesis using 1 k(1) kn hm ky by simp
      next
        case 2
        have "reach (succ ms) (rename mp n ?o) (rename mp n mp)" using rm hmp ok'(1) by blast
        then have "reach (succ ms) ?o n" using h by (simp add: rename_def)
        then show ?thesis using 2 hmp h ok' hm ky mn km by simp
      next
        case 3
        then have "nd_key (ns ! i) \<noteq> KNil" using ki ky by simp
        then have d: "good_key (nd_key (ns ! i))" "reach (succ ns) (home ns i) i" "nd_key (ns ! home ns i) \<noteq> KNil" "home ns (home ns i) = home ns i"
          using D(6) [of i] i len by simp_all
        have hn: "home ns i \<noteq> n" "home ns i \<noteq> mp" using d(3,4) n(2) h by auto
        have "reach (succ ms) (rename mp n (home ns i)) (rename mp n i)" using rm [OF d(2) hn(1)] .
        then have "reach (succ ms) (home ns i) i" using hn 3 by (simp add: rename_def)
        then show ?thesis using 3 d hn hm ky by simp
      qed
    qed
  next
    fix i j assume i: "i < length ms" "j < length ms" "nd_key (ms ! i) \<noteq> KNil" "canon (nd_key (ms ! i)) = canon (nd_key (ms ! j))"
    have g: "good_key (nd_key (ms ! i))" using i(1,3) D(6) k(1) m unfolding ky len by (auto split: if_splits)
    then have kj: "nd_key (ms ! j) \<noteq> KNil" using canon_eq_good [OF i(4)] by auto
    have old: "canon (nd_key (ms ! x)) \<noteq> canon k" if "x < length ms" "x \<noteq> mp" "nd_key (ms ! x) \<noteq> KNil" for x
      using that k(2) m unfolding fresh_def ky len by (auto split: if_splits)
    have src: "nd_key (ms ! x) = nd_key (ns ! (if x = n then mp else x))" if "x \<noteq> mp" for x using that ky by simp
    consider "i = mp" | "j = mp" | "i \<noteq> mp" "j \<noteq> mp" by blast
    then show "i = j"
    proof cases
      case 1
      then have "canon (nd_key (ms ! j)) = canon k" using i(4) ky [of mp] by simp
      then show ?thesis using old [OF i(2) _ kj] 1 by metis
    next
      case 2
      then have "canon (nd_key (ms ! i)) = canon k" using i(4) ky [of mp] by simp
      then show ?thesis using old [OF i(1) _ i(3)] 2 by metis
    next
      case 3
      have "(if i = n then mp else i) = (if j = n then mp else j)"
        using i src [OF 3(1)] src [OF 3(2)] m len by (intro D(7)) (simp_all split: if_splits)
      then show ?thesis using 3 by (auto split: if_splits)
    qed
  qed (use D(1,2) len in simp_all)
  moreover have "entries ms = entries ns"
  proof (rule entries_eqI [OF len])
    fix i v assume i: "i < length ns" "nd_val (ms ! i) = Some v"
    then have "i \<noteq> mp" using vl mn by auto
    then show "\<exists>j < length ns. nd_key (ms ! i) = nd_key (ns ! j) \<and> nd_val (ns ! j) = Some v"
      using i vl ky m by (intro exI [of _ "if i = n then mp else i"]) auto
  next
    fix i v assume i: "i < length ns" "nd_val (ns ! i) = Some v"
    then have "i \<noteq> n" using free(1) by auto
    then show "\<exists>j < length ns. nd_key (ns ! i) = nd_key (ms ! j) \<and> nd_val (ms ! j) = Some v"
      using i vl ky n(1) mn by (intro exI [of _ "if i = mp then n else i"]) auto
  qed
  ultimately have "inserted ns k ms mp"
    by (rule insertedI [where x = n]) (use m kn ky vl len km mn in \<open>auto split: if_splits\<close>)
  moreover have "set_node_key k (move_node ns n mp p) mp = Inr (ms, mp)"
    unfolding ns'_def [symmetric] set_node_key_def ms_def [symmetric] Let_def using vl [of mp] mn by simp
  moreover have "nd_key (ms ! n) \<noteq> KNil" using ky km mn by simp
  ultimately show ?thesis using p(2) by blast
qed

text \<open>Inserting a new key into a node vector: a node of that key, or the answer that all nodes are in use.\<close>

lemma insert_node_correct:
  assumes ok: "nodes_ok ns" and k: "good_key k" "fresh ns k" and f: "lastfree_ok ns f"
  shows "\<exists>f' r. insert_node ns f k = Inr (f', r) \<and>
    (case r of None \<Rightarrow> (\<forall>i < length ns. nd_key (ns ! i) \<noteq> KNil) \<and> lastfree_ok ns f'
     | Some (ns', i) \<Rightarrow> inserted ns k ns' i \<and> lastfree_ok ns' f')"
proof -
  note D = nodes_okD [OF ok]
  define mp where "mp = mainposition (length ns) k"
  have m: "mp < length ns" unfolding mp_def using D(1,2) by (intro mainposition_less) auto
  have keep: "lastfree_ok ns' f'" if "inserted ns k ns' i" "lastfree_ok ns f'" for ns' i f'
    using that unfolding inserted_def lastfree_ok_def by auto
  show ?thesis
  proof (cases "nd_val (ns ! mp) = None")
    case True
    have "insert_node ns f k = Inr (f, Some (ns[mp := (ns ! mp)\<lparr>nd_key := k\<rparr>], mp))"
      using True m unfolding insert_node_def Let_def mp_def [symmetric] by (simp add: set_node_key_def)
    then show ?thesis using insert_here [OF ok k mp_def True] keep f by auto
  next
    case False
    obtain f' r where g: "getfreepos ns f = Inr (f', r)" "case r of None \<Rightarrow> (\<forall>i < length ns. nd_key (ns ! i) \<noteq> KNil) \<and> lastfree_ok ns f'
       | Some n \<Rightarrow> f' = int n \<and> n < length ns \<and> nd_key (ns ! n) = KNil \<and> (\<forall>i < length ns. n < i \<longrightarrow> nd_key (ns ! i) \<noteq> KNil)"
      using getfreepos_correct [OF f] by blast
    show ?thesis
    proof (cases r)
      case None
      then have "insert_node ns f k = Inr (f', None)"
        using False m g(1) unfolding insert_node_def Let_def mp_def [symmetric] by simp
      then show ?thesis using g(2) None by auto
    next
      case (Some n)
      then have n: "f' = int n" "n < length ns" "nd_key (ns ! n) = KNil" "\<forall>i < length ns. n < i \<longrightarrow> nd_key (ns ! i) \<noteq> KNil"
        using g(2) by simp_all
      have lf: "lastfree_ok ns' (int n)" if "inserted ns k ns' i" "nd_key (ns' ! n) \<noteq> KNil" for ns' i
      proof -
        have "length ns' = length ns" "\<And>j. j < length ns \<Longrightarrow> nd_key (ns ! j) \<noteq> KNil \<Longrightarrow> nd_key (ns' ! j) \<noteq> KNil"
          using that(1) unfolding inserted_def by auto
        moreover have "nd_key (ns' ! j) \<noteq> KNil" if "j < length ns" "n \<le> j" for j
          using calculation(2) n(4) \<open>nd_key (ns' ! n) \<noteq> KNil\<close> that by (cases "n = j") auto
        ultimately show ?thesis using n(2) unfolding lastfree_ok_def by simp
      qed
      let ?o = "mainposition (length ns) (nd_key (ns ! mp))"
      have rest: "insert_node ns f k = and_then
              (if ?o \<noteq> mp
               then and_then (find_previous (Suc (length ns)) ns mp ?o) (\<lambda>p. set_node_key k (move_node ns n mp p) mp)
               else and_then (link_node ns n mp) (\<lambda>ns. set_node_key k ns n))
              (\<lambda>r. Inr (f', Some r))"
        using False m g(1) Some unfolding insert_node_def Let_def mp_def [symmetric] by (simp del: find_previous.simps not_None_eq)
      have on: "?o = home ns mp" by (simp add: home_def)
      show ?thesis
      proof (cases "home ns mp = mp")
        case True
        obtain ns' ns'' where i: "link_node ns n mp = Inr ns'" "set_node_key k ns' n = Inr (ns'', n)" "inserted ns k ns'' n"
          using insert_linked [OF ok k mp_def False True n(2,3)] by blast
        have e: "insert_node ns f k = Inr (int n, Some (ns'', n))" using rest i(1,2) True on n(1) by simp
        have "nd_key (ns'' ! n) \<noteq> KNil" using i(3) k(1) by (auto simp: inserted_def)
        then show ?thesis using e lf [OF i(3)] i(3) by simp
      next
        case h: False
        obtain p ns' where i: "find_previous (Suc (length ns)) ns mp (home ns mp) = Inr p"
            "set_node_key k (move_node ns n mp p) mp = Inr (ns', mp)" "inserted ns k ns' mp" "nd_key (ns' ! n) \<noteq> KNil"
          using insert_moved [OF ok k mp_def False h n(2,3)] by blast
        have e: "insert_node ns f k = Inr (int n, Some (ns', mp))" using rest i(1,2) h on n(1) by simp
        then show ?thesis using lf [OF i(3,4)] i(3) by simp
      qed
    qed
  qed
qed

end
