(* ===== verification/Lua_Table.thy ===== *)
theory Lua_Table
  imports Lua_Node
begin

text \<open>
  Lua tables (\<open>luaur-vm\<close>: \<open>lua_table.rs\<close>, \<open>lua_h_*.rs\<close>, \<open>newkey.rs\<close>, \<open>rehash.rs\<close>, \<open>resize.rs\<close> and what they call): an
  array part for the keys from 1 on and the hash part of \<open>Lua_Node\<close>. A pointer to a value is a slot
  of the array or of a node. The routines \<open>newkey\<close>, \<open>rehash\<close> and \<open>resize\<close> call each other; \<open>newkey\<close> takes the
  depth of this recursion, and 0 stands for a rehash inside of \<open>resize\<close>, which its assertions exclude.
  Memory is not exhausted, and the garbage collector, which turns keys of dead entries into dead keys, does not run.
\<close>

section \<open>State\<close>

record 'v lua_table =
  lt_array :: "'v option list"
  lt_node :: "'v lua_node list"
  lt_dummy :: bool
  lt_lastfree :: int

text \<open>\<open>lt_node\<close> of a table without hash part is the shared dummy node, which \<open>lt_dummy\<close> tells from others; the
  number of nodes is \<open>2 ^ lsizenode\<close>. \<open>lt_lastfree\<close> is the union of \<open>lastfree\<close> and the negated \<open>aboundary\<close>.\<close>

datatype slot = ArraySlot nat | NodeSlot nat

abbreviation sizearray :: "'v lua_table \<Rightarrow> nat" where "sizearray t \<equiv> length (lt_array t)"
abbreviation sizenode :: "'v lua_table \<Rightarrow> nat" where "sizenode t \<equiv> length (lt_node t)"

fun load :: "'v lua_table \<Rightarrow> slot option \<Rightarrow> 'v option table_result" where
  "load t None = Inr None"
| "load t (Some (ArraySlot i)) = (if i < sizearray t then Inr (lt_array t ! i) else Inl Fault)"
| "load t (Some (NodeSlot i)) = (if i < sizenode t then Inr (nd_val (lt_node t ! i)) else Inl Fault)"

fun store :: "'v lua_table \<Rightarrow> slot \<Rightarrow> 'v option \<Rightarrow> 'v lua_table table_result" where
  "store t (ArraySlot i) v = (if i < sizearray t then Inr (t\<lparr>lt_array := (lt_array t)[i := v]\<rparr>) else Inl Fault)"
| "store t (NodeSlot i) v =
     (if i < sizenode t \<and> \<not> lt_dummy t
      then Inr (t\<lparr>lt_node := (lt_node t)[i := (lt_node t ! i)\<lparr>nd_val := v\<rparr>]\<rparr>) else Inl Fault)"

section \<open>Access\<close>

text \<open>The comparison \<open>key - 1 < sizearray\<close> on unsigned integers.\<close>

definition in_array :: "'v lua_table \<Rightarrow> int \<Rightarrow> bool" where
  "in_array t key \<longleftrightarrow> (key - 1) mod 2 ^ 32 < int (sizearray t)"

definition find_slot :: "'v lua_table \<Rightarrow> (lua_key \<Rightarrow> bool) \<Rightarrow> nat \<Rightarrow> slot option table_result" where
  "find_slot t P mp = and_then (find_node (sizenode t) (lt_node t) P mp) (\<lambda>r. Inr (map_option NodeSlot r))"

fun number_is :: "u64 \<Rightarrow> lua_key \<Rightarrow> bool" where
  "number_is n (KNumber b) = luai_numeq b n"
| "number_is n _ = False"

definition lua_h_getnum :: "'v lua_table \<Rightarrow> int \<Rightarrow> slot option table_result" where
  "lua_h_getnum t key =
     (if in_array t key then Inr (Some (ArraySlot (nat (key - 1))))
      else if \<not> lt_dummy t then let nk = cast_num key in find_slot t (number_is nk) (hashnum (sizenode t) nk)
      else Inr None)"

definition lua_h_getstr :: "'v lua_table \<Rightarrow> bytes \<Rightarrow> slot option table_result" where
  "lua_h_getstr t s = find_slot t (\<lambda>k. k = KString s) (lmod (ucast (luaS_hash s)) (sizenode t))"

definition lua_h_get :: "'v lua_table \<Rightarrow> lua_key \<Rightarrow> slot option table_result" where
  "lua_h_get t key =
     (case key of
        KNil \<Rightarrow> Inr None
      | KString s \<Rightarrow> lua_h_getstr t s
      | KNumber n \<Rightarrow>
          let k = luai_num2int n in
          if luai_numeq (cast_num k) n then lua_h_getnum t k
          else find_slot t (\<lambda>k. rawequal_key k key) (mainposition (sizenode t) key)
      | _ \<Rightarrow> find_slot t (\<lambda>k. rawequal_key k key) (mainposition (sizenode t) key))"

section \<open>The sizes of the parts\<close>

definition MAXBITS :: nat where "MAXBITS = 26"
definition MAXSIZE :: int where "MAXSIZE = 2 ^ 26"

text \<open>\<open>luaO_log2\<close> with its table, and \<open>ceillog2\<close>.\<close>

definition LOG_2 :: "int list" where
  "LOG_2 = [0, 1] @ replicate 2 2 @ replicate 4 3 @ replicate 8 4 @ replicate 16 5 @ replicate 32 6 @ replicate 64 7 @ replicate 128 8"

function luaO_log2_loop :: "int \<Rightarrow> nat \<Rightarrow> int" where
  "luaO_log2_loop l x = (if x \<ge> 256 then luaO_log2_loop (l + 8) (x div 256) else l + LOG_2 ! x)"
  by pat_completeness auto
termination by (relation "measure snd") auto

declare luaO_log2_loop.simps [simp del]

definition luaO_log2 :: "u32 \<Rightarrow> int" where "luaO_log2 x = luaO_log2_loop (-1) (unat x)"

definition ceillog2 :: "u32 \<Rightarrow> int" where "ceillog2 x = luaO_log2 (x - 1) + 1"

text \<open>The histogram \<open>nums\<close> of integer keys: entry \<open>i\<close> counts the keys in \<open>2^(i-1) + 1, \<dots>, 2^i\<close>.\<close>

definition add_num :: "int list \<Rightarrow> int \<Rightarrow> int \<Rightarrow> int list table_result" where
  "add_num nums i d = (if 0 \<le> i \<and> nat i < length nums then Inr (nums[nat i := nums ! nat i + d]) else Inl Fault)"

definition countint :: "u64 \<Rightarrow> int list \<Rightarrow> (int \<times> int list) table_result" where
  "countint key nums =
     (let k = arrayindex key in
      if k > 0 \<and> k \<le> MAXSIZE then and_then (add_num nums (ceillog2 (word_of_int k)) 1) (\<lambda>nums. Inr (1, nums))
      else Inr (0, nums))"

text \<open>\<open>numusearray\<close>: the elements \<open>i, \<dots>, lim\<close> of every slice.\<close>

fun count_slice :: "'v option list \<Rightarrow> nat \<Rightarrow> nat \<Rightarrow> int" where
  "count_slice arr i 0 = 0"
| "count_slice arr i (Suc n) = (if arr ! (i - 1) \<noteq> None then 1 else 0) + count_slice arr (i + 1) n"

fun numusearray_loop :: "'v option list \<Rightarrow> nat \<Rightarrow> nat \<Rightarrow> nat \<Rightarrow> nat \<Rightarrow> int \<Rightarrow> int list \<Rightarrow> (int \<times> int list) table_result" where
  "numusearray_loop arr 0 lg ttlg i ause nums = Inr (ause, nums)"
| "numusearray_loop arr (Suc n) lg ttlg i ause nums =
     (let lim = (if ttlg > length arr then length arr else ttlg) in
      if ttlg > length arr \<and> i > lim then Inr (ause, nums)
      else
        let lc = count_slice arr i (lim + 1 - i) in
        and_then (add_num nums (int lg) lc) (\<lambda>nums.
          numusearray_loop arr n (lg + 1) (ttlg * 2) (max i (lim + 1)) (ause + lc) nums))"

definition numusearray :: "'v lua_table \<Rightarrow> int list \<Rightarrow> (int \<times> int list) table_result" where
  "numusearray t nums = numusearray_loop (lt_array t) (MAXBITS + 1) 0 1 1 0 nums"

text \<open>\<open>numusehash\<close>: the nodes from the last one down, with the total and the integer keys among them.\<close>

fun numusehash_loop :: "'v lua_node list \<Rightarrow> nat \<Rightarrow> int \<Rightarrow> int \<Rightarrow> int list \<Rightarrow> (int \<times> int \<times> int list) table_result" where
  "numusehash_loop ns 0 totaluse ause nums = Inr (totaluse, ause, nums)"
| "numusehash_loop ns (Suc i) totaluse ause nums =
     (if nd_val (ns ! i) \<noteq> None then
        and_then (case nd_key (ns ! i) of KNumber key \<Rightarrow> countint key nums | _ \<Rightarrow> Inr (0, nums)) (\<lambda>(c, nums).
          numusehash_loop ns i (totaluse + 1) (ause + c) nums)
      else numusehash_loop ns i totaluse ause nums)"

definition numusehash :: "'v lua_table \<Rightarrow> int list \<Rightarrow> int \<Rightarrow> (int \<times> int \<times> int list) table_result" where
  "numusehash t nums nasize =
     and_then (numusehash_loop (lt_node t) (sizenode t) 0 0 nums) (\<lambda>(totaluse, ause, nums). Inr (totaluse, nasize + ause, nums))"

text \<open>\<open>computesizes\<close>: the largest power of two of which more than half would be in use.\<close>

function computesizes_loop :: "int list \<Rightarrow> int \<Rightarrow> nat \<Rightarrow> int \<Rightarrow> int \<Rightarrow> int \<Rightarrow> int \<Rightarrow> (int \<times> int) table_result" where
  "computesizes_loop nums narray i twotoi a na n =
     (if twotoi div 2 < narray then
        if i < length nums then
          let a' = (if nums ! i > 0 then a + nums ! i else a);
              big = (nums ! i > 0 \<and> a' > twotoi div 2);
              na' = (if big then a' else na);
              n' = (if big then twotoi else n) in
          if a' = narray then Inr (n', na')
          else computesizes_loop nums narray (i + 1) (twotoi * 2) a' na' n'
        else Inl Fault
      else Inr (n, na))"
  by pat_completeness auto
termination by (relation "measure (\<lambda>(nums, narray, i, twotoi, a, na, n). length nums - i)") auto

declare computesizes_loop.simps [simp del]

definition computesizes :: "int list \<Rightarrow> int \<Rightarrow> (int \<times> int) table_result" where
  "computesizes nums narray =
     and_then (computesizes_loop nums narray 0 1 0 0 0) (\<lambda>(n, na).
       if n div 2 \<le> na \<and> na \<le> n then Inr (n, na) else Inl Fault)"

text \<open>\<open>adjustasize\<close>: up to the first index that is neither the new key nor in the table.\<close>

definition key_index :: "lua_key option \<Rightarrow> int" where
  "key_index ek = (case ek of Some (KNumber n) \<Rightarrow> arrayindex n | _ \<Rightarrow> -1)"

function adjust_loop :: "'v lua_table \<Rightarrow> bool \<Rightarrow> int \<Rightarrow> int \<Rightarrow> int table_result" where
  "adjust_loop t tbound ekindex sz =
     (if sz < 2 ^ 31 - 1 then
        if sz + 1 = ekindex then adjust_loop t tbound ekindex (sz + 1)
        else if tbound then
          (case and_then (lua_h_getnum t (sz + 1)) (load t) of
             Inl e \<Rightarrow> Inl e
           | Inr v \<Rightarrow> if v \<noteq> None then adjust_loop t tbound ekindex (sz + 1) else Inr sz)
        else Inr sz
      else Inr sz)"
  by pat_completeness auto
termination by (relation "measure (\<lambda>(t, tbound, ekindex, sz). nat (2 ^ 31 - 1 - sz))") auto

declare adjust_loop.simps [simp del]

definition adjustasize :: "'v lua_table \<Rightarrow> int \<Rightarrow> lua_key option \<Rightarrow> int table_result" where
  "adjustasize t sz ek = adjust_loop t (\<not> lt_dummy t \<or> sz < int (sizearray t)) (key_index ek) sz"

section \<open>Resizing\<close>

definition setarrayvector :: "'v lua_table \<Rightarrow> int \<Rightarrow> 'v lua_table table_result" where
  "setarrayvector t sz =
     (if sz > MAXSIZE then Inl TableOverflow
      else Inr (t\<lparr>lt_array := lt_array t @ replicate (nat sz - sizearray t) None\<rparr>))"

definition setnodevector :: "'v lua_table \<Rightarrow> int \<Rightarrow> 'v lua_table table_result" where
  "setnodevector t sz =
     (if sz = 0 then Inr (t\<lparr>lt_node := [free_node], lt_dummy := True, lt_lastfree := 0\<rparr>)
      else
        let lsize = ceillog2 (word_of_int sz) in
        if lsize > int MAXBITS then Inl TableOverflow
        else Inr (t\<lparr>lt_node := replicate (2 ^ nat lsize) free_node, lt_dummy := False, lt_lastfree := 2 ^ nat lsize\<rparr>))"

type_synonym 'v newkey_fun = "'v lua_table \<Rightarrow> lua_key \<Rightarrow> ('v lua_table \<times> slot) table_result"

definition arrayornewkey :: "'v newkey_fun \<Rightarrow> 'v newkey_fun" where
  "arrayornewkey newkey t key =
     (case key of
        KNumber n \<Rightarrow>
          let k = luai_num2int n in
          if luai_numeq (cast_num k) n \<and> in_array t k then Inr (t, ArraySlot (nat (k - 1))) else newkey t key
      | _ \<Rightarrow> newkey t key)"

text \<open>The part of the array that is cut off, from index \<open>i\<close> on, and the old nodes, from the last one down.\<close>

fun reinsert_array :: "'v newkey_fun \<Rightarrow> nat \<Rightarrow> 'v option list \<Rightarrow> 'v lua_table \<Rightarrow> 'v lua_table table_result" where
  "reinsert_array newkey i [] t = Inr t"
| "reinsert_array newkey i (e # es) t =
     and_then
       (if e \<noteq> None then and_then (newkey t (KNumber (cast_num (int i + 1)))) (\<lambda>(t, s). store t s e) else Inr t)
       (reinsert_array newkey (i + 1) es)"

fun reinsert_nodes :: "'v newkey_fun \<Rightarrow> 'v lua_node list \<Rightarrow> nat \<Rightarrow> 'v lua_table \<Rightarrow> 'v lua_table table_result" where
  "reinsert_nodes newkey nold 0 t = Inr t"
| "reinsert_nodes newkey nold (Suc i) t =
     and_then
       (if nd_val (nold ! i) \<noteq> None
        then and_then (arrayornewkey newkey t (nd_key (nold ! i))) (\<lambda>(t, s). store t s (nd_val (nold ! i))) else Inr t)
       (reinsert_nodes newkey nold i)"

definition resize :: "'v newkey_fun \<Rightarrow> 'v lua_table \<Rightarrow> int \<Rightarrow> int \<Rightarrow> 'v lua_table table_result" where
  "resize newkey t nasize nhsize =
     (if nasize > MAXSIZE \<or> nhsize > MAXSIZE then Inl TableOverflow
      else
        let oldarray = lt_array t; nold = lt_node t in
        and_then (if nasize > int (length oldarray) then setarrayvector t nasize else Inr t) (\<lambda>t.
        and_then (setnodevector t nhsize) (\<lambda>t.
        and_then
          (if nasize < int (length oldarray)
           then reinsert_array newkey (nat nasize) (drop (nat nasize) oldarray) (t\<lparr>lt_array := take (nat nasize) oldarray\<rparr>)
           else Inr t)
          (reinsert_nodes newkey nold (length nold)))))"

definition rehash :: "'v newkey_fun \<Rightarrow> 'v lua_table \<Rightarrow> lua_key \<Rightarrow> 'v lua_table table_result" where
  "rehash newkey t ek =
     and_then (numusearray t (replicate (MAXBITS + 1) 0)) (\<lambda>(nasize, nums).
     and_then (numusehash t nums nasize) (\<lambda>(hashuse, nasize', nums).
     and_then (case ek of KNumber n \<Rightarrow> countint n nums | _ \<Rightarrow> Inr (0, nums)) (\<lambda>(c, nums).
     let totaluse = nasize + hashuse + 1 in
     and_then (computesizes nums (nasize' + c)) (\<lambda>(n, na).
     let nh = totaluse - na in
     and_then (adjustasize t n (Some ek)) (\<lambda>nadjusted.
     let aextra = nadjusted - n in
     if aextra \<noteq> 0 then
       and_then (adjustasize t (nadjusted + aextra) (Some ek)) (\<lambda>n. resize newkey t n (nh - aextra))
     else resize newkey t n nh)))))"

section \<open>Inserting\<close>

fun newkey :: "nat \<Rightarrow> 'v newkey_fun" where
  "newkey 0 t key = Inl Fault"
| "newkey (Suc depth) t key =
     (let again = (\<lambda>t. and_then (rehash (newkey depth) t key) (\<lambda>t. arrayornewkey (newkey depth) t key)) in
      if (case key of KNumber n \<Rightarrow> luai_numeq n (cast_num (int (sizearray t) + 1)) | _ \<Rightarrow> False) then again t
      else if lt_dummy t then
        and_then (getfreepos (lt_node t) (lt_lastfree t)) (\<lambda>(f, n).
          if n = None then again (t\<lparr>lt_lastfree := f\<rparr>) else Inl Fault)
      else
        and_then (insert_node (lt_node t) (lt_lastfree t) key) (\<lambda>(f, r).
          case r of
            None \<Rightarrow> again (t\<lparr>lt_lastfree := f\<rparr>)
          | Some (ns, i) \<Rightarrow> Inr (t\<lparr>lt_node := ns, lt_lastfree := f\<rparr>, NodeSlot i)))"

declare newkey.simps [simp del]

definition lua_h_newkey :: "'v newkey_fun" where
  "lua_h_newkey t key =
     (case key of
        KNil \<Rightarrow> Inl IndexNil
      | KNumber n \<Rightarrow> if f64_nan n then Inl IndexNaN else newkey 2 t key
      | KVector x y z \<Rightarrow> if f32_nan x \<or> f32_nan y \<or> f32_nan z then Inl VectorNaN else newkey 2 t key
      | _ \<Rightarrow> newkey 2 t key)"

definition lua_h_set :: "'v newkey_fun" where
  "lua_h_set t key =
     and_then (lua_h_get t key) (\<lambda>p. case p of Some s \<Rightarrow> Inr (t, s) | None \<Rightarrow> lua_h_newkey t key)"

definition lua_h_setnum :: "'v lua_table \<Rightarrow> int \<Rightarrow> ('v lua_table \<times> slot) table_result" where
  "lua_h_setnum t key =
     (if in_array t key then Inr (t, ArraySlot (nat (key - 1)))
      else and_then (lua_h_getnum t key) (\<lambda>p. case p of Some s \<Rightarrow> Inr (t, s) | None \<Rightarrow> newkey 2 t (KNumber (cast_num key))))"

definition lua_h_setstr :: "'v lua_table \<Rightarrow> bytes \<Rightarrow> ('v lua_table \<times> slot) table_result" where
  "lua_h_setstr t key =
     and_then (lua_h_getstr t key) (\<lambda>p. case p of Some s \<Rightarrow> Inr (t, s) | None \<Rightarrow> newkey 2 t (KString key))"

section \<open>Whole tables\<close>

definition lua_h_new :: "int \<Rightarrow> int \<Rightarrow> 'v lua_table table_result" where
  "lua_h_new narray nhash =
     (let t = \<lparr>lt_array = [], lt_node = [free_node], lt_dummy = True, lt_lastfree = 0\<rparr> in
      and_then (if narray > 0 then setarrayvector t narray else Inr t) (\<lambda>t.
        if nhash > 0 then setnodevector t nhash else Inr t))"

definition lua_h_resizearray :: "'v lua_table \<Rightarrow> int \<Rightarrow> 'v lua_table table_result" where
  "lua_h_resizearray t nasize =
     (let nsize = (if lt_dummy t then 0 else int (sizenode t)) in
      and_then (adjustasize t nasize None) (\<lambda>asize. resize (newkey 1) t asize nsize))"

definition lua_h_resizehash :: "'v lua_table \<Rightarrow> int \<Rightarrow> 'v lua_table table_result" where
  "lua_h_resizehash t nhsize = resize (newkey 1) t (int (sizearray t)) nhsize"

definition maybesetaboundary :: "'v lua_table \<Rightarrow> int \<Rightarrow> 'v lua_table" where
  "maybesetaboundary t boundary = (if lt_lastfree t \<le> 0 then t\<lparr>lt_lastfree := - boundary\<rparr> else t)"

definition lua_h_clear :: "'v lua_table \<Rightarrow> 'v lua_table" where
  "lua_h_clear t =
     (let t = maybesetaboundary (t\<lparr>lt_array := replicate (sizearray t) None\<rparr>) 0 in
      if lt_dummy t then t
      else t\<lparr>lt_lastfree := int (sizenode t), lt_node := replicate (sizenode t) free_node\<rparr>)"

definition getaboundary :: "'v lua_table \<Rightarrow> int" where
  "getaboundary t = (if lt_lastfree t < 0 then - lt_lastfree t else int (sizearray t))"

definition lua_h_clone :: "'v lua_table \<Rightarrow> 'v lua_table" where
  "lua_h_clone tt =
     (let t = \<lparr>lt_array = [], lt_node = [free_node], lt_dummy = True, lt_lastfree = 0\<rparr>;
          t = (if sizearray tt \<noteq> 0 then (maybesetaboundary t (getaboundary tt))\<lparr>lt_array := lt_array tt\<rparr> else t)
      in if lt_dummy tt then t else t\<lparr>lt_node := lt_node tt, lt_dummy := False, lt_lastfree := lt_lastfree tt\<rparr>)"

end
