(* ===== verification/Lua_Access.thy ===== *)
theory Lua_Access
  imports Lua_Table
begin

text \<open>
  Reading and writing Lua tables: the invariant \<open>table_ok\<close>, the contents of a table as a relation between
  the representatives of keys and values, and what searching, storing, and inserting without a rehash do to them.
\<close>

section \<open>Indices\<close>

abbreviation aindex :: "lua_key \<Rightarrow> int" where "aindex k \<equiv> key_index (Some k)"

lemma aindex_simps [simp]: "aindex (KNumber b) = arrayindex b" "aindex KNil = -1" "aindex (KBoolean c) = -1"
  "aindex (KLightUserdata p g) = -1" "aindex (KInteger n) = -1" "aindex (KVector x y z) = -1" "aindex (KString s) = -1"
  "aindex (KObject tag p) = -1"
  by (simp_all add: key_index_def)

lemma arrayindex_range: "-1 \<le> arrayindex b \<or> - (2 ^ 31) \<le> arrayindex b" "arrayindex b < 2 ^ 31"
  using num2int_range [of b] by (auto simp: arrayindex_def Let_def)

lemma arrayindex_cast_num: "- (2 ^ 31) \<le> i \<Longrightarrow> i < 2 ^ 31 \<Longrightarrow> arrayindex (cast_num i) = i"
  using num2int_cast_num [of i] cast_num_inj [of i i] by (simp add: arrayindex_def Let_def)

lemma numeq_cast_num: "0 < i \<Longrightarrow> i < 2 ^ 31 \<Longrightarrow> luai_numeq (cast_num i) b \<longleftrightarrow> b = cast_num i"
  using cast_num_zero [of i] cast_num_not_nan [of i] by (auto simp: luai_numeq_def)

lemma arrayindex_pos: "arrayindex b = i \<Longrightarrow> 0 < i \<Longrightarrow> b = cast_num i"
proof -
  assume i: "arrayindex b = i" "0 < i"
  then have "luai_num2int b = i" "luai_numeq (cast_num i) b" by (auto simp: arrayindex_def Let_def split: if_splits)
  then show "b = cast_num i" using numeq_cast_num [of i b] i(2) num2int_range(2) [of b] by simp
qed

definition array_key :: "int \<Rightarrow> lua_key" where "array_key i = KNumber (cast_num i)"

lemma aindex_pos: "aindex k = i \<Longrightarrow> 0 < i \<Longrightarrow> k = array_key i"
  by (cases k) (auto simp: array_key_def intro: arrayindex_pos)

lemma aindex_array_key: "0 < i \<Longrightarrow> i < 2 ^ 31 \<Longrightarrow> aindex (array_key i) = i"
  by (simp add: array_key_def arrayindex_cast_num)

lemma canon_array_key: "0 < i \<Longrightarrow> i < 2 ^ 31 \<Longrightarrow> canon (array_key i) = array_key i"
  using cast_num_zero [of i] by (simp add: array_key_def)

lemma good_array_key: "0 < i \<Longrightarrow> i < 2 ^ 31 \<Longrightarrow> good_key (array_key i)"
  using cast_num_not_nan [of i] by (simp add: array_key_def)

lemma array_key_inj: "0 < i \<Longrightarrow> i < 2 ^ 31 \<Longrightarrow> 0 < j \<Longrightarrow> j < 2 ^ 31 \<Longrightarrow> array_key i = array_key j \<longleftrightarrow> i = j"
  using aindex_array_key by metis

lemma canon_canon [simp]: "canon (canon k) = canon k"
  by (cases k) (auto simp: canon_f32_def f64_zero_def f32_zero_def)

lemma aindex_canon: "canon a = canon b \<Longrightarrow> aindex a = aindex b"
proof -
  have z: "arrayindex b = 0" if "f64_zero b" for b
    using num2int_zero [OF that] that cast_num_zero [of 0] cast_num_not_nan [of 0]
    by (auto simp: arrayindex_def Let_def luai_numeq_def f64_nan_def f64_zero_def)
  have "aindex (canon k) = aindex k" for k
    by (cases k) (simp_all add: z f64_zero_def)
  then show "canon a = canon b \<Longrightarrow> aindex a = aindex b" by metis
qed

lemma in_array_iff: "- (2 ^ 31) \<le> k \<Longrightarrow> k < 2 ^ 31 \<Longrightarrow> int (sizearray t) \<le> 2 ^ 26 \<Longrightarrow> in_array t k \<longleftrightarrow> 0 < k \<and> k \<le> int (sizearray t)"
proof (cases "0 < k")
  case True
  assume "k < 2 ^ 31"
  then have "(k - 1) mod 2 ^ 32 = k - 1" using True by (intro mod_pos_pos_trivial) auto
  then show ?thesis using True by (auto simp: in_array_def)
next
  case False
  assume k: "- (2 ^ 31) \<le> k" "int (sizearray t) \<le> 2 ^ 26"
  have "(k - 1) mod 2 ^ 32 = (k - 1 + 2 ^ 32) mod 2 ^ 32" by (rule mod_add_self2 [symmetric])
  also have "\<dots> = k - 1 + 2 ^ 32" using False k(1) by (intro mod_pos_pos_trivial) auto
  finally show ?thesis using False k by (simp add: in_array_def)
qed

section \<open>Contents\<close>

definition content :: "'v lua_table \<Rightarrow> (lua_key \<times> 'v) set" where
  "content t = {(array_key (int i + 1), v) | i v. i < sizearray t \<and> lt_array t ! i = Some v} \<union>
     (\<lambda>(k, v). (canon k, v)) ` entries (lt_node t)"

definition table_ok :: "'v lua_table \<Rightarrow> bool" where
  "table_ok t \<longleftrightarrow> sizearray t \<le> 2 ^ 26 \<and> nodes_ok (lt_node t) \<and>
     (if lt_dummy t then lt_node t = [free_node] \<and> lt_lastfree t \<le> 0 else lastfree_ok (lt_node t) (lt_lastfree t)) \<and>
     (\<forall>i < sizenode t. nd_key (lt_node t ! i) \<noteq> KNil \<longrightarrow>
        \<not> (0 < aindex (nd_key (lt_node t ! i)) \<and> aindex (nd_key (lt_node t ! i)) \<le> int (sizearray t) + 1))"

lemma table_okD:
  assumes "table_ok t"
  shows "sizearray t \<le> 2 ^ 26" "nodes_ok (lt_node t)" "lt_dummy t \<Longrightarrow> lt_node t = [free_node] \<and> lt_lastfree t \<le> 0"
    "\<not> lt_dummy t \<Longrightarrow> lastfree_ok (lt_node t) (lt_lastfree t)"
    "\<And>i. i < sizenode t \<Longrightarrow> nd_key (lt_node t ! i) \<noteq> KNil \<Longrightarrow>
        \<not> (0 < aindex (nd_key (lt_node t ! i)) \<and> aindex (nd_key (lt_node t ! i)) \<le> int (sizearray t) + 1)"
  using assms unfolding table_ok_def by (auto split: if_splits)

lemma nodes_ok_replicate: "0 < n \<Longrightarrow> n \<le> 2 ^ 26 \<Longrightarrow> nodes_ok (replicate n free_node)"
proof -
  assume n: "0 < n" "n \<le> 2 ^ 26"
  have s: "succ (replicate n free_node) i = None" for i by (simp add: succ_def free_node_def)
  have "links_ok n (succ (replicate n free_node))" unfolding links_ok_def using s chain_end [of "succ (replicate n free_node)", OF s] by (metis option.distinct(1))
  then show ?thesis using n unfolding nodes_ok_def s by (auto simp: free_node_def)
qed

lemma nodes_ok_free: "n \<le> 26 \<Longrightarrow> nodes_ok (replicate (2 ^ n) free_node)"
  by (rule nodes_ok_replicate) (simp_all only: zero_less_numeral zero_less_power power_increasing one_le_numeral)

lemma nodes_ok_dummy: "nodes_ok [free_node]" using nodes_ok_free [of 0] by simp

text \<open>What a search finds.\<close>

definition finds :: "'v lua_table \<Rightarrow> lua_key \<Rightarrow> slot option \<Rightarrow> bool" where
  "finds t k r \<longleftrightarrow> (case r of
      Some (ArraySlot i) \<Rightarrow> i < sizearray t \<and> aindex k = int i + 1
    | Some (NodeSlot i) \<Rightarrow> i < sizenode t \<and> nd_key (lt_node t ! i) \<noteq> KNil \<and> canon (nd_key (lt_node t ! i)) = canon k
    | None \<Rightarrow> \<not> (0 < aindex k \<and> aindex k \<le> int (sizearray t)) \<and> fresh (lt_node t) k)"

lemma find_slot_finds:
  assumes "table_ok t" "good_key k" "\<And>k'. k' \<noteq> KNil \<Longrightarrow> good_key k' \<Longrightarrow> P k' \<longleftrightarrow> canon k' = canon k" "\<not> P KNil"
    and "\<not> (0 < aindex k \<and> aindex k \<le> int (sizearray t))"
  shows "\<exists>r. find_slot t P (mainposition (sizenode t) k) = Inr r \<and> finds t k r"
proof -
  obtain r where "find_node (sizenode t) (lt_node t) P (mainposition (sizenode t) k) = Inr r" "node_of (lt_node t) k r"
    using find_node_correct [OF table_okD(2) [OF assms(1)] assms(2-4)] by blast
  then show ?thesis using assms(5) by (intro exI [of _ "map_option NodeSlot r"])
      (auto simp: find_slot_def node_of_def finds_def fresh_def split: option.splits)
qed

lemma getnum_finds:
  assumes t: "table_ok t" and k: "- (2 ^ 31) \<le> k" "k < 2 ^ 31"
  shows "\<exists>r. lua_h_getnum t k = Inr r \<and> finds t (array_key k) r"
proof -
  have size: "int (sizearray t) \<le> 2 ^ 26" using table_okD(1) [OF t] by (metis of_nat_le_iff of_nat_numeral of_nat_power)
  have a: "aindex (array_key k) = k" using k by (simp add: array_key_def arrayindex_cast_num)
  have g: "good_key (array_key k)" using k cast_num_not_nan [of k] by (simp add: array_key_def)
  show ?thesis
  proof (cases "in_array t k")
    case True
    then have i: "0 < k" "k \<le> int (sizearray t)" using in_array_iff [OF k size] by simp_all
    then have "finds t (array_key k) (Some (ArraySlot (nat (k - 1))))" using a by (auto simp: finds_def)
    then show ?thesis using True by (simp add: lua_h_getnum_def)
  next
    case False
    then have out: "\<not> (0 < aindex (array_key k) \<and> aindex (array_key k) \<le> int (sizearray t))"
      using in_array_iff [OF k size] a by simp
    show ?thesis
    proof (cases "lt_dummy t")
      case True
      then have "lt_node t = [free_node]" using table_okD(3) [OF t] by blast
      then have "finds t (array_key k) None" using out by (simp add: finds_def fresh_def free_node_def)
      then show ?thesis using True False by (simp add: lua_h_getnum_def)
    next
      case dm: False
      have "number_is (cast_num k) k' \<longleftrightarrow> canon k' = canon (array_key k)" if "k' \<noteq> KNil" "good_key k'" for k'
        using rawequal_canon [OF that(2) g] by (cases k') (auto simp: array_key_def)
      then obtain r where "find_slot t (number_is (cast_num k)) (mainposition (sizenode t) (array_key k)) = Inr r" "finds t (array_key k) r"
        using find_slot_finds [OF t g _ _ out] by (metis number_is.simps(2))
      then show ?thesis using False dm by (simp add: lua_h_getnum_def array_key_def mainposition_def)
    qed
  qed
qed

lemma getstr_finds: "table_ok t \<Longrightarrow> \<exists>r. lua_h_getstr t s = Inr r \<and> finds t (KString s) r"
proof -
  assume t: "table_ok t"
  have "\<exists>r. find_slot t (\<lambda>k. k = KString s) (mainposition (sizenode t) (KString s)) = Inr r \<and> finds t (KString s) r"
  proof (rule find_slot_finds [OF t])
    show "(k' = KString s) = (canon k' = canon (KString s))" if "k' \<noteq> KNil" "good_key k'" for k'
      by (cases k') simp_all
  qed simp_all
  then show ?thesis by (simp add: lua_h_getstr_def mainposition_def)
qed

lemma finds_cong: "canon a = canon b \<Longrightarrow> finds t a r \<longleftrightarrow> finds t b r"
  using aindex_canon [of a b] by (simp add: finds_def fresh_def split: option.split slot.split)

lemma get_finds:
  assumes t: "table_ok t" and k: "good_key k"
  shows "\<exists>r. lua_h_get t k = Inr r \<and> finds t k r"
proof -
  have other: "\<exists>r. find_slot t (\<lambda>k'. rawequal_key k' k) (mainposition (sizenode t) k) = Inr r \<and> finds t k r"
    if "aindex k = -1"
  proof (rule find_slot_finds [OF t k])
    show "rawequal_key k' k \<longleftrightarrow> canon k' = canon k" if "k' \<noteq> KNil" "good_key k'" for k' using rawequal_canon that(2) k .
    show "\<not> rawequal_key KNil k" using rawequal_nil [OF k] .
    show "\<not> (0 < aindex k \<and> aindex k \<le> int (sizearray t))" using that by simp
  qed
  show ?thesis
  proof (cases k)
    case (KNumber n)
    show ?thesis
    proof (cases "luai_numeq (cast_num (luai_num2int n)) n")
      case True
      let ?i = "luai_num2int n"
      have "canon (array_key ?i) = canon k"
        using True k KNumber rawequal_canon [of "array_key ?i" k] by (simp add: array_key_def luai_numeq_def)
      moreover obtain r where "lua_h_getnum t ?i = Inr r" "finds t (array_key ?i) r" using getnum_finds [OF t num2int_range] by blast
      ultimately have "lua_h_getnum t ?i = Inr r" "finds t k r" using finds_cong by blast+
      then show ?thesis using True KNumber by (simp add: lua_h_get_def Let_def)
    next
      case False
      then have "aindex k = -1" using KNumber by (simp add: arrayindex_def Let_def)
      then show ?thesis using other False KNumber by (simp add: lua_h_get_def Let_def)
    qed
  next
    case (KString s)
    then show ?thesis using getstr_finds [OF t] by (simp add: lua_h_get_def)
  qed (use other k in \<open>simp_all add: lua_h_get_def\<close>)
qed

text \<open>The contents at a slot.\<close>

lemma content_array: "i < sizearray t \<Longrightarrow> lt_array t ! i = Some v \<Longrightarrow> (array_key (int i + 1), v) \<in> content t"
  unfolding content_def by blast

lemma content_node: "i < sizenode t \<Longrightarrow> nd_val (lt_node t ! i) = Some v \<Longrightarrow> (canon (nd_key (lt_node t ! i)), v) \<in> content t"
  unfolding content_def entries_def by force

lemma content_cases:
  assumes "(K, v) \<in> content t"
  obtains i where "i < sizearray t" "lt_array t ! i = Some v" "K = array_key (int i + 1)"
    | i where "i < sizenode t" "nd_val (lt_node t ! i) = Some v" "K = canon (nd_key (lt_node t ! i))"
  using assms unfolding content_def entries_def by force

lemma array_index_range: "table_ok t \<Longrightarrow> i < sizearray t \<Longrightarrow> 0 < int i + 1 \<and> int i + 1 < 2 ^ 31"
  using table_okD(1) [of t] by simp

lemma content_index:
  assumes t: "table_ok t" and k: "canon k = K" "i < sizearray t" "aindex k = int i + 1"
  shows "(K, v) \<in> content t \<longleftrightarrow> lt_array t ! i = Some v"
proof -
  note r = array_index_range [OF t]
  have K: "K = array_key (int i + 1)" using aindex_pos [OF k(3)] k(1) canon_array_key r [OF k(2)] by simp
  show ?thesis
  proof
    assume "(K, v) \<in> content t"
    then show "lt_array t ! i = Some v"
    proof (cases rule: content_cases)
      case (1 j)
      then have "int j + 1 = int i + 1" using K array_key_inj r [OF 1(1)] r [OF k(2)] by metis
      then show ?thesis using 1(2) by simp
    next
      case (2 j)
      then have "nd_key (lt_node t ! j) \<noteq> KNil" using nodes_okD(5) [OF table_okD(2) [OF t] 2(1)] by auto
      moreover have "aindex (nd_key (lt_node t ! j)) = int i + 1" using aindex_canon [of "nd_key (lt_node t ! j)" k] 2(3) k by simp
      ultimately show ?thesis using table_okD(5) [OF t 2(1)] k(2) by simp
    qed
  next
    assume "lt_array t ! i = Some v"
    then show "(K, v) \<in> content t" using content_array [OF k(2)] K by simp
  qed
qed

lemma content_at_node:
  assumes t: "table_ok t" and i: "i < sizenode t" "nd_key (lt_node t ! i) \<noteq> KNil" "K = canon (nd_key (lt_node t ! i))"
  shows "(K, v) \<in> content t \<longleftrightarrow> nd_val (lt_node t ! i) = Some v"
proof
  assume "(K, v) \<in> content t"
  then show "nd_val (lt_node t ! i) = Some v"
  proof (cases rule: content_cases)
    case (1 j)
    have "aindex (array_key (int j + 1)) = int j + 1" using aindex_array_key array_index_range [OF t 1(1)] by simp
    moreover have "canon (array_key (int j + 1)) = array_key (int j + 1)" using canon_array_key array_index_range [OF t 1(1)] by simp
    ultimately have "aindex (nd_key (lt_node t ! i)) = int j + 1"
      using aindex_canon [of "nd_key (lt_node t ! i)" "array_key (int j + 1)"] i(3) 1(3) by simp
    then show ?thesis using table_okD(5) [OF t i(1,2)] 1(1) by simp
  next
    case (2 j)
    then have "i = j" using nodes_okD(7) [OF table_okD(2) [OF t] i(1) 2(1) i(2)] i(3) by simp
    then show ?thesis using 2(2) by simp
  qed
qed (use content_node i in metis)

lemma load_finds:
  assumes t: "table_ok t" and f: "finds t k r"
  shows "\<exists>v. load t r = Inr v \<and> (\<forall>x. v = Some x \<longleftrightarrow> (canon k, x) \<in> content t)"
proof (cases r)
  case None
  have "(canon k, x) \<notin> content t" for x
  proof
    assume "(canon k, x) \<in> content t"
    then show False
    proof (cases rule: content_cases)
      case (1 i)
      have "aindex k = int i + 1"
        using aindex_canon [of k "array_key (int i + 1)"] 1(3) canon_array_key aindex_array_key array_index_range [OF t 1(1)] by metis
      then show ?thesis using f None 1(1) by (simp add: finds_def)
    next
      case (2 i)
      then have "nd_key (lt_node t ! i) \<noteq> KNil" using nodes_okD(5) [OF table_okD(2) [OF t] 2(1)] by auto
      then show ?thesis using f None 2(1,3) by (auto simp: finds_def fresh_def)
    qed
  qed
  then show ?thesis using None by simp
next
  case (Some s)
  show ?thesis
  proof (cases s)
    case (ArraySlot i)
    then have i: "i < sizearray t" "aindex k = int i + 1" using f Some by (simp_all add: finds_def)
    then show ?thesis using ArraySlot Some content_index [OF t refl i] by simp
  next
    case (NodeSlot i)
    then have i: "i < sizenode t" "nd_key (lt_node t ! i) \<noteq> KNil" "canon k = canon (nd_key (lt_node t ! i))"
      using f Some by (simp_all add: finds_def)
    then show ?thesis using NodeSlot Some content_at_node [OF t i] by simp
  qed
qed

definition upd :: "(lua_key \<times> 'v) set \<Rightarrow> lua_key \<Rightarrow> 'v option \<Rightarrow> (lua_key \<times> 'v) set" where
  "upd C K v = {e \<in> C. fst e \<noteq> K} \<union> (case v of None \<Rightarrow> {} | Some x \<Rightarrow> {(K, x)})"

lemma upd_iff: "(k', x) \<in> upd C K v \<longleftrightarrow> (if k' = K then v = Some x else (k', x) \<in> C)"
  by (auto simp: upd_def split: option.splits)

lemma upd_eqI: "(\<And>k' x. (k', x) \<in> C' \<longleftrightarrow> (if k' = K then v = Some x else (k', x) \<in> C)) \<Longrightarrow> C' = upd C K v"
  by (auto simp: set_eq_iff upd_iff)

lemma nodes_ok_set_val:
  assumes ok: "nodes_ok ns" and i: "i < length ns" "nd_key (ns ! i) \<noteq> KNil"
  shows "nodes_ok (ns[i := (ns ! i)\<lparr>nd_val := v\<rparr>])"
proof -
  let ?ns = "ns[i := (ns ! i)\<lparr>nd_val := v\<rparr>]"
  have k: "nd_key (?ns ! j) = nd_key (ns ! j)" "nd_next (?ns ! j) = nd_next (ns ! j)" for j using i(1) by (simp_all add: nth_list_update)
  have s: "succ ?ns = succ ns" by (rule ext) (simp add: succ_def k)
  have h: "home ?ns j = home ns j" for j by (simp add: home_def k)
  have v: "nd_val (?ns ! j) = nd_val (ns ! j)" if "nd_key (ns ! j) = KNil" for j using that i by (auto simp: nth_list_update)
  show ?thesis
    by (rule nodes_okI) (use nodes_okD [OF ok] v in \<open>simp_all add: k s h\<close>)
qed

lemma store_finds:
  assumes t: "table_ok t" and k: "good_key k" "finds t k (Some s)"
  shows "\<exists>t'. store t s v = Inr t' \<and> table_ok t' \<and> content t' = upd (content t) (canon k) v"
proof (cases s)
  case (ArraySlot i)
  then have i: "i < sizearray t" "aindex k = int i + 1" using k(2) by (simp_all add: finds_def)
  let ?t = "t\<lparr>lt_array := (lt_array t)[i := v]\<rparr>"
  have ok: "table_ok ?t" using t unfolding table_ok_def by simp
  have "content ?t = upd (content t) (canon k) v"
  proof (rule upd_eqI)
    fix k' x
    show "(k', x) \<in> content ?t \<longleftrightarrow> (if k' = canon k then v = Some x else (k', x) \<in> content t)"
    proof (cases "k' = canon k")
      case True
      then show ?thesis using content_index [OF ok, of k k' i x] i by simp
    next
      case False
      have ak: "canon k = array_key (int i + 1)"
        using aindex_pos [OF i(2)] canon_array_key array_index_range [OF t i(1)] by simp
      have "(k', x) \<in> content ?t" if "(k', x) \<in> content t"
        using that
      proof (cases rule: content_cases)
        case (1 j)
        then have "j \<noteq> i" using False ak by auto
        then show ?thesis using 1 content_array [of j ?t x] by simp
      next
        case (2 j)
        then show ?thesis using content_node [of j ?t x] by simp
      qed
      moreover have "(k', x) \<in> content t" if "(k', x) \<in> content ?t"
        using that
      proof (cases rule: content_cases)
        case (1 j)
        then have "j \<noteq> i" using False ak by auto
        then show ?thesis using 1 content_array [of j t x] by simp
      next
        case (2 j)
        then show ?thesis using content_node [of j t x] by simp
      qed
      ultimately show ?thesis using False by auto
    qed
  qed
  then show ?thesis using ArraySlot i(1) ok by simp
next
  case (NodeSlot i)
  then have i: "i < sizenode t" "nd_key (lt_node t ! i) \<noteq> KNil" "canon (nd_key (lt_node t ! i)) = canon k"
    using k(2) by (simp_all add: finds_def)
  have d: "\<not> lt_dummy t" using table_okD(3) [OF t] i(1,2) by (auto simp: free_node_def)
  let ?n = "(lt_node t)[i := (lt_node t ! i)\<lparr>nd_val := v\<rparr>]"
  let ?t = "t\<lparr>lt_node := ?n\<rparr>"
  have key: "nd_key (?n ! j) = nd_key (lt_node t ! j)" for j using i(1) by (simp add: nth_list_update)
  have val: "nd_val (?n ! j) = (if j = i then v else nd_val (lt_node t ! j))" for j using i(1) by (simp add: nth_list_update)
  have ok: "table_ok ?t"
    using table_okD [OF t] nodes_ok_set_val [OF table_okD(2) [OF t] i(1,2)] d unfolding table_ok_def
    by (simp add: key lastfree_ok_def)
  have "content ?t = upd (content t) (canon k) v"
  proof (rule upd_eqI)
    fix k' x
    show "(k', x) \<in> content ?t \<longleftrightarrow> (if k' = canon k then v = Some x else (k', x) \<in> content t)"
    proof (cases "k' = canon k")
      case True
      then show ?thesis using content_at_node [OF ok, of i k' x] i key val by simp
    next
      case False
      have "(k', x) \<in> content ?t" if "(k', x) \<in> content t"
        using that
      proof (cases rule: content_cases)
        case (1 j)
        then show ?thesis using content_array [of j ?t x] by simp
      next
        case (2 j)
        then have "j \<noteq> i" using False i(3) by auto
        then show ?thesis using 2 content_node [of j ?t x] key val by simp
      qed
      moreover have "(k', x) \<in> content t" if "(k', x) \<in> content ?t"
        using that
      proof (cases rule: content_cases)
        case (1 j)
        then show ?thesis using content_array [of j t x] by simp
      next
        case (2 j)
        then have "j \<noteq> i" using False i(3) key by auto
        then show ?thesis using 2 content_node [of j t x] key val by simp
      qed
      ultimately show ?thesis using False by auto
    qed
  qed
  then show ?thesis using NodeSlot i(1) d ok by simp
qed

section \<open>Inserting without a rehash\<close>

text \<open>The keys in the nodes, and the number of nodes in use.\<close>

definition keyset :: "'v lua_node list \<Rightarrow> lua_key set" where "keyset ns = canon ` (nd_key ` set ns - {KNil})"

lemma keyset_iff: "K \<in> keyset ns \<longleftrightarrow> (\<exists>i < length ns. nd_key (ns ! i) \<noteq> KNil \<and> K = canon (nd_key (ns ! i)))"
  unfolding keyset_def by (auto simp: in_set_conv_nth image_iff Bex_def)

lemma fresh_iff: "fresh ns k \<longleftrightarrow> canon k \<notin> keyset ns"
  unfolding fresh_def keyset_iff by metis

definition used :: "'v lua_node list \<Rightarrow> nat" where "used ns = card {i. i < length ns \<and> nd_key (ns ! i) \<noteq> KNil}"

lemma used_full: "(\<forall>i < length ns. nd_key (ns ! i) \<noteq> KNil) \<longleftrightarrow> used ns = length ns"
proof
  assume "\<forall>i < length ns. nd_key (ns ! i) \<noteq> KNil"
  then have "{i. i < length ns \<and> nd_key (ns ! i) \<noteq> KNil} = {..<length ns}" by auto
  then show "used ns = length ns" by (simp add: used_def)
next
  assume "used ns = length ns"
  then have "{i. i < length ns \<and> nd_key (ns ! i) \<noteq> KNil} = {..<length ns}"
    unfolding used_def by (intro card_subset_eq) auto
  then show "\<forall>i < length ns. nd_key (ns ! i) \<noteq> KNil" by blast
qed

lemma next_index_iff:
  assumes "int sz \<le> 2 ^ 26"
  shows "(case k of KNumber n \<Rightarrow> luai_numeq n (cast_num (int sz + 1)) | _ \<Rightarrow> False) \<longleftrightarrow> aindex k = int sz + 1"
proof (cases k)
  case (KNumber n)
  have r: "0 < int sz + 1" "int sz + 1 < 2 ^ 31" using assms by simp_all
  show ?thesis
    using KNumber numeq_cast_num [OF r] numeq_sym [of n] arrayindex_pos [of n] arrayindex_cast_num [of "int sz + 1"] r by auto
qed simp_all

lemma newkey_step:
  assumes t: "table_ok (t :: 'v lua_table)" and k: "good_key k" "finds t k None"
  shows "(aindex k = int (sizearray t) + 1 \<and>
      newkey (Suc d) t k = and_then (rehash (newkey d) t k) (\<lambda>t. arrayornewkey (newkey d) t k)) \<or>
    (\<exists>t'. table_ok t' \<and> lt_array t' = lt_array t \<and> lt_node t' = lt_node t \<and> lt_dummy t' = lt_dummy t \<and>
      (lt_dummy t \<or> used (lt_node t) = sizenode t) \<and> aindex k \<noteq> int (sizearray t) + 1 \<and>
      newkey (Suc d) t k = and_then (rehash (newkey d) t' k) (\<lambda>t. arrayornewkey (newkey d) t k)) \<or>
    (\<not> lt_dummy t \<and> aindex k \<noteq> int (sizearray t) + 1 \<and> (\<exists>t' i. newkey (Suc d) t k = Inr (t', NodeSlot i) \<and> table_ok t' \<and> content t' = content t \<and>
      finds t' k (Some (NodeSlot i)) \<and> lt_array t' = lt_array t \<and> sizenode t' = sizenode t \<and> \<not> lt_dummy t' \<and>
      used (lt_node t') \<le> Suc (used (lt_node t)) \<and> keyset (lt_node t') \<subseteq> insert (canon k) (keyset (lt_node t))))"
proof -
  have sz: "int (sizearray t) \<le> 2 ^ 26" using table_okD(1) [OF t] by (metis of_nat_le_iff of_nat_numeral of_nat_power)
  define again :: "'v lua_table \<Rightarrow> ('v lua_table \<times> slot) table_result" where "again = (\<lambda>t. and_then (rehash (newkey d) t k) (\<lambda>t. arrayornewkey (newkey d) t k))"
  note step = newkey.simps(2) [of d t k, folded again_def, unfolded Let_def next_index_iff [OF sz]]
  consider "aindex k = int (sizearray t) + 1" | "aindex k \<noteq> int (sizearray t) + 1" "lt_dummy t" | "aindex k \<noteq> int (sizearray t) + 1" "\<not> lt_dummy t" by blast
  then show ?thesis
  proof cases
    case 1
    then show ?thesis using step by (simp add: again_def)
  next
    case 2
    then have "lt_lastfree t \<le> 0" using table_okD(3) [OF t] by blast
    then have "newkey (Suc d) t k = again t" using step 2 by (simp add: getfreepos_def)
    then show ?thesis using 2 t by (intro disjI2 disjI1 exI [of _ t]) (simp add: again_def)
  next
    case 3
    have fresh: "fresh (lt_node t) k" using k(2) by (simp add: finds_def)
    obtain f r where r: "insert_node (lt_node t) (lt_lastfree t) k = Inr (f, r)"
      "case r of None \<Rightarrow> (\<forall>i < sizenode t. nd_key (lt_node t ! i) \<noteq> KNil) \<and> lastfree_ok (lt_node t) f
         | Some (ns', i) \<Rightarrow> inserted (lt_node t) k ns' i \<and> lastfree_ok ns' f"
      using insert_node_correct [OF table_okD(2) [OF t] k(1) fresh table_okD(4) [OF t 3(2)]] by blast
    show ?thesis
    proof (cases r)
      case None
      let ?t = "t\<lparr>lt_lastfree := f\<rparr>"
      have "newkey (Suc d) t k = again ?t" using step 3 r(1) None by simp
      moreover have "used (lt_node t) = sizenode t" using r(2) None used_full by auto
      moreover have "table_ok ?t" using t r(2) None 3(2) unfolding table_ok_def by simp
      ultimately show ?thesis using 3 by (intro disjI2 disjI1 exI [of _ ?t]) (simp add: again_def)
    next
      case (Some p)
      obtain ns i where p: "p = (ns, i)" by (cases p)
      then have i: "inserted (lt_node t) k ns i" "lastfree_ok ns f" using r(2) Some by simp_all
      let ?t = "t\<lparr>lt_node := ns, lt_lastfree := f\<rparr>"
      have e: "newkey (Suc d) t k = Inr (?t, NodeSlot i)" using step 3 r(1) Some p by simp
      have in1: "length ns = sizenode t" "i < sizenode t" "nd_key (ns ! i) = k" "nodes_ok ns" "entries ns = entries (lt_node t)"
        using i(1) unfolding inserted_def by simp_all
      have keys: "nd_key (ns ! j) = k \<or> nd_key (ns ! j) \<in> nd_key ` set (lt_node t)" if "j < sizenode t" for j
        using i(1) that unfolding inserted_def by blast
      have ki: "\<not> (0 < aindex k \<and> aindex k \<le> int (sizearray t) + 1)" using k(2) 3(1) by (auto simp: finds_def)
      have "\<not> (0 < aindex (nd_key (ns ! j)) \<and> aindex (nd_key (ns ! j)) \<le> int (sizearray t) + 1)"
        if j: "j < sizenode t" "nd_key (ns ! j) \<noteq> KNil" for j
      proof (cases "nd_key (ns ! j) = k")
        case True
        then show ?thesis using ki by simp
      next
        case False
        then obtain j' where "j' < sizenode t" "nd_key (lt_node t ! j') = nd_key (ns ! j)"
          using keys [OF j(1)] by (auto simp: in_set_conv_nth)
        then show ?thesis using table_okD(5) [OF t, of j'] j(2) by simp
      qed
      then have ok: "table_ok ?t" using in1 i(2) 3(2) table_okD(1) [OF t] unfolding table_ok_def by simp
      obtain x where x: "\<forall>j < sizenode t. nd_key (ns ! j) \<noteq> KNil \<longrightarrow> j = x \<or> nd_key (lt_node t ! j) \<noteq> KNil"
        using i(1) unfolding inserted_def by blast
      have "{j. j < length ns \<and> nd_key (ns ! j) \<noteq> KNil} \<subseteq> insert x {j. j < sizenode t \<and> nd_key (lt_node t ! j) \<noteq> KNil}"
        using x in1(1) by auto
      then have "used ns \<le> card (insert x {j. j < sizenode t \<and> nd_key (lt_node t ! j) \<noteq> KNil})"
        unfolding used_def by (intro card_mono) auto
      also have "\<dots> \<le> Suc (used (lt_node t))" unfolding used_def by (simp add: card_insert_if)
      finally have us: "used ns \<le> Suc (used (lt_node t))" .
      have "content ?t = content t" by (simp add: content_def in1(5))
      moreover have "finds ?t k (Some (NodeSlot i))" using in1 good_not_nil [OF k(1)] by (simp add: finds_def)
      moreover have "keyset ns \<subseteq> insert (canon k) (keyset (lt_node t))"
      proof
        fix K assume "K \<in> keyset ns"
        then obtain j where j: "j < sizenode t" "nd_key (ns ! j) \<noteq> KNil" "K = canon (nd_key (ns ! j))"
          using in1(1) unfolding keyset_iff by auto
        then show "K \<in> insert (canon k) (keyset (lt_node t))" using keys [OF j(1)] by (auto simp: keyset_def)
      qed
      ultimately show ?thesis using e 3 ok us in1(1) by (intro disjI2 conjI exI [of _ ?t] exI [of _ i]) simp_all
    qed
  qed
qed

end
