(* ===== verification/Lua_Resize.thy ===== *)
theory Lua_Resize
  imports Lua_Access
begin

text \<open>
  Resizing: when the sizes are large enough for the keys and no key comes directly behind the array, the
  elements that are reinserted find their places without another rehash, and the contents of the table stay as they are.
\<close>

section \<open>Logarithms\<close>

lemma bit_length: "x < 2 ^ b \<Longrightarrow> b = 0 \<or> 2 ^ (b - 1) \<le> x \<Longrightarrow> b \<le> n \<longleftrightarrow> x < (2 :: nat) ^ n"
proof
  assume "x < 2 ^ b" "b \<le> n"
  then show "x < 2 ^ n" using power_increasing [of b n "2 :: nat"] by linarith
next
  assume n: "b = 0 \<or> 2 ^ (b - 1) \<le> x" "x < 2 ^ n"
  show "b \<le> n"
  proof (rule ccontr)
    assume "\<not> b \<le> n"
    then have "(2 :: nat) ^ n \<le> 2 ^ (b - 1)" by (intro power_increasing) simp_all
    moreover have "2 ^ (b - 1) \<le> x" using n(1) \<open>\<not> b \<le> n\<close> by auto
    ultimately show False using n(2) by linarith
  qed
qed

lemma LOG_2_correct: "x < 256 \<Longrightarrow> \<exists>b. LOG_2 ! x = int b \<and> (\<forall>n. b \<le> n \<longleftrightarrow> x < 2 ^ n)"
proof -
  assume "x < 256"
  then consider "x = 0" | "x = 1" | "2 \<le> x" "x < 4" | "4 \<le> x" "x < 8" | "8 \<le> x" "x < 16" | "16 \<le> x" "x < 32"
    | "32 \<le> x" "x < 64" | "64 \<le> x" "x < 128" | "128 \<le> x" "x < 256" by linarith
  then have "\<exists>b. LOG_2 ! x = int b \<and> x < 2 ^ b \<and> (b = 0 \<or> 2 ^ (b - 1) \<le> x)"
  proof cases
    case 1 then show ?thesis by (intro exI [of _ 0]) (simp add: LOG_2_def)
  next
    case 2 then show ?thesis by (intro exI [of _ 1]) (simp add: LOG_2_def)
  next
    case 3 then show ?thesis by (intro exI [of _ 2]) (simp add: LOG_2_def nth_append_left nth_append_right)
  next
    case 4 then show ?thesis by (intro exI [of _ 3]) (simp add: LOG_2_def nth_append_left nth_append_right)
  next
    case 5 then show ?thesis by (intro exI [of _ 4]) (simp add: LOG_2_def nth_append_left nth_append_right)
  next
    case 6 then show ?thesis by (intro exI [of _ 5]) (simp add: LOG_2_def nth_append_left nth_append_right)
  next
    case 7 then show ?thesis by (intro exI [of _ 6]) (simp add: LOG_2_def nth_append_left nth_append_right)
  next
    case 8 then show ?thesis by (intro exI [of _ 7]) (simp add: LOG_2_def nth_append_left nth_append_right)
  next
    case 9 then show ?thesis by (intro exI [of _ 8]) (simp add: LOG_2_def nth_append_left nth_append_right)
  qed
  then show ?thesis using bit_length by blast
qed

lemma luaO_log2_loop_correct: "\<exists>b. luaO_log2_loop l x = l + int b \<and> (\<forall>n. b \<le> n \<longleftrightarrow> x < 2 ^ n)"
proof (induction l x rule: luaO_log2_loop.induct)
  case (1 l x)
  show ?case
  proof (cases "x \<ge> 256")
    case False
    then obtain b where "LOG_2 ! x = int b" "\<forall>n. b \<le> n \<longleftrightarrow> x < 2 ^ n" using LOG_2_correct [of x] by auto
    then show ?thesis using False by (subst luaO_log2_loop.simps) simp
  next
    case True
    then obtain b where b: "luaO_log2_loop (l + 8) (x div 256) = l + 8 + int b" "\<And>n. b \<le> n \<longleftrightarrow> x div 256 < 2 ^ n"
      using 1 by blast
    have "b + 8 \<le> n \<longleftrightarrow> x < 2 ^ n" for n
    proof (cases "8 \<le> n")
      case n: True
      then have "(2 :: nat) ^ n = 2 ^ (n - 8) * 256" using power_add [of "2 :: nat" "n - 8" 8] by simp
      moreover have "b + 8 \<le> n \<longleftrightarrow> b \<le> n - 8" using n by linarith
      ultimately show ?thesis using b(2) [of "n - 8"] by (simp add: div_less_iff_less_mult)
    next
      case False
      then have "(2 :: nat) ^ n \<le> 2 ^ 8" by (intro power_increasing) simp_all
      then show ?thesis using True False by simp
    qed
    then show ?thesis using True b(1) by (subst luaO_log2_loop.simps) (auto intro!: exI [of _ "b + 8"])
  qed
qed

lemma ceillog2_correct:
  assumes "1 \<le> k" "k < 2 ^ 32"
  shows "\<exists>b. ceillog2 (word_of_int k) = int b \<and> (\<forall>n. b \<le> n \<longleftrightarrow> k \<le> 2 ^ n)"
proof -
  have w: "word_of_int k - 1 = (word_of_int (k - 1) :: u32)" by simp
  have "unat (word_of_int (k - 1) :: u32) = nat (k - 1)"
    using assms by (simp only: unat_eq_nat_uint uint_word_of_int) simp
  then obtain b where b: "luaO_log2 (word_of_int k - 1) = -1 + int b" "\<And>n. b \<le> n \<longleftrightarrow> nat (k - 1) < 2 ^ n"
    unfolding luaO_log2_def w using luaO_log2_loop_correct [of "-1" "nat (k - 1)"] by auto
  have "nat (k - 1) < 2 ^ n \<longleftrightarrow> k \<le> 2 ^ n" for n
    using assms(1) by (auto simp: nat_less_iff)
  then show ?thesis using b unfolding ceillog2_def by (intro exI [of _ b]) simp
qed

section \<open>Reinserting\<close>

definition settled :: "'v lua_table \<Rightarrow> bool" where "settled t \<longleftrightarrow> keyset (lt_node t) \<subseteq> fst ` content t"

definition outside :: "nat \<Rightarrow> lua_key \<Rightarrow> bool" where "outside n k \<longleftrightarrow> \<not> (0 < aindex k \<and> aindex k \<le> int n)"

lemma arrayornewkey_eq:
  assumes "table_ok t"
  shows "arrayornewkey nk t k = (if outside (sizearray t) k then nk t k else Inr (t, ArraySlot (nat (aindex k - 1))))"
proof (cases k)
  case (KNumber n)
  have sz: "int (sizearray t) \<le> 2 ^ 26" using table_okD(1) [OF assms] by (metis of_nat_le_iff of_nat_numeral of_nat_power)
  show ?thesis
    using KNumber in_array_iff [OF num2int_range sz, of n] by (auto simp: arrayornewkey_def outside_def arrayindex_def Let_def)
qed (simp_all add: arrayornewkey_def outside_def)

lemma store_frame:
  "store t s v = Inr t' \<Longrightarrow> sizearray t' = sizearray t \<and> sizenode t' = sizenode t \<and> lt_dummy t' = lt_dummy t \<and>
    used (lt_node t') = used (lt_node t) \<and> keyset (lt_node t') = keyset (lt_node t)"
proof (cases s)
  case (NodeSlot i)
  assume "store t s v = Inr t'"
  then have i: "i < sizenode t" "t' = t\<lparr>lt_node := (lt_node t)[i := (lt_node t ! i)\<lparr>nd_val := v\<rparr>]\<rparr>"
    using NodeSlot by (auto split: if_splits)
  have k: "nd_key (lt_node t' ! j) = nd_key (lt_node t ! j)" "sizenode t' = sizenode t" for j
    using i by (simp_all add: nth_list_update)
  have "keyset (lt_node t') = keyset (lt_node t)" unfolding set_eq_iff keyset_iff k by simp
  moreover have "used (lt_node t') = used (lt_node t)" unfolding used_def k by simp
  ultimately show ?thesis using i by simp
qed (auto split: if_splits)

definition grown :: "'v lua_table \<Rightarrow> 'v lua_table \<Rightarrow> nat \<Rightarrow> (lua_key \<times> 'v) set \<Rightarrow> bool" where
  "grown t t' n E \<longleftrightarrow> table_ok t' \<and> settled t' \<and> content t' = content t \<union> E \<and> sizearray t' = sizearray t \<and> sizenode t' = sizenode t \<and>
     lt_dummy t' = lt_dummy t \<and> used (lt_node t') \<le> used (lt_node t) + n"

lemma grown_trans: "grown t t' n E \<Longrightarrow> grown t' t'' m F \<Longrightarrow> grown t t'' (n + m) (E \<union> F)"
  unfolding grown_def by auto

lemma grown_refl: "table_ok t \<Longrightarrow> settled t \<Longrightarrow> grown t t 0 {}" by (simp add: grown_def)

lemma grown_cong: "grown t t' n E \<Longrightarrow> n \<le> m \<Longrightarrow> E = F \<Longrightarrow> grown t t' m F" unfolding grown_def by auto

lemma upd_fresh: "K \<notin> fst ` C \<Longrightarrow> upd C K (Some v) = C \<union> {(K, v)}" unfolding upd_def by force

lemma finds_settled: "settled t \<Longrightarrow> canon k \<notin> fst ` content t \<Longrightarrow> outside (sizearray t) k \<Longrightarrow> finds t k None"
  unfolding finds_def settled_def fresh_iff outside_def by auto

text \<open>One element whose key is not in the table.\<close>

lemma reinsert_step:
  assumes t: "table_ok t" "settled t" and k: "good_key k" "canon k \<notin> fst ` content t" "aindex k \<noteq> int (sizearray t) + 1"
    and room: "outside (sizearray t) k \<Longrightarrow> \<not> lt_dummy t \<and> used (lt_node t) < sizenode t"
  shows "\<exists>t'. and_then (arrayornewkey (newkey (Suc d)) t k) (\<lambda>(t, s). store t s (Some v)) = Inr t' \<and>
    grown t t' (if outside (sizearray t) k then 1 else 0) {(canon k, v)}"
proof (cases "outside (sizearray t) k")
  case False
  let ?s = "ArraySlot (nat (aindex k - 1))"
  have "finds t k (Some ?s)" using False by (auto simp: finds_def outside_def)
  then obtain t' where t': "store t ?s (Some v) = Inr t'" "table_ok t'" "content t' = upd (content t) (canon k) (Some v)"
    using store_finds [OF t(1) k(1)] by blast
  note f = store_frame [OF t'(1)]
  have "settled t'" using t(2) f unfolding settled_def t'(3) upd_fresh [OF k(2)] by auto
  then show ?thesis using False t' f upd_fresh [OF k(2)] by (simp add: arrayornewkey_eq [OF t(1)] grown_def)
next
  case True
  have fd: "finds t k None" using finds_settled [OF t(2) k(2) True] .
  have room': "\<not> lt_dummy t" "used (lt_node t) \<noteq> sizenode t" using room [OF True] by auto
  obtain t1 i where n: "newkey (Suc d) t k = Inr (t1, NodeSlot i)" "table_ok t1" "content t1 = content t"
      "finds t1 k (Some (NodeSlot i))" "lt_array t1 = lt_array t" "sizenode t1 = sizenode t" "\<not> lt_dummy t1"
      "used (lt_node t1) \<le> Suc (used (lt_node t))" "keyset (lt_node t1) \<subseteq> insert (canon k) (keyset (lt_node t))"
    using newkey_step [OF t(1) k(1) fd, of d] k(3) room' by blast
  obtain t' where t': "store t1 (NodeSlot i) (Some v) = Inr t'" "table_ok t'" "content t' = upd (content t1) (canon k) (Some v)"
    using store_finds [OF n(2) k(1) n(4)] by blast
  note f = store_frame [OF t'(1)]
  have c: "content t' = content t \<union> {(canon k, v)}" using t'(3) n(3) upd_fresh [OF k(2)] by simp
  have "keyset (lt_node t') \<subseteq> insert (canon k) (fst ` content t)" using f n(9) t(2) unfolding settled_def by auto
  then have "settled t'" unfolding settled_def c by auto
  then have "grown t t' 1 {(canon k, v)}" using t'(2) c f n(5-8) room' unfolding grown_def by simp
  then show ?thesis using True n(1) t'(1) by (simp add: arrayornewkey_eq [OF t(1)])
qed

text \<open>The old nodes.\<close>

definition node_entries :: "'v lua_node list \<Rightarrow> nat \<Rightarrow> (lua_key \<times> 'v) set" where
  "node_entries ns n = {(canon (nd_key (ns ! i)), v) | i v. i < n \<and> nd_val (ns ! i) = Some v}"

definition node_need :: "nat \<Rightarrow> 'v lua_node list \<Rightarrow> nat \<Rightarrow> nat" where
  "node_need sz ns n = card {i. i < n \<and> nd_val (ns ! i) \<noteq> None \<and> outside sz (nd_key (ns ! i))}"

lemma node_need_Suc: "node_need sz ns (Suc n) =
    node_need sz ns n + (if nd_val (ns ! n) \<noteq> None \<and> outside sz (nd_key (ns ! n)) then 1 else 0)"
proof -
  have "{i. i < Suc n \<and> nd_val (ns ! i) \<noteq> None \<and> outside sz (nd_key (ns ! i))} =
    (if nd_val (ns ! n) \<noteq> None \<and> outside sz (nd_key (ns ! n)) then {n} else {}) \<union>
      {i. i < n \<and> nd_val (ns ! i) \<noteq> None \<and> outside sz (nd_key (ns ! i))}" by (auto simp: less_Suc_eq)
  then show ?thesis by (simp add: node_need_def)
qed

lemma node_entries_Suc: "node_entries ns (Suc n) =
    (case nd_val (ns ! n) of None \<Rightarrow> {} | Some v \<Rightarrow> {(canon (nd_key (ns ! n)), v)}) \<union> node_entries ns n"
  unfolding node_entries_def by (auto simp: less_Suc_eq split: option.splits)

lemma reinsert_nodes_correct:
  assumes ok: "nodes_ok ns"
  shows "n \<le> length ns \<Longrightarrow> table_ok t \<Longrightarrow> settled t \<Longrightarrow>
    (\<And>i. i < n \<Longrightarrow> nd_val (ns ! i) \<noteq> None \<Longrightarrow> canon (nd_key (ns ! i)) \<notin> fst ` content t) \<Longrightarrow>
    (\<And>i. i < n \<Longrightarrow> nd_val (ns ! i) \<noteq> None \<Longrightarrow> aindex (nd_key (ns ! i)) \<noteq> int (sizearray t) + 1) \<Longrightarrow>
    (node_need (sizearray t) ns n \<noteq> 0 \<Longrightarrow> \<not> lt_dummy t \<and> used (lt_node t) + node_need (sizearray t) ns n \<le> sizenode t) \<Longrightarrow>
    \<exists>t'. reinsert_nodes (newkey (Suc d)) ns n t = Inr t' \<and> grown t t' (node_need (sizearray t) ns n) (node_entries ns n)"
proof (induction n arbitrary: t)
  case 0
  then show ?case using grown_refl by (auto simp: node_need_def node_entries_def)
next
  case (Suc n)
  note D = nodes_okD [OF ok]
  show ?case
  proof (cases "nd_val (ns ! n)")
    case None
    have "node_need (sizearray t) ns (Suc n) = node_need (sizearray t) ns n" "node_entries ns (Suc n) = node_entries ns n"
      using None by (simp_all add: node_need_Suc node_entries_Suc)
    moreover have "\<exists>t'. reinsert_nodes (newkey (Suc d)) ns n t = Inr t' \<and> grown t t' (node_need (sizearray t) ns n) (node_entries ns n)"
      using Suc.prems None by (intro Suc.IH) (simp_all add: node_need_Suc)
    ultimately show ?thesis using None by simp
  next
    case (Some v)
    let ?k = "nd_key (ns ! n)" and ?out = "outside (sizearray t) (nd_key (ns ! n))"
    have n: "n < length ns" "?k \<noteq> KNil" using Suc.prems(1) Some D(5) [of n] by auto
    then have g: "good_key ?k" using D(6) by blast
    have nv: "nd_val (ns ! n) \<noteq> None" using Some by simp
    have "\<exists>t1. and_then (arrayornewkey (newkey (Suc d)) t ?k) (\<lambda>(t, s). store t s (Some v)) = Inr t1 \<and>
        grown t t1 (if ?out then 1 else 0) {(canon ?k, v)}"
    proof (rule reinsert_step [OF Suc.prems(2,3) g])
      show "canon ?k \<notin> fst ` content t" by (rule Suc.prems(4) [OF lessI nv])
      show "aindex ?k \<noteq> int (sizearray t) + 1" by (rule Suc.prems(5) [OF lessI nv])
      assume "outside (sizearray t) ?k"
      then have "node_need (sizearray t) ns (Suc n) = Suc (node_need (sizearray t) ns n)" using nv by (simp add: node_need_Suc)
      then show "\<not> lt_dummy t \<and> used (lt_node t) < sizenode t" using Suc.prems(6) by simp
    qed
    then obtain t1 where t1: "and_then (arrayornewkey (newkey (Suc d)) t ?k) (\<lambda>(t, s). store t s (Some v)) = Inr t1"
        "grown t t1 (if ?out then 1 else 0) {(canon ?k, v)}" by blast
    then have f: "table_ok t1" "settled t1" "content t1 = content t \<union> {(canon ?k, v)}" "sizearray t1 = sizearray t"
        "sizenode t1 = sizenode t" "lt_dummy t1 = lt_dummy t" "used (lt_node t1) \<le> used (lt_node t) + (if ?out then 1 else 0)"
      unfolding grown_def by simp_all
    have need: "node_need (sizearray t) ns (Suc n) = node_need (sizearray t) ns n + (if ?out then 1 else 0)"
      using nv by (simp add: node_need_Suc)
    have "\<exists>t'. reinsert_nodes (newkey (Suc d)) ns n t1 = Inr t' \<and> grown t1 t' (node_need (sizearray t1) ns n) (node_entries ns n)"
    proof (rule Suc.IH)
      fix i assume i: "i < n" "nd_val (ns ! i) \<noteq> None"
      then have "nd_key (ns ! i) \<noteq> KNil" using D(5) [of i] n(1) by auto
      then have "canon (nd_key (ns ! i)) \<noteq> canon ?k" using D(7) [of i n] i n(1) by auto
      then show "canon (nd_key (ns ! i)) \<notin> fst ` content t1" unfolding f(3) using Suc.prems(4) [of i] i by simp
      show "aindex (nd_key (ns ! i)) \<noteq> int (sizearray t1) + 1" unfolding f(4) using Suc.prems(5) [of i] i by simp
    next
      assume "node_need (sizearray t1) ns n \<noteq> 0"
      then have "\<not> lt_dummy t \<and> used (lt_node t) + node_need (sizearray t) ns (Suc n) \<le> sizenode t"
        using Suc.prems(6) need unfolding f(4) by simp
      then show "\<not> lt_dummy t1 \<and> used (lt_node t1) + node_need (sizearray t1) ns n \<le> sizenode t1"
        using f(4-7) need by simp
    qed (use f Suc.prems(1) in simp_all)
    then obtain t' where t': "reinsert_nodes (newkey (Suc d)) ns n t1 = Inr t'" "grown t1 t' (node_need (sizearray t) ns n) (node_entries ns n)"
      unfolding f(4) by blast
    have "grown t t' (node_need (sizearray t) ns (Suc n)) (node_entries ns (Suc n))"
      by (rule grown_cong [OF grown_trans [OF t1(2) t'(2)]]) (simp_all add: need node_entries_Suc Some)
    moreover have "reinsert_nodes (newkey (Suc d)) ns (Suc n) t = Inr t'"
      using t'(1) nv by (simp only: reinsert_nodes.simps if_True not_False_eq_True t1(1) [folded Some] and_then_simps)
    ultimately show ?thesis by blast
  qed
qed

text \<open>The end of the old array.\<close>

definition tail_entries :: "nat \<Rightarrow> 'v option list \<Rightarrow> (lua_key \<times> 'v) set" where
  "tail_entries i es = {(array_key (int (i + j) + 1), v) | j v. j < length es \<and> es ! j = Some v}"

definition tail_need :: "'v option list \<Rightarrow> nat" where "tail_need es = length (filter (\<lambda>e. e \<noteq> None) es)"

lemma tail_entries_iff: "(K, v) \<in> tail_entries i es \<longleftrightarrow> (\<exists>j < length es. K = array_key (int (i + j) + 1) \<and> es ! j = Some v)"
  unfolding tail_entries_def by blast

lemma ex_less_Suc: "(\<exists>j < Suc n. P j) \<longleftrightarrow> P 0 \<or> (\<exists>j < n. P (Suc j))"
  by (metis less_Suc_eq_0_disj)

lemma tail_entries_Cons: "tail_entries i (e # es) =
    (case e of None \<Rightarrow> {} | Some v \<Rightarrow> {(array_key (int i + 1), v)}) \<union> tail_entries (i + 1) es"
proof -
  have "(K, v) \<in> tail_entries i (e # es) \<longleftrightarrow> (K = array_key (int i + 1) \<and> e = Some v) \<or> (K, v) \<in> tail_entries (i + 1) es" for K v
    unfolding tail_entries_iff list.size(4) add_Suc_right add_0_right ex_less_Suc by (simp add: add.commute add.left_commute)
  then show ?thesis by (auto split: option.splits)
qed

lemma reinsert_array_correct:
  "table_ok t \<Longrightarrow> settled t \<Longrightarrow> sizearray t \<le> i \<Longrightarrow> i + length es \<le> 2 ^ 26 \<Longrightarrow>
    (\<And>K. K \<in> fst ` tail_entries i es \<Longrightarrow> K \<notin> fst ` content t) \<Longrightarrow>
    (i = sizearray t \<Longrightarrow> es \<noteq> [] \<Longrightarrow> es ! 0 = None) \<Longrightarrow>
    (tail_need es \<noteq> 0 \<Longrightarrow> \<not> lt_dummy t \<and> used (lt_node t) + tail_need es \<le> sizenode t) \<Longrightarrow>
    \<exists>t'. reinsert_array (newkey (Suc d)) i es t = Inr t' \<and> grown t t' (tail_need es) (tail_entries i es)"
proof (induction es arbitrary: i t)
  case Nil
  then show ?case using grown_refl by (auto simp: tail_need_def tail_entries_def)
next
  case (Cons e es)
  show ?case
  proof (cases e)
    case None
    have eq: "tail_entries i (e # es) = tail_entries (i + 1) es" "tail_need (e # es) = tail_need es"
      using None by (simp_all add: tail_entries_Cons tail_need_def)
    have "\<exists>t'. reinsert_array (newkey (Suc d)) (i + 1) es t = Inr t' \<and> grown t t' (tail_need es) (tail_entries (i + 1) es)"
    proof (rule Cons.IH [OF Cons.prems(1,2)])
      show "sizearray t \<le> i + 1" "i + 1 + length es \<le> 2 ^ 26" using Cons.prems(3,4) by simp_all
      show "es ! 0 = None" if "i + 1 = sizearray t" using that Cons.prems(3) by simp
      show "\<And>K. K \<in> fst ` tail_entries (i + 1) es \<Longrightarrow> K \<notin> fst ` content t" using Cons.prems(5) eq(1) by metis
      show "\<not> lt_dummy t \<and> used (lt_node t) + tail_need es \<le> sizenode t" if "tail_need es \<noteq> 0"
        using Cons.prems(7) eq(2) that by metis
    qed
    then show ?thesis using None eq by simp
  next
    case (Some v)
    let ?k = "array_key (int i + 1)"
    have r: "0 < int i + 1" "int i + 1 < 2 ^ 31" using Cons.prems(4) by simp_all
    have ix: "aindex ?k = int i + 1" and cn: "canon ?k = ?k" and gd: "good_key ?k"
      using aindex_array_key [OF r] canon_array_key [OF r] good_array_key [OF r] by simp_all
    have ins: "(?k, v) \<in> tail_entries i (e # es)" by (simp add: tail_entries_Cons Some)
    have i: "i \<noteq> sizearray t" using Cons.prems(6) Some by auto
    then have out: "outside (sizearray t) ?k" using Cons.prems(3) unfolding outside_def ix by linarith
    have nd: "tail_need (e # es) = Suc (tail_need es)" using Some by (simp add: tail_need_def)
    have "\<exists>t1. and_then (arrayornewkey (newkey (Suc d)) t ?k) (\<lambda>(t, s). store t s (Some v)) = Inr t1 \<and>
        grown t t1 (if outside (sizearray t) ?k then 1 else 0) {(canon ?k, v)}"
    proof (rule reinsert_step [OF Cons.prems(1,2) gd])
      show "canon ?k \<notin> fst ` content t" unfolding cn using Cons.prems(5) [of ?k] ins by force
      show "aindex ?k \<noteq> int (sizearray t) + 1" using ix i by simp
      show "\<not> lt_dummy t \<and> used (lt_node t) < sizenode t" using Cons.prems(7) nd by simp
    qed
    then obtain t1 where t1: "and_then (newkey (Suc d) t ?k) (\<lambda>(t, s). store t s (Some v)) = Inr t1" "grown t t1 1 {(?k, v)}"
      using out cn by (auto simp: arrayornewkey_eq [OF Cons.prems(1)])
    then have f: "table_ok t1" "settled t1" "content t1 = content t \<union> {(?k, v)}" "sizearray t1 = sizearray t"
        "sizenode t1 = sizenode t" "lt_dummy t1 = lt_dummy t" "used (lt_node t1) \<le> used (lt_node t) + 1"
      unfolding grown_def by simp_all
    have "\<exists>t'. reinsert_array (newkey (Suc d)) (i + 1) es t1 = Inr t' \<and> grown t1 t' (tail_need es) (tail_entries (i + 1) es)"
    proof (rule Cons.IH [OF f(1,2)])
      show "sizearray t1 \<le> i + 1" "i + 1 + length es \<le> 2 ^ 26" using Cons.prems(3,4) f(4) by simp_all
      show "es ! 0 = None" if "i + 1 = sizearray t1" using that Cons.prems(3) f(4) by simp
      show "\<not> lt_dummy t1 \<and> used (lt_node t1) + tail_need es \<le> sizenode t1" using Cons.prems(7) nd f(5-7) by simp
      fix K assume K: "K \<in> fst ` tail_entries (i + 1) es"
      then obtain x where "(K, x) \<in> tail_entries (i + 1) es" by (metis imageE prod.collapse)
      then obtain j where j: "j < length es" "K = array_key (int (i + 1 + j) + 1)" unfolding tail_entries_iff by blast
      then have "K \<noteq> ?k" using array_key_inj [of "int (i + 1 + j) + 1" "int i + 1"] Cons.prems(4) by simp
      moreover have "K \<in> fst ` tail_entries i (e # es)" using K by (auto simp: tail_entries_Cons)
      ultimately show "K \<notin> fst ` content t1" unfolding f(3) using Cons.prems(5) [of K] by simp
    qed
    then obtain t' where t': "reinsert_array (newkey (Suc d)) (i + 1) es t1 = Inr t'" "grown t1 t' (tail_need es) (tail_entries (i + 1) es)"
      by blast
    have "grown t t' (tail_need (e # es)) (tail_entries i (e # es))"
      by (rule grown_cong [OF grown_trans [OF t1(2) t'(2)]]) (use nd in \<open>simp_all add: tail_entries_Cons Some\<close>)
    moreover have "reinsert_array (newkey (Suc d)) i (e # es) t = Inr t'"
      using t'(1) Some t1(1) [unfolded array_key_def]
      by (simp only: reinsert_array.simps option.distinct not_False_eq_True if_True and_then_simps)
    ultimately show ?thesis by blast
  qed
qed

section \<open>Resizing\<close>

lemma setnodevector_correct:
  assumes "0 \<le> sz" "sz \<le> 2 ^ 26"
  shows "setnodevector t sz = Inl TableOverflow \<or> (\<exists>n f. n \<le> 26 \<and> sz \<le> 2 ^ n \<and> (sz = 0 \<longrightarrow> n = 0 \<and> f \<le> 0) \<and> (sz \<noteq> 0 \<longrightarrow> f = 2 ^ n) \<and>
    setnodevector t sz = Inr (t\<lparr>lt_node := replicate (2 ^ n) free_node, lt_dummy := (sz = 0), lt_lastfree := f\<rparr>))"
proof (cases "sz = 0")
  case False
  obtain b where b: "ceillog2 (word_of_int sz) = int b" "\<And>n. b \<le> n \<longleftrightarrow> sz \<le> 2 ^ n"
    using ceillog2_correct [of sz] False assms by auto
  have "b \<le> 26" using b(2) [of 26] assms(2) by simp
  then show ?thesis using False b(1) b(2) [of b]
    by (intro disjI2 exI [of _ b] exI [of _ "2 ^ b"]) (simp add: setnodevector_def Let_def MAXBITS_def)
qed (auto simp: setnodevector_def intro!: exI [of _ "0 :: nat"])

lemma used_free [simp]: "used (replicate n free_node) = 0"
proof -
  have "{i. i < n \<and> nd_key (replicate n free_node ! i) \<noteq> KNil} = {}" by (auto simp: free_node_def)
  then show ?thesis by (simp add: used_def)
qed

lemma keyset_free [simp]: "keyset (replicate n free_node) = {}" by (auto simp: keyset_def free_node_def)

lemma entries_free [simp]: "entries (replicate n free_node) = {}" by (auto simp: entries_def free_node_def)

text \<open>A table with an array and empty nodes.\<close>

definition array_table :: "'v option list \<Rightarrow> 'v lua_table \<Rightarrow> bool" where
  "array_table arr t \<longleftrightarrow> table_ok t \<and> settled t \<and> lt_array t = arr \<and> used (lt_node t) = 0 \<and> entries (lt_node t) = {}"

lemma array_tableI:
  assumes "length arr \<le> 2 ^ 26" "n \<le> 26" "d \<longrightarrow> n = 0 \<and> f \<le> 0" "\<not> d \<longrightarrow> f = 2 ^ n"
  shows "array_table arr \<lparr>lt_array = arr, lt_node = replicate (2 ^ n) free_node, lt_dummy = d, lt_lastfree = f\<rparr>"
proof -
  have k: "nd_key free_node = KNil" by (simp add: free_node_def)
  show ?thesis
    using nodes_ok_free [OF assms(2)] assms unfolding array_table_def table_ok_def settled_def
    by (auto simp: lastfree_ok_def k)
qed

text \<open>The keys that need a node: \<open>tail_need\<close> and \<open>node_need\<close> count keys of the table outside of the new array.\<close>

lemma tail_need_card:
  "i + length es < 2 ^ 31 \<Longrightarrow> finite (fst ` tail_entries i es) \<and> card (fst ` tail_entries i es) = tail_need es"
proof (induction es arbitrary: i)
  case (Cons e es)
  have IH: "finite (fst ` tail_entries (i + 1) es)" "card (fst ` tail_entries (i + 1) es) = tail_need es"
    using Cons by simp_all
  have new: "array_key (int i + 1) \<notin> fst ` tail_entries (i + 1) es"
  proof
    assume "array_key (int i + 1) \<in> fst ` tail_entries (i + 1) es"
    then obtain x where "(array_key (int i + 1), x) \<in> tail_entries (i + 1) es" by (metis imageE prod.collapse)
    then obtain j where j: "j < length es" "array_key (int i + 1) = array_key (int (i + 1 + j) + 1)" unfolding tail_entries_iff by blast
    then show False using array_key_inj [of "int i + 1" "int (i + 1 + j) + 1"] Cons.prems by simp
  qed
  show ?case
  proof (cases e)
    case None
    then show ?thesis using IH by (simp add: tail_entries_Cons tail_need_def)
  next
    case (Some v)
    then show ?thesis using IH new by (simp add: tail_entries_Cons tail_need_def)
  qed
qed (simp add: tail_entries_def tail_need_def)

lemma node_need_card:
  assumes "nodes_ok ns"
  shows "node_need n ns (length ns) = card {K \<in> fst ` node_entries ns (length ns). outside n K}"
proof -
  let ?I = "{i. i < length ns \<and> nd_val (ns ! i) \<noteq> None \<and> outside n (nd_key (ns ! i))}"
  have key: "nd_key (ns ! i) \<noteq> KNil" if "i < length ns" "nd_val (ns ! i) \<noteq> None" for i
    using nodes_okD(5) [OF assms that(1)] that(2) by auto
  have out: "outside n (canon k) \<longleftrightarrow> outside n k" for k
    unfolding outside_def using aindex_canon [OF canon_canon, of k] by simp
  have "inj_on (\<lambda>i. canon (nd_key (ns ! i))) ?I"
    using key nodes_okD(7) [OF assms] by (intro inj_onI) blast
  then have "card ((\<lambda>i. canon (nd_key (ns ! i))) ` ?I) = card ?I" by (rule card_image)
  moreover have "(\<lambda>i. canon (nd_key (ns ! i))) ` ?I = {K \<in> fst ` node_entries ns (length ns). outside n K}"
    unfolding node_entries_def by (force simp: out image_iff)
  ultimately show ?thesis by (simp add: node_need_def)
qed

lemma content_split:
  assumes a: "array_table (take n (lt_array t) @ replicate m None) t'" and n: "n \<le> sizearray t"
  shows "content t = content t' \<union> tail_entries n (drop n (lt_array t)) \<union> node_entries (lt_node t) (sizenode t)"
proof -
  have 1: "(\<lambda>(k, v). (canon k, v)) ` entries (lt_node t) = node_entries (lt_node t) (sizenode t)"
    unfolding entries_def node_entries_def by (force simp: image_iff)
  have 2: "content t' = {(array_key (int i + 1), v) | i v. i < n \<and> lt_array t ! i = Some v}"
    using a n unfolding content_def array_table_def by (auto simp: nth_append) (metis add_less_imp_less_left le_add_diff_inverse not_less nth_replicate option.distinct(1))+
  have cut: "(\<exists>i < sizearray t. P i) \<longleftrightarrow> (\<exists>i < n. P i) \<or> (\<exists>j < sizearray t - n. P (n + j))" for P
  proof
    assume "\<exists>i < sizearray t. P i"
    then obtain i where i: "i < sizearray t" "P i" by blast
    show "(\<exists>i < n. P i) \<or> (\<exists>j < sizearray t - n. P (n + j))"
    proof (cases "i < n")
      case False
      then show ?thesis using i by (intro disjI2 exI [of _ "i - n"]) simp
    qed (use i in blast)
  next
    assume "(\<exists>i < n. P i) \<or> (\<exists>j < sizearray t - n. P (n + j))"
    then show "\<exists>i < sizearray t. P i" using n by (metis less_diff_conv2 add.commute less_diff_conv less_le_trans)
  qed
  have 3: "(K, v) \<in> {(array_key (int i + 1), v) | i v. i < sizearray t \<and> lt_array t ! i = Some v} \<longleftrightarrow>
      (K, v) \<in> {(array_key (int i + 1), v) | i v. i < n \<and> lt_array t ! i = Some v} \<union> tail_entries n (drop n (lt_array t))" for K v
    unfolding tail_entries_def using n cut [of "\<lambda>i. K = array_key (int i + 1) \<and> lt_array t ! i = Some v"] by simp blast
  show ?thesis unfolding 2 unfolding content_def 1 using 3 by (simp only: set_eq_iff split_paired_All Un_iff) blast
qed

lemma content_keys_good: "table_ok t \<Longrightarrow> K \<in> fst ` content t \<Longrightarrow> canon K = K"
proof -
  assume t: "table_ok t" and "K \<in> fst ` content t"
  then obtain v where "(K, v) \<in> content t" by (metis imageE prod.collapse)
  then show "canon K = K"
    by (cases rule: content_cases) (use canon_array_key array_index_range [OF t] in auto)
qed

lemma content_unique:
  assumes t: "table_ok t" and c: "(K, v) \<in> content t" "(K, w) \<in> content t"
  shows "v = w"
  using c(1)
proof (cases rule: content_cases)
  case (1 i)
  then have "aindex K = int i + 1" "canon K = K" using aindex_array_key canon_array_key array_index_range [OF t 1(1)] by simp_all
  then show ?thesis using content_index [OF t _ 1(1), of K K w] c(2) 1(2) by simp
next
  case (2 i)
  then have "nd_key (lt_node t ! i) \<noteq> KNil" using nodes_okD(5) [OF table_okD(2) [OF t] 2(1)] by auto
  then show ?thesis using content_at_node [OF t 2(1) _ 2(3), of w] c(2) 2(2) by simp
qed

lemma tail_keys: "K \<in> fst ` tail_entries n es \<Longrightarrow> \<exists>j < length es. K = array_key (int (n + j) + 1)"
  by (metis imageE prod.collapse tail_entries_iff)

lemma node_keys: "K \<in> fst ` node_entries ns n \<Longrightarrow> \<exists>i < n. nd_val (ns ! i) \<noteq> None \<and> K = canon (nd_key (ns ! i))"
  unfolding node_entries_def by force

text \<open>The nodes that are needed, counted in the contents.\<close>

lemma need_card:
  assumes t: "table_ok t" and n: "n \<le> sizearray t"
    and c: "content t = C \<union> tail_entries n (drop n (lt_array t)) \<union> node_entries (lt_node t) (sizenode t)"
    and C: "\<And>K. K \<in> fst ` C \<Longrightarrow> \<not> outside m K" and m: "m = n \<or> sizearray t = n" "n \<le> m"
  shows "tail_need (drop n (lt_array t)) + node_need m (lt_node t) (sizenode t) \<le> card {K \<in> fst ` content t. outside m K}"
proof -
  let ?T = "fst ` tail_entries n (drop n (lt_array t))" and ?N = "{K \<in> fst ` node_entries (lt_node t) (sizenode t). outside m K}"
  have sz: "sizearray t \<le> 2 ^ 26" using table_okD(1) [OF t] .
  have T: "finite ?T" "card ?T = tail_need (drop n (lt_array t))" using tail_need_card [of n "drop n (lt_array t)"] n sz by simp_all
  have "?N \<subseteq> (\<lambda>i. canon (nd_key (lt_node t ! i))) ` {..<sizenode t}" using node_keys by blast
  then have fN: "finite ?N" by (rule finite_subset) simp
  have Tout: "outside m K \<and> 0 < aindex K \<and> aindex K \<le> int (sizearray t)" if K: "K \<in> ?T" for K
  proof -
    obtain j where j: "j < sizearray t - n" "K = array_key (int (n + j) + 1)" using tail_keys [OF K] by auto
    then have a: "aindex K = int (n + j) + 1" using aindex_array_key [of "int (n + j) + 1"] sz by simp
    then have "m = n" using j m by auto
    then show ?thesis using a j(1) by (simp add: outside_def)
  qed
  have disj: "?T \<inter> ?N = {}"
  proof (rule ccontr)
    assume "?T \<inter> ?N \<noteq> {}"
    then obtain K where K: "K \<in> ?T" "K \<in> ?N" by blast
    then obtain i where i: "i < sizenode t" "nd_val (lt_node t ! i) \<noteq> None" "K = canon (nd_key (lt_node t ! i))" using node_keys by blast
    then have "nd_key (lt_node t ! i) \<noteq> KNil" using nodes_okD(5) [OF table_okD(2) [OF t] i(1)] by auto
    moreover have "aindex (nd_key (lt_node t ! i)) = aindex K" using i(3) aindex_canon [OF canon_canon] by metis
    ultimately show False using table_okD(5) [OF t i(1)] Tout [OF K(1)] by simp
  qed
  have "{K \<in> fst ` content t. outside m K} = ?T \<union> ?N"
    unfolding c image_Un using C Tout by blast
  then show ?thesis
    using card_Un_disjoint [OF T(1) fN disj] T(2) node_need_card [OF table_okD(2) [OF t], of m] by simp
qed

text \<open>The keys of a table that has only the first elements of the array, and the two reinsertions into it.\<close>

lemma array_table_keys:
  assumes at: "array_table (take n (lt_array t) @ replicate m None) t2" and n: "n \<le> sizearray t" "n \<le> 2 ^ 26"
    and K: "K \<in> fst ` content t2"
  shows "0 < aindex K \<and> aindex K \<le> int n"
proof -
  have a: "lt_array t2 = take n (lt_array t) @ replicate m None" "entries (lt_node t2) = {}" using at unfolding array_table_def by simp_all
  obtain v where "(K, v) \<in> content t2" using K by (metis imageE prod.collapse)
  then obtain i where i: "i < sizearray t2" "lt_array t2 ! i = Some v" "K = array_key (int i + 1)"
    unfolding content_def a(2) by blast
  have "i < n"
  proof (rule ccontr)
    assume "\<not> i < n"
    then have "lt_array t2 ! i = replicate m None ! (i - n)" "i - n < m" using i(1) n(1) unfolding a(1) by (simp_all add: nth_append)
    then show False using i(2) by simp
  qed
  moreover have "aindex K = int i + 1" using aindex_array_key [of "int i + 1"] i(3) \<open>i < n\<close> n(2) by simp
  ultimately show ?thesis by simp
qed

lemma resize_tail:
  assumes t: "table_ok t" and at: "array_table (take n (lt_array t) @ replicate (m - n) None) t2" and n: "n = min m (sizearray t)"
    and m: "m < sizearray t \<Longrightarrow> lt_array t ! m = None"
    and room: "tail_need (drop n (lt_array t)) \<noteq> 0 \<Longrightarrow> \<not> lt_dummy t2 \<and> tail_need (drop n (lt_array t)) \<le> sizenode t2"
  shows "\<exists>t3. (if m < sizearray t then reinsert_array (newkey (Suc d)) m (drop m (lt_array t)) t2 else Inr t2) = Inr t3 \<and>
    grown t2 t3 (tail_need (drop n (lt_array t))) (tail_entries n (drop n (lt_array t)))"
proof (cases "m < sizearray t")
  case False
  then have "drop n (lt_array t) = []" using n by simp
  then have "tail_need (drop n (lt_array t)) = 0" "tail_entries n (drop n (lt_array t)) = {}"
    by (simp_all add: tail_need_def tail_entries_def)
  then show ?thesis using False grown_refl [of t2] at unfolding array_table_def by simp
next
  case True
  then have mn: "n = m" using n by simp
  have sz: "sizearray t \<le> 2 ^ 26" using table_okD(1) [OF t] .
  have t2: "table_ok t2" "settled t2" "sizearray t2 = m" "used (lt_node t2) = 0"
    using at True mn unfolding array_table_def by simp_all
  have "\<exists>t3. reinsert_array (newkey (Suc d)) m (drop m (lt_array t)) t2 = Inr t3 \<and>
    grown t2 t3 (tail_need (drop m (lt_array t))) (tail_entries m (drop m (lt_array t)))"
  proof (rule reinsert_array_correct [OF t2(1,2)])
    show "m + length (drop m (lt_array t)) \<le> 2 ^ 26" using True sz by simp
    show "K \<notin> fst ` content t2" if K: "K \<in> fst ` tail_entries m (drop m (lt_array t))" for K
    proof
      assume "K \<in> fst ` content t2"
      then have "aindex K \<le> int m" using array_table_keys [OF at] mn True sz by simp
      moreover obtain j where j: "j < sizearray t - m" "K = array_key (int (m + j) + 1)" using tail_keys [OF K] by auto
      moreover have "aindex K = int (m + j) + 1" unfolding j(2) by (rule aindex_array_key) (use j(1) sz in simp_all)
      ultimately show False by simp
    qed
    show "drop m (lt_array t) ! 0 = None" using m [OF True] True by simp
    show "\<not> lt_dummy t2 \<and> used (lt_node t2) + tail_need (drop m (lt_array t)) \<le> sizenode t2"
      if "tail_need (drop m (lt_array t)) \<noteq> 0" using room that mn t2(4) by simp
  qed (use t2(3) in simp_all)
  then show ?thesis using True mn by simp
qed

lemma fst_mem: "(K, v) \<in> C \<Longrightarrow> K \<in> fst ` C" by force

lemma resize_nodes:
  assumes t: "table_ok t" and t3: "table_ok t3" "settled t3" "\<And>K. K \<in> fst ` content t3 \<Longrightarrow> 0 < aindex K \<and> aindex K \<le> int (sizearray t)"
    and border: "\<And>K. K \<in> fst ` content t \<Longrightarrow> aindex K \<noteq> int (sizearray t3) + 1"
    and room: "node_need (sizearray t3) (lt_node t) (sizenode t) \<noteq> 0 \<Longrightarrow>
      \<not> lt_dummy t3 \<and> used (lt_node t3) + node_need (sizearray t3) (lt_node t) (sizenode t) \<le> sizenode t3"
  shows "\<exists>t4. reinsert_nodes (newkey (Suc d)) (lt_node t) (sizenode t) t3 = Inr t4 \<and>
    grown t3 t4 (node_need (sizearray t3) (lt_node t) (sizenode t)) (node_entries (lt_node t) (sizenode t))"
proof (rule reinsert_nodes_correct [OF table_okD(2) [OF t] order_refl t3(1,2)])
  fix i assume i: "i < sizenode t" "nd_val (lt_node t ! i) \<noteq> None"
  let ?K = "canon (nd_key (lt_node t ! i))"
  have k: "nd_key (lt_node t ! i) \<noteq> KNil" using nodes_okD(5) [OF table_okD(2) [OF t] i(1)] i(2) by auto
  have a: "aindex ?K = aindex (nd_key (lt_node t ! i))" by (rule aindex_canon) simp
  show "?K \<notin> fst ` content t3"
  proof
    assume "?K \<in> fst ` content t3"
    then have "0 < aindex ?K \<and> aindex ?K \<le> int (sizearray t)" by (rule t3(3))
    then show False using table_okD(5) [OF t i(1) k] a by linarith
  qed
  obtain v where "nd_val (lt_node t ! i) = Some v" using i(2) by blast
  then have "?K \<in> fst ` content t" by (rule fst_mem [OF content_node [OF i(1)]])
  then have "aindex ?K \<noteq> int (sizearray t3) + 1" by (rule border)
  then show "aindex (nd_key (lt_node t ! i)) \<noteq> int (sizearray t3) + 1" unfolding a .
qed (rule room)

lemma grown_keys:
  assumes t: "table_ok t" and n: "n \<le> sizearray t"
    and C: "\<And>K. K \<in> fst ` C \<Longrightarrow> 0 < aindex K \<and> aindex K \<le> int n"
    and K: "K \<in> fst ` (C \<union> tail_entries n (drop n (lt_array t)))"
  shows "0 < aindex K \<and> aindex K \<le> int (sizearray t)"
proof (cases "K \<in> fst ` C")
  case True
  then show ?thesis using C n by force
next
  case False
  then have "K \<in> fst ` tail_entries n (drop n (lt_array t))" using K by auto
  then obtain j where j: "j < sizearray t - n" "K = array_key (int (n + j) + 1)" using tail_keys by force
  then show ?thesis using aindex_array_key [of "int (n + j) + 1"] table_okD(1) [OF t] by simp
qed

definition resized :: "'v lua_table \<Rightarrow> int \<Rightarrow> int \<Rightarrow> 'v lua_table \<Rightarrow> bool" where
  "resized t nasize nhsize t' \<longleftrightarrow> table_ok t' \<and> settled t' \<and> content t' = content t \<and> int (sizearray t') = nasize \<and>
     used (lt_node t') \<le> card {K \<in> fst ` content t. outside (nat nasize) K} \<and>
     (nhsize \<noteq> 0 \<longrightarrow> \<not> lt_dummy t' \<and> nhsize \<le> int (sizenode t'))"

lemma resize_run:
  assumes t: "table_ok t" and border: "\<And>K. K \<in> fst ` content t \<Longrightarrow> aindex K \<noteq> int m + 1" and m26: "m \<le> 2 ^ 26"
    and h: "int (card {K \<in> fst ` content t. outside m K}) \<le> nhsize" and n: "n = min m (sizearray t)"
    and k: "k \<le> 26" "nhsize \<le> 2 ^ k" "nhsize = 0 \<longrightarrow> k = 0 \<and> f \<le> 0" "nhsize \<noteq> 0 \<longrightarrow> f = 2 ^ k"
    and t2: "t2 = \<lparr>lt_array = take n (lt_array t) @ replicate (m - n) None, lt_node = replicate (2 ^ k) free_node,
      lt_dummy = (nhsize = 0), lt_lastfree = f\<rparr>"
  shows "\<exists>t3 t4. (if m < sizearray t then reinsert_array (newkey (Suc d)) m (drop m (lt_array t)) t2 else Inr t2) = Inr t3 \<and>
    reinsert_nodes (newkey (Suc d)) (lt_node t) (sizenode t) t3 = Inr t4 \<and> resized t (int m) nhsize t4"
proof -
  let ?E = "card {K \<in> fst ` content t. outside m K}" and ?T = "tail_need (drop n (lt_array t))"
    and ?N = "node_need m (lt_node t) (sizenode t)"
  have nle: "n \<le> sizearray t" "n \<le> 2 ^ 26" "n \<le> m" using n m26 by simp_all
  have at: "array_table (take n (lt_array t) @ replicate (m - n) None) t2" unfolding t2 by (rule array_tableI) (use n m26 k in auto)
  note keys2 = array_table_keys [OF at nle(1,2)]
  have s: "sizenode t2 = 2 ^ k" "lt_dummy t2 \<longleftrightarrow> nhsize = 0" "used (lt_node t2) = 0" "sizearray t2 = m" using n unfolding t2 by simp_all
  have c: "content t = content t2 \<union> tail_entries n (drop n (lt_array t)) \<union> node_entries (lt_node t) (sizenode t)"
    by (rule content_split [OF at nle(1)])
  have need: "?T + ?N \<le> ?E"
  proof (rule need_card [OF t nle(1) c])
    show "\<not> outside m K" if "K \<in> fst ` content t2" for K using keys2 [OF that] nle(3) unfolding outside_def by linarith
  qed (use n in auto)
  have room: "nhsize \<noteq> 0 \<and> x \<le> 2 ^ k" if "x \<le> ?E" "x \<noteq> 0" for x
  proof -
    have "0 < int x" "int x \<le> nhsize" using that h by linarith+
    then have "nhsize \<noteq> 0" "int x \<le> 2 ^ k" using k(2) by linarith+
    then show ?thesis by (metis of_nat_le_iff of_nat_numeral of_nat_power)
  qed
  have mid: "lt_array t ! m = None" if "m < sizearray t"
  proof (cases "lt_array t ! m")
    case (Some v)
    then have "array_key (int m + 1) \<in> fst ` content t" using content_array [OF that] by force
    then show ?thesis using border aindex_array_key [of "int m + 1"] m26 by auto
  qed
  have "?T \<noteq> 0 \<Longrightarrow> \<not> lt_dummy t2 \<and> ?T \<le> sizenode t2" using room [of ?T] need unfolding s by linarith
  then obtain t3 where t3: "(if m < sizearray t then reinsert_array (newkey (Suc d)) m (drop m (lt_array t)) t2 else Inr t2) = Inr t3"
      "grown t2 t3 ?T (tail_entries n (drop n (lt_array t)))"
    using resize_tail [OF t at n mid] by blast
  then have g: "table_ok t3" "settled t3" "content t3 = content t2 \<union> tail_entries n (drop n (lt_array t))" "sizearray t3 = m"
      "sizenode t3 = 2 ^ k" "lt_dummy t3 \<longleftrightarrow> nhsize = 0" "used (lt_node t3) \<le> ?T"
    using s unfolding grown_def by auto
  have k3: "0 < aindex K \<and> aindex K \<le> int (sizearray t)" if "K \<in> fst ` content t3" for K
    by (rule grown_keys [OF t nle(1) keys2 that [unfolded g(3)]])
  have "\<not> lt_dummy t3 \<and> used (lt_node t3) + ?N \<le> sizenode t3" if "?N \<noteq> 0"
    using room [of "used (lt_node t3) + ?N"] that need g(7) unfolding g(5,6) by linarith
  then have "\<exists>t4. reinsert_nodes (newkey (Suc d)) (lt_node t) (sizenode t) t3 = Inr t4 \<and>
      grown t3 t4 ?N (node_entries (lt_node t) (sizenode t))"
    using resize_nodes [OF t g(1,2) k3, of d, unfolded g(4), OF _ border] by blast
  then obtain t4 where t4: "reinsert_nodes (newkey (Suc d)) (lt_node t) (sizenode t) t3 = Inr t4"
      "grown t3 t4 ?N (node_entries (lt_node t) (sizenode t))"
    by blast
  have "used (lt_node t4) \<le> ?E" using t4(2) g(7) need unfolding grown_def by linarith
  then have "resized t (int m) nhsize t4" using t4(2) g k(2) c unfolding grown_def resized_def by simp
  then show ?thesis using t3(1) t4(1) by blast
qed

lemma resize_correct:
  assumes t: "table_ok t" and a: "0 \<le> nasize" "\<And>K. K \<in> fst ` content t \<Longrightarrow> aindex K \<noteq> nasize + 1"
    and h: "int (card {K \<in> fst ` content t. outside (nat nasize) K}) \<le> nhsize"
  shows "resize (newkey (Suc d)) t nasize nhsize = Inl TableOverflow \<or>
    (\<exists>t'. resize (newkey (Suc d)) t nasize nhsize = Inr t' \<and> resized t nasize nhsize t')"
proof (cases "nasize > MAXSIZE \<or> nhsize > MAXSIZE")
  case True
  then show ?thesis by (simp add: resize_def)
next
  case False
  obtain m where m: "nasize = int m" using a(1) nonneg_int_cases by blast
  have sizes: "m \<le> 2 ^ 26" "nhsize \<le> 2 ^ 26" "0 \<le> nhsize" using False h m by (simp_all add: MAXSIZE_def)
  let ?t1 = "t\<lparr>lt_array := lt_array t @ replicate (m - sizearray t) None\<rparr>"
  have grow: "(if nasize > int (sizearray t) then setarrayvector t nasize else Inr t) = Inr ?t1"
    using sizes(1) m by (simp add: setarrayvector_def MAXSIZE_def)
  show ?thesis
  proof (cases "setnodevector ?t1 nhsize = Inl TableOverflow")
    case True
    then show ?thesis unfolding resize_def Let_def grow using False by simp
  next
    case ok: False
    then obtain k f where k: "k \<le> 26" "nhsize \<le> 2 ^ k" "nhsize = 0 \<longrightarrow> k = 0 \<and> f \<le> 0" "nhsize \<noteq> 0 \<longrightarrow> f = 2 ^ k"
        "setnodevector ?t1 nhsize = Inr (?t1\<lparr>lt_node := replicate (2 ^ k) free_node, lt_dummy := (nhsize = 0), lt_lastfree := f\<rparr>)"
      using setnodevector_correct [OF sizes(3,2), of ?t1] by blast
    let ?n = "min m (sizearray t)"
    let ?t2 = "\<lparr>lt_array = take ?n (lt_array t) @ replicate (m - ?n) None, lt_node = replicate (2 ^ k) free_node,
      lt_dummy = (nhsize = 0), lt_lastfree = f\<rparr> :: 'a lua_table"
    obtain t3 t4 where run: "(if m < sizearray t then reinsert_array (newkey (Suc d)) m (drop m (lt_array t)) ?t2 else Inr ?t2) = Inr t3"
        "reinsert_nodes (newkey (Suc d)) (lt_node t) (sizenode t) t3 = Inr t4" "resized t (int m) nhsize t4"
      using resize_run [OF t a(2) [unfolded m] sizes(1) h [unfolded m nat_int] refl k(1-4) refl, of d] by blast
    have "(if nasize < int (sizearray t)
        then reinsert_array (newkey (Suc d)) (nat nasize) (drop (nat nasize) (lt_array t))
          (?t1\<lparr>lt_node := replicate (2 ^ k) free_node, lt_dummy := (nhsize = 0), lt_lastfree := f, lt_array := take (nat nasize) (lt_array t)\<rparr>)
        else Inr (?t1\<lparr>lt_node := replicate (2 ^ k) free_node, lt_dummy := (nhsize = 0), lt_lastfree := f\<rparr>)) = Inr t3"
      using run(1) unfolding m by (cases t) (simp add: min_def split: if_splits)
    then have "resize (newkey (Suc d)) t nasize nhsize = Inr t4"
      using False k(5) run(2) unfolding resize_def Let_def grow by simp
    then show ?thesis using run(3) m by blast
  qed
qed

end
