(* ===== verification/Lua_Rehash.thy ===== *)
theory Lua_Rehash
  imports Lua_Resize
begin

text \<open>
  Rehashing: the histogram of the integer keys, the size that \<open>computesizes\<close> and \<open>adjustasize\<close> choose for the array,
  and the consequence that \<open>resize\<close> has room for every element and for the new key. The operations \<open>newkey\<close> and
  \<open>lua_h_set\<close> follow: they return a place for the key in a table with the same contents.
\<close>

section \<open>Histograms\<close>

definition below :: "nat \<Rightarrow> int" where "below lg = (if lg = 0 then 0 else 2 ^ (lg - 1))"

definition slice :: "nat \<Rightarrow> int set" where "slice lg = {below lg <.. 2 ^ lg}"

lemma below_Suc [simp]: "below (Suc lg) = 2 ^ lg" by (simp add: below_def)

lemma below_nonneg: "0 \<le> below lg" by (simp add: below_def)

lemma below_le: "below lg \<le> 2 ^ lg" by (simp add: below_def power_increasing)

lemma slice_log: "a \<in> slice b \<Longrightarrow> b \<le> n \<longleftrightarrow> a \<le> 2 ^ n"
proof
  assume "a \<in> slice b" "b \<le> n"
  moreover have "(2 :: int) ^ b \<le> 2 ^ n" using \<open>b \<le> n\<close> by (intro power_increasing) simp_all
  ultimately show "a \<le> 2 ^ n" unfolding slice_def greaterThanAtMost_iff by linarith
next
  assume a: "a \<in> slice b" "a \<le> 2 ^ n"
  show "b \<le> n"
  proof (rule ccontr)
    assume "\<not> b \<le> n"
    then have "(2 :: int) ^ n \<le> below b" by (simp add: below_def power_increasing)
    then show False using a by (simp add: slice_def)
  qed
qed

lemma slice_unique: "a \<in> slice b \<Longrightarrow> a \<in> slice c \<Longrightarrow> b = c"
  using slice_log by (metis order_antisym order_refl)

lemma ceillog2_slice:
  assumes "1 \<le> a" "a < 2 ^ 32"
  shows "\<exists>b. ceillog2 (word_of_int a) = int b \<and> a \<in> slice b"
proof -
  obtain b where b: "ceillog2 (word_of_int a) = int b" "\<And>n. b \<le> n \<longleftrightarrow> a \<le> 2 ^ n" using ceillog2_correct [OF assms] by blast
  have "\<not> a \<le> 2 ^ (b - 1)" if "b \<noteq> 0"
  proof -
    have "\<not> b \<le> b - 1" using that by simp
    then show ?thesis using b(2) by blast
  qed
  then have "below b < a" using assms(1) by (auto simp: below_def)
  then have "a \<in> slice b" using b(2) [of b] by (simp add: slice_def)
  then show ?thesis using b(1) by blast
qed

definition is_hist :: "int list \<Rightarrow> int set \<Rightarrow> bool" where
  "is_hist nums A \<longleftrightarrow> length nums = 27 \<and> finite A \<and> A \<subseteq> {1..2 ^ 26} \<and> (\<forall>lg < 27. nums ! lg = int (card (A \<inter> slice lg)))"

lemma hist_empty: "is_hist (replicate (MAXBITS + 1) 0) {}" by (simp add: is_hist_def MAXBITS_def)

lemma hist_union:
  assumes h: "is_hist nums A" and B: "finite B" "B \<subseteq> {1..2 ^ 26}" "B \<subseteq> slice b" "A \<inter> B = {}" "b < 27"
  shows "add_num nums (int b) (int (card B)) = Inr (nums[b := nums ! b + int (card B)])"
    "is_hist (nums[b := nums ! b + int (card B)]) (A \<union> B)"
proof -
  have H: "length nums = 27" "finite A" "A \<subseteq> {1..2 ^ 26}" "\<And>lg. lg < 27 \<Longrightarrow> nums ! lg = int (card (A \<inter> slice lg))"
    using h by (auto simp: is_hist_def)
  show "add_num nums (int b) (int (card B)) = Inr (nums[b := nums ! b + int (card B)])"
    using H(1) B(5) by (simp add: add_num_def)
  have "nums[b := nums ! b + int (card B)] ! lg = int (card ((A \<union> B) \<inter> slice lg))" if lg: "lg < 27" for lg
  proof (cases "lg = b")
    case True
    have "(A \<union> B) \<inter> slice b = (A \<inter> slice b) \<union> B" using B(3) by blast
    moreover have "card ((A \<inter> slice b) \<union> B) = card (A \<inter> slice b) + card B" using H(2) B(1,4) by (intro card_Un_disjoint) auto
    ultimately show ?thesis using True H(1,4) lg by simp
  next
    case False
    then have "(A \<union> B) \<inter> slice lg = A \<inter> slice lg" using B(3) slice_unique by blast
    then show ?thesis using False H(4) [OF lg] by simp
  qed
  then show "is_hist (nums[b := nums ! b + int (card B)]) (A \<union> B)" using H(1-3) B(1,2) unfolding is_hist_def by simp
qed

section \<open>Counting\<close>

definition array_indices :: "'v option list \<Rightarrow> int set" where
  "array_indices arr = {int i + 1 | i. i < length arr \<and> arr ! i \<noteq> None}"

lemma array_indices_bounds: "a \<in> array_indices arr \<Longrightarrow> 1 \<le> a \<and> a \<le> int (length arr)"
  by (auto simp: array_indices_def)

lemma finite_array_indices [simp]: "finite (array_indices arr)"
  by (rule finite_subset [of _ "{1..int (length arr)}"]) (auto simp: array_indices_def)

lemma count_slice_card:
  "0 < i \<Longrightarrow> i + n \<le> length arr + 1 \<Longrightarrow> count_slice arr i n = int (card {a \<in> array_indices arr. int i \<le> a \<and> a < int (i + n)})"
proof (induction n arbitrary: i)
  case (Suc n)
  let ?S = "\<lambda>i n. {a \<in> array_indices arr. int i \<le> a \<and> a < int (i + n)}"
  have ind: "int i \<in> array_indices arr \<longleftrightarrow> arr ! (i - 1) \<noteq> None"
  proof
    assume "int i \<in> array_indices arr"
    then obtain j where "int i = int j + 1" "arr ! j \<noteq> None" unfolding array_indices_def by blast
    then show "arr ! (i - 1) \<noteq> None" by (metis add_diff_cancel_right' of_nat_1 of_nat_add of_nat_eq_iff)
  next
    assume "arr ! (i - 1) \<noteq> None"
    then show "int i \<in> array_indices arr" using Suc.prems unfolding array_indices_def
      by (intro CollectI exI [of _ "i - 1"]) auto
  qed
  have "?S i (Suc n) = (if arr ! (i - 1) \<noteq> None then {int i} else {}) \<union> ?S (i + 1) n"
  proof (rule set_eqI)
    fix a show "a \<in> ?S i (Suc n) \<longleftrightarrow> a \<in> (if arr ! (i - 1) \<noteq> None then {int i} else {}) \<union> ?S (i + 1) n"
      using ind by (cases "a = int i") auto
  qed
  moreover have "card ((if arr ! (i - 1) \<noteq> None then {int i} else {}) \<union> ?S (i + 1) n) =
      (if arr ! (i - 1) \<noteq> None then 1 else 0) + card (?S (i + 1) n)" by (simp add: card_insert_if)
  moreover have "count_slice arr (i + 1) n = int (card (?S (i + 1) n))" using Suc.prems by (intro Suc.IH) simp_all
  ultimately show ?case by simp
qed simp

lemma numusearray_loop_correct:
  assumes sz: "length arr \<le> 2 ^ 26"
  shows "n + lg = 27 \<Longrightarrow> is_hist nums {a \<in> array_indices arr. a \<le> below lg} \<Longrightarrow> int i = min (below lg) (int (length arr)) + 1 \<Longrightarrow>
    ause = int (card {a \<in> array_indices arr. a \<le> below lg}) \<Longrightarrow>
    \<exists>nums'. numusearray_loop arr n lg (2 ^ lg) i ause nums = Inr (int (card (array_indices arr)), nums') \<and> is_hist nums' (array_indices arr)"
proof (induction n arbitrary: lg nums i ause)
  case 0
  have "int (length arr) \<le> 2 ^ 26" using sz by (metis of_nat_le_iff of_nat_numeral of_nat_power)
  then have "a \<le> below lg" if "a \<in> array_indices arr" for a using array_indices_bounds [OF that] 0(1) by (simp add: below_def)
  then have "{a \<in> array_indices arr. a \<le> below lg} = array_indices arr" by blast
  then show ?case using 0 by simp
next
  case (Suc n)
  let ?A = "array_indices arr" and ?lim = "if 2 ^ lg > length arr then length arr else 2 ^ lg"
  have "int (length arr) < 2 ^ lg \<longleftrightarrow> length arr < 2 ^ lg" by (metis of_nat_less_iff of_nat_numeral of_nat_power)
  then have lim: "int ?lim = min (2 ^ lg) (int (length arr))" by (auto simp: min_def)
  show ?case
  proof (cases "2 ^ lg > length arr \<and> i > ?lim")
    case True
    then have "int (length arr) \<le> below lg" using Suc.prems(3) by (auto simp: min_def split: if_splits)
    then have "{a \<in> ?A. a \<le> below lg} = ?A" using array_indices_bounds by force
    then show ?thesis using True Suc.prems(2,4) by (auto simp: Let_def)
  next
    case False
    let ?B = "?A \<inter> slice lg"
    have i: "0 < i" "i \<le> ?lim + 1" using Suc.prems(3) lim below_nonneg [of lg] below_le [of lg] by linarith+
    then have "count_slice arr i (?lim + 1 - i) = int (card {a \<in> ?A. int i \<le> a \<and> a < int (i + (?lim + 1 - i))})"
      by (intro count_slice_card) auto
    also have "{a \<in> ?A. int i \<le> a \<and> a < int (i + (?lim + 1 - i))} = ?B"
    proof -
      have e: "int (i + (?lim + 1 - i)) = int ?lim + 1" using i(2) by linarith
      have "(int i \<le> a \<and> a < int ?lim + 1) \<longleftrightarrow> below lg < a \<and> a \<le> 2 ^ lg" if "a \<in> ?A" for a
        using array_indices_bounds [OF that] lim Suc.prems(3) by linarith
      then show ?thesis unfolding e slice_def by (simp only: set_eq_iff mem_Collect_eq Int_iff greaterThanAtMost_iff) blast
    qed
    finally have lc: "count_slice arr i (?lim + 1 - i) = int (card ?B)" .
    have sub: "?B \<subseteq> {1..2 ^ 26}"
    proof
      fix a assume "a \<in> ?B"
      then have "1 \<le> a \<and> a \<le> int (length arr)" using array_indices_bounds by blast
      moreover have "int (length arr) \<le> 2 ^ 26" using sz by (metis of_nat_le_iff of_nat_numeral of_nat_power)
      ultimately show "a \<in> {1..2 ^ 26}" by simp
    qed
    have un: "{a \<in> ?A. a \<le> below lg} \<union> ?B = {a \<in> ?A. a \<le> below (lg + 1)}" "{a \<in> ?A. a \<le> below lg} \<inter> ?B = {}"
      using below_le [of lg] by (auto simp: slice_def)
    note u = hist_union [OF Suc.prems(2) _ sub Int_lower2 un(2)]
    have "\<exists>nums'. numusearray_loop arr n (lg + 1) (2 ^ (lg + 1)) (max i (?lim + 1)) (ause + int (card ?B)) (nums[lg := nums ! lg + int (card ?B)]) =
        Inr (int (card ?A), nums') \<and> is_hist nums' ?A"
    proof (rule Suc.IH)
      show "n + (lg + 1) = 27" using Suc.prems(1) by simp
      show "is_hist (nums[lg := nums ! lg + int (card ?B)]) {a \<in> ?A. a \<le> below (lg + 1)}" using u(2) Suc.prems(1) unfolding un(1) by simp
      show "int (max i (?lim + 1)) = min (below (lg + 1)) (int (length arr)) + 1" using i(2) lim by (simp only: max_absorb2 Suc_eq_plus1 [symmetric] below_Suc)
      have "card ({a \<in> ?A. a \<le> below lg} \<union> ?B) = card {a \<in> ?A. a \<le> below lg} + card ?B" using un(2) by (intro card_Un_disjoint) simp_all
      then show "ause + int (card ?B) = int (card {a \<in> ?A. a \<le> below (lg + 1)})" unfolding un(1) using Suc.prems(4) by simp
    qed
    then show ?thesis using False u(1) Suc.prems(1) lc by (auto simp: Let_def mult.commute)
  qed
qed

lemma numusearray_correct:
  assumes "table_ok t"
  shows "\<exists>nums. numusearray t (replicate (MAXBITS + 1) 0) = Inr (int (card (array_indices (lt_array t))), nums) \<and>
    is_hist nums (array_indices (lt_array t))"
proof -
  have e: "{a \<in> array_indices (lt_array t). a \<le> below 0} = {}" using array_indices_bounds by (force simp: below_def)
  show ?thesis
    using numusearray_loop_correct [OF table_okD(1) [OF assms], of "MAXBITS + 1" 0 "replicate (MAXBITS + 1) 0" 1 0, unfolded e] hist_empty
    by (simp add: numusearray_def below_def MAXBITS_def)
qed

text \<open>The keys of a table that could be in an array, from its nodes and from the new key.\<close>

definition node_indices :: "'v lua_node list \<Rightarrow> nat \<Rightarrow> int set" where
  "node_indices ns i = {aindex (nd_key (ns ! j)) | j. i \<le> j \<and> j < length ns \<and> nd_val (ns ! j) \<noteq> None} \<inter> {1..2 ^ 26}"

definition live_nodes :: "'v lua_node list \<Rightarrow> nat \<Rightarrow> nat set" where
  "live_nodes ns i = {j. i \<le> j \<and> j < length ns \<and> nd_val (ns ! j) \<noteq> None}"

lemma finite_node_indices [simp]: "finite (node_indices ns i)" by (simp add: node_indices_def)

lemma finite_live_nodes [simp]: "finite (live_nodes ns i)" by (simp add: live_nodes_def)

lemma live_nodes_Suc: "i < length ns \<Longrightarrow> live_nodes ns i = (if nd_val (ns ! i) \<noteq> None then {i} else {}) \<union> live_nodes ns (Suc i)"
  unfolding live_nodes_def by (auto simp: Suc_le_eq le_less)

lemma node_indices_Suc: "i < length ns \<Longrightarrow> node_indices ns i =
    (if nd_val (ns ! i) \<noteq> None then {aindex (nd_key (ns ! i))} \<inter> {1..2 ^ 26} else {}) \<union> node_indices ns (Suc i)"
proof -
  assume "i < length ns"
  then have "node_indices ns i = (\<lambda>j. aindex (nd_key (ns ! j))) ` live_nodes ns i \<inter> {1..2 ^ 26}"
      "node_indices ns (Suc i) = (\<lambda>j. aindex (nd_key (ns ! j))) ` live_nodes ns (Suc i) \<inter> {1..2 ^ 26}"
    unfolding node_indices_def live_nodes_def by blast+
  then show ?thesis using live_nodes_Suc [OF \<open>i < length ns\<close>] by auto
qed

definition count_key :: "lua_key \<Rightarrow> int list \<Rightarrow> (int \<times> int list) table_result" where
  "count_key k nums = (case k of KNumber n \<Rightarrow> countint n nums | _ \<Rightarrow> Inr (0, nums))"

lemma count_key_correct:
  assumes h: "is_hist nums A" and k: "aindex k \<notin> A"
  shows "\<exists>nums'. count_key k nums = Inr (int (card ({aindex k} \<inter> {1..2 ^ 26})), nums') \<and> is_hist nums' (A \<union> {aindex k} \<inter> {1..2 ^ 26})"
proof (cases "1 \<le> aindex k \<and> aindex k \<le> 2 ^ 26")
  case False
  then have e: "{aindex k} \<inter> {1..2 ^ 26} = {}" by auto
  have "count_key k nums = Inr (0, nums)" using False by (auto simp: count_key_def countint_def Let_def MAXSIZE_def split: lua_key.split)
  then show ?thesis using h unfolding e by simp
next
  case True
  then obtain n where n: "k = KNumber n" by (cases k) auto
  obtain b where b: "ceillog2 (word_of_int (aindex k)) = int b" "aindex k \<in> slice b" using ceillog2_slice [of "aindex k"] True by auto
  have b27: "b < 27" using slice_log [OF b(2), of 26] True by simp
  have e: "{aindex k} \<inter> {1..2 ^ 26} = {aindex k}" using True by auto
  have B: "finite {aindex k}" "{aindex k} \<subseteq> {1..2 ^ 26}" "{aindex k} \<subseteq> slice b" "A \<inter> {aindex k} = {}"
    using True b(2) k by auto
  note u = hist_union [OF h B b27]
  have "count_key k nums = Inr (1, nums[b := nums ! b + 1])"
    using True u(1) b(1) n by (simp add: count_key_def countint_def Let_def MAXSIZE_def)
  then show ?thesis using u(2) unfolding e by simp
qed

lemma numusehash_loop_correct:
  assumes ok: "nodes_ok ns" and A: "\<And>j. j < length ns \<Longrightarrow> nd_key (ns ! j) \<noteq> KNil \<Longrightarrow> aindex (nd_key (ns ! j)) \<notin> A"
  shows "i \<le> length ns \<Longrightarrow> is_hist nums (A \<union> node_indices ns i) \<Longrightarrow> tot = int (card (live_nodes ns i)) \<Longrightarrow> ause = int (card (node_indices ns i)) \<Longrightarrow>
    \<exists>nums'. numusehash_loop ns i tot ause nums = Inr (int (card (live_nodes ns 0)), int (card (node_indices ns 0)), nums') \<and>
      is_hist nums' (A \<union> node_indices ns 0)"
proof (induction i arbitrary: tot ause nums)
  case (Suc i)
  have i: "i < length ns" using Suc.prems(1) by simp
  show ?case
  proof (cases "nd_val (ns ! i)")
    case None
    then show ?thesis using Suc.IH [of nums tot ause] Suc.prems live_nodes_Suc [OF i] node_indices_Suc [OF i] by simp
  next
    case (Some v)
    let ?k = "nd_key (ns ! i)"
    let ?a = "{aindex ?k} \<inter> {1..2 ^ 26}"
    have k: "?k \<noteq> KNil" using nodes_okD(5) [OF ok i] Some by auto
    have new: "aindex ?k \<notin> node_indices ns (Suc i)"
    proof
      assume "aindex ?k \<in> node_indices ns (Suc i)"
      then obtain j where j: "i < j" "j < length ns" "aindex (nd_key (ns ! j)) = aindex ?k" "0 < aindex ?k"
        unfolding node_indices_def by (auto simp: Suc_le_eq)
      then have "nd_key (ns ! j) = ?k" using aindex_pos [OF j(3,4)] aindex_pos [OF refl j(4)] by simp
      then show False using nodes_okD(7) [OF ok i j(2) k] j(1) by simp
    qed
    then obtain nums1 where n1: "count_key ?k nums = Inr (int (card ?a), nums1)" "is_hist nums1 (A \<union> node_indices ns (Suc i) \<union> ?a)"
      using count_key_correct [OF Suc.prems(2), of ?k] A [OF i k] by auto
    have L: "live_nodes ns i = insert i (live_nodes ns (Suc i))" and N: "node_indices ns i = ?a \<union> node_indices ns (Suc i)"
      using live_nodes_Suc [OF i] node_indices_Suc [OF i] Some by simp_all
    have "card (live_nodes ns i) = Suc (card (live_nodes ns (Suc i)))" unfolding L by (simp add: live_nodes_def)
    moreover have "card (node_indices ns i) = card ?a + card (node_indices ns (Suc i))"
      unfolding N using new by (intro card_Un_disjoint) auto
    moreover have "A \<union> node_indices ns i = A \<union> node_indices ns (Suc i) \<union> ?a" unfolding N by blast
    ultimately obtain nums' where "numusehash_loop ns i (tot + 1) (ause + int (card ?a)) nums1 =
        Inr (int (card (live_nodes ns 0)), int (card (node_indices ns 0)), nums')" "is_hist nums' (A \<union> node_indices ns 0)"
      using Suc.IH [of nums1 "tot + 1" "ause + int (card ?a)"] n1(2) Suc.prems i by auto
    then show ?thesis using n1(1) Some unfolding count_key_def by (intro exI [of _ nums']) simp
  qed
qed simp

section \<open>The size of the array\<close>

definition count_upto :: "int set \<Rightarrow> int \<Rightarrow> nat" where "count_upto A n = card {a \<in> A. a \<le> n}"

lemma computesizes_loop_correct:
  assumes h: "is_hist nums A"
  shows "i \<le> 27 \<Longrightarrow> a = int (count_upto A (below i)) \<Longrightarrow> na = int (count_upto A n) \<Longrightarrow> n div 2 \<le> na \<Longrightarrow> 0 \<le> n \<Longrightarrow> n \<le> 2 ^ 26 \<Longrightarrow>
    \<exists>n'. computesizes_loop nums (int (card A)) i (2 ^ i) a na n = Inr (n', int (count_upto A n')) \<and> n' div 2 \<le> int (count_upto A n') \<and> 0 \<le> n' \<and> n' \<le> 2 ^ 26"
proof (induction "27 - i" arbitrary: i a na n)
  case 0
  then have i: "i = 27" by simp
  have H: "finite A" "A \<subseteq> {1..2 ^ 26}" using h by (simp_all add: is_hist_def)
  have "card A \<le> card {1..2 ^ 26 :: int}" using H by (intro card_mono) auto
  then have "card A \<le> 2 ^ 26" by simp
  then have "\<not> (2 ^ i :: int) div 2 < int (card A)" unfolding i by simp
  then show ?case using 0 by (subst computesizes_loop.simps) auto
next
  case (Suc d)
  have i: "i < 27" using Suc.hyps(2) by simp
  have H: "length nums = 27" "finite A" "A \<subseteq> {1..2 ^ 26}" "nums ! i = int (card (A \<inter> slice i))" using h i by (auto simp: is_hist_def)
  have split: "{x \<in> A. x \<le> 2 ^ i} = {x \<in> A. x \<le> below i} \<union> (A \<inter> slice i)" using below_le [of i] by (auto simp: slice_def)
  have "card ({x \<in> A. x \<le> below i} \<union> (A \<inter> slice i)) = card {x \<in> A. x \<le> below i} + card (A \<inter> slice i)"
    using H(2) by (intro card_Un_disjoint) (auto simp: slice_def)
  then have a': "(if nums ! i > 0 then a + nums ! i else a) = int (count_upto A (2 ^ i))"
    using H(4) Suc.prems(2) unfolding count_upto_def split by simp
  let ?big = "nums ! i > 0 \<and> int (count_upto A (2 ^ i)) > 2 ^ i div 2"
  let ?n = "if ?big then 2 ^ i else n" and ?na = "if ?big then int (count_upto A (2 ^ i)) else na"
  have p: "(2 :: int) ^ i \<le> 2 ^ 26" using i by (intro power_increasing) simp_all
  have q: "?na = int (count_upto A ?n)" "?n div 2 \<le> ?na" "0 \<le> ?n" "?n \<le> 2 ^ 26" using Suc.prems(3-6) p by auto
  obtain n1 na1 where e: "n1 = ?n" "na1 = ?na" by blast
  note q = q [folded e]
  show ?case
  proof (cases "(2 :: int) ^ i div 2 < int (card A)")
    case False
    then show ?thesis using Suc.prems by (subst computesizes_loop.simps) auto
  next
    case True
    have step: "computesizes_loop nums (int (card A)) i (2 ^ i) a na n =
        (if int (count_upto A (2 ^ i)) = int (card A) then Inr (n1, na1)
         else computesizes_loop nums (int (card A)) (i + 1) (2 ^ i * 2) (int (count_upto A (2 ^ i))) na1 n1)"
      unfolding e using True i H(1) by (subst computesizes_loop.simps) (simp only: Let_def a' if_True)
    show ?thesis
    proof (cases "int (count_upto A (2 ^ i)) = int (card A)")
      case eq: True
      then show ?thesis using step q by (intro exI [of _ n1]) simp
    next
      case False
      have "d = 27 - (i + 1)" "i + 1 \<le> 27" "int (count_upto A (2 ^ i)) = int (count_upto A (below (i + 1)))" using Suc.hyps(2) i by simp_all
      then have "\<exists>n'. computesizes_loop nums (int (card A)) (i + 1) (2 ^ (i + 1)) (int (count_upto A (2 ^ i))) na1 n1 = Inr (n', int (count_upto A n')) \<and>
          n' div 2 \<le> int (count_upto A n') \<and> 0 \<le> n' \<and> n' \<le> 2 ^ 26"
        using q by (rule Suc.hyps(1))
      then show ?thesis using step False by (simp add: mult.commute)
    qed
  qed
qed

lemma computesizes_correct:
  assumes h: "is_hist nums A"
  shows "\<exists>n. computesizes nums (int (card A)) = Inr (n, int (count_upto A n)) \<and> 0 \<le> n \<and> n \<le> 2 ^ 26"
proof -
  have A: "finite A" "A \<subseteq> {1..2 ^ 26}" using h by (simp_all add: is_hist_def)
  have z: "count_upto A 0 = 0" unfolding count_upto_def using A(2) by (auto simp: card_eq_0_iff)
  obtain n where n: "computesizes_loop nums (int (card A)) 0 1 0 0 0 = Inr (n, int (count_upto A n))" "n div 2 \<le> int (count_upto A n)" "0 \<le> n" "n \<le> 2 ^ 26"
    using computesizes_loop_correct [OF h, of 0 0 0 0] z by (auto simp: below_def)
  have "count_upto A n \<le> card {1..n}" unfolding count_upto_def using A by (intro card_mono) auto
  then have "int (count_upto A n) \<le> n" using n(3) by simp
  then show ?thesis using n by (simp add: computesizes_def)
qed

text \<open>Indices of live entries.\<close>

definition live_index :: "'v lua_table \<Rightarrow> int \<Rightarrow> bool" where "live_index t j \<longleftrightarrow> 0 < j \<and> j < 2 ^ 31 \<and> array_key j \<in> fst ` content t"

lemma adjust_loop_correct:
  assumes t: "table_ok t" and b: "\<not> tb \<Longrightarrow> (\<And>j. s0 < j \<Longrightarrow> j < 2 ^ 31 \<Longrightarrow> \<not> live_index t j)"
  shows "s0 \<le> sz \<Longrightarrow> 0 \<le> sz \<Longrightarrow> \<exists>s. adjust_loop t tb e sz = Inr s \<and> sz \<le> s \<and> (\<forall>j. sz < j \<and> j \<le> s \<longrightarrow> j < 2 ^ 31 \<and> (j = e \<or> live_index t j)) \<and>
    (s + 1 < 2 ^ 31 \<longrightarrow> s + 1 \<noteq> e \<and> \<not> live_index t (s + 1))"
proof (induction "nat (2 ^ 31 - 1 - sz)" arbitrary: sz)
  case 0
  then have "\<not> sz < 2 ^ 31 - 1" by simp
  then show ?case by (subst adjust_loop.simps) auto
next
  case (Suc d)
  then have sz: "sz < 2 ^ 31 - 1" by simp
  note step = adjust_loop.simps [of t tb e sz]
  have live: "\<exists>v. and_then (lua_h_getnum t (sz + 1)) (load t) = Inr v \<and> (v \<noteq> None \<longleftrightarrow> live_index t (sz + 1))"
  proof -
    obtain r where r: "lua_h_getnum t (sz + 1) = Inr r" "finds t (array_key (sz + 1)) r" using getnum_finds [OF t, of "sz + 1"] Suc.prems(2) sz by auto
    obtain v where v: "load t r = Inr v" "\<And>x. v = Some x \<longleftrightarrow> (canon (array_key (sz + 1)), x) \<in> content t" using load_finds [OF t r(2)] by blast
    have "canon (array_key (sz + 1)) = array_key (sz + 1)" using canon_array_key Suc.prems(2) sz by simp
    then have "v \<noteq> None \<longleftrightarrow> live_index t (sz + 1)" using v(2) Suc.prems(2) sz unfolding live_index_def by force
    then show ?thesis using r(1) v(1) by simp
  qed
  then obtain v where v: "and_then (lua_h_getnum t (sz + 1)) (load t) = Inr v" "v \<noteq> None \<longleftrightarrow> live_index t (sz + 1)" by blast
  note step = step [unfolded v(1)]
  show ?case
  proof (cases "sz + 1 = e \<or> (tb \<and> v \<noteq> None)")
    case True
    then have "adjust_loop t tb e sz = adjust_loop t tb e (sz + 1)" using step sz by auto
    moreover have "d = nat (2 ^ 31 - 1 - (sz + 1))" using Suc.hyps(2) by simp
    then obtain s where s: "adjust_loop t tb e (sz + 1) = Inr s" "sz + 1 \<le> s" "\<forall>j. sz + 1 < j \<and> j \<le> s \<longrightarrow> j < 2 ^ 31 \<and> (j = e \<or> live_index t j)"
        "s + 1 < 2 ^ 31 \<longrightarrow> s + 1 \<noteq> e \<and> \<not> live_index t (s + 1)"
      using Suc.hyps(1) [of "sz + 1"] Suc.prems by auto
    moreover have "j < 2 ^ 31 \<and> (j = e \<or> live_index t j)" if "sz < j" "j \<le> s" for j
    proof (cases "j = sz + 1")
      case eq: True
      then show ?thesis using True v(2) sz by auto
    next
      case False
      then show ?thesis using s(3) that by simp
    qed
    ultimately show ?thesis by auto
  next
    case False
    then have "adjust_loop t tb e sz = Inr sz" using step sz by auto
    moreover have "\<not> live_index t (sz + 1)" using False v(2) b [of "sz + 1"] Suc.prems(1) sz by (cases tb) auto
    ultimately show ?thesis using False by simp
  qed
qed

lemma adjustasize_correct:
  assumes t: "table_ok t" and sz: "0 \<le> sz"
  shows "\<exists>s. adjustasize t sz (Some ek) = Inr s \<and> sz \<le> s \<and> (\<forall>j. sz < j \<and> j \<le> s \<longrightarrow> j < 2 ^ 31 \<and> (j = aindex ek \<or> live_index t j)) \<and>
    (s + 1 < 2 ^ 31 \<longrightarrow> s + 1 \<noteq> aindex ek \<and> \<not> live_index t (s + 1))"
  unfolding adjustasize_def
proof (rule adjust_loop_correct [OF t _ order_refl sz])
  fix j assume a: "\<not> (\<not> lt_dummy t \<or> sz < int (sizearray t))" "sz < j" "j < 2 ^ 31"
  show "\<not> live_index t j"
  proof
    assume "live_index t j"
    then have "array_key j \<in> fst ` content t" by (simp add: live_index_def)
    then obtain v where "(array_key j, v) \<in> content t" by (metis imageE prod.collapse)
    then show False
    proof (cases rule: content_cases)
      case (1 i)
      then have "j = int i + 1" using array_key_inj [of j "int i + 1"] array_index_range [OF t 1(1)] a sz by simp
      then show False using 1(1) a by simp
    next
      case (2 i)
      then show False using table_okD(3) [OF t] a(1) by (auto simp: free_node_def)
    qed
  qed
qed

section \<open>Room for all keys\<close>

lemma content_keys:
  assumes t: "table_ok t"
  shows "fst ` content t = array_key ` array_indices (lt_array t) \<union> (\<lambda>j. canon (nd_key (lt_node t ! j))) ` live_nodes (lt_node t) 0"
proof (intro equalityI subsetI)
  fix K assume "K \<in> fst ` content t"
  then obtain v where "(K, v) \<in> content t" by (metis imageE prod.collapse)
  then show "K \<in> array_key ` array_indices (lt_array t) \<union> (\<lambda>j. canon (nd_key (lt_node t ! j))) ` live_nodes (lt_node t) 0"
  proof (cases rule: content_cases)
    case (1 i)
    then show ?thesis unfolding array_indices_def by auto
  next
    case (2 i)
    then show ?thesis unfolding live_nodes_def by auto
  qed
next
  fix K assume "K \<in> array_key ` array_indices (lt_array t) \<union> (\<lambda>j. canon (nd_key (lt_node t ! j))) ` live_nodes (lt_node t) 0"
  then consider i v where "i < sizearray t" "lt_array t ! i = Some v" "K = array_key (int i + 1)"
    | i v where "i < sizenode t" "nd_val (lt_node t ! i) = Some v" "K = canon (nd_key (lt_node t ! i))"
    unfolding array_indices_def live_nodes_def by auto
  then show "K \<in> fst ` content t"
    by cases (use content_array content_node fst_mem in metis)+
qed

lemma live_key: "table_ok t \<Longrightarrow> j \<in> live_nodes (lt_node t) i \<Longrightarrow> j < sizenode t \<and> nd_key (lt_node t ! j) \<noteq> KNil"
proof -
  assume t: "table_ok t" and "j \<in> live_nodes (lt_node t) i"
  then have j: "j < sizenode t" "nd_val (lt_node t ! j) \<noteq> None" by (simp_all add: live_nodes_def)
  then show ?thesis using nodes_okD(5) [OF table_okD(2) [OF t] j(1)] by metis
qed

lemma content_card:
  assumes t: "table_ok t"
  shows "finite (fst ` content t)" "card (fst ` content t) = card (array_indices (lt_array t)) + card (live_nodes (lt_node t) 0)"
proof -
  let ?A = "array_indices (lt_array t)" and ?L = "live_nodes (lt_node t) 0" and ?f = "\<lambda>j. canon (nd_key (lt_node t ! j))"
  have r: "0 < a \<and> a < 2 ^ 31" if "a \<in> ?A" for a using array_indices_bounds [OF that] table_okD(1) [OF t] by simp
  have iA: "inj_on array_key ?A" using r array_key_inj by (intro inj_onI) blast
  have iL: "inj_on ?f ?L" using live_key [OF t] nodes_okD(7) [OF table_okD(2) [OF t]] by (intro inj_onI) blast
  have "array_key a \<noteq> ?f j" if a: "a \<in> ?A" and j: "j \<in> ?L" for a j
  proof
    assume "array_key a = ?f j"
    then have "aindex (nd_key (lt_node t ! j)) = a" using aindex_canon [OF canon_canon, of "nd_key (lt_node t ! j)"] aindex_array_key r [OF a] by metis
    then show False using table_okD(5) [OF t, of j] live_key [OF t j] array_indices_bounds [OF a] by simp
  qed
  then have d: "array_key ` ?A \<inter> ?f ` ?L = {}" by blast
  show "finite (fst ` content t)" unfolding content_keys [OF t] by simp
  show "card (fst ` content t) = card ?A + card ?L"
    unfolding content_keys [OF t] using card_Un_disjoint [OF _ _ d] card_image [OF iA] card_image [OF iL] by simp
qed

definition inside :: "'v lua_table \<Rightarrow> lua_key \<Rightarrow> int \<Rightarrow> int set" where
  "inside t ek n = {j. 0 < j \<and> j \<le> n \<and> (live_index t j \<or> j = aindex ek)}"

lemma finite_inside [simp]: "finite (inside t ek n)"
  by (rule finite_subset [of _ "{1..n}"]) (auto simp: inside_def)

lemma inside_mono: "m \<le> n \<Longrightarrow> inside t ek m \<subseteq> inside t ek n" unfolding inside_def by auto

lemma content_index_key: "table_ok t \<Longrightarrow> K \<in> fst ` content t \<Longrightarrow> 0 < aindex K \<Longrightarrow> K = array_key (aindex K) \<and> live_index t (aindex K)"
proof -
  assume a: "table_ok t" "K \<in> fst ` content t" "0 < aindex K"
  have "aindex K < 2 ^ 31" using arrayindex_range(2) by (cases K) simp_all
  then show ?thesis using a aindex_pos [OF refl a(3)] by (simp add: live_index_def)
qed

lemma not_live: "table_ok t \<Longrightarrow> finds t k None \<Longrightarrow> canon k \<notin> fst ` content t"
proof
  assume a: "table_ok t" "finds t k None" "canon k \<in> fst ` content t"
  then obtain v where "(canon k, v) \<in> content t" by (metis imageE prod.collapse)
  then show False using load_finds [OF a(1,2)] by auto
qed

lemma not_live_index: "table_ok t \<Longrightarrow> finds t k None \<Longrightarrow> \<not> live_index t (aindex k)"
  using not_live [of t k] aindex_pos [of k] canon_array_key [of "aindex k"] unfolding live_index_def by metis

lemma card_filter_split: "finite C \<Longrightarrow> card C = card {x \<in> C. P x} + card {x \<in> C. \<not> P x}"
  using card_Un_disjoint [of "{x \<in> C. P x}" "{x \<in> C. \<not> P x}"] Collect_disj_eq [of "\<lambda>x. x \<in> C \<and> P x" "\<lambda>x. x \<in> C \<and> \<not> P x"]
  by (simp add: conj_disj_distribL [symmetric] Int_def)

lemma inside_card:
  assumes t: "table_ok t" and ek: "finds t ek None" and n: "0 \<le> n"
  shows "card {K \<in> fst ` content t. outside (nat n) K} + card (inside t ek n) =
    card (fst ` content t) + (if outside (nat n) ek then 0 else 1)"
proof -
  let ?C = "fst ` content t" and ?J = "{j. 0 < j \<and> j \<le> n \<and> live_index t j}"
  let ?out = "{K \<in> ?C. outside (nat n) K}" and ?in = "{K \<in> ?C. \<not> outside (nat n) K}"
  have o: "\<not> outside (nat n) k \<longleftrightarrow> 0 < aindex k \<and> aindex k \<le> n" for k using n by (simp add: outside_def)
  have im: "array_key ` ?J = ?in"
  proof (intro equalityI subsetI)
    fix K assume "K \<in> array_key ` ?J"
    then obtain j where j: "K = array_key j" "0 < j" "j \<le> n" "live_index t j" by blast
    then show "K \<in> ?in" using aindex_array_key [of j] unfolding mem_Collect_eq o live_index_def by simp
  next
    fix K assume "K \<in> ?in"
    then have K: "K \<in> ?C" "0 < aindex K" "aindex K \<le> n" unfolding mem_Collect_eq o by simp_all
    then show "K \<in> array_key ` ?J" using content_index_key [OF t K(1,2)] by (intro image_eqI [of _ _ "aindex K"]) simp_all
  qed
  have "inj_on array_key ?J"
  proof (rule inj_onI)
    fix i j assume "i \<in> ?J" "j \<in> ?J" "array_key i = array_key j"
    then show "i = j" using array_key_inj [of i j] by (simp add: live_index_def)
  qed
  from card_image [OF this] have J: "card ?in = card ?J" unfolding im .
  have C: "card ?C = card ?out + card ?J"
    using card_filter_split [OF content_card(1) [OF t], of "outside (nat n)"] unfolding J .
  have fin: "finite ?J" by (rule finite_subset [of _ "{1..n}"]) auto
  have new: "aindex ek \<notin> ?J" using not_live_index [OF t ek] by simp
  show ?thesis
  proof (cases "outside (nat n) ek")
    case True
    then have "inside t ek n = ?J" using o [of ek] unfolding inside_def by auto
    then show ?thesis using C True by simp
  next
    case False
    then have "inside t ek n = insert (aindex ek) ?J" using o [of ek] unfolding inside_def by auto
    then show ?thesis using C False fin new by simp
  qed
qed

text \<open>The keys that \<open>adjustasize\<close> adds to those counted by \<open>computesizes\<close>.\<close>

lemma inside_count:
  assumes A: "\<And>a. a \<in> A \<Longrightarrow> 0 < a \<and> (live_index t a \<or> a = aindex ek)" and n: "0 \<le> n" "n \<le> m" "m \<le> N"
    and s: "\<And>j. n < j \<Longrightarrow> j \<le> m \<Longrightarrow> j = aindex ek \<or> live_index t j"
  shows "int (count_upto A n) + (m - n) \<le> int (card (inside t ek N))"
proof -
  have "{a \<in> A. a \<le> n} \<subseteq> inside t ek n" using A by (auto simp: inside_def)
  then have "count_upto A n \<le> card (inside t ek n)" unfolding count_upto_def by (intro card_mono finite_inside)
  moreover have "inside t ek n \<union> {n<..m} \<subseteq> inside t ek N"
  proof
    fix j assume "j \<in> inside t ek n \<union> {n<..m}"
    then consider "j \<in> inside t ek n" | "n < j" "j \<le> m" by auto
    then show "j \<in> inside t ek N"
    proof cases
      case 1
      then show ?thesis using inside_mono [of n N] n by force
    next
      case 2
      then show ?thesis using s [OF 2] n unfolding inside_def by auto
    qed
  qed
  then have "card (inside t ek n \<union> {n<..m}) \<le> card (inside t ek N)" by (intro card_mono) auto
  moreover have "card (inside t ek n \<union> {n<..m}) = card (inside t ek n) + card {n<..m}"
    by (rule card_Un_disjoint) (simp, simp, auto simp: inside_def)
  ultimately show ?thesis using n(2) by simp
qed

section \<open>Rehashing\<close>

lemma aindex_less: "aindex k < 2 ^ 31" using arrayindex_range(2) by (cases k) simp_all

text \<open>The counts that \<open>rehash\<close> starts from.\<close>

lemma rehash_counts:
  assumes t: "table_ok t" and ek: "finds t ek None"
  shows "\<exists>nums1 ause nums2 c nums3 A.
    numusearray t (replicate (MAXBITS + 1) 0) = Inr (int (card (array_indices (lt_array t))), nums1) \<and>
    numusehash t nums1 (int (card (array_indices (lt_array t)))) = Inr (int (card (live_nodes (lt_node t) 0)), ause, nums2) \<and>
    count_key ek nums2 = Inr (c, nums3) \<and> is_hist nums3 A \<and> ause + c = int (card A) \<and>
    (\<forall>a \<in> A. 0 < a \<and> (live_index t a \<or> a = aindex ek))"
proof -
  let ?A = "array_indices (lt_array t)" and ?N = "node_indices (lt_node t) 0" and ?e = "{aindex ek} \<inter> {1..2 ^ 26}"
  have live: "live_index t a" if a: "a \<in> ?A \<union> ?N" for a
  proof -
    have "0 < a \<and> array_key a \<in> fst ` content t \<and> a < 2 ^ 31"
    proof (cases "a \<in> ?A")
      case True
      then show ?thesis using array_indices_bounds [OF True] table_okD(1) [OF t] unfolding content_keys [OF t] by auto
    next
      case False
      then obtain j where j: "j \<in> live_nodes (lt_node t) 0" "a = aindex (nd_key (lt_node t ! j))" "0 < a" "a < 2 ^ 31"
        using a unfolding node_indices_def live_nodes_def by auto
      then have k: "nd_key (lt_node t ! j) = array_key a" using aindex_pos by simp
      have "canon (nd_key (lt_node t ! j)) \<in> fst ` content t" unfolding content_keys [OF t] using j(1) by blast
      then show ?thesis using j(3,4) canon_array_key [OF j(3,4)] k by simp
    qed
    then show ?thesis by (simp add: live_index_def)
  qed
  have out: "aindex (nd_key (lt_node t ! j)) \<notin> ?A" if "j < sizenode t" "nd_key (lt_node t ! j) \<noteq> KNil" for j
    using table_okD(5) [OF t that] array_indices_bounds by force
  obtain nums1 where n1: "numusearray t (replicate (MAXBITS + 1) 0) = Inr (int (card ?A), nums1)" "is_hist nums1 ?A"
    using numusearray_correct [OF t] by blast
  have e: "node_indices (lt_node t) (sizenode t) = {}" "live_nodes (lt_node t) (sizenode t) = {}" by (auto simp: node_indices_def live_nodes_def)
  obtain nums2 where n2: "numusehash_loop (lt_node t) (sizenode t) 0 0 nums1 = Inr (int (card (live_nodes (lt_node t) 0)), int (card ?N), nums2)"
      "is_hist nums2 (?A \<union> ?N)"
    using numusehash_loop_correct [OF table_okD(2) [OF t] out order_refl, of nums1 0 0] n1(2) unfolding e by auto
  have new: "aindex ek \<notin> ?A \<union> ?N" using live not_live_index [OF t ek] by blast
  obtain nums3 where n3: "count_key ek nums2 = Inr (int (card ?e), nums3)" "is_hist nums3 (?A \<union> ?N \<union> ?e)"
    using count_key_correct [OF n2(2) new] by blast
  have "?A \<inter> ?N = {}"
  proof -
    have "a \<notin> ?A" if a: "a \<in> ?N" for a
    proof -
      obtain j where j: "j \<in> live_nodes (lt_node t) 0" "a = aindex (nd_key (lt_node t ! j))"
        using a unfolding node_indices_def live_nodes_def by auto
      then show ?thesis using out live_key [OF t j(1)] by blast
    qed
    then show ?thesis by blast
  qed
  then have "card (?A \<union> ?N) = card ?A + card ?N" by (intro card_Un_disjoint) simp_all
  moreover have "card (?A \<union> ?N \<union> ?e) = card (?A \<union> ?N) + card ?e" using new by (intro card_Un_disjoint) auto
  ultimately have "int (card ?A) + int (card ?N) + int (card ?e) = int (card (?A \<union> ?N \<union> ?e))" by simp
  moreover have "\<forall>a \<in> ?A \<union> ?N \<union> ?e. 0 < a \<and> (live_index t a \<or> a = aindex ek)" using live unfolding live_index_def by auto
  moreover have "numusehash t nums1 (int (card ?A)) = Inr (int (card (live_nodes (lt_node t) 0)), int (card ?A) + int (card ?N), nums2)"
    using n2(1) by (simp add: numusehash_def)
  ultimately show ?thesis using n1(1) n3 by blast
qed

definition has_room :: "'v lua_table \<Rightarrow> lua_key \<Rightarrow> 'v lua_table \<Rightarrow> bool" where
  "has_room t ek t' \<longleftrightarrow> table_ok t' \<and> settled t' \<and> content t' = content t \<and> aindex ek \<noteq> int (sizearray t') + 1 \<and>
     (outside (sizearray t') ek \<longrightarrow> \<not> lt_dummy t' \<and> used (lt_node t') < sizenode t')"

text \<open>\<open>resize\<close> with the sizes that \<open>rehash\<close> computes.\<close>

lemma resize_room:
  assumes t: "table_ok t" and ek: "finds t ek None" and N: "0 \<le> N" "N + 1 < 2 ^ 31 \<longrightarrow> N + 1 \<noteq> aindex ek \<and> \<not> live_index t (N + 1)"
    and h: "nh = int (card (fst ` content t)) + 1 - c" "c \<le> int (card (inside t ek N))"
  shows "resize (newkey (Suc d)) t N nh = Inl TableOverflow \<or> (\<exists>t'. resize (newkey (Suc d)) t N nh = Inr t' \<and> has_room t ek t')"
proof -
  let ?E = "card {K \<in> fst ` content t. outside (nat N) K}"
  have border: "aindex K \<noteq> N + 1" if K: "K \<in> fst ` content t" for K
  proof
    assume a: "aindex K = N + 1"
    then have "live_index t (N + 1)" using content_index_key [OF t K] N(1) by simp
    then show False using N(2) a aindex_less [of K] by simp
  qed
  have E: "int ?E + (if outside (nat N) ek then 1 else 0) \<le> nh" using inside_card [OF t ek N(1)] h by (simp split: if_splits)
  then have "int ?E \<le> nh" by (simp split: if_splits)
  then consider "resize (newkey (Suc d)) t N nh = Inl TableOverflow"
    | t' where "resize (newkey (Suc d)) t N nh = Inr t'" "resized t N nh t'"
    using resize_correct [OF t N(1) border] by blast
  then show ?thesis
  proof cases
    case 2
    then have r: "table_ok t'" "settled t'" "content t' = content t" "int (sizearray t') = N" "used (lt_node t') \<le> ?E"
        "nh \<noteq> 0 \<longrightarrow> \<not> lt_dummy t' \<and> nh \<le> int (sizenode t')" unfolding resized_def by simp_all
    have "aindex ek \<noteq> N + 1" using N(2) aindex_less [of ek] by auto
    moreover have "\<not> lt_dummy t' \<and> used (lt_node t') < sizenode t'" if "outside (sizearray t') ek"
    proof -
      have "sizearray t' = nat N" using r(4) by simp
      then have "int ?E + 1 \<le> nh" using E that by simp
      then show ?thesis using r(5,6) by simp
    qed
    ultimately have "has_room t ek t'" using r(1-4) unfolding has_room_def by simp
    then show ?thesis using 2(1) by blast
  qed simp
qed

lemma rehash_correct:
  assumes t: "table_ok t" and ek: "finds t ek None"
  shows "rehash (newkey (Suc d)) t ek = Inl TableOverflow \<or> (\<exists>t'. rehash (newkey (Suc d)) t ek = Inr t' \<and> has_room t ek t')"
proof -
  obtain nums1 ause nums2 c nums3 A where
    c1: "numusearray t (replicate (MAXBITS + 1) 0) = Inr (int (card (array_indices (lt_array t))), nums1)"
    and c2: "numusehash t nums1 (int (card (array_indices (lt_array t)))) = Inr (int (card (live_nodes (lt_node t) 0)), ause, nums2)"
    and c3: "count_key ek nums2 = Inr (c, nums3)" and A: "is_hist nums3 A" "ause + c = int (card A)"
      "\<And>a. a \<in> A \<Longrightarrow> 0 < a \<and> (live_index t a \<or> a = aindex ek)"
    using rehash_counts [OF t ek] by (elim exE conjE) blast
  obtain n where n: "computesizes nums3 (ause + c) = Inr (n, int (count_upto A n))" "0 \<le> n" using computesizes_correct [OF A(1)] A(2) by auto
  obtain m where m: "adjustasize t n (Some ek) = Inr m" "n \<le> m" "\<And>j. n < j \<Longrightarrow> j \<le> m \<Longrightarrow> j = aindex ek \<or> live_index t j"
      "m + 1 < 2 ^ 31 \<longrightarrow> m + 1 \<noteq> aindex ek \<and> \<not> live_index t (m + 1)"
    using adjustasize_correct [OF t n(2), of ek] by blast
  let ?na = "int (count_upto A n)"
  have total: "int (card (array_indices (lt_array t))) + int (card (live_nodes (lt_node t) 0)) + 1 = int (card (fst ` content t)) + 1"
    using content_card(2) [OF t] by simp
  have start: "rehash (newkey (Suc d)) t ek =
      (if m - n \<noteq> 0 then and_then (adjustasize t (m + (m - n)) (Some ek)) (\<lambda>N. resize (newkey (Suc d)) t N (int (card (fst ` content t)) + 1 - ?na - (m - n)))
       else resize (newkey (Suc d)) t n (int (card (fst ` content t)) + 1 - ?na))"
    using c1 c2 c3 [unfolded count_key_def] n(1) m(1) unfolding rehash_def Let_def by (simp only: and_then_simps prod.case total)
  show ?thesis
  proof (cases "m - n = 0")
    case True
    have "int (count_upto A n) + (n - n) \<le> int (card (inside t ek n))" by (rule inside_count [OF A(3) n(2) order_refl order_refl]) simp_all
    then have "?na \<le> int (card (inside t ek n))" by simp
    then show ?thesis using resize_room [OF t ek n(2) _ refl, of ?na d] m(4) True unfolding start by simp
  next
    case False
    have mm: "0 \<le> m + (m - n)" using n(2) m(2) by simp
    obtain N where N: "adjustasize t (m + (m - n)) (Some ek) = Inr N" "m + (m - n) \<le> N"
        "N + 1 < 2 ^ 31 \<longrightarrow> N + 1 \<noteq> aindex ek \<and> \<not> live_index t (N + 1)"
      using adjustasize_correct [OF t mm, of ek] by blast
    have mN: "m \<le> N" "0 \<le> N" using N(2) m(2) n(2) by linarith+
    have "?na + (m - n) \<le> int (card (inside t ek N))" by (rule inside_count [OF A(3) n(2) m(2) mN(1) m(3)])
    moreover have "int (card (fst ` content t)) + 1 - ?na - (m - n) = int (card (fst ` content t)) + 1 - (?na + (m - n))" by simp
    ultimately have "resize (newkey (Suc d)) t N (int (card (fst ` content t)) + 1 - ?na - (m - n)) = Inl TableOverflow \<or>
        (\<exists>t'. resize (newkey (Suc d)) t N (int (card (fst ` content t)) + 1 - ?na - (m - n)) = Inr t' \<and> has_room t ek t')"
      using resize_room [OF t ek mN(2) N(3)] by blast
    then show ?thesis using False N(1) unfolding start by simp
  qed
qed

section \<open>Inserting and writing\<close>

definition placed :: "'v lua_table \<Rightarrow> lua_key \<Rightarrow> ('v lua_table \<times> slot) table_result \<Rightarrow> bool" where
  "placed t k r \<longleftrightarrow> r = Inl TableOverflow \<or>
     (\<exists>t' s. r = Inr (t', s) \<and> table_ok t' \<and> content t' = content t \<and> finds t' k (Some s))"

lemma after_rehash:
  assumes k: "good_key k" "canon k \<notin> fst ` content t" and r: "has_room t k t'"
  shows "placed t k (arrayornewkey (newkey (Suc d)) t' k)"
proof -
  have h: "table_ok t'" "settled t'" "content t' = content t" "aindex k \<noteq> int (sizearray t') + 1"
      "outside (sizearray t') k \<longrightarrow> \<not> lt_dummy t' \<and> used (lt_node t') < sizenode t'" using r unfolding has_room_def by simp_all
  show ?thesis
  proof (cases "outside (sizearray t') k")
    case False
    then have "finds t' k (Some (ArraySlot (nat (aindex k - 1))))" by (auto simp: finds_def outside_def)
    then show ?thesis using False h unfolding placed_def arrayornewkey_eq [OF h(1)] by simp
  next
    case True
    have fd: "finds t' k None" using finds_settled [OF h(2) k(2) [folded h(3)] True] .
    have "\<not> lt_dummy t'" "used (lt_node t') \<noteq> sizenode t'" using h(5) True by auto
    then obtain t1 i where "newkey (Suc d) t' k = Inr (t1, NodeSlot i)" "table_ok t1" "content t1 = content t'" "finds t1 k (Some (NodeSlot i))"
      using newkey_step [OF h(1) k(1) fd, of d] h(4) by blast
    then show ?thesis using True h(3) unfolding placed_def arrayornewkey_eq [OF h(1)] by auto
  qed
qed

lemma again_correct:
  assumes t: "table_ok t" and k: "good_key k" and f: "finds t k None"
  shows "placed t k (and_then (rehash (newkey (Suc d)) t k) (\<lambda>t. arrayornewkey (newkey (Suc d)) t k))"
proof -
  consider "rehash (newkey (Suc d)) t k = Inl TableOverflow" | t' where "rehash (newkey (Suc d)) t k = Inr t'" "has_room t k t'"
    using rehash_correct [OF t f] by blast
  then show ?thesis
  proof cases
    case 2
    then show ?thesis using after_rehash [OF k not_live [OF t f] 2(2)] by simp
  qed (simp add: placed_def)
qed

lemma newkey_placed:
  assumes t: "table_ok t" and k: "good_key k" and f: "finds t k None"
  shows "placed t k (newkey 2 t k)"
proof -
  note step = newkey_step [OF t k f, of 1, unfolded Suc_1]
  consider "newkey 2 t k = and_then (rehash (newkey 1) t k) (\<lambda>t. arrayornewkey (newkey 1) t k)"
    | t' where "table_ok t'" "lt_array t' = lt_array t" "lt_node t' = lt_node t"
      "newkey 2 t k = and_then (rehash (newkey 1) t' k) (\<lambda>t. arrayornewkey (newkey 1) t k)"
    | t' i where "newkey 2 t k = Inr (t', NodeSlot i)" "table_ok t'" "content t' = content t" "finds t' k (Some (NodeSlot i))"
    using step by (elim disjE conjE exE) blast+
  then show ?thesis
  proof cases
    case 1
    then show ?thesis using again_correct [OF t k f, of 0] by simp
  next
    case 2
    have "finds t' k None" "content t' = content t" using f 2(2,3) by (simp_all add: finds_def content_def)
    then have "placed t' k (newkey 2 t k)" "content t' = content t" using again_correct [OF 2(1) k, of 0] 2(4) by simp_all
    then show ?thesis by (simp add: placed_def)
  next
    case 3
    then show ?thesis by (auto simp: placed_def)
  qed
qed

end
