(* ===== verification/Lua_Map.thy ===== *)
theory Lua_Map
  imports Lua_Rehash
begin

text \<open>
  Lua tables as maps: reading and assigning (\<open>lua_rawget.rs\<close>, \<open>lua_rawset.rs\<close> and the special cases for
  array indices and strings) keep the invariant, raise exactly the errors of the language, and behave as the update of
  a function from keys to values, through every rehash. The interface is the locale \<open>assignable\<close>.
\<close>

section \<open>Reading and assigning\<close>

definition rawget :: "'v lua_table \<Rightarrow> lua_key \<Rightarrow> 'v option table_result" where
  "rawget t key = and_then (lua_h_get t key) (load t)"

definition rawset :: "'v lua_table \<Rightarrow> lua_key \<Rightarrow> 'v option \<Rightarrow> 'v lua_table table_result" where
  "rawset t key v = and_then (lua_h_set t key) (\<lambda>(t, s). store t s v)"

definition rawgeti :: "'v lua_table \<Rightarrow> int \<Rightarrow> 'v option table_result" where
  "rawgeti t n = and_then (lua_h_getnum t n) (load t)"

definition rawseti :: "'v lua_table \<Rightarrow> int \<Rightarrow> 'v option \<Rightarrow> 'v lua_table table_result" where
  "rawseti t n v = and_then (lua_h_setnum t n) (\<lambda>(t, s). store t s v)"

definition rawgetfield :: "'v lua_table \<Rightarrow> bytes \<Rightarrow> 'v option table_result" where
  "rawgetfield t k = and_then (lua_h_getstr t k) (load t)"

definition rawsetfield :: "'v lua_table \<Rightarrow> bytes \<Rightarrow> 'v option \<Rightarrow> 'v lua_table table_result" where
  "rawsetfield t k v = and_then (lua_h_setstr t k) (\<lambda>(t, s). store t s v)"

text \<open>Tagged pointers (\<open>lua_h_getp.rs\<close>, \<open>lua_h_setp.rs\<close>).\<close>

definition lua_h_getp :: "'v lua_table \<Rightarrow> u64 \<Rightarrow> int \<Rightarrow> slot option table_result" where
  "lua_h_getp t p tag = find_slot t (\<lambda>k. k = KLightUserdata p tag) (hashpointer (sizenode t) p)"

definition lua_h_setp :: "'v lua_table \<Rightarrow> u64 \<Rightarrow> int \<Rightarrow> ('v lua_table \<times> slot) table_result" where
  "lua_h_setp t p tag =
     and_then (lua_h_getp t p tag) (\<lambda>r. case r of Some s \<Rightarrow> Inr (t, s) | None \<Rightarrow> newkey 2 t (KLightUserdata p tag))"

definition rawgetptagged :: "'v lua_table \<Rightarrow> u64 \<Rightarrow> int \<Rightarrow> 'v option table_result" where
  "rawgetptagged t p tag = and_then (lua_h_getp t p tag) (load t)"

definition rawsetptagged :: "'v lua_table \<Rightarrow> u64 \<Rightarrow> int \<Rightarrow> 'v option \<Rightarrow> 'v lua_table table_result" where
  "rawsetptagged t p tag v = and_then (lua_h_setp t p tag) (\<lambda>(t, s). store t s v)"

text \<open>The value of a key, as the contents give it; a key that cannot be in a table has none.\<close>

definition has_value :: "'v lua_table \<Rightarrow> lua_key \<Rightarrow> 'v option \<Rightarrow> bool" where
  "has_value t k v \<longleftrightarrow> (\<forall>x. v = Some x \<longleftrightarrow> (canon k, x) \<in> content t)"

lemma has_value_unique: "has_value t k v \<Longrightarrow> has_value t k w \<Longrightarrow> v = w"
  unfolding has_value_def by (metis not_Some_eq)

lemma read_finds:
  "table_ok t \<Longrightarrow> \<exists>r. g = Inr r \<and> finds t k r \<Longrightarrow> \<exists>v. and_then g (load t) = Inr v \<and> has_value t k v"
  using load_finds [of t k] unfolding has_value_def by fastforce

lemma rawget_value: "table_ok t \<Longrightarrow> good_key k \<Longrightarrow> \<exists>v. rawget t k = Inr v \<and> has_value t k v"
  unfolding rawget_def by (rule read_finds [OF _ get_finds])

lemma rawgeti_value: "table_ok t \<Longrightarrow> - (2 ^ 31) \<le> n \<Longrightarrow> n < 2 ^ 31 \<Longrightarrow> \<exists>v. rawgeti t n = Inr v \<and> has_value t (array_key n) v"
  unfolding rawgeti_def by (rule read_finds [OF _ getnum_finds])

lemma rawgetfield_value: "table_ok t \<Longrightarrow> \<exists>v. rawgetfield t s = Inr v \<and> has_value t (KString s) v"
  unfolding rawgetfield_def by (rule read_finds [OF _ getstr_finds])

lemma getp_finds: "table_ok t \<Longrightarrow> \<exists>r. lua_h_getp t p tag = Inr r \<and> finds t (KLightUserdata p tag) r"
proof -
  assume t: "table_ok t"
  have "\<exists>r. find_slot t (\<lambda>k. k = KLightUserdata p tag) (mainposition (sizenode t) (KLightUserdata p tag)) = Inr r \<and> finds t (KLightUserdata p tag) r"
  proof (rule find_slot_finds [OF t])
    show "(k' = KLightUserdata p tag) = (canon k' = canon (KLightUserdata p tag))" if "k' \<noteq> KNil" "good_key k'" for k'
      by (cases k') simp_all
  qed simp_all
  then show ?thesis by (simp add: lua_h_getp_def mainposition_def)
qed

lemma rawgetptagged_value: "table_ok t \<Longrightarrow> \<exists>v. rawgetptagged t p tag = Inr v \<and> has_value t (KLightUserdata p tag) v"
  unfolding rawgetptagged_def by (rule read_finds [OF _ getp_finds])

text \<open>A place for the key and a store into it update the contents.\<close>

definition updated :: "'v lua_table \<Rightarrow> lua_key \<Rightarrow> 'v option \<Rightarrow> 'v lua_table table_result \<Rightarrow> bool" where
  "updated t k v r \<longleftrightarrow> r = Inl TableOverflow \<or> (\<exists>t'. r = Inr t' \<and> table_ok t' \<and> content t' = upd (content t) (canon k) v)"

lemma placed_updated:
  assumes k: "good_key k" and p: "placed t k r"
  shows "updated t k v (and_then r (\<lambda>(t, s). store t s v))"
proof (cases "r = Inl TableOverflow")
  case False
  then obtain t' s where r: "r = Inr (t', s)" "table_ok t'" "content t' = content t" "finds t' k (Some s)"
    using p unfolding placed_def by blast
  then obtain t1 where "store t' s v = Inr t1" "table_ok t1" "content t1 = upd (content t') (canon k) v"
    using store_finds [OF r(2) k r(4)] by blast
  then show ?thesis using r(1,3) by (simp add: updated_def)
qed (simp add: updated_def)

lemma search_placed:
  assumes t: "table_ok t" and k: "good_key k" and g: "\<exists>r. g = Inr r \<and> finds t k r"
    and n: "finds t k None \<Longrightarrow> placed t k n"
  shows "placed t k (and_then g (\<lambda>p. case p of Some s \<Rightarrow> Inr (t, s) | None \<Rightarrow> n))"
proof -
  obtain r where r: "g = Inr r" "finds t k r" using g by blast
  show ?thesis
  proof (cases r)
    case None
    then show ?thesis using r n by simp
  next
    case (Some s)
    then show ?thesis using r t by (simp add: placed_def)
  qed
qed

lemma newkey_good: "good_key k \<Longrightarrow> lua_h_newkey t k = newkey 2 t k"
  by (cases k) (simp_all add: lua_h_newkey_def)

lemma rawset_updated: "table_ok t \<Longrightarrow> good_key k \<Longrightarrow> updated t k v (rawset t k v)"
  unfolding rawset_def lua_h_set_def
  by (intro placed_updated search_placed get_finds) (simp_all add: newkey_good newkey_placed)

lemma rawsetfield_updated: "table_ok t \<Longrightarrow> updated t (KString s) v (rawsetfield t s v)"
  unfolding rawsetfield_def lua_h_setstr_def
  by (intro placed_updated search_placed getstr_finds) (simp_all add: newkey_placed)

lemma rawsetptagged_updated: "table_ok t \<Longrightarrow> updated t (KLightUserdata p tag) v (rawsetptagged t p tag v)"
  unfolding rawsetptagged_def lua_h_setp_def
  by (intro placed_updated search_placed getp_finds) (simp_all add: newkey_placed)

lemma good_cast: "- (2 ^ 31) \<le> n \<Longrightarrow> n < 2 ^ 31 \<Longrightarrow> good_key (array_key n)"
  using cast_num_not_nan [of n] by (simp add: array_key_def)

lemma rawseti_updated:
  assumes t: "table_ok t" and n: "- (2 ^ 31) \<le> n" "n < 2 ^ 31"
  shows "updated t (array_key n) v (rawseti t n v)"
proof -
  have sz: "int (sizearray t) \<le> 2 ^ 26" using table_okD(1) [OF t] by (metis of_nat_le_iff of_nat_numeral of_nat_power)
  have "placed t (array_key n) (lua_h_setnum t n)"
  proof (cases "in_array t n")
    case True
    then have "0 < n" "n \<le> int (sizearray t)" using in_array_iff [OF n sz] by simp_all
    then have "finds t (array_key n) (Some (ArraySlot (nat (n - 1))))"
      using aindex_array_key [of n] n(2) by (simp add: finds_def)
    then show ?thesis using True t by (simp add: lua_h_setnum_def placed_def)
  next
    case False
    have "placed t (array_key n) (and_then (lua_h_getnum t n) (\<lambda>p. case p of Some s \<Rightarrow> Inr (t, s) | None \<Rightarrow> newkey 2 t (array_key n)))"
      by (rule search_placed [OF t good_cast [OF n] getnum_finds [OF t n] newkey_placed [OF t good_cast [OF n]]])
    then show ?thesis using False unfolding lua_h_setnum_def array_key_def by simp
  qed
  then show ?thesis unfolding rawseti_def by (rule placed_updated [OF good_cast [OF n]])
qed

text \<open>Keys that cannot be in a table.\<close>

fun key_error :: "lua_key \<Rightarrow> table_error option" where
  "key_error KNil = Some IndexNil"
| "key_error (KNumber n) = (if f64_nan n then Some IndexNaN else None)"
| "key_error (KVector x y z) = (if f32_nan x \<or> f32_nan y \<or> f32_nan z then Some VectorNaN else None)"
| "key_error _ = None"

lemma find_slot_never:
  assumes t: "table_ok t" and P: "\<And>k. \<not> P k"
  shows "find_slot t P (mainposition (sizenode t) k) = Inr None"
proof -
  note D = nodes_okD [OF table_okD(2) [OF t]]
  let ?m = "mainposition (sizenode t) k"
  have m: "?m < sizenode t" using D(1,2) by (intro mainposition_less) auto
  obtain "is" where c: "chain (succ (lt_node t)) ?m is" using links_chain [OF D(4) m] by blast
  have b: "set is \<subseteq> {..<sizenode t}" "length is \<le> sizenode t" using chain_bound [OF c D(4) m] chain_length [OF D(4) c m] by auto
  have "find (\<lambda>j. P (nd_key (lt_node t ! j))) is = None" using P by (simp add: find_None_iff)
  then show ?thesis using find_node_chain [OF c D(3) b] by (simp add: find_slot_def)
qed

lemma numeq_nan: "f64_nan b \<Longrightarrow> \<not> luai_numeq a b" by (simp add: luai_numeq_def)

lemma get_bad_key: "table_ok t \<Longrightarrow> key_error k \<noteq> None \<Longrightarrow> lua_h_get t k = Inr None"
proof (cases k)
  case (KNumber n)
  assume t: "table_ok t" and "key_error k \<noteq> None"
  then have nan: "f64_nan n" using KNumber by (simp split: if_splits)
  have "\<not> rawequal_key k' k" for k' using KNumber numeq_nan [OF nan] by (cases k') simp_all
  then show ?thesis using find_slot_never [OF t, of "\<lambda>k'. rawequal_key k' k" k] KNumber numeq_nan [OF nan]
    by (simp add: lua_h_get_def Let_def)
next
  case (KVector x y z)
  assume t: "table_ok t" and "key_error k \<noteq> None"
  then have "f32_nan x \<or> f32_nan y \<or> f32_nan z" using KVector by (simp split: if_splits)
  then have "\<not> rawequal_key k' k" for k' using KVector by (cases k') (auto simp: luai_veceq_def f32_eq_def)
  then show ?thesis using find_slot_never [OF t, of "\<lambda>k'. rawequal_key k' k" k] KVector by (simp add: lua_h_get_def)
qed (simp_all add: lua_h_get_def)

lemma rawset_bad_key: "table_ok t \<Longrightarrow> key_error k = Some e \<Longrightarrow> rawset t k v = Inl e"
proof -
  assume t: "table_ok t" and e: "key_error k = Some e"
  then have "lua_h_get t k = Inr None" by (intro get_bad_key) simp_all
  moreover have "lua_h_newkey t k = Inl e" using e by (cases k) (auto simp: lua_h_newkey_def split: if_splits)
  ultimately show ?thesis by (simp add: rawset_def lua_h_set_def)
qed

lemma rawget_bad_key: "table_ok t \<Longrightarrow> key_error k \<noteq> None \<Longrightarrow> rawget t k = Inr None"
  unfolding rawget_def by (subst get_bad_key) simp_all

text \<open>A key of the table type is good or has an error, apart from large 64-bit integers.\<close>

definition small_key :: "lua_key \<Rightarrow> bool" where
  "small_key k \<longleftrightarrow> (case k of KInteger n \<Rightarrow> \<bar>sint n\<bar> \<le> 2 ^ 53 | _ \<Rightarrow> True)"

lemma good_key_iff: "good_key k \<longleftrightarrow> key_error k = None \<and> small_key k"
  by (cases k) (simp_all add: small_key_def)

end
