(* ===== verification/Lua_Length.thy ===== *)
theory Lua_Length
  imports Lua_Map
begin

text \<open>
  The length of a Lua table (\<open>lua_h_getn.rs\<close>): a border of the array, found from the boundary that the table remembers or by
  bisection. The remembered boundary shares its place with the free pointer of the nodes; every operation keeps it within the array.
\<close>

section \<open>Code\<close>

text \<open>An element of the array is nil; the index is checked.\<close>

definition nil_at :: "'v lua_table \<Rightarrow> int \<Rightarrow> bool table_result" where
  "nil_at t i = (if 0 \<le> i \<and> i < int (sizearray t) then Inr (lt_array t ! nat i = None) else Inl Fault)"

definition updateaboundary :: "'v lua_table \<Rightarrow> int \<Rightarrow> ('v lua_table \<times> int) table_result" where
  "updateaboundary t boundary =
     and_then (if boundary < int (sizearray t) then nil_at t (boundary - 1) else Inr False) (\<lambda>low.
     if low then
       and_then (if boundary \<ge> 2 then nil_at t (boundary - 2) else Inr True) (\<lambda>n.
         Inr (if n then (t, 0) else (maybesetaboundary t (boundary - 1), boundary - 1)))
     else
       and_then (if boundary + 1 < int (sizearray t) then nil_at t boundary else Inr True) (\<lambda>n.
       and_then (if n then Inr False else nil_at t (boundary + 1)) (\<lambda>high.
         Inr (if high then (maybesetaboundary t (boundary + 1), boundary + 1) else (t, 0)))))"

text \<open>The bisection: \<open>base\<close> is the element at the offset \<open>b\<close>.\<close>

function getn_loop :: "'v lua_table \<Rightarrow> int \<Rightarrow> nat \<Rightarrow> int table_result" where
  "getn_loop t b rest =
     (if rest div 2 \<noteq> 0 then
        let half = rest div 2 in
        and_then (nil_at t (b + int half)) (\<lambda>n. getn_loop t (if n then b else b + int half) (rest - half))
      else and_then (nil_at t b) (\<lambda>n. Inr ((if n then 0 else 1) + b)))"
  by pat_completeness auto
termination by (relation "measure (\<lambda>(t, b, rest). rest)") auto

declare getn_loop.simps [simp del]

definition getn_search :: "'v lua_table \<Rightarrow> ('v lua_table \<times> int) table_result" where
  "getn_search t =
     (let j = int (sizearray t) in
      and_then (if j > 0 then nil_at t (j - 1) else Inr False) (\<lambda>n.
      if n then and_then (getn_loop t 0 (sizearray t)) (\<lambda>boundary. Inr (maybesetaboundary t boundary, boundary))
      else
        and_then (if lt_dummy t then Inr None else and_then (lua_h_getnum t (j + 1)) (load t)) (\<lambda>v.
          if v = None then Inr (t, j) else Inl Fault)))"

definition lua_h_getn :: "'v lua_table \<Rightarrow> ('v lua_table \<times> int) table_result" where
  "lua_h_getn t =
     (let boundary = getaboundary t; sz = int (sizearray t) in
      if boundary > 0 then
        and_then (nil_at t (sz - 1)) (\<lambda>n.
        if \<not> n \<and> lt_dummy t then Inr (t, sz)
        else
          and_then (if boundary < sz then nil_at t (boundary - 1) else Inr True) (\<lambda>a.
          and_then (if a then Inr False else nil_at t boundary) (\<lambda>b.
          if b then Inr (t, boundary)
          else
            and_then (updateaboundary t boundary) (\<lambda>(t, found).
              if found > 0 then Inr (t, found) else getn_search t))))
      else getn_search t)"

section \<open>The remembered boundary\<close>

definition boundary_ok :: "'v lua_table \<Rightarrow> bool" where "boundary_ok t \<longleftrightarrow> - int (sizearray t) \<le> lt_lastfree t"

definition table_inv :: "'v lua_table \<Rightarrow> bool" where "table_inv t \<longleftrightarrow> table_ok t \<and> boundary_ok t"

text \<open>Operations that insert keep the free pointer or move it to a node.\<close>

definition free_kept :: "'v lua_table \<Rightarrow> 'v lua_table \<Rightarrow> bool" where
  "free_kept t t' \<longleftrightarrow> (lt_lastfree t' = lt_lastfree t \<and> sizearray t' = sizearray t) \<or> 0 \<le> lt_lastfree t'"

lemma free_kept_refl [simp]: "free_kept t t" by (simp add: free_kept_def)

lemma free_kept_trans: "free_kept t t' \<Longrightarrow> free_kept t' t'' \<Longrightarrow> free_kept t t''"
  by (auto simp: free_kept_def)

lemma free_kept_boundary: "free_kept t t' \<Longrightarrow> boundary_ok t \<Longrightarrow> boundary_ok t'"
  by (auto simp: free_kept_def boundary_ok_def)

lemma store_free: "store t s v = Inr t' \<Longrightarrow> free_kept t t'"
  by (cases s) (auto simp: free_kept_def split: if_splits)

lemma getfreepos_free: "getfreepos ns f = Inr (f', r) \<Longrightarrow> f' = f \<or> 0 \<le> f'"
  by (auto simp: getfreepos_def split: if_splits prod.splits)

lemma insert_free: "insert_node ns f k = Inr (f', r) \<Longrightarrow> f' = f \<or> 0 \<le> f'"
proof -
  assume "insert_node ns f k = Inr (f', r)"
  then have "f' = f \<or> (\<exists>n. getfreepos ns f = Inr (f', n))"
    unfolding insert_node_def Let_def by (auto split: if_splits option.splits prod.splits)
  then show ?thesis using getfreepos_free by blast
qed

definition keeps :: "'v newkey_fun \<Rightarrow> bool" where "keeps nk \<longleftrightarrow> (\<forall>t k t' s. nk t k = Inr (t', s) \<longrightarrow> free_kept t t')"

lemma arrayornewkey_free: "keeps nk \<Longrightarrow> arrayornewkey nk t k = Inr (t', s) \<Longrightarrow> free_kept t t'"
  by (auto simp: arrayornewkey_def keeps_def Let_def split: lua_key.splits if_splits)

lemma reinsert_array_free: "keeps nk \<Longrightarrow> reinsert_array nk i es t = Inr t' \<Longrightarrow> 0 \<le> lt_lastfree t \<Longrightarrow> 0 \<le> lt_lastfree t'"
proof (induction es arbitrary: i t)
  case (Cons e es)
  obtain t1 where t1: "(if e \<noteq> None then and_then (nk t (KNumber (cast_num (int i + 1)))) (\<lambda>(t, s). store t s e) else Inr t) = Inr t1"
      "reinsert_array nk (i + 1) es t1 = Inr t'" using Cons.prems(2) by auto
  have "free_kept t t1"
  proof (cases e)
    case (Some v)
    then obtain t2 s where "nk t (KNumber (cast_num (int i + 1))) = Inr (t2, s)" "store t2 s e = Inr t1" using t1(1) by auto
    then show ?thesis using Cons.prems(1) store_free free_kept_trans unfolding keeps_def by blast
  qed (use t1(1) in simp)
  then have "0 \<le> lt_lastfree t1" using Cons.prems(3) by (auto simp: free_kept_def)
  then show ?case using Cons.IH [OF Cons.prems(1) t1(2)] by blast
qed simp

lemma reinsert_nodes_free: "keeps nk \<Longrightarrow> reinsert_nodes nk ns n t = Inr t' \<Longrightarrow> 0 \<le> lt_lastfree t \<Longrightarrow> 0 \<le> lt_lastfree t'"
proof (induction n arbitrary: t)
  case (Suc n)
  obtain t1 where t1: "(if nd_val (ns ! n) \<noteq> None then and_then (arrayornewkey nk t (nd_key (ns ! n))) (\<lambda>(t, s). store t s (nd_val (ns ! n))) else Inr t) = Inr t1"
      "reinsert_nodes nk ns n t1 = Inr t'" using Suc.prems(2) by auto
  have "free_kept t t1"
  proof (cases "nd_val (ns ! n)")
    case (Some v)
    then obtain t2 s where "arrayornewkey nk t (nd_key (ns ! n)) = Inr (t2, s)" "store t2 s (nd_val (ns ! n)) = Inr t1" using t1(1) by auto
    then show ?thesis using Suc.prems(1) arrayornewkey_free store_free free_kept_trans by blast
  qed (use t1(1) in simp)
  then have "0 \<le> lt_lastfree t1" using Suc.prems(3) by (auto simp: free_kept_def)
  then show ?case using Suc.IH [OF Suc.prems(1) t1(2)] by blast
qed simp

lemma setnodevector_free: "setnodevector t n = Inr t' \<Longrightarrow> 0 \<le> lt_lastfree t'"
  by (auto simp: setnodevector_def Let_def split: if_splits)

lemma resize_free:
  assumes nk: "keeps nk" and r: "resize nk t a h = Inr t'"
  shows "0 \<le> lt_lastfree t'"
proof -
  obtain t1 t2 t3 where s: "setnodevector t1 h = Inr t2"
      "(if a < int (sizearray t) then reinsert_array nk (nat a) (drop (nat a) (lt_array t)) (t2\<lparr>lt_array := take (nat a) (lt_array t)\<rparr>) else Inr t2) = Inr t3"
      "reinsert_nodes nk (lt_node t) (sizenode t) t3 = Inr t'"
  proof -
    have "\<not> (a > MAXSIZE \<or> h > MAXSIZE)" using r by (auto simp: resize_def)
    then show ?thesis using r that unfolding resize_def Let_def if_not_P [OF \<open>\<not> (a > MAXSIZE \<or> h > MAXSIZE)\<close>] and_then_eq_Inr by blast
  qed
  have "0 \<le> lt_lastfree t2" using setnodevector_free [OF s(1)] .
  then have "0 \<le> lt_lastfree t3" using s(2) reinsert_array_free [OF nk, of "nat a"] by (auto split: if_splits)
  then show ?thesis using reinsert_nodes_free [OF nk s(3)] by blast
qed

lemma rehash_free: "keeps nk \<Longrightarrow> rehash nk t k = Inr t' \<Longrightarrow> 0 \<le> lt_lastfree t'"
  unfolding rehash_def Let_def by (auto simp: resize_free split: if_splits prod.splits)

lemma newkey_keeps: "keeps (newkey d)"
proof (induction d)
  case 0
  show ?case by (simp add: keeps_def newkey.simps)
next
  case (Suc d)
  have again: "free_kept t0 t'" if r: "and_then (rehash (newkey d) t k) (\<lambda>t. arrayornewkey (newkey d) t k) = Inr (t', s)" for t0 t t' :: "'a lua_table" and k s
  proof -
    obtain t1 where "rehash (newkey d) t k = Inr t1" "arrayornewkey (newkey d) t1 k = Inr (t', s)" using r by auto
    then have "0 \<le> lt_lastfree t1" "free_kept t1 t'" using rehash_free [OF Suc] arrayornewkey_free [OF Suc] by blast+
    then show ?thesis by (auto simp: free_kept_def)
  qed
  show ?case unfolding keeps_def
  proof (intro allI impI)
    fix t :: "'a lua_table" and k t' s assume n: "newkey (Suc d) t k = Inr (t', s)"
    show "free_kept t t'"
      using n again [of _ k t' s t] unfolding newkey.simps(2) Let_def
      by (auto dest!: insert_free simp: free_kept_def split: if_splits option.splits prod.splits)
  qed
qed

lemma clear_free: "boundary_ok t \<Longrightarrow> boundary_ok (lua_h_clear t)"
  by (auto simp: boundary_ok_def lua_h_clear_def maybesetaboundary_def Let_def)

lemma getaboundary_bounds: "boundary_ok t \<Longrightarrow> 0 \<le> getaboundary t \<and> getaboundary t \<le> int (sizearray t)"
  by (auto simp: boundary_ok_def getaboundary_def)

lemma clone_free: "boundary_ok t \<Longrightarrow> boundary_ok (lua_h_clone t)"
  using getaboundary_bounds [of t] by (auto simp: boundary_ok_def lua_h_clone_def maybesetaboundary_def Let_def)

section \<open>Borders\<close>

definition border :: "'v lua_table \<Rightarrow> int \<Rightarrow> bool" where
  "border t n \<longleftrightarrow> 0 \<le> n \<and> (n = 0 \<or> live_index t n) \<and> \<not> live_index t (n + 1)"

lemma live_array: "table_ok t \<Longrightarrow> i < sizearray t \<Longrightarrow> live_index t (int i + 1) \<longleftrightarrow> lt_array t ! i \<noteq> None"
proof -
  assume t: "table_ok t" and i: "i < sizearray t"
  note r = array_index_range [OF t i]
  have "(array_key (int i + 1), v) \<in> content t \<longleftrightarrow> lt_array t ! i = Some v" for v
    using content_index [OF t _ i, of "array_key (int i + 1)" "array_key (int i + 1)" v] canon_array_key aindex_array_key r by simp
  then have "array_key (int i + 1) \<in> fst ` content t \<longleftrightarrow> lt_array t ! i \<noteq> None" by force
  then show ?thesis using r by (simp add: live_index_def)
qed

lemma nil_at_live: "table_ok t \<Longrightarrow> 0 \<le> i \<Longrightarrow> i < int (sizearray t) \<Longrightarrow> nil_at t i = Inr (\<not> live_index t (i + 1))"
  using live_array [of t "nat i"] by (simp add: nil_at_def)

lemma live_array_end: "table_ok t \<Longrightarrow> \<not> live_index t (int (sizearray t) + 1)"
proof
  assume t: "table_ok t" and l: "live_index t (int (sizearray t) + 1)"
  let ?K = "array_key (int (sizearray t) + 1)"
  have r: "0 < int (sizearray t) + 1" "int (sizearray t) + 1 < 2 ^ 31" using table_okD(1) [OF t] by simp_all
  obtain v where "(?K, v) \<in> content t" using l unfolding live_index_def by (metis imageE prod.collapse)
  then show False
  proof (cases rule: content_cases)
    case (1 i)
    then show False using array_key_inj [OF r, of "int i + 1"] array_index_range [OF t 1(1)] by simp
  next
    case (2 i)
    have k: "nd_key (lt_node t ! i) \<noteq> KNil" using nodes_okD(5) [OF table_okD(2) [OF t] 2(1)] 2(2) by auto
    have "aindex (nd_key (lt_node t ! i)) = aindex ?K"
      by (rule aindex_canon) (simp add: 2(3) [symmetric] canon_array_key [OF r])
    then show False using table_okD(5) [OF t 2(1) k] aindex_array_key [OF r] by simp
  qed
qed

lemma live_index_cong: "content t' = content t \<Longrightarrow> live_index t' = live_index t"
  by (rule ext) (simp add: live_index_def)

lemma getn_loop_correct:
  assumes t: "table_ok t"
  shows "0 \<le> b \<Longrightarrow> 0 < rest \<Longrightarrow> b + int rest \<le> int (sizearray t) \<Longrightarrow> b = 0 \<or> live_index t (b + 1) \<Longrightarrow>
    (b + int rest < int (sizearray t) \<and> \<not> live_index t (b + int rest + 1)) \<or> \<not> live_index t (b + int rest) \<Longrightarrow>
    \<exists>n. getn_loop t b rest = Inr n \<and> border t n \<and> n \<le> int (sizearray t)"
proof (induction rest arbitrary: b rule: less_induct)
  case (less rest)
  show ?case
  proof (cases "rest div 2 = 0")
    case True
    then have r: "rest = 1" using less.prems(2) by (cases rest) (simp_all add: div_eq_0_iff)
    have e: "getn_loop t b rest = Inr ((if \<not> live_index t (b + 1) then 0 else 1) + b)"
      using nil_at_live [OF t less.prems(1), unfolded] less.prems(3) r by (subst getn_loop.simps) simp
    show ?thesis
    proof (cases "live_index t (b + 1)")
      case live: True
      have "border t (b + 1)" using less.prems(1,5) live r by (auto simp: border_def add.commute)
      then show ?thesis using e live less.prems(3) r by (auto simp: add.commute)
    next
      case False
      then have "b = 0" using less.prems(4) by blast
      then show ?thesis using e False by (auto simp: border_def)
    qed
  next
    case False
    let ?h = "rest div 2"
    have h: "0 < ?h" "?h < rest" "2 * ?h \<le> rest" "rest - ?h \<le> ?h + 1" using False by linarith+
    have i: "0 \<le> b + int ?h" "b + int ?h < int (sizearray t)" using less.prems(1,3) h by linarith+
    have step: "getn_loop t b rest = getn_loop t (if \<not> live_index t (b + int ?h + 1) then b else b + int ?h) (rest - ?h)"
      using False nil_at_live [OF t i] by (subst getn_loop.simps) (simp add: Let_def)
    show ?thesis
    proof (cases "live_index t (b + int ?h + 1)")
      case live: True
      have "b + int ?h + int (rest - ?h) = b + int rest" using h(2) by simp
      then have "\<exists>n. getn_loop t (b + int ?h) (rest - ?h) = Inr n \<and> border t n \<and> n \<le> int (sizearray t)"
        using less.prems live i h by (intro less.IH) simp_all
      then show ?thesis using step live by simp
    next
      case dead: False
      have "int (rest - ?h) = int ?h \<or> int (rest - ?h) = int ?h + 1" using h by linarith
      then have "(b + int (rest - ?h) < int (sizearray t) \<and> \<not> live_index t (b + int (rest - ?h) + 1)) \<or> \<not> live_index t (b + int (rest - ?h))"
        using dead i(2) by (auto simp: add.assoc)
      moreover have "b + int (rest - ?h) \<le> int (sizearray t)" "0 < rest - ?h" "rest - ?h < rest" using less.prems(3) h by linarith+
      ultimately have "\<exists>n. getn_loop t b (rest - ?h) = Inr n \<and> border t n \<and> n \<le> int (sizearray t)"
        using less.prems(1,4) by (intro less.IH)
      then show ?thesis using step dead by simp
    qed
  qed
qed

definition length_result :: "'v lua_table \<Rightarrow> ('v lua_table \<times> int) table_result \<Rightarrow> bool" where
  "length_result t r \<longleftrightarrow> (\<exists>t' n. r = Inr (t', n) \<and> border t n \<and> n \<le> int (sizearray t) \<and> table_inv t' \<and> content t' = content t \<and>
     lt_array t' = lt_array t \<and> lt_node t' = lt_node t \<and> lt_dummy t' = lt_dummy t)"

lemma set_boundary:
  assumes t: "table_inv t" and n: "border t n" "n \<le> int (sizearray t)"
  shows "length_result t (Inr (maybesetaboundary t n, n))"
proof -
  let ?t = "maybesetaboundary t n"
  have e: "lt_array ?t = lt_array t" "lt_node ?t = lt_node t" "lt_dummy ?t = lt_dummy t" by (simp_all add: maybesetaboundary_def)
  then have "content ?t = content t" by (simp add: content_def)
  moreover have "table_ok ?t"
    using t n(1) unfolding table_inv_def table_ok_def e by (auto simp: maybesetaboundary_def border_def lastfree_ok_def)
  moreover have "boundary_ok ?t" using t n unfolding table_inv_def by (auto simp: maybesetaboundary_def boundary_ok_def)
  ultimately show ?thesis using n e unfolding length_result_def table_inv_def by blast
qed

lemma same_length: "table_inv t \<Longrightarrow> border t n \<Longrightarrow> n \<le> int (sizearray t) \<Longrightarrow> length_result t (Inr (t, n))"
  unfolding length_result_def by blast

lemma getn_search_correct:
  assumes t: "table_inv t"
  shows "length_result t (getn_search t)"
proof -
  have ok: "table_ok t" using t by (simp add: table_inv_def)
  let ?j = "int (sizearray t)"
  show ?thesis
  proof (cases "0 < ?j \<and> \<not> live_index t ?j")
    case True
    obtain n where n: "getn_loop t 0 (sizearray t) = Inr n" "border t n" "n \<le> ?j"
      using getn_loop_correct [OF ok, of 0 "sizearray t"] True by auto
    have "getn_search t = Inr (maybesetaboundary t n, n)"
      using True n(1) nil_at_live [OF ok, of "?j - 1"] by (simp add: getn_search_def Let_def)
    then show ?thesis using set_boundary [OF t n(2,3)] by simp
  next
    case False
    have "(if lt_dummy t then Inr None else and_then (lua_h_getnum t (?j + 1)) (load t)) = Inr None"
    proof (cases "lt_dummy t")
      case dm: False
      have r: "0 < ?j + 1" "?j + 1 < 2 ^ 31" using table_okD(1) [OF ok] by simp_all
      obtain v where v: "rawgeti t (?j + 1) = Inr v" "has_value t (array_key (?j + 1)) v" using rawgeti_value [OF ok, of "?j + 1"] r by auto
      have "v = None"
      proof (rule ccontr)
        assume "v \<noteq> None"
        then obtain x where "(array_key (?j + 1), x) \<in> content t" using v(2) canon_array_key [OF r] unfolding has_value_def by auto
        then have "live_index t (?j + 1)" using r by (force simp: live_index_def)
        then show False using live_array_end [OF ok] by simp
      qed
      then show ?thesis using v(1) dm by (simp add: rawgeti_def)
    qed simp
    moreover have "(if ?j > 0 then nil_at t (?j - 1) else Inr False) = Inr False"
      using False nil_at_live [OF ok, of "?j - 1"] by auto
    ultimately have "getn_search t = Inr (t, ?j)" unfolding getn_search_def Let_def by (simp only: and_then_simps) simp
    moreover have "border t ?j" using False live_array_end [OF ok] by (auto simp: border_def)
    ultimately show ?thesis using same_length [OF t] by simp
  qed
qed

lemma updateaboundary_correct:
  assumes t: "table_inv t" and b: "0 < boundary" "boundary \<le> int (sizearray t)"
  shows "updateaboundary t boundary = Inr (t, 0) \<or>
    (\<exists>n. 0 < n \<and> border t n \<and> n \<le> int (sizearray t) \<and> updateaboundary t boundary = Inr (maybesetaboundary t n, n))"
proof -
  have ok: "table_ok t" using t by (simp add: table_inv_def)
  note nil = nil_at_live [OF ok]
  let ?b = boundary and ?sz = "int (sizearray t)"
  show ?thesis
  proof (cases "?b < ?sz \<and> \<not> live_index t ?b")
    case True
    then have low: "(if ?b < ?sz then nil_at t (?b - 1) else Inr False) = Inr True" using nil [of "?b - 1"] b by simp
    show ?thesis
    proof (cases "2 \<le> ?b \<and> live_index t (?b - 1)")
      case live: True
      then have "nil_at t (?b - 2) = Inr False" using nil [of "?b - 2"] True by simp
      then have "updateaboundary t ?b = Inr (maybesetaboundary t (?b - 1), ?b - 1)" using low live by (simp add: updateaboundary_def)
      moreover have "border t (?b - 1)" using live True by (simp add: border_def)
      ultimately show ?thesis using live b by (intro disjI2 exI [of _ "?b - 1"]) simp
    next
      case False
      then have "(if ?b \<ge> 2 then nil_at t (?b - 2) else Inr True) = Inr True" using nil [of "?b - 2"] True by auto
      then show ?thesis using low by (simp add: updateaboundary_def)
    qed
  next
    case False
    then have low: "(if ?b < ?sz then nil_at t (?b - 1) else Inr False) = Inr False" using nil [of "?b - 1"] b by auto
    show ?thesis
    proof (cases "?b + 1 < ?sz \<and> live_index t (?b + 1)")
      case True
      then have n: "(if ?b + 1 < ?sz then nil_at t ?b else Inr True) = Inr False" using nil [of ?b] b by simp
      have h: "nil_at t (?b + 1) = Inr (\<not> live_index t (?b + 2))" using nil [of "?b + 1"] True b by (simp add: add.commute)
      show ?thesis
      proof (cases "live_index t (?b + 2)")
        case dead: False
        then have "updateaboundary t ?b = Inr (maybesetaboundary t (?b + 1), ?b + 1)" using low n h by (simp add: updateaboundary_def)
        moreover have "border t (?b + 1)" using True dead b by (simp add: border_def add.commute)
        ultimately show ?thesis using True b by (intro disjI2 exI [of _ "?b + 1"]) simp
      next
        case live: True
        then show ?thesis using low n h by (simp add: updateaboundary_def)
      qed
    next
      case dead: False
      then have "(if ?b + 1 < ?sz then nil_at t ?b else Inr True) = Inr True" using nil [of ?b] b by auto
      then show ?thesis using low by (simp add: updateaboundary_def)
    qed
  qed
qed

lemma getn_correct:
  assumes t: "table_inv t"
  shows "length_result t (lua_h_getn t)"
proof -
  have ok: "table_ok t" and bo: "boundary_ok t" using t by (simp_all add: table_inv_def)
  let ?b = "getaboundary t" and ?sz = "int (sizearray t)"
  note nil = nil_at_live [OF ok]
  show ?thesis
  proof (cases "?b > 0")
    case False
    then show ?thesis using getn_search_correct [OF t] by (simp add: lua_h_getn_def Let_def)
  next
    case True
    have b: "0 < ?b" "?b \<le> ?sz" using True getaboundary_bounds [OF bo] by simp_all
    have e: "nil_at t (?sz - 1) = Inr (\<not> live_index t ?sz)" using nil [of "?sz - 1"] b by (cases "lt_array t = []") simp_all
    consider (full) "live_index t ?sz" "lt_dummy t" | (hit) "\<not> (live_index t ?sz \<and> lt_dummy t)" "?b < ?sz" "live_index t ?b" "\<not> live_index t (?b + 1)"
      | (miss) "\<not> (live_index t ?sz \<and> lt_dummy t)" "\<not> (?b < ?sz \<and> live_index t ?b \<and> \<not> live_index t (?b + 1))" by blast
    then show ?thesis
    proof cases
      case full
      then have "lua_h_getn t = Inr (t, ?sz)" using True e by (simp add: lua_h_getn_def Let_def)
      moreover have "border t ?sz" using full live_array_end [OF ok] by (simp add: border_def)
      ultimately show ?thesis using same_length [OF t] by simp
    next
      case hit
      have "nil_at t (?b - 1) = Inr False" "nil_at t ?b = Inr True" using nil [of "?b - 1"] nil [of ?b] hit b by simp_all
      then have "lua_h_getn t = Inr (t, ?b)" using True e hit by (simp add: lua_h_getn_def Let_def)
      moreover have "border t ?b" using hit b by (simp add: border_def)
      ultimately show ?thesis using same_length [OF t] b by simp
    next
      case miss
      have a: "(if ?b < ?sz then nil_at t (?b - 1) else Inr True) = Inr (\<not> (?b < ?sz \<and> live_index t ?b))" using nil [of "?b - 1"] b by auto
      have c: "(if \<not> (?b < ?sz \<and> live_index t ?b) then Inr False else nil_at t ?b) = Inr False" using nil [of ?b] miss(2) b by auto
      have "lua_h_getn t = and_then (updateaboundary t ?b) (\<lambda>(t, found). if found > 0 then Inr (t, found) else getn_search t)"
        unfolding lua_h_getn_def Let_def e a and_then_simps c using True miss(1) by auto
      then show ?thesis
        using updateaboundary_correct [OF t b] set_boundary [OF t] getn_search_correct [OF t] by auto
    qed
  qed
qed

end
