(* ===== verification/Lua_Next.thy ===== *)
theory Lua_Next
  imports Lua_Length
begin

text \<open>
  Traversal of Lua tables (\<open>lua_h_next.rs\<close>, \<open>findindex.rs\<close>): the elements are numbered, first those of the array and then the
  nodes, and \<open>lua_h_next\<close> finds the next element in use behind a key. A traversal that assigns to the keys it visits, removing
  elements as well, visits every element once and ends.
\<close>

section \<open>Code\<close>

definition findindex :: "'v lua_table \<Rightarrow> lua_key \<Rightarrow> int table_result" where
  "findindex t key =
     (if key = KNil then Inr (-1)
      else
        let i = key_index (Some key) in
        if i > 0 \<and> i \<le> int (sizearray t) then Inr (i - 1)
        else
          and_then (find_node (sizenode t) (lt_node t) (\<lambda>k. rawequal_key k key) (mainposition (sizenode t) key)) (\<lambda>n.
            case n of Some i \<Rightarrow> Inr (int i + int (sizearray t)) | None \<Rightarrow> Inl InvalidNext))"

function next_array :: "'v lua_table \<Rightarrow> nat \<Rightarrow> (lua_key \<times> 'v) option" where
  "next_array t i =
     (if i < sizearray t then
        (case lt_array t ! i of Some v \<Rightarrow> Some (KNumber (cast_num (int i + 1)), v) | None \<Rightarrow> next_array t (i + 1))
      else None)"
  by pat_completeness auto
termination by (relation "measure (\<lambda>(t, i). sizearray t - i)") auto

function next_node :: "'v lua_table \<Rightarrow> nat \<Rightarrow> (lua_key \<times> 'v) option" where
  "next_node t k =
     (if k < sizenode t then
        (case nd_val (lt_node t ! k) of Some v \<Rightarrow> Some (nd_key (lt_node t ! k), v) | None \<Rightarrow> next_node t (k + 1))
      else None)"
  by pat_completeness auto
termination by (relation "measure (\<lambda>(t, k). sizenode t - k)") auto

declare next_array.simps [simp del] next_node.simps [simp del]

definition lua_h_next :: "'v lua_table \<Rightarrow> lua_key \<Rightarrow> (lua_key \<times> 'v) option table_result" where
  "lua_h_next t key =
     and_then (findindex t key) (\<lambda>i.
       let i = nat (i + 1) in
       Inr (case next_array t i of Some e \<Rightarrow> Some e | None \<Rightarrow> next_node t (max i (sizearray t) - sizearray t)))"

text \<open>The loop \<open>for k, v in next, t do t[k] = g(k, v) end\<close>, with a bound on its turns.\<close>

fun traverse :: "nat \<Rightarrow> (lua_key \<Rightarrow> 'v \<Rightarrow> 'v option) \<Rightarrow> 'v lua_table \<Rightarrow> lua_key \<Rightarrow> ((lua_key \<times> 'v) list \<times> 'v lua_table) table_result" where
  "traverse 0 g t key = Inl Fault"
| "traverse (Suc n) g t key =
     and_then (lua_h_next t key) (\<lambda>r.
       case r of
         None \<Rightarrow> Inr ([], t)
       | Some (k, v) \<Rightarrow>
           and_then (rawset t k (g k v)) (\<lambda>t.
           and_then (traverse n g t k) (\<lambda>(es, t). Inr ((k, v) # es, t))))"

section \<open>Positions\<close>

abbreviation positions :: "'v lua_table \<Rightarrow> nat" where "positions t \<equiv> sizearray t + sizenode t"

definition key_at :: "'v lua_table \<Rightarrow> nat \<Rightarrow> lua_key" where
  "key_at t p = (if p < sizearray t then array_key (int p + 1) else nd_key (lt_node t ! (p - sizearray t)))"

definition val_at :: "'v lua_table \<Rightarrow> nat \<Rightarrow> 'v option" where
  "val_at t p = (if p < sizearray t then lt_array t ! p else nd_val (lt_node t ! (p - sizearray t)))"

definition entry_at :: "'v lua_table \<Rightarrow> nat \<Rightarrow> (lua_key \<times> 'v) option" where
  "entry_at t p = map_option (Pair (key_at t p)) (val_at t p)"

lemma val_key: "table_ok t \<Longrightarrow> p < positions t \<Longrightarrow> val_at t p \<noteq> None \<Longrightarrow> good_key (key_at t p)"
proof (cases "p < sizearray t")
  case True
  assume t: "table_ok t"
  show ?thesis using True good_array_key array_index_range [OF t True] by (simp add: key_at_def)
next
  case False
  assume t: "table_ok t" and p: "p < positions t" "val_at t p \<noteq> None"
  then have i: "p - sizearray t < sizenode t" "nd_val (lt_node t ! (p - sizearray t)) \<noteq> None" using False by (auto simp: val_at_def)
  then have "nd_key (lt_node t ! (p - sizearray t)) \<noteq> KNil" using nodes_okD(5) [OF table_okD(2) [OF t] i(1)] by auto
  then show ?thesis using nodes_okD(6) [OF table_okD(2) [OF t] i(1)] False by (simp add: key_at_def)
qed

lemma content_positions:
  assumes t: "table_ok t"
  shows "content t = {(canon (key_at t p), v) | p v. p < positions t \<and> val_at t p = Some v}"
proof (intro equalityI subsetI)
  fix e assume e: "e \<in> content t"
  obtain K v where Kv: "e = (K, v)" by (cases e)
  show "e \<in> {(canon (key_at t p), v) | p v. p < positions t \<and> val_at t p = Some v}"
    using e [unfolded Kv]
  proof (cases rule: content_cases)
    case (1 i)
    have "canon (array_key (int i + 1)) = array_key (int i + 1)" using canon_array_key array_index_range [OF t 1(1)] by simp
    then show ?thesis using 1 unfolding Kv by (intro CollectI exI [of _ i] exI [of _ v]) (simp add: key_at_def val_at_def)
  next
    case (2 i)
    then show ?thesis unfolding Kv by (intro CollectI exI [of _ "sizearray t + i"] exI [of _ v]) (simp add: key_at_def val_at_def)
  qed
next
  fix e assume "e \<in> {(canon (key_at t p), v) | p v. p < positions t \<and> val_at t p = Some v}"
  then obtain p v where p: "e = (canon (key_at t p), v)" "p < positions t" "val_at t p = Some v" by blast
  show "e \<in> content t"
  proof (cases "p < sizearray t")
    case True
    then have "canon (key_at t p) = array_key (int p + 1)" using canon_array_key array_index_range [OF t True] by (simp add: key_at_def)
    then show ?thesis using content_array [OF True] p True by (simp add: val_at_def)
  next
    case False
    then show ?thesis using content_node [of "p - sizearray t" t v] p by (simp add: key_at_def val_at_def)
  qed
qed

lemma node_outside: "table_ok t \<Longrightarrow> sizearray t \<le> p \<Longrightarrow> p < positions t \<Longrightarrow> key_at t p \<noteq> KNil \<Longrightarrow>
    \<not> (0 < aindex (key_at t p) \<and> aindex (key_at t p) \<le> int (sizearray t))"
  using table_okD(5) [of t "p - sizearray t"] by (auto simp: key_at_def less_diff_conv2)

lemma array_inside: "table_ok t \<Longrightarrow> p < sizearray t \<Longrightarrow> aindex (key_at t p) = int p + 1"
  using aindex_array_key array_index_range [of t p] by (simp add: key_at_def)

text \<open>A key determines its position.\<close>

lemma position_unique:
  assumes t: "table_ok t" and p: "p < positions t" "key_at t p \<noteq> KNil" and q: "q < positions t" "key_at t q \<noteq> KNil"
    and e: "canon (key_at t p) = canon (key_at t q)"
  shows "p = q"
proof -
  have a: "aindex (key_at t p) = aindex (key_at t q)" using aindex_canon [OF e] .
  show ?thesis
  proof (cases "p < sizearray t"; cases "q < sizearray t")
    assume "p < sizearray t" "q < sizearray t"
    then show ?thesis using a array_inside [OF t] by simp
  next
    assume "p < sizearray t" "\<not> q < sizearray t"
    then show ?thesis using a array_inside [OF t, of p] node_outside [OF t _ q] by simp
  next
    assume "\<not> p < sizearray t" "q < sizearray t"
    then show ?thesis using a array_inside [OF t, of q] node_outside [OF t _ p] by simp
  next
    assume n: "\<not> p < sizearray t" "\<not> q < sizearray t"
    then have "p - sizearray t = q - sizearray t"
      using nodes_okD(7) [OF table_okD(2) [OF t], of "p - sizearray t" "q - sizearray t"] p q e by (simp add: key_at_def)
    then show ?thesis using n by simp
  qed
qed

lemma findindex_position:
  assumes t: "table_ok t" and p: "p < positions t" "good_key (key_at t p)"
  shows "findindex t (key_at t p) = Inr (int p)"
proof -
  let ?k = "key_at t p"
  have nil: "?k \<noteq> KNil" using good_not_nil [OF p(2)] .
  show ?thesis
  proof (cases "p < sizearray t")
    case True
    then show ?thesis using nil array_inside [OF t True] by (simp add: findindex_def)
  next
    case False
    let ?i = "p - sizearray t"
    have i: "?i < sizenode t" "?k = nd_key (lt_node t ! ?i)" using p(1) False by (auto simp: key_at_def)
    obtain r where r: "find_node (sizenode t) (lt_node t) (\<lambda>k. rawequal_key k ?k) (mainposition (sizenode t) ?k) = Inr r" "node_of (lt_node t) ?k r"
      using find_node_correct [OF table_okD(2) [OF t] p(2), of "\<lambda>k. rawequal_key k ?k"] rawequal_canon [OF _ p(2)] rawequal_nil [OF p(2)] by blast
    have "r = Some ?i"
    proof (cases r)
      case None
      then show ?thesis using r(2) i nil by (auto simp: node_of_def)
    next
      case (Some j)
      then have "j = ?i" using r(2) i nodes_okD(7) [OF table_okD(2) [OF t], of j ?i] by (simp add: node_of_def)
      then show ?thesis using Some by simp
    qed
    then show ?thesis using nil node_outside [OF t _ p(1) nil] False r(1) by (simp add: findindex_def Let_def)
  qed
qed

text \<open>What \<open>lua_h_next\<close> finds from a position on.\<close>

definition next_entry :: "'v lua_table \<Rightarrow> nat \<Rightarrow> (lua_key \<times> 'v) option \<Rightarrow> bool" where
  "next_entry t p r \<longleftrightarrow> (case r of
       None \<Rightarrow> \<forall>q. p \<le> q \<and> q < positions t \<longrightarrow> val_at t q = None
     | Some (k, v) \<Rightarrow> \<exists>q. p \<le> q \<and> q < positions t \<and> k = key_at t q \<and> val_at t q = Some v \<and> (\<forall>r. p \<le> r \<and> r < q \<longrightarrow> val_at t r = None))"

lemma next_entry_skip: "val_at t p = None \<Longrightarrow> next_entry t (Suc p) r \<Longrightarrow> next_entry t p r"
  unfolding next_entry_def by (auto split: option.splits) (metis le_antisym not_less_eq_eq Suc_leD)+

lemma next_node_entry: "next_entry t (sizearray t + k) (next_node t k)"
proof (induction t k rule: next_node.induct)
  case (1 t k)
  show ?case
  proof (cases "k < sizenode t")
    case False
    then show ?thesis by (subst next_node.simps) (auto simp: next_entry_def)
  next
    case True
    show ?thesis
    proof (cases "nd_val (lt_node t ! k)")
      case None
      then have "next_entry t (Suc (sizearray t + k)) (next_node t (k + 1))" using 1 [OF True None] by simp
      moreover have "val_at t (sizearray t + k) = None" using None by (simp add: val_at_def)
      ultimately show ?thesis using True None by (subst next_node.simps) (simp add: next_entry_skip)
    next
      case (Some v)
      then show ?thesis using True by (subst next_node.simps) (auto simp: next_entry_def val_at_def key_at_def intro!: exI [of _ "sizearray t + k"])
    qed
  qed
qed

lemma next_array_entry:
  "next_entry t i (case next_array t i of Some e \<Rightarrow> Some e | None \<Rightarrow> next_node t (max i (sizearray t) - sizearray t))"
proof (induction t i rule: next_array.induct)
  case (1 t i)
  show ?case
  proof (cases "i < sizearray t")
    case False
    then show ?thesis using next_node_entry [of t "i - sizearray t"] by (subst next_array.simps) (simp add: max_absorb1)
  next
    case True
    show ?thesis
    proof (cases "lt_array t ! i")
      case None
      have m: "max i (sizearray t) = max (i + 1) (sizearray t)" using True by simp
      have "next_entry t (Suc i) (case next_array t (i + 1) of Some e \<Rightarrow> Some e | None \<Rightarrow> next_node t (max (i + 1) (sizearray t) - sizearray t))"
        using 1 [OF True None] by simp
      moreover have "val_at t i = None" using None True by (simp add: val_at_def)
      ultimately have "next_entry t i (case next_array t (i + 1) of Some e \<Rightarrow> Some e | None \<Rightarrow> next_node t (max i (sizearray t) - sizearray t))"
        unfolding m by (rule next_entry_skip [rotated])
      moreover have "next_array t i = next_array t (i + 1)" using True None by (subst next_array.simps) simp
      ultimately show ?thesis by simp
    next
      case (Some v)
      then have "next_array t i = Some (key_at t i, v)" using True by (subst next_array.simps) (simp add: key_at_def array_key_def)
      then show ?thesis using True Some by (auto simp: next_entry_def val_at_def intro!: exI [of _ i])
    qed
  qed
qed

lemma next_correct:
  assumes "findindex t k = Inr (int p - 1)"
  shows "\<exists>r. lua_h_next t k = Inr r \<and> next_entry t p r"
proof -
  have p: "nat (int p - 1 + 1) = p" by simp
  show ?thesis using next_array_entry [of t p] unfolding lua_h_next_def Let_def assms and_then_simps p by blast
qed

section \<open>Traversal\<close>

text \<open>An assignment to the element at a position.\<close>

definition same_shape :: "'v lua_table \<Rightarrow> 'v lua_table \<Rightarrow> bool" where
  "same_shape t t' \<longleftrightarrow> sizearray t' = sizearray t \<and> sizenode t' = sizenode t \<and> (\<forall>p < positions t. key_at t' p = key_at t p)"

lemma store_position:
  assumes t: "table_ok t" and k: "good_key k" "finds t k (Some s)"
  shows "\<exists>t' p. store t s v = Inr t' \<and> table_ok t' \<and> same_shape t t' \<and> p < positions t \<and> canon (key_at t p) = canon k \<and> key_at t p \<noteq> KNil \<and>
    (\<forall>q < positions t. val_at t' q = (if q = p then v else val_at t q))"
proof -
  obtain t' where t': "store t s v = Inr t'" "table_ok t'" using store_finds [OF t k] by blast
  show ?thesis
  proof (cases s)
    case (ArraySlot i)
    then have i: "i < sizearray t" "aindex k = int i + 1" using k(2) by (simp_all add: finds_def)
    then have e: "t' = t\<lparr>lt_array := (lt_array t)[i := v]\<rparr>" using t'(1) ArraySlot by simp
    have "k = array_key (int i + 1)" using aindex_pos [OF i(2)] by simp
    then show ?thesis using t' i(1) unfolding e
      by (intro exI [of _ t'] exI [of _ i]) (auto simp: e same_shape_def key_at_def val_at_def array_key_def nth_list_update)
  next
    case (NodeSlot i)
    then have i: "i < sizenode t" "nd_key (lt_node t ! i) \<noteq> KNil" "canon (nd_key (lt_node t ! i)) = canon k"
      using k(2) by (simp_all add: finds_def)
    then have e: "t' = t\<lparr>lt_node := (lt_node t)[i := (lt_node t ! i)\<lparr>nd_val := v\<rparr>]\<rparr>" using t'(1) NodeSlot by (auto split: if_splits)
    show ?thesis using t' i
      by (intro exI [of _ t'] exI [of _ "sizearray t + i"]) (auto simp: e same_shape_def key_at_def val_at_def nth_list_update)
  qed
qed

lemma rawset_position:
  assumes t: "table_ok t" and p: "p < positions t" "val_at t p \<noteq> None"
  shows "\<exists>t'. rawset t (key_at t p) v = Inr t' \<and> table_ok t' \<and> same_shape t t' \<and>
    (\<forall>q < positions t. val_at t' q = (if q = p then v else val_at t q))"
proof -
  let ?k = "key_at t p"
  have g: "good_key ?k" by (rule val_key [OF t p])
  obtain x where x: "val_at t p = Some x" using p(2) by blast
  obtain r where r: "lua_h_get t ?k = Inr r" "finds t ?k r" using get_finds [OF t g] by blast
  have "(canon ?k, x) \<in> content t" using content_positions [OF t] p(1) x by blast
  then obtain s where s: "r = Some s" using not_live [OF t] r(2) by (cases r) (force, blast)
  obtain t' q where q: "store t s v = Inr t'" "table_ok t'" "same_shape t t'" "q < positions t" "canon (key_at t q) = canon ?k" "key_at t q \<noteq> KNil"
      "\<forall>r < positions t. val_at t' r = (if r = q then v else val_at t r)"
    using store_position [OF t g] r(2) s by blast
  have "q = p" by (rule position_unique [OF t q(4,6) p(1) good_not_nil [OF g] q(5)])
  then show ?thesis using q r(1) s by (simp add: rawset_def lua_h_set_def)
qed

text \<open>The elements from a position on, and what the loop makes of them.\<close>

definition entries_from :: "'v lua_table \<Rightarrow> nat \<Rightarrow> nat list \<Rightarrow> bool" where
  "entries_from t p ps \<longleftrightarrow> sorted_wrt (<) ps \<and> set ps = {q. p \<le> q \<and> q < positions t \<and> val_at t q \<noteq> None}"

definition visited :: "(lua_key \<Rightarrow> 'v \<Rightarrow> 'v option) \<Rightarrow> 'v lua_table \<Rightarrow> nat \<Rightarrow> 'v lua_table \<Rightarrow> bool" where
  "visited g t p t' \<longleftrightarrow> table_ok t' \<and> same_shape t t' \<and> (\<forall>q < positions t. val_at t' q =
     (if p \<le> q then Option.bind (val_at t q) (g (key_at t q)) else val_at t q))"

lemma traverse_correct:
  "table_ok t \<Longrightarrow> findindex t k = Inr (int p - 1) \<Longrightarrow> positions t < n + p \<Longrightarrow> 0 < n \<Longrightarrow>
    \<exists>ps t'. traverse n g t k = Inr (map (\<lambda>q. (key_at t q, the (val_at t q))) ps, t') \<and> entries_from t p ps \<and> visited g t p t'"
proof (induction n arbitrary: t k p)
  case (Suc n)
  obtain r where r: "lua_h_next t k = Inr r" "next_entry t p r" using next_correct [OF Suc.prems(2)] by blast
  show ?case
  proof (cases r)
    case None
    then have "entries_from t p []" "visited g t p t"
      using r(2) Suc.prems(1) by (auto simp: next_entry_def entries_from_def visited_def same_shape_def)
    then show ?thesis using r(1) None by (intro exI [of _ "[]"] exI [of _ t]) simp
  next
    case (Some e)
    obtain k' v where e: "e = (k', v)" by (cases e)
    obtain q where q: "p \<le> q" "q < positions t" "k' = key_at t q" "val_at t q = Some v" "\<And>r. p \<le> r \<Longrightarrow> r < q \<Longrightarrow> val_at t r = None"
      using r(2) unfolding Some e next_entry_def by auto
    obtain t1 where t1: "rawset t k' (g k' v) = Inr t1" "table_ok t1" "same_shape t t1"
        "\<And>r. r < positions t \<Longrightarrow> val_at t1 r = (if r = q then g k' v else val_at t r)"
      using rawset_position [OF Suc.prems(1) q(2), of "g k' v"] q(3,4) by auto
    have sh: "positions t1 = positions t" "\<And>r. r < positions t \<Longrightarrow> key_at t1 r = key_at t r" using t1(3) by (simp_all add: same_shape_def)
    have "good_key (key_at t q)" using val_key [OF Suc.prems(1) q(2)] q(4) by simp
    then have "findindex t1 (key_at t1 q) = Inr (int q)" using findindex_position [OF t1(2)] sh q(2) by simp
    then have f: "findindex t1 k' = Inr (int (Suc q) - 1)" using sh(2) [OF q(2)] q(3) by simp
    have "0 < n" using Suc.prems(3) q(1,2) by (cases n) simp_all
    then obtain ps t' where ps: "traverse n g t1 k' = Inr (map (\<lambda>q. (key_at t1 q, the (val_at t1 q))) ps, t')"
        "entries_from t1 (Suc q) ps" "visited g t1 (Suc q) t'"
      using Suc.IH [OF t1(2) f] Suc.prems(3) q(1) sh(1) by auto
    have mem: "r \<in> set ps \<longleftrightarrow> q < r \<and> r < positions t \<and> val_at t r \<noteq> None" for r
      using ps(2) sh(1) t1(4) by (auto simp: entries_from_def Suc_le_eq)
    have "map (\<lambda>q. (key_at t1 q, the (val_at t1 q))) ps = map (\<lambda>q. (key_at t q, the (val_at t q))) ps"
      by (rule map_cong [OF refl]) (use mem sh(2) t1(4) in auto)
    moreover have "entries_from t p (q # ps)"
      unfolding entries_from_def
    proof
      show "sorted_wrt (<) (q # ps)" using ps(2) mem by (simp add: entries_from_def)
      have "set (q # ps) = insert q {r. q < r \<and> r < positions t \<and> val_at t r \<noteq> None}" using mem by auto
      also have "\<dots> = {r. p \<le> r \<and> r < positions t \<and> val_at t r \<noteq> None}"
        using q(1,2,4,5) by (auto simp: not_less_iff_gr_or_eq) (metis option.distinct(1) nat_neq_iff)
      finally show "set (q # ps) = {r. p \<le> r \<and> r < positions t \<and> val_at t r \<noteq> None}" .
    qed
    moreover have "visited g t p t'"
    proof -
      have "val_at t' r = (if p \<le> r then Option.bind (val_at t r) (g (key_at t r)) else val_at t r)" if r: "r < positions t" for r
      proof -
        have "val_at t' r = (if Suc q \<le> r then Option.bind (val_at t1 r) (g (key_at t1 r)) else val_at t1 r)"
          using ps(3) r sh(1) by (simp add: visited_def)
        then show ?thesis
          using t1(4) [OF r] sh(2) [OF r] q(1,3,4) q(5) [of r] by (cases "r < q"; cases "r = q"; cases "p \<le> r") auto
      qed
      moreover have "same_shape t t'" using ps(3) t1(3) by (simp add: visited_def same_shape_def)
      ultimately show ?thesis using ps(3) by (simp add: visited_def)
    qed
    ultimately show ?thesis using r(1) Some e t1(1) ps(1) q(3,4)
      by (intro exI [of _ "q # ps"] exI [of _ t']) simp
  qed
qed simp

lemma traverse_enumerates:
  assumes t: "table_ok t"
  shows "\<exists>es t'. traverse (Suc (positions t)) g t KNil = Inr (es, t') \<and> distinct (map (\<lambda>(k, v). canon k) es) \<and>
    content t = (\<lambda>(k, v). (canon k, v)) ` set es \<and> table_ok t' \<and>
    content t' = {(canon k, w) | k v w. (k, v) \<in> set es \<and> g k v = Some w}"
proof -
  have "findindex t KNil = Inr (int 0 - 1)" by (simp add: findindex_def)
  then obtain ps t' where ps: "traverse (Suc (positions t)) g t KNil = Inr (map (\<lambda>q. (key_at t q, the (val_at t q))) ps, t')"
      "entries_from t 0 ps" "visited g t 0 t'"
    using traverse_correct [OF t, of KNil 0 "Suc (positions t)" g] by auto
  let ?es = "map (\<lambda>q. (key_at t q, the (val_at t q))) ps"
  have mem: "q \<in> set ps \<longleftrightarrow> q < positions t \<and> val_at t q \<noteq> None" for q using ps(2) by (simp add: entries_from_def)
  have nn: "key_at t q \<noteq> KNil" if "q \<in> set ps" for q using val_key [OF t] good_not_nil mem that by blast
  have "inj_on (\<lambda>q. canon (key_at t q)) (set ps)" using position_unique [OF t] nn mem by (intro inj_onI) blast
  moreover have "distinct ps" using ps(2) strict_sorted_iff [of ps] by (simp add: entries_from_def)
  ultimately have "distinct (map (\<lambda>q. canon (key_at t q)) ps)" by (simp add: distinct_map)
  then have d: "distinct (map (\<lambda>(k, v). canon k) ?es)" by (simp add: comp_def)
  have es: "(k, v) \<in> set ?es \<longleftrightarrow> (\<exists>q < positions t. k = key_at t q \<and> val_at t q = Some v)" for k v
    using mem by force
  have c: "content t = (\<lambda>(k, v). (canon k, v)) ` set ?es"
  proof (intro equalityI subsetI)
    fix e assume "e \<in> content t"
    then obtain q v where "e = (canon (key_at t q), v)" "q < positions t" "val_at t q = Some v" unfolding content_positions [OF t] by blast
    then show "e \<in> (\<lambda>(k, v). (canon k, v)) ` set ?es" using es [of "key_at t q" v] by (intro image_eqI [of _ _ "(key_at t q, v)"]) auto
  next
    fix e assume "e \<in> (\<lambda>(k, v). (canon k, v)) ` set ?es"
    then obtain k v where kv: "e = (canon k, v)" "(k, v) \<in> set ?es" by auto
    then obtain q where "q < positions t" "k = key_at t q" "val_at t q = Some v" unfolding es by blast
    then show "e \<in> content t" unfolding content_positions [OF t] kv(1) by blast
  qed
  have v: "table_ok t'" "positions t' = positions t" "\<And>q. q < positions t \<Longrightarrow> key_at t' q = key_at t q"
      "\<And>q. q < positions t \<Longrightarrow> val_at t' q = Option.bind (val_at t q) (g (key_at t q))"
    using ps(3) by (simp_all add: visited_def same_shape_def)
  have "content t' = {(canon k, w) | k v w. (k, v) \<in> set ?es \<and> g k v = Some w}"
  proof (intro equalityI subsetI)
    fix e assume "e \<in> content t'"
    then obtain q w where q: "e = (canon (key_at t' q), w)" "q < positions t" "val_at t' q = Some w"
      unfolding content_positions [OF v(1)] v(2) by blast
    then obtain x where x: "val_at t q = Some x" "g (key_at t q) x = Some w" using v(4) [OF q(2)] by (auto simp: bind_eq_Some_conv)
    have "(key_at t q, x) \<in> set ?es" unfolding es using q(2) x(1) by (intro exI [of _ q]) simp
    then show "e \<in> {(canon k, w) | k v w. (k, v) \<in> set ?es \<and> g k v = Some w}"
      using q(1) v(3) [OF q(2)] x(2) by (intro CollectI exI [of _ "key_at t q"] exI [of _ x] exI [of _ w]) simp
  next
    fix e assume "e \<in> {(canon k, w) | k v w. (k, v) \<in> set ?es \<and> g k v = Some w}"
    then obtain k x w where kx: "e = (canon k, w)" "(k, x) \<in> set ?es" "g k x = Some w" by blast
    then obtain q where q: "q < positions t" "k = key_at t q" "val_at t q = Some x" unfolding es by blast
    then have "val_at t' q = Some w" "key_at t' q = k" using v(3,4) kx(3) by simp_all
    then show "e \<in> content t'" unfolding content_positions [OF v(1)] v(2) kx(1) using q(1) by blast
  qed
  then show ?thesis using ps(1) d c v(1) by blast
qed

end
