(* ===== verification/Lua_Refine.thy ===== *)
theory Lua_Refine
  imports Lua_Next
begin

text \<open>
  Lua tables against their specification: a sequence of operations on a table does what the operations on a function from keys
  to values do, errors included, unless the table grows over its limit. Tables that operations reach satisfy the invariant, have
  a border as their length, and are traversed completely.
\<close>

section \<open>More operations\<close>

text \<open>The instruction \<open>SETLIST\<close>: the array is made long enough and the values are stored directly into it.\<close>

fun store_list :: "'v lua_table \<Rightarrow> nat \<Rightarrow> 'v option list \<Rightarrow> 'v lua_table table_result" where
  "store_list t i [] = Inr t"
| "store_list t i (v # vs) = and_then (store t (ArraySlot i) v) (\<lambda>t. store_list t (i + 1) vs)"

definition setlist :: "'v lua_table \<Rightarrow> int \<Rightarrow> 'v option list \<Rightarrow> 'v lua_table table_result" where
  "setlist t index vs =
     (let last = index + int (length vs) - 1 in
      and_then (if last > int (sizearray t) then lua_h_resizearray t last else Inr t) (\<lambda>t.
        store_list t (nat (index - 1)) vs))"

datatype 'v table_op =
    OpSet lua_key "'v option"
  | OpSetIndex int "'v option"
  | OpSetField bytes "'v option"
  | OpSetPointer u64 int "'v option"
  | OpSetList int "'v option list"
  | OpClear
  | OpClone
  | OpLength

fun table_step :: "'v table_op \<Rightarrow> 'v lua_table \<Rightarrow> 'v lua_table table_result" where
  "table_step (OpSet k v) t = rawset t k v"
| "table_step (OpSetIndex n v) t = rawseti t n v"
| "table_step (OpSetField s v) t = rawsetfield t s v"
| "table_step (OpSetPointer p tag v) t = rawsetptagged t p tag v"
| "table_step (OpSetList n vs) t = setlist t n vs"
| "table_step OpClear t = Inr (lua_h_clear t)"
| "table_step OpClone t = Inr (lua_h_clone t)"
| "table_step OpLength t = and_then (lua_h_getn t) (\<lambda>(t, n). Inr t)"

text \<open>Indices are of type \<open>i32\<close>, and 64-bit integers are compared exactly only up to \<open>2^53\<close>.\<close>

fun legal :: "'v table_op \<Rightarrow> bool" where
  "legal (OpSet k v) \<longleftrightarrow> small_key k"
| "legal (OpSetIndex n v) \<longleftrightarrow> - (2 ^ 31) \<le> n \<and> n < 2 ^ 31"
| "legal (OpSetList n vs) \<longleftrightarrow> 1 \<le> n \<and> n + int (length vs) \<le> 2 ^ 31"
| "legal _ \<longleftrightarrow> True"

section \<open>Specification\<close>

type_synonym 'v key_map = "lua_key \<Rightarrow> 'v option"

definition spec_put :: "'v key_map \<Rightarrow> lua_key \<Rightarrow> 'v option \<Rightarrow> 'v key_map" where
  "spec_put m k v = (\<lambda>k'. if rawequal_key k' k then v else m k')"

fun spec_list :: "'v key_map \<Rightarrow> int \<Rightarrow> 'v option list \<Rightarrow> 'v key_map" where
  "spec_list m n [] = m"
| "spec_list m n (v # vs) = spec_list (spec_put m (array_key n) v) (n + 1) vs"

fun table_spec :: "'v table_op \<Rightarrow> 'v key_map \<Rightarrow> 'v key_map table_result" where
  "table_spec (OpSet k v) m = (case key_error k of Some e \<Rightarrow> Inl e | None \<Rightarrow> Inr (spec_put m k v))"
| "table_spec (OpSetIndex n v) m = Inr (spec_put m (array_key n) v)"
| "table_spec (OpSetField s v) m = Inr (spec_put m (KString s) v)"
| "table_spec (OpSetPointer p tag v) m = Inr (spec_put m (KLightUserdata p tag) v)"
| "table_spec (OpSetList n vs) m = Inr (spec_list m n vs)"
| "table_spec OpClear m = Inr (\<lambda>_. None)"
| "table_spec OpClone m = Inr m"
| "table_spec OpLength m = Inr m"

definition agrees :: "'v lua_table \<Rightarrow> 'v key_map \<Rightarrow> bool" where
  "agrees t m \<longleftrightarrow> (\<forall>k. small_key k \<longrightarrow> rawget t k = Inr (m k))"

lemma agreesI:
  assumes t: "table_ok t" and g: "\<And>k. good_key k \<Longrightarrow> has_value t k (m k)" and b: "\<And>k. key_error k \<noteq> None \<Longrightarrow> m k = None"
  shows "agrees t m"
  unfolding agrees_def
proof (intro allI impI)
  fix k assume k: "small_key k"
  show "rawget t k = Inr (m k)"
  proof (cases "key_error k")
    case None
    then have gk: "good_key k" using k good_key_iff by blast
    then show ?thesis using rawget_value [OF t gk] has_value_unique g by blast
  next
    case (Some e)
    then show ?thesis using rawget_bad_key [OF t, of k] b by simp
  qed
qed

lemma agreesD:
  assumes t: "table_ok t" and a: "agrees t m"
  shows "good_key k \<Longrightarrow> has_value t k (m k)" "key_error k \<noteq> None \<Longrightarrow> m k = None"
proof -
  assume k: "good_key k"
  then have "rawget t k = Inr (m k)" using a good_key_iff unfolding agrees_def by blast
  then show "has_value t k (m k)" using rawget_value [OF t k] by auto
next
  assume k: "key_error k \<noteq> None"
  then have "small_key k" by (cases k) (simp_all add: small_key_def)
  then have "rawget t k = Inr (m k)" using a unfolding agrees_def by blast
  then show "m k = None" using rawget_bad_key [OF t k] by simp
qed

lemma rawequal_bad: "key_error a \<noteq> None \<Longrightarrow> good_key b \<Longrightarrow> \<not> rawequal_key a b"
proof (cases a)
  case (KNumber n)
  assume "key_error a \<noteq> None"
  then show ?thesis using KNumber by (cases b) (auto simp: luai_numeq_def split: if_splits)
next
  case (KVector x y z)
  assume "key_error a \<noteq> None"
  then show ?thesis using KVector by (cases b) (auto simp: luai_veceq_def f32_eq_def split: if_splits)
qed (cases b; simp)+

lemma agrees_put:
  assumes t: "table_ok t" "agrees t m" and k: "good_key k" and t': "table_ok t'" "content t' = upd (content t) (canon k) v"
  shows "agrees t' (spec_put m k v)"
proof (rule agreesI [OF t'(1)])
  fix k' assume k': "good_key k'"
  show "has_value t' k' (spec_put m k v k')"
    using agreesD(1) [OF t k'] rawequal_canon [OF k' k] unfolding has_value_def t'(2) upd_iff spec_put_def by auto
next
  fix k' assume k': "key_error k' \<noteq> None"
  then show "spec_put m k v k' = None" using agreesD(2) [OF t k'] rawequal_bad [OF k' k] by (simp add: spec_put_def)
qed

lemma agrees_cong: "table_ok t \<Longrightarrow> agrees t m \<Longrightarrow> table_ok t' \<Longrightarrow> content t' = content t \<Longrightarrow> agrees t' m"
proof -
  assume t: "table_ok t" "agrees t m" and t': "table_ok t'" "content t' = content t"
  show "agrees t' m"
    by (rule agreesI [OF t'(1)]) (use agreesD [OF t] in \<open>simp_all add: has_value_def t'(2)\<close>)
qed

lemma agrees_empty: "table_ok t \<Longrightarrow> content t = {} \<Longrightarrow> agrees t (\<lambda>_. None)"
  by (rule agreesI) (auto simp: has_value_def)

section \<open>Tables of all sizes\<close>

lemma card_live: "table_ok t \<Longrightarrow> card (live_nodes (lt_node t) 0) \<le> (if lt_dummy t then 0 else sizenode t)"
proof -
  assume t: "table_ok t"
  have "live_nodes (lt_node t) 0 \<subseteq> {..<sizenode t}" by (auto simp: live_nodes_def)
  then have "card (live_nodes (lt_node t) 0) \<le> card {..<sizenode t}" by (intro card_mono) auto
  moreover have "live_nodes (lt_node t) 0 = {}" if "lt_dummy t" using table_okD(3) [OF t that] by (auto simp: live_nodes_def free_node_def nth_Cons split: nat.splits)
  ultimately show ?thesis by (cases "lt_dummy t") simp_all
qed

lemma outside_live:
  assumes t: "table_ok t" and n: "int (sizearray t) \<le> n"
  shows "card {K \<in> fst ` content t. outside (nat n) K} \<le> (if lt_dummy t then 0 else sizenode t)"
proof -
  let ?f = "\<lambda>j. canon (nd_key (lt_node t ! j))"
  have "{K \<in> fst ` content t. outside (nat n) K} \<subseteq> ?f ` live_nodes (lt_node t) 0"
  proof
    fix K assume "K \<in> {K \<in> fst ` content t. outside (nat n) K}"
    then have K: "K \<in> fst ` content t" "outside (nat n) K" by blast+
    have "K \<notin> array_key ` array_indices (lt_array t)"
    proof
      assume "K \<in> array_key ` array_indices (lt_array t)"
      then obtain i where i: "K = array_key i" "1 \<le> i" "i \<le> int (sizearray t)" using array_indices_bounds by blast
      then have "aindex K = i" using aindex_array_key [of i] table_okD(1) [OF t] by simp
      then show False using K(2) i n by (simp add: outside_def)
    qed
    then show "K \<in> ?f ` live_nodes (lt_node t) 0" using K(1) unfolding content_keys [OF t] by blast
  qed
  then have "card {K \<in> fst ` content t. outside (nat n) K} \<le> card (?f ` live_nodes (lt_node t) 0)" by (intro card_mono) auto
  also have "\<dots> \<le> card (live_nodes (lt_node t) 0)" by (rule card_image_le) simp
  finally show ?thesis using card_live [OF t] by linarith
qed

lemma resizearray_correct:
  assumes t: "table_inv t" and n: "int (sizearray t) \<le> n"
  shows "lua_h_resizearray t n = Inl TableOverflow \<or>
    (\<exists>t'. lua_h_resizearray t n = Inr t' \<and> table_inv t' \<and> content t' = content t \<and> n \<le> int (sizearray t'))"
proof -
  have ok: "table_ok t" using t by (simp add: table_inv_def)
  let ?h = "if lt_dummy t then 0 else int (sizenode t)"
  have e: "adjustasize t n None = adjustasize t n (Some KNil)" by (simp add: adjustasize_def key_index_def)
  obtain s where s: "adjustasize t n None = Inr s" "n \<le> s" "s + 1 < 2 ^ 31 \<longrightarrow> \<not> live_index t (s + 1)"
    using adjustasize_correct [OF ok, of n KNil] n unfolding e by auto
  have r: "lua_h_resizearray t n = resize (newkey 1) t s ?h" using s(1) by (simp add: lua_h_resizearray_def Let_def)
  have border: "aindex K \<noteq> s + 1" if K: "K \<in> fst ` content t" for K
  proof
    assume a: "aindex K = s + 1"
    then have "live_index t (s + 1)" using content_index_key [OF ok K] s(2) n by simp
    then show False using s(3) by (auto simp: live_index_def)
  qed
  have "int (card {K \<in> fst ` content t. outside (nat s) K}) \<le> ?h"
    using outside_live [OF ok, of s] s(2) n by (auto split: if_splits)
  then have "resize (newkey (Suc 0)) t s ?h = Inl TableOverflow \<or>
      (\<exists>t'. resize (newkey (Suc 0)) t s ?h = Inr t' \<and> resized t s ?h t')"
    using s(2) n border by (intro resize_correct [OF ok]) simp_all
  moreover have "boundary_ok t'" if "resize (newkey (Suc 0)) t s ?h = Inr t'" for t'
    using resize_free [OF newkey_keeps that] by (simp add: boundary_ok_def)
  ultimately show ?thesis unfolding r resized_def table_inv_def using s(2) by auto
qed

fun upd_list :: "(lua_key \<times> 'v) set \<Rightarrow> int \<Rightarrow> 'v option list \<Rightarrow> (lua_key \<times> 'v) set" where
  "upd_list C n [] = C"
| "upd_list C n (v # vs) = upd_list (upd C (array_key n) v) (n + 1) vs"

lemma store_list_correct:
  "table_inv t \<Longrightarrow> agrees t m \<Longrightarrow> i + length vs \<le> sizearray t \<Longrightarrow>
    \<exists>t'. store_list t i vs = Inr t' \<and> table_inv t' \<and> agrees t' (spec_list m (int i + 1) vs)"
proof (induction vs arbitrary: t m i)
  case (Cons v vs)
  have t: "table_ok t" "boundary_ok t" using Cons.prems(1) by (simp_all add: table_inv_def)
  have i: "i < sizearray t" using Cons.prems(3) by simp
  note r = array_index_range [OF t(1) i]
  have k: "good_key (array_key (int i + 1))" "finds t (array_key (int i + 1)) (Some (ArraySlot i))"
    using r i good_array_key aindex_array_key by (simp_all add: finds_def)
  obtain t1 where t1: "store t (ArraySlot i) v = Inr t1" "table_ok t1" "content t1 = upd (content t) (canon (array_key (int i + 1))) v"
    using store_finds [OF t(1) k] by blast
  have "agrees t1 (spec_put m (array_key (int i + 1)) v)" by (rule agrees_put [OF t(1) Cons.prems(2) k(1) t1(2,3)])
  moreover have "table_inv t1" using t1(2) free_kept_boundary [OF store_free [OF t1(1)] t(2)] by (simp add: table_inv_def)
  moreover have "Suc i + length vs \<le> sizearray t1" using store_frame [OF t1(1)] Cons.prems(3) by simp
  ultimately obtain t' where "store_list t1 (Suc i) vs = Inr t'" "table_inv t'"
      "agrees t' (spec_list (spec_put m (array_key (int i + 1)) v) (int (Suc i) + 1) vs)"
    using Cons.IH by blast
  then show ?case using t1(1) by (simp add: add.commute)
qed simp

section \<open>Every operation refines its specification\<close>

definition refined :: "'v key_map table_result \<Rightarrow> 'v lua_table table_result \<Rightarrow> bool" where
  "refined sp r \<longleftrightarrow> r = Inl TableOverflow \<or>
     (case sp of Inl e \<Rightarrow> r = Inl e | Inr m \<Rightarrow> \<exists>t. r = Inr t \<and> table_inv t \<and> agrees t m)"

lemma put_refined:
  assumes t: "table_inv t" "agrees t m" and k: "good_key k" and u: "updated t k v r" and f: "\<And>t'. r = Inr t' \<Longrightarrow> free_kept t t'"
  shows "refined (Inr (spec_put m k v)) r"
proof (cases "r = Inl TableOverflow")
  case False
  then obtain t' where t': "r = Inr t'" "table_ok t'" "content t' = upd (content t) (canon k) v" using u unfolding updated_def by blast
  have ok: "table_ok t" "boundary_ok t" using t(1) by (simp_all add: table_inv_def)
  show ?thesis using t'(1,2) agrees_put [OF ok(1) t(2) k t'(2,3)] free_kept_boundary [OF f [OF t'(1)] ok(2)]
    by (simp add: refined_def table_inv_def)
qed (simp add: refined_def)

lemma stored_free:
  assumes n: "\<And>t1 s. n = Inr (t1, s) \<Longrightarrow> free_kept t t1"
    and r: "and_then (and_then g (\<lambda>p. case p of Some s \<Rightarrow> Inr (t, s) | None \<Rightarrow> n)) (\<lambda>(t, s). store t s v) = Inr t'"
  shows "free_kept t t'"
proof -
  obtain t1 s where s: "and_then g (\<lambda>p. case p of Some s \<Rightarrow> Inr (t, s) | None \<Rightarrow> n) = Inr (t1, s)" "store t1 s v = Inr t'" using r by auto
  then have "free_kept t t1" using n by (auto split: option.splits)
  then show ?thesis using store_free [OF s(2)] free_kept_trans by blast
qed

lemma newkey_free: "newkey d t k = Inr (t', s) \<Longrightarrow> free_kept t t'"
  using newkey_keeps unfolding keeps_def by blast

lemma rawset_free: "good_key k \<Longrightarrow> rawset t k v = Inr t' \<Longrightarrow> free_kept t t'"
  unfolding rawset_def lua_h_set_def newkey_good by (rule stored_free) (auto intro: newkey_free)

lemma rawsetfield_free: "rawsetfield t k v = Inr t' \<Longrightarrow> free_kept t t'"
  unfolding rawsetfield_def lua_h_setstr_def by (rule stored_free) (auto intro: newkey_free)

lemma rawsetptagged_free: "rawsetptagged t p tag v = Inr t' \<Longrightarrow> free_kept t t'"
  unfolding rawsetptagged_def lua_h_setp_def by (rule stored_free) (auto intro: newkey_free)

lemma rawseti_free: "rawseti t n v = Inr t' \<Longrightarrow> free_kept t t'"
proof (cases "in_array t n")
  case True
  assume "rawseti t n v = Inr t'"
  then have "store t (ArraySlot (nat (n - 1))) v = Inr t'" using True by (simp add: rawseti_def lua_h_setnum_def)
  then show ?thesis by (rule store_free)
next
  case False
  assume "rawseti t n v = Inr t'"
  then show ?thesis unfolding rawseti_def lua_h_setnum_def if_not_P [OF False]
    by (rule stored_free [rotated]) (rule newkey_free)
qed

lemma clear_correct: "table_inv t \<Longrightarrow> table_inv (lua_h_clear t) \<and> content (lua_h_clear t) = {}"
proof -
  assume t: "table_inv t"
  then have ok: "table_ok t" "boundary_ok t" by (simp_all add: table_inv_def)
  let ?t = "lua_h_clear t"
  have N: "0 < sizenode t" "sizenode t \<le> 2 ^ 26" using nodes_okD(1,2) [OF table_okD(2) [OF ok(1)]] by simp_all
  have k: "nd_key free_node = KNil" by (simp add: free_node_def)
  have a: "lt_array ?t = replicate (sizearray t) None" "lt_dummy ?t = lt_dummy t"
    by (simp_all add: lua_h_clear_def maybesetaboundary_def Let_def)
  have n: "lt_node ?t = replicate (sizenode t) free_node"
    using table_okD(3) [OF ok(1)] by (auto simp: lua_h_clear_def maybesetaboundary_def Let_def)
  have f: "lt_dummy t \<Longrightarrow> lt_lastfree ?t = 0" "\<not> lt_dummy t \<Longrightarrow> lt_lastfree ?t = int (sizenode t)"
    using table_okD(3) [OF ok(1)] by (simp_all add: lua_h_clear_def maybesetaboundary_def Let_def)
  have "table_ok ?t"
    using nodes_ok_replicate [OF N] table_okD(1,3) [OF ok(1)] f unfolding table_ok_def a n by (auto simp: k lastfree_ok_def)
  moreover have "content ?t = {}" unfolding content_def a n by simp
  ultimately show ?thesis using clear_free [OF ok(2)] by (simp add: table_inv_def)
qed

lemma clone_correct: "table_inv t \<Longrightarrow> table_inv (lua_h_clone t) \<and> content (lua_h_clone t) = content t"
proof -
  assume t: "table_inv t"
  then have ok: "table_ok t" "boundary_ok t" by (simp_all add: table_inv_def)
  let ?t = "lua_h_clone t"
  have e: "lt_array ?t = lt_array t" "lt_dummy ?t = lt_dummy t" "lt_node ?t = lt_node t"
    using table_okD(3) [OF ok(1)] by (auto simp: lua_h_clone_def maybesetaboundary_def Let_def)
  have "\<not> lt_dummy t \<Longrightarrow> lt_lastfree ?t = lt_lastfree t" "lt_dummy t \<Longrightarrow> lt_lastfree ?t \<le> 0"
    using getaboundary_bounds [OF ok(2)] by (auto simp: lua_h_clone_def maybesetaboundary_def Let_def)
  then have "table_ok ?t" using ok(1) unfolding table_ok_def e by (auto split: if_splits)
  then show ?thesis using clone_free [OF ok(2)] by (simp add: table_inv_def content_def e)
qed

lemma setnodevector_any:
  assumes "0 < n" "n < 2 ^ 31"
  shows "setnodevector t n = Inl TableOverflow \<or> (\<exists>k. k \<le> 26 \<and>
    setnodevector t n = Inr (t\<lparr>lt_node := replicate (2 ^ k) free_node, lt_dummy := False, lt_lastfree := 2 ^ k\<rparr>))"
proof -
  obtain b where b: "ceillog2 (word_of_int n) = int b" using ceillog2_correct [of n] assms by auto
  show ?thesis
  proof (cases "b \<le> 26")
    case True
    then show ?thesis using b assms(1) by (intro disjI2 exI [of _ b]) (simp add: setnodevector_def Let_def MAXBITS_def)
  qed (use b assms(1) in \<open>simp add: setnodevector_def Let_def MAXBITS_def\<close>)
qed

lemma new_correct: "lua_h_new narray nhash = Inr t \<Longrightarrow> nhash < 2 ^ 31 \<Longrightarrow> table_inv t \<and> content t = {}"
proof -
  assume n: "lua_h_new narray nhash = Inr t" and h: "nhash < 2 ^ 31"
  let ?t = "\<lparr>lt_array = [], lt_node = [free_node], lt_dummy = True, lt_lastfree = 0\<rparr> :: 'a lua_table"
  obtain t1 where t1: "(if narray > 0 then setarrayvector ?t narray else Inr ?t) = Inr t1" "(if nhash > 0 then setnodevector t1 nhash else Inr t1) = Inr t"
    using n unfolding lua_h_new_def Let_def and_then_eq_Inr by blast
  obtain m where m: "t1 = \<lparr>lt_array = replicate m None, lt_node = replicate (2 ^ 0) free_node, lt_dummy = True, lt_lastfree = 0\<rparr>" "m \<le> 2 ^ 26"
  proof (cases "narray > 0")
    case True
    then have "narray \<le> 2 ^ 26" "t1 = ?t\<lparr>lt_array := replicate (nat narray) None\<rparr>"
      using t1(1) by (auto simp: setarrayvector_def MAXSIZE_def split: if_splits)
    then show ?thesis using that [of "nat narray"] by (simp add: nat_le_iff)
  qed (use t1(1) that [of 0] in simp)
  obtain k d f where k: "t = \<lparr>lt_array = replicate m None, lt_node = replicate (2 ^ k) free_node, lt_dummy = d, lt_lastfree = f\<rparr>"
      "k \<le> 26" "d \<longrightarrow> k = 0 \<and> f \<le> 0" "\<not> d \<longrightarrow> f = 2 ^ k" "0 \<le> f"
  proof (cases "nhash > 0")
    case True
    then obtain k where "k \<le> 26" "setnodevector t1 nhash = Inr (t1\<lparr>lt_node := replicate (2 ^ k) free_node, lt_dummy := False, lt_lastfree := 2 ^ k\<rparr>)"
      using t1(2) setnodevector_any [of nhash t1] h by auto
    then show ?thesis using True t1(2) m(1) that [of k False "2 ^ k"] by simp
  qed (use t1(2) m(1) that [of 0 True 0] in simp)
  have "array_table (replicate m None) t" unfolding k(1) by (rule array_tableI) (use m(2) k in simp_all)
  then have "table_ok t" "lt_array t = replicate m None" "entries (lt_node t) = {}" unfolding array_table_def by simp_all
  then show ?thesis using k(1,5) by (simp add: table_inv_def boundary_ok_def content_def)
qed

lemma setlist_refined:
  assumes t: "table_inv t" "agrees t m" and n: "1 \<le> n"
  shows "refined (Inr (spec_list m n vs)) (setlist t n vs)"
proof -
  let ?last = "n + int (length vs) - 1"
  have stored: "\<exists>t'. store_list t1 (nat (n - 1)) vs = Inr t' \<and> table_inv t' \<and> agrees t' (spec_list m n vs)"
    if "table_inv t1" "agrees t1 m" "?last \<le> int (sizearray t1)" for t1
    using store_list_correct [OF that(1,2), of "nat (n - 1)" vs] that(3) n by (simp add: nat_add_distrib le_nat_iff)
  show ?thesis
  proof (cases "?last > int (sizearray t)")
    case False
    then show ?thesis using stored [OF t] by (auto simp: setlist_def Let_def refined_def)
  next
    case True
    then consider "lua_h_resizearray t ?last = Inl TableOverflow"
      | t1 where "lua_h_resizearray t ?last = Inr t1" "table_inv t1" "content t1 = content t" "?last \<le> int (sizearray t1)"
      using resizearray_correct [OF t(1), of ?last] by fastforce
    then show ?thesis
    proof cases
      case 1
      then show ?thesis using True by (simp add: setlist_def Let_def refined_def)
    next
      case 2
      have "agrees t1 m" using agrees_cong t 2(2,3) unfolding table_inv_def by blast
      then obtain t' where "store_list t1 (nat (n - 1)) vs = Inr t'" "table_inv t'" "agrees t' (spec_list m n vs)"
        using stored [OF 2(2) _ 2(4)] by blast
      then show ?thesis using True 2(1) by (simp add: setlist_def Let_def refined_def)
    qed
  qed
qed

lemma step_refined:
  assumes t: "table_inv t" "agrees t m" and l: "legal op"
  shows "refined (table_spec op m) (table_step op t)"
proof (cases op)
  case (OpSet k v)
  have ok: "table_ok t" using t(1) by (simp add: table_inv_def)
  show ?thesis
  proof (cases "key_error k")
    case None
    then have g: "good_key k" using l OpSet good_key_iff by simp
    then show ?thesis using OpSet None put_refined [OF t g rawset_updated [OF ok g] rawset_free [OF g]] by simp
  next
    case (Some e)
    then show ?thesis using OpSet rawset_bad_key [OF ok Some] by (simp add: refined_def)
  qed
next
  case (OpSetIndex n v)
  have ok: "table_ok t" using t(1) by (simp add: table_inv_def)
  have r: "- (2 ^ 31) \<le> n" "n < 2 ^ 31" using l OpSetIndex by simp_all
  show ?thesis using OpSetIndex put_refined [OF t good_cast [OF r] rawseti_updated [OF ok r] rawseti_free] by simp
next
  case (OpSetField s v)
  have ok: "table_ok t" using t(1) by (simp add: table_inv_def)
  show ?thesis using OpSetField put_refined [OF t _ rawsetfield_updated [OF ok] rawsetfield_free] by simp
next
  case (OpSetPointer p tag v)
  have ok: "table_ok t" using t(1) by (simp add: table_inv_def)
  show ?thesis using OpSetPointer put_refined [OF t _ rawsetptagged_updated [OF ok] rawsetptagged_free] by simp
next
  case (OpSetList n vs)
  then show ?thesis using setlist_refined [OF t] l by simp
next
  case OpClear
  then show ?thesis using clear_correct [OF t(1)] agrees_empty by (auto simp: refined_def table_inv_def)
next
  case OpClone
  then show ?thesis using clone_correct [OF t(1)] agrees_cong t by (auto simp: refined_def table_inv_def)
next
  case OpLength
  obtain t' n where g: "lua_h_getn t = Inr (t', n)" "table_inv t'" "content t' = content t"
    using getn_correct [OF t(1)] unfolding length_result_def by blast
  then have "agrees t' m" using agrees_cong t unfolding table_inv_def by blast
  then show ?thesis using OpLength g by (simp add: refined_def)
qed

section \<open>Sequences of operations\<close>

text \<open>The contract of a component with limited memory: what the specification does the code does, unless it reaches its limit.\<close>

fun run_sum :: "('op \<Rightarrow> 's \<Rightarrow> 'e + 's) \<Rightarrow> 'op list \<Rightarrow> 's \<Rightarrow> 'e + 's" where
  "run_sum step [] s = Inr s"
| "run_sum step (op # ops) s = and_then (step op s) (run_sum step ops)"

locale refines_unless =
  fixes inv :: "'s \<Rightarrow> bool" and rel :: "'s \<Rightarrow> 'a \<Rightarrow> bool" and legal :: "'op \<Rightarrow> bool"
    and step :: "'op \<Rightarrow> 's \<Rightarrow> 'e + 's" and spec :: "'op \<Rightarrow> 'a \<Rightarrow> 'e + 'a" and full :: 'e
  assumes step_ok: "inv s \<Longrightarrow> rel s a \<Longrightarrow> legal op \<Longrightarrow> step op s = Inl full \<or>
    (case spec op a of Inl e \<Rightarrow> step op s = Inl e | Inr a' \<Rightarrow> \<exists>s'. step op s = Inr s' \<and> inv s' \<and> rel s' a')"
begin

lemma run_ok:
  "inv s \<Longrightarrow> rel s a \<Longrightarrow> (\<And>op. op \<in> set ops \<Longrightarrow> legal op) \<Longrightarrow> run_sum step ops s = Inl full \<or>
    (case run_sum spec ops a of Inl e \<Rightarrow> run_sum step ops s = Inl e | Inr a' \<Rightarrow> \<exists>s'. run_sum step ops s = Inr s' \<and> inv s' \<and> rel s' a')"
proof (induction ops arbitrary: s a)
  case (Cons op ops)
  note st = step_ok [OF Cons.prems(1,2), of op]
  have l: "legal op" "\<And>op. op \<in> set ops \<Longrightarrow> legal op" using Cons.prems(3) by simp_all
  show ?case
  proof (cases "step op s = Inl full")
    case False
    show ?thesis
    proof (cases "spec op a")
      case (Inl e)
      then show ?thesis using st l(1) False by simp
    next
      case (Inr a')
      then obtain s' where s': "step op s = Inr s'" "inv s'" "rel s' a'" using st l(1) False by auto
      then have e: "run_sum step (op # ops) s = run_sum step ops s'" "run_sum spec (op # ops) a = run_sum spec ops a'" using Inr by simp_all
      show ?thesis unfolding e by (rule Cons.IH [OF s'(2,3) l(2)])
    qed
  qed simp
qed simp

end

interpretation lua_tables: refines_unless table_inv agrees legal table_step table_spec TableOverflow
proof
  fix t :: "'v lua_table" and m and op :: "'v table_op" assume "table_inv t" "agrees t m" "legal op"
  then show "table_step op t = Inl TableOverflow \<or> (case table_spec op m of Inl e \<Rightarrow> table_step op t = Inl e
      | Inr m' \<Rightarrow> \<exists>t'. table_step op t = Inr t' \<and> table_inv t' \<and> agrees t' m')"
    using step_refined unfolding refined_def by blast
qed

section \<open>Tables that operations reach\<close>

inductive table_reached :: "'v lua_table \<Rightarrow> bool" where
  reached_new: "lua_h_new narray nhash = Inr t \<Longrightarrow> nhash < 2 ^ 31 \<Longrightarrow> table_reached t"
| reached_step: "table_reached t \<Longrightarrow> legal op \<Longrightarrow> table_step op t = Inr t' \<Longrightarrow> table_reached t'"

lemma agrees_exists: "table_ok t \<Longrightarrow> \<exists>m. agrees t m"
proof -
  assume t: "table_ok t"
  have "\<exists>v. rawget t k = Inr v" if "small_key k" for k
    using rawget_value [OF t, of k] rawget_bad_key [OF t, of k] good_key_iff [of k] that by auto
  then have "\<exists>m. \<forall>k. small_key k \<longrightarrow> rawget t k = Inr (m k)" by metis
  then show ?thesis by (simp add: agrees_def)
qed

lemma step_inv: "table_inv t \<Longrightarrow> legal op \<Longrightarrow> table_step op t = Inr t' \<Longrightarrow> table_inv t'"
proof -
  assume t: "table_inv t" and op: "legal op" "table_step op t = Inr t'"
  then obtain m where "agrees t m" using agrees_exists unfolding table_inv_def by blast
  then show "table_inv t'" using step_refined [OF t _ op(1)] op(2) by (fastforce simp: refined_def split: sum.splits)
qed

lemma spec_no_fault: "table_spec op m \<noteq> Inl Fault"
proof (cases op)
  case (OpSet k v)
  have "key_error k \<noteq> Some Fault" by (cases k) simp_all
  then show ?thesis using OpSet by (auto split: option.split)
qed simp_all

lemma step_no_fault: "table_inv t \<Longrightarrow> legal op \<Longrightarrow> table_step op t \<noteq> Inl Fault"
proof -
  assume t: "table_inv t" and op: "legal op"
  then obtain m where "agrees t m" using agrees_exists unfolding table_inv_def by blast
  then show "table_step op t \<noteq> Inl Fault"
    using step_refined [OF t _ op] spec_no_fault [of op m] by (fastforce simp: refined_def split: sum.splits)
qed

lemma reached_inv: "table_reached t \<Longrightarrow> table_inv t"
  by (induction rule: table_reached.induct) (use new_correct step_inv in blast)+

lemma rawget_iff: "table_ok t \<Longrightarrow> good_key k \<Longrightarrow> rawget t k = Inr (Some v) \<longleftrightarrow> (canon k, v) \<in> content t"
proof -
  assume a: "table_ok t" "good_key k"
  obtain w where w: "rawget t k = Inr w" "has_value t k w" using rawget_value [OF a] by blast
  have "w = Some v \<longleftrightarrow> (canon k, v) \<in> content t" using w(2) unfolding has_value_def by blast
  then show ?thesis using w(1) by simp
qed

lemma rawgeti_iff: "table_ok t \<Longrightarrow> 0 < n \<Longrightarrow> n < 2 ^ 31 \<Longrightarrow> \<exists>v. rawgeti t n = Inr v \<and> (v \<noteq> None \<longleftrightarrow> live_index t n)"
proof -
  assume t: "table_ok t" and n: "0 < n" "n < 2 ^ 31"
  obtain v where v: "rawgeti t n = Inr v" "has_value t (array_key n) v" using rawgeti_value [OF t, of n] n by auto
  have "array_key n \<in> fst ` content t \<longleftrightarrow> (\<exists>x. (array_key n, x) \<in> content t)" by force
  then have "live_index t n \<longleftrightarrow> (\<exists>x. v = Some x)" using v(2) n canon_array_key [OF n] by (simp add: has_value_def live_index_def)
  then show ?thesis using v(1) by simp
qed

lemma rawget_cong:
  assumes "lt_array t' = lt_array t" "lt_node t' = lt_node t" "lt_dummy t' = lt_dummy t"
  shows "rawget t' k = rawget t k"
proof -
  have "load t' r = load t r" for r using assms by (cases "(t, r)" rule: load.cases) simp_all
  moreover have "lua_h_getnum t' = lua_h_getnum t" "lua_h_getstr t' = lua_h_getstr t" "find_slot t' = find_slot t"
    using assms by (simp_all add: fun_eq_iff lua_h_getnum_def lua_h_getstr_def find_slot_def in_array_def)
  then have "lua_h_get t' k = lua_h_get t k" using assms by (simp add: lua_h_get_def Let_def split: lua_key.split)
  ultimately show ?thesis by (simp add: rawget_def and_then_def split: sum.split)
qed

text \<open>The elements of a traversal, in terms of reading.\<close>

lemma content_good: "table_ok t \<Longrightarrow> content t = (\<lambda>(k, v). (canon k, v)) ` set es \<Longrightarrow>
    traverse n g t KNil = Inr (es, t') \<Longrightarrow> n = Suc (positions t) \<Longrightarrow> (k, v) \<in> set es \<Longrightarrow> good_key k"
proof -
  assume t: "table_ok t" and n: "traverse n g t KNil = Inr (es, t')" "n = Suc (positions t)" and k: "(k, v) \<in> set es"
  have "findindex t KNil = Inr (int 0 - 1)" by (simp add: findindex_def)
  then obtain ps where ps: "es = map (\<lambda>q. (key_at t q, the (val_at t q))) ps" "entries_from t 0 ps"
    using traverse_correct [OF t, of KNil 0 n g] n by auto
  then obtain q where "k = key_at t q" "q < positions t" "val_at t q \<noteq> None" using k by (auto simp: entries_from_def)
  then show "good_key k" using val_key [OF t] by blast
qed

lemma traverse_reads:
  assumes t: "table_ok t"
  shows "\<exists>es t'. traverse (Suc (positions t)) g t KNil = Inr (es, t') \<and>
    sorted_wrt (\<lambda>a b. \<not> rawequal_key (fst a) (fst b)) es \<and>
    (\<forall>(k, v) \<in> set es. rawget t k = Inr (Some v) \<and> rawget t' k = Inr (g k v)) \<and>
    (\<forall>k v. good_key k \<and> rawget t k = Inr (Some v) \<longrightarrow> (\<exists>k'. (k', v) \<in> set es \<and> rawequal_key k' k))"
proof -
  obtain es t' where e: "traverse (Suc (positions t)) g t KNil = Inr (es, t')" "distinct (map (\<lambda>(k, v). canon k) es)"
      "content t = (\<lambda>(k, v). (canon k, v)) ` set es" "table_ok t'"
      "content t' = {(canon k, w) | k v w. (k, v) \<in> set es \<and> g k v = Some w}"
    using traverse_enumerates [OF t, of g] by blast
  have good: "good_key k" if "(k, v) \<in> set es" for k v using content_good [OF t e(3,1) refl that] .
  have uniq: "a = b" if "a \<in> set es" "b \<in> set es" "canon (fst a) = canon (fst b)" for a b
  proof -
    have "inj_on (\<lambda>(k, v). canon k) (set es)" using e(2) by (simp add: distinct_map)
    then show ?thesis by (rule inj_onD) (use that in \<open>simp_all add: case_prod_unfold\<close>)
  qed
  have "sorted_wrt (\<lambda>a b. \<not> rawequal_key (fst a) (fst b)) es"
  proof -
    have "sorted_wrt (\<lambda>a b. canon (fst a) \<noteq> canon (fst b)) es"
      using e(2) by (simp add: distinct_conv_nth sorted_wrt_iff_nth_less case_prod_unfold)
    then show ?thesis
      by (rule sorted_wrt_mono_rel [rotated]) (use good rawequal_canon in \<open>auto simp: prod.collapse\<close>)
  qed
  moreover have "rawget t k = Inr (Some v) \<and> rawget t' k = Inr (g k v)" if m: "(k, v) \<in> set es" for k v
  proof -
    have gk: "good_key k" by (rule good [OF m])
    have "(canon k, v) \<in> content t" unfolding e(3) using m by (rule rev_image_eqI) simp
    then have 1: "rawget t k = Inr (Some v)" using rawget_iff [OF t gk, of v] by blast
    have "(canon k, w) \<in> content t' \<longleftrightarrow> g k v = Some w" for w
    proof
      assume "(canon k, w) \<in> content t'"
      then obtain k1 v1 where k1: "canon k1 = canon k" "(k1, v1) \<in> set es" "g k1 v1 = Some w" unfolding e(5) by auto
      then have "(k1, v1) = (k, v)" using uniq [OF k1(2) m] by simp
      then show "g k v = Some w" using k1(3) by simp
    next
      assume "g k v = Some w"
      then show "(canon k, w) \<in> content t'" unfolding e(5) using m by blast
    qed
    then have "has_value t' k (g k v)" unfolding has_value_def by blast
    then have "rawget t' k = Inr (g k v)" using rawget_value [OF e(4) gk] has_value_unique by blast
    then show ?thesis using 1 by blast
  qed
  moreover have "\<exists>k'. (k', v) \<in> set es \<and> rawequal_key k' k" if k: "good_key k" "rawget t k = Inr (Some v)" for k v
  proof -
    have "(canon k, v) \<in> content t" using rawget_iff [OF t k(1), of v] k(2) by blast
    then obtain k' where k': "(k', v) \<in> set es" "canon k' = canon k" unfolding e(3) by auto
    then show ?thesis using rawequal_canon [OF good [OF k'(1)] k(1)] by blast
  qed
  ultimately show ?thesis using e(1) by blast
qed

section \<open>Instances\<close>

lemma reached_run: "table_reached t \<Longrightarrow> (\<And>op. op \<in> set ops \<Longrightarrow> legal op) \<Longrightarrow> run_sum table_step ops t = Inr t' \<Longrightarrow> table_reached t'"
proof (induction ops arbitrary: t)
  case (Cons op ops)
  obtain t1 where t1: "table_step op t = Inr t1" "run_sum table_step ops t1 = Inr t'" using Cons.prems(3) by auto
  have "table_reached t1" using reached_step [OF Cons.prems(1) _ t1(1)] Cons.prems(2) by simp
  then show ?case using Cons.IH [OF _ _ t1(2)] Cons.prems(2) by simp
qed simp

definition empty_table :: "nat lua_table" where
  "empty_table = \<lparr>lt_array = [], lt_node = [free_node], lt_dummy = True, lt_lastfree = 0\<rparr>"

definition sample_ops :: "nat table_op list" where
  "sample_ops = [OpSetIndex 1 (Some 10), OpSetField [0x61] (Some 20), OpSet (KBoolean True) (Some 30), OpSetIndex 2 (Some 40), OpSetField [0x61] None]"

definition sample_table :: "nat lua_table" where
  "sample_table = (case run_sum table_step sample_ops empty_table of Inr t \<Rightarrow> t | Inl e \<Rightarrow> empty_table)"

lemma empty_table_new: "lua_h_new 0 0 = Inr empty_table" by (simp add: lua_h_new_def empty_table_def)

lemma sample_legal: "op \<in> set sample_ops \<Longrightarrow> legal op" by (auto simp: sample_ops_def small_key_def)

lemma sample_runs: "case run_sum table_step sample_ops empty_table of Inr t \<Rightarrow> rawgeti t 2 = Inr (Some 40) | Inl e \<Rightarrow> False"
  by code_simp

lemma sample_table_run: "run_sum table_step sample_ops empty_table = Inr sample_table"
  using sample_runs by (simp add: sample_table_def split: sum.splits)

lemma sample_reached: "table_reached sample_table"
  by (rule reached_run [OF reached_new [OF empty_table_new] sample_legal sample_table_run]) simp_all

text \<open>64-bit integers that are the same as floating-point numbers are one key: the value stored under \<open>2^53\<close> is found under
  \<open>2^53 + 1\<close>.\<close>

lemma integer_keys_collide:
  "case lua_h_new 0 1 of Inl e \<Rightarrow> False | Inr t \<Rightarrow> (case rawset t (KInteger 9007199254740992) (Some (1 :: nat)) of Inl e \<Rightarrow> False
     | Inr t \<Rightarrow> rawget t (KInteger 9007199254740993) = Inr (Some 1))"
  by code_simp

section \<open>Properties\<close>

text \<open>C2: A new table on which operations run agrees with a function from keys to values on which their specifications
  run: the operations raise exactly the errors of the specification, or the table limit is reached; otherwise
  reading a key gives the value that the function has, whatever rehashes happened. The keys, those of the operations
  (\<open>legal\<close>) and those read (\<open>small_key\<close>), are any keys but 64-bit integers of an absolute value over \<open>2^53\<close>, for which
  it is false: two of them that round to the same double can be one key (\<open>integer_keys_collide\<close>).\<close>

theorem lua_tables_are_maps:
  assumes "lua_h_new narray nhash = Inr t" "nhash < 2 ^ 31" "\<And>op. op \<in> set ops \<Longrightarrow> legal op"
  shows "run_sum table_step ops t = Inl TableOverflow \<or>
    (case run_sum table_spec ops (\<lambda>_. None) of
       Inl e \<Rightarrow> run_sum table_step ops t = Inl e
     | Inr m \<Rightarrow> \<exists>t'. run_sum table_step ops t = Inr t' \<and> (\<forall>k. small_key k \<longrightarrow> rawget t' k = Inr (m k)))"
proof -
  have t: "table_inv t" "agrees t (\<lambda>_. None)" using new_correct [OF assms(1,2)] agrees_empty by (auto simp: table_inv_def)
  show ?thesis
    using lua_tables.run_ok [OF t, of ops, OF assms(3)] unfolding agrees_def by (auto split: sum.splits)
qed

theorem lua_tables_are_maps_witness:
  "\<exists>t'. run_sum table_step sample_ops empty_table = Inr t' \<and> rawget t' (KBoolean True) = Inr (Some 30) \<and> rawget t' (KString [0x61]) = Inr None"
proof -
  obtain m where m: "run_sum table_spec sample_ops (\<lambda>_. None) = Inr m" "m (KBoolean True) = Some 30" "m (KString [0x61]) = None"
    by (simp add: sample_ops_def spec_put_def array_key_def)
  show ?thesis using lua_tables_are_maps [OF empty_table_new _ sample_legal, of sample_ops] m sample_table_run by (simp add: small_key_def)
qed

text \<open>C10: Every table that operations with such keys reach is well formed (keys are stored once, in the chain of their main position; sizes
  and the free pointer are in range), and no operation on it accesses memory out of bounds or fails an assertion.\<close>

theorem reached_tables_are_ok:
  assumes "table_reached t" "legal op"
  shows "table_inv t \<and> table_step op t \<noteq> Inl Fault \<and> (\<forall>t'. table_step op t = Inr t' \<longrightarrow> table_inv t')"
  using reached_inv [OF assms(1)] step_no_fault step_inv assms(2) by blast

theorem reached_tables_are_ok_witness: "table_inv sample_table \<and> table_step OpClear sample_table \<noteq> Inl Fault"
  using reached_tables_are_ok [OF sample_reached, of OpClear] by simp

text \<open>C9: The loop that assigns \<open>g k v\<close> (nil included) to every element \<open>next\<close> yields ends after at most as many turns as the table
  has places: it visits every element once with its value, nothing else, and every element is assigned.\<close>

theorem traversal_visits_all:
  assumes "table_reached t"
  shows "\<exists>es t'. traverse (Suc (positions t)) g t KNil = Inr (es, t') \<and>
    sorted_wrt (\<lambda>a b. \<not> rawequal_key (fst a) (fst b)) es \<and>
    (\<forall>(k, v) \<in> set es. rawget t k = Inr (Some v) \<and> rawget t' k = Inr (g k v)) \<and>
    (\<forall>k v. good_key k \<and> rawget t k = Inr (Some v) \<longrightarrow> (\<exists>k'. (k', v) \<in> set es \<and> rawequal_key k' k))"
  using traverse_reads reached_inv [OF assms] unfolding table_inv_def by blast

theorem traversal_visits_all_witness:
  "\<exists>es t'. traverse (Suc (positions sample_table)) (\<lambda>k v. None) sample_table KNil = Inr (es, t') \<and> (\<forall>(k, v) \<in> set es. rawget t' k = Inr None)"
  using traversal_visits_all [OF sample_reached, of "\<lambda>k v. None"] by fastforce

text \<open>C11: The length of a table is a border: it is 0 or an index with a value, the index behind it has none, and the contents
  stay as they are.\<close>

theorem length_is_border:
  assumes "table_reached t"
  shows "\<exists>t' n. lua_h_getn t = Inr (t', n) \<and> 0 \<le> n \<and> (n = 0 \<or> (\<exists>v. rawgeti t n = Inr (Some v))) \<and>
    rawgeti t (n + 1) = Inr None \<and> (\<forall>k. rawget t' k = rawget t k)"
proof -
  have t: "table_inv t" by (rule reached_inv [OF assms])
  then have ok: "table_ok t" by (simp add: table_inv_def)
  obtain t' n where n: "lua_h_getn t = Inr (t', n)" "border t n" "n \<le> int (sizearray t)" "lt_array t' = lt_array t" "lt_node t' = lt_node t"
      "lt_dummy t' = lt_dummy t" using getn_correct [OF t] unfolding length_result_def by blast
  have r: "0 \<le> n" "n + 1 < 2 ^ 31" using n(2,3) table_okD(1) [OF ok] by (simp_all add: border_def)
  have "n = 0 \<or> (\<exists>v. rawgeti t n = Inr (Some v))" using rawgeti_iff [OF ok, of n] r n(2) unfolding border_def by fastforce
  moreover have "rawgeti t (n + 1) = Inr None" using rawgeti_iff [OF ok, of "n + 1"] r n(2) unfolding border_def by fastforce
  ultimately show ?thesis using n(1) r(1) rawget_cong [OF n(4-6)] by blast
qed

theorem length_is_border_witness:
  "\<exists>t' n. lua_h_getn sample_table = Inr (t', n) \<and> 0 \<le> n \<and> rawgeti sample_table (n + 1) = Inr None"
  using length_is_border [OF sample_reached] by blast

end
