(* ===== verification/Lua_Pattern.thy ===== *)
theory Lua_Pattern
  imports Luau_Prelude
begin

text \<open>
  The pattern matcher of the string library: \<open>match.rs\<close> and the functions it calls
  (\<open>classend.rs\<close>, \<open>singlematch.rs\<close>, \<open>match_class.rs\<close>, \<open>matchbracketclass.rs\<close>, \<open>matchbalance.rs\<close>,
  \<open>max_expand.rs\<close>, \<open>min_expand.rs\<close>, \<open>start_capture.rs\<close>, \<open>end_capture.rs\<close>, \<open>match_capture.rs\<close>).

  The source and the pattern are the arguments \<open>src\<close> and \<open>pat\<close>, byte strings with a terminating NUL
  that may be read; a pointer into them is its distance from the first byte, so that
  \<open>src_init\<close> is 0, \<open>src_end\<close> is \<open>length src\<close> and \<open>p_end\<close> is \<open>length pat\<close>. Reading behind the NUL
  is the error \<open>Fault\<close>. What the matcher changes, captures and depth, is the record
  \<open>match_state\<close>, which every function takes and returns. An error of \<open>luaL_error\<close> is a value of
  \<open>pattern_error\<close>. The functions that call \<open>match_item\<close> back take it as the argument \<open>rec\<close>. The interrupt callback of the
  embedder, which \<open>match_item\<close> runs first, changes nothing the matcher reads and is left out.
\<close>

section \<open>Data\<close>

datatype pattern_error =
  PatternTooComplex | TooManyCaptures | InvalidPatternCapture | InvalidCaptureIndex int
| MissingArguments | MissingBracket | EndsWithEscape | MissingSet
| UnfinishedCapture | InvalidCapture | InvalidReplacementEscape | InvalidReplacementValue
| CallError | AssertionFailed | Fault | OutOfFuel

type_synonym 'a presult = "pattern_error + 'a"

record capture =
  cap_init :: nat
  cap_len :: int

record match_state =
  ms_matchdepth :: nat
  ms_level :: nat
  ms_capture :: "capture list"

definition LUAI_MAXCCALLS :: nat where "LUAI_MAXCCALLS = 200"
definition LUA_MAXCAPTURES :: nat where "LUA_MAXCAPTURES = 32"
definition CAP_UNFINISHED :: int where "CAP_UNFINISHED = -1"
definition CAP_POSITION :: int where "CAP_POSITION = -2"
definition L_ESC :: u8 where "L_ESC = 37"

text \<open>The other characters of the syntax.\<close>

abbreviation ch_dollar :: u8 where "ch_dollar \<equiv> 36"
abbreviation ch_open :: u8 where "ch_open \<equiv> 40"
abbreviation ch_close :: u8 where "ch_close \<equiv> 41"
abbreviation ch_star :: u8 where "ch_star \<equiv> 42"
abbreviation ch_plus :: u8 where "ch_plus \<equiv> 43"
abbreviation ch_minus :: u8 where "ch_minus \<equiv> 45"
abbreviation ch_dot :: u8 where "ch_dot \<equiv> 46"
abbreviation ch_quest :: u8 where "ch_quest \<equiv> 63"
abbreviation ch_bracket :: u8 where "ch_bracket \<equiv> 91"
abbreviation ch_rbracket :: u8 where "ch_rbracket \<equiv> 93"
abbreviation ch_caret :: u8 where "ch_caret \<equiv> 94"
abbreviation ch_b :: u8 where "ch_b \<equiv> 98"
abbreviation ch_f :: u8 where "ch_f \<equiv> 102"

section \<open>Memory\<close>

definition deref :: "bytes \<Rightarrow> nat \<Rightarrow> u8 presult" where
  "deref b i = (if i < length b then Inr (b ! i) else if i = length b then Inr 0 else Inl Fault)"

definition raw_slice :: "bytes \<Rightarrow> nat \<Rightarrow> nat \<Rightarrow> bytes presult" where
  "raw_slice b i n = (if i + n \<le> length b then Inr (take n (drop i b)) else Inl Fault)"

definition get_capture :: "match_state \<Rightarrow> nat \<Rightarrow> capture presult" where
  "get_capture ms l = (if l < length (ms_capture ms) then Inr (ms_capture ms ! l) else Inl Fault)"

definition set_capture :: "match_state \<Rightarrow> nat \<Rightarrow> capture \<Rightarrow> match_state presult" where
  "set_capture ms l c =
     (if l < length (ms_capture ms) then Inr (ms\<lparr>ms_capture := (ms_capture ms)[l := c]\<rparr>) else Inl Fault)"

section \<open>Classes\<close>

definition is_ascii_lowercase :: "u8 \<Rightarrow> bool" where "is_ascii_lowercase c \<longleftrightarrow> 97 \<le> c \<and> c \<le> 122"
definition is_ascii_uppercase :: "u8 \<Rightarrow> bool" where "is_ascii_uppercase c \<longleftrightarrow> 65 \<le> c \<and> c \<le> 90"
definition is_ascii_digit :: "u8 \<Rightarrow> bool" where "is_ascii_digit c \<longleftrightarrow> 48 \<le> c \<and> c \<le> 57"

definition to_ascii_lowercase :: "u8 \<Rightarrow> u8" where "to_ascii_lowercase c = (if is_ascii_uppercase c then c + 32 else c)"

text \<open>The \<open>is_ascii_*\<close> predicates of the standard library.\<close>

definition is_ascii_control :: "u8 \<Rightarrow> bool" where "is_ascii_control c \<longleftrightarrow> c < 32 \<or> c = 127"
definition is_ascii_graphic :: "u8 \<Rightarrow> bool" where "is_ascii_graphic c \<longleftrightarrow> 33 \<le> c \<and> c \<le> 126"
definition is_ascii_alphabetic :: "u8 \<Rightarrow> bool" where "is_ascii_alphabetic c \<longleftrightarrow> is_ascii_lowercase c \<or> is_ascii_uppercase c"
definition is_ascii_alphanumeric :: "u8 \<Rightarrow> bool" where "is_ascii_alphanumeric c \<longleftrightarrow> is_ascii_alphabetic c \<or> is_ascii_digit c"
definition is_ascii_punctuation :: "u8 \<Rightarrow> bool" where
  "is_ascii_punctuation c \<longleftrightarrow> is_ascii_graphic c \<and> \<not> is_ascii_alphanumeric c"
definition is_ascii_whitespace :: "u8 \<Rightarrow> bool" where
  "is_ascii_whitespace c \<longleftrightarrow> c = 32 \<or> c = 9 \<or> c = 10 \<or> c = 12 \<or> c = 13"
definition is_ascii_hexdigit :: "u8 \<Rightarrow> bool" where
  "is_ascii_hexdigit c \<longleftrightarrow> is_ascii_digit c \<or> (97 \<le> c \<and> c \<le> 102) \<or> (65 \<le> c \<and> c \<le> 70)"

definition match_class :: "u8 \<Rightarrow> u8 \<Rightarrow> bool" where
  "match_class c cl =
     (let lower = to_ascii_lowercase cl;
          test = (\<lambda>res. if is_ascii_lowercase cl then res else \<not> res) in
      if lower = 97 then test (is_ascii_alphabetic c)
      else if lower = 99 then test (is_ascii_control c)
      else if lower = 100 then test (is_ascii_digit c)
      else if lower = 103 then test (is_ascii_graphic c)
      else if lower = 108 then test (is_ascii_lowercase c)
      else if lower = 112 then test (is_ascii_punctuation c)
      else if lower = 115 then test (is_ascii_whitespace c)
      else if lower = 117 then test (is_ascii_uppercase c)
      else if lower = 119 then test (is_ascii_alphanumeric c)
      else if lower = 120 then test (is_ascii_hexdigit c)
      else if lower = 122 then test (c = 0)
      else cl = c)"

text \<open>\<open>matchbracketclass\<close>: \<open>p\<close> is at the character in front of the next one to look at.\<close>

function bracket_loop :: "bytes \<Rightarrow> u8 \<Rightarrow> bool \<Rightarrow> nat \<Rightarrow> nat \<Rightarrow> bool presult" where
  "bracket_loop pat c sig p ec =
     (if p + 1 < ec then
        and_then (deref pat (p + 1)) (\<lambda>x.
          if x = L_ESC then
            and_then (deref pat (p + 2)) (\<lambda>y.
              if match_class c y then Inr sig else bracket_loop pat c sig (p + 2) ec)
          else
            and_then (deref pat (p + 2)) (\<lambda>y.
              if y = ch_minus \<and> p + 3 < ec then
                and_then (deref pat (p + 3)) (\<lambda>hi.
                  if x \<le> c \<and> c \<le> hi then Inr sig else bracket_loop pat c sig (p + 3) ec)
              else if x = c then Inr sig
              else bracket_loop pat c sig (p + 1) ec))
      else Inr (\<not> sig))"
  by pat_completeness auto

termination
  by (relation "measure (\<lambda>(pat, c, sig, p, ec). ec - p)") auto

declare bracket_loop.simps [simp del]

definition matchbracketclass :: "bytes \<Rightarrow> u8 \<Rightarrow> nat \<Rightarrow> nat \<Rightarrow> bool presult" where
  "matchbracketclass pat c p ec =
     and_then (deref pat (p + 1)) (\<lambda>x.
       if x = ch_caret then bracket_loop pat c False (p + 1) ec else bracket_loop pat c True p ec)"

text \<open>\<open>classend\<close>, and its loop over the characters of a set.\<close>

function set_end :: "bytes \<Rightarrow> nat \<Rightarrow> nat presult" where
  "set_end pat p =
     (if p = length pat then Inl MissingBracket
      else and_then (deref pat p) (\<lambda>c.
        let q = (if c = L_ESC \<and> p + 1 < length pat then p + 2 else p + 1) in
        and_then (deref pat q) (\<lambda>d. if d = ch_rbracket then Inr (q + 1) else set_end pat q)))"
  by pat_completeness auto

termination
  by (relation "measure (\<lambda>(pat, p). length pat - p)") (auto simp: deref_def split: if_splits)

declare set_end.simps [simp del]

definition classend :: "bytes \<Rightarrow> nat \<Rightarrow> nat presult" where
  "classend pat p =
     and_then (deref pat p) (\<lambda>c.
       if c = L_ESC then
         (if p + 1 = length pat then Inl EndsWithEscape else Inr (p + 2))
       else if c = ch_bracket then
         and_then (deref pat (p + 1)) (\<lambda>d. set_end pat (if d = ch_caret then p + 2 else p + 1))
       else Inr (p + 1))"

definition singlematch :: "bytes \<Rightarrow> bytes \<Rightarrow> nat \<Rightarrow> nat \<Rightarrow> nat \<Rightarrow> bool presult" where
  "singlematch src pat s p ep =
     (if s \<ge> length src then Inr False
      else and_then (deref src s) (\<lambda>c. and_then (deref pat p) (\<lambda>p_char.
        if p_char = ch_dot then Inr True
        else if p_char = L_ESC then
          and_then (deref pat (p + 1)) (\<lambda>cl. Inr (match_class c cl))
        else if p_char = ch_bracket then matchbracketclass pat c p (ep - 1)
        else Inr (p_char = c))))"

function balance_loop :: "bytes \<Rightarrow> u8 \<Rightarrow> u8 \<Rightarrow> int \<Rightarrow> nat \<Rightarrow> nat option presult" where
  "balance_loop src b e cont s =
     (if s < length src then
        and_then (deref src s) (\<lambda>c.
          if c = e then
            (if cont - 1 = 0 then Inr (Some (s + 1)) else balance_loop src b e (cont - 1) (s + 1))
          else if c = b then balance_loop src b e (cont + 1) (s + 1)
          else balance_loop src b e cont (s + 1))
      else Inr None)"
  by pat_completeness auto

termination
  by (relation "measure (\<lambda>(src, b, e, cont, s). length src - s)") auto

declare balance_loop.simps [simp del]

definition matchbalance :: "bytes \<Rightarrow> bytes \<Rightarrow> nat \<Rightarrow> nat \<Rightarrow> nat option presult" where
  "matchbalance src pat s p =
     (if p + 1 \<ge> length pat then Inl MissingArguments
      else and_then (deref src s) (\<lambda>c. and_then (deref pat p) (\<lambda>b.
        if c \<noteq> b then Inr None
        else and_then (deref pat (p + 1)) (\<lambda>e. balance_loop src b e 1 (s + 1)))))"

section \<open>Captures\<close>

type_synonym match_result = "(nat option \<times> match_state) presult"
type_synonym matcher = "match_state \<Rightarrow> nat \<Rightarrow> nat \<Rightarrow> match_result"

definition start_capture :: "matcher \<Rightarrow> match_state \<Rightarrow> nat \<Rightarrow> nat \<Rightarrow> int \<Rightarrow> match_result" where
  "start_capture rec ms s p what =
     (let level = ms_level ms in
      if level \<ge> LUA_MAXCAPTURES then Inl TooManyCaptures
      else and_then (set_capture ms level \<lparr>cap_init = s, cap_len = what\<rparr>) (\<lambda>ms.
        and_then (rec (ms\<lparr>ms_level := level + 1\<rparr>) s p) (\<lambda>(res, ms).
          Inr (res, if res = None then ms\<lparr>ms_level := ms_level ms - 1\<rparr> else ms))))"

primrec close_loop :: "match_state \<Rightarrow> nat \<Rightarrow> nat presult" where
  "close_loop ms 0 = Inl InvalidPatternCapture"
| "close_loop ms (Suc level) =
     and_then (get_capture ms level) (\<lambda>c.
       if cap_len c = CAP_UNFINISHED then Inr level else close_loop ms level)"

definition capture_to_close :: "match_state \<Rightarrow> nat presult" where
  "capture_to_close ms = close_loop ms (ms_level ms)"

definition end_capture :: "matcher \<Rightarrow> match_state \<Rightarrow> nat \<Rightarrow> nat \<Rightarrow> match_result" where
  "end_capture rec ms s p =
     and_then (capture_to_close ms) (\<lambda>l.
       and_then (get_capture ms l) (\<lambda>c.
         and_then (set_capture ms l (c\<lparr>cap_len := int s - int (cap_init c)\<rparr>)) (\<lambda>ms.
           and_then (rec ms s p) (\<lambda>(res, ms).
             if res = None then
               and_then (get_capture ms l) (\<lambda>c.
                 and_then (set_capture ms l (c\<lparr>cap_len := CAP_UNFINISHED\<rparr>)) (\<lambda>ms. Inr (None, ms)))
             else Inr (res, ms)))))"

definition check_capture :: "match_state \<Rightarrow> u8 \<Rightarrow> nat presult" where
  "check_capture ms ch =
     (let l = uint ch - 49 in
      if l < 0 \<or> l \<ge> int (ms_level ms) then Inl (InvalidCaptureIndex (l + 1))
      else and_then (get_capture ms (nat l)) (\<lambda>c.
        if cap_len c = CAP_UNFINISHED then Inl (InvalidCaptureIndex (l + 1)) else Inr (nat l)))"

text \<open>The length of a position capture is no length: as an unsigned number it exceeds every source.\<close>

definition usize_of :: "int \<Rightarrow> nat" where
  "usize_of x = nat (x mod 2 ^ 64)"

definition match_capture :: "bytes \<Rightarrow> match_state \<Rightarrow> nat \<Rightarrow> u8 \<Rightarrow> nat option presult" where
  "match_capture src ms s ch =
     and_then (check_capture ms ch) (\<lambda>l. and_then (get_capture ms l) (\<lambda>c.
       let len = usize_of (cap_len c) in
       if length src - s \<ge> len then
         and_then (raw_slice src (cap_init c) len) (\<lambda>x. and_then (raw_slice src s len) (\<lambda>y.
           Inr (if x = y then Some (s + len) else None)))
       else Inr None))"

section \<open>Repetition\<close>

function count_max :: "bytes \<Rightarrow> bytes \<Rightarrow> nat \<Rightarrow> nat \<Rightarrow> nat \<Rightarrow> nat \<Rightarrow> nat presult" where
  "count_max src pat s i p ep =
     and_then (singlematch src pat (s + i) p ep) (\<lambda>m.
       if m then count_max src pat s (i + 1) p ep else Inr i)"
  by pat_completeness auto

termination
  by (relation "measure (\<lambda>(src, pat, s, i, p, ep). length src - (s + i))")
     (auto simp: singlematch_def split: if_splits)

declare count_max.simps [simp del]

text \<open>The loop of \<open>max_expand\<close> for \<open>i\<close>, \<dots>, 0; its argument is \<open>i + 1\<close>.\<close>

primrec expand_down :: "matcher \<Rightarrow> match_state \<Rightarrow> nat \<Rightarrow> nat \<Rightarrow> nat \<Rightarrow> match_result" where
  "expand_down rec ms s ep 0 = Inr (None, ms)"
| "expand_down rec ms s ep (Suc i) =
     and_then (rec ms (s + i) (ep + 1)) (\<lambda>(res, ms).
       if res \<noteq> None then Inr (res, ms) else expand_down rec ms s ep i)"

definition max_expand :: "matcher \<Rightarrow> bytes \<Rightarrow> bytes \<Rightarrow> match_state \<Rightarrow> nat \<Rightarrow> nat \<Rightarrow> nat \<Rightarrow> match_result" where
  "max_expand rec src pat ms s p ep =
     and_then (count_max src pat s 0 p ep) (\<lambda>i. expand_down rec ms s ep (Suc i))"

function min_expand :: "matcher \<Rightarrow> bytes \<Rightarrow> bytes \<Rightarrow> match_state \<Rightarrow> nat \<Rightarrow> nat \<Rightarrow> nat \<Rightarrow> match_result" where
  "min_expand rec src pat ms s p ep =
     and_then (rec ms s (ep + 1)) (\<lambda>(res, ms).
       if res \<noteq> None then Inr (res, ms)
       else and_then (singlematch src pat s p ep) (\<lambda>m.
         if m then min_expand rec src pat ms (s + 1) p ep else Inr (None, ms)))"
  by pat_completeness auto

termination
  by (relation "measure (\<lambda>(rec, src, pat, ms, s, p, ep). length src - s)")
     (auto simp: singlematch_def split: if_splits)

declare min_expand.simps [simp del]

section \<open>\<open>match_item\<close>\<close>

text \<open>The body of the loop \<open>'init\<close>: it goes on at other places of the source and the pattern, or
  leaves the loop with a result.\<close>

datatype flow = Init nat nat | Done "nat option"

definition done_with :: "match_result \<Rightarrow> (flow \<times> match_state) presult" where
  "done_with r = and_then r (\<lambda>(res, ms). Inr (Done res, ms))"

definition match_default :: "matcher \<Rightarrow> bytes \<Rightarrow> bytes \<Rightarrow> match_state \<Rightarrow> nat \<Rightarrow> nat \<Rightarrow> (flow \<times> match_state) presult" where
  "match_default rec src pat ms s p =
     and_then (classend pat p) (\<lambda>ep. and_then (singlematch src pat s p ep) (\<lambda>m. and_then (deref pat ep) (\<lambda>q.
       if \<not> m then
         (if q = ch_star \<or> q = ch_quest \<or> q = ch_minus then Inr (Init s (ep + 1), ms)
          else Inr (Done None, ms))
       else if q = ch_quest then
         and_then (rec ms (s + 1) (ep + 1)) (\<lambda>(res, ms).
           if res \<noteq> None then Inr (Done res, ms) else Inr (Init s (ep + 1), ms))
       else if q = ch_plus then done_with (max_expand rec src pat ms (s + 1) p ep)
       else if q = ch_star then done_with (max_expand rec src pat ms s p ep)
       else if q = ch_minus then done_with (min_expand rec src pat ms s p ep)
       else Inr (Init (s + 1) ep, ms))))"

definition match_frontier :: "bytes \<Rightarrow> bytes \<Rightarrow> match_state \<Rightarrow> nat \<Rightarrow> nat \<Rightarrow> (flow \<times> match_state) presult" where
  "match_frontier src pat ms s p =
     and_then (deref pat p) (\<lambda>c.
       if c \<noteq> ch_bracket then Inl MissingSet
       else and_then (classend pat p) (\<lambda>ep.
         and_then (if s = 0 then Inr 0 else deref src (s - 1)) (\<lambda>previous.
         and_then (matchbracketclass pat previous p (ep - 1)) (\<lambda>before.
           if before then Inr (Done None, ms)
           else and_then (deref src s) (\<lambda>c. and_then (matchbracketclass pat c p (ep - 1)) (\<lambda>after.
             if after then Inr (Init s ep, ms) else Inr (Done None, ms)))))))"

definition match_escape :: "matcher \<Rightarrow> bytes \<Rightarrow> bytes \<Rightarrow> match_state \<Rightarrow> nat \<Rightarrow> nat \<Rightarrow> (flow \<times> match_state) presult" where
  "match_escape rec src pat ms s p =
     and_then (deref pat (p + 1)) (\<lambda>c.
       if c = ch_b then
         and_then (matchbalance src pat s (p + 2)) (\<lambda>r.
           case r of Some s' \<Rightarrow> Inr (Init s' (p + 4), ms) | None \<Rightarrow> Inr (Done None, ms))
       else if c = ch_f then match_frontier src pat ms s (p + 2)
       else if is_ascii_digit c then
         and_then (match_capture src ms s c) (\<lambda>r.
           case r of Some s' \<Rightarrow> Inr (Init s' (p + 2), ms) | None \<Rightarrow> Inr (Done None, ms))
       else match_default rec src pat ms s p)"

definition match_step :: "matcher \<Rightarrow> bytes \<Rightarrow> bytes \<Rightarrow> match_state \<Rightarrow> nat \<Rightarrow> nat \<Rightarrow> (flow \<times> match_state) presult" where
  "match_step rec src pat ms s p =
     (if p = length pat then Inr (Done (Some s), ms)
      else and_then (deref pat p) (\<lambda>c.
        if c = ch_open then
          and_then (deref pat (p + 1)) (\<lambda>d.
            if d = ch_close then done_with (start_capture rec ms s (p + 2) CAP_POSITION)
            else done_with (start_capture rec ms s (p + 1) CAP_UNFINISHED))
        else if c = ch_close then done_with (end_capture rec ms s (p + 1))
        else if c = ch_dollar \<and> p + 1 = length pat then
          Inr (Done (if s = length src then Some s else None), ms)
        else if c = L_ESC then match_escape rec src pat ms s p
        else match_default rec src pat ms s p))"

lemma set_end_gt: "set_end pat p = Inr ep \<Longrightarrow> p + 1 < ep"
proof (induction pat p arbitrary: ep rule: set_end.induct)
  case (1 pat p)
  define q where "q c = (if c = L_ESC \<and> p + 1 < length pat then p + 2 else p + 1)" for c
  have q: "p + 1 \<le> q c" for c by (simp add: q_def)
  have "p \<noteq> length pat"
    using "1.prems" by (auto simp: set_end.simps [of pat p])
  moreover from this have "and_then (deref pat p) (\<lambda>c. and_then (deref pat (q c)) (\<lambda>d.
          if d = ch_rbracket then Inr (q c + 1) else set_end pat (q c))) = Inr ep"
    using "1.prems" unfolding set_end.simps [of pat p] q_def [abs_def] Let_def by (simp only: if_False)
  ultimately  obtain c d where c: "p \<noteq> length pat" "deref pat p = Inr c" "deref pat (q c) = Inr d"
      "(if d = ch_rbracket then Inr (q c + 1) else set_end pat (q c)) = Inr ep"
    by (auto simp only: and_then_eq_Inr)
  show ?case
  proof (cases "d = ch_rbracket")
    case True
    then show ?thesis using c(4) q [of c] by simp
  next
    case False
    then show ?thesis
      using "1.IH" [OF c(1,2) q_def [of c] c(3) False, of ep] c(4) q [of c] by simp
  qed
qed

lemma classend_gt: "classend pat p = Inr ep \<Longrightarrow> p < ep"
  by (auto simp: classend_def split: if_splits dest!: set_end_gt)

lemma done_with_Init [simp]: "done_with r \<noteq> Inr (Init s p, ms)"
  by (auto simp: done_with_def)

lemma default_advances: "match_default rec src pat ms s p = Inr (Init s' p', ms') \<Longrightarrow> p < p'"
  unfolding match_default_def by (auto split: if_split_asm dest!: classend_gt)

lemma frontier_advances: "match_frontier src pat ms s p = Inr (Init s' p', ms') \<Longrightarrow> p < p'"
  unfolding match_frontier_def by (auto split: if_split_asm dest!: classend_gt)

lemma option_flow [simp]:
  "and_then r (\<lambda>x. case x of Some s' \<Rightarrow> Inr (Init s' q, ms) | None \<Rightarrow> Inr (Done None, ms)) = Inr (Init s p, ms') \<longleftrightarrow>
     r = Inr (Some s) \<and> p = q \<and> ms' = ms"
  by (auto simp: and_then_def split: sum.split option.split)

lemma escape_advances:
  assumes "match_escape rec src pat ms s p = Inr (Init s' p', ms')"
  shows "p < p'"
proof -
  obtain c where c: "deref pat (p + 1) = Inr c"
    using assms by (auto simp: match_escape_def)
  note step = assms [unfolded match_escape_def c and_then_simps]
  show ?thesis
  proof (cases "c = ch_b \<or> (c \<noteq> ch_f \<and> is_ascii_digit c)")
    case True
    then show ?thesis using step by (auto simp del: and_then_eq_Inr split: if_split_asm)
  next
    case False
    then show ?thesis
      using step default_advances frontier_advances [of src pat ms s "p + 2" s' p' ms']
      by (simp split: if_split_asm)
  qed
qed

lemma step_advances:
  assumes "match_step rec src pat ms s p = Inr (Init s' p', ms')"
  shows "p < p' \<and> p < length pat"
proof -
  have "p < length pat"
    using assms by (auto simp: match_step_def deref_def split: if_split_asm)
  moreover have "p < p'"
    using assms unfolding match_step_def
    by (auto split: if_split_asm dest: default_advances escape_advances)
  ultimately show ?thesis by simp
qed

function match_loop :: "matcher \<Rightarrow> bytes \<Rightarrow> bytes \<Rightarrow> match_state \<Rightarrow> nat \<Rightarrow> nat \<Rightarrow> match_result" where
  "match_loop rec src pat ms s p =
     and_then (match_step rec src pat ms s p) (\<lambda>(fl, ms).
       case fl of Done res \<Rightarrow> Inr (res, ms) | Init s p \<Rightarrow> match_loop rec src pat ms s p)"
  by pat_completeness auto

termination
  by (relation "measure (\<lambda>(rec, src, pat, ms, s, p). length pat - p)") (auto dest!: step_advances)

declare match_loop.simps [simp del]

text \<open>The depth is checked in front of the loop and given back behind it. Every call has a depth
  that is one less than that of its caller, so that one unit of \<open>fuel\<close> more than the depth is
  enough (\<open>match_item_outcome\<close>).\<close>

primrec match_item :: "bytes \<Rightarrow> bytes \<Rightarrow> nat \<Rightarrow> matcher" where
  "match_item src pat 0 = (\<lambda>ms s p. Inl OutOfFuel)"
| "match_item src pat (Suc fuel) = (\<lambda>ms s p.
     if ms_matchdepth ms = 0 then Inl PatternTooComplex
     else and_then (match_loop (match_item src pat fuel) src pat
                      (ms\<lparr>ms_matchdepth := ms_matchdepth ms - 1\<rparr>) s p) (\<lambda>(res, ms).
       Inr (res, ms\<lparr>ms_matchdepth := ms_matchdepth ms + 1\<rparr>)))"

definition prepstate :: match_state where
  "prepstate = \<lparr>ms_matchdepth = LUAI_MAXCCALLS, ms_level = 0,
                ms_capture = replicate 32 \<lparr>cap_init = 0, cap_len = 0\<rparr>\<rparr>"

definition reprepstate :: "match_state \<Rightarrow> match_state presult" where
  "reprepstate ms =
     (if ms_matchdepth ms = LUAI_MAXCCALLS then Inr (ms\<lparr>ms_level := 0\<rparr>) else Inl AssertionFailed)"

end
