(* ===== verification/Lua_Match.thy ===== *)
theory Lua_Match
  imports Lua_Pattern
begin

text \<open>
  What the pattern matcher computes. \<open>results\<close> is the reference: the list of all ways in which the rest
  of a pattern matches, best first, each with the place where the match ends and its captures. It has no
  state to undo, no depth and no pointers. The matcher returns the first of these results,
  restores its captures when there is none, and stays within the memory of both strings.
\<close>

section \<open>Reading a pattern\<close>

definition byte_at :: "bytes \<Rightarrow> nat \<Rightarrow> u8" where
  "byte_at b i = (if i < length b then b ! i else 0)"

datatype quantifier = One | Opt | Star | Plus | Lazy

datatype pitem =
  OpenCapture int | CloseCapture | EndAnchor | Balance u8 u8 | Frontier nat nat | BackRef u8
| Rep quantifier nat nat

definition class_item :: "bytes \<Rightarrow> nat \<Rightarrow> (pitem \<times> nat) option" where
  "class_item pat p = (case classend pat p of
     Inl e \<Rightarrow> None
   | Inr ep \<Rightarrow> let q = byte_at pat ep in
       Some (if q = ch_quest then (Rep Opt p ep, ep + 1)
             else if q = ch_plus then (Rep Plus p ep, ep + 1)
             else if q = ch_star then (Rep Star p ep, ep + 1)
             else if q = ch_minus then (Rep Lazy p ep, ep + 1)
             else (Rep One p ep, ep)))"

definition item_at :: "bytes \<Rightarrow> nat \<Rightarrow> (pitem \<times> nat) option" where
  "item_at pat p =
     (let c = byte_at pat p; d = byte_at pat (p + 1) in
      if c = ch_open then
        (if d = ch_close then Some (OpenCapture CAP_POSITION, p + 2) else Some (OpenCapture CAP_UNFINISHED, p + 1))
      else if c = ch_close then Some (CloseCapture, p + 1)
      else if c = ch_dollar \<and> p + 1 = length pat then Some (EndAnchor, p + 1)
      else if c = L_ESC \<and> d = ch_b then
        (if p + 3 < length pat then Some (Balance (byte_at pat (p + 2)) (byte_at pat (p + 3)), p + 4) else None)
      else if c = L_ESC \<and> d = ch_f then
        (if byte_at pat (p + 2) = ch_bracket then
           case classend pat (p + 2) of Inl e \<Rightarrow> None | Inr ep \<Rightarrow> Some (Frontier (p + 2) ep, ep)
         else None)
      else if c = L_ESC \<and> is_ascii_digit d then Some (BackRef d, p + 2)
      else class_item pat p)"

lemma class_item_gt: "class_item pat p = Some (it, q) \<Longrightarrow> p < q"
  by (auto simp: class_item_def Let_def split: sum.splits if_splits dest!: classend_gt)

lemma item_at_gt: "item_at pat p = Some (it, q) \<Longrightarrow> p < q"
  by (auto simp: item_at_def Let_def split: sum.splits if_splits dest!: classend_gt dest: class_item_gt)

section \<open>What a set means\<close>

text \<open>A set between brackets as the list of its classes, ranges and characters.\<close>

datatype set_item = ClassItem u8 | RangeItem u8 u8 | CharItem u8

function set_items :: "bytes \<Rightarrow> nat \<Rightarrow> nat \<Rightarrow> set_item list" where
  "set_items pat p ec =
     (if p + 1 < ec then
        let x = byte_at pat (p + 1); y = byte_at pat (p + 2) in
        if x = L_ESC then ClassItem y # set_items pat (p + 2) ec
        else if y = ch_minus \<and> p + 3 < ec then RangeItem x (byte_at pat (p + 3)) # set_items pat (p + 3) ec
        else CharItem x # set_items pat (p + 1) ec
      else [])"
  by pat_completeness auto

termination
  by (relation "measure (\<lambda>(pat, p, ec). ec - p)") auto

declare set_items.simps [simp del]

fun item_has :: "u8 \<Rightarrow> set_item \<Rightarrow> bool" where
  "item_has c (ClassItem cl) = match_class c cl"
| "item_has c (RangeItem lo hi) \<longleftrightarrow> lo \<le> c \<and> c \<le> hi"
| "item_has c (CharItem x) \<longleftrightarrow> x = c"

definition in_set :: "bytes \<Rightarrow> nat \<Rightarrow> nat \<Rightarrow> u8 \<Rightarrow> bool" where
  "in_set pat p ep c \<longleftrightarrow>
     (if byte_at pat (p + 1) = ch_caret then \<not> list_ex (item_has c) (set_items pat (p + 1) (ep - 1))
      else list_ex (item_has c) (set_items pat p (ep - 1)))"

section \<open>The reference\<close>

definition single :: "bytes \<Rightarrow> bytes \<Rightarrow> nat \<Rightarrow> nat \<Rightarrow> nat \<Rightarrow> bool" where
  "single src pat p ep s \<longleftrightarrow> s < length src \<and>
     (let c = src ! s; d = byte_at pat p in
      if d = ch_dot then True
      else if d = L_ESC then match_class c (byte_at pat (p + 1))
      else if d = ch_bracket then in_set pat p ep c
      else d = c)"

text \<open>How often an item can stand, and the numbers of repetitions in the order they are tried.\<close>

definition run_length :: "bytes \<Rightarrow> bytes \<Rightarrow> nat \<Rightarrow> nat \<Rightarrow> nat \<Rightarrow> nat" where
  "run_length src pat p ep s = length (takeWhile (single src pat p ep) [s..<length src])"

fun choices :: "quantifier \<Rightarrow> nat \<Rightarrow> nat list" where
  "choices One n = (if n = 0 then [] else [1])"
| "choices Opt n = (if n = 0 then [0] else [1, 0])"
| "choices Star n = rev [0..<Suc n]"
| "choices Plus n = rev [1..<Suc n]"
| "choices Lazy n = [0..<Suc n]"

text \<open>The text between the bracket \<open>b\<close> at \<open>s\<close> and the first place where as many \<open>e\<close> as \<open>b\<close> were read.\<close>

definition brackets_close :: "u8 \<Rightarrow> u8 \<Rightarrow> u8 list \<Rightarrow> bool" where
  "brackets_close b e xs \<longleftrightarrow> count_list xs e = Suc (if b = e then 0 else count_list xs b)"

definition balance_end :: "bytes \<Rightarrow> u8 \<Rightarrow> u8 \<Rightarrow> nat \<Rightarrow> nat option" where
  "balance_end src b e s =
     (if s < length src \<and> src ! s = b
      then find (\<lambda>j. brackets_close b e (take (j - Suc s) (drop (Suc s) src))) [Suc s..<Suc (length src)]
      else None)"

text \<open>The innermost open capture.\<close>

definition innermost :: "capture list \<Rightarrow> nat option" where
  "innermost caps = find (\<lambda>l. cap_len (caps ! l) = CAP_UNFINISHED) (rev [0..<length caps])"

definition back_ref :: "bytes \<Rightarrow> capture list \<Rightarrow> nat \<Rightarrow> u8 \<Rightarrow> nat option" where
  "back_ref src caps s ch =
     (let l = unat ch - 49; c = caps ! l; n = nat (cap_len c) in
      if 49 \<le> unat ch \<and> l < length caps \<and> 0 \<le> cap_len c \<and> s + n \<le> length src \<and>
         take n (drop (cap_init c) src) = take n (drop s src)
      then Some (s + n) else None)"

function results :: "bytes \<Rightarrow> bytes \<Rightarrow> capture list \<Rightarrow> nat \<Rightarrow> nat \<Rightarrow> (nat \<times> capture list) list" where
  "results src pat caps s p =
     (if p \<ge> length pat then [(s, caps)]
      else case item_at pat p of
        None \<Rightarrow> []
      | Some (it, q) \<Rightarrow> (case it of
          OpenCapture what \<Rightarrow>
            if length caps < LUA_MAXCAPTURES then results src pat (caps @ [\<lparr>cap_init = s, cap_len = what\<rparr>]) s q else []
        | CloseCapture \<Rightarrow> (case innermost caps of
            None \<Rightarrow> []
          | Some l \<Rightarrow> let c = caps ! l in
              results src pat (caps[l := c\<lparr>cap_len := int s - int (cap_init c)\<rparr>]) s q)
        | EndAnchor \<Rightarrow> if s = length src then [(s, caps)] else []
        | Balance b e \<Rightarrow> (case balance_end src b e s of None \<Rightarrow> [] | Some s' \<Rightarrow> results src pat caps s' q)
        | Frontier l r \<Rightarrow>
            if \<not> in_set pat l r (if s = 0 then 0 else byte_at src (s - 1)) \<and> in_set pat l r (byte_at src s)
            then results src pat caps s q else []
        | BackRef ch \<Rightarrow> (case back_ref src caps s ch of None \<Rightarrow> [] | Some s' \<Rightarrow> results src pat caps s' q)
        | Rep k l r \<Rightarrow> concat (map (\<lambda>i. results src pat caps (s + i) q) (choices k (run_length src pat l r s)))))"
  by pat_completeness auto

termination
  by (relation "measure (\<lambda>(src, pat, caps, s, p). length pat - p)") (auto dest: item_at_gt)

declare results.simps [simp del]

lemma results_end: "length pat \<le> p \<Longrightarrow> results src pat caps s p = [(s, caps)]"
  by (simp add: results.simps)

lemma results_item:
  "p < length pat \<Longrightarrow> item_at pat p = Some (it, q) \<Longrightarrow>
   results src pat caps s p = (case it of
          OpenCapture what \<Rightarrow>
            if length caps < LUA_MAXCAPTURES then results src pat (caps @ [\<lparr>cap_init = s, cap_len = what\<rparr>]) s q else []
        | CloseCapture \<Rightarrow> (case innermost caps of
            None \<Rightarrow> []
          | Some l \<Rightarrow> let c = caps ! l in
              results src pat (caps[l := c\<lparr>cap_len := int s - int (cap_init c)\<rparr>]) s q)
        | EndAnchor \<Rightarrow> if s = length src then [(s, caps)] else []
        | Balance b e \<Rightarrow> (case balance_end src b e s of None \<Rightarrow> [] | Some s' \<Rightarrow> results src pat caps s' q)
        | Frontier l r \<Rightarrow>
            if \<not> in_set pat l r (if s = 0 then 0 else byte_at src (s - 1)) \<and> in_set pat l r (byte_at src s)
            then results src pat caps s q else []
        | BackRef ch \<Rightarrow> (case back_ref src caps s ch of None \<Rightarrow> [] | Some s' \<Rightarrow> results src pat caps s' q)
        | Rep k l r \<Rightarrow> concat (map (\<lambda>i. results src pat caps (s + i) q) (choices k (run_length src pat l r s))))"
  by (simp add: results.simps [of src pat caps s p])

section \<open>The functions that read\<close>

lemma deref_ok [simp]: "i \<le> length b \<Longrightarrow> deref b i = Inr (byte_at b i)"
  by (auto simp: deref_def byte_at_def)

lemma byte_at_end: "byte_at b i \<noteq> 0 \<Longrightarrow> i < length b"
  by (simp add: byte_at_def split: if_splits)

lemma set_end_outcome:
  "p \<le> length pat \<Longrightarrow> set_end pat p = Inl MissingBracket \<or> (\<exists>ep. set_end pat p = Inr ep \<and> ep \<le> length pat)"
proof (induction pat p rule: set_end.induct)
  case (1 pat p)
  define q where "q = (if byte_at pat p = L_ESC \<and> p + 1 < length pat then p + 2 else p + 1)"
  show ?case
  proof (cases "p = length pat")
    case True
    then have "set_end pat p = Inl MissingBracket" by (subst set_end.simps) simp
    then show ?thesis ..
  next
    case False
    with "1.prems" have p: "p < length pat" by simp
    then have q: "q \<le> length pat" by (simp add: q_def)
    have eq: "set_end pat p = (if byte_at pat q = ch_rbracket then Inr (q + 1) else set_end pat q)"
      using p q by (simp add: set_end.simps [of pat p] q_def Let_def)
    show ?thesis
    proof (cases "byte_at pat q = ch_rbracket")
      case True
      then have "q < length pat" by (simp add: byte_at_end)
      then show ?thesis using eq True by simp
    next
      case False
      then show ?thesis
        using eq "1.IH" [OF less_imp_neq [OF p] deref_ok q_def deref_ok [OF q] False q] p by simp
    qed
  qed
qed

lemma classend_outcome:
  assumes "p < length pat"
  shows "classend pat p \<in> {Inl EndsWithEscape, Inl MissingBracket} \<or> (\<exists>ep. classend pat p = Inr ep \<and> p < ep \<and> ep \<le> length pat)"
proof (cases "byte_at pat p = ch_bracket")
  case True
  define q where "q = (if byte_at pat (p + 1) = ch_caret then p + 2 else p + 1)"
  have "p + 2 \<le> length pat" if "byte_at pat (p + 1) = ch_caret"
    using that byte_at_end [of pat "p + 1"] by simp
  then have q: "q \<le> length pat" "p < q" using assms by (auto simp: q_def)
  have "classend pat p = set_end pat q"
    using True assms by (simp add: classend_def q_def L_ESC_def)
  then show ?thesis using set_end_outcome [OF q(1)] set_end_gt [of pat q] q(2) by fastforce
qed (use assms in \<open>auto simp: classend_def\<close>)

lemma bracket_loop_eq:
  "ec \<le> length pat \<Longrightarrow> bracket_loop pat c sig p ec = Inr (list_ex (item_has c) (set_items pat p ec) = sig)"
proof (induction pat p ec rule: set_items.induct)
  case (1 pat p ec)
  show ?case
  proof (cases "p + 1 < ec")
    case True
    define x y where "x = byte_at pat (p + 1)" and "y = byte_at pat (p + 2)"
    have d: "deref pat (p + 1) = Inr x" "deref pat (p + 2) = Inr y"
      using True "1.prems" by (simp_all add: x_def y_def)
    note IH = "1.IH"(1) [OF True x_def y_def _ "1.prems"] "1.IH"(2,3) [OF True x_def y_def _ _ "1.prems"]
    consider "x = L_ESC" | "x \<noteq> L_ESC" "y = ch_minus \<and> p + 3 < ec" | "x \<noteq> L_ESC" "\<not> (y = ch_minus \<and> p + 3 < ec)"
      by blast
    then show ?thesis
    proof cases
      case 1
      have "set_items pat p ec = ClassItem y # set_items pat (p + 2) ec"
        using True 1 by (subst set_items.simps) (simp add: x_def y_def)
      moreover have "bracket_loop pat c sig p ec =
          (if match_class c y then Inr sig else bracket_loop pat c sig (p + 2) ec)"
        using True 1 d by (subst bracket_loop.simps) simp
      ultimately show ?thesis using IH(1) [OF 1] by auto
    next
      case 2
      have "set_items pat p ec = RangeItem x (byte_at pat (p + 3)) # set_items pat (p + 3) ec"
        using True 2 by (subst set_items.simps) (simp add: x_def y_def)
      moreover have "bracket_loop pat c sig p ec =
          (if x \<le> c \<and> c \<le> byte_at pat (p + 3) then Inr sig else bracket_loop pat c sig (p + 3) ec)"
        using True 2 d "1.prems" by (subst bracket_loop.simps) simp
      ultimately show ?thesis using IH(2) [OF 2] by auto
    next
      case 3
      have "set_items pat p ec = CharItem x # set_items pat (p + 1) ec"
        using True 3 by (subst set_items.simps) (auto simp: x_def y_def)
      moreover have "bracket_loop pat c sig p ec = (if x = c then Inr sig else bracket_loop pat c sig (p + 1) ec)"
        using True 3 d by (subst bracket_loop.simps) auto
      ultimately show ?thesis using IH(3) [OF 3] by auto
    qed
  qed (simp add: bracket_loop.simps set_items.simps)
qed

lemma matchbracketclass_eq:
  "p < length pat \<Longrightarrow> ep \<le> length pat \<Longrightarrow> matchbracketclass pat c p (ep - 1) = Inr (in_set pat p ep c)"
  by (simp add: matchbracketclass_def bracket_loop_eq in_set_def)

lemma singlematch_total:
  "p < length pat \<Longrightarrow> ep \<le> length pat \<Longrightarrow> singlematch src pat s p ep = Inr (single src pat p ep s)"
  using matchbracketclass_eq [of p pat ep "byte_at src s"]
  by (auto simp: singlematch_def single_def byte_at_def [of src])

text \<open>The class of white space lacks the vertical tab (11), which \<open>isspace\<close> of C and the lexer count to it.\<close>

lemma space_class_lacks_vertical_tab:
  "\<not> match_class 11 115 \<and> match_class 11 83 \<and>
   (\<forall>c \<in> {9, 10, 12, 13, 32}. match_class c 115)"
  by code_simp

end
