(* ===== verification/Lua_Matcher.thy ===== *)
theory Lua_Matcher
  imports Lua_Match
begin

text \<open>
  The matcher computes the reference. The contract of \<open>match_item\<close> is the locale \<open>match_contract\<close>: whatever
  it returns is the first result of the reference, and a failure leaves the captures as they were. The
  functions that call it back keep the contract for it, and so \<open>match_item\<close> itself has it at every depth.
\<close>

section \<open>States\<close>

definition caps_of :: "match_state \<Rightarrow> capture list" where
  "caps_of ms = take (ms_level ms) (ms_capture ms)"

definition cap_ok :: "bytes \<Rightarrow> nat \<Rightarrow> capture \<Rightarrow> bool" where
  "cap_ok src s c \<longleftrightarrow> cap_init c \<le> s \<and>
     (cap_len c = CAP_UNFINISHED \<or> cap_len c = CAP_POSITION \<or>
      0 \<le> cap_len c \<and> int (cap_init c) + cap_len c \<le> int (length src))"

definition state_ok :: "bytes \<Rightarrow> nat \<Rightarrow> match_state \<Rightarrow> bool" where
  "state_ok src s ms \<longleftrightarrow> length (ms_capture ms) = 32 \<and> ms_level ms \<le> 32 \<and>
     (\<forall>c \<in> set (caps_of ms). cap_ok src s c) \<and> s \<le> length src \<and> length src < 2 ^ 63"

definition restored :: "match_state \<Rightarrow> match_state \<Rightarrow> bool" where
  "restored ms ms' \<longleftrightarrow> ms_matchdepth ms' = ms_matchdepth ms \<and> ms_level ms' = ms_level ms \<and>
     caps_of ms' = caps_of ms \<and> length (ms_capture ms') = length (ms_capture ms)"

lemma restored_refl [simp]: "restored ms ms"
  by (simp add: restored_def)

lemma restored_trans: "restored a b \<Longrightarrow> restored b c \<Longrightarrow> restored a c"
  by (simp add: restored_def)

lemma restored_ok: "restored ms ms' \<Longrightarrow> state_ok src s ms' = state_ok src s ms"
  by (simp add: restored_def state_ok_def)

lemma restored_caps: "restored ms ms' \<Longrightarrow> caps_of ms' = caps_of ms"
  by (simp add: restored_def)

lemma restored_depth: "restored ms ms' \<Longrightarrow> ms_matchdepth ms' = ms_matchdepth ms"
  by (simp add: restored_def)

lemma cap_ok_mono: "cap_ok src s c \<Longrightarrow> s \<le> t \<Longrightarrow> cap_ok src t c"
  by (auto simp: cap_ok_def)

lemma state_ok_mono: "state_ok src s ms \<Longrightarrow> s \<le> t \<Longrightarrow> t \<le> length src \<Longrightarrow> state_ok src t ms"
  by (auto simp: state_ok_def intro: cap_ok_mono)

lemma length_caps: "state_ok src s ms \<Longrightarrow> length (caps_of ms) = ms_level ms"
  by (simp add: state_ok_def caps_of_def)

lemma caps_nth: "l < ms_level ms \<Longrightarrow> caps_of ms ! l = ms_capture ms ! l"
  by (simp add: caps_of_def)

section \<open>The functions that look at captures and repetitions\<close>

lemma find_upt_Suc: "find P [s..<Suc n] = (if s \<le> n then (if P s then Some s else find P [Suc s..<Suc n]) else None)"
  by (simp add: upt_rec [of s "Suc n"] del: upt_Suc)

lemma find_in: "find P xs = Some x \<Longrightarrow> x \<in> set xs \<and> P x"
  by (induction xs) (auto split: if_splits)

lemma single_less: "single src pat p ep s \<Longrightarrow> s < length src"
  by (simp add: single_def)

lemma run_length_rec:
  "run_length src pat p ep s = (if single src pat p ep s then Suc (run_length src pat p ep (s + 1)) else 0)"
  using single_less [of src pat p ep s] by (cases "s < length src") (auto simp: run_length_def upt_conv_Cons)

lemma run_length_le: "s \<le> length src \<Longrightarrow> s + run_length src pat p ep s \<le> length src"
  using length_takeWhile_le [of "single src pat p ep" "[s..<length src]"] by (simp add: run_length_def)

lemma count_max_eq:
  "p < length pat \<Longrightarrow> ep \<le> length pat \<Longrightarrow>
   count_max src pat s i p ep = Inr (i + run_length src pat p ep (s + i))"
proof (induction src pat s i p ep rule: count_max.induct)
  case (1 src pat s i p ep)
  note total = singlematch_total [OF 1(2,3), of src "s + i"]
  show ?case
    using 1(1) [OF total] 1(2,3)
    by (subst count_max.simps, subst total, subst run_length_rec) simp
qed

lemma balance_loop_eq:
  "s \<le> length src \<Longrightarrow> 0 < n \<Longrightarrow>
   balance_loop src b e (int n) s =
     Inr (find (\<lambda>j. count_list (take (j - s) (drop s src)) e =
                    n + (if b = e then 0 else count_list (take (j - s) (drop s src)) b)) [s..<Suc (length src)])"
proof (induction "length src - s" arbitrary: s n)
  case 0
  then show ?case by (simp add: balance_loop.simps)
next
  case (Suc m)
  then have s: "s < length src" and m: "m = length src - (s + 1)" by simp_all
  have take: "take (j - s) (drop s src) = src ! s # take (j - (s + 1)) (drop (s + 1) src)" if "s < j" for j
    using that s by (metis Cons_nth_drop_Suc Suc_diff_Suc Suc_eq_plus1 take_Suc_Cons)
  let ?P = "\<lambda>s n j. count_list (take (j - s) (drop s src)) e =
                    n + (if b = e then 0 else count_list (take (j - s) (drop s src)) b)"
  have tail: "find (?P s n) [s..<Suc (length src)] = find (?P s n) [s + 1..<Suc (length src)]"
    using s Suc.prems(2) by (simp add: find_upt_Suc [of _ s] del: upt_Suc)
  have cong: "find (?P s n) [s + 1..<Suc (length src)] = find (?P (s + 1) k) [s + 1..<Suc (length src)]"
    if "\<And>j. s < j \<Longrightarrow> ?P s n j = ?P (s + 1) k j" for k
    by (rule find_cong [OF refl], rule that) (auto simp del: upt_Suc)
  have d: "deref src s = Inr (src ! s)" using s by (simp add: byte_at_def)
  consider "src ! s = e" "n = 1" | "src ! s = e" "1 < n" | "src ! s \<noteq> e" "src ! s = b" | "src ! s \<noteq> e" "src ! s \<noteq> b"
    using Suc.prems(2) by linarith
  then show ?case
  proof cases
    case 1
    then have "?P s n (s + 1)" using take [of "s + 1"] by simp
    then show ?thesis
      using 1 s tail by (simp add: balance_loop.simps [of src b e _ s] d find_upt_Suc [of _ "Suc s"] del: upt_Suc deref_ok)
  next
    case 2
    have "find (?P s n) [s + 1..<Suc (length src)] = find (?P (s + 1) (n - 1)) [s + 1..<Suc (length src)]"
      by (rule cong) (use 2 take in auto)
    then show ?thesis
      using 2 s tail Suc.hyps(1) [OF m, of "n - 1"]
      by (simp add: balance_loop.simps [of src b e _ s] d of_nat_diff del: upt_Suc deref_ok)
  next
    case 3
    have "find (?P s n) [s + 1..<Suc (length src)] = find (?P (s + 1) (n + 1)) [s + 1..<Suc (length src)]"
      by (rule cong) (use 3 take in auto)
    then show ?thesis
      using 3 s tail Suc.hyps(1) [OF m, of "n + 1"]
      by (simp add: balance_loop.simps [of src b e _ s] d add.commute del: upt_Suc deref_ok)
  next
    case 4
    have "find (?P s n) [s + 1..<Suc (length src)] = find (?P (s + 1) n) [s + 1..<Suc (length src)]"
      by (rule cong) (use 4 take in auto)
    then show ?thesis
      using 4 s tail Suc.hyps(1) [OF m, of n] Suc.prems
      by (simp add: balance_loop.simps [of src b e _ s] d del: upt_Suc deref_ok)
  qed
qed

lemma matchbalance_eq:
  assumes "s \<le> length src" "p + 1 < length pat"
  shows "matchbalance src pat s p = Inr (balance_end src (byte_at pat p) (byte_at pat (p + 1)) s)"
proof (cases "s < length src")
  case True
  then show ?thesis
    using assms balance_loop_eq [of "s + 1" src 1 "byte_at pat p" "byte_at pat (p + 1)"]
    by (simp add: matchbalance_def balance_end_def brackets_close_def byte_at_def [of src] del: upt_Suc)
next
  case False
  then show ?thesis
    using assms by (simp add: matchbalance_def balance_end_def balance_loop.simps)
qed

lemma balance_end_less: "balance_end src b e s = Some t \<Longrightarrow> s < t \<and> t \<le> length src"
  by (auto simp: balance_end_def simp del: upt_Suc split: if_splits dest!: find_in)

lemma close_loop_eq:
  "n \<le> length (ms_capture ms) \<Longrightarrow>
   close_loop ms n = (case find (\<lambda>l. cap_len (ms_capture ms ! l) = CAP_UNFINISHED) (rev [0..<n]) of
     None \<Rightarrow> Inl InvalidPatternCapture | Some l \<Rightarrow> Inr l)"
  by (induction n) (simp_all add: get_capture_def)

lemma capture_to_close_eq:
  assumes "state_ok src s ms"
  shows "capture_to_close ms = (case innermost (caps_of ms) of None \<Rightarrow> Inl InvalidPatternCapture | Some l \<Rightarrow> Inr l)"
proof -
  have "find (\<lambda>l. cap_len (ms_capture ms ! l) = CAP_UNFINISHED) (rev [0..<ms_level ms]) = innermost (caps_of ms)"
    unfolding innermost_def length_caps [OF assms] by (rule find_cong) (auto simp: caps_nth)
  then show ?thesis
    using assms close_loop_eq [of "ms_level ms" ms] by (simp add: capture_to_close_def state_ok_def)
qed

lemma innermost_Some:
  "innermost caps = Some l \<Longrightarrow> l < length caps \<and> cap_len (caps ! l) = CAP_UNFINISHED"
  unfolding innermost_def by (drule find_in) simp

lemma usize_of_nonneg: "0 \<le> x \<Longrightarrow> x < 2 ^ 63 \<Longrightarrow> usize_of x = nat x"
  by (simp add: usize_of_def)

lemma usize_of_position: "n < 2 ^ 63 \<Longrightarrow> \<not> usize_of CAP_POSITION \<le> n"
  by (simp add: usize_of_def CAP_POSITION_def)

lemma check_capture_eq:
  assumes "state_ok src s ms" and l_def: "l = unat ch - 49"
  shows "check_capture ms ch =
    (if 49 \<le> unat ch \<and> l < ms_level ms \<and> cap_len (caps_of ms ! l) \<noteq> CAP_UNFINISHED then Inr l
     else Inl (InvalidCaptureIndex (uint ch - 48)))"
proof (cases "49 \<le> unat ch \<and> l < ms_level ms")
  case True
  then have l: "nat (uint ch - 49) = l" "\<not> uint ch - 49 < 0" "\<not> int (ms_level ms) \<le> uint ch - 49"
    using uint_nat [of ch] unfolding l_def by linarith+
  have "l < length (ms_capture ms)" using True assms(1) by (simp add: state_ok_def)
  then have "get_capture ms l = Inr (caps_of ms ! l)" using True by (simp add: get_capture_def caps_nth)
  then show ?thesis using True l by (simp add: check_capture_def)
next
  case False
  then have "uint ch - 49 < 0 \<or> int (ms_level ms) \<le> uint ch - 49"
    using uint_nat [of ch] unfolding l_def by linarith
  then have "check_capture ms ch = Inl (InvalidCaptureIndex (uint ch - 48))"
    by (simp add: check_capture_def)
  with False show ?thesis by auto
qed

lemma match_capture_eq:
  assumes "state_ok src s ms"
  shows "match_capture src ms s ch = Inl (InvalidCaptureIndex (uint ch - 48)) \<or>
         match_capture src ms s ch = Inr (back_ref src (caps_of ms) s ch)"
proof -
  define l where "l = unat ch - 49"
  define c where "c = caps_of ms ! l"
  show ?thesis
  proof (cases "49 \<le> unat ch \<and> l < ms_level ms \<and> cap_len c \<noteq> CAP_UNFINISHED")
    case False
    then have "check_capture ms ch = Inl (InvalidCaptureIndex (uint ch - 48))"
      unfolding check_capture_eq [OF assms l_def] c_def [symmetric] by (rule if_not_P)
    then show ?thesis by (simp add: match_capture_def)
  next
    case True
    then have in_caps: "c \<in> set (caps_of ms)" using assms by (simp add: c_def length_caps)
    have ok: "cap_ok src s c" "length src < 2 ^ 63" "s \<le> length src" "l < length (ms_capture ms)"
      using in_caps assms True by (auto simp: state_ok_def)
    have "check_capture ms ch = Inr l"
      using True unfolding check_capture_eq [OF assms l_def] c_def [symmetric] by (rule if_P)
    moreover have "get_capture ms l = Inr c"
      using True ok(4) by (simp add: get_capture_def caps_nth c_def)
    ultimately have eq: "match_capture src ms s ch =
        (let len = usize_of (cap_len c) in
         if length src - s \<ge> len then
           and_then (raw_slice src (cap_init c) len) (\<lambda>x. and_then (raw_slice src s len) (\<lambda>y.
             Inr (if x = y then Some (s + len) else None)))
         else Inr None)"
      by (simp only: match_capture_def and_then_simps)
    have ref: "back_ref src (caps_of ms) s ch =
        (if 0 \<le> cap_len c \<and> s + nat (cap_len c) \<le> length src \<and>
            take (nat (cap_len c)) (drop (cap_init c) src) = take (nat (cap_len c)) (drop s src)
         then Some (s + nat (cap_len c)) else None)"
      using True length_caps [OF assms] by (simp add: back_ref_def Let_def flip: l_def c_def)
    show ?thesis
    proof (cases "cap_len c = CAP_POSITION")
      case True
      then show ?thesis
        using eq ref usize_of_position [of "length src - s"] ok(2) by (simp add: CAP_POSITION_def)
    next
      case False
      then have len: "0 \<le> cap_len c" "int (cap_init c) + cap_len c \<le> int (length src)"
        using ok(1) True by (auto simp: cap_ok_def)
      then have "usize_of (cap_len c) = nat (cap_len c)" using ok(2) by (intro usize_of_nonneg) simp_all
      then show ?thesis
        using eq ref len ok(3) by (simp add: raw_slice_def Let_def) linarith
    qed
  qed
qed

lemma back_ref_le: "back_ref src caps s ch = Some t \<Longrightarrow> s \<le> t \<and> t \<le> length src"
  by (auto simp: back_ref_def Let_def split: if_splits)

section \<open>The contract\<close>

definition outcome ::
  "bytes \<Rightarrow> match_state \<Rightarrow> nat \<Rightarrow> nat \<Rightarrow> (nat \<times> capture list) list \<Rightarrow> match_result \<Rightarrow> bool" where
  "outcome src ms s bound rs r = (case r of
     Inl e \<Rightarrow> e \<noteq> Fault \<and> e \<noteq> OutOfFuel \<and> e \<noteq> AssertionFailed \<and> (e = PatternTooComplex \<longrightarrow> ms_matchdepth ms < bound)
   | Inr (res, ms') \<Rightarrow> (case res of
       None \<Rightarrow> restored ms ms' \<and> rs = []
     | Some e \<Rightarrow> ms_matchdepth ms' = ms_matchdepth ms \<and> state_ok src e ms' \<and> s \<le> e \<and>
         (\<exists>rest. rs = (e, caps_of ms') # rest)))"

lemma outcome_mono:
  "outcome src ms t b rs r \<Longrightarrow> s \<le> t \<Longrightarrow> b \<le> b' \<Longrightarrow> outcome src ms s b' rs r"
  by (auto simp: outcome_def split: sum.splits option.splits)

lemma outcome_restored:
  "restored ms ms' \<Longrightarrow> outcome src ms' s b rs r \<Longrightarrow> outcome src ms s b rs r"
  by (auto simp: outcome_def restored_def split: sum.splits option.splits)

lemma outcome_append:
  assumes "outcome src ms s b rs r"
    and "\<And>ms'. restored ms ms' \<Longrightarrow> outcome src ms' s b rs' (f ms')"
  shows "outcome src ms s b (rs @ rs') (and_then r (\<lambda>(res, ms). if res \<noteq> None then Inr (res, ms) else f ms))"
proof (cases r)
  case (Inl e)
  then show ?thesis using assms(1) by (simp add: outcome_def)
next
  case (Inr x)
  obtain res ms' where x: "x = (res, ms')" by (cases x)
  show ?thesis
  proof (cases res)
    case None
    then have "restored ms ms'" "rs = []" using assms(1) Inr x by (simp_all add: outcome_def)
    then show ?thesis using assms(2) [of ms'] outcome_restored Inr x None by simp
  next
    case (Some e)
    then show ?thesis using assms(1) Inr x by (auto simp: outcome_def)
  qed
qed

text \<open>The body of the loop either finishes with an outcome or goes on where the same results are found.\<close>

definition step_ok ::
  "bytes \<Rightarrow> bytes \<Rightarrow> match_state \<Rightarrow> nat \<Rightarrow> nat \<Rightarrow> (flow \<times> match_state) presult \<Rightarrow> bool" where
  "step_ok src pat ms s p r = (case r of
     Inl e \<Rightarrow> outcome src ms s (length pat - p) (results src pat (caps_of ms) s p) (Inl e)
   | Inr (fl, ms') \<Rightarrow> (case fl of
       Done res \<Rightarrow> outcome src ms s (length pat - p) (results src pat (caps_of ms) s p) (Inr (res, ms'))
     | Init s' p' \<Rightarrow> restored ms ms' \<and> s \<le> s' \<and> s' \<le> length src \<and> p < p' \<and> p' \<le> length pat \<and>
         results src pat (caps_of ms) s p = results src pat (caps_of ms) s' p'))"

lemma step_ok_done:
  "outcome src ms s b (results src pat (caps_of ms) s p) r \<Longrightarrow> b \<le> length pat - p \<Longrightarrow>
   step_ok src pat ms s p (done_with r)"
  by (drule outcome_mono [OF _ order_refl]) (auto simp: step_ok_def done_with_def and_then_def split: sum.splits)

lemma step_ok_none: "results src pat (caps_of ms) s p = [] \<Longrightarrow> step_ok src pat ms s p (Inr (Done None, ms))"
  by (simp add: step_ok_def outcome_def)

lemma step_ok_error:
  "e \<notin> {Fault, OutOfFuel, AssertionFailed, PatternTooComplex} \<Longrightarrow> step_ok src pat ms s p (Inl e)"
  by (simp add: step_ok_def outcome_def)

lemma step_ok_init:
  "s \<le> s' \<Longrightarrow> s' \<le> length src \<Longrightarrow> p < p' \<Longrightarrow> p' \<le> length pat \<Longrightarrow>
   results src pat (caps_of ms) s p = results src pat (caps_of ms) s' p' \<Longrightarrow>
   step_ok src pat ms s p (Inr (Init s' p', ms))"
  by (simp add: step_ok_def)

text \<open>An optional item: with it first, and without it when that fails.\<close>

lemma step_ok_optional:
  assumes first: "outcome src ms t (length pat - p) rs r" and "s \<le> t"
    and rs: "results src pat (caps_of ms) s p = rs @ results src pat (caps_of ms) s q"
    and q: "p < q" "q \<le> length pat" "s \<le> length src"
  shows "step_ok src pat ms s p
    (and_then r (\<lambda>(res, ms). if res \<noteq> None then Inr (Done res, ms) else Inr (Init s q, ms)))"
proof (cases r)
  case (Inl e)
  then show ?thesis using first rs by (simp add: step_ok_def outcome_def)
next
  case (Inr x)
  obtain res ms2 where x: "x = (res, ms2)" by (cases x)
  show ?thesis
  proof (cases res)
    case None
    then have "restored ms ms2" "rs = []" using first Inr x by (simp_all add: outcome_def)
    then show ?thesis using Inr x None rs q by (simp add: step_ok_def)
  next
    case (Some e)
    then show ?thesis using first \<open>s \<le> t\<close> rs Inr x by (auto simp: step_ok_def outcome_def)
  qed
qed

locale match_contract =
  fixes src :: bytes and pat :: bytes and rec :: matcher and fuel :: nat
  assumes rec_ok: "state_ok src s ms \<Longrightarrow> p \<le> length pat \<Longrightarrow> ms_matchdepth ms < fuel \<Longrightarrow>
    outcome src ms s (Suc (length pat - p)) (results src pat (caps_of ms) s p) (rec ms s p)"
begin

lemma expand_down_ok:
  "state_ok src s ms \<Longrightarrow> ep < length pat \<Longrightarrow> ms_matchdepth ms < fuel \<Longrightarrow> s + i \<le> Suc (length src) \<Longrightarrow>
   outcome src ms s (length pat - ep) (concat (map (\<lambda>j. results src pat (caps_of ms) (s + j) (ep + 1)) (rev [0..<i])))
     (expand_down rec ms s ep i)"
proof (induction i arbitrary: ms)
  case 0
  then show ?case by (simp add: outcome_def)
next
  case (Suc i)
  have "outcome src ms (s + i) (length pat - ep) (results src pat (caps_of ms) (s + i) (ep + 1)) (rec ms (s + i) (ep + 1))"
    using rec_ok [of "s + i" ms "ep + 1"] state_ok_mono [OF Suc.prems(1), of "s + i"] Suc.prems
    by (simp add: Suc_diff_Suc)
  then have first: "outcome src ms s (length pat - ep) (results src pat (caps_of ms) (s + i) (ep + 1)) (rec ms (s + i) (ep + 1))"
    by (rule outcome_mono) simp_all
  have "outcome src ms' s (length pat - ep)
      (concat (map (\<lambda>j. results src pat (caps_of ms) (s + j) (ep + 1)) (rev [0..<i]))) (expand_down rec ms' s ep i)"
    if "restored ms ms'" for ms'
    using Suc.IH [of ms'] Suc.prems that by (simp add: restored_ok restored_caps restored_depth)
  from outcome_append [OF first this] show ?case by simp
qed

lemma max_expand_ok:
  assumes "state_ok src s ms" "p < length pat" "ep < length pat" "ms_matchdepth ms < fuel"
  shows "outcome src ms s (length pat - ep)
    (concat (map (\<lambda>j. results src pat (caps_of ms) (s + j) (ep + 1)) (rev [0..<Suc (run_length src pat p ep s)])))
    (max_expand rec src pat ms s p ep)"
  using assms expand_down_ok [OF assms(1,3,4), of "Suc (run_length src pat p ep s)"]
    run_length_le [of s src pat p ep] count_max_eq [of p pat ep src s 0]
  by (simp add: max_expand_def state_ok_def del: upt_Suc expand_down.simps)

lemma min_expand_ok:
  "state_ok src s ms \<Longrightarrow> p < length pat \<Longrightarrow> ep < length pat \<Longrightarrow> ms_matchdepth ms < fuel \<Longrightarrow>
   outcome src ms s (length pat - ep)
    (concat (map (\<lambda>j. results src pat (caps_of ms) (s + j) (ep + 1)) [0..<Suc (run_length src pat p ep s)]))
    (min_expand rec src pat ms s p ep)"
proof (induction "length src - s" arbitrary: s ms rule: less_induct)
  case less
  let ?n = "run_length src pat p ep s"
  have first: "outcome src ms s (length pat - ep) (results src pat (caps_of ms) s (ep + 1)) (rec ms s (ep + 1))"
    using rec_ok [of s ms "ep + 1"] less.prems by (simp add: Suc_diff_Suc)
  have rest: "outcome src ms' s (length pat - ep)
      (concat (map (\<lambda>j. results src pat (caps_of ms) (s + j) (ep + 1)) [1..<Suc ?n]))
      (and_then (singlematch src pat s p ep) (\<lambda>m.
         if m then min_expand rec src pat ms' (s + 1) p ep else Inr (None, ms')))"
    if "restored ms ms'" for ms'
  proof (cases "single src pat p ep s")
    case True
    then have s: "s < length src" by (rule single_less)
    have n: "?n = Suc (run_length src pat p ep (s + 1))"
      using True by (subst run_length_rec) simp
    have "state_ok src (s + 1) ms'"
      using state_ok_mono [of src s ms' "s + 1"] less.prems(1) s that by (simp add: restored_ok)
    then have "outcome src ms' (s + 1) (length pat - ep)
      (concat (map (\<lambda>j. results src pat (caps_of ms) (s + 1 + j) (ep + 1)) [0..<Suc (run_length src pat p ep (s + 1))]))
      (min_expand rec src pat ms' (s + 1) p ep)"
      using less.hyps [of "s + 1" ms'] s less.prems that
      by (simp add: restored_caps restored_depth del: upt_Suc)
    then have "outcome src ms' s (length pat - ep)
      (concat (map (\<lambda>j. results src pat (caps_of ms) (s + 1 + j) (ep + 1)) [0..<?n]))
      (min_expand rec src pat ms' (s + 1) p ep)"
      unfolding n by (rule outcome_mono) simp_all
    moreover have "map (\<lambda>j. results src pat (caps_of ms) (s + 1 + j) (ep + 1)) [0..<?n] =
        map (\<lambda>j. results src pat (caps_of ms) (s + j) (ep + 1)) [1..<Suc ?n]"
      unfolding One_nat_def map_Suc_upt [of 0 ?n, symmetric] map_map by simp
    ultimately show ?thesis
      using True less.prems by (simp add: singlematch_total del: upt_Suc)
  next
    case False
    then have "?n = 0" by (subst run_length_rec) simp
    then show ?thesis using False less.prems by (simp add: singlematch_total outcome_def)
  qed
  have "concat (map (\<lambda>j. results src pat (caps_of ms) (s + j) (ep + 1)) [0..<Suc ?n]) =
      results src pat (caps_of ms) s (ep + 1) @
      concat (map (\<lambda>j. results src pat (caps_of ms) (s + j) (ep + 1)) [1..<Suc ?n])"
    by (simp add: upt_conv_Cons [of 0 "Suc ?n"] del: upt_Suc)
  then show ?case
    unfolding min_expand.simps [of rec src pat ms s p ep] using outcome_append [OF first rest] by (simp only:)
qed

lemma start_capture_ok:
  assumes "state_ok src s ms" "p \<le> length pat" "ms_matchdepth ms < fuel"
    and what: "what = CAP_POSITION \<or> what = CAP_UNFINISHED"
  shows "outcome src ms s (Suc (length pat - p))
    (if length (caps_of ms) < LUA_MAXCAPTURES
     then results src pat (caps_of ms @ [\<lparr>cap_init = s, cap_len = what\<rparr>]) s p else [])
    (start_capture rec ms s p what)"
proof (cases "ms_level ms < 32")
  case False
  then show ?thesis by (simp add: start_capture_def LUA_MAXCAPTURES_def outcome_def)
next
  case True
  define c where "c = \<lparr>cap_init = s, cap_len = what\<rparr>"
  define ms1 where "ms1 = ms\<lparr>ms_capture := (ms_capture ms)[ms_level ms := c], ms_level := ms_level ms + 1\<rparr>"
  have len: "length (ms_capture ms) = 32" using assms(1) by (simp add: state_ok_def)
  have caps: "caps_of ms1 = caps_of ms @ [c]"
    using True len by (simp add: ms1_def caps_of_def take_Suc_conv_app_nth)
  have ok: "state_ok src s ms1"
    using assms(1) True caps what by (auto simp: state_ok_def ms1_def c_def cap_ok_def)
  have eq: "start_capture rec ms s p what = and_then (rec ms1 s p) (\<lambda>(res, ms).
      Inr (res, if res = None then ms\<lparr>ms_level := ms_level ms - 1\<rparr> else ms))"
    using True len by (simp add: start_capture_def set_capture_def LUA_MAXCAPTURES_def ms1_def c_def Let_def)
  have undone: "restored ms (ms2\<lparr>ms_level := ms_level ms2 - 1\<rparr>)" if "restored ms1 ms2" for ms2
  proof -
    have level: "ms_level ms2 = ms_level ms + 1" using that by (simp add: restored_def ms1_def)
    have "caps_of ms2 = caps_of ms @ [c]" using that caps by (simp add: restored_caps)
    then have l: "ms_level ms2 = ms_level ms + 1" "take (ms_level ms + 1) (ms_capture ms2) = caps_of ms @ [c]"
      using level by (simp_all only: caps_of_def [of ms2])
    have "take (ms_level ms) (ms_capture ms2) = take (ms_level ms) (take (ms_level ms + 1) (ms_capture ms2))"
      by simp
    also have "\<dots> = caps_of ms" unfolding l(2) using length_caps [OF assms(1)] by simp
    finally show ?thesis
      using that l(1) len by (simp add: restored_def caps_of_def [of "ms2\<lparr>ms_level := ms_level ms\<rparr>"] ms1_def)
  qed
  have "outcome src ms1 s (Suc (length pat - p)) (results src pat (caps_of ms @ [c]) s p) (rec ms1 s p)"
    using rec_ok [OF ok assms(2)] assms(3) caps by (simp add: ms1_def)
  then show ?thesis
    unfolding eq c_def [symmetric] using undone length_caps [OF assms(1)] True
    by (auto simp: outcome_def ms1_def LUA_MAXCAPTURES_def and_then_def split: sum.splits option.splits)
qed

lemma end_capture_ok:
  assumes "state_ok src s ms" "p \<le> length pat" "ms_matchdepth ms < fuel"
  shows "outcome src ms s (Suc (length pat - p))
    (case innermost (caps_of ms) of None \<Rightarrow> []
     | Some l \<Rightarrow> let c = caps_of ms ! l in
         results src pat ((caps_of ms)[l := c\<lparr>cap_len := int s - int (cap_init c)\<rparr>]) s p)
    (end_capture rec ms s p)"
proof (cases "innermost (caps_of ms)")
  case None
  then show ?thesis
    by (simp add: end_capture_def capture_to_close_eq [OF assms(1)] outcome_def)
next
  case (Some l)
  define c where "c = caps_of ms ! l"
  define c' where "c' = c\<lparr>cap_len := int s - int (cap_init c)\<rparr>"
  define ms1 where "ms1 = ms\<lparr>ms_capture := (ms_capture ms)[l := c']\<rparr>"
  have l: "l < ms_level ms" "cap_len c = CAP_UNFINISHED" "l < length (ms_capture ms)"
    using innermost_Some [OF Some] assms(1) by (auto simp: length_caps c_def state_ok_def)
  have c: "ms_capture ms ! l = c" using l(1) by (simp add: c_def caps_nth)
  have caps: "caps_of ms1 = (caps_of ms)[l := c']"
    using l(1) by (simp add: ms1_def caps_of_def take_update_swap)
  have "cap_ok src s c" using assms(1) l(1) length_caps [OF assms(1)] by (simp add: state_ok_def c_def)
  then have c_ok: "cap_ok src s c'" using assms(1) by (auto simp: cap_ok_def c'_def state_ok_def)
  have ok: "state_ok src s ms1"
    using assms(1) caps c_ok set_update_subset_insert [of "caps_of ms" l c'] by (auto simp: state_ok_def ms1_def)
  have eq: "end_capture rec ms s p = and_then (rec ms1 s p) (\<lambda>(res, ms).
      if res = None then
        and_then (get_capture ms l) (\<lambda>c.
          and_then (set_capture ms l (c\<lparr>cap_len := CAP_UNFINISHED\<rparr>)) (\<lambda>ms. Inr (None, ms)))
      else Inr (res, ms))"
    using Some l c by (simp add: end_capture_def capture_to_close_eq [OF assms(1)] get_capture_def set_capture_def
        ms1_def c'_def)
  have undone: "\<exists>ms3. and_then (get_capture ms2 l) (\<lambda>c.
          and_then (set_capture ms2 l (c\<lparr>cap_len := CAP_UNFINISHED\<rparr>)) (\<lambda>ms. Inr (None, ms))) = (Inr (None, ms3) :: match_result) \<and> restored ms ms3"
    if "restored ms1 ms2" for ms2
  proof -
    have r: "ms_level ms2 = ms_level ms" "caps_of ms2 = (caps_of ms)[l := c']"
        "length (ms_capture ms2) = length (ms_capture ms)" "ms_matchdepth ms2 = ms_matchdepth ms"
      using that caps by (simp_all add: restored_def ms1_def)
    then have "ms_capture ms2 ! l = c'"
      using caps_nth [of l ms2] l(1) length_caps [OF assms(1)] by simp
    moreover have "c'\<lparr>cap_len := CAP_UNFINISHED\<rparr> = c" using l(2) by (simp add: c'_def)
    ultimately have eq: "and_then (get_capture ms2 l) (\<lambda>c.
          and_then (set_capture ms2 l (c\<lparr>cap_len := CAP_UNFINISHED\<rparr>)) (\<lambda>ms. Inr (None, ms))) =
        (Inr (None, ms2\<lparr>ms_capture := (ms_capture ms2)[l := c]\<rparr>) :: match_result)"
      using r l by (simp add: get_capture_def set_capture_def)
    have "take (ms_level ms) ((ms_capture ms2)[l := c]) = (caps_of ms)[l := c', l := c]"
      using r(1,2) by (simp add: caps_of_def [of ms2] take_update_swap)
    moreover have "(caps_of ms)[l := c', l := c] = caps_of ms" by (simp add: c_def)
    ultimately have "caps_of (ms2\<lparr>ms_capture := (ms_capture ms2)[l := c]\<rparr>) = caps_of ms"
      using r(1) by (simp add: caps_of_def [of "ms2\<lparr>ms_capture := (ms_capture ms2)[l := c]\<rparr>"])
    then have "restored ms (ms2\<lparr>ms_capture := (ms_capture ms2)[l := c]\<rparr>)"
      using r by (simp add: restored_def)
    with eq show ?thesis by blast
  qed
  have "outcome src ms1 s (Suc (length pat - p)) (results src pat ((caps_of ms)[l := c']) s p) (rec ms1 s p)"
    using rec_ok [OF ok assms(2)] assms(3) caps by (simp add: ms1_def)
  note rec_outcome = this
  have depth: "ms_matchdepth ms1 = ms_matchdepth ms" by (simp add: ms1_def)
  have rs: "(case innermost (caps_of ms) of None \<Rightarrow> []
     | Some l \<Rightarrow> let c = caps_of ms ! l in
         results src pat ((caps_of ms)[l := c\<lparr>cap_len := int s - int (cap_init c)\<rparr>]) s p) =
      results src pat ((caps_of ms)[l := c']) s p"
    using Some by (simp add: c_def c'_def Let_def)
  show ?thesis
  proof (cases "rec ms1 s p")
    case (Inl e)
    then show ?thesis unfolding eq rs using rec_outcome depth by (simp add: outcome_def)
  next
    case (Inr x)
    obtain res ms2 where x: "x = (res, ms2)" by (cases x)
    show ?thesis
    proof (cases res)
      case None
      then have "restored ms1 ms2" "results src pat ((caps_of ms)[l := c']) s p = []"
        using rec_outcome Inr x by (simp_all add: outcome_def)
      moreover from this obtain ms3 where "and_then (get_capture ms2 l) (\<lambda>c.
          and_then (set_capture ms2 l (c\<lparr>cap_len := CAP_UNFINISHED\<rparr>)) (\<lambda>ms. Inr (None, ms))) = (Inr (None, ms3) :: match_result)"
          "restored ms ms3"
        using undone by blast
      moreover have "end_capture rec ms s p = Inr (None, ms3)"
        unfolding eq Inr x None and_then_simps prod.case using calculation(3) by (simp only: simp_thms if_True)
      ultimately show ?thesis unfolding rs by (simp add: outcome_def)
    next
      case (Some e)
      then show ?thesis unfolding eq rs using rec_outcome depth Inr x by (simp add: outcome_def)
    qed
  qed
qed

lemma default_ok:
  assumes "state_ok src s ms" "p < length pat" "ms_matchdepth ms < fuel"
    and item: "item_at pat p = class_item pat p"
  shows "step_ok src pat ms s p (match_default rec src pat ms s p)"
proof (cases "classend pat p")
  case (Inl e)
  then have "e \<in> {EndsWithEscape, MissingBracket}" using classend_outcome [OF assms(2)] by auto
  then show ?thesis using Inl by (auto simp: match_default_def intro: step_ok_error)
next
  case (Inr ep)
  have ep: "p < ep" "ep \<le> length pat" using classend_outcome [OF assms(2)] Inr by auto
  define q where "q = byte_at pat ep"
  have quantified: "ep < length pat" if "q \<noteq> 0" using that by (simp add: q_def byte_at_end)
  let ?n = "run_length src pat p ep s"
  let ?R = "\<lambda>s. results src pat (caps_of ms) s (ep + 1)"
  have n: "?n = (if single src pat p ep s then Suc (run_length src pat p ep (s + 1)) else 0)"
    by (rule run_length_rec)
  have s: "s < length src" if "single src pat p ep s" using that by (rule single_less)
  have rep: "results src pat (caps_of ms) s p = concat (map (\<lambda>i. results src pat (caps_of ms) (s + i) q') (choices k ?n))"
    if "class_item pat p = Some (Rep k p ep, q')" for k q'
    using that by (simp add: results_item [OF assms(2)] item)
  have next_ok: "state_ok src (s + 1) ms" if "single src pat p ep s"
    using state_ok_mono [OF assms(1), of "s + 1"] s [OF that] by simp
  have eq: "match_default rec src pat ms s p =
      (if \<not> single src pat p ep s then
         (if q = ch_star \<or> q = ch_quest \<or> q = ch_minus then Inr (Init s (ep + 1), ms)
          else Inr (Done None, ms))
       else if q = ch_quest then
         and_then (rec ms (s + 1) (ep + 1)) (\<lambda>(res, ms).
           if res \<noteq> None then Inr (Done res, ms) else Inr (Init s (ep + 1), ms))
       else if q = ch_plus then done_with (max_expand rec src pat ms (s + 1) p ep)
       else if q = ch_star then done_with (max_expand rec src pat ms s p ep)
       else if q = ch_minus then done_with (min_expand rec src pat ms s p ep)
       else Inr (Init (s + 1) ep, ms))"
    using Inr ep assms(2) singlematch_total [OF assms(2) ep(2), of src s]
    by (simp add: match_default_def q_def)
  have s_le: "s \<le> length src" using assms(1) by (simp add: state_ok_def)
  consider "q = ch_quest" | "q = ch_plus" | "q = ch_star" | "q = ch_minus"
    | "q \<notin> {ch_quest, ch_plus, ch_star, ch_minus}" by blast
  then show ?thesis
  proof cases
    case 1
    then have rs: "results src pat (caps_of ms) s p = concat (map (\<lambda>i. ?R (s + i)) (choices Opt ?n))"
      by (intro rep) (simp add: class_item_def Inr q_def)
    show ?thesis
    proof (cases "single src pat p ep s")
      case True
      have first: "outcome src ms (s + 1) (length pat - p) (?R (s + 1)) (rec ms (s + 1) (ep + 1))"
        using rec_ok [OF next_ok [OF True], of "ep + 1"] quantified 1 assms(3) ep
        by (auto intro: outcome_mono)
      have rs': "results src pat (caps_of ms) s p = ?R (s + 1) @ ?R s"
        using rs True n by simp
      have "ep + 1 \<le> length pat" using quantified 1 by simp
      from step_ok_optional [OF first _ rs' _ this s_le] show ?thesis unfolding eq using True 1 ep by simp
    next
      case False
      then have "results src pat (caps_of ms) s p = ?R s" using rs n by simp
      then show ?thesis unfolding eq using False 1 ep quantified s_le by (simp add: step_ok_init)
    qed
  next
    case 2
    then have rs: "results src pat (caps_of ms) s p = concat (map (\<lambda>i. ?R (s + i)) (choices Plus ?n))"
      by (intro rep) (simp add: class_item_def Inr q_def)
    show ?thesis
    proof (cases "single src pat p ep s")
      case True
      let ?m = "run_length src pat p ep (s + 1)"
      have "choices Plus ?n = map Suc (rev [0..<Suc ?m])"
        using True n by (simp add: map_Suc_upt flip: rev_map del: upt_Suc)
      then have "results src pat (caps_of ms) s p = concat (map (\<lambda>j. ?R (s + 1 + j)) (rev [0..<Suc ?m]))"
        using rs by (simp add: comp_def del: upt_Suc)
      moreover have "outcome src ms s (length pat - ep) (concat (map (\<lambda>j. ?R (s + 1 + j)) (rev [0..<Suc ?m])))
          (max_expand rec src pat ms (s + 1) p ep)"
        by (rule outcome_mono [OF max_expand_ok [OF next_ok [OF True] assms(2) _ assms(3)]])
           (use quantified 2 in simp_all)
      ultimately show ?thesis unfolding eq using True 2 ep by (auto intro!: step_ok_done)
    next
      case False
      then show ?thesis unfolding eq using 2 n rs by (simp add: step_ok_none)
    qed
  next
    case 3
    then have rs: "results src pat (caps_of ms) s p = concat (map (\<lambda>i. ?R (s + i)) (choices Star ?n))"
      by (intro rep) (simp add: class_item_def Inr q_def)
    show ?thesis
    proof (cases "single src pat p ep s")
      case True
      then show ?thesis
        unfolding eq using 3 ep max_expand_ok [OF assms(1,2) _ assms(3), of ep] quantified rs
        by (auto intro!: step_ok_done simp del: upt_Suc)
    next
      case False
      then show ?thesis unfolding eq using 3 n rs ep quantified s_le by (simp add: step_ok_init)
    qed
  next
    case 4
    then have rs: "results src pat (caps_of ms) s p = concat (map (\<lambda>i. ?R (s + i)) (choices Lazy ?n))"
      by (intro rep) (simp add: class_item_def Inr q_def)
    show ?thesis
    proof (cases "single src pat p ep s")
      case True
      then show ?thesis
        unfolding eq using 4 ep min_expand_ok [OF assms(1,2) _ assms(3), of ep] quantified rs
        by (auto intro!: step_ok_done simp del: upt_Suc)
    next
      case False
      then show ?thesis unfolding eq using 4 n rs ep quantified s_le by (simp add: step_ok_init)
    qed
  next
    case 5
    then have "results src pat (caps_of ms) s p =
        concat (map (\<lambda>i. results src pat (caps_of ms) (s + i) ep) (choices One ?n))"
      by (intro rep) (simp add: class_item_def Inr q_def)
    then show ?thesis
      unfolding eq using 5 n ep s by (auto intro!: step_ok_init step_ok_none)
  qed
qed

lemma frontier_ok:
  assumes "state_ok src s ms" "p + 2 \<le> length pat"
    and item: "byte_at pat p = L_ESC" "byte_at pat (p + 1) = ch_f"
  shows "step_ok src pat ms s p (match_frontier src pat ms s (p + 2))"
proof (cases "byte_at pat (p + 2) = ch_bracket")
  case False
  then show ?thesis using assms(2) by (simp add: match_frontier_def step_ok_error)
next
  case True
  then have l: "p + 2 < length pat" by (simp add: byte_at_end)
  have item_eq: "item_at pat p = (case classend pat (p + 2) of Inl e \<Rightarrow> None | Inr ep \<Rightarrow> Some (Frontier (p + 2) ep, ep))"
    using item True by (simp add: item_at_def L_ESC_def)
  show ?thesis
  proof (cases "classend pat (p + 2)")
    case (Inl e)
    then have "e \<in> {EndsWithEscape, MissingBracket}" using classend_outcome [OF l] by auto
    then show ?thesis using True Inl assms(2) by (auto simp: match_frontier_def intro: step_ok_error)
  next
    case (Inr ep)
    have ep: "p + 2 < ep" "ep \<le> length pat" using classend_outcome [OF l] Inr by auto
    define prev where "prev = (if s = 0 then 0 else byte_at src (s - 1))"
    define l where "l = p + 2"
    note in_l = True [folded l_def] Inr [folded l_def] assms(2) [folded l_def] \<open>p + 2 < length pat\<close> [folded l_def]
    have s: "s \<le> length src" using assms(1) by (simp add: state_ok_def)
    have total: "matchbracketclass pat c l (ep - 1) = Inr (in_set pat l ep c)" for c
      using matchbracketclass_eq [OF in_l(4)] ep by simp
    have read: "(if s = 0 then Inr 0 else deref src (s - 1)) = Inr prev"
      using s by (simp add: prev_def)
    have eq: "match_frontier src pat ms s l =
        (if \<not> in_set pat l ep prev \<and> in_set pat l ep (byte_at src s)
         then Inr (Init s ep, ms) else Inr (Done None, ms))"
      using in_l s unfolding match_frontier_def read total by (simp add: total [unfolded One_nat_def])
    have "results src pat (caps_of ms) s p =
        (if \<not> in_set pat l ep prev \<and> in_set pat l ep (byte_at src s)
         then results src pat (caps_of ms) s ep else [])"
      using item_eq Inr \<open>p + 2 < length pat\<close> by (simp add: results_item prev_def l_def)
    then show ?thesis
      unfolding eq l_def [symmetric] using ep s by (auto intro!: step_ok_init step_ok_none)
  qed
qed

lemma escape_ok:
  assumes "state_ok src s ms" "p < length pat" "ms_matchdepth ms < fuel"
    and esc: "byte_at pat p = L_ESC"
  shows "step_ok src pat ms s p (match_escape rec src pat ms s p)"
proof -
  define c where "c = byte_at pat (p + 1)"
  have s: "s \<le> length src" using assms(1) by (simp add: state_ok_def)
  have c_less: "p + 2 \<le> length pat" if "c \<noteq> 0" using that byte_at_end [of pat "p + 1"] by (simp add: c_def)
  consider "c = ch_b" | "c = ch_f" | "is_ascii_digit c" | "c \<noteq> ch_b" "c \<noteq> ch_f" "\<not> is_ascii_digit c" by blast
  then show ?thesis
  proof cases
    case 1
    have eq: "match_escape rec src pat ms s p = and_then (matchbalance src pat s (p + 2)) (\<lambda>r.
           case r of Some s' \<Rightarrow> Inr (Init s' (p + 4), ms) | None \<Rightarrow> Inr (Done None, ms))"
      using 1 assms(2) by (simp add: match_escape_def c_def)
    show ?thesis
    proof (cases "p + 3 < length pat")
      case False
      then have "matchbalance src pat s (p + 2) = Inl MissingArguments" by (simp add: matchbalance_def)
      then show ?thesis unfolding eq by (simp add: step_ok_error)
    next
      case True
      define r where "r = balance_end src (byte_at pat (p + 2)) (byte_at pat (p + 3)) s"
      have "item_at pat p = Some (Balance (byte_at pat (p + 2)) (byte_at pat (p + 3)), p + 4)"
        using esc 1 True by (simp add: item_at_def L_ESC_def c_def)
      then have rs: "results src pat (caps_of ms) s p =
          (case r of None \<Rightarrow> [] | Some s' \<Rightarrow> results src pat (caps_of ms) s' (p + 4))"
        using assms(2) by (simp add: results_item r_def)
      have step: "match_escape rec src pat ms s p =
          (case r of Some s' \<Rightarrow> Inr (Init s' (p + 4), ms) | None \<Rightarrow> Inr (Done None, ms))"
        using matchbalance_eq [of s src "p + 2" pat] True s by (simp add: eq r_def numeral_3_eq_3)
      have end_le: "s \<le> t \<and> t \<le> length src" if "r = Some t" for t
        using balance_end_less [of src "byte_at pat (p + 2)" "byte_at pat (p + 3)" s t] that by (auto simp: r_def)
      show ?thesis
      proof (cases r)
        case None
        then show ?thesis unfolding step using rs by (simp add: step_ok_none)
      next
        case (Some t)
        then show ?thesis unfolding step using rs True end_le by (simp add: step_ok_init)
      qed
    qed
  next
    case 2
    then have "match_escape rec src pat ms s p = match_frontier src pat ms s (p + 2)"
      using assms(2) by (simp add: match_escape_def c_def)
    moreover have "step_ok src pat ms s p (match_frontier src pat ms s (p + 2))"
      using 2 c_less by (intro frontier_ok assms(1) esc) (auto simp: c_def)
    ultimately show ?thesis by (simp only:)
  next
    case 3
    then have c: "c \<noteq> ch_b" "c \<noteq> ch_f" "c \<noteq> 0" by (auto simp: is_ascii_digit_def)
    have eq: "match_escape rec src pat ms s p = and_then (match_capture src ms s c) (\<lambda>r.
           case r of Some s' \<Rightarrow> Inr (Init s' (p + 2), ms) | None \<Rightarrow> Inr (Done None, ms))"
      using 3 c assms(2) by (simp add: match_escape_def c_def del: add_2_eq_Suc')
    have "item_at pat p = Some (BackRef c, p + 2)"
      using 3 c esc by (simp add: item_at_def L_ESC_def c_def)
    then have rs: "results src pat (caps_of ms) s p =
          (case back_ref src (caps_of ms) s c of None \<Rightarrow> [] | Some s' \<Rightarrow> results src pat (caps_of ms) s' (p + 2))"
      using assms(2) by (simp add: results_item del: add_2_eq_Suc')
    from match_capture_eq [OF assms(1), of c] show ?thesis
    proof
      assume "match_capture src ms s c = Inl (InvalidCaptureIndex (uint c - 48))"
      then show ?thesis unfolding eq by (simp add: step_ok_error)
    next
      assume "match_capture src ms s c = Inr (back_ref src (caps_of ms) s c)"
      then show ?thesis
        unfolding eq using rs c_less [OF c(3)] back_ref_le [of src "caps_of ms" s c]
        by (cases "back_ref src (caps_of ms) s c") (auto intro!: step_ok_init step_ok_none)
    qed
  next
    case 4
    then have "match_escape rec src pat ms s p = match_default rec src pat ms s p"
      using assms(2) by (simp add: match_escape_def c_def)
    moreover have "item_at pat p = class_item pat p"
      using 4 esc by (simp add: item_at_def L_ESC_def c_def)
    ultimately show ?thesis using default_ok [OF assms(1-3)] by simp
  qed
qed

lemma step_outcome:
  assumes "state_ok src s ms" "p \<le> length pat" "ms_matchdepth ms < fuel"
  shows "step_ok src pat ms s p (match_step rec src pat ms s p)"
proof (cases "p = length pat")
  case True
  then show ?thesis using assms(1) by (simp add: match_step_def step_ok_def outcome_def results_end)
next
  case False
  then have p: "p < length pat" using assms(2) by simp
  define c where "c = byte_at pat p"
  define d where "d = byte_at pat (p + 1)"
  consider "c = ch_open" "d = ch_close" | "c = ch_open" "d \<noteq> ch_close" | "c = ch_close"
    | "c = ch_dollar" "p + 1 = length pat" | "c = L_ESC"
    | "c \<noteq> ch_open" "c \<noteq> ch_close" "\<not> (c = ch_dollar \<and> p + 1 = length pat)" "c \<noteq> L_ESC" by blast
  then show ?thesis
  proof cases
    case 1
    have l: "p + 1 < length pat" using byte_at_end [of pat "p + 1"] 1(2) by (simp add: d_def)
    have "item_at pat p = Some (OpenCapture CAP_POSITION, p + 2)"
      using 1 by (simp add: item_at_def c_def d_def)
    then have "outcome src ms s (Suc (length pat - (p + 2))) (results src pat (caps_of ms) s p)
        (start_capture rec ms s (p + 2) CAP_POSITION)"
      using start_capture_ok [OF assms(1) _ assms(3), of "p + 2" CAP_POSITION] p l
      by (simp add: results_item del: add_2_eq_Suc')
    from step_ok_done [OF this] show ?thesis
      using 1 p l by (simp add: match_step_def c_def d_def)
  next
    case 2
    then have "item_at pat p = Some (OpenCapture CAP_UNFINISHED, p + 1)"
      by (simp add: item_at_def c_def d_def)
    then have "outcome src ms s (Suc (length pat - (p + 1))) (results src pat (caps_of ms) s p)
        (start_capture rec ms s (p + 1) CAP_UNFINISHED)"
      using start_capture_ok [OF assms(1) _ assms(3), of "p + 1" CAP_UNFINISHED] p
      by (simp add: results_item cong: if_cong)
    from step_ok_done [OF this] show ?thesis
      using 2 p by (simp add: match_step_def c_def d_def)
  next
    case 3
    then have "item_at pat p = Some (CloseCapture, p + 1)" by (simp add: item_at_def c_def)
    then have "outcome src ms s (Suc (length pat - (p + 1))) (results src pat (caps_of ms) s p)
        (end_capture rec ms s (p + 1))"
      using end_capture_ok [OF assms(1) _ assms(3), of "p + 1"] p
      by (simp add: results_item Let_def cong: option.case_cong)
    from step_ok_done [OF this] show ?thesis
      using 3 p by (simp add: match_step_def c_def)
  next
    case 4
    then have "item_at pat p = Some (EndAnchor, p + 1)" by (simp add: item_at_def c_def)
    then show ?thesis
      using 4 p assms(1) by (auto simp: match_step_def c_def step_ok_def outcome_def results_item)
  next
    case 5
    then show ?thesis
      using p escape_ok [OF assms(1) p assms(3)] by (simp add: match_step_def c_def L_ESC_def)
  next
    case 6
    then have "item_at pat p = class_item pat p" by (auto simp: item_at_def c_def Let_def)
    then show ?thesis
      using 6 p default_ok [OF assms(1) p assms(3)] by (auto simp: match_step_def c_def)
  qed
qed

lemma loop_outcome:
  "state_ok src s ms \<Longrightarrow> p \<le> length pat \<Longrightarrow> ms_matchdepth ms < fuel \<Longrightarrow>
   outcome src ms s (length pat - p) (results src pat (caps_of ms) s p) (match_loop rec src pat ms s p)"
proof (induction "length pat - p" arbitrary: s ms p rule: less_induct)
  case less
  note step = step_outcome [OF less.prems]
  show ?case
  proof (cases "match_step rec src pat ms s p")
    case (Inl e)
    then show ?thesis using step by (simp add: match_loop.simps [of rec src pat ms s p] step_ok_def)
  next
    case (Inr x)
    obtain fl ms' where x: "x = (fl, ms')" by (cases x)
    show ?thesis
    proof (cases fl)
      case (Done res)
      then show ?thesis using step Inr x by (simp add: match_loop.simps [of rec src pat ms s p] step_ok_def)
    next
      case (Init s' p')
      then have i: "restored ms ms'" "s \<le> s'" "s' \<le> length src" "p < p'" "p' \<le> length pat"
          "results src pat (caps_of ms) s p = results src pat (caps_of ms) s' p'"
        using step Inr x by (simp_all add: step_ok_def)
      have "state_ok src s' ms'"
        using state_ok_mono [OF less.prems(1) i(2,3)] i(1) by (simp add: restored_ok)
      then have "outcome src ms' s' (length pat - p') (results src pat (caps_of ms) s' p') (match_loop rec src pat ms' s' p')"
        using less.hyps [of p' s' ms'] i(1,4,5) less.prems(3) by (simp add: restored_caps restored_depth)
      then have "outcome src ms' s (length pat - p) (results src pat (caps_of ms) s p) (match_loop rec src pat ms' s' p')"
        unfolding i(6) by (rule outcome_mono) (use i in simp_all)
      then show ?thesis
        using Inr x Init outcome_restored [OF i(1)] by (simp add: match_loop.simps [of rec src pat ms s p])
    qed
  qed
qed

end

section \<open>The matcher keeps its contract\<close>

lemma caps_of_depth [simp]: "caps_of (ms\<lparr>ms_matchdepth := d\<rparr>) = caps_of ms"
  by (simp add: caps_of_def)

lemma state_ok_depth [simp]: "state_ok src s (ms\<lparr>ms_matchdepth := d\<rparr>) = state_ok src s ms"
  by (simp add: state_ok_def)

lemma match_item_outcome:
  "state_ok src s ms \<Longrightarrow> p \<le> length pat \<Longrightarrow> ms_matchdepth ms < fuel \<Longrightarrow>
   outcome src ms s (Suc (length pat - p)) (results src pat (caps_of ms) s p) (match_item src pat fuel ms s p)"
proof (induction fuel arbitrary: s ms p)
  case 0
  then show ?case by simp
next
  case (Suc fuel)
  have contract: "match_contract src pat (match_item src pat fuel) fuel"
    by (rule match_contract.intro) (rule Suc.IH)
  define ms1 where "ms1 = ms\<lparr>ms_matchdepth := ms_matchdepth ms - 1\<rparr>"
  define rs where "rs = results src pat (caps_of ms) s p"
  show ?case
  proof (cases "ms_matchdepth ms = 0")
    case True
    then show ?thesis by (simp add: outcome_def)
  next
    case False
    have depth: "ms_matchdepth ms = Suc (ms_matchdepth ms1)" using False by (simp add: ms1_def)
    define r where "r = match_loop (match_item src pat fuel) src pat ms1 s p"
    have ok: "outcome src ms1 s (length pat - p) rs r"
      using match_contract.loop_outcome [OF contract, of s ms1 p] Suc.prems False by (simp add: ms1_def rs_def r_def)
    have eq: "match_item src pat (Suc fuel) ms s p =
        and_then r (\<lambda>(res, ms). Inr (res, ms\<lparr>ms_matchdepth := ms_matchdepth ms + 1\<rparr>))"
      using False by (simp add: ms1_def r_def)
    have undone: "restored ms (ms2\<lparr>ms_matchdepth := Suc (ms_matchdepth ms2)\<rparr>)" if "restored ms1 ms2" for ms2
      using that False by (simp add: restored_def ms1_def)
    show ?thesis
    proof (cases r)
      case (Inl e)
      then show ?thesis unfolding eq using ok depth by (simp add: outcome_def)
    next
      case (Inr x)
      obtain res ms2 where x: "x = (res, ms2)" by (cases x)
      show ?thesis
      proof (cases res)
        case None
        then show ?thesis
          unfolding eq rs_def [symmetric] using ok Inr x undone [of ms2] by (simp add: outcome_def)
      next
        case (Some e)
        then show ?thesis unfolding eq rs_def [symmetric] using ok Inr x depth by (simp add: outcome_def)
      qed
    qed
  qed
qed

text \<open>The contract holds for the matcher at every depth.\<close>

interpretation lua_match: match_contract src pat "match_item src pat fuel" fuel for src pat fuel
  by unfold_locales (rule match_item_outcome)

text \<open>C3: The matcher computes the reference: from any state with sound captures and with enough fuel for its depth it
  returns the end and the captures of the first result, or nothing when there is none, and then the
  captures and the depth are as they were. It never reads outside the strings or its captures, and
  reports a too complex pattern only when the depth left does not exceed the rest of the pattern.\<close>

theorem matcher_correct:
  assumes "state_ok src s ms" and "p \<le> length pat" and "ms_matchdepth ms < fuel"
  shows "case match_item src pat fuel ms s p of
      Inl e \<Rightarrow> e \<noteq> Fault \<and> e \<noteq> OutOfFuel \<and> (e = PatternTooComplex \<longrightarrow> ms_matchdepth ms \<le> length pat - p)
    | Inr (None, ms') \<Rightarrow> results src pat (caps_of ms) s p = [] \<and> caps_of ms' = caps_of ms \<and>
        ms_level ms' = ms_level ms \<and> ms_matchdepth ms' = ms_matchdepth ms
    | Inr (Some e, ms') \<Rightarrow> (\<exists>rest. results src pat (caps_of ms) s p = (e, caps_of ms') # rest) \<and>
        s \<le> e \<and> state_ok src e ms' \<and> ms_matchdepth ms' = ms_matchdepth ms"
  using lua_match.rec_ok [OF assms]
  by (auto simp: outcome_def restored_def split: sum.splits option.splits)

theorem matcher_correct_witness:
  "(case match_item [97, 97, 98] [40, 97, 45, 41, 98] 201 prepstate 0 0 of
      Inl e \<Rightarrow> e \<noteq> Fault \<and> e \<noteq> OutOfFuel \<and>
        (e = PatternTooComplex \<longrightarrow> ms_matchdepth prepstate \<le> length [40, 97, 45, 41, 98 :: u8] - 0)
    | Inr (None, ms') \<Rightarrow> results [97, 97, 98] [40, 97, 45, 41, 98] (caps_of prepstate) 0 0 = [] \<and>
        caps_of ms' = caps_of prepstate \<and> ms_level ms' = ms_level prepstate \<and>
        ms_matchdepth ms' = ms_matchdepth prepstate
    | Inr (Some e, ms') \<Rightarrow>
        (\<exists>rest. results [97, 97, 98] [40, 97, 45, 41, 98] (caps_of prepstate) 0 0 = (e, caps_of ms') # rest) \<and>
        0 \<le> e \<and> state_ok [97, 97, 98] e ms' \<and> ms_matchdepth ms' = ms_matchdepth prepstate)
   \<and> results [97, 97, 98] [40, 97, 45, 41, 98] [] 0 0 = [(3, [\<lparr>cap_init = 0, cap_len = 2\<rparr>])]"
proof (rule conjI, rule matcher_correct)
  show "state_ok [97, 97, 98] 0 prepstate" by (simp add: state_ok_def prepstate_def caps_of_def)
  show "ms_matchdepth prepstate < 201" by (simp add: prepstate_def LUAI_MAXCCALLS_def)
  show "results [97, 97, 98] [40, 97, 45, 41, 98] [] 0 0 = [(3, [\<lparr>cap_init = 0, cap_len = 2\<rparr>])]" by code_simp
qed simp

end
