(* ===== verification/Lua_Search.thy ===== *)
theory Lua_Search
  imports Lua_Matcher
begin

text \<open>
  The functions of the string library that use the matcher: \<open>string.find\<close> and \<open>string.match\<close>
  (\<open>str_find_aux.rs\<close>, with \<open>posrelat.rs\<close>, \<open>nospecials.rs\<close>, \<open>lmemfind.rs\<close>), \<open>string.gmatch\<close> (\<open>gmatch_aux.rs\<close>) and
  \<open>string.gsub\<close> (\<open>str_gsub.rs\<close>, \<open>add_value.rs\<close>, \<open>add_s.rs\<close>), and the captures they return
  (\<open>push_captures.rs\<close>, \<open>push_onecapture.rs\<close>). Arguments and results are values here instead of slots of the
  Lua stack. A function or table that \<open>gsub\<close> calls is a function of the captures and of a state \<open>'g\<close>,
  which it may change, and the conversion of a number to a string is the argument \<open>tostr\<close>.
\<close>

section \<open>Captures as values\<close>

datatype lua_value = LNil | LFalse | LInt int | LStr bytes | LOther

type_synonym span = "(nat \<times> nat) option"

definition push_onecapture :: "bytes \<Rightarrow> match_state \<Rightarrow> nat \<Rightarrow> span \<Rightarrow> lua_value presult" where
  "push_onecapture src ms i sp =
     (if i \<ge> ms_level ms then
        (if i = 0 then
           (case sp of
              Some (s, e) \<Rightarrow> and_then (raw_slice src s (e - s)) (\<lambda>x. Inr (LStr x))
            | None \<Rightarrow> Inl Fault)
         else Inl InvalidCapture)
      else and_then (get_capture ms i) (\<lambda>c.
        if cap_len c = CAP_UNFINISHED then Inl UnfinishedCapture
        else if cap_len c = CAP_POSITION then Inr (LInt (int (cap_init c) + 1))
        else and_then (raw_slice src (cap_init c) (usize_of (cap_len c))) (\<lambda>x. Inr (LStr x))))"

fun push_loop :: "bytes \<Rightarrow> match_state \<Rightarrow> nat list \<Rightarrow> span \<Rightarrow> lua_value list presult" where
  "push_loop src ms [] sp = Inr []"
| "push_loop src ms (i # is) sp =
     and_then (push_onecapture src ms i sp) (\<lambda>v. and_then (push_loop src ms is sp) (\<lambda>vs. Inr (v # vs)))"

definition push_captures :: "bytes \<Rightarrow> match_state \<Rightarrow> span \<Rightarrow> lua_value list presult" where
  "push_captures src ms sp =
     (let nlevels = if ms_level ms = 0 \<and> sp \<noteq> None then 1 else ms_level ms in
      push_loop src ms [0..<nlevels] sp)"

section \<open>Plain search\<close>

definition memchr :: "bytes \<Rightarrow> nat \<Rightarrow> u8 \<Rightarrow> nat \<Rightarrow> nat option presult" where
  "memchr b s c n = (if s + n \<le> length b then Inr (find (\<lambda>i. b ! i = c) [s..<s + n]) else Inl Fault)"

lemma find_upt_range: "find P [a..<b] = Some i \<Longrightarrow> a \<le> i \<and> i < b \<and> P i"
  by (drule find_in) simp

function lmemfind_loop :: "bytes \<Rightarrow> bytes \<Rightarrow> nat \<Rightarrow> nat \<Rightarrow> nat \<Rightarrow> nat option presult" where
  "lmemfind_loop b1 b2 l2 s1 l1 =
     (if l1 > 0 then
        and_then (deref b2 0) (\<lambda>c. and_then (memchr b1 s1 c l1) (\<lambda>r. case r of
          None \<Rightarrow> Inr None
        | Some found \<Rightarrow>
            let init = found + 1 in
            and_then (raw_slice b1 init l2) (\<lambda>x. and_then (raw_slice b2 1 l2) (\<lambda>y.
              if x = y then Inr (Some (init - 1))
              else lmemfind_loop b1 b2 l2 init (l1 - (init - s1))))))
      else Inr None)"
  by pat_completeness auto

termination
  by (relation "measure (\<lambda>(b1, b2, l2, s1, l1). l1)")
     (auto simp: memchr_def split: if_splits dest!: find_upt_range)

declare lmemfind_loop.simps [simp del]

definition lmemfind :: "bytes \<Rightarrow> nat \<Rightarrow> nat \<Rightarrow> bytes \<Rightarrow> nat \<Rightarrow> nat option presult" where
  "lmemfind b1 s1 l1 b2 l2 =
     (if l2 = 0 then Inr (Some s1)
      else if l2 > l1 then Inr None
      else lmemfind_loop b1 b2 (l2 - 1) s1 (l1 - (l2 - 1)))"

definition SPECIALS :: "u8 list" where
  "SPECIALS = [94, 36, 42, 43, 63, 46, 40, 91, 37, 45]"

function nospecials_loop :: "bytes \<Rightarrow> nat \<Rightarrow> bool" where
  "nospecials_loop p upto' =
     (let seg = takeWhile (\<lambda>b. b \<noteq> 0) (drop upto' p);
          behind = upto' + length seg + 1 in
      if list_ex (\<lambda>b. b \<in> set SPECIALS) seg then False
      else if behind > length p then True
      else nospecials_loop p behind)"
  by pat_completeness auto

termination
  by (relation "measure (\<lambda>(p, i). Suc (length p) - i)") auto

declare nospecials_loop.simps [simp del]

definition nospecials :: "bytes \<Rightarrow> bool" where
  "nospecials p = nospecials_loop p 0"

section \<open>\<open>string.find\<close> and \<open>string.match\<close>\<close>

definition posrelat :: "int \<Rightarrow> nat \<Rightarrow> int" where
  "posrelat pos len =
     (let pos = if pos < 0 then wrap_i32 (wrap_i32 (pos + wrap_i32 (int len)) + 1) else pos in
      if pos \<ge> 0 then pos else 0)"

abbreviation match_fuel :: nat where "match_fuel \<equiv> Suc LUAI_MAXCCALLS"

text \<open>The first place from \<open>s1\<close> on at which the pattern matches, with the end of the match.\<close>

function search_loop :: "bytes \<Rightarrow> bytes \<Rightarrow> bool \<Rightarrow> match_state \<Rightarrow> nat \<Rightarrow> (nat \<times> nat \<times> match_state) option presult" where
  "search_loop src pat anchor ms s1 =
     and_then (reprepstate ms) (\<lambda>ms. and_then (match_item src pat match_fuel ms s1 0) (\<lambda>(res, ms).
       case res of
         Some e \<Rightarrow> Inr (Some (s1, e, ms))
       | None \<Rightarrow> if \<not> s1 < length src \<or> anchor then Inr None else search_loop src pat anchor ms (s1 + 1)))"
  by pat_completeness auto

termination
  by (relation "measure (\<lambda>(src, pat, anchor, ms, s1). length src - s1)") auto

declare search_loop.simps [simp del]

definition is_anchored :: "bytes \<Rightarrow> bool" where
  "is_anchored p \<longleftrightarrow> deref p 0 = Inr ch_caret"

definition unanchored :: "bytes \<Rightarrow> bytes" where
  "unanchored p = (if is_anchored p then drop 1 p else p)"

definition str_find_aux :: "bool \<Rightarrow> bytes \<Rightarrow> bytes \<Rightarrow> int \<Rightarrow> bool \<Rightarrow> lua_value list presult" where
  "str_find_aux is_find s p init0 plain =
     (let ls = length s; lp = length p; init = posrelat init0 ls in
      if \<not> init < 1 \<and> init > wrap_i32 (wrap_i32 (int ls) + 1) then Inr [LNil]
      else
        let start = nat ((if init < 1 then 1 else init) - 1) in
        if is_find \<and> (plain \<or> nospecials p) then
          and_then (lmemfind s start (ls - start) p lp) (\<lambda>r. case r of
            Some s2 \<Rightarrow> Inr [LInt (int s2 + 1), LInt (int s2 + int lp)]
          | None \<Rightarrow> Inr [LNil])
        else
          and_then (search_loop s (unanchored p) (is_anchored p) prepstate start) (\<lambda>r. case r of
            None \<Rightarrow> Inr [LNil]
          | Some (s1, res, ms) \<Rightarrow>
              if is_find then
                and_then (push_captures s ms None) (\<lambda>vs. Inr (LInt (int s1 + 1) # LInt (int res) # vs))
              else push_captures s ms (Some (s1, res))))"

section \<open>\<open>string.gmatch\<close>\<close>

text \<open>One call of the iterator at the position of its upvalue: the new position and the captures. Its loop over the
  places of the source is the loop of \<open>str_find_aux\<close> without an anchor, the end of the source checked first.\<close>

definition gmatch_aux :: "bytes \<Rightarrow> bytes \<Rightarrow> nat \<Rightarrow> (nat \<times> lua_value list) option presult" where
  "gmatch_aux s p pos =
     (if \<not> pos \<le> length s then Inr None
      else and_then (search_loop s p False prepstate pos) (\<lambda>r. case r of
        None \<Rightarrow> Inr None
      | Some (src, e, ms) \<Rightarrow>
          let newstart = if e = src then e + 1 else e in
          and_then (push_captures s ms (Some (src, e))) (\<lambda>vs. Inr (Some (newstart, vs)))))"

section \<open>\<open>string.gsub\<close>\<close>

fun add_s :: "(int \<Rightarrow> bytes) \<Rightarrow> bytes \<Rightarrow> match_state \<Rightarrow> bytes \<Rightarrow> nat \<Rightarrow> nat \<Rightarrow> bytes presult" where
  "add_s tostr src ms [] s e = Inr []"
| "add_s tostr src ms (c # news) s e =
     (if c \<noteq> L_ESC then and_then (add_s tostr src ms news s e) (\<lambda>out. Inr (c # out))
      else case news of
        [] \<Rightarrow> Inl InvalidReplacementEscape
      | d # news \<Rightarrow>
          if \<not> is_ascii_digit d then
            (if d \<noteq> L_ESC then Inl InvalidReplacementEscape
             else and_then (add_s tostr src ms news s e) (\<lambda>out. Inr (d # out)))
          else if d = 48 then
            and_then (raw_slice src s (e - s)) (\<lambda>x. and_then (add_s tostr src ms news s e) (\<lambda>out. Inr (x @ out)))
          else
            and_then (push_onecapture src ms (unat d - 49) (Some (s, e))) (\<lambda>v.
              and_then (add_s tostr src ms news s e) (\<lambda>out.
                Inr ((case v of LInt n \<Rightarrow> tostr n | LStr x \<Rightarrow> x | _ \<Rightarrow> []) @ out))))"

datatype 'g replacement =
  ReplString bytes
| ReplTable "lua_value \<Rightarrow> 'g \<Rightarrow> (lua_value \<times> 'g) presult"
| ReplFunction "lua_value list \<Rightarrow> 'g \<Rightarrow> (lua_value \<times> 'g) presult"

text \<open>What a function or table returned: the original text for nil and false.\<close>

definition replacement_text :: "(int \<Rightarrow> bytes) \<Rightarrow> bytes \<Rightarrow> nat \<Rightarrow> nat \<Rightarrow> lua_value \<Rightarrow> bytes presult" where
  "replacement_text tostr src s e v = (case v of
     LNil \<Rightarrow> raw_slice src s (e - s)
   | LFalse \<Rightarrow> raw_slice src s (e - s)
   | LInt n \<Rightarrow> Inr (tostr n)
   | LStr x \<Rightarrow> Inr x
   | LOther \<Rightarrow> Inl InvalidReplacementValue)"

definition add_value ::
  "(int \<Rightarrow> bytes) \<Rightarrow> bytes \<Rightarrow> 'g replacement \<Rightarrow> match_state \<Rightarrow> nat \<Rightarrow> nat \<Rightarrow> 'g \<Rightarrow> (bytes \<times> 'g) presult" where
  "add_value tostr src repl ms s e g = (case repl of
     ReplString news \<Rightarrow> and_then (add_s tostr src ms news s e) (\<lambda>x. Inr (x, g))
   | ReplTable look \<Rightarrow>
       and_then (push_onecapture src ms 0 (Some (s, e))) (\<lambda>v. and_then (look v g) (\<lambda>(r, g).
         and_then (replacement_text tostr src s e r) (\<lambda>x. Inr (x, g))))
   | ReplFunction call \<Rightarrow>
       and_then (push_captures src ms (Some (s, e))) (\<lambda>vs. and_then (call vs g) (\<lambda>(r, g).
         and_then (replacement_text tostr src s e r) (\<lambda>x. Inr (x, g)))))"

text \<open>The buffer, and the number of substitutions.\<close>

definition gsub_value ::
  "(int \<Rightarrow> bytes) \<Rightarrow> bytes \<Rightarrow> 'g replacement \<Rightarrow> match_state \<Rightarrow> nat \<Rightarrow> nat option \<Rightarrow> int \<Rightarrow> bytes \<Rightarrow> 'g \<Rightarrow>
   (int \<times> bytes \<times> 'g) presult" where
  "gsub_value tostr src repl ms s res n b g = (case res of
     None \<Rightarrow> Inr (n, b, g)
   | Some e \<Rightarrow> and_then (add_value tostr src repl ms s e g) (\<lambda>(x, g). Inr (n + 1, b @ x, g)))"

function gsub_loop ::
  "(int \<Rightarrow> bytes) \<Rightarrow> bytes \<Rightarrow> bytes \<Rightarrow> bool \<Rightarrow> int \<Rightarrow> 'g replacement \<Rightarrow> match_state \<Rightarrow> nat \<Rightarrow> int \<Rightarrow> bytes \<Rightarrow> 'g \<Rightarrow>
   (nat \<times> int \<times> bytes \<times> 'g) presult" where
  "gsub_loop tostr src pat anchor max_s repl ms s n b g =
     (if n < max_s then
        and_then (reprepstate ms) (\<lambda>ms. and_then (match_item src pat match_fuel ms s 0) (\<lambda>(res, ms).
          and_then (gsub_value tostr src repl ms s res n b g) (\<lambda>(n', b, g).
            let e = (case res of Some e \<Rightarrow> e | None \<Rightarrow> s) in
            if e > s then
              (if anchor then Inr (e, n', b, g)
               else gsub_loop tostr src pat anchor max_s repl ms e n' b g)
            else if s < length src then
              and_then (deref src s) (\<lambda>c.
                if anchor then Inr (s + 1, n', b @ [c], g)
                else gsub_loop tostr src pat anchor max_s repl ms (s + 1) n' (b @ [c]) g)
            else Inr (s, n', b, g))))
      else Inr (s, n, b, g))"
  by pat_completeness auto

termination
  by (relation "measure (\<lambda>(tostr, src, pat, anchor, max_s, repl, ms, s, n, b, g). nat (max_s - n) + (length src - s))")
     (auto simp: gsub_value_def split: option.split_asm)

declare gsub_loop.simps [simp del]

definition str_gsub ::
  "(int \<Rightarrow> bytes) \<Rightarrow> bytes \<Rightarrow> bytes \<Rightarrow> 'g replacement \<Rightarrow> int option \<Rightarrow> 'g \<Rightarrow> (bytes \<times> int \<times> 'g) presult" where
  "str_gsub tostr src p repl limit g =
     (let max_s = (case limit of Some m \<Rightarrow> m | None \<Rightarrow> wrap_i32 (wrap_i32 (int (length src)) + 1)) in
      and_then (gsub_loop tostr src (unanchored p) (is_anchored p) max_s repl prepstate 0 0 [] g) (\<lambda>(s, n, b, g).
        and_then (raw_slice src s (length src - s)) (\<lambda>rest. Inr (b @ rest, n, g))))"

end
