(* ===== verification/Lua_Find.thy ===== *)
theory Lua_Find
  imports Lua_Search "HOL-Library.Sublist"
begin

text \<open>
  \<open>string.find\<close>, \<open>string.match\<close> and \<open>string.gmatch\<close>: the search returns the leftmost place with a result of
  the reference, the plain search is the search for a pattern without special characters, and the
  iterator of \<open>gmatch\<close> ends. No call reads outside the two strings.
\<close>

section \<open>Errors and ready states\<close>

definition regular_error :: "bytes \<Rightarrow> pattern_error \<Rightarrow> bool" where
  "regular_error pat e \<longleftrightarrow> e \<noteq> Fault \<and> e \<noteq> OutOfFuel \<and> e \<noteq> AssertionFailed \<and>
     (e = PatternTooComplex \<longrightarrow> LUAI_MAXCCALLS \<le> length pat)"

definition ready :: "match_state \<Rightarrow> bool" where
  "ready ms \<longleftrightarrow> ms_matchdepth ms = LUAI_MAXCCALLS \<and> length (ms_capture ms) = 32"

lemma ready_prepstate [simp]: "ready prepstate"
  by (simp add: ready_def prepstate_def)

lemma ready_reprepstate: "ready ms \<Longrightarrow> reprepstate ms = Inr (ms\<lparr>ms_level := 0\<rparr>)"
  by (simp add: ready_def reprepstate_def)

definition found :: "bytes \<Rightarrow> bytes \<Rightarrow> nat \<Rightarrow> nat \<Rightarrow> match_state \<Rightarrow> bool" where
  "found src pat s e ms \<longleftrightarrow> ready ms \<and> state_ok src e ms \<and> s \<le> e \<and>
     (\<exists>rest. results src pat [] s 0 = (e, caps_of ms) # rest)"

lemma match_cases:
  assumes "ready ms" "s \<le> length src" "length src < 2 ^ 63"
  obtains (error) e where "match_item src pat match_fuel (ms\<lparr>ms_level := 0\<rparr>) s 0 = Inl e" "regular_error pat e"
  | (failed) ms' where "match_item src pat match_fuel (ms\<lparr>ms_level := 0\<rparr>) s 0 = Inr (None, ms')" "ready ms'"
      "results src pat [] s 0 = []"
  | (matched) e ms' where "match_item src pat match_fuel (ms\<lparr>ms_level := 0\<rparr>) s 0 = Inr (Some e, ms')"
      "found src pat s e ms'"
proof -
  define ms0 where "ms0 = ms\<lparr>ms_level := 0\<rparr>"
  have ms0: "ready ms0" "caps_of ms0 = []" "state_ok src s ms0"
    using assms by (simp_all add: ms0_def ready_def caps_of_def state_ok_def)
  have ok: "outcome src ms0 s (Suc (length pat)) (results src pat [] s 0) (match_item src pat match_fuel ms0 s 0)"
    using lua_match.rec_ok [OF ms0(3), of 0 pat match_fuel] ms0 by (simp add: ready_def)
  show thesis
  proof (cases "match_item src pat match_fuel ms0 s 0")
    case (Inl e)
    then show thesis
      using ok ms0(1) error by (auto simp: outcome_def regular_error_def ready_def ms0_def)
  next
    case (Inr x)
    obtain res ms' where x: "x = (res, ms')" by (cases x)
    show thesis
    proof (cases res)
      case None
      then have "restored ms0 ms'" "results src pat [] s 0 = []" using ok Inr x by (simp_all add: outcome_def)
      then show thesis using failed Inr x None ms0(1) by (simp add: ready_def restored_def ms0_def)
    next
      case (Some e)
      then have "found src pat s e ms'"
        using ok Inr x ms0(1) by (simp add: outcome_def found_def ready_def state_ok_def)
      then show thesis using matched Inr x Some by (simp add: ms0_def)
    qed
  qed
qed

section \<open>The search\<close>

definition candidates :: "bytes \<Rightarrow> bool \<Rightarrow> nat \<Rightarrow> nat set" where
  "candidates src anchor s = (if anchor then {s} else {s..length src})"

definition search_ok ::
  "bytes \<Rightarrow> bytes \<Rightarrow> bool \<Rightarrow> nat \<Rightarrow> (nat \<times> nat \<times> match_state) option presult \<Rightarrow> bool" where
  "search_ok src pat anchor s r = (case r of
     Inl e \<Rightarrow> regular_error pat e
   | Inr None \<Rightarrow> (\<forall>i \<in> candidates src anchor s. results src pat [] i 0 = [])
   | Inr (Some (s1, e, ms)) \<Rightarrow> s1 \<in> candidates src anchor s \<and> found src pat s1 e ms \<and>
       (\<forall>i \<in> candidates src anchor s. i < s1 \<longrightarrow> results src pat [] i 0 = []))"

lemma search_loop_ok:
  "ready ms \<Longrightarrow> s \<le> length src \<Longrightarrow> length src < 2 ^ 63 \<Longrightarrow> search_ok src pat anchor s (search_loop src pat anchor ms s)"
proof (induction "length src - s" arbitrary: s ms)
  case (0 s ms)
  then have s: "s = length src" by simp
  show ?case
    using "0.prems" unfolding search_loop.simps [of src pat anchor ms s] ready_reprepstate [OF "0.prems"(1)]
    by (cases rule: match_cases [OF "0.prems", of pat])
       (auto simp: s search_ok_def candidates_def)
next
  case (Suc m s ms)
  then have s: "s < length src" by simp
  show ?case
  proof (cases rule: match_cases [OF Suc.prems, of pat, case_names error failed matched])
    case (error e)
    then show ?thesis
      by (simp add: search_loop.simps [of src pat anchor ms s] ready_reprepstate [OF Suc.prems(1)] search_ok_def)
  next
    case (failed ms')
    have eq: "search_loop src pat anchor ms s =
        (if anchor then Inr None else search_loop src pat anchor ms' (s + 1))"
      using failed s by (simp add: search_loop.simps [of src pat anchor ms s] ready_reprepstate [OF Suc.prems(1)])
    show ?thesis
    proof (cases anchor)
      case True
      then show ?thesis unfolding eq using failed(3) by (simp add: search_ok_def candidates_def)
    next
      case False
      have "candidates src anchor s = insert s (candidates src anchor (s + 1))"
        using False s by (auto simp: candidates_def)
      moreover have "search_ok src pat anchor (s + 1) (search_loop src pat anchor ms' (s + 1))"
        using Suc.hyps(1) [of "s + 1" ms'] Suc.hyps(2) failed(2) s Suc.prems(3) by simp
      ultimately show ?thesis
        unfolding eq using False failed(3)
        by (auto simp: search_ok_def split: sum.splits option.splits)
    qed
  next
    case (matched e ms')
    then show ?thesis
      using s by (auto simp: search_loop.simps [of src pat anchor ms s] ready_reprepstate [OF Suc.prems(1)]
          search_ok_def candidates_def)
  qed
qed

section \<open>The captures of a match\<close>

definition capture_value :: "bytes \<Rightarrow> capture \<Rightarrow> lua_value presult" where
  "capture_value src c =
     (if cap_len c = CAP_UNFINISHED then Inl UnfinishedCapture
      else if cap_len c = CAP_POSITION then Inr (LInt (int (cap_init c) + 1))
      else Inr (LStr (take (nat (cap_len c)) (drop (cap_init c) src))))"

fun capture_values :: "bytes \<Rightarrow> capture list \<Rightarrow> lua_value list presult" where
  "capture_values src [] = Inr []"
| "capture_values src (c # cs) =
     and_then (capture_value src c) (\<lambda>v. and_then (capture_values src cs) (\<lambda>vs. Inr (v # vs)))"

definition match_values :: "bytes \<Rightarrow> nat \<Rightarrow> nat \<Rightarrow> capture list \<Rightarrow> lua_value list presult" where
  "match_values src s e caps =
     (if caps = [] then Inr [LStr (take (e - s) (drop s src))] else capture_values src caps)"

lemma raw_slice_ok: "s \<le> e \<Longrightarrow> e \<le> length src \<Longrightarrow> raw_slice src s (e - s) = Inr (take (e - s) (drop s src))"
  by (simp add: raw_slice_def)

lemma push_onecapture_eq:
  assumes "state_ok src e ms" "i < ms_level ms"
  shows "push_onecapture src ms i sp = capture_value src (caps_of ms ! i)"
proof -
  define c where "c = caps_of ms ! i"
  have "c \<in> set (caps_of ms)" using assms by (simp add: c_def length_caps)
  then have c: "cap_ok src e c" using assms(1) by (simp add: state_ok_def)
  have get: "get_capture ms i = Inr c"
    using assms by (simp add: get_capture_def c_def caps_nth state_ok_def)
  show ?thesis
  proof (cases "cap_len c = CAP_UNFINISHED \<or> cap_len c = CAP_POSITION")
    case True
    then show ?thesis using get assms(2) by (auto simp: push_onecapture_def capture_value_def c_def [symmetric])
  next
    case False
    then have len: "0 \<le> cap_len c" "int (cap_init c) + cap_len c \<le> int (length src)" "length src < 2 ^ 63"
      using c assms(1) by (auto simp: cap_ok_def state_ok_def)
    then have "usize_of (cap_len c) = nat (cap_len c)" by (intro usize_of_nonneg) simp_all
    then show ?thesis
      using False get assms(2) len by (simp add: push_onecapture_def capture_value_def raw_slice_def flip: c_def)
  qed
qed

lemma push_loop_eq:
  assumes "state_ok src e ms"
  shows "set is \<subseteq> {..<ms_level ms} \<Longrightarrow> push_loop src ms is sp = capture_values src (map ((!) (caps_of ms)) is)"
  by (induction "is") (simp_all add: push_onecapture_eq [OF assms])

lemma push_captures_eq:
  assumes "state_ok src e ms"
  shows "push_captures src ms None = capture_values src (caps_of ms)"
    and "s \<le> e \<Longrightarrow> push_captures src ms (Some (s, e)) = match_values src s e (caps_of ms)"
proof -
  have map: "map ((!) (caps_of ms)) [0..<ms_level ms] = caps_of ms"
    using map_nth [of "caps_of ms"] length_caps [OF assms] by simp
  show "push_captures src ms None = capture_values src (caps_of ms)"
    using push_loop_eq [OF assms, of "[0..<ms_level ms]" None] map by (simp add: push_captures_def lessThan_atLeast0)
  show "push_captures src ms (Some (s, e)) = match_values src s e (caps_of ms)" if "s \<le> e"
  proof (cases "ms_level ms = 0")
    case True
    then have "caps_of ms = []" by (simp add: caps_of_def)
    then show ?thesis
      using True that assms by (simp add: push_captures_def match_values_def push_onecapture_def raw_slice_ok state_ok_def)
  next
    case False
    then have "caps_of ms \<noteq> []" using length_caps [OF assms] by auto
    then show ?thesis
      using push_loop_eq [OF assms, of "[0..<ms_level ms]" "Some (s, e)"] map False
      by (simp add: push_captures_def match_values_def lessThan_atLeast0)
  qed
qed

lemma capture_values_error: "capture_values src cs = Inl e \<Longrightarrow> e = UnfinishedCapture"
proof (induction cs)
  case (Cons c cs)
  then show ?case by (auto simp: and_then_def capture_value_def split: sum.splits if_splits)
qed simp

lemma match_values_error: "match_values src s e caps = Inl err \<Longrightarrow> err = UnfinishedCapture"
  by (auto simp: match_values_def dest: capture_values_error split: if_splits)

section \<open>Plain search\<close>

lemma find_append: "find P (xs @ ys) = (case find P xs of None \<Rightarrow> find P ys | Some x \<Rightarrow> Some x)"
  by (induction xs) simp_all

lemma find_skip:
  assumes "a \<le> m" "m \<le> b" "\<And>i. a \<le> i \<Longrightarrow> i < m \<Longrightarrow> \<not> P i"
  shows "find P [a..<b] = find P [m..<b]"
proof -
  have "[a..<b] = [a..<m] @ [m..<b]" using assms(1,2) by (metis le_Suc_ex upt_add_eq_append)
  moreover have "find P [a..<m] = None" using assms(3) by (auto simp: find_None_iff)
  ultimately show ?thesis by (simp add: find_append)
qed

lemma prefix_drop: "i + length p \<le> length b \<Longrightarrow> prefix p (drop i b) \<longleftrightarrow> take (length p) (drop i b) = p"
  by (metis append_take_drop_id prefixI prefix_def append_eq_conv_conj)

lemma lmemfind_loop_eq:
  assumes "p = c # q"
  shows "s1 + l1 + length q \<le> length b \<Longrightarrow>
    lmemfind_loop b p (length q) s1 l1 = Inr (find (\<lambda>i. prefix p (drop i b)) [s1..<s1 + l1])"
proof (induction l1 arbitrary: s1 rule: less_induct)
  case (less l1)
  show ?case
  proof (cases "l1 = 0")
    case True
    then show ?thesis by (simp add: lmemfind_loop.simps)
  next
    case False
    have c: "deref p 0 = Inr c" using assms by (simp add: byte_at_def)
    have first: "prefix p (drop i b) \<longleftrightarrow> b ! i = c \<and> take (length q) (drop (i + 1) b) = q" if "i < s1 + l1" for i
    proof -
      have "drop i b = b ! i # drop (i + 1) b" using that less.prems by (simp add: Cons_nth_drop_Suc)
      then show ?thesis
        using prefix_drop [of "i + 1" q b] that less.prems assms by auto
    qed
    have mem: "memchr b s1 c l1 = Inr (find (\<lambda>i. b ! i = c) [s1..<s1 + l1])"
      using less.prems by (simp add: memchr_def)
    have unfold: "lmemfind_loop b p (length q) s1 l1 =
      (case find (\<lambda>i. b ! i = c) [s1..<s1 + l1] of None \<Rightarrow> Inr None
       | Some i \<Rightarrow> and_then (raw_slice b (i + 1) (length q)) (\<lambda>x. and_then (raw_slice p 1 (length q)) (\<lambda>y.
              if x = y then Inr (Some i) else lmemfind_loop b p (length q) (i + 1) (l1 - (i + 1 - s1)))))"
      using False by (simp add: lmemfind_loop.simps [of b p _ s1] c mem del: deref_ok cong: option.case_cong if_cong)
    show ?thesis
    proof (cases "find (\<lambda>i. b ! i = c) [s1..<s1 + l1]")
      case None
      then have "b ! i \<noteq> c" if "s1 \<le> i" "i < s1 + l1" for i
        using that by (auto simp: find_None_iff)
      then have "find (\<lambda>i. prefix p (drop i b)) [s1..<s1 + l1] = None"
        using first by (auto simp: find_None_iff)
      then show ?thesis unfolding unfold None by simp
    next
      case (Some i)
      have i: "s1 \<le> i" "i < s1 + l1" "b ! i = c" using find_upt_range [OF Some] by simp_all
      have before: "b ! j \<noteq> c" if "s1 \<le> j" "j < i" for j
      proof
        assume "b ! j = c"
        obtain k where "k < l1" "[s1..<s1 + l1] ! k = i" "\<forall>m<k. b ! ([s1..<s1 + l1] ! m) \<noteq> c"
          using Some by (auto simp: find_Some_iff)
        then have "\<And>m. m < i - s1 \<Longrightarrow> b ! (s1 + m) \<noteq> c" by auto
        from this [of "j - s1"] show False using \<open>b ! j = c\<close> that by (simp add: diff_less_mono)
      qed
      then have skip: "find (\<lambda>i. prefix p (drop i b)) [s1..<s1 + l1] = find (\<lambda>i. prefix p (drop i b)) [i..<s1 + l1]"
        using i first by (intro find_skip) auto
      have slices: "raw_slice b (i + 1) (length q) = Inr (take (length q) (drop (i + 1) b))"
          "raw_slice p 1 (length q) = Inr q"
        using i less.prems assms by (simp_all add: raw_slice_def)
      have rest: "[i..<s1 + l1] = i # [i + 1..<s1 + l1]" using i by (simp add: upt_conv_Cons)
      show ?thesis
      proof (cases "take (length q) (drop (i + 1) b) = q")
        case True
        then show ?thesis unfolding unfold Some skip rest using i first [of i] slices by simp
      next
        case False
        have lt: "l1 - (i + 1 - s1) < l1" and sum: "i + 1 + (l1 - (i + 1 - s1)) = s1 + l1"
          using i by auto
        have tail: "lmemfind_loop b p (length q) (i + 1) (l1 - (i + 1 - s1)) =
            Inr (find (\<lambda>i. prefix p (drop i b)) [i + 1..<s1 + l1])"
          by (rule less.IH [OF lt, of "i + 1", unfolded sum]) (rule less.prems)
        show ?thesis
          unfolding unfold Some skip rest option.case slices and_then_simps tail find.simps
          using False i first [of i] by simp
      qed
    qed
  qed
qed

lemma lmemfind_eq:
  assumes "s \<le> length b"
  shows "lmemfind b s (length b - s) p (length p) = Inr (find (\<lambda>i. prefix p (drop i b)) [s..<Suc (length b)])"
proof (cases p)
  case Nil
  then show ?thesis using assms by (simp add: lmemfind_def find_upt_Suc del: upt_Suc)
next
  case (Cons c q)
  show ?thesis
  proof (cases "length p \<le> length b - s")
    case False
    then have "\<not> prefix p (drop i b)" if "s \<le> i" for i
      using that prefix_length_le [of p "drop i b"] by auto
    then have "find (\<lambda>i. prefix p (drop i b)) [s..<Suc (length b)] = None"
      by (auto simp: find_None_iff simp del: upt_Suc)
    then show ?thesis using False Cons by (simp add: lmemfind_def del: upt_Suc)
  next
    case True
    define m where "m = length b - length q"
    have m: "s + (length b - s - length q) = m" "m \<le> length b" "s \<le> m"
      using True Cons assms by (auto simp: m_def)
    have "\<not> prefix p (drop i b)" if "m \<le> i" for i
      using that prefix_length_le [of p "drop i b"] Cons True by (auto simp: m_def)
    then have none: "find (\<lambda>i. prefix p (drop i b)) [m..<Suc (length b)] = None"
      by (auto simp: find_None_iff simp del: upt_Suc)
    have "[s..<Suc (length b)] = [s..<m] @ [m..<Suc (length b)]"
      using m by (metis le_SucI le_Suc_ex upt_add_eq_append)
    then have "find (\<lambda>i. prefix p (drop i b)) [s..<Suc (length b)] = find (\<lambda>i. prefix p (drop i b)) [s..<m]"
      using none by (simp add: find_append del: upt_Suc split: option.split)
    moreover have "lmemfind b s (length b - s) p (length p) = Inr (find (\<lambda>i. prefix p (drop i b)) [s..<m])"
      using lmemfind_loop_eq [OF Cons, of s "length b - s - length q" b] True Cons m
      by (simp add: lmemfind_def)
    ultimately show ?thesis by simp
  qed
qed

text \<open>A pattern without special characters matches itself only.\<close>

definition plain_pattern :: "bytes \<Rightarrow> bool" where
  "plain_pattern p \<longleftrightarrow> set p \<inter> set SPECIALS = {} \<and> ch_close \<notin> set p"

lemma nospecials_loop_iff:
  "i \<le> length p \<Longrightarrow> nospecials_loop p i \<longleftrightarrow> set (drop i p) \<inter> set SPECIALS = {}"
proof (induction "Suc (length p) - i" arbitrary: i rule: less_induct)
  case less
  define seg rest where "seg = takeWhile (\<lambda>b. b \<noteq> 0) (drop i p)" and "rest = dropWhile (\<lambda>b. b \<noteq> 0) (drop i p)"
  define j where "j = i + length seg + 1"
  have unfold: "nospecials_loop p i \<longleftrightarrow>
      \<not> list_ex (\<lambda>b. b \<in> set SPECIALS) seg \<and> (j > length p \<or> nospecials_loop p j)"
    by (simp add: nospecials_loop.simps [of p i] seg_def j_def Let_def)
  have parts: "drop i p = seg @ rest" by (simp add: seg_def rest_def)
  then have len: "length p - i = length seg + length rest" by (metis length_append length_drop)
  have zero: "0 \<notin> set SPECIALS" by (simp add: SPECIALS_def)
  show ?case
  proof (cases "j > length p")
    case True
    then have "length rest = 0" using len less.prems unfolding j_def by linarith
    then have "rest = []" by simp
    then show ?thesis unfolding unfold parts using True by (auto simp: list_ex_iff)
  next
    case False
    then have "rest \<noteq> []" using len by (auto simp: j_def)
    then obtain z where z: "rest = 0 # z"
      using hd_dropWhile [of "\<lambda>b. b \<noteq> 0" "drop i p"] by (cases rest) (auto simp: rest_def)
    have "drop j p = drop (length seg + 1) (drop i p)" by (simp add: j_def add.commute add.left_commute)
    also have "\<dots> = z" unfolding parts z by simp
    finally have "nospecials_loop p j \<longleftrightarrow> set z \<inter> set SPECIALS = {}"
      using less.hyps [of j] False by (simp add: j_def)
    then show ?thesis unfolding unfold parts z using False zero by (auto simp: list_ex_iff)
  qed
qed

lemma nospecials_iff: "nospecials p \<longleftrightarrow> set p \<inter> set SPECIALS = {}"
  using nospecials_loop_iff [of 0 p] by (simp add: nospecials_def)

lemma plain_mem: "plain_pattern p \<Longrightarrow> c \<in> set p \<Longrightarrow> c \<notin> set SPECIALS \<and> c \<noteq> ch_close"
  by (auto simp: plain_pattern_def disjoint_iff)

lemma plain_step:
  assumes "plain_pattern pat" "p < length pat" "s \<le> length src"
  shows "match_step rec src pat ms s p =
    (if s < length src \<and> src ! s = pat ! p then Inr (Init (s + 1) (p + 1), ms) else Inr (Done None, ms))"
proof -
  have c: "pat ! p \<notin> set SPECIALS" "pat ! p \<noteq> ch_close"
    using plain_mem [OF assms(1) nth_mem [OF assms(2)]] by simp_all
  have q: "byte_at pat (p + 1) \<notin> {ch_star, ch_quest, ch_minus, ch_plus}"
  proof (cases "p + 1 < length pat")
    case True
    then have "pat ! (p + 1) \<notin> set SPECIALS"
      using plain_mem [OF assms(1) nth_mem [OF True]] by simp
    then show ?thesis using True by (auto simp: byte_at_def SPECIALS_def)
  next
    case False
    then show ?thesis by (simp add: byte_at_def)
  qed
  have cend: "classend pat p = Inr (p + 1)"
    using assms(2) c by (simp add: classend_def byte_at_def L_ESC_def SPECIALS_def)
  have single: "singlematch src pat s p (p + 1) = Inr (s < length src \<and> src ! s = pat ! p)"
    using assms(2,3) c by (auto simp: singlematch_def byte_at_def L_ESC_def SPECIALS_def)
  have "match_step rec src pat ms s p = match_default rec src pat ms s p"
    using assms(2) c by (auto simp: match_step_def byte_at_def L_ESC_def SPECIALS_def)
  then show ?thesis using cend single q assms(2) by (simp add: match_default_def)
qed

lemma plain_loop:
  "plain_pattern pat \<Longrightarrow> p \<le> length pat \<Longrightarrow> s \<le> length src \<Longrightarrow>
   match_loop rec src pat ms s p =
     Inr (if prefix (drop p pat) (drop s src) then Some (s + (length pat - p)) else None, ms)"
proof (induction "length pat - p" arbitrary: s p)
  case 0
  then show ?case by (simp add: match_loop.simps [of rec src pat ms s p] match_step_def)
next
  case (Suc n)
  then have p: "p < length pat" and n: "n = length pat - (p + 1)" by simp_all
  have pat: "drop p pat = pat ! p # drop (p + 1) pat" using p by (simp add: Cons_nth_drop_Suc)
  note loop = match_loop.simps [of rec src pat ms s p] plain_step [OF Suc.prems(1) p Suc.prems(3), of rec ms]
  show ?case
  proof (cases "s < length src")
    case False
    then have "match_loop rec src pat ms s p = Inr (None, ms)" unfolding loop by simp
    moreover have "drop s src = []" using False by simp
    ultimately show ?thesis unfolding pat by simp
  next
    case True
    then have src: "drop s src = src ! s # drop (s + 1) src" by (simp add: Cons_nth_drop_Suc)
    show ?thesis
    proof (cases "src ! s = pat ! p")
      case eq: True
      have "match_loop rec src pat ms s p = match_loop rec src pat ms (s + 1) (p + 1)"
        using eq True unfolding loop by simp
      also have "\<dots> = Inr (if prefix (drop (p + 1) pat) (drop (s + 1) src) then Some (s + 1 + (length pat - (p + 1))) else None, ms)"
        using Suc.hyps(1) [OF n Suc.prems(1)] p True by simp
      finally have loop': "match_loop rec src pat ms s p =
          Inr (if prefix (drop (p + 1) pat) (drop (s + 1) src) then Some (s + 1 + (length pat - (p + 1))) else None, ms)" .
      have "s + 1 + (length pat - (p + 1)) = s + (length pat - p)" using p by linarith
      from loop' [unfolded this] show ?thesis unfolding pat src using eq by simp
    next
      case False
      then show ?thesis
        unfolding pat src loop by simp
    qed
  qed
qed

lemma plain_match_item:
  assumes "plain_pattern pat" "ready ms" "s \<le> length src"
  shows "match_item src pat match_fuel (ms\<lparr>ms_level := 0\<rparr>) s 0 =
    Inr (if prefix pat (drop s src) then Some (s + length pat) else None, ms\<lparr>ms_level := 0\<rparr>)"
proof -
  have "0 < LUAI_MAXCCALLS" by (simp add: LUAI_MAXCCALLS_def)
  then show ?thesis
    using assms plain_loop [OF assms(1), of 0 s src] by (simp add: ready_def)
qed

lemma plain_search_loop:
  "plain_pattern pat \<Longrightarrow> ready ms \<Longrightarrow> s \<le> length src \<Longrightarrow>
   search_loop src pat False ms s =
     Inr (map_option (\<lambda>i. (i, i + length pat, ms\<lparr>ms_level := 0\<rparr>))
       (find (\<lambda>i. prefix pat (drop i src)) [s..<Suc (length src)]))"
proof (induction "length src - s" arbitrary: s ms)
  case 0
  then show ?case
    by (simp add: search_loop.simps [of src pat False ms s] ready_reprepstate plain_match_item find_upt_Suc
        del: upt_Suc match_item.simps)
next
  case (Suc n)
  then have s: "s < length src" and n: "n = length src - (s + 1)" by simp_all
  have "ready (ms\<lparr>ms_level := 0\<rparr>)" using Suc.prems(2) by (simp add: ready_def)
  then show ?case
    using Suc.hyps(1) [OF n Suc.prems(1), of "ms\<lparr>ms_level := 0\<rparr>"] Suc.prems s
    by (simp add: search_loop.simps [of src pat False ms s] ready_reprepstate plain_match_item find_upt_Suc [of _ s]
        del: upt_Suc match_item.simps)
qed

text \<open>C15: For a pattern without special characters and closing parentheses the plain search of \<open>lmemfind\<close>
  and the search with the matcher find the same place, the end of the match included, and
  neither raises an error.\<close>

theorem plain_search_agrees:
  assumes "nospecials p" and "ch_close \<notin> set p" and "s \<le> length src"
  shows "search_loop src p False prepstate s =
    and_then (lmemfind src s (length src - s) p (length p))
      (\<lambda>r. Inr (map_option (\<lambda>i. (i, i + length p, prepstate)) r))"
proof -
  have "plain_pattern p" using assms(1,2) by (simp add: plain_pattern_def nospecials_iff)
  moreover have "prepstate\<lparr>ms_level := 0\<rparr> = prepstate" by (simp add: prepstate_def)
  ultimately show ?thesis
    using plain_search_loop [of p prepstate s src] assms(3) by (simp add: lmemfind_eq del: upt_Suc)
qed

theorem plain_search_agrees_witness:
  "search_loop [97, 98, 97, 98, 99] [98, 99] False prepstate 1 =
    and_then (lmemfind [97, 98, 97, 98, 99] 1 (length [97, 98, 97, 98, 99 :: u8] - 1) [98, 99] (length [98, 99 :: u8]))
      (\<lambda>r. Inr (map_option (\<lambda>i. (i, i + length [98, 99 :: u8], prepstate)) r))
   \<and> lmemfind [97, 98, 97, 98, 99] 1 4 [98, 99] 2 = Inr (Some 3)"
proof
  show "search_loop [97, 98, 97, 98, 99] [98, 99] False prepstate 1 =
    and_then (lmemfind [97, 98, 97, 98, 99] 1 (length [97, 98, 97, 98, 99 :: u8] - 1) [98, 99] (length [98, 99 :: u8]))
      (\<lambda>r. Inr (map_option (\<lambda>i. (i, i + length [98, 99 :: u8], prepstate)) r))"
    by (rule plain_search_agrees) code_simp+
  show "lmemfind [97, 98, 97, 98, 99] 1 4 [98, 99] 2 = Inr (Some 3)" by code_simp
qed

section \<open>The search of \<open>string.find\<close> and \<open>string.match\<close>\<close>

definition find_start :: "int \<Rightarrow> nat \<Rightarrow> nat" where
  "find_start init len = nat ((if posrelat init len < 1 then 1 else posrelat init len) - 1)"

definition find_values :: "bool \<Rightarrow> bytes \<Rightarrow> nat \<Rightarrow> nat \<Rightarrow> capture list \<Rightarrow> lua_value list presult" where
  "find_values is_find src s e caps =
     (if is_find then and_then (capture_values src caps) (\<lambda>vs. Inr (LInt (int s + 1) # LInt (int e) # vs))
      else match_values src s e caps)"

lemma find_values_error: "find_values is_find src s e caps = Inl err \<Longrightarrow> err = UnfinishedCapture"
  by (auto simp: find_values_def and_then_def dest: match_values_error capture_values_error
      split: sum.splits if_splits)

lemma found_values:
  assumes "found src pat s e ms"
  shows "(if is_find then and_then (push_captures src ms None) (\<lambda>vs. Inr (LInt (int s + 1) # LInt (int e) # vs))
          else push_captures src ms (Some (s, e))) = find_values is_find src s e (caps_of ms)"
  using assms push_captures_eq(1) [of src e ms] push_captures_eq(2) [of src e ms s] by (simp add: found_def find_values_def)

lemma str_find_aux_eq:
  assumes "length s < 2 ^ 30" "posrelat init (length s) \<le> int (length s) + 1"
    and "\<not> (is_find \<and> (plain \<or> nospecials p))"
  shows "str_find_aux is_find s p init plain =
    and_then (search_loop s (unanchored p) (is_anchored p) prepstate (find_start init (length s))) (\<lambda>r. case r of
      None \<Rightarrow> Inr [LNil]
    | Some (s1, res, ms) \<Rightarrow>
        if is_find then and_then (push_captures s ms None) (\<lambda>vs. Inr (LInt (int s1 + 1) # LInt (int res) # vs))
        else push_captures s ms (Some (s1, res)))"
    and "find_start init (length s) \<le> length s"
  using assms by (auto simp: str_find_aux_def find_start_def wrap_i32_small Let_def)

text \<open>C14: \<open>string.find\<close> with a pattern and \<open>string.match\<close> return the leftmost place at or behind the start
  at which the pattern has a result, with the end and the captures of its first result, and nil only when
  there is no such place; a leading circumflex admits the start only. An error is not a memory fault,
  and a pattern shorter than the limit of the depth is never too complex.\<close>

theorem find_is_leftmost:
  assumes "length s < 2 ^ 30" and "posrelat init (length s) \<le> int (length s) + 1"
    and "\<not> (is_find \<and> (plain \<or> nospecials p))"
  defines "places \<equiv> candidates s (is_anchored p) (find_start init (length s))"
  shows "case str_find_aux is_find s p init plain of
      Inl err \<Rightarrow> regular_error (unanchored p) err
    | Inr vs \<Rightarrow>
        (vs = [LNil] \<and> (\<forall>i \<in> places. results s (unanchored p) [] i 0 = [])) \<or>
        (\<exists>i e caps rest. i \<in> places \<and> (\<forall>j \<in> places. j < i \<longrightarrow> results s (unanchored p) [] j 0 = []) \<and>
           results s (unanchored p) [] i 0 = (e, caps) # rest \<and> find_values is_find s i e caps = Inr vs)"
proof -
  define r where "r = search_loop s (unanchored p) (is_anchored p) prepstate (find_start init (length s))"
  note eq = str_find_aux_eq(1) [OF assms(1-3), folded r_def]
  have ok: "search_ok s (unanchored p) (is_anchored p) (find_start init (length s)) r"
    using search_loop_ok [OF ready_prepstate str_find_aux_eq(2) [OF assms(1-3)]] assms(1) by (simp add: r_def)
  consider (error) err where "r = Inl err" | (none) "r = Inr None" | (some) i e ms where "r = Inr (Some (i, e, ms))"
    by (metis obj_sumE option.exhaust prod.exhaust)
  then show ?thesis
  proof cases
    case error
    then show ?thesis using ok by (simp add: eq search_ok_def)
  next
    case none
    then show ?thesis using ok by (simp add: eq search_ok_def places_def)
  next
    case (some i e ms)
    then have place: "i \<in> places" "found s (unanchored p) i e ms"
        "\<forall>j \<in> places. j < i \<longrightarrow> results s (unanchored p) [] j 0 = []"
      using ok by (simp_all add: search_ok_def places_def)
    then obtain rest where rest: "results s (unanchored p) [] i 0 = (e, caps_of ms) # rest"
      by (auto simp: found_def)
    have "str_find_aux is_find s p init plain = find_values is_find s i e (caps_of ms)"
      using found_values [OF place(2), of is_find] by (simp add: eq some)
    then show ?thesis
      using place rest find_values_error [of is_find s i e "caps_of ms"]
      by (cases "find_values is_find s i e (caps_of ms)") (auto simp: regular_error_def)
  qed
qed

theorem find_is_leftmost_witness:
  "(case str_find_aux True [104, 105, 32, 49, 50] [40, 37, 100, 43, 41] 1 False of
      Inl err \<Rightarrow> regular_error (unanchored [40, 37, 100, 43, 41]) err
    | Inr vs \<Rightarrow>
        (vs = [LNil] \<and> (\<forall>i \<in> candidates [104, 105, 32, 49, 50] (is_anchored [40, 37, 100, 43, 41])
             (find_start 1 (length [104, 105, 32, 49, 50 :: u8])).
           results [104, 105, 32, 49, 50] (unanchored [40, 37, 100, 43, 41]) [] i 0 = [])) \<or>
        (\<exists>i e caps rest. i \<in> candidates [104, 105, 32, 49, 50] (is_anchored [40, 37, 100, 43, 41])
             (find_start 1 (length [104, 105, 32, 49, 50 :: u8])) \<and>
           (\<forall>j \<in> candidates [104, 105, 32, 49, 50] (is_anchored [40, 37, 100, 43, 41])
             (find_start 1 (length [104, 105, 32, 49, 50 :: u8])).
              j < i \<longrightarrow> results [104, 105, 32, 49, 50] (unanchored [40, 37, 100, 43, 41]) [] j 0 = []) \<and>
           results [104, 105, 32, 49, 50] (unanchored [40, 37, 100, 43, 41]) [] i 0 = (e, caps) # rest \<and>
           find_values True [104, 105, 32, 49, 50] i e caps = Inr vs))
   \<and> str_find_aux True [104, 105, 32, 49, 50] [40, 37, 100, 43, 41] 1 False =
       Inr [LInt 4, LInt 5, LStr [49, 50]]"
proof (rule conjI, rule find_is_leftmost)
  show "posrelat 1 (length [104, 105, 32, 49, 50 :: u8]) \<le> int (length [104, 105, 32, 49, 50 :: u8]) + 1"
    by code_simp
  show "\<not> (True \<and> (False \<or> nospecials [40, 37, 100, 43, 41]))" by code_simp
  show "str_find_aux True [104, 105, 32, 49, 50] [40, 37, 100, 43, 41] 1 False =
       Inr [LInt 4, LInt 5, LStr [49, 50]]" by code_simp
qed simp

section \<open>The iterator of \<open>string.gmatch\<close>\<close>

lemma gmatch_aux_ok:
  assumes "length s < 2 ^ 63"
  shows "case gmatch_aux s p pos of
      Inl err \<Rightarrow> regular_error p err
    | Inr None \<Rightarrow> \<forall>i. pos \<le> i \<and> i \<le> length s \<longrightarrow> results s p [] i 0 = []
    | Inr (Some (pos', vs)) \<Rightarrow> pos < pos' \<and> pos' \<le> length s + 1 \<and>
        (\<exists>i e caps rest. pos \<le> i \<and> i \<le> length s \<and> (\<forall>j. pos \<le> j \<and> j < i \<longrightarrow> results s p [] j 0 = []) \<and>
           results s p [] i 0 = (e, caps) # rest \<and> pos' = (if e = i then e + 1 else e) \<and>
           match_values s i e caps = Inr vs)"
proof (cases "pos \<le> length s")
  case False
  then show ?thesis by (auto simp: gmatch_aux_def)
next
  case True
  define r where "r = search_loop s p False prepstate pos"
  have ok: "search_ok s p False pos r"
    using search_loop_ok [OF ready_prepstate True assms] by (simp add: r_def)
  consider (error) err where "r = Inl err" | (none) "r = Inr None" | (some) i e ms where "r = Inr (Some (i, e, ms))"
    by (metis obj_sumE option.exhaust prod.exhaust)
  then show ?thesis
  proof cases
    case error
    then show ?thesis using ok True by (simp add: gmatch_aux_def search_ok_def flip: r_def)
  next
    case none
    then show ?thesis using ok True by (simp add: gmatch_aux_def search_ok_def candidates_def flip: r_def)
  next
    case (some i e ms)
    then have place: "pos \<le> i" "i \<le> length s" "found s p i e ms"
        "\<forall>j. pos \<le> j \<and> j < i \<longrightarrow> results s p [] j 0 = []"
      using ok by (auto simp: search_ok_def candidates_def)
    then obtain rest where rest: "results s p [] i 0 = (e, caps_of ms) # rest" "i \<le> e" "state_ok s e ms" "e \<le> length s"
      by (auto simp: found_def state_ok_def)
    have vals: "push_captures s ms (Some (i, e)) = match_values s i e (caps_of ms)"
      using push_captures_eq(2) rest by simp
    show ?thesis
    proof (cases "match_values s i e (caps_of ms)")
      case (Inl err)
      then show ?thesis
        using some True vals match_values_error [OF Inl]
        by (simp add: gmatch_aux_def regular_error_def flip: r_def)
    next
      case (Inr vs)
      then have "gmatch_aux s p pos = Inr (Some (if e = i then e + 1 else e, vs))"
        using some True vals by (simp add: gmatch_aux_def Let_def flip: r_def)
      moreover have "\<exists>j e' caps rest'. pos \<le> j \<and> j \<le> length s \<and> (\<forall>k. pos \<le> k \<and> k < j \<longrightarrow> results s p [] k 0 = []) \<and>
           results s p [] j 0 = (e', caps) # rest' \<and> (if e = i then e + 1 else e) = (if e' = j then e' + 1 else e') \<and>
           match_values s j e' caps = Inr vs"
        using place rest(1) Inr by (intro exI [of _ i] exI [of _ e] exI [of _ "caps_of ms"] exI [of _ rest]) auto
      ultimately show ?thesis using place(1) rest(2,4) by simp
    qed
  qed
qed

text \<open>The loop \<open>for ... in string.gmatch(s, p)\<close> for at most \<open>n\<close> calls of the iterator: the captures of all
  matches, or None when the calls were not enough.\<close>

primrec gmatch_run :: "nat \<Rightarrow> bytes \<Rightarrow> bytes \<Rightarrow> nat \<Rightarrow> lua_value list list option presult" where
  "gmatch_run 0 s p pos = Inr None"
| "gmatch_run (Suc n) s p pos =
     and_then (gmatch_aux s p pos) (\<lambda>r. case r of
       None \<Rightarrow> Inr (Some [])
     | Some (pos', vs) \<Rightarrow> and_then (gmatch_run n s p pos') (\<lambda>rest. Inr (map_option ((#) vs) rest)))"

lemma gmatch_run_ends:
  "length s < 2 ^ 63 \<Longrightarrow> length s + 2 \<le> pos + n \<Longrightarrow> 0 < n \<Longrightarrow>
   case gmatch_run n s p pos of
     Inl err \<Rightarrow> regular_error p err
   | Inr None \<Rightarrow> False
   | Inr (Some vss) \<Rightarrow> length vss \<le> length s + 1 - pos"
proof (induction n arbitrary: pos)
  case (Suc n)
  note aux = gmatch_aux_ok [OF Suc.prems(1), of p pos]
  consider (error) err where "gmatch_aux s p pos = Inl err" | (none) "gmatch_aux s p pos = Inr None"
    | (some) pos' vs where "gmatch_aux s p pos = Inr (Some (pos', vs))"
    by (metis obj_sumE option.exhaust prod.exhaust)
  then show ?case
  proof cases
    case (some pos' vs)
    then have pos': "pos < pos'" "pos' \<le> length s + 1" using aux by auto
    then have n: "length s + 2 \<le> pos' + n" "0 < n" using Suc.prems(2) by auto
    show ?thesis
      using Suc.IH [OF Suc.prems(1) n] some pos'
      by (auto split: sum.splits option.splits)
  qed (use aux in simp_all)
qed simp

text \<open>C16: A loop over \<open>string.gmatch\<close> ends, for every source and pattern: the iterator returns nil after at most
  one match for every position of the source and its end, or raises an error that is not a fault.\<close>

theorem gmatch_ends:
  assumes "length s < 2 ^ 30"
  shows "case gmatch_run (length s + 2) s p 0 of
     Inl err \<Rightarrow> regular_error p err
   | Inr None \<Rightarrow> False
   | Inr (Some vss) \<Rightarrow> length vss \<le> length s + 1"
  using gmatch_run_ends [of s 0 "length s + 2" p, unfolded diff_zero] assms by (simp del: gmatch_run.simps)

theorem gmatch_ends_witness:
  "(case gmatch_run (length [97, 98, 97 :: u8] + 2) [97, 98, 97] [97, 42] 0 of
     Inl err \<Rightarrow> regular_error [97, 42] err
   | Inr None \<Rightarrow> False
   | Inr (Some vss) \<Rightarrow> length vss \<le> length [97, 98, 97 :: u8] + 1)
   \<and> gmatch_run 5 [97, 98, 97] [97, 42] 0 = Inr (Some [[LStr [97]], [LStr []], [LStr [97]], [LStr []]])"
proof
  show "case gmatch_run (length [97, 98, 97 :: u8] + 2) [97, 98, 97] [97, 42] 0 of
     Inl err \<Rightarrow> regular_error [97, 42] err
   | Inr None \<Rightarrow> False
   | Inr (Some vss) \<Rightarrow> length vss \<le> length [97, 98, 97 :: u8] + 1"
    by (rule gmatch_ends) simp
  show "gmatch_run 5 [97, 98, 97] [97, 42] 0 = Inr (Some [[LStr [97]], [LStr []], [LStr [97]], [LStr []]])"
    by code_simp
qed

end
