(* ===== verification/Lua_Gsub.thy ===== *)
theory Lua_Gsub
  imports Lua_Find
begin

text \<open>
  \<open>string.gsub\<close>: its result is the source with the leftmost matches replaced, the count is the number of
  replacements, and no call reads outside the strings. A run is described by the list of its pieces, the
  characters it keeps and the matches it replaces. A replacement string is compared with its reading as a template
  that is parsed first (\<open>parse_template\<close>).
\<close>

section \<open>Pieces\<close>

datatype piece = Kept u8 | Replaced nat nat bytes

fun original :: "bytes \<Rightarrow> piece \<Rightarrow> bytes" where
  "original src (Kept c) = [c]"
| "original src (Replaced s e x) = take (e - s) (drop s src)"

fun replaced_text :: "piece \<Rightarrow> bytes" where
  "replaced_text (Kept c) = [c]"
| "replaced_text (Replaced s e x) = x"

fun is_replaced :: "piece \<Rightarrow> bool" where
  "is_replaced (Kept c) = False"
| "is_replaced (Replaced s e x) = True"

text \<open>A character is kept where the pattern has no result or only the empty one that was just replaced;
  when the number of replacements is limited or the pattern is anchored, anywhere (\<open>every\<close> is False).\<close>

inductive gsub_trace ::
  "(int \<Rightarrow> bytes) \<Rightarrow> bytes \<Rightarrow> bytes \<Rightarrow> 'g replacement \<Rightarrow> bool \<Rightarrow> piece list \<Rightarrow> nat \<Rightarrow> bool \<Rightarrow> bool"
  for tostr :: "int \<Rightarrow> bytes" and src pat :: bytes and repl :: "'g replacement" and every :: bool where
  start: "gsub_trace tostr src pat repl every [] 0 False"
| kept: "gsub_trace tostr src pat repl every ps s after \<Longrightarrow> s < length src \<Longrightarrow>
    (every \<Longrightarrow> after \<or> results src pat [] s 0 = []) \<Longrightarrow>
    gsub_trace tostr src pat repl every (ps @ [Kept (src ! s)]) (s + 1) False"
| replaced: "gsub_trace tostr src pat repl every ps s False \<Longrightarrow> found src pat s e ms \<Longrightarrow>
    add_value tostr src repl ms s e g = Inr (x, g') \<Longrightarrow>
    gsub_trace tostr src pat repl every (ps @ [Replaced s e x]) e (e = s)"

lemma found_le: "found src pat s e ms \<Longrightarrow> s \<le> e \<and> e \<le> length src"
  by (simp add: found_def state_ok_def)

lemma trace_original:
  "gsub_trace tostr src pat repl every ps s after \<Longrightarrow>
   s \<le> length src \<and> concat (map (original src) ps) = take s src"
proof (induction rule: gsub_trace.induct)
  case (kept ps s after)
  then show ?case by (simp add: take_Suc_conv_app_nth)
next
  case (replaced ps s e ms g x g')
  then show ?case using found_le [of src pat s e ms] by (simp flip: take_add)
qed simp

lemma trace_count:
  "gsub_trace tostr src pat repl every ps s after \<Longrightarrow>
   length (filter is_replaced ps) \<le> (if after then s + 1 else s)"
proof (induction rule: gsub_trace.induct)
  case (replaced ps s e ms g x g')
  then show ?case using found_le [of src pat s e ms] by simp
qed (simp_all split: if_splits)

lemma trace_tail:
  "gsub_trace tostr src pat repl False ps s after \<Longrightarrow>
   \<exists>after'. gsub_trace tostr src pat repl False (ps @ map Kept (drop s src)) (length src) after'"
proof (induction "length src - s" arbitrary: ps s after)
  case 0
  then have "s = length src" using trace_original by fastforce
  then show ?case using 0 by auto
next
  case (Suc n)
  then have s: "s < length src" and n: "n = length src - (s + 1)" by simp_all
  have "gsub_trace tostr src pat repl False (ps @ [Kept (src ! s)]) (s + 1) False"
    by (rule gsub_trace.kept [OF Suc.prems s]) simp
  from Suc.hyps(1) [OF n this] show ?case
    using s by (simp flip: Cons_nth_drop_Suc)
qed

section \<open>Errors of the replacement\<close>

fun calls_regular :: "'g replacement \<Rightarrow> bool" where
  "calls_regular (ReplString news) \<longleftrightarrow> True"
| "calls_regular (ReplTable look) \<longleftrightarrow> (\<forall>v g e. look v g = Inl e \<longrightarrow> e = CallError)"
| "calls_regular (ReplFunction call) \<longleftrightarrow> (\<forall>vs g e. call vs g = Inl e \<longrightarrow> e = CallError)"

definition value_error :: "pattern_error \<Rightarrow> bool" where
  "value_error e \<longleftrightarrow> e \<in> {InvalidCapture, UnfinishedCapture, InvalidReplacementEscape, InvalidReplacementValue, CallError}"

lemma value_error_regular: "value_error e \<Longrightarrow> regular_error pat e"
  by (auto simp: value_error_def regular_error_def)

lemma push_onecapture_error:
  assumes "state_ok src e ms" "s \<le> e" "push_onecapture src ms i (Some (s, e)) = Inl err"
  shows "value_error err"
proof (cases "i < ms_level ms")
  case True
  then show ?thesis
    using assms(3) unfolding push_onecapture_eq [OF assms(1) True]
    by (simp add: capture_value_def value_error_def split: if_splits)
next
  case False
  then show ?thesis
    using assms by (auto simp: push_onecapture_def raw_slice_ok state_ok_def value_error_def split: if_splits)
qed

lemma and_then_eq_Inl: "and_then r f = Inl e \<longleftrightarrow> r = Inl e \<or> (\<exists>x. r = Inr x \<and> f x = Inl e)"
  by (cases r) simp_all

lemma add_s_error:
  assumes "state_ok src e ms" "s \<le> e"
  shows "add_s tostr src ms news s e = Inl err \<Longrightarrow> value_error err"
proof (induction news rule: length_induct)
  case (1 news)
  have slice: "raw_slice src s (e - s) = Inr (take (e - s) (drop s src))"
    using assms by (simp add: raw_slice_ok state_ok_def)
  have escape: "value_error InvalidReplacementEscape" by (simp add: value_error_def)
  consider "news = []" | c where "news = [c]" | c d rest where "news = c # d # rest"
    by (metis list.exhaust)
  then show ?case
  proof cases
    case 1
    then show ?thesis using "1.prems" by simp
  next
    case (2 c)
    then show ?thesis using "1.prems" escape by (auto split: if_splits)
  next
    case (3 c d rest)
    then have IH: "add_s tostr src ms (d # rest) s e = Inl err \<Longrightarrow> value_error err"
        "add_s tostr src ms rest s e = Inl err \<Longrightarrow> value_error err"
      using "1.IH" [rule_format, of "d # rest"] "1.IH" [rule_format, of rest] by (simp_all del: add_s.simps)
    note step = "1.prems" [unfolded 3 add_s.simps(2) [of tostr src ms c "d # rest" s e] list.case]
    show ?thesis
    proof (cases "c = L_ESC")
      case False
      then show ?thesis using step IH(1) by (simp add: and_then_eq_Inl del: add_s.simps)
    next
      case True
      then show ?thesis
        using step IH(2) escape push_onecapture_error [OF assms, of "unat d - 49" err]
        by (auto simp: and_then_eq_Inl slice simp del: add_s.simps split: if_split_asm)
    qed
  qed
qed

lemma add_value_error:
  assumes "state_ok src e ms" "s \<le> e" "calls_regular repl" "add_value tostr src repl ms s e g = Inl err"
  shows "value_error err"
proof -
  have slice: "raw_slice src s (e - s) = Inr (take (e - s) (drop s src))"
    using assms by (simp add: raw_slice_ok state_ok_def)
  have rtext: "value_error err" if "replacement_text tostr src s e v = Inl err" for v
    using that by (auto simp: replacement_text_def slice value_error_def split: lua_value.splits)
  have call: "value_error CallError" by (simp add: value_error_def)
  show ?thesis
  proof (cases repl)
    case (ReplString news)
    then show ?thesis using assms(4) add_s_error [OF assms(1,2)] by (simp add: add_value_def and_then_eq_Inl)
  next
    case (ReplTable look)
    have called: "err = CallError" if "look v g = Inl err" for v
      using that assms(3) unfolding ReplTable calls_regular.simps by blast
    from ReplTable consider "push_onecapture src ms 0 (Some (s, e)) = Inl err" | v where "look v g = Inl err"
      | v where "replacement_text tostr src s e v = Inl err"
      using assms(4) by (auto simp: add_value_def and_then_eq_Inl)
    then show ?thesis
      by cases (use push_onecapture_error [OF assms(1,2)] rtext call called in blast)+
  next
    case (ReplFunction f)
    have called: "err = CallError" if "f vs g = Inl err" for vs
      using that assms(3) unfolding ReplFunction calls_regular.simps by blast
    from ReplFunction consider "push_captures src ms (Some (s, e)) = Inl err" | vs where "f vs g = Inl err"
      | v where "replacement_text tostr src s e v = Inl err"
      using assms(4) by (auto simp: add_value_def and_then_eq_Inl)
    then show ?thesis
    proof cases
      case 1
      then have "err = UnfinishedCapture"
        using push_captures_eq(2) [OF assms(1,2)] by (auto dest: match_values_error)
      then show ?thesis by (simp add: value_error_def)
    qed (use rtext call called in blast)+
  qed
qed

section \<open>The loop\<close>

definition loop_ok ::
  "(int \<Rightarrow> bytes) \<Rightarrow> bytes \<Rightarrow> bytes \<Rightarrow> 'g replacement \<Rightarrow> bool \<Rightarrow> int \<Rightarrow> (nat \<times> int \<times> bytes \<times> 'g) presult \<Rightarrow> bool" where
  "loop_ok tostr src pat repl every max_s r = (case r of
     Inl e \<Rightarrow> regular_error pat e
   | Inr (s, n, b, g) \<Rightarrow> \<exists>ps after.
       gsub_trace tostr src pat repl every ps s after \<and> b = concat (map replaced_text ps) \<and>
       n = int (length (filter is_replaced ps)) \<and> n \<le> max 0 max_s \<and> (every \<longrightarrow> s = length src))"

lemma gsub_step:
  assumes "n < max_s" "ready ms"
  shows "gsub_loop tostr src pat anchor max_s repl ms s n b g =
    and_then (match_item src pat match_fuel (ms\<lparr>ms_level := 0\<rparr>) s 0) (\<lambda>(res, ms).
          and_then (gsub_value tostr src repl ms s res n b g) (\<lambda>(n', b, g).
            let e = (case res of Some e \<Rightarrow> e | None \<Rightarrow> s) in
            if e > s then
              (if anchor then Inr (e, n', b, g)
               else gsub_loop tostr src pat anchor max_s repl ms e n' b g)
            else if s < length src then
              (if anchor then Inr (s + 1, n', b @ [src ! s], g)
               else gsub_loop tostr src pat anchor max_s repl ms (s + 1) n' (b @ [src ! s]) g)
            else Inr (s, n', b, g)))"
  using assms
  by (simp add: gsub_loop.simps [of tostr src pat anchor max_s repl ms s n b g] ready_reprepstate byte_at_def
      del: match_item.simps cong: if_cong)

lemma loop_ok_intro:
  "gsub_trace tostr src pat repl every ps s after \<Longrightarrow> n = int (length (filter is_replaced ps)) \<Longrightarrow>
   n \<le> max 0 max_s \<Longrightarrow> (every \<Longrightarrow> s = length src) \<Longrightarrow>
   loop_ok tostr src pat repl every max_s (Inr (s, n, concat (map replaced_text ps), g))"
  unfolding loop_ok_def by auto

text \<open>Going on behind the current place, or leaving the loop of an anchored pattern.\<close>

lemma gsub_continue:
  assumes "every \<Longrightarrow> \<not> anchor"
    and "gsub_trace tostr src pat repl every ps s False" "n = int (length (filter is_replaced ps))" "n \<le> max 0 max_s"
    and "loop_ok tostr src pat repl every max_s
      (gsub_loop tostr src pat anchor max_s repl ms s n (concat (map replaced_text ps)) g)"
    and "b = concat (map replaced_text ps)"
  shows "loop_ok tostr src pat repl every max_s
      (if anchor then Inr (s, n, b, g) else gsub_loop tostr src pat anchor max_s repl ms s n b g)"
  using assms loop_ok_intro [OF assms(2-4), of g] by auto

lemma gsub_matched:
  assumes calls: "calls_regular repl" and every: "every \<Longrightarrow> \<not> anchor"
    and m: "found src pat s e ms"
    and trace: "gsub_trace tostr src pat repl every ps s False"
    and count: "n = int (length (filter is_replaced ps))" "n < max_s"
    and IH: "\<And>ms s' ps n g. s < s' \<Longrightarrow> s' \<le> length src \<Longrightarrow> ready ms \<Longrightarrow> gsub_trace tostr src pat repl every ps s' False \<Longrightarrow>
      n = int (length (filter is_replaced ps)) \<Longrightarrow> n \<le> max 0 max_s \<Longrightarrow>
      loop_ok tostr src pat repl every max_s
        (gsub_loop tostr src pat anchor max_s repl ms s' n (concat (map replaced_text ps)) g)"
  shows "loop_ok tostr src pat repl every max_s
    (and_then (gsub_value tostr src repl ms s (Some e) n (concat (map replaced_text ps)) g) (\<lambda>(n', b, g).
       if e > s then
         (if anchor then Inr (e, n', b, g) else gsub_loop tostr src pat anchor max_s repl ms e n' b g)
       else if s < length src then
         (if anchor then Inr (s + 1, n', b @ [src ! s], g)
          else gsub_loop tostr src pat anchor max_s repl ms (s + 1) n' (b @ [src ! s]) g)
       else Inr (s, n', b, g)))"
proof (cases "add_value tostr src repl ms s e g")
  case (Inl err)
  then have "value_error err" using add_value_error [of src e ms s repl] m calls by (simp add: found_def)
  then show ?thesis using Inl by (simp add: gsub_value_def loop_ok_def value_error_regular)
next
  case (Inr y)
  obtain x g' where y: "y = (x, g')" by (cases y)
  have e: "s \<le> e" "e \<le> length src" "ready ms" using m found_le [OF m] by (auto simp: found_def)
  define ps' ps'' where "ps' = ps @ [Replaced s e x]" and "ps'' = ps' @ [Kept (src ! s)]"
  have trace': "gsub_trace tostr src pat repl every ps' e (e = s)"
    unfolding ps'_def by (rule gsub_trace.replaced [OF trace m Inr [unfolded y]])
  have n: "n + 1 = int (length (filter is_replaced ps'))" "n + 1 \<le> max 0 max_s"
      "n + 1 = int (length (filter is_replaced ps''))"
    using count by (simp_all add: ps'_def ps''_def)
  have val: "gsub_value tostr src repl ms s (Some e) n (concat (map replaced_text ps)) g =
      Inr (n + 1, concat (map replaced_text ps'), g')"
    using Inr y by (simp add: gsub_value_def ps'_def)
  consider "s < e" | "e = s" "s < length src" | "e = s" "s = length src" using e by linarith
  then show ?thesis
  proof cases
    case 1
    then have t: "gsub_trace tostr src pat repl every ps' e False" using trace' by simp
    show ?thesis
      using gsub_continue [OF every t n(1,2) IH [OF 1 e(2,3) t n(1,2)] refl, of g'] 1 by (simp add: val)
  next
    case 2
    have t: "gsub_trace tostr src pat repl every ps'' (s + 1) False"
      unfolding ps''_def by (rule gsub_trace.kept [OF trace' [unfolded 2(1)] 2(2)]) simp
    have out: "concat (map replaced_text ps') @ [src ! s] = concat (map replaced_text ps'')"
      by (simp add: ps''_def)
    show ?thesis
      using gsub_continue [OF every t n(3,2) IH [OF _ _ e(3) t n(3,2)] out, of g'] 2 by (simp add: val [unfolded 2(1)])
  next
    case 3
    then show ?thesis using loop_ok_intro [OF trace' n(1,2), of g'] by (simp add: val [unfolded 3])
  qed
qed

lemma gsub_loop_ok:
  assumes calls: "calls_regular repl" and len: "length src < 2 ^ 63"
    and every: "every \<Longrightarrow> \<not> anchor \<and> int (length src) < max_s"
  shows "ready ms \<Longrightarrow> gsub_trace tostr src pat repl every ps s False \<Longrightarrow>
    n = int (length (filter is_replaced ps)) \<Longrightarrow> n \<le> max 0 max_s \<Longrightarrow>
    loop_ok tostr src pat repl every max_s
      (gsub_loop tostr src pat anchor max_s repl ms s n (concat (map replaced_text ps)) g)"
proof (induction "length src - s" arbitrary: ms s ps n g rule: less_induct)
  case less
  have s: "s \<le> length src" using trace_original [OF less.prems(2)] by simp
  have every': "\<not> anchor" if every using every that by simp
  show ?case
  proof (cases "n < max_s")
    case False
    have "n \<le> int s" using trace_count [OF less.prems(2)] less.prems(3) by simp
    then have "\<not> every" using every False s by linarith
    moreover have "gsub_loop tostr src pat anchor max_s repl ms s n (concat (map replaced_text ps)) g =
        Inr (s, n, concat (map replaced_text ps), g)"
      using False by (simp add: gsub_loop.simps [of tostr src pat anchor max_s repl ms s n])
    ultimately show ?thesis using loop_ok_intro [OF less.prems(2,3,4)] by simp
  next
    case True
    note step = gsub_step [OF True less.prems(1), of tostr src pat anchor repl s "concat (map replaced_text ps)" g]
    have IH: "loop_ok tostr src pat repl every max_s
        (gsub_loop tostr src pat anchor max_s repl ms s' n (concat (map replaced_text ps)) g)"
      if "s < s'" "s' \<le> length src" "ready ms" "gsub_trace tostr src pat repl every ps s' False"
        "n = int (length (filter is_replaced ps))" "n \<le> max 0 max_s" for ms s' ps n g
      using less.hyps [OF _ that(3-6)] that(1,2) by simp
    show ?thesis
    proof (cases rule: match_cases [OF less.prems(1) s len, of pat, case_names error failed matched])
      case (error e)
      then show ?thesis unfolding step by (simp add: loop_ok_def)
    next
      case (failed ms')
      show ?thesis
      proof (cases "s < length src")
        case False
        then show ?thesis
          unfolding step failed(1) using s loop_ok_intro [OF less.prems(2,3,4)] by (simp add: gsub_value_def)
      next
        case inside: True
        define ps' where "ps' = ps @ [Kept (src ! s)]"
        have t: "gsub_trace tostr src pat repl every ps' (s + 1) False"
          unfolding ps'_def by (rule gsub_trace.kept [OF less.prems(2) inside]) (simp add: failed(3))
        have n: "n = int (length (filter is_replaced ps'))" using less.prems(3) by (simp add: ps'_def)
        have out: "concat (map replaced_text ps) @ [src ! s] = concat (map replaced_text ps')"
          by (simp add: ps'_def)
        show ?thesis
          unfolding step failed(1)
          using gsub_continue [OF every' t n less.prems(4) IH [OF _ _ failed(2) t n less.prems(4)] out, of g] inside
          by (simp add: gsub_value_def)
      qed
    next
      case (matched e ms')
      show ?thesis
        unfolding step matched(1) and_then_simps prod.case Let_def option.case
        by (rule gsub_matched [OF calls every' matched(2) less.prems(2,3) True IH])
    qed
  qed
qed

section \<open>The result\<close>

lemma gsub_correct_trace:
  assumes "length src < 2 ^ 30" and "calls_regular repl"
  shows "case str_gsub tostr src p repl limit g of
      Inl err \<Rightarrow> regular_error (unanchored p) err
    | Inr (b, n, g') \<Rightarrow> \<exists>ps after.
        gsub_trace tostr src (unanchored p) repl (limit = None \<and> \<not> is_anchored p) ps (length src) after \<and>
        concat (map (original src) ps) = src \<and> b = concat (map replaced_text ps) \<and>
        n = int (length (filter is_replaced ps)) \<and>
        n \<le> (case limit of None \<Rightarrow> int (length src) + 1 | Some m \<Rightarrow> max 0 m)"
proof -
  define max_s where "max_s = (case limit of Some m \<Rightarrow> m | None \<Rightarrow> int (length src) + 1)"
  define every where "every = (limit = None \<and> \<not> is_anchored p)"
  define r where "r = gsub_loop tostr src (unanchored p) (is_anchored p) max_s repl prepstate 0 0 [] g"
  have eq: "str_gsub tostr src p repl limit g =
      and_then r (\<lambda>(s, n, b, g). and_then (raw_slice src s (length src - s)) (\<lambda>rest. Inr (b @ rest, n, g)))"
    using assms(1) by (cases limit) (simp_all add: str_gsub_def r_def max_s_def wrap_i32_small Let_def)
  have "loop_ok tostr src (unanchored p) repl every max_s r"
    unfolding r_def using gsub_loop_ok [OF assms(2), of src every "is_anchored p" max_s prepstate tostr "unanchored p" "[]" 0 0 g]
      assms(1) by (simp add: every_def max_s_def gsub_trace.start)
  note ok = this
  show ?thesis
  proof (cases r)
    case (Inl err)
    then show ?thesis using ok by (simp add: eq loop_ok_def)
  next
    case (Inr x)
    obtain s n b g' where x: "x = (s, n, b, g')" by (cases x)
    then obtain ps after where ps: "gsub_trace tostr src (unanchored p) repl every ps s after"
        "b = concat (map replaced_text ps)" "n = int (length (filter is_replaced ps))" "n \<le> max 0 max_s"
        "every \<longrightarrow> s = length src"
      using ok Inr by (auto simp: loop_ok_def)
    define qs where "qs = ps @ map Kept (drop s src)"
    have s: "s \<le> length src" using trace_original [OF ps(1)] by simp
    have "\<exists>after'. gsub_trace tostr src (unanchored p) repl every qs (length src) after'"
      using ps(1,5) trace_tail [of tostr src "unanchored p" repl ps s after] unfolding qs_def by (cases every) auto
    then obtain after' where qs: "gsub_trace tostr src (unanchored p) repl every qs (length src) after'" ..
    have kept: "concat (map replaced_text (map Kept xs)) = xs" "filter is_replaced (map Kept xs) = []" for xs
      by (induction xs) simp_all
    have out: "concat (map replaced_text qs) = b @ drop s src" "n = int (length (filter is_replaced qs))"
      using ps(2,3) kept by (simp_all add: qs_def)
    have "str_gsub tostr src p repl limit g = Inr (b @ drop s src, n, g')"
      using s by (simp add: eq Inr x raw_slice_def)
    moreover have "n \<le> (case limit of None \<Rightarrow> int (length src) + 1 | Some m \<Rightarrow> max 0 m)"
      using ps(4) by (cases limit) (simp_all add: max_s_def)
    ultimately show ?thesis
      using qs out trace_original [OF qs] by (auto simp: every_def)
  qed
qed

text \<open>A replacement that stands for the whole match leaves the source as it is.\<close>

definition keeps_match :: "'g replacement \<Rightarrow> bool" where
  "keeps_match repl \<longleftrightarrow> (case repl of
     ReplString news \<Rightarrow> news = [L_ESC, 48]
   | ReplTable look \<Rightarrow> \<forall>v g. \<exists>g'. look v g = Inr (LNil, g')
   | ReplFunction call \<Rightarrow> \<forall>vs g. \<exists>g'. call vs g = Inr (LNil, g'))"

lemma keeps_match_value:
  assumes "keeps_match repl" "found src pat s e ms" "add_value tostr src repl ms s e g = Inr (x, g')"
  shows "x = take (e - s) (drop s src)"
proof -
  have slice: "raw_slice src s (e - s) = Inr (take (e - s) (drop s src))"
    using found_le [OF assms(2)] by (simp add: raw_slice_ok)
  show ?thesis
  proof (cases repl)
    case (ReplString news)
    then show ?thesis using assms(1,3) slice by (simp add: keeps_match_def add_value_def is_ascii_digit_def)
  next
    case (ReplTable look)
    then obtain v where v: "and_then (look v g) (\<lambda>(r, g). and_then (replacement_text tostr src s e r) (\<lambda>x. Inr (x, g))) = Inr (x, g')"
      using assms(3) by (auto simp: add_value_def)
    obtain h where "look v g = Inr (LNil, h)" using assms(1) ReplTable by (fastforce simp: keeps_match_def)
    then show ?thesis using v slice by (simp add: replacement_text_def)
  next
    case (ReplFunction call)
    then obtain vs where v: "and_then (call vs g) (\<lambda>(r, g). and_then (replacement_text tostr src s e r) (\<lambda>x. Inr (x, g))) = Inr (x, g')"
      using assms(3) by (auto simp: add_value_def)
    obtain h where "call vs g = Inr (LNil, h)" using assms(1) ReplFunction by (fastforce simp: keeps_match_def)
    then show ?thesis using v slice by (simp add: replacement_text_def)
  qed
qed

lemma keeps_match_trace:
  "gsub_trace tostr src pat repl every ps s after \<Longrightarrow> keeps_match repl \<Longrightarrow>
   map replaced_text ps = map (original src) ps"
  by (induction rule: gsub_trace.induct) (simp_all add: keeps_match_value)

lemma gsub_keeps_source:
  assumes "length src < 2 ^ 30" "calls_regular repl" "keeps_match repl" "str_gsub tostr src p repl limit g = Inr (b, n, g')"
  shows "b = src"
proof -
  obtain ps after where ps:
      "gsub_trace tostr src (unanchored p) repl (limit = None \<and> \<not> is_anchored p) ps (length src) after"
      "concat (map (original src) ps) = src" "b = concat (map replaced_text ps)"
    using gsub_correct_trace [OF assms(1,2), where tostr = tostr and p = p and limit = limit and g = g] assms(4) by auto
  then show ?thesis using keeps_match_trace [OF ps(1) assms(3)] by simp
qed

text \<open>C12: \<open>string.gsub\<close> keeps the source between the matches it replaces: its result and the source
  are made of the same pieces, the count is the number of replaced matches, it does not exceed the limit, and
  without a limit and an anchor a character is kept only where the pattern has no result, or the empty one that was
  replaced in front of it. An error is not a memory fault.\<close>

theorem gsub_correct:
  assumes "length src < 2 ^ 30" and "calls_regular repl"
  shows "case str_gsub tostr src p repl limit g of
      Inl err \<Rightarrow> regular_error (unanchored p) err
    | Inr (b, n, g') \<Rightarrow> \<exists>ps after.
        gsub_trace tostr src (unanchored p) repl (limit = None \<and> \<not> is_anchored p) ps (length src) after \<and>
        concat (map (original src) ps) = src \<and> b = concat (map replaced_text ps) \<and>
        n = int (length (filter is_replaced ps)) \<and>
        n \<le> (case limit of None \<Rightarrow> int (length src) + 1 | Some m \<Rightarrow> max 0 m)"
  by (rule gsub_correct_trace [OF assms])

theorem gsub_correct_witness:
  "(case str_gsub (\<lambda>n. []) [97, 98, 97] [40, 97, 41] (ReplString [37, 49, 37, 48]) None () of
      Inl err \<Rightarrow> regular_error (unanchored [40, 97, 41]) err
    | Inr (b, n, g') \<Rightarrow> \<exists>ps after.
        gsub_trace (\<lambda>n. []) [97, 98, 97] (unanchored [40, 97, 41]) (ReplString [37, 49, 37, 48] :: unit replacement)
          ((None :: int option) = None \<and> \<not> is_anchored [40, 97, 41]) ps (length [97, 98, 97 :: u8]) after \<and>
        concat (map (original [97, 98, 97]) ps) = [97, 98, 97] \<and> b = concat (map replaced_text ps) \<and>
        n = int (length (filter is_replaced ps)) \<and>
        n \<le> (case None of None \<Rightarrow> int (length [97, 98, 97 :: u8]) + 1 | Some m \<Rightarrow> max 0 m))
   \<and> str_gsub (\<lambda>n. []) [97, 98, 97] [40, 97, 41] (ReplString [37, 49, 37, 48]) None () =
       Inr ([97, 97, 98, 97, 97], 2, ())"
proof (rule conjI, rule gsub_correct)
  show "str_gsub (\<lambda>n. []) [97, 98, 97] [40, 97, 41] (ReplString [37, 49, 37, 48]) None () =
       Inr ([97, 97, 98, 97, 97], 2, ())" by code_simp
qed simp_all

section \<open>The replacement string\<close>

text \<open>A replacement string as a template, parsed before it is used: literal characters, \<open>%%\<close>, and \<open>%0\<close> to \<open>%9\<close>.\<close>

datatype template_item = Literal u8 | CaptureRef nat

fun parse_template :: "bytes \<Rightarrow> template_item list option" where
  "parse_template [] = Some []"
| "parse_template [c] = (if c = L_ESC then None else Some [Literal c])"
| "parse_template (c # d # rest) =
     (if c \<noteq> L_ESC then map_option ((#) (Literal c)) (parse_template (d # rest))
      else if d = L_ESC then map_option ((#) (Literal L_ESC)) (parse_template rest)
      else if is_ascii_digit d then map_option ((#) (CaptureRef (unat d - 48))) (parse_template rest)
      else None)"

text \<open>Capture 0 is the whole match, and so is capture 1 of a pattern without captures; a position is printed as a number.\<close>

fun item_text :: "(int \<Rightarrow> bytes) \<Rightarrow> bytes \<Rightarrow> nat \<Rightarrow> nat \<Rightarrow> capture list \<Rightarrow> template_item \<Rightarrow> bytes option" where
  "item_text tostr src s e caps (Literal c) = Some [c]"
| "item_text tostr src s e caps (CaptureRef k) =
     (if k = 0 \<or> k = 1 \<and> caps = [] then Some (take (e - s) (drop s src))
      else if length caps < k \<or> cap_len (caps ! (k - 1)) = CAP_UNFINISHED then None
      else if cap_len (caps ! (k - 1)) = CAP_POSITION then Some (tostr (int (cap_init (caps ! (k - 1))) + 1))
      else Some (take (nat (cap_len (caps ! (k - 1)))) (drop (cap_init (caps ! (k - 1))) src)))"

fun items_text :: "(int \<Rightarrow> bytes) \<Rightarrow> bytes \<Rightarrow> nat \<Rightarrow> nat \<Rightarrow> capture list \<Rightarrow> template_item list \<Rightarrow> bytes option" where
  "items_text tostr src s e caps [] = Some []"
| "items_text tostr src s e caps (i # is) = do {
     x \<leftarrow> item_text tostr src s e caps i;
     out \<leftarrow> items_text tostr src s e caps is;
     Some (x @ out)
   }"

definition expand_template :: "(int \<Rightarrow> bytes) \<Rightarrow> bytes \<Rightarrow> nat \<Rightarrow> nat \<Rightarrow> capture list \<Rightarrow> bytes \<Rightarrow> bytes option" where
  "expand_template tostr src s e caps news = Option.bind (parse_template news) (items_text tostr src s e caps)"

text \<open>What a result gives, without the error.\<close>

definition ok_part :: "'a presult \<Rightarrow> 'a option" where
  "ok_part r = (case r of Inl e \<Rightarrow> None | Inr x \<Rightarrow> Some x)"

lemma ok_part_simps [simp]: "ok_part (Inl e) = None" "ok_part (Inr x) = Some x"
  by (simp_all add: ok_part_def)

lemma ok_part_and_then [simp]: "ok_part (and_then r f) = Option.bind (ok_part r) (\<lambda>x. ok_part (f x))"
  by (cases r) simp_all

lemma digit_bounds:
  assumes "is_ascii_digit d"
  shows "d = 48 \<longleftrightarrow> unat d - 48 = 0" and "d \<noteq> L_ESC" and "unat d - 49 = unat d - 48 - 1"
proof -
  have "48 \<le> unat d" using assms by (simp add: is_ascii_digit_def word_le_nat_alt)
  moreover have "d = 48 \<longleftrightarrow> unat d = 48" by (simp add: word_unat_eq_iff)
  ultimately show "d = 48 \<longleftrightarrow> unat d - 48 = 0" by auto
  show "d \<noteq> L_ESC" using assms by (auto simp: is_ascii_digit_def L_ESC_def)
qed simp

abbreviation value_text :: "(int \<Rightarrow> bytes) \<Rightarrow> lua_value \<Rightarrow> bytes" where
  "value_text tostr v \<equiv> (case v of LInt n \<Rightarrow> tostr n | LStr x \<Rightarrow> x | _ \<Rightarrow> [])"

lemma one_capture:
  assumes "state_ok src e ms" "s \<le> e" "0 < k"
  shows "map_option (value_text tostr) (ok_part (push_onecapture src ms (k - 1) (Some (s, e)))) =
    item_text tostr src s e (caps_of ms) (CaptureRef k)"
proof (cases "k - 1 < ms_level ms")
  case True
  then have "caps_of ms \<noteq> []" "\<not> length (caps_of ms) < k" using length_caps [OF assms(1)] assms(3) by auto
  then show ?thesis
    using assms(3) unfolding push_onecapture_eq [OF assms(1) True] by (simp add: capture_value_def)
next
  case False
  then have "length (caps_of ms) < k" using length_caps [OF assms(1)] assms(3) by simp
  moreover have "caps_of ms = []" if "k = 1" using that False length_caps [OF assms(1)] by simp
  ultimately show ?thesis
    using False assms by (auto simp: push_onecapture_def raw_slice_ok state_ok_def)
qed

lemma add_s_expand:
  assumes "state_ok src e ms" "s \<le> e"
  shows "ok_part (add_s tostr src ms news s e) = expand_template tostr src s e (caps_of ms) news"
proof (induction news rule: parse_template.induct)
  case 1
  show ?case by (simp add: expand_template_def)
next
  case (2 c)
  show ?case by (simp add: expand_template_def)
next
  case (3 c d rest)
  have slice: "raw_slice src s (e - s) = Inr (take (e - s) (drop s src))"
    using assms by (simp add: raw_slice_ok state_ok_def)
  note step = add_s.simps(2) [of tostr src ms c "d # rest" s e]
  consider "c \<noteq> L_ESC" | "c = L_ESC" "d = L_ESC" | "c = L_ESC" "d \<noteq> L_ESC" "\<not> is_ascii_digit d"
    | "c = L_ESC" "d = 48" | "c = L_ESC" "d \<noteq> 48" "is_ascii_digit d" by blast
  then show ?case
  proof cases
    case 1
    then show ?thesis
      using "3.IH"(1) unfolding step expand_template_def
      by (cases "parse_template (d # rest)") (simp_all del: add_s.simps parse_template.simps add: parse_template.simps(3))
  next
    case 2
    then have "\<not> is_ascii_digit d" by (simp add: is_ascii_digit_def L_ESC_def)
    then show ?thesis
      using 2 "3.IH"(2) unfolding step expand_template_def
      by (cases "parse_template rest") (simp_all del: add_s.simps)
  next
    case 3
    then show ?thesis unfolding step expand_template_def by simp
  next
    case 4
    then have "is_ascii_digit d" "L_ESC \<noteq> 48" by (simp_all add: is_ascii_digit_def L_ESC_def)
    then show ?thesis
      using 4 "3.IH"(3) slice unfolding step expand_template_def
      by (cases "parse_template rest") (simp_all del: add_s.simps)
  next
    case 5
    note v = digit_bounds [OF 5(3)]
    have k: "0 < unat d - 48" using v(1) 5(2) by simp
    have cap: "item_text tostr src s e (caps_of ms) (CaptureRef (unat d - 48)) =
        map_option (value_text tostr) (ok_part (push_onecapture src ms (unat d - 49) (Some (s, e))))"
      unfolding v(3) by (rule one_capture [OF assms k, symmetric])
    show ?thesis
      using 5 v(2) "3.IH"(3) cap unfolding step expand_template_def
      by (cases "parse_template rest"; cases "push_onecapture src ms (unat d - 49) (Some (s, e))")
        (simp_all del: add_s.simps item_text.simps)
  qed
qed

lemma trace_expands:
  "gsub_trace tostr src pat (ReplString news) every ps n after \<Longrightarrow> Replaced s e x \<in> set ps \<Longrightarrow>
   \<exists>caps rest. results src pat [] s 0 = (e, caps) # rest \<and> expand_template tostr src s e caps news = Some x"
proof (induction rule: gsub_trace.induct)
  case (replaced ps n e' ms g y g')
  show ?case
  proof (cases "Replaced s e x \<in> set ps")
    case True
    then show ?thesis using replaced.IH by blast
  next
    case False
    then have eq: "s = n" "e = e'" "x = y" using replaced.prems by auto
    have m: "state_ok src e' ms" "n \<le> e'" "\<exists>rest. results src pat [] n 0 = (e', caps_of ms) # rest"
      using replaced.hyps(2) by (simp_all add: found_def)
    have "add_s tostr src ms news n e' = Inr y" using replaced.hyps(3) by (auto simp: add_value_def)
    then have "expand_template tostr src n e' (caps_of ms) news = Some y"
      using add_s_expand [OF m(1,2), of tostr news] by simp
    then show ?thesis using m(3) unfolding eq by blast
  qed
qed auto

text \<open>C38: \<open>string.gsub\<close> with a replacement string: the result is the source in which every replaced match, which is the first
  result of the pattern at its place, stands for the expansion of the replacement string with the captures of that
  result: \<open>%0\<close> is the match, \<open>%1\<close> to \<open>%9\<close> the captures, positions as numbers, \<open>%%\<close> a percent sign, and
  everything else itself. At every match the code makes the text exactly when it has that expansion: a percent sign in front of
  another character, a capture that the pattern has not or one that is not closed is an error, nothing else is.\<close>

theorem gsub_expands_template:
  fixes g :: 'g
  assumes "length src < 2 ^ 30"
  shows "(\<forall>s e ms. found src (unanchored p) s e ms \<longrightarrow>
      ok_part (add_value tostr src (ReplString news) ms s e g) =
      map_option (\<lambda>x. (x, g)) (expand_template tostr src s e (caps_of ms) news)) \<and>
    (\<forall>b n g'. str_gsub tostr src p (ReplString news) limit g = Inr (b, n, g') \<longrightarrow>
      (\<exists>ps. concat (map (original src) ps) = src \<and> b = concat (map replaced_text ps) \<and> n = int (length (filter is_replaced ps)) \<and>
        (\<forall>s e x. Replaced s e x \<in> set ps \<longrightarrow>
          (\<exists>caps rest. results src (unanchored p) [] s 0 = (e, caps) # rest \<and> expand_template tostr src s e caps news = Some x))))"
proof (intro conjI allI impI)
  fix s e ms
  assume "found src (unanchored p) s e ms"
  then have "ok_part (add_s tostr src ms news s e) = expand_template tostr src s e (caps_of ms) news"
    by (intro add_s_expand) (simp_all add: found_def)
  then show "ok_part (add_value tostr src (ReplString news) ms s e g) =
      map_option (\<lambda>x. (x, g)) (expand_template tostr src s e (caps_of ms) news)"
    by (simp add: add_value_def option.map_comp map_conv_bind_option comp_def)
next
  fix b n g'
  assume run: "str_gsub tostr src p (ReplString news) limit g = Inr (b, n, g')"
  have "calls_regular (ReplString news :: 'g replacement)" by simp
  from gsub_correct_trace [OF assms(1) this, where tostr = tostr and p = p and limit = limit and g = g]
  obtain ps after where ps:
      "gsub_trace tostr src (unanchored p) (ReplString news :: 'g replacement) (limit = None \<and> \<not> is_anchored p) ps (length src) after"
      "concat (map (original src) ps) = src" "b = concat (map replaced_text ps)" "n = int (length (filter is_replaced ps))"
    unfolding run sum.case prod.case by blast
  then show "\<exists>ps. concat (map (original src) ps) = src \<and> b = concat (map replaced_text ps) \<and> n = int (length (filter is_replaced ps)) \<and>
      (\<forall>s e x. Replaced s e x \<in> set ps \<longrightarrow>
        (\<exists>caps rest. results src (unanchored p) [] s 0 = (e, caps) # rest \<and> expand_template tostr src s e caps news = Some x))"
    using trace_expands [OF ps(1)] by blast
qed

text \<open>\<open>("key=val"):gsub("(%w+)=(%w+)", "%2%%%1")\<close>.\<close>

theorem gsub_expands_template_witness:
  "\<exists>ps. str_gsub (\<lambda>n. []) [107, 61, 118, 59] [40, 37, 119, 43, 41, 61, 40, 37, 119, 43, 41] (ReplString [37, 50, 37, 37, 37, 49]) None () =
      Inr ([118, 37, 107, 59], 1, ()) \<and> concat (map replaced_text ps) = [118, 37, 107, 59] \<and> length (filter is_replaced ps) = 1"
proof -
  have r: "str_gsub (\<lambda>n. []) [107, 61, 118, 59] [40, 37, 119, 43, 41, 61, 40, 37, 119, 43, 41] (ReplString [37, 50, 37, 37, 37, 49]) None () =
      Inr ([118, 37, 107, 59], 1, ())" by code_simp
  have "length [107, 61, 118, 59 :: u8] < 2 ^ 30" by simp
  note g = gsub_expands_template [OF this, where tostr = "\<lambda>n. []" and p = "[40, 37, 119, 43, 41, 61, 40, 37, 119, 43, 41]" and
      news = "[37, 50, 37, 37, 37, 49]" and limit = None and g = "()", THEN conjunct2, rule_format, OF r]
  then obtain ps where "[118, 37, 107, 59] = concat (map replaced_text ps)" "1 = int (length (filter is_replaced ps))" by blast
  then show ?thesis using r by (intro exI [of _ ps]) simp
qed

end
