(* ===== verification/Spec2Isabelle.thy ===== *)
theory Spec2Isabelle
  imports Vec_Deque Dense_Hash Line_Info Bytecode_Patch Jump_Expand Bytecode_Module Bytecode_Validate Lexer_Escape Sort_Order Lua_Refine Lua_Gsub
begin

text \<open>
  A verification development of \<open>luaur\<close>, a Rust implementation of the Luau language (\<open>src/crates/luaur-*\<close>).

  \<^bold>\<open>The program.\<close> A source text is cut into lexemes by the lexer (\<open>luaur-ast\<close>), parsed into a tree, compiled
  (\<open>luaur-compiler\<close>) by way of the bytecode builder (\<open>luaur-bytecode\<close>), which collects constants,
  instructions and debug information, validates them, expands jumps and serialises everything; the
  virtual machine (\<open>luaur-vm\<close>) loads the bytes and runs them. \<open>luaur-common\<close> holds the containers and the
  instruction set that all of them share. The development models the lexer, the bytecode builder and
  the loader with the containers they rest on, the tables of the machine, its one data structure, with their
  sorting, and the pattern matching of its string library.

  \<^bold>\<open>Conventions.\<close> A Rust operation that can panic is a function into \<open>option\<close>, and \<open>None\<close> is the panic, the failed
  \<open>LUAU_ASSERT\<close> or the access out of bounds; a theorem with \<open>Some\<close> on its right-hand side says that the code
  returns. Where the code raises Lua errors as well (tables, sorting, patterns) the result is a sum whose left side
  names the error or the failed assertion. Structs are records, whose fields carry a prefix; enums are datatypes; integers are words
  where they wrap, \<open>i32\<close> values integers that \<open>wrap_i32\<close> reduces; \<open>usize\<close> counts are natural numbers. Loops
  are functions with a termination proof; only \<open>next_with\<close> is a partial function, which is proved
  to return. Floating-point numbers are their bit patterns, and the machine is little-endian.

  \<^bold>\<open>The theories.\<close>
    \<^item> \<open>Luau_Prelude\<close>: the types, the run-time checks, list and word lemmas, and the locale \<open>refines\<close>, the
      contract of a component with an abstract specification, panics included.
    \<^item> \<open>Vec_Deque\<close> (\<open>luaur-common/src/records/vec_deque.rs\<close>): the ring buffer. Its cells are alive or dead, and
      every sequence of operations refines the same sequence on lists (\<open>refines\<close>).
    \<^item> \<open>Dense_Hash\<close> (\<open>dense_hash_table.rs\<close>, \<open>_map.rs\<close>, \<open>_set.rs\<close>): open addressing with quadratic probing, over the
      locale \<open>item_layout\<close> of the map and set layouts; maps refine finite maps, and \<open>intern_map\<close> is the contract
      that the builder uses for its tables.
    \<^item> \<open>Opcode\<close> (\<open>luau_opcode.rs\<close>, the macros \<open>LUAU_INSN_*\<close>): opcodes, instruction lengths, packed words.
    \<^item> \<open>Bytecode_Wire\<close>: byte, word and variable-length encodings of both sides, as instances of the locale \<open>codec\<close>.
    \<^item> \<open>Line_Info\<close>: \<open>write_line_info\<close> and its reader; the window search, baselines and offsets.
    \<^item> \<open>Bytecode_Builder\<close> (\<open>bytecode_builder_*.rs\<close>): the state and the operations that add constants,
      strings, shapes, functions, instructions and debug information, and the invariant that every
      constant is interned once.
    \<^item> \<open>Bytecode_Patch\<close>, \<open>Jump_Expand\<close>: patching, folding and expanding jumps, with the meaning of the code before
      and after (\<open>chain\<close> for chains of unconditional jumps).
    \<^item> \<open>Bytecode_Write\<close>, \<open>Bytecode_Load\<close> (\<open>loadsafe.rs\<close>), \<open>Bytecode_Roundtrip\<close>, \<open>Bytecode_Module\<close>: serialisation,
      deserialisation, and that the one undoes the other, from parts up to whole modules.
    \<^item> \<open>Bytecode_Validate\<close> (\<open>bytecode_builder_validate*.rs\<close>): the validator, and what an accepted function
      guarantees to the machine that runs it, up to the one register it reads as a byte (\<open>operands_checked\<close>).
    \<^item> \<open>Lexer\<close> (\<open>lexer.rs\<close>, \<open>lexer_*.rs\<close>): the state, every reader, and the steps over characters that they
      are made of; \<open>Lexer_Tokens\<close>: every reader returns a located, non-empty lexeme; \<open>Lexer_Next\<close>: \<open>next\<close>,
      \<open>lookahead\<close>, positions, and that every source is lexed to its end; \<open>Lexer_Text\<close>: words, reserved words, long
      strings; \<open>Lexer_Escape\<close>: the in-place rewriting of string contents as decoders, and the printing of
      strings (\<open>escape.rs\<close>) that they undo.
    \<^item> \<open>Table_Sort\<close> (\<open>tsort.rs\<close>, \<open>sort_*.rs\<close> of \<open>luaur-vm\<close>): \<open>table.sort\<close> under any predicate, which reads and changes
      the state with the table in it: the array is threaded through every call, and a call that resizes it is detected
      (\<open>sort_less.rs\<close>); \<open>Sort_Order\<close>: what a sort does to the array (\<open>moves\<close>, \<open>fails\<close>), the locale \<open>weak_order\<close>
      and the sorted result, for the default comparison of strings (\<open>lua_v_strcmp.rs\<close>) in particular.
    \<^item> \<open>Lua_Key\<close> (\<open>t_key.rs\<close>, \<open>mainposition.rs\<close>, \<open>hash*.rs\<close>, \<open>lua_s_hash.rs\<close>, \<open>lua_o_rawequal_key.rs\<close>): keys of Lua tables, their
      comparison and hashes, conversions between \<open>f64\<close> and integers, and that equal keys have one main position.
    \<^item> \<open>Lua_Node\<close> (\<open>newkey.rs\<close>, \<open>getfreepos.rs\<close>): the nodes of the hash part, chained scatter with Brent's variation by
      relative links; \<open>nodes_ok\<close>, and that a search finds the node of a key and an insertion keeps all others.
    \<^item> \<open>Lua_Table\<close> (\<open>lua_h_*.rs\<close>, \<open>rehash.rs\<close>, \<open>resize.rs\<close>, \<open>computesizes.rs\<close> and what they call): the operations of tables;
      \<open>Lua_Access\<close>: the invariant \<open>table_ok\<close>, the contents, and searching, storing and inserting without a rehash;
      \<open>Lua_Resize\<close>: resizing keeps the contents when the sizes suffice; \<open>Lua_Rehash\<close>: the sizes that \<open>rehash\<close> counts
      do suffice, so that a rehash never causes another one; \<open>Lua_Map\<close>: reading and assigning; \<open>Lua_Length\<close>
      (\<open>lua_h_getn.rs\<close>): the length is a border; \<open>Lua_Next\<close> (\<open>lua_h_next.rs\<close>): traversal; \<open>Lua_Refine\<close>: sequences of
      operations implement a function from keys to values (the locale \<open>refines_unless\<close>, where a table limit may end the run).
    \<^item> \<open>Lua_Pattern\<close> (\<open>match.rs\<close> and what it calls): the backtracking matcher of the string library, over two byte strings
      with their terminating NUL, its captures and its depth; \<open>Lua_Match\<close>: the reference \<open>results\<close>, which lists all ways in
      which a pattern matches, best first; \<open>Lua_Matcher\<close>: the locale \<open>match_contract\<close> of the function that the parts of
      the matcher call back, and that \<open>match_item\<close> keeps it at every depth; \<open>Lua_Search\<close> (\<open>str_find_aux.rs\<close>,
      \<open>lmemfind.rs\<close>, \<open>gmatch_aux.rs\<close>, \<open>str_gsub.rs\<close>, \<open>add_s.rs\<close>, \<open>add_value.rs\<close>, \<open>push_captures.rs\<close>): the functions of the
      library; \<open>Lua_Find\<close>: searching, plain and with the matcher, and the iterator; \<open>Lua_Gsub\<close>: substitution, the pieces of a
      result (\<open>gsub_trace\<close>) and the text that a replacement string puts in (\<open>expand_template\<close>).

  \<^bold>\<open>Bounds.\<close> A source is shorter than 2 GB (offsets are natural numbers, lines and columns 32-bit words); a
  buffer has fewer than \<open>2 ^ 63\<close> bytes; the scans of a hash table run once per slot, which is the fuel they
  are given; the window search of the line information halves \<open>2 ^ 24\<close>, so it ends. A search in the nodes of a table
  visits at most all of them, which is its fuel, and \<open>newkey\<close> nests at most twice. The 64-bit integer keys of a table are at most
  \<open>2 ^ 53\<close> in size, as the code compares them as doubles (\<open>integer_keys_collide\<close>).
  The fuel of \<open>match_item\<close> is one more than its depth limit of 200, and a Lua string is shorter than \<open>2 ^ 30\<close> bytes.

  \<^bold>\<open>Not modelled.\<close> The parser and the syntax trees (arena pointers), the compiler, the bytecode graph and inliner,
  the interpreter loop, the garbage collector (so keys of dead objects, weak tables and memory accounting of tables) and the
  standard library of the machine other than \<open>table.sort\<close> and the patterns of strings, the type checker,
  native code generation, and the command-line and embedding glue; of the modelled parts the printing of
  lexemes and of bytecode dumps. Memory exhaustion and the bitwise copies of \<open>operator_assign\<close> are left out.
\<close>

section \<open>The hash of strings\<close>

text \<open>\<open>get_string_hash\<close> of the builder, from which the compiler predicts the main position of a constant key in a table, is
  the hash of the machine for strings of fewer than 32 bytes.\<close>

lemma string_hashes_agree: "length s < 32 \<Longrightarrow> get_string_hash s = luaS_hash s"
  unfolding get_string_hash_def luaS_hash_def
  by (subst hash_blocks.simps) (simp add: foldr_conv_foldl hash_char_def [abs_def])

end
